(* ===== verification/Prelude.thy ===== *)
theory Prelude
  imports Main "HOL-Library.Word"
begin

text \<open>
  Shared vocabulary of the development: the C integer types as words, the outcome of a
  kernel routine (it returns, it panics, or it never returns), the alignment macros that
  every memory component of the kernel repeats, and the kernel's virtual memory as a map
  from addresses to bytes with 64-bit little-endian accesses. The locale \<open>word_store\<close> is
  the interface through which the page-table and heap theories see that memory.
\<close>

unbundle bit_operations_syntax

section \<open>Machine types\<close>

type_synonym u8 = "8 word"
type_synonym u16 = "16 word"
type_synonym u32 = "32 word"
type_synonym u64 = "64 word"

text \<open>Addresses are \<open>uintptr_t\<close> values; NULL is 0.\<close>

type_synonym memory = "u64 \<Rightarrow> u8"

named_theorems outcome_simps \<open>decomposition of sequenced kernel calls\<close>
named_theorems align_simps \<open>the alignment macros on natural numbers\<close>
lemma unat_u64_less [simp]: "unat (x :: u64) < 18446744073709551616"
  using unsigned_less [of x, where 'a = nat] by simp

lemma unat_u64_le [simp]: "unat (x :: u64) \<le> 18446744073709551616"
  by (simp add: less_imp_le)

lemma unat_of_nat_u64: "n < 2 ^ 64 \<Longrightarrow> unat (of_nat n :: u64) = n"
  unfolding unsigned_of_nat take_bit_eq_mod by simp

lemma unat_offset: "n < 2 ^ 64 \<Longrightarrow> unat ((p :: u64) + of_nat n - p) = n"
  by (simp add: unat_of_nat_u64)

section \<open>Outcomes of kernel routines\<close>

text \<open>
  \<open>panic()\<close> prints its message and halts, so a panic is a final outcome that carries the
  format string; \<open>Diverge\<close> is a loop that never ends, such as spinning on a lock that the
  only running task already holds.
\<close>

datatype 'a outcome = Done 'a | Panic string | Diverge

primrec bind_outcome :: "'a outcome \<Rightarrow> ('a \<Rightarrow> 'b outcome) \<Rightarrow> 'b outcome" where
  "bind_outcome (Done a) f = f a"
| "bind_outcome (Panic msg) f = Panic msg"
| "bind_outcome Diverge f = Diverge"

lemma bind_outcome_eq_Done [outcome_simps]:
  "bind_outcome m f = Done b \<longleftrightarrow> (\<exists>a. m = Done a \<and> f a = Done b)"
  by (cases m) auto

lemma bind_outcome_assoc: "bind_outcome (bind_outcome m f) g = bind_outcome m (\<lambda>a. bind_outcome (f a) g)"
  by (cases m) simp_all

lemma bind_outcome_Done [simp]: "bind_outcome m Done = m"
  by (cases m) simp_all

lemma bind_outcome_eq_Panic [outcome_simps]:
  "bind_outcome m f = Panic msg \<longleftrightarrow> m = Panic msg \<or> (\<exists>a. m = Done a \<and> f a = Panic msg)"
  by (cases m) auto

lemma bind_outcome_eq_Diverge [outcome_simps]:
  "bind_outcome m f = Diverge \<longleftrightarrow> m = Diverge \<or> (\<exists>a. m = Done a \<and> f a = Diverge)"
  by (cases m) auto

text \<open>A counted \<open>for\<close> loop whose body may panic: the body runs for \<open>i\<close>, \<open>i + 1\<close>, \dots\<close>

fun for_outcome :: "nat list \<Rightarrow> (nat \<Rightarrow> 's \<Rightarrow> 's outcome) \<Rightarrow> 's \<Rightarrow> 's outcome" where
  "for_outcome [] body s = Done s"
| "for_outcome (i # is) body s = bind_outcome (body i s) (for_outcome is body)"

lemma for_outcome_append:
  "for_outcome (is @ js) body s = bind_outcome (for_outcome is body s) (for_outcome js body)"
proof (induction "is" arbitrary: s)
  case (Cons i "is")
  then show ?case by (cases "body i s") simp_all
qed simp

lemma for_outcome_invariant:
  assumes "for_outcome is body s = Done s'" and "P s"
    and "\<And>i s s'. i \<in> set is \<Longrightarrow> P s \<Longrightarrow> body i s = Done s' \<Longrightarrow> P s'"
  shows "P s'"
  using assms
proof (induction "is" arbitrary: s)
  case (Cons i "is")
  from Cons.prems(1) obtain t where t: "body i s = Done t" "for_outcome is body t = Done s'"
    by (auto simp: outcome_simps)
  have "P t" by (rule Cons.prems(3) [OF _ Cons.prems(2) t(1)]) simp
  show ?case
    by (rule Cons.IH [OF t(2) \<open>P t\<close>]) (rule Cons.prems(3), auto)
qed simp

text \<open>
  A \<open>while\<close> loop. The fuel bounds the number of rounds; running out of it is the value for a
  loop that does not end, so each use states why its fuel is enough for every run that ends.
\<close>

primrec while_outcome :: "nat \<Rightarrow> ('s \<Rightarrow> bool) \<Rightarrow> ('s \<Rightarrow> 's outcome) \<Rightarrow> 's \<Rightarrow> 's outcome" where
  "while_outcome 0 c body s = Diverge"
| "while_outcome (Suc n) c body s =
     (if c s then bind_outcome (body s) (while_outcome n c body) else Done s)"

lemma while_outcome_step:
  "0 < n \<Longrightarrow> while_outcome n c body s =
     (if c s then bind_outcome (body s) (while_outcome (n - 1) c body) else Done s)"
  by (cases n) simp_all

lemma while_outcome_fuel:
  "while_outcome n c body s = Done t \<Longrightarrow> n \<le> m \<Longrightarrow> while_outcome m c body s = Done t"
proof (induction n arbitrary: m s)
  case (Suc n)
  then obtain k where "m = Suc k" "n \<le> k" by (cases m) auto
  with Suc show ?case by (auto simp: outcome_simps split: if_splits)
qed simp

lemma while_outcome_invariant:
  assumes "while_outcome n c body s = Done t" and "P s"
    and "\<And>s s'. P s \<Longrightarrow> c s \<Longrightarrow> body s = Done s' \<Longrightarrow> P s'"
  shows "P t \<and> \<not> c t"
  using assms
proof (induction n arbitrary: s)
  case (Suc n)
  show ?case
  proof (cases "c s")
    case True
    with Suc.prems(1) obtain u where u: "body s = Done u" "while_outcome n c body u = Done t"
      by (auto simp: outcome_simps)
    show ?thesis by (rule Suc.IH [OF u(2) Suc.prems(3) [OF Suc.prems(2) True u(1)] Suc.prems(3)])
  qed (use Suc in simp)
qed simp

lemma while_outcome_total:
  assumes "P s" and "f s < n"
    and "\<And>s. P s \<Longrightarrow> c s \<Longrightarrow> \<exists>s'. body s = Done s' \<and> P s' \<and> (f s' :: nat) < f s"
  shows "\<exists>t. while_outcome n c body s = Done t"
  using assms(1,2)
proof (induction n arbitrary: s)
  case (Suc n)
  show ?case
  proof (cases "c s")
    case True
    from assms(3) [OF Suc.prems(1) this] obtain u where "body s = Done u" "P u" "f u < f s" by blast
    with Suc True show ?thesis by simp
  qed simp
qed simp

text \<open>\<open>ends Q x\<close>: the routine does not loop for ever, and \<open>Q\<close> holds of what it returns; it may
  panic.\<close>

primrec ends :: "('a \<Rightarrow> bool) \<Rightarrow> 'a outcome \<Rightarrow> bool" where
  "ends Q (Done a) \<longleftrightarrow> Q a"
| "ends Q (Panic msg) \<longleftrightarrow> True"
| "ends Q Diverge \<longleftrightarrow> False"

lemma ends_mono: "ends P x \<Longrightarrow> (\<And>a. P a \<Longrightarrow> Q a) \<Longrightarrow> ends Q x"
  by (cases x) simp_all

lemma ends_DoneD: "ends P x \<Longrightarrow> x = Done a \<Longrightarrow> P a"
  by simp

lemma ends_bind: "ends P x \<Longrightarrow> (\<And>a. P a \<Longrightarrow> ends Q (f a)) \<Longrightarrow> ends Q (bind_outcome x f)"
  by (cases x) simp_all

lemma ends_for:
  assumes "P k s" and "\<And>i s. k \<le> i \<Longrightarrow> i < n \<Longrightarrow> P i s \<Longrightarrow> ends (P (Suc i)) (body i s)" and "k \<le> n"
  shows "ends (P n) (for_outcome [k..<n] body s)"
  using assms
proof (induction "n - k" arbitrary: k s)
  case (Suc d)
  then have "[k..<n] = k # [Suc k..<n]" by (simp add: upt_conv_Cons)
  moreover have "ends (P n) (bind_outcome (body k s) (for_outcome [Suc k..<n] body))"
  proof (rule ends_bind)
    show "ends (P (Suc k)) (body k s)" using Suc by simp
    fix t assume "P (Suc k) t"
    then show "ends (P n) (for_outcome [Suc k..<n] body t)"
      using Suc.hyps(2) Suc.prems(2) by (intro Suc.hyps(1)) simp_all
  qed
  ultimately show ?case by simp
qed simp

lemma ends_while:
  assumes "P s" and "f s < n"
    and "\<And>s. P s \<Longrightarrow> c s \<Longrightarrow> ends (\<lambda>s'. P s' \<and> (f s' :: nat) < f s) (body s)"
  shows "ends (\<lambda>t. P t \<and> \<not> c t) (while_outcome n c body s)"
  using assms(1,2)
proof (induction n arbitrary: s)
  case (Suc n)
  show ?case
  proof (cases "c s")
    case True
    have "ends (\<lambda>t. P t \<and> \<not> c t) (bind_outcome (body s) (while_outcome n c body))"
      using Suc.prems(2) by (intro ends_bind [OF assms(3) [OF Suc.prems(1) True]] Suc.IH) simp_all
    with True show ?thesis by simp
  qed (use Suc in simp)
qed simp

text \<open>\<open>runs Q x\<close>: the routine returns, and \<open>Q\<close> holds of what it returns.\<close>

primrec runs :: "('a \<Rightarrow> bool) \<Rightarrow> 'a outcome \<Rightarrow> bool" where
  "runs Q (Done a) \<longleftrightarrow> Q a"
| "runs Q (Panic msg) \<longleftrightarrow> False"
| "runs Q Diverge \<longleftrightarrow> False"

lemma runs_iff: "runs Q x \<longleftrightarrow> (\<exists>a. x = Done a \<and> Q a)"
  by (cases x) simp_all

lemma runs_bind [simp]: "runs Q (bind_outcome x f) \<longleftrightarrow> runs (\<lambda>a. runs Q (f a)) x"
  by (cases x) simp_all

lemma runs_mono: "runs P x \<Longrightarrow> (\<And>a. P a \<Longrightarrow> Q a) \<Longrightarrow> runs Q x"
  by (cases x) simp_all

lemma runs_for:
  assumes "P k s" and "\<And>i s. k \<le> i \<Longrightarrow> i < n \<Longrightarrow> P i s \<Longrightarrow> runs (P (Suc i)) (body i s)" and "k \<le> n"
  shows "runs (P n) (for_outcome [k..<n] body s)"
  using assms
proof (induction "n - k" arbitrary: k s)
  case (Suc d)
  then have "[k..<n] = k # [Suc k..<n]" by (simp add: upt_conv_Cons)
  moreover have "runs (\<lambda>t. runs (P n) (for_outcome [Suc k..<n] body t)) (body k s)"
  proof (rule runs_mono)
    show "runs (P (Suc k)) (body k s)" using Suc by simp
    fix t assume "P (Suc k) t"
    then show "runs (P n) (for_outcome [Suc k..<n] body t)"
      using Suc.hyps(2) Suc.prems(2) by (intro Suc.hyps(1)) simp_all
  qed
  ultimately show ?case by simp
qed simp

lemma runs_for_inv:
  assumes "P s" and "\<And>i s. i \<in> set is \<Longrightarrow> P s \<Longrightarrow> runs P (body i s)"
  shows "runs P (for_outcome is body s)"
  using assms
proof (induction "is" arbitrary: s)
  case (Cons i "is")
  have "runs P (body i s)" by (rule Cons.prems(2)) (use Cons.prems(1) in simp_all)
  then have "runs (\<lambda>t. runs P (for_outcome is body t)) (body i s)"
    by (rule runs_mono) (rule Cons.IH, auto intro: Cons.prems(2))
  then show ?case by simp
qed simp

lemma runs_while:
  assumes "P s" and "f s < n"
    and "\<And>s. P s \<Longrightarrow> c s \<Longrightarrow> runs (\<lambda>s'. P s' \<and> (f s' :: nat) < f s) (body s)"
  shows "runs (\<lambda>t. P t \<and> \<not> c t) (while_outcome n c body s)"
proof -
  have "\<exists>s'. body s = Done s' \<and> P s' \<and> f s' < f s" if "P s" "c s" for s
    using assms(3) [OF that] by (auto simp: runs_iff)
  from while_outcome_total [OF assms(1,2) this] obtain t where t: "while_outcome n c body s = Done t" by blast
  have "P t \<and> \<not> c t"
    by (rule while_outcome_invariant [where P = P, OF t assms(1)]) (use assms(3) in fastforce)
  with t show ?thesis by simp
qed

lemma runs_ends_True: "runs P x \<Longrightarrow> ends P x"
  by (cases x) simp_all

lemma runs_ends: "runs P x \<Longrightarrow> ends Q x \<Longrightarrow> runs (\<lambda>a. P a \<and> Q a) x"
  by (cases x) simp_all

section \<open>Alignment\<close>

definition ALIGN_UP :: "u64 \<Rightarrow> u64 \<Rightarrow> u64" where
  "ALIGN_UP x a = (x + (a - 1)) AND NOT (a - 1)"

definition ALIGN_DOWN :: "u64 \<Rightarrow> u64 \<Rightarrow> u64" where
  "ALIGN_DOWN x a = x AND NOT (a - 1)"

lemma unat_and_not_mask:
  fixes x :: "'a::len word"
  shows "unat (x AND NOT (mask k)) = unat x div 2 ^ k * 2 ^ k"
proof -
  have "x AND NOT (mask k) = push_bit k (drop_bit k x)"
    by (rule bit_word_eqI) (auto simp: bit_simps)
  then have "(x AND NOT (mask k)) + take_bit k x = x"
    by (simp add: bits_ident)
  then have "x AND NOT (mask k) = x - take_bit k x"
    by (simp add: eq_diff_eq)
  moreover have "unat (take_bit k x) = unat x mod 2 ^ k"
    by (subst unsigned_take_bit_eq) (simp add: take_bit_eq_mod)
  moreover have "take_bit k x \<le> x"
    by (simp add: word_le_nat_alt unsigned_take_bit_eq)
  ultimately show ?thesis
    by (simp add: unat_sub minus_mod_eq_div_mult)
qed

lemma unat_and_mask:
  fixes x :: "'a::len word"
  shows "unat (x AND mask k) = unat x mod 2 ^ k"
proof -
  have "unat (take_bit k x) = unat x mod 2 ^ k"
    by (subst unsigned_take_bit_eq) (simp add: take_bit_eq_mod)
  then show ?thesis by (simp add: take_bit_eq_mask)
qed

lemma align_masks:
  "(4095 :: u64) = mask 12" "(15 :: u64) = mask 4" "(7 :: u64) = mask 3"
  by (simp_all add: mask_eq_exp_minus_1)

lemma unat_ALIGN_DOWN_4096 [align_simps]: "unat (ALIGN_DOWN x 4096) = unat x div 4096 * 4096"
  using unat_and_not_mask [of x 12] by (simp add: ALIGN_DOWN_def mask_eq_exp_minus_1)

lemma unat_ALIGN_UP_4096 [align_simps]:
  "unat x + 4095 < 2 ^ 64 \<Longrightarrow> unat (ALIGN_UP x 4096) = (unat x + 4095) div 4096 * 4096"
  using unat_and_not_mask [of "x + 4095" 12] unat_add_lem [of x 4095]
  by (simp add: ALIGN_UP_def mask_eq_exp_minus_1)

lemma unat_ALIGN_UP_16 [align_simps]:
  "unat x + 15 < 2 ^ 64 \<Longrightarrow> unat (ALIGN_UP x 16) = (unat x + 15) div 16 * 16"
  using unat_and_not_mask [of "x + 15" 4] unat_add_lem [of x 15]
  by (simp add: ALIGN_UP_def mask_eq_exp_minus_1)

lemma page_aligned_iff: "(x :: u64) AND 4095 = 0 \<longleftrightarrow> 4096 dvd unat x"
  using unat_and_mask [of x 12]
  by (simp add: align_masks(1) dvd_eq_mod_eq_0 unat_eq_zero [symmetric] del: unat_eq_zero)

section \<open>Byte memory and 64-bit accesses\<close>

definition load64 :: "memory \<Rightarrow> u64 \<Rightarrow> u64" where
  "load64 m a =
     ucast (m a) OR push_bit 8 (ucast (m (a + 1))) OR
     push_bit 16 (ucast (m (a + 2))) OR push_bit 24 (ucast (m (a + 3))) OR
     push_bit 32 (ucast (m (a + 4))) OR push_bit 40 (ucast (m (a + 5))) OR
     push_bit 48 (ucast (m (a + 6))) OR push_bit 56 (ucast (m (a + 7)))"

definition store64 :: "memory \<Rightarrow> u64 \<Rightarrow> u64 \<Rightarrow> memory" where
  "store64 m a v = (\<lambda>x. if x - a < 8 then ucast (drop_bit (8 * unat (x - a)) v) else m x)"

lemma byte_lane:
  assumes "n < (64 :: nat)"
  shows "n < 8 \<or> (8 \<le> n \<and> n < 16) \<or> (16 \<le> n \<and> n < 24) \<or> (24 \<le> n \<and> n < 32) \<or>
    (32 \<le> n \<and> n < 40) \<or> (40 \<le> n \<and> n < 48) \<or> (48 \<le> n \<and> n < 56) \<or> (56 \<le> n \<and> n < 64)"
  using assms by linarith

lemma load64_store64_same [simp]: "load64 (store64 m a v) a = v"
proof (rule bit_word_eqI)
  fix n assume "n < LENGTH(64)"
  then have "n < 64" by simp
  from byte_lane [OF this]
  show "bit (load64 (store64 m a v) a) n = bit v n"
    by (elim disjE conjE) (simp_all add: load64_def store64_def bit_simps less_diff_conv2)
qed

lemma store64_other: "\<not> x - a < 8 \<Longrightarrow> store64 m a v x = m x"
  by (simp add: store64_def)

lemma load64_cong:
  assumes "\<And>i. i < 8 \<Longrightarrow> m (a + i) = m' (a + i)"
  shows "load64 m a = load64 m' a"
  using assms [of 0] assms [of 1] assms [of 2] assms [of 3]
    assms [of 4] assms [of 5] assms [of 6] assms [of 7]
  by (simp add: load64_def)

text \<open>The bytes of a cell are determined by the 64-bit value read from it.\<close>
lemma load64_byte:
  assumes "i < 8"
  shows "m (a + of_nat i) = ucast (drop_bit (8 * i) (load64 m a))"
proof (rule bit_word_eqI)
  fix n assume "n < LENGTH(8)"
  then have n: "n < 8" by simp
  from assms consider "i = 0" | "i = 1" | "i = 2" | "i = 3" | "i = 4" | "i = 5" | "i = 6" | "i = 7"
    by linarith
  then show "bit (m (a + of_nat i)) n = bit (ucast (drop_bit (8 * i) (load64 m a)) :: u8) n"
    by cases (use n in \<open>auto simp: load64_def bit_simps dest: bit_imp_le_length\<close>)
qed

definition aligned8 :: "u64 \<Rightarrow> bool" where
  "aligned8 a \<longleftrightarrow> 8 dvd unat a"

lemma aligned8_add: "aligned8 a \<Longrightarrow> aligned8 b \<Longrightarrow> aligned8 (a + b)"
  by (auto simp: aligned8_def unat_word_ariths dvd_mod_iff)

lemma aligned8_mult8: "aligned8 (8 * k)"
  by (auto simp: aligned8_def unat_word_ariths dvd_mod_iff)

lemma aligned8_separate:
  assumes "aligned8 a" "aligned8 b" "a \<noteq> b" "i < 8"
  shows "\<not> (b + i) - a < 8"
proof
  assume lt: "(b + i) - a < 8"
  have "aligned8 (b - a)"
    using assms(1,2) by (auto simp: aligned8_def unat_sub_if' dvd_diff_nat)
  then obtain k where k: "unat (b - a) = 8 * k" by (auto simp: aligned8_def)
  have i: "unat i < 8" using assms(4) by (simp add: word_less_nat_alt)
  have "8 * k < 2 ^ 64" using unsigned_less [of "b - a", where 'a = nat] k by simp
  then have "8 * k + unat i < 2 ^ 64" using i by simp
  then have "unat ((b - a) + i) = 8 * k + unat i"
    using k unat_add_lem [of "b - a" i] by simp
  moreover have "(b - a) + i = (b + i) - a" by simp
  moreover have "unat ((b + i) - a) < 8" using lt by (simp add: word_less_nat_alt)
  ultimately have "k = 0" by simp
  then have "b - a = 0" using k by (simp add: unat_eq_zero)
  then show False using assms(3) by simp
qed

lemma load64_store64_other:
  assumes "aligned8 a" "aligned8 b" "a \<noteq> b"
  shows "load64 (store64 m a v) b = load64 m b"
  by (rule load64_cong) (simp add: store64_other aligned8_separate [OF assms])

section \<open>Word stores\<close>

text \<open>
  The view of memory that data structures built from aligned 64-bit cells rely on: cells
  are named by keys, a write changes the named cell and no other one. \<open>wr_list\<close> is a
  sequence of writes, the shape in which the C code updates its structures.
\<close>

locale word_store =
  fixes rd :: "'m \<Rightarrow> 'k \<Rightarrow> u64" and wr :: "'m \<Rightarrow> 'k \<Rightarrow> u64 \<Rightarrow> 'm" and cells :: "'k set"
  assumes rd_wr: "a \<in> cells \<Longrightarrow> b \<in> cells \<Longrightarrow> rd (wr m a v) b = (if a = b then v else rd m b)"
begin

lemma rd_wr_same: "a \<in> cells \<Longrightarrow> rd (wr m a v) a = v"
  by (simp add: rd_wr)

lemma rd_wr_other: "a \<in> cells \<Longrightarrow> b \<in> cells \<Longrightarrow> a \<noteq> b \<Longrightarrow> rd (wr m a v) b = rd m b"
  by (simp add: rd_wr)

primrec wr_list :: "('k \<times> u64) list \<Rightarrow> 'm \<Rightarrow> 'm" where
  "wr_list [] m = m"
| "wr_list (kv # kvs) m = wr_list kvs (wr m (fst kv) (snd kv))"

lemma rd_wr_list_frame:
  "fst ` set kvs \<subseteq> cells \<Longrightarrow> b \<in> cells \<Longrightarrow> b \<notin> fst ` set kvs \<Longrightarrow> rd (wr_list kvs m) b = rd m b"
  by (induction kvs arbitrary: m) (auto simp: rd_wr)

end

end
