(* ===== verification/Boot_Info.thy ===== *)
theory Boot_Info
  imports Prelude
begin

text \<open>
  What the boot loader hands to the kernel: the Limine responses that the memory
  components read (\<open>src/src/include/limine.h\<close>, requested in \<open>src/src/limine_requests.c\<close>) and
  the linker symbols of the kernel image. Limine itself is not part of the repository, so a
  \<open>boot_info\<close> is an argument of every routine that reads one; a response that is absent
  (a NULL pointer) is \<open>None\<close>. The memory-size readouts of \<open>KernelUtils.c\<close> are here too.
\<close>

section \<open>Limine responses\<close>

record memmap_entry =
  me_base :: u64
  me_length :: u64
  me_type :: u64

definition LIMINE_MEMMAP_USABLE :: u64 where "LIMINE_MEMMAP_USABLE = 0"
definition LIMINE_MEMMAP_RESERVED :: u64 where "LIMINE_MEMMAP_RESERVED = 1"
definition LIMINE_MEMMAP_ACPI_RECLAIMABLE :: u64 where "LIMINE_MEMMAP_ACPI_RECLAIMABLE = 2"
definition LIMINE_MEMMAP_ACPI_NVS :: u64 where "LIMINE_MEMMAP_ACPI_NVS = 3"
definition LIMINE_MEMMAP_BAD_MEMORY :: u64 where "LIMINE_MEMMAP_BAD_MEMORY = 4"
definition LIMINE_MEMMAP_BOOTLOADER_RECLAIMABLE :: u64 where
  "LIMINE_MEMMAP_BOOTLOADER_RECLAIMABLE = 5"
definition LIMINE_MEMMAP_KERNEL_AND_MODULES :: u64 where "LIMINE_MEMMAP_KERNEL_AND_MODULES = 6"
definition LIMINE_MEMMAP_FRAMEBUFFER :: u64 where "LIMINE_MEMMAP_FRAMEBUFFER = 7"

lemmas memmap_type_defs =
  LIMINE_MEMMAP_USABLE_def LIMINE_MEMMAP_RESERVED_def LIMINE_MEMMAP_ACPI_RECLAIMABLE_def
  LIMINE_MEMMAP_ACPI_NVS_def LIMINE_MEMMAP_BAD_MEMORY_def
  LIMINE_MEMMAP_BOOTLOADER_RECLAIMABLE_def LIMINE_MEMMAP_KERNEL_AND_MODULES_def
  LIMINE_MEMMAP_FRAMEBUFFER_def

record limine_file =
  lf_address :: u64
  lf_size :: u64

record boot_info =
  memmap :: "memmap_entry list option"
  hhdm_offset :: "u64 option"
  kernel_address :: "(u64 \<times> u64) option"
  modules :: "limine_file list option"
  kernel_start :: u64
  kernel_end :: u64
  text_start :: u64
  text_end :: u64
  rodata_start :: u64
  rodata_end :: u64
  data_start :: u64
  bss_end :: u64

definition me_end :: "memmap_entry \<Rightarrow> u64" where
  "me_end e = me_base e + me_length e"

definition PAGE_SIZE :: u64 where "PAGE_SIZE = 4096"

section \<open>Memory sizes\<close>

definition bytes_to_mib :: "u64 \<Rightarrow> u64" where
  "bytes_to_mib bytes = drop_bit 20 bytes"

definition bytes_to_gib :: "u64 \<Rightarrow> u64" where
  "bytes_to_gib bytes = drop_bit 30 bytes"

definition get_memory_size :: "boot_info \<Rightarrow> u64" where
  "get_memory_size bi =
     (case memmap bi of
        None \<Rightarrow> 0
      | Some es \<Rightarrow> bytes_to_mib (fold (\<lambda>e memory_size. memory_size + me_length e) es 0))"

definition get_memory_size_gib :: "boot_info \<Rightarrow> u64" where
  "get_memory_size_gib bi =
     (case memmap bi of
        None \<Rightarrow> 0
      | Some es \<Rightarrow> bytes_to_gib (fold (\<lambda>e memory_size. memory_size + me_length e) es 0))"

definition get_total_usable_mem_bytes :: "boot_info \<Rightarrow> u64" where
  "get_total_usable_mem_bytes bi =
     (case memmap bi of
        None \<Rightarrow> 0
      | Some es \<Rightarrow>
          if es = [] then 0
          else fold (\<lambda>e total. if me_type e = LIMINE_MEMMAP_USABLE then total + me_length e else total) es 0)"

definition get_max_phys :: "boot_info \<Rightarrow> u64" where
  "get_max_phys bi =
     (case memmap bi of
        None \<Rightarrow> 0
      | Some es \<Rightarrow> fold (\<lambda>e max_phys. if me_end e > max_phys then me_end e else max_phys) es 0)"

lemma unat_bytes_to_mib: "unat (bytes_to_mib n) = unat n div 1048576"
  by (simp add: bytes_to_mib_def drop_bit_eq_div unat_div)

lemma unat_bytes_to_gib: "unat (bytes_to_gib n) = unat n div 1073741824"
  by (simp add: bytes_to_gib_def drop_bit_eq_div unat_div)

end
