(* ===== verification/Early_Alloc.thy ===== *)
theory Early_Alloc
  imports Boot_Info
begin

text \<open>
  The bootstrap page allocator \<open>src/src/early_alloc.c\<close>: it picks one USABLE region of the
  memory map and hands out its pages in order until the permanent allocator takes over.
  Its four static variables are the record \<open>early_state\<close>, which the later components
  extend. The locale \<open>frame_source\<close> states what page-table code expects of whatever
  supplies it with frames; the early allocator is its first instance.
\<close>

section \<open>State and operations\<close>

record early_state =
  g_base :: u64
  g_cursor :: u64
  g_end :: u64
  g_region_forced :: bool

record best_region =
  best_size_below4g :: u64
  best_base_below4g :: u64
  best_end_below4g :: u64
  best_size_any :: u64
  best_base_any :: u64
  best_end_any :: u64

definition no_region :: best_region where
  "no_region = \<lparr>best_size_below4g = 0, best_base_below4g = 0, best_end_below4g = 0,
     best_size_any = 0, best_base_any = 0, best_end_any = 0\<rparr>"

definition memmap_ready :: "boot_info \<Rightarrow> bool" where
  "memmap_ready bi = (case memmap bi of None \<Rightarrow> False | Some es \<Rightarrow> es \<noteq> [])"

text \<open>One iteration of the scan over the memory map.\<close>

definition consider_entry :: "memmap_entry \<Rightarrow> best_region \<Rightarrow> best_region" where
  "consider_entry e b =
     (if me_type e \<noteq> LIMINE_MEMMAP_USABLE then b
      else
        let start = ALIGN_UP (me_base e) PAGE_SIZE;
            end = ALIGN_DOWN (me_base e + me_length e) PAGE_SIZE
        in if end \<le> start then b
           else
             let len = end - start;
                 b1 = (if end \<le> 0x100000000 \<and> len > best_size_below4g b
                       then b\<lparr>best_size_below4g := len, best_base_below4g := start,
                              best_end_below4g := end\<rparr>
                       else b)
             in if len > best_size_any b1
                then b1\<lparr>best_size_any := len, best_base_any := start, best_end_any := end\<rparr>
                else b1)"

definition pick_region_from_memmap ::
    "boot_info \<Rightarrow> 'a early_state_scheme \<Rightarrow> 'a early_state_scheme" where
  "pick_region_from_memmap bi s =
     (if \<not> memmap_ready bi then s
      else
        let b = fold consider_entry (the (memmap bi)) no_region;
            s1 = (if best_size_below4g b \<noteq> 0
                  then s\<lparr>g_base := best_base_below4g b, g_end := best_end_below4g b\<rparr>
                  else s\<lparr>g_base := best_base_any b, g_end := best_end_any b\<rparr>)
        in s1\<lparr>g_cursor := g_base s1\<rparr>)"

definition early_set_region ::
    "u64 \<Rightarrow> u64 \<Rightarrow> 'a early_state_scheme \<Rightarrow> 'a early_state_scheme" where
  "early_set_region base page_count s =
     s\<lparr>g_base := base, g_cursor := base, g_end := base + page_count * PAGE_SIZE,
       g_region_forced := True\<rparr>"

definition early_init :: "boot_info \<Rightarrow> 'a early_state_scheme \<Rightarrow> 'a early_state_scheme outcome" where
  "early_init bi s =
     (let s1 = (if \<not> g_region_forced s then pick_region_from_memmap bi s else s)
      in if g_base s1 = 0 \<or> g_end s1 \<le> g_base s1 \<or> g_base s1 AND (PAGE_SIZE - 1) \<noteq> 0
         then Panic ''early_init: no suitable USABLE region found for early allocations''
         else Done s1)"

definition early_alloc_page :: "'a early_state_scheme \<Rightarrow> (u64 \<times> 'a early_state_scheme) outcome" where
  "early_alloc_page s =
     (if g_cursor s + PAGE_SIZE > g_end s
      then Panic ''early_alloc_page: out of early pages (used=%zu pages)''
      else Done (g_cursor s, s\<lparr>g_cursor := g_cursor s + PAGE_SIZE\<rparr>))"

definition early_reserved_region :: "'a early_state_scheme \<Rightarrow> u64 \<times> u64" where
  "early_reserved_region s = (g_base s, (g_cursor s - g_base s) div PAGE_SIZE)"

definition early_pages_used :: "'a early_state_scheme \<Rightarrow> u64" where
  "early_pages_used s = (g_cursor s - g_base s) div PAGE_SIZE"

section \<open>Sources of page frames\<close>

text \<open>
  \<open>get\<close> hands out one frame; \<open>taken\<close> is the set of frames that are in use, by anyone. A
  source never hands out a frame in use, and a frame it hands out is page aligned and
  below the physical limit \<open>lim\<close>. \<open>take_frames\<close> is a caller that needs several.
\<close>

primrec take_frames :: "('s \<Rightarrow> (u64 \<times> 's) outcome) \<Rightarrow> nat \<Rightarrow> 's \<Rightarrow> (u64 list \<times> 's) outcome" where
  "take_frames get 0 s = Done ([], s)"
| "take_frames get (Suc n) s =
     bind_outcome (get s) (\<lambda>(p, s1).
       bind_outcome (take_frames get n s1) (\<lambda>(ps, s2). Done (p # ps, s2)))"

locale frame_source =
  fixes get :: "'s \<Rightarrow> (u64 \<times> 's) outcome" and ok :: "'s \<Rightarrow> bool" and taken :: "'s \<Rightarrow> u64 set"
    and lim :: "'s \<Rightarrow> nat"
  assumes get_ok: "ok s \<Longrightarrow> get s = Done (p, s') \<Longrightarrow> ok s'"
    and get_fresh: "ok s \<Longrightarrow> get s = Done (p, s') \<Longrightarrow> p \<notin> taken s"
    and get_taken: "ok s \<Longrightarrow> get s = Done (p, s') \<Longrightarrow> taken s' = insert p (taken s)"
    and get_aligned: "ok s \<Longrightarrow> get s = Done (p, s') \<Longrightarrow> 4096 dvd unat p"
    and get_below: "ok s \<Longrightarrow> get s = Done (p, s') \<Longrightarrow> unat p + 4096 \<le> lim s"
begin

lemmas get_facts = get_ok get_fresh get_taken get_aligned get_below

lemma take_frames_fresh:
  assumes "ok s" and "take_frames get n s = Done (ps, s')"
  shows "ok s' \<and> length ps = n \<and> distinct ps \<and> set ps \<inter> taken s = {} \<and>
    taken s' = set ps \<union> taken s"
  using assms
proof (induction n arbitrary: s ps)
  case (Suc n)
  from Suc.prems(2) obtain p s1 qs where
    p: "get s = Done (p, s1)" and qs: "take_frames get n s1 = Done (qs, s')" and ps: "ps = p # qs"
    by (auto simp: outcome_simps)
  note p' = get_facts [OF Suc.prems(1) p]
  from Suc.IH [OF p'(1) qs] show ?case using p' ps by auto
qed simp

end

section \<open>The early allocator as a frame source\<close>

definition early_wf :: "'a early_state_scheme \<Rightarrow> bool" where
  "early_wf s \<longleftrightarrow> 4096 dvd unat (g_base s) \<and> 4096 dvd unat (g_cursor s) \<and> 0 < g_base s \<and>
     g_base s \<le> g_cursor s \<and> g_cursor s \<le> g_end s \<and> unat (g_end s) \<le> 2 ^ 52"

definition early_pages :: "'a early_state_scheme \<Rightarrow> u64 set" where
  "early_pages s = {p. 4096 dvd unat p \<and> g_base s \<le> p \<and> p < g_cursor s}"

lemma early_wf_cursor_next:
  assumes "early_wf s"
  shows "unat (g_cursor s + PAGE_SIZE) = unat (g_cursor s) + 4096"
  using assms by (auto simp: early_wf_def PAGE_SIZE_def word_le_nat_alt unat_word_ariths)

lemma early_alloc_page_Done:
  assumes "early_wf s"
  shows "early_alloc_page s = Done (p, s') \<longleftrightarrow>
    unat (g_cursor s) + 4096 \<le> unat (g_end s) \<and> p = g_cursor s \<and>
    s' = s\<lparr>g_cursor := g_cursor s + PAGE_SIZE\<rparr>"
  using early_wf_cursor_next [OF assms]
  by (auto simp: early_alloc_page_def word_less_nat_alt)

lemma early_alloc_page_wf:
  assumes "early_wf s" and "early_alloc_page s = Done (p, s')"
  shows "early_wf s'"
  using assms early_wf_cursor_next [OF assms(1)]
  by (auto simp: early_alloc_page_Done early_wf_def word_le_nat_alt)

lemma aligned_below_next:
  assumes "4096 dvd (a::nat)" and "4096 dvd c" and "a < c + 4096"
  shows "a < c \<or> a = c"
  using assms by (auto elim!: dvdE)

lemma early_alloc_page_taken:
  assumes "early_wf s" and "early_alloc_page s = Done (p, s')"
  shows "early_pages s' = insert p (early_pages s)"
proof (rule set_eqI)
  fix q
  from assms have p: "p = g_cursor s" and s': "s' = s\<lparr>g_cursor := g_cursor s + PAGE_SIZE\<rparr>"
    by (simp_all add: early_alloc_page_Done)
  show "q \<in> early_pages s' \<longleftrightarrow> q \<in> insert p (early_pages s)"
    using assms(1) early_wf_cursor_next [OF assms(1)]
      aligned_below_next [of "unat q" "unat (g_cursor s)"]
    by (auto simp: p s' early_pages_def early_wf_def word_le_nat_alt word_less_nat_alt
        word_unat_eq_iff)
qed

interpretation early: frame_source early_alloc_page early_wf early_pages "\<lambda>s. unat (g_end s)"
proof unfold_locales
  fix s s' :: "'a early_state_scheme" and p
  assume wf: "early_wf s" and ap: "early_alloc_page s = Done (p, s')"
  show "early_wf s'" by (rule early_alloc_page_wf [OF wf ap])
  show "early_pages s' = insert p (early_pages s)" by (rule early_alloc_page_taken [OF wf ap])
  show "p \<notin> early_pages s" "4096 dvd unat p" "unat p + 4096 \<le> unat (g_end s)"
    using wf ap by (simp_all add: early_alloc_page_Done early_pages_def early_wf_def)
qed

section \<open>The choice of the region\<close>

text \<open>The whole pages of an entry, and the entries the scan may choose.\<close>

definition span_start :: "memmap_entry \<Rightarrow> u64" where
  "span_start e = ALIGN_UP (me_base e) PAGE_SIZE"

definition span_end :: "memmap_entry \<Rightarrow> u64" where
  "span_end e = ALIGN_DOWN (me_base e + me_length e) PAGE_SIZE"

definition candidate :: "memmap_entry \<Rightarrow> bool" where
  "candidate e \<longleftrightarrow> me_type e = LIMINE_MEMMAP_USABLE \<and> span_start e < span_end e"

definition is_span :: "memmap_entry list \<Rightarrow> u64 \<Rightarrow> u64 \<Rightarrow> bool" where
  "is_span es start fin \<longleftrightarrow> (\<exists>e \<in> set es. candidate e \<and> start = span_start e \<and> fin = span_end e)"

definition below_ok :: "memmap_entry list \<Rightarrow> best_region \<Rightarrow> bool" where
  "below_ok es b \<longleftrightarrow>
     (best_size_below4g b \<noteq> 0 \<longrightarrow>
        is_span es (best_base_below4g b) (best_end_below4g b) \<and>
        best_end_below4g b \<le> 0x100000000 \<and>
        best_size_below4g b = best_end_below4g b - best_base_below4g b) \<and>
     (\<forall>e \<in> set es. candidate e \<and> span_end e \<le> 0x100000000 \<longrightarrow>
        span_end e - span_start e \<le> best_size_below4g b)"

definition any_ok :: "memmap_entry list \<Rightarrow> best_region \<Rightarrow> bool" where
  "any_ok es b \<longleftrightarrow>
     (if best_size_any b = 0 then best_base_any b = 0 \<and> best_end_any b = 0
      else is_span es (best_base_any b) (best_end_any b) \<and>
        best_size_any b = best_end_any b - best_base_any b) \<and>
     (\<forall>e \<in> set es. candidate e \<longrightarrow> span_end e - span_start e \<le> best_size_any b)"

lemma consider_entry_alt:
  "consider_entry e b =
     (if \<not> candidate e then b
      else
        let len = span_end e - span_start e;
            b1 = (if span_end e \<le> 0x100000000 \<and> len > best_size_below4g b
                  then b\<lparr>best_size_below4g := len, best_base_below4g := span_start e,
                         best_end_below4g := span_end e\<rparr>
                  else b)
        in if len > best_size_any b1
           then b1\<lparr>best_size_any := len, best_base_any := span_start e, best_end_any := span_end e\<rparr>
           else b1)"
  by (auto simp: consider_entry_def candidate_def span_start_def span_end_def Let_def not_less)

lemma is_span_snoc: "is_span (es @ [e]) a z \<longleftrightarrow>
    is_span es a z \<or> (candidate e \<and> a = span_start e \<and> z = span_end e)"
  by (auto simp: is_span_def)

lemma consider_entry_skip: "\<not> candidate e \<Longrightarrow> consider_entry e b = b"
  by (simp add: consider_entry_alt)

lemma consider_entry_below:
  "candidate e \<Longrightarrow>
    (best_size_below4g (consider_entry e b), best_base_below4g (consider_entry e b),
     best_end_below4g (consider_entry e b)) =
    (if span_end e \<le> 0x100000000 \<and> span_end e - span_start e > best_size_below4g b
     then (span_end e - span_start e, span_start e, span_end e)
     else (best_size_below4g b, best_base_below4g b, best_end_below4g b))"
  by (auto simp: consider_entry_alt Let_def)

lemma consider_entry_any:
  "candidate e \<Longrightarrow>
    (best_size_any (consider_entry e b), best_base_any (consider_entry e b),
     best_end_any (consider_entry e b)) =
    (if span_end e - span_start e > best_size_any b
     then (span_end e - span_start e, span_start e, span_end e)
     else (best_size_any b, best_base_any b, best_end_any b))"
  by (simp add: consider_entry_alt Let_def)

lemma candidate_span_pos: "candidate e \<Longrightarrow> span_end e - span_start e \<noteq> 0"
  by (auto simp: candidate_def)

lemma consider_entry_below_ok:
  assumes "below_ok es b"
  shows "below_ok (es @ [e]) (consider_entry e b)"
proof (cases "candidate e \<and> span_end e \<le> 0x100000000 \<and> span_end e - span_start e > best_size_below4g b")
  case True
  with consider_entry_below [of e b] assms show ?thesis
    by (fastforce simp: below_ok_def is_span_snoc)
next
  case False
  then have "best_size_below4g (consider_entry e b) = best_size_below4g b"
    "best_base_below4g (consider_entry e b) = best_base_below4g b"
    "best_end_below4g (consider_entry e b) = best_end_below4g b"
    using consider_entry_below [of e b] by (cases "candidate e"; auto simp: consider_entry_skip)+
  with False assms show ?thesis by (auto simp: below_ok_def is_span_snoc not_less)
qed

lemma consider_entry_any_ok:
  assumes "any_ok es b"
  shows "any_ok (es @ [e]) (consider_entry e b)"
proof (cases "candidate e \<and> span_end e - span_start e > best_size_any b")
  case True
  with consider_entry_any [of e b] candidate_span_pos [of e] assms show ?thesis
    by (fastforce simp: any_ok_def is_span_snoc)
next
  case False
  then have "best_size_any (consider_entry e b) = best_size_any b"
    "best_base_any (consider_entry e b) = best_base_any b"
    "best_end_any (consider_entry e b) = best_end_any b"
    using consider_entry_any [of e b] by (cases "candidate e"; auto simp: consider_entry_skip)+
  with False assms show ?thesis by (auto simp: any_ok_def is_span_snoc not_less)
qed

lemma fold_consider_entry_ok:
  "below_ok es (fold consider_entry es no_region)" "any_ok es (fold consider_entry es no_region)"
proof (induction es rule: rev_induct)
  case Nil
  show "below_ok [] (fold consider_entry [] no_region)" "any_ok [] (fold consider_entry [] no_region)"
    by (simp_all add: below_ok_def any_ok_def no_region_def)
next
  case (snoc e es)
  show "below_ok (es @ [e]) (fold consider_entry (es @ [e]) no_region)"
    "any_ok (es @ [e]) (fold consider_entry (es @ [e]) no_region)"
    using snoc by (simp_all add: consider_entry_below_ok consider_entry_any_ok)
qed

text \<open>The loader's map describes memory below the 52-bit physical address limit.\<close>

definition memmap_bounded :: "memmap_entry list \<Rightarrow> bool" where
  "memmap_bounded es \<longleftrightarrow> (\<forall>e \<in> set es. unat (me_base e) + unat (me_length e) \<le> 2 ^ 52)"

lemma le_round_up_4096: "(n::nat) \<le> (n + 4095) div 4096 * 4096"
  using div_mult_mod_eq [of "n + 4095" 4096] mod_less_divisor [of 4096 "n + 4095"] by linarith

lemma span_inside:
  assumes "unat (me_base e) + unat (me_length e) \<le> 2 ^ 52"
  shows "me_base e \<le> span_start e"
    and "unat (span_end e) \<le> unat (me_base e) + unat (me_length e)"
    and "4096 dvd unat (span_start e)" and "4096 dvd unat (span_end e)"
proof -
  have sum: "unat (me_base e + me_length e) = unat (me_base e) + unat (me_length e)"
    using assms by (simp add: unat_word_ariths)
  have up: "unat (span_start e) = (unat (me_base e) + 4095) div 4096 * 4096"
    unfolding span_start_def PAGE_SIZE_def by (rule unat_ALIGN_UP_4096) (use assms in simp)
  have down: "unat (span_end e) = unat (me_base e + me_length e) div 4096 * 4096"
    unfolding span_end_def PAGE_SIZE_def by (rule unat_ALIGN_DOWN_4096)
  show "me_base e \<le> span_start e"
    unfolding word_le_nat_alt up by (rule le_round_up_4096)
  show "4096 dvd unat (span_start e)" "4096 dvd unat (span_end e)"
    unfolding up down by (rule dvd_triv_right)+
  show "unat (span_end e) \<le> unat (me_base e) + unat (me_length e)"
    unfolding down sum by (rule div_times_less_eq_dividend)
qed

lemma page_offset_zero: "p AND (PAGE_SIZE - 1) = 0 \<longleftrightarrow> 4096 dvd unat p"
  using page_aligned_iff [of p] by (simp add: PAGE_SIZE_def)

lemma is_span_region:
  assumes "is_span es a z" and "memmap_bounded es"
  shows "a < z" "4096 dvd unat a" "4096 dvd unat z" "unat z \<le> 2 ^ 52"
    "\<exists>e \<in> set es. me_type e = LIMINE_MEMMAP_USABLE \<and> me_base e \<le> a \<and>
       unat z \<le> unat (me_base e) + unat (me_length e)"
proof -
  from assms(1) obtain e where e: "e \<in> set es" "candidate e" "a = span_start e" "z = span_end e"
    by (auto simp: is_span_def)
  from assms(2) e(1) have bnd: "unat (me_base e) + unat (me_length e) \<le> 2 ^ 52"
    by (simp add: memmap_bounded_def)
  note span = span_inside [OF bnd]
  show "a < z" "4096 dvd unat a" "4096 dvd unat z" using e span by (simp_all add: candidate_def)
  show "unat z \<le> 2 ^ 52" unfolding e(4) using span(2) bnd by (rule order_trans)
  show "\<exists>e \<in> set es. me_type e = LIMINE_MEMMAP_USABLE \<and> me_base e \<le> a \<and>
       unat z \<le> unat (me_base e) + unat (me_length e)"
    using e span by (auto simp: candidate_def)
qed

text \<open>The region is the largest, among those below 4 GiB if there are any.\<close>

definition best_span :: "memmap_entry list \<Rightarrow> u64 \<Rightarrow> u64 \<Rightarrow> bool" where
  "best_span es a z \<longleftrightarrow>
     (if \<exists>e \<in> set es. candidate e \<and> span_end e \<le> 0x100000000
      then z \<le> 0x100000000 \<and>
        (\<forall>e \<in> set es. candidate e \<and> span_end e \<le> 0x100000000 \<longrightarrow> span_end e - span_start e \<le> z - a)
      else \<forall>e \<in> set es. candidate e \<longrightarrow> span_end e - span_start e \<le> z - a)"

lemma pick_region:
  assumes "memmap bi = Some es" and "es \<noteq> []"
    and t_def: "t = pick_region_from_memmap bi s"
  shows "g_cursor t = g_base t \<and>
    (if \<exists>e \<in> set es. candidate e then is_span es (g_base t) (g_end t) \<and> best_span es (g_base t) (g_end t)
     else g_base t = 0)"
proof -
  define b where "b = fold consider_entry es no_region"
  have ok: "below_ok es b" "any_ok es b"
    unfolding b_def by (rule fold_consider_entry_ok)+
  have ready: "memmap_ready bi" using assms(1,2) by (simp add: memmap_ready_def)
  show ?thesis
  proof (cases "best_size_below4g b = 0")
    case True
    then have none: "\<not> (candidate e \<and> span_end e \<le> 0x100000000)" if "e \<in> set es" for e
      using ok(1) that candidate_span_pos [of e] by (auto simp: below_ok_def)
    have t: "g_base t = best_base_any b" "g_end t = best_end_any b" "g_cursor t = g_base t"
      using ready assms(1) True by (simp_all add: t_def pick_region_from_memmap_def b_def Let_def)
    have "best_size_any b \<noteq> 0" if "\<exists>e \<in> set es. candidate e"
      using that ok(2) candidate_span_pos by (fastforce simp: any_ok_def)
    then show ?thesis
      using t ok(2) none by (auto simp: any_ok_def best_span_def is_span_def split: if_splits)
  next
    case False
    then have some: "\<exists>e \<in> set es. candidate e \<and> span_end e \<le> 0x100000000"
      using ok(1) by (auto simp: below_ok_def is_span_def)
    have "g_base t = best_base_below4g b" "g_end t = best_end_below4g b" "g_cursor t = g_base t"
      using ready assms(1) False by (simp_all add: t_def pick_region_from_memmap_def b_def Let_def)
    with ok(1) some False show ?thesis by (auto simp: below_ok_def best_span_def)
  qed
qed

lemma early_cursor_shift:
  "(s\<lparr>g_cursor := g_cursor s + PAGE_SIZE\<rparr>)\<lparr>g_cursor := g_cursor s + PAGE_SIZE + k * PAGE_SIZE\<rparr> =
    s\<lparr>g_cursor := g_cursor s + (1 + k) * PAGE_SIZE\<rparr>"
  by (simp add: algebra_simps)

lemma take_early_pages:
  assumes "early_wf s"
  shows "take_frames early_alloc_page n s =
    (if unat (g_cursor s) + n * 4096 \<le> unat (g_end s)
     then Done (map (\<lambda>i. g_cursor s + of_nat i * PAGE_SIZE) [0..<n],
                s\<lparr>g_cursor := g_cursor s + of_nat n * PAGE_SIZE\<rparr>)
     else Panic ''early_alloc_page: out of early pages (used=%zu pages)'')"
  using assms
proof (induction n arbitrary: s)
  case 0
  then show ?case by (simp add: early_wf_def word_le_nat_alt)
next
  case (Suc n)
  show ?case
  proof (cases "unat (g_cursor s) + 4096 \<le> unat (g_end s)")
    case False
    then have "early_alloc_page s = Panic ''early_alloc_page: out of early pages (used=%zu pages)''"
      using early_wf_cursor_next [OF Suc.prems] by (simp add: early_alloc_page_def word_less_nat_alt)
    with False show ?thesis by simp
  next
    case True
    let ?s = "s\<lparr>g_cursor := g_cursor s + PAGE_SIZE\<rparr>"
    from True Suc.prems have ap: "early_alloc_page s = Done (g_cursor s, ?s)"
      by (simp add: early_alloc_page_Done)
    have "map (\<lambda>i. g_cursor s + of_nat i * PAGE_SIZE) [0..<Suc n] =
        g_cursor s # map (\<lambda>i. g_cursor ?s + of_nat i * PAGE_SIZE) [0..<n]"
      by (simp add: upt_conv_Cons map_Suc_upt [symmetric] algebra_simps del: upt_Suc)
    with ap Suc.IH [OF early_alloc_page_wf [OF Suc.prems ap]] early_wf_cursor_next [OF Suc.prems]
    show ?thesis using early_cursor_shift [of s "of_nat n"]
      by (simp del: upt_Suc)
  qed
qed

section \<open>Properties\<close>

text \<open>C20: What \<open>early_init\<close> does, given a memory map that is not empty and describes memory below
  2^52. A region set by hand before is kept as it is if it passes the checks. Otherwise the routine
  chooses whole pages of one USABLE entry: the region begins and ends on a page boundary, is not
  empty, lies inside that entry, and nothing of it is handed out yet. If some USABLE entry has
  whole pages that all lie below 4 GiB the region does as well, and it is the largest such one;
  otherwise it is the largest of all. It panics only on a bad region set by hand, when no USABLE
  entry holds a whole page, or when one of them starts at address 0.\<close>
theorem early_init_region:
  assumes "memmap bi = Some es" and "es \<noteq> []" and "memmap_bounded es"
  shows "case early_init bi s of
      Done s' \<Rightarrow>
        (if g_region_forced s
         then s' = s \<and> g_base s \<noteq> 0 \<and> g_base s < g_end s \<and> 4096 dvd unat (g_base s)
         else early_wf s' \<and> g_cursor s' = g_base s' \<and> g_base s' < g_end s' \<and>
           4096 dvd unat (g_base s') \<and> 4096 dvd unat (g_end s') \<and>
           (\<exists>e \<in> set es. me_type e = LIMINE_MEMMAP_USABLE \<and> me_base e \<le> g_base s' \<and>
              unat (g_end s') \<le> unat (me_base e) + unat (me_length e)) \<and>
           best_span es (g_base s') (g_end s'))
    | Panic m \<Rightarrow>
        (if g_region_forced s
         then g_base s = 0 \<or> g_end s \<le> g_base s \<or> \<not> 4096 dvd unat (g_base s)
         else (\<forall>e \<in> set es. \<not> candidate e) \<or> (\<exists>e \<in> set es. candidate e \<and> span_start e = 0))
    | Diverge \<Rightarrow> False"
proof (cases "g_region_forced s")
  case True
  then show ?thesis using page_offset_zero [of "g_base s"] by (auto simp: early_init_def Let_def not_le)
next
  case False
  let ?t = "pick_region_from_memmap bi s"
  note pick = pick_region [OF assms(1,2) refl, of s]
  show ?thesis
  proof (cases "\<exists>e \<in> set es. candidate e")
    case True
    with pick have span: "is_span es (g_base ?t) (g_end ?t)" by simp
    note region = is_span_region [OF span assms(3)]
    have "g_base ?t \<noteq> 0 \<Longrightarrow> early_wf ?t" using pick region by (simp add: early_wf_def word_neq_0_conv)
    with span region pick True False page_offset_zero [of "g_base ?t"] show ?thesis
      by (auto simp: early_init_def Let_def is_span_def)
  qed (use pick False in \<open>simp add: early_init_def Let_def\<close>)
qed

definition wit_map :: "memmap_entry list" where
  "wit_map =
     [\<lparr>me_base = 0, me_length = 0x9FC00, me_type = LIMINE_MEMMAP_RESERVED\<rparr>,
      \<lparr>me_base = 0x100000, me_length = 0x10800, me_type = LIMINE_MEMMAP_USABLE\<rparr>,
      \<lparr>me_base = 0x200800, me_length = 0x40000, me_type = LIMINE_MEMMAP_USABLE\<rparr>]"

definition wit_boot :: boot_info where
  "wit_boot = \<lparr>memmap = Some wit_map, hhdm_offset = Some 0xFFFF800000000000,
     kernel_address = Some (0x100000, 0xFFFFFFFF80000000), modules = None,
     kernel_start = 0xFFFFFFFF80000000, kernel_end = 0xFFFFFFFF80003000,
     text_start = 0xFFFFFFFF80000000, text_end = 0xFFFFFFFF80001000,
     rodata_start = 0xFFFFFFFF80001000, rodata_end = 0xFFFFFFFF80002000,
     data_start = 0xFFFFFFFF80002000, bss_end = 0xFFFFFFFF80003000\<rparr>"

definition early_reset :: early_state where
  "early_reset = \<lparr>g_base = 0, g_cursor = 0, g_end = 0, g_region_forced = False\<rparr>"

definition wit_early :: early_state where
  "wit_early = \<lparr>g_base = 0x201000, g_cursor = 0x201000, g_end = 0x240000, g_region_forced = False\<rparr>"

lemma wit_early_init: "early_init wit_boot early_reset = Done wit_early"
  by code_simp

lemma wit_map_bounded: "memmap_bounded wit_map"
  by (simp add: memmap_bounded_def wit_map_def)

lemma wit_early_wf: "early_wf wit_early"
  by (simp add: early_wf_def wit_early_def)

theorem early_init_region_witness:
  "early_init wit_boot early_reset = Done wit_early \<and> early_wf wit_early \<and> g_end wit_early \<le> 0x100000000"
proof -
  have "wit_map \<noteq> []" "memmap wit_boot = Some wit_map" "\<not> g_region_forced early_reset"
    by (simp_all add: wit_map_def wit_boot_def early_reset_def)
  moreover have "\<exists>e \<in> set wit_map. candidate e \<and> span_end e \<le> 0x100000000" by code_simp
  ultimately show ?thesis
    using early_init_region [of wit_boot wit_map early_reset] wit_early_init wit_map_bounded
    by (auto simp: best_span_def)
qed

text \<open>C21: Successive calls of \<open>early_alloc_page\<close> hand out consecutive pages starting at the
  cursor, exactly as many as the region still holds; the call that finds the region full
  panics and no page beyond the end is ever returned.\<close>
theorem early_alloc_page_sequence:
  assumes "early_wf s"
  shows "take_frames early_alloc_page n s =
    (if unat (g_cursor s) + n * 4096 \<le> unat (g_end s)
     then Done (map (\<lambda>i. g_cursor s + of_nat i * PAGE_SIZE) [0..<n],
                s\<lparr>g_cursor := g_cursor s + of_nat n * PAGE_SIZE\<rparr>)
     else Panic ''early_alloc_page: out of early pages (used=%zu pages)'')"
  by (rule take_early_pages [OF assms])

theorem early_alloc_page_sequence_witness:
  "take_frames early_alloc_page 2 wit_early =
     Done ([0x201000, 0x202000], wit_early\<lparr>g_cursor := 0x203000\<rparr>) \<and>
   take_frames early_alloc_page 64 wit_early =
     Panic ''early_alloc_page: out of early pages (used=%zu pages)''"
proof -
  from early_alloc_page_sequence [OF wit_early_wf, of 2]
    early_alloc_page_sequence [OF wit_early_wf, of 64]
  show ?thesis by (simp add: wit_early_def PAGE_SIZE_def upt_rec)
qed

text \<open>The region that \<open>early_reserved_region\<close> reports after \<open>n\<close> allocations from a fresh
  allocator is exactly the pages handed out: it starts at the base, counts \<open>n\<close> pages, agrees
  with \<open>early_pages_used\<close>, and the pages are pairwise distinct.\<close>
theorem early_reserved_region_exact:
  assumes "early_wf s" and "g_cursor s = g_base s"
    and "take_frames early_alloc_page n s = Done (ps, s')"
  shows "early_reserved_region s' = (g_base s, of_nat n) \<and> early_pages_used s' = of_nat n \<and>
    length ps = n \<and> distinct ps \<and>
    set ps = {p. 4096 dvd unat p \<and> unat (g_base s) \<le> unat p \<and> unat p < unat (g_base s) + n * 4096}"
proof -
  note fresh = early.take_frames_fresh [OF assms(1,3)]
  from assms have fits: "unat (g_cursor s) + n * 4096 \<le> unat (g_end s)"
    and s': "s' = s\<lparr>g_cursor := g_cursor s + of_nat n * PAGE_SIZE\<rparr>"
    by (auto simp: take_early_pages split: if_splits)
  from fits assms(1) have small: "n * 4096 \<le> 2 ^ 52"
    by (simp add: early_wf_def)
  then have len: "unat (of_nat n * PAGE_SIZE) = n * 4096"
    by (simp add: PAGE_SIZE_def unat_word_ariths unat_of_nat)
  have cur: "unat (g_cursor s') = unat (g_base s) + n * 4096"
    using fits assms(1,2) len unat_u64_less [of "g_end s"] unfolding s'
    by (simp add: early_wf_def unat_word_ariths)
  have "of_nat n * PAGE_SIZE div PAGE_SIZE = (of_nat n :: u64)"
    using small len by (simp add: word_unat_eq_iff unat_div unat_of_nat PAGE_SIZE_def)
  then have "early_reserved_region s' = (g_base s, of_nat n) \<and> early_pages_used s' = of_nat n"
    using assms(2) by (simp add: early_reserved_region_def early_pages_used_def s')
  moreover have "early_pages s = {}"
    using assms(2) by (auto simp: early_pages_def)
  with fresh have "set ps = early_pages s'" by simp
  ultimately show ?thesis
    using fresh cur s' by (auto simp: early_pages_def word_le_nat_alt word_less_nat_alt)
qed

theorem early_reserved_region_exact_witness:
  "early_reserved_region (wit_early\<lparr>g_cursor := 0x203000\<rparr>) = (0x201000, 2)"
proof -
  have "take_frames early_alloc_page 2 wit_early =
      Done ([0x201000, 0x202000], wit_early\<lparr>g_cursor := 0x203000\<rparr>)" by code_simp
  then show ?thesis
    using early_reserved_region_exact [of wit_early 2] wit_early_wf by (simp add: wit_early_def)
qed

end
