(* ===== verification/Frame_Alloc.thy ===== *)
theory Frame_Alloc
  imports Early_Alloc
begin

text \<open>
  The permanent physical page allocator \<open>src/src/neo_framealloc.c\<close>. The globals of the file
  are the record \<open>frame_state\<close>, an extension of \<open>early_state\<close> because \<open>frame_init\<close> takes the
  pages of its two bitmaps from the early allocator. A bitmap is a byte array with the
  address it is placed at; its bytes are not part of the general memory, which is justified
  by the theorem that the pages it occupies are never handed out. Frame indices and counts
  (\<open>size_t\<close>) are naturals, addresses are 64-bit words. \<open>include/lock.h\<close> is modelled here too.
\<close>

section \<open>Spinlocks\<close>

text \<open>The kernel runs on one processor: acquiring a lock that is held spins forever.\<close>

definition spinlock_acquire :: "bool \<Rightarrow> bool outcome" where
  "spinlock_acquire lock = (if lock then Diverge else Done True)"

definition spinlock_release :: "bool \<Rightarrow> bool" where
  "spinlock_release lock = (if lock then False else lock)"

lemma spinlock_release_False [simp]: "spinlock_release lock = False"
  by (simp add: spinlock_release_def)

section \<open>Bitmaps\<close>

definition bm_set :: "u8 list \<Rightarrow> nat \<Rightarrow> u8 list" where
  "bm_set bm i = bm[i div 8 := bm ! (i div 8) OR push_bit (i mod 8) 1]"

definition bm_clear :: "u8 list \<Rightarrow> nat \<Rightarrow> u8 list" where
  "bm_clear bm i = bm[i div 8 := bm ! (i div 8) AND NOT (push_bit (i mod 8) 1)]"

definition bm_test :: "u8 list \<Rightarrow> nat \<Rightarrow> bool" where
  "bm_test bm i \<longleftrightarrow> drop_bit (i mod 8) (bm ! (i div 8)) AND 1 \<noteq> 0"

section \<open>State and operations\<close>

record frame_state = early_state +
  g_alloc_bm :: "u8 list"
  g_usable_bm :: "u8 list"
  g_alloc_at :: u64
  g_usable_at :: u64
  g_frame_count :: nat
  g_max_phys :: u64
  g_free_count :: nat
  g_hint :: nat
  g_memlock :: bool

definition frame_index_of :: "u64 \<Rightarrow> nat" where
  "frame_index_of p = unat (p div PAGE_SIZE)"

definition frame_addr_of :: "nat \<Rightarrow> u64" where
  "frame_addr_of i = of_nat i * PAGE_SIZE"

definition compute_max_phys_and_count ::
    "boot_info \<Rightarrow> 'a frame_state_scheme \<Rightarrow> 'a frame_state_scheme outcome" where
  "compute_max_phys_and_count bi s =
     (case memmap bi of
        None \<Rightarrow> Panic ''frame_init: Limine memmap missing''
      | Some es \<Rightarrow>
          if es = [] then Panic ''frame_init: Limine memmap missing''
          else
            let max_phys = fold (\<lambda>e m. if me_base e + me_length e > m then me_base e + me_length e else m) es 0;
                count = unat (ALIGN_UP max_phys PAGE_SIZE div PAGE_SIZE)
            in if count = 0 then Panic ''frame_init: zero frames''
               else Done (s\<lparr>g_max_phys := max_phys, g_frame_count := count\<rparr>))"

definition mark_frame_allocated :: "nat \<Rightarrow> 'a frame_state_scheme \<Rightarrow> 'a frame_state_scheme" where
  "mark_frame_allocated i s =
     (if \<not> bm_test (g_alloc_bm s) i
      then s\<lparr>g_alloc_bm := bm_set (g_alloc_bm s) i,
             g_free_count := (if g_free_count s \<noteq> 0 then g_free_count s - 1 else g_free_count s)\<rparr>
      else s)"

definition mark_range_allocated ::
    "u64 \<Rightarrow> u64 \<Rightarrow> 'a frame_state_scheme \<Rightarrow> 'a frame_state_scheme" where
  "mark_range_allocated base fin s =
     (if fin \<le> base then s
      else
        let i0 = frame_index_of (ALIGN_DOWN base PAGE_SIZE);
            i1 = frame_index_of (ALIGN_UP fin PAGE_SIZE);
            i1' = (if i1 > g_frame_count s then g_frame_count s else i1)
        in fold mark_frame_allocated [i0..<i1'] s)"

definition mark_frame_usable_and_free :: "nat \<Rightarrow> 'a frame_state_scheme \<Rightarrow> 'a frame_state_scheme" where
  "mark_frame_usable_and_free i s =
     (let s1 = (if \<not> bm_test (g_usable_bm s) i
                then s\<lparr>g_usable_bm := bm_set (g_usable_bm s) i\<rparr> else s)
      in if bm_test (g_alloc_bm s1) i
         then s1\<lparr>g_alloc_bm := bm_clear (g_alloc_bm s1) i, g_free_count := g_free_count s1 + 1\<rparr>
         else s1)"

definition mark_range_usable_and_free ::
    "u64 \<Rightarrow> u64 \<Rightarrow> 'a frame_state_scheme \<Rightarrow> 'a frame_state_scheme" where
  "mark_range_usable_and_free base fin s =
     (if fin \<le> base then s
      else
        let i0 = frame_index_of (ALIGN_UP base PAGE_SIZE);
            i1 = frame_index_of (ALIGN_DOWN fin PAGE_SIZE)
        in if i1 \<le> i0 then s
           else
             let i1' = (if i1 > g_frame_count s then g_frame_count s else i1)
             in fold mark_frame_usable_and_free [i0..<i1'] s)"

text \<open>The pages of one bitmap: the first is its address, the others follow it.\<close>

definition alloc_bitmap_pages ::
    "nat \<Rightarrow> 'a early_state_scheme \<Rightarrow> (u64 \<times> 'a early_state_scheme) outcome" where
  "alloc_bitmap_pages bm_pages s =
     bind_outcome (early_alloc_page s) (\<lambda>(a_phys, s1).
     bind_outcome (for_outcome [1..<bm_pages]
         (\<lambda>_ t. bind_outcome (early_alloc_page t) (\<lambda>(_, t'). Done t')) s1) (\<lambda>s2.
     Done (a_phys, s2)))"

definition mark_usable_entry :: "memmap_entry \<Rightarrow> 'a frame_state_scheme \<Rightarrow> 'a frame_state_scheme" where
  "mark_usable_entry e s =
     (if me_type e = LIMINE_MEMMAP_USABLE
      then mark_range_usable_and_free (me_base e) (me_base e + me_length e) s else s)"

definition mark_module :: "limine_file \<Rightarrow> 'a frame_state_scheme \<Rightarrow> 'a frame_state_scheme" where
  "mark_module f s = mark_range_allocated (lf_address f) (lf_address f + lf_size f) s"

definition mark_kernel :: "boot_info \<Rightarrow> u64 \<times> u64 \<Rightarrow> 'a frame_state_scheme \<Rightarrow> 'a frame_state_scheme" where
  "mark_kernel bi ka s =
     (let kphys_base = fst ka; kvirt_base = snd ka
      in mark_range_allocated (kphys_base + (kernel_start bi - kvirt_base))
           (kphys_base + (kernel_end bi - kvirt_base)) s)"

definition mark_early :: "'a frame_state_scheme \<Rightarrow> 'a frame_state_scheme" where
  "mark_early s =
     (let early_base = fst (early_reserved_region s); early_pages = snd (early_reserved_region s)
      in if early_pages \<noteq> 0
         then mark_range_allocated early_base (early_base + early_pages * PAGE_SIZE) s else s)"

definition frame_init :: "boot_info \<Rightarrow> 'a frame_state_scheme \<Rightarrow> 'a frame_state_scheme outcome" where
  "frame_init bi s0 =
     bind_outcome (compute_max_phys_and_count bi s0) (\<lambda>s.
     case hhdm_offset bi of
       None \<Rightarrow> Panic ''frame_init: HHDM request missing''
     | Some hhdm \<Rightarrow>
         let bm_bytes = (g_frame_count s + 7) div 8;
             bm_pages = unat (ALIGN_UP (of_nat bm_bytes) PAGE_SIZE div PAGE_SIZE)
         in
         bind_outcome (alloc_bitmap_pages bm_pages s) (\<lambda>(a_phys, s1).
         bind_outcome (alloc_bitmap_pages bm_pages (s1\<lparr>g_alloc_at := a_phys + hhdm\<rparr>)) (\<lambda>(b_phys, s2).
         let s3 = s2\<lparr>g_usable_at := b_phys + hhdm, g_alloc_bm := replicate bm_bytes 0xFF,
                     g_usable_bm := replicate bm_bytes 0, g_free_count := 0\<rparr>;
             s4 = fold mark_usable_entry (the (memmap bi)) s3
         in case kernel_address bi of
              None \<Rightarrow> Panic ''frame_init: kernel address response missing''
            | Some ka \<Rightarrow>
                let s5 = mark_kernel bi ka s4;
                    s6 = (case modules bi of None \<Rightarrow> s5 | Some ms \<Rightarrow> fold mark_module ms s5)
                in Done ((mark_early s6)\<lparr>g_hint := 0\<rparr>))))"

definition frame_usable_free :: "'a frame_state_scheme \<Rightarrow> nat \<Rightarrow> bool" where
  "frame_usable_free s i \<longleftrightarrow> bm_test (g_usable_bm s) i \<and> \<not> bm_test (g_alloc_bm s) i"

text \<open>The two passes of the search: from the hint to the end, then from 0 to the hint.\<close>

definition frame_search :: "'a frame_state_scheme \<Rightarrow> nat option" where
  "frame_search s =
     (case List.find (frame_usable_free s) [g_hint s..<g_frame_count s] of
        Some i \<Rightarrow> Some i
      | None \<Rightarrow> List.find (frame_usable_free s) [0..<g_hint s])"

definition frame_alloc :: "'a frame_state_scheme \<Rightarrow> (u64 \<times> 'a frame_state_scheme) outcome" where
  "frame_alloc s0 =
     bind_outcome (spinlock_acquire (g_memlock s0)) (\<lambda>l.
     let s = s0\<lparr>g_memlock := l\<rparr> in
     if g_free_count s = 0 then Panic ''frame_alloc: OOM''
     else
       case frame_search s of
         None \<Rightarrow> Panic ''frame_alloc: free count nonzero but no free frame found (bitmap corruption?)''
       | Some i \<Rightarrow>
           Done (frame_addr_of i,
             s\<lparr>g_alloc_bm := bm_set (g_alloc_bm s) i, g_free_count := g_free_count s - 1,
               g_hint := i + 1, g_memlock := spinlock_release (g_memlock s)\<rparr>))"

definition n_frame_free :: "u64 \<Rightarrow> 'a frame_state_scheme \<Rightarrow> 'a frame_state_scheme outcome" where
  "n_frame_free paddr s0 =
     (if paddr AND (PAGE_SIZE - 1) \<noteq> 0 then Panic ''frame_free: unaligned paddr=0x%llx''
      else if paddr \<ge> g_max_phys s0 then Panic ''frame_free: out-of-bounds paddr=0x%llx''
      else
        let i = frame_index_of paddr in
        bind_outcome (spinlock_acquire (g_memlock s0)) (\<lambda>l.
        let s = s0\<lparr>g_memlock := l\<rparr> in
        if \<not> bm_test (g_usable_bm s) i then Panic ''frame_free: non-usable paddr=0x%llx''
        else if \<not> bm_test (g_alloc_bm s) i then Panic ''frame_free: double-free paddr=0x%llx''
        else
          let s1 = s\<lparr>g_alloc_bm := bm_clear (g_alloc_bm s) i, g_free_count := g_free_count s + 1\<rparr>;
              s2 = (if i < g_hint s1 then s1\<lparr>g_hint := i\<rparr> else s1)
          in Done (s2\<lparr>g_memlock := spinlock_release (g_memlock s2)\<rparr>)))"

definition frame_is_allocated :: "'a frame_state_scheme \<Rightarrow> u64 \<Rightarrow> bool" where
  "frame_is_allocated s paddr \<longleftrightarrow>
     (if paddr AND (PAGE_SIZE - 1) \<noteq> 0 \<or> paddr \<ge> g_max_phys s then True
      else bm_test (g_alloc_bm s) (frame_index_of paddr))"

definition frame_total_count :: "'a frame_state_scheme \<Rightarrow> nat" where
  "frame_total_count s = g_frame_count s"

definition frame_free_count :: "'a frame_state_scheme \<Rightarrow> nat" where
  "frame_free_count s = g_free_count s"

section \<open>Bitmap laws\<close>
lemma bm_test_bit: "bm_test bm i \<longleftrightarrow> bit (bm ! (i div 8)) (i mod 8)"
  by (simp add: bm_test_def bit_iff_odd_drop_bit and_one_eq odd_iff_mod_2_eq_one)

lemma bit_push_bit_one_u8: "k < 8 \<Longrightarrow> bit (2 ^ k :: u8) n \<longleftrightarrow> n = k"
  by (auto simp: bit_exp_iff)

lemma nat_eq_div_mod_8: "(i::nat) = j \<longleftrightarrow> i div 8 = j div 8 \<and> i mod 8 = j mod 8"
  by (metis div_mult_mod_eq)

lemma bm_test_set:
  "i div 8 < length bm \<Longrightarrow> bm_test (bm_set bm i) j \<longleftrightarrow> j = i \<or> bm_test bm j"
  using nat_eq_div_mod_8 [of i j]
  by (cases "i div 8 = j div 8")
     (auto simp: bm_test_bit bm_set_def bit_or_iff bit_push_bit_one_u8 nth_list_update_neq)

lemma bm_test_clear:
  "i div 8 < length bm \<Longrightarrow> bm_test (bm_clear bm i) j \<longleftrightarrow> j \<noteq> i \<and> bm_test bm j"
  using nat_eq_div_mod_8 [of i j]
  by (cases "i div 8 = j div 8")
     (auto simp: bm_test_bit bm_clear_def bit_and_iff bit_not_iff bit_push_bit_one_u8
       nth_list_update_neq)

lemma length_bm_set [simp]: "length (bm_set bm i) = length bm"
  by (simp add: bm_set_def)

lemma length_bm_clear [simp]: "length (bm_clear bm i) = length bm"
  by (simp add: bm_clear_def)

lemma bm_test_replicate_FF: "i < 8 * n \<Longrightarrow> bm_test (replicate n 0xFF) i"
proof -
  assume "i < 8 * n"
  moreover have "bit (0xFF :: u8) (i mod 8)"
  proof -
    have "(0xFF :: u8) = mask 8" by (simp add: mask_eq_exp_minus_1)
    then show ?thesis by (simp only: bit_mask_iff) simp
  qed
  ultimately show ?thesis by (simp add: bm_test_bit less_mult_imp_div_less mult.commute)
qed

lemma bm_test_replicate_0: "i < 8 * n \<Longrightarrow> \<not> bm_test (replicate n 0) i"
  by (simp add: bm_test_bit less_mult_imp_div_less mult.commute)

lemma bitmap_index: "i < n \<Longrightarrow> length bm = (n + 7) div 8 \<Longrightarrow> i div 8 < length bm"
  by simp

section \<open>The invariant\<close>

definition free_frames :: "'a frame_state_scheme \<Rightarrow> nat set" where
  "free_frames s = {i. i < g_frame_count s \<and> \<not> bm_test (g_alloc_bm s) i}"

definition frame_topology :: "'a frame_state_scheme \<Rightarrow> bool" where
  "frame_topology s \<longleftrightarrow>
     g_frame_count s = (unat (g_max_phys s) + 4095) div 4096 \<and> unat (g_max_phys s) \<le> 2 ^ 52 \<and>
     length (g_alloc_bm s) = (g_frame_count s + 7) div 8 \<and>
     length (g_usable_bm s) = (g_frame_count s + 7) div 8"

definition frame_wf :: "'a frame_state_scheme \<Rightarrow> bool" where
  "frame_wf s \<longleftrightarrow> frame_topology s \<and>
     (\<forall>i < g_frame_count s. \<not> bm_test (g_alloc_bm s) i \<longrightarrow> bm_test (g_usable_bm s) i) \<and>
     g_free_count s = card (free_frames s) \<and> g_hint s \<le> g_frame_count s \<and> \<not> g_memlock s"

lemma finite_free_frames [simp]: "finite (free_frames s)"
  by (simp add: free_frames_def)

lemma frame_topology_index:
  assumes "frame_topology s" and "i < g_frame_count s"
  shows "i div 8 < length (g_alloc_bm s)" "i div 8 < length (g_usable_bm s)"
  using assms by (auto simp: frame_topology_def intro: bitmap_index)

lemma frame_count_bound:
  assumes "frame_topology s" shows "g_frame_count s \<le> 2 ^ 40"
  using assms div_le_mono [of "unat (g_max_phys s) + 4095" "2 ^ 52 + 4095" 4096]
  by (simp add: frame_topology_def)

lemma unat_frame_addr_of:
  assumes "i < 2 ^ 52" shows "unat (frame_addr_of i) = i * 4096"
  using assms by (simp add: frame_addr_of_def PAGE_SIZE_def unat_word_ariths unat_of_nat)

lemma frame_index_of_unat: "frame_index_of p = unat p div 4096"
  by (simp add: frame_index_of_def PAGE_SIZE_def unat_div)

lemma frame_index_addr:
  assumes "i < 2 ^ 52" shows "frame_index_of (frame_addr_of i) = i"
  using assms by (simp add: frame_index_of_unat unat_frame_addr_of)

lemma frame_addr_below:
  assumes "frame_topology s"
  shows "i < g_frame_count s \<longleftrightarrow> i * 4096 < unat (g_max_phys s)"
  using assms less_eq_div_iff_mult_less_eq [of 4096 "Suc i" "unat (g_max_phys s) + 4095"]
  by (auto simp: frame_topology_def Suc_le_eq)

lemma frame_is_allocated_addr:
  assumes "frame_topology s" and "i < g_frame_count s"
  shows "frame_is_allocated s (frame_addr_of i) \<longleftrightarrow> bm_test (g_alloc_bm s) i"
proof -
  have i: "i < 2 ^ 52" using assms frame_count_bound [OF assms(1)] by simp
  show ?thesis
    using assms unat_frame_addr_of [OF i] frame_addr_below [OF assms(1)]
    by (simp add: frame_is_allocated_def page_offset_zero frame_index_addr [OF i] word_le_nat_alt)
qed

lemma frame_is_allocated_iff:
  assumes "frame_topology s"
  shows "frame_is_allocated s p \<longleftrightarrow> (\<forall>i \<in> free_frames s. p \<noteq> frame_addr_of i)"
proof (cases "4096 dvd unat p \<and> p < g_max_phys s")
  case True
  define i where "i = frame_index_of p"
  from True have p: "unat p = i * 4096" by (simp add: i_def frame_index_of_unat)
  from True have i: "i < g_frame_count s"
    using frame_addr_below [OF assms] p by (simp add: word_less_nat_alt)
  then have i': "i < 2 ^ 52" using frame_count_bound [OF assms] by simp
  then have p': "p = frame_addr_of i" using p unat_frame_addr_of by (simp add: word_unat_eq_iff)
  have "p = frame_addr_of j \<longleftrightarrow> j = i" if "j \<in> free_frames s" for j
  proof -
    from that have "j < 2 ^ 52" using frame_count_bound [OF assms] by (simp add: free_frames_def)
    then show ?thesis unfolding p' using frame_index_addr [OF i'] frame_index_addr [of j] by metis
  qed
  then have "(\<forall>j \<in> free_frames s. p \<noteq> frame_addr_of j) \<longleftrightarrow> i \<notin> free_frames s" by blast
  then show ?thesis
    using i frame_is_allocated_addr [OF assms i] by (simp add: p' free_frames_def)
next
  case False
  then have "frame_is_allocated s p"
    by (auto simp: frame_is_allocated_def page_offset_zero)
  moreover have "p \<noteq> frame_addr_of i" if "i \<in> free_frames s" for i
  proof -
    from that have "i < 2 ^ 52" using frame_count_bound [OF assms] by (simp add: free_frames_def)
    from unat_frame_addr_of [OF this] that frame_addr_below [OF assms, of i]
    have "4096 dvd unat (frame_addr_of i)" "frame_addr_of i < g_max_phys s"
      by (simp_all add: free_frames_def word_less_nat_alt)
    with False show ?thesis by blast
  qed
  ultimately show ?thesis by simp
qed

section \<open>Allocation\<close>
lemma frame_search_Some:
  assumes "frame_search s = Some i" and "g_hint s \<le> g_frame_count s"
  shows "i < g_frame_count s" "bm_test (g_usable_bm s) i" "\<not> bm_test (g_alloc_bm s) i"
  using assms
  by (auto simp: frame_search_def find_Some_iff find_None_iff frame_usable_free_def
      split: option.splits)

lemma frame_search_None:
  assumes "frame_search s = None" and "i < g_frame_count s"
  shows "\<not> frame_usable_free s i"
  using assms
  by (cases "i < g_hint s") (auto simp: frame_search_def find_None_iff split: option.splits)

lemma frame_search_total:
  assumes "frame_wf s" and "g_free_count s \<noteq> 0"
  obtains i where "frame_search s = Some i" "i \<in> free_frames s" "bm_test (g_usable_bm s) i"
proof (cases "frame_search s")
  case None
  from assms have "free_frames s \<noteq> {}" by (auto simp: frame_wf_def)
  then obtain j where "j < g_frame_count s" "\<not> bm_test (g_alloc_bm s) j"
    by (auto simp: free_frames_def)
  with assms(1) have "frame_usable_free s j" "j < g_frame_count s"
    by (auto simp: frame_wf_def frame_usable_free_def)
  with frame_search_None [OF None] show ?thesis by blast
next
  case (Some i)
  with frame_search_Some [of s i] assms(1) that show ?thesis
    by (auto simp: frame_wf_def free_frames_def)
qed

text \<open>The state after frame \<open>i\<close> has been taken.\<close>

definition take_frame :: "nat \<Rightarrow> 'a frame_state_scheme \<Rightarrow> 'a frame_state_scheme" where
  "take_frame i s = s\<lparr>g_alloc_bm := bm_set (g_alloc_bm s) i, g_free_count := g_free_count s - 1,
     g_hint := i + 1, g_memlock := False\<rparr>"

lemma take_frame_free:
  assumes "frame_wf s" and "i \<in> free_frames s"
  shows "free_frames (take_frame i s) = free_frames s - {i}" and "frame_wf (take_frame i s)"
proof -
  have top: "frame_topology s" using assms(1) by (simp add: frame_wf_def)
  have i: "i < g_frame_count s" using assms(2) by (simp add: free_frames_def)
  note test = bm_test_set [OF frame_topology_index(1) [OF top i]]
  show free: "free_frames (take_frame i s) = free_frames s - {i}"
    by (auto simp: free_frames_def take_frame_def test)
  have "card (free_frames (take_frame i s)) = g_free_count s - 1"
    using assms by (simp add: free frame_wf_def)
  then show "frame_wf (take_frame i s)"
    using assms top i by (simp add: frame_wf_def frame_topology_def take_frame_def test)
qed

lemma frame_alloc_wf_cases:
  assumes "frame_wf s"
  obtains "g_free_count s = 0" "free_frames s = {}" "frame_alloc s = Panic ''frame_alloc: OOM''"
  | i where "i \<in> free_frames s" "bm_test (g_usable_bm s) i" "g_free_count s \<noteq> 0"
      "frame_alloc s = Done (frame_addr_of i, take_frame i s)"
proof (cases "g_free_count s = 0")
  case True
  with assms have "free_frames s = {}" "frame_alloc s = Panic ''frame_alloc: OOM''"
    by (simp_all add: frame_wf_def frame_alloc_def spinlock_acquire_def)
  with True that(1) show ?thesis by blast
next
  case False
  then obtain i where i: "frame_search s = Some i" "i \<in> free_frames s" "bm_test (g_usable_bm s) i"
    using frame_search_total [OF assms] by blast
  have "frame_usable_free (s\<lparr>g_memlock := True\<rparr>) = frame_usable_free s"
    by (simp add: frame_usable_free_def fun_eq_iff)
  then have "frame_search (s\<lparr>g_memlock := True\<rparr>) = frame_search s"
    by (simp add: frame_search_def split: option.split)
  with i False assms have "frame_alloc s = Done (frame_addr_of i, take_frame i s)"
    by (auto simp: frame_alloc_def spinlock_acquire_def frame_wf_def take_frame_def Let_def)
  with i False that(2) show ?thesis by blast
qed

lemma frame_alloc_DoneD:
  assumes "frame_wf s" and "frame_alloc s = Done (p, s')"
  obtains i where "i \<in> free_frames s" "bm_test (g_usable_bm s) i" "g_free_count s \<noteq> 0"
    "p = frame_addr_of i" "s' = take_frame i s"
  using frame_alloc_wf_cases [OF assms(1)] assms(2) by (metis outcome.distinct(1) outcome.inject(1) prod.inject)

lemma free_frame_addr:
  assumes "frame_topology s" and "i \<in> free_frames s"
  shows "unat (frame_addr_of i) = i * 4096" "frame_index_of (frame_addr_of i) = i"
  using assms frame_count_bound [OF assms(1)] unat_frame_addr_of [of i] frame_index_addr [of i]
  by (simp_all add: free_frames_def)

lemma frame_alloc_wf:
  assumes "frame_wf s" and "frame_alloc s = Done (p, s')"
  shows "frame_wf s'"
  using assms by (metis frame_alloc_DoneD take_frame_free(2))

definition frame_limit :: "'a frame_state_scheme \<Rightarrow> nat" where
  "frame_limit s = g_frame_count s * 4096"

interpretation pmm: frame_source frame_alloc frame_wf "\<lambda>s. {p. frame_is_allocated s p}" frame_limit
proof unfold_locales
  fix s s' :: "'a frame_state_scheme" and p
  assume wf: "frame_wf s" and al: "frame_alloc s = Done (p, s')"
  show wf': "frame_wf s'" by (rule frame_alloc_wf [OF wf al])
  from wf wf' have top: "frame_topology s" "frame_topology s'" by (simp_all add: frame_wf_def)
  from frame_alloc_DoneD [OF wf al] obtain i where i: "i \<in> free_frames s"
    and p: "p = frame_addr_of i" and s': "s' = take_frame i s" by blast
  note addr = free_frame_addr [OF top(1) i]
  show "p \<notin> {p. frame_is_allocated s p}"
    using i by (auto simp: frame_is_allocated_iff [OF top(1)] p)
  have "frame_addr_of j = frame_addr_of i \<longleftrightarrow> j = i" if "j \<in> free_frames s" for j
    using addr free_frame_addr [OF top(1) that] by metis
  then show "{p. frame_is_allocated s' p} = insert p {p. frame_is_allocated s p}"
    using take_frame_free(1) [OF wf i] i
    by (auto simp: frame_is_allocated_iff [OF top(1)] frame_is_allocated_iff [OF top(2) [unfolded s']] p s')
  show "4096 dvd unat p" by (simp add: p addr)
  show "unat p + 4096 \<le> frame_limit s"
    using i by (simp add: p addr frame_limit_def free_frames_def)
qed

section \<open>Release\<close>

definition give_frame :: "nat \<Rightarrow> 'a frame_state_scheme \<Rightarrow> 'a frame_state_scheme" where
  "give_frame i s = s\<lparr>g_alloc_bm := bm_clear (g_alloc_bm s) i, g_free_count := g_free_count s + 1,
     g_hint := min i (g_hint s), g_memlock := False\<rparr>"

lemma n_frame_free_cases:
  assumes "frame_wf s"
  shows "n_frame_free p s =
    (if \<not> 4096 dvd unat p then Panic ''frame_free: unaligned paddr=0x%llx''
     else if g_max_phys s \<le> p then Panic ''frame_free: out-of-bounds paddr=0x%llx''
     else if \<not> bm_test (g_usable_bm s) (frame_index_of p)
       then Panic ''frame_free: non-usable paddr=0x%llx''
     else if \<not> bm_test (g_alloc_bm s) (frame_index_of p)
       then Panic ''frame_free: double-free paddr=0x%llx''
     else Done (give_frame (frame_index_of p) s))"
  using assms
  by (simp add: n_frame_free_def page_offset_zero spinlock_acquire_def frame_wf_def give_frame_def
      Let_def min_def)

lemma give_frame_free:
  assumes "frame_wf s" and "i < g_frame_count s" and "bm_test (g_usable_bm s) i"
    and "bm_test (g_alloc_bm s) i"
  shows "free_frames (give_frame i s) = insert i (free_frames s)" and "frame_wf (give_frame i s)"
proof -
  have top: "frame_topology s" using assms(1) by (simp add: frame_wf_def)
  note test = bm_test_clear [OF frame_topology_index(1) [OF top assms(2)]]
  show free: "free_frames (give_frame i s) = insert i (free_frames s)"
    using assms by (auto simp: free_frames_def give_frame_def test)
  have "card (free_frames (give_frame i s)) = g_free_count s + 1"
    using assms by (simp add: free frame_wf_def) (simp add: free_frames_def)
  then show "frame_wf (give_frame i s)"
    using assms top by (auto simp: frame_wf_def frame_topology_def give_frame_def test)
qed

section \<open>Clients that own frames\<close>

text \<open>
  \<open>pmm_run s0 s owned\<close>: starting in \<open>s0\<close> with no frame of its own, a client has called
  \<open>frame_alloc\<close> and \<open>n_frame_free\<close> in some order, freeing only frames it owns, and the
  allocator is now in \<open>s\<close> while the client holds \<open>owned\<close>.
\<close>

inductive pmm_run :: "'a frame_state_scheme \<Rightarrow> 'a frame_state_scheme \<Rightarrow> u64 set \<Rightarrow> bool" where
  start: "pmm_run s0 s0 {}"
| alloc: "pmm_run s0 s owned \<Longrightarrow> frame_alloc s = Done (p, s') \<Longrightarrow> pmm_run s0 s' (insert p owned)"
| free: "pmm_run s0 s owned \<Longrightarrow> p \<in> owned \<Longrightarrow> n_frame_free p s = Done s' \<Longrightarrow> pmm_run s0 s' (owned - {p})"

definition owned_ok :: "'a frame_state_scheme \<Rightarrow> 'a frame_state_scheme \<Rightarrow> u64 set \<Rightarrow> bool" where
  "owned_ok s0 s owned \<longleftrightarrow> frame_wf s \<and> g_frame_count s = g_frame_count s0 \<and>
     g_usable_bm s = g_usable_bm s0 \<and> g_max_phys s = g_max_phys s0 \<and> free_frames s \<subseteq> free_frames s0 \<and>
     owned = frame_addr_of ` (free_frames s0 - free_frames s)"

lemma frame_wf_topology: "frame_wf s \<Longrightarrow> frame_topology s"
  by (simp add: frame_wf_def)

lemma owned_start: "frame_wf s \<Longrightarrow> owned_ok s s {}"
  by (simp add: owned_ok_def)

lemma inj_on_frame_addr: "inj_on frame_addr_of {i. i < 2 ^ 52}"
  by (rule inj_on_inverseI [of _ frame_index_of]) (simp add: frame_index_addr)

lemma free_frames_small:
  assumes "frame_topology s" shows "free_frames s \<subseteq> {i. i < 2 ^ 52}"
  using frame_count_bound [OF assms] by (auto simp: free_frames_def)

lemma owned_alloc:
  assumes "frame_wf s0" and "owned_ok s0 s owned" and "frame_alloc s = Done (p, s')"
  shows "owned_ok s0 s' (insert p owned)" and "p \<notin> owned"
proof -
  have wf: "frame_wf s" and top: "frame_topology s0"
    using assms by (simp_all add: owned_ok_def frame_wf_topology)
  from frame_alloc_DoneD [OF wf assms(3)] obtain i where i: "i \<in> free_frames s"
    and p: "p = frame_addr_of i" and s': "s' = take_frame i s" by blast
  have sub: "free_frames s \<subseteq> free_frames s0" using assms(2) by (simp add: owned_ok_def)
  have "inj_on frame_addr_of (free_frames s0)"
    by (rule inj_on_subset [OF inj_on_frame_addr free_frames_small [OF top]])
  then show "p \<notin> owned"
    using assms(2) i sub by (auto simp: owned_ok_def p dest: inj_onD)
  have "free_frames s0 - (free_frames s - {i}) = insert i (free_frames s0 - free_frames s)"
    using i sub by blast
  then show "owned_ok s0 s' (insert p owned)"
    using take_frame_free [OF wf i] assms(2) sub
    by (auto simp: owned_ok_def s' p) (simp_all add: take_frame_def)
qed

lemma owned_free_run:
  assumes "frame_wf s0" and "owned_ok s0 s owned" and "p \<in> owned"
  obtains i where "i \<in> free_frames s0" "i \<notin> free_frames s" "p = frame_addr_of i"
    "n_frame_free p s = Done (give_frame i s)" "bm_test (g_usable_bm s) i" "bm_test (g_alloc_bm s) i"
proof -
  have wf: "frame_wf s" and top: "frame_topology s0" "frame_topology s"
    using assms by (simp_all add: owned_ok_def frame_wf_topology)
  from assms obtain i where i: "i \<in> free_frames s0" "i \<notin> free_frames s" and p: "p = frame_addr_of i"
    by (auto simp: owned_ok_def)
  note addr = free_frame_addr [OF top(1) i(1)]
  have cnt: "i < g_frame_count s" using i assms(2) by (simp add: owned_ok_def free_frames_def)
  have al: "bm_test (g_alloc_bm s) i" using i(2) cnt by (simp add: free_frames_def)
  have us: "bm_test (g_usable_bm s) i"
    using i(1) assms(1,2) by (simp add: owned_ok_def frame_wf_def free_frames_def)
  have "\<not> g_max_phys s \<le> p"
    using frame_addr_below [OF top(2), of i] cnt addr(1) by (simp add: p word_le_nat_alt)
  then have "n_frame_free p s = Done (give_frame i s)"
    using n_frame_free_cases [OF wf, of p] addr al us by (simp add: p)
  with that i p us al show ?thesis by blast
qed

lemma owned_free:
  assumes "frame_wf s0" and "owned_ok s0 s owned" and "p \<in> owned" and "n_frame_free p s = Done s'"
  shows "owned_ok s0 s' (owned - {p})"
proof -
  from owned_free_run [OF assms(1-3)] obtain i where i: "i \<in> free_frames s0" "i \<notin> free_frames s"
    and p: "p = frame_addr_of i" and run: "n_frame_free p s = Done (give_frame i s)"
    and us: "bm_test (g_usable_bm s) i" and al: "bm_test (g_alloc_bm s) i" by blast
  have wf: "frame_wf s" and top: "frame_topology s0" and cnt: "i < g_frame_count s"
    using assms(1,2) i(1) by (auto simp: owned_ok_def frame_wf_topology free_frames_def)
  have inj: "inj_on frame_addr_of (free_frames s0)"
    by (rule inj_on_subset [OF inj_on_frame_addr free_frames_small [OF top]])
  have "frame_addr_of ` (free_frames s0 - insert i (free_frames s)) = owned - {p}"
    using assms(2) i inj by (auto simp: owned_ok_def p dest: inj_onD)
  then show ?thesis
    using give_frame_free [OF wf cnt us al] run assms(2,4) i
    by (auto simp: owned_ok_def) (simp_all add: give_frame_def)
qed

lemma pmm_run_owned:
  assumes "pmm_run s0 s owned" and "frame_wf s0"
  shows "owned_ok s0 s owned"
  using assms
  by induction (auto intro: owned_start owned_alloc(1) owned_free)

lemma owned_card:
  assumes "frame_wf s0" and "owned_ok s0 s owned"
  shows "finite owned" and "card owned + g_free_count s = g_free_count s0"
proof -
  have top: "frame_topology s0" using assms by (simp add: frame_wf_def)
  have own: "owned = frame_addr_of ` (free_frames s0 - free_frames s)" and sub: "free_frames s \<subseteq> free_frames s0"
    using assms(2) by (auto simp: owned_ok_def)
  show "finite owned" by (simp add: own)
  have "inj_on frame_addr_of (free_frames s0 - free_frames s)"
    by (rule inj_on_subset [OF inj_on_frame_addr]) (use free_frames_small [OF top] in blast)
  then have "card owned = card (free_frames s0) - card (free_frames s)"
    using sub by (simp add: own card_image card_Diff_subset)
  with sub assms show "card owned + g_free_count s = g_free_count s0"
    by (simp add: owned_ok_def frame_wf_def card_mono)
qed

section \<open>Properties\<close>

text \<open>A small machine for the witnesses: four frames, of which 0 is reserved, 1 is in use and
  2 and 3 are free.\<close>

definition wit_pmm :: frame_state where
  "wit_pmm = \<lparr>g_base = 0x1000, g_cursor = 0x1000, g_end = 0x4000, g_region_forced = False,
     g_alloc_bm = [0xF3], g_usable_bm = [0x0E], g_alloc_at = 0, g_usable_at = 0,
     g_frame_count = 4, g_max_phys = 0x4000, g_free_count = 2, g_hint = 3, g_memlock = False\<rparr>"

lemma free_frames_code: "free_frames s = set (filter (\<lambda>i. \<not> bm_test (g_alloc_bm s) i) [0..<g_frame_count s])"
  by (auto simp: free_frames_def)

lemma wit_pmm_free: "free_frames wit_pmm = {2, 3}"
  unfolding free_frames_code by code_simp

lemma wit_pmm_tests: "filter (\<lambda>i. bm_test [0xF3] i \<or> bm_test [0x0E] i) [0..<4] = [0, 1, 2, 3]"
  by code_simp

lemma wit_pmm_wf: "frame_wf wit_pmm"
proof -
  have "\<forall>i \<in> set [0..<g_frame_count wit_pmm].
      \<not> bm_test (g_alloc_bm wit_pmm) i \<longrightarrow> bm_test (g_usable_bm wit_pmm) i" by code_simp
  then have "\<forall>i < g_frame_count wit_pmm.
      \<not> bm_test (g_alloc_bm wit_pmm) i \<longrightarrow> bm_test (g_usable_bm wit_pmm) i" by simp
  then show ?thesis
    by (simp add: frame_wf_def wit_pmm_free) (simp add: frame_topology_def wit_pmm_def)
qed

text \<open>C13: In a consistent state \<open>frame_alloc\<close> panics with OOM exactly when no frame is free.
  Otherwise it returns a page-aligned address inside physical memory whose frame was free and
  is marked usable, takes that frame and no other, lowers the free count by one, releases the
  lock and leaves a consistent state; the "bitmap corruption" panic is unreachable.\<close>
theorem frame_alloc_correct:
  assumes "frame_wf s"
  shows "if g_free_count s = 0 then frame_alloc s = Panic ''frame_alloc: OOM''
    else \<exists>p s'. frame_alloc s = Done (p, s') \<and> frame_wf s' \<and> 4096 dvd unat p \<and> p < g_max_phys s \<and>
      \<not> frame_is_allocated s p \<and> bm_test (g_usable_bm s) (frame_index_of p) \<and>
      (\<forall>q. frame_is_allocated s' q \<longleftrightarrow> q = p \<or> frame_is_allocated s q) \<and>
      g_free_count s' + 1 = g_free_count s \<and> \<not> g_memlock s'"
proof (cases rule: frame_alloc_wf_cases [OF assms])
  case 1
  then show ?thesis by simp
next
  case (2 i)
  have top: "frame_topology s" by (rule frame_wf_topology [OF assms])
  note addr = free_frame_addr [OF top 2(1)] and run = 2(4)
  have "frame_addr_of i < g_max_phys s"
    using 2(1) frame_addr_below [OF top, of i] addr by (simp add: free_frames_def word_less_nat_alt)
  moreover have "g_free_count (take_frame i s) + 1 = g_free_count s" "\<not> g_memlock (take_frame i s)"
    using 2(3) by (simp_all add: take_frame_def)
  moreover have "\<forall>q. frame_is_allocated (take_frame i s) q \<longleftrightarrow>
      q = frame_addr_of i \<or> frame_is_allocated s q"
    using pmm.get_taken [OF assms run] by blast
  ultimately show ?thesis
    using 2(2,3) addr(2) pmm.get_ok [OF assms run] pmm.get_fresh [OF assms run]
      pmm.get_aligned [OF assms run] by (simp add: run)
qed

theorem frame_alloc_correct_witness:
  "\<exists>p s'. frame_alloc wit_pmm = Done (p, s') \<and> \<not> frame_is_allocated wit_pmm p \<and> frame_wf s'"
proof -
  have "g_free_count wit_pmm \<noteq> 0" by (simp add: wit_pmm_def)
  with frame_alloc_correct [OF wit_pmm_wf] show ?thesis by auto
qed

text \<open>C22: \<open>n_frame_free\<close> accepts exactly an aligned, in-range, usable frame that is allocated,
  and then makes that frame free again, raises the count by one and keeps the state
  consistent with the lock released; every other argument ends in the panic for that
  mistake, a double free included.\<close>
theorem n_frame_free_correct:
  assumes "frame_wf s"
  shows "if \<not> 4096 dvd unat p then n_frame_free p s = Panic ''frame_free: unaligned paddr=0x%llx''
    else if g_max_phys s \<le> p then n_frame_free p s = Panic ''frame_free: out-of-bounds paddr=0x%llx''
    else if \<not> bm_test (g_usable_bm s) (frame_index_of p)
      then n_frame_free p s = Panic ''frame_free: non-usable paddr=0x%llx''
    else if \<not> frame_is_allocated s p
      then n_frame_free p s = Panic ''frame_free: double-free paddr=0x%llx''
    else \<exists>s'. n_frame_free p s = Done s' \<and> frame_wf s' \<and>
      free_frames s' = insert (frame_index_of p) (free_frames s) \<and> frame_index_of p \<notin> free_frames s \<and>
      g_free_count s' = g_free_count s + 1"
proof -
  have top: "frame_topology s" by (rule frame_wf_topology [OF assms])
  have al: "frame_is_allocated s p \<longleftrightarrow> bm_test (g_alloc_bm s) (frame_index_of p)"
    if "4096 dvd unat p" "\<not> g_max_phys s \<le> p"
    using that by (simp add: frame_is_allocated_def page_offset_zero)
  have cnt: "frame_index_of p < g_frame_count s" if "4096 dvd unat p" "\<not> g_max_phys s \<le> p"
    using that frame_addr_below [OF top, of "frame_index_of p"]
    by (simp add: frame_index_of_unat word_le_nat_alt)
  show ?thesis
    using n_frame_free_cases [OF assms, of p] al cnt give_frame_free [OF assms, of "frame_index_of p"]
    by (auto simp: free_frames_def give_frame_def)
qed

theorem n_frame_free_correct_witness:
  "n_frame_free 0x2000 wit_pmm = Panic ''frame_free: double-free paddr=0x%llx'' \<and>
   (\<exists>s'. n_frame_free 0x1000 wit_pmm = Done s' \<and> free_frames s' = {1, 2, 3})"
proof -
  have t: "bm_test (g_usable_bm wit_pmm) (frame_index_of 0x2000)"
    "\<not> frame_is_allocated wit_pmm 0x2000" "bm_test (g_usable_bm wit_pmm) (frame_index_of 0x1000)"
    "frame_is_allocated wit_pmm 0x1000" "\<not> g_max_phys wit_pmm \<le> 0x2000" "\<not> g_max_phys wit_pmm \<le> 0x1000"
    "frame_index_of 0x1000 = 1"
    by code_simp+
  then show ?thesis
    using n_frame_free_correct [OF wit_pmm_wf, of "0x2000"] n_frame_free_correct [OF wit_pmm_wf, of "0x1000"]
    by (auto simp: wit_pmm_free)
qed

text \<open>Freeing the frame that \<open>frame_alloc\<close> just returned succeeds and gives back the same
  set of free frames and the same count.\<close>
theorem frame_alloc_free_roundtrip:
  assumes "frame_wf s" and "frame_alloc s = Done (p, s')"
  shows "\<exists>s''. n_frame_free p s' = Done s'' \<and> frame_wf s'' \<and> free_frames s'' = free_frames s \<and>
    g_free_count s'' = g_free_count s"
proof -
  have own: "owned_ok s s' {p}"
    using owned_alloc(1) [OF assms(1) owned_start [OF assms(1)] assms(2)] by simp
  from owned_free_run [OF assms(1) own] obtain i where
    run: "n_frame_free p s' = Done (give_frame i s')" by blast
  have "owned_ok s (give_frame i s') {}" using owned_free [OF assms(1) own _ run] by simp
  then have "frame_wf (give_frame i s')" "free_frames (give_frame i s') = free_frames s"
    by (auto simp: owned_ok_def)
  with run assms(1) show ?thesis by (auto simp: frame_wf_def)
qed

theorem frame_alloc_free_roundtrip_witness:
  "\<exists>s''. n_frame_free 0x3000 (take_frame 3 wit_pmm) = Done s'' \<and> free_frames s'' = {2, 3}"
proof -
  have "frame_alloc wit_pmm = Done (0x3000, take_frame 3 wit_pmm)" by code_simp
  from frame_alloc_free_roundtrip [OF wit_pmm_wf this] show ?thesis by (auto simp: wit_pmm_free)
qed

text \<open>C23: Exactly \<open>g_free_count\<close> frames can be taken in a row: any shorter sequence of calls
  succeeds and returns pairwise distinct frames that were all free, the next call after the
  last free frame panics with OOM.\<close>
theorem frame_alloc_exhaustion:
  assumes "frame_wf s"
  shows "if n \<le> g_free_count s
    then \<exists>ps s'. take_frames frame_alloc n s = Done (ps, s') \<and> frame_wf s' \<and> length ps = n \<and>
      distinct ps \<and> (\<forall>p. p \<in> set ps \<longrightarrow> \<not> frame_is_allocated s p) \<and>
      g_free_count s' + n = g_free_count s
    else take_frames frame_alloc n s = Panic ''frame_alloc: OOM''"
proof -
  have "if n \<le> g_free_count s
    then \<exists>ps s'. take_frames frame_alloc n s = Done (ps, s') \<and> g_free_count s' + n = g_free_count s
    else take_frames frame_alloc n s = Panic ''frame_alloc: OOM''"
    using assms
  proof (induction n arbitrary: s)
    case (Suc n)
    show ?case
    proof (cases rule: frame_alloc_wf_cases [OF Suc.prems])
      case 1
      then show ?thesis by simp
    next
      case (2 i)
      have "frame_wf (take_frame i s)" by (rule take_frame_free(2) [OF Suc.prems 2(1)])
      from Suc.IH [OF this] 2(3,4) show ?thesis
        by (auto simp: take_frame_def split: if_splits)
    qed
  qed simp
  with pmm.take_frames_fresh [OF assms, of n] show ?thesis
    by (auto split: if_splits)
qed

theorem frame_alloc_exhaustion_witness:
  "(\<exists>ps s'. take_frames frame_alloc 2 wit_pmm = Done (ps, s') \<and> distinct ps \<and> g_free_count s' = 0) \<and>
   take_frames frame_alloc 3 wit_pmm = Panic ''frame_alloc: OOM''"
  using frame_alloc_exhaustion [OF wit_pmm_wf, of 2] frame_alloc_exhaustion [OF wit_pmm_wf, of 3]
  by (auto simp: wit_pmm_def)

text \<open>C11: However a client interleaves allocations and releases of its own frames, the frames it
  holds are pairwise distinct frames that were free at the start and are allocated now, a
  newly returned frame is never one it already holds, its releases never panic, and held
  frames plus free frames always add up to the initial free count.\<close>
theorem pmm_ownership:
  assumes "frame_wf s0" and "pmm_run s0 s owned"
  shows "frame_wf s \<and> finite owned \<and> card owned + g_free_count s = g_free_count s0 \<and>
    (\<forall>p \<in> owned. \<not> frame_is_allocated s0 p \<and> frame_is_allocated s p \<and> (\<exists>s'. n_frame_free p s = Done s')) \<and>
    (\<forall>p s'. frame_alloc s = Done (p, s') \<longrightarrow> p \<notin> owned)"
proof -
  have own: "owned_ok s0 s owned" by (rule pmm_run_owned [OF assms(2,1)])
  then have wf: "frame_wf s" by (simp add: owned_ok_def)
  note top = frame_wf_topology [OF assms(1)] frame_wf_topology [OF wf]
  have "\<not> frame_is_allocated s0 p \<and> frame_is_allocated s p \<and> (\<exists>s'. n_frame_free p s = Done s')"
    if p: "p \<in> owned" for p
  proof -
    from owned_free_run [OF assms(1) own p] obtain i where i: "i \<in> free_frames s0" "i \<notin> free_frames s"
      "p = frame_addr_of i" "n_frame_free p s = Done (give_frame i s)" by blast
    from i have "\<not> frame_is_allocated s0 p" by (auto simp: frame_is_allocated_iff [OF top(1)])
    moreover have "frame_is_allocated s p"
      using i free_frame_addr(2) [OF top(1) i(1)] free_frame_addr(2) [OF top(2)]
      by (simp add: frame_is_allocated_iff [OF top(2)]) metis
    ultimately show ?thesis using i(4) by blast
  qed
  moreover have "\<forall>p s'. frame_alloc s = Done (p, s') \<longrightarrow> p \<notin> owned"
    using owned_alloc(2) [OF assms(1) own] by blast
  ultimately show ?thesis using wf owned_card [OF assms(1) own] by blast
qed

theorem pmm_ownership_witness:
  "frame_wf (take_frame 3 wit_pmm) \<and> card {0x3000 :: u64} + g_free_count (take_frame 3 wit_pmm) = 2"
proof -
  have "frame_alloc wit_pmm = Done (0x3000, take_frame 3 wit_pmm)" by code_simp
  from pmm_run.alloc [OF pmm_run.start this] have "pmm_run wit_pmm (take_frame 3 wit_pmm) {0x3000}" .
  from pmm_ownership [OF wit_pmm_wf this] show ?thesis by (simp add: wit_pmm_def)
qed

end
