(* ===== verification/Frame_Init.thy ===== *)
theory Frame_Init
  imports Frame_Alloc
begin

text \<open>
  What \<open>frame_init\<close> (\<open>src/src/neo_framealloc.c\<close>) establishes: how the marking routines change the
  set of free frames, and which frames are free when the allocator is ready.
\<close>

section \<open>Initialisation\<close>

text \<open>
  What holds of the bitmaps while \<open>frame_init\<close> fills them, and what the marking routines
  leave alone.
\<close>

definition frame_pre :: "'a frame_state_scheme \<Rightarrow> bool" where
  "frame_pre s \<longleftrightarrow> frame_topology s \<and>
     (\<forall>i < g_frame_count s. \<not> bm_test (g_alloc_bm s) i \<longrightarrow> bm_test (g_usable_bm s) i) \<and>
     g_free_count s = card (free_frames s)"

definition bm_only :: "'a frame_state_scheme \<Rightarrow> 'a frame_state_scheme \<Rightarrow> bool" where
  "bm_only s s' \<longleftrightarrow> (\<exists>a u n. s' = s\<lparr>g_alloc_bm := a, g_usable_bm := u, g_free_count := n\<rparr>)"

lemma bm_only_refl [simp]: "bm_only s s"
  unfolding bm_only_def
  by (rule exI [of _ "g_alloc_bm s"], rule exI [of _ "g_usable_bm s"], rule exI [of _ "g_free_count s"]) simp

lemma bm_only_trans [trans]: "bm_only s t \<Longrightarrow> bm_only t u \<Longrightarrow> bm_only s u"
  by (auto simp: bm_only_def) blast

lemma bm_onlyI:
  "bm_only s (s\<lparr>g_alloc_bm := a, g_free_count := n\<rparr>)"
  "bm_only s (s\<lparr>g_usable_bm := u, g_alloc_bm := a, g_free_count := n\<rparr>)"
  "bm_only s (s\<lparr>g_usable_bm := u\<rparr>)"
proof -
  show "bm_only s (s\<lparr>g_alloc_bm := a, g_free_count := n\<rparr>)" unfolding bm_only_def
    by (rule exI [of _ a], rule exI [of _ "g_usable_bm s"], rule exI [of _ n]) simp
  show "bm_only s (s\<lparr>g_usable_bm := u, g_alloc_bm := a, g_free_count := n\<rparr>)"
    unfolding bm_only_def by (rule exI [of _ a], rule exI [of _ u], rule exI [of _ n]) simp
  show "bm_only s (s\<lparr>g_usable_bm := u\<rparr>)" unfolding bm_only_def
    by (rule exI [of _ "g_alloc_bm s"], rule exI [of _ u], rule exI [of _ "g_free_count s"]) simp
qed

lemma bm_only_fields:
  assumes "bm_only s s'"
  shows "g_frame_count s' = g_frame_count s" "g_max_phys s' = g_max_phys s"
    "g_hint s' = g_hint s" "g_memlock s' = g_memlock s" "g_alloc_at s' = g_alloc_at s"
    "g_usable_at s' = g_usable_at s" "g_base s' = g_base s" "g_cursor s' = g_cursor s"
    "g_end s' = g_end s" "g_region_forced s' = g_region_forced s"
  using assms by (auto simp: bm_only_def)

text \<open>A marking step: it keeps \<open>frame_pre\<close> and maps the set of free frames by \<open>F\<close>.\<close>

definition marks :: "(nat set \<Rightarrow> nat set) \<Rightarrow> 'a frame_state_scheme \<Rightarrow> 'a frame_state_scheme \<Rightarrow> bool" where
  "marks F s s' \<longleftrightarrow> bm_only s s' \<and> (frame_pre s \<longrightarrow> frame_pre s' \<and> free_frames s' = F (free_frames s))"

lemma marks_id: "F (free_frames s) = free_frames s \<Longrightarrow> marks F s s"
  by (simp add: marks_def)

lemma marks_trans: "marks F s t \<Longrightarrow> marks G t u \<Longrightarrow> marks (G \<circ> F) s u"
  by (auto simp: marks_def intro: bm_only_trans)

lemma mark_frame_allocated_marks:
  assumes "i < g_frame_count s"
  shows "marks (\<lambda>F. F - {i}) s (mark_frame_allocated i s)"
proof (cases "bm_test (g_alloc_bm s) i")
  case True
  then show ?thesis
    by (auto simp: mark_frame_allocated_def free_frames_def intro!: marks_id)
next
  case False
  have "frame_pre (mark_frame_allocated i s) \<and>
      free_frames (mark_frame_allocated i s) = free_frames s - {i}" if pre: "frame_pre s"
  proof -
    from pre assms have "i div 8 < length (g_alloc_bm s)"
      by (auto simp: frame_pre_def intro: frame_topology_index)
    note test = bm_test_set [OF this]
    have free: "free_frames (mark_frame_allocated i s) = free_frames s - {i}"
      using False by (auto simp: free_frames_def mark_frame_allocated_def test)
    have "i \<in> free_frames s" using False assms by (simp add: free_frames_def)
    then have "card (free_frames s - {i}) = g_free_count s - 1"
      using pre by (simp add: frame_pre_def)
    moreover have "g_free_count (mark_frame_allocated i s) = g_free_count s - 1"
      using False by (simp add: mark_frame_allocated_def)
    moreover have "frame_topology (mark_frame_allocated i s)"
      using pre by (simp add: frame_pre_def frame_topology_def mark_frame_allocated_def)
    ultimately show ?thesis
      using pre free False by (simp add: frame_pre_def) (simp add: mark_frame_allocated_def test)
  qed
  moreover have "bm_only s (mark_frame_allocated i s)"
    using False by (simp add: mark_frame_allocated_def bm_onlyI)
  ultimately show ?thesis by (simp add: marks_def)
qed

lemma mark_frame_usable_marks:
  assumes "i < g_frame_count s"
  shows "marks (insert i) s (mark_frame_usable_and_free i s)"
proof -
  define u where "u = (if bm_test (g_usable_bm s) i then g_usable_bm s else bm_set (g_usable_bm s) i)"
  have alt: "mark_frame_usable_and_free i s =
      (if bm_test (g_alloc_bm s) i
       then s\<lparr>g_usable_bm := u, g_alloc_bm := bm_clear (g_alloc_bm s) i, g_free_count := g_free_count s + 1\<rparr>
       else s\<lparr>g_usable_bm := u\<rparr>)"
    by (simp add: mark_frame_usable_and_free_def u_def)
  have "frame_pre (mark_frame_usable_and_free i s) \<and>
      free_frames (mark_frame_usable_and_free i s) = insert i (free_frames s)" if pre: "frame_pre s"
  proof -
    from pre assms have len: "i div 8 < length (g_alloc_bm s)" "i div 8 < length (g_usable_bm s)"
      by (auto simp: frame_pre_def intro: frame_topology_index)
    note clear = bm_test_clear [OF len(1)]
    have u: "bm_test u j \<longleftrightarrow> j = i \<or> bm_test (g_usable_bm s) j" for j
      using bm_test_set [OF len(2)] by (auto simp: u_def)
    have free: "free_frames (mark_frame_usable_and_free i s) = insert i (free_frames s)"
      using assms by (auto simp: free_frames_def alt clear)
    have "card (insert i (free_frames s)) =
        (if bm_test (g_alloc_bm s) i then g_free_count s + 1 else g_free_count s)"
      using pre assms by (auto simp: frame_pre_def card_insert_if) (auto simp: free_frames_def)
    then show ?thesis
      using pre free by (auto simp: frame_pre_def frame_topology_def alt u clear)
        (simp_all add: u_def)
  qed
  moreover have "bm_only s (mark_frame_usable_and_free i s)"
    by (simp add: alt bm_onlyI)
  ultimately show ?thesis by (simp add: marks_def)
qed

lemma marks_cong: "marks F s s' \<Longrightarrow> F (free_frames s) = G (free_frames s) \<Longrightarrow> marks G s s'"
  by (simp add: marks_def)

lemma marks_count: "marks F s s' \<Longrightarrow> g_frame_count s' = g_frame_count s"
  by (auto simp: marks_def dest: bm_only_fields)

lemma fold_mark_allocated:
  assumes "\<forall>i \<in> set xs. i < g_frame_count s"
  shows "marks (\<lambda>F. F - set xs) s (fold mark_frame_allocated xs s)"
  using assms
proof (induction xs arbitrary: s)
  case (Cons i xs)
  have "marks (\<lambda>F. F - {i}) s (mark_frame_allocated i s)"
    using Cons.prems by (intro mark_frame_allocated_marks) simp
  moreover from marks_count [OF this] Cons
  have "marks (\<lambda>F. F - set xs) (mark_frame_allocated i s)
      (fold mark_frame_allocated xs (mark_frame_allocated i s))" by simp
  ultimately show ?case by (auto intro: marks_cong dest: marks_trans)
qed (simp add: marks_id)

lemma fold_mark_usable:
  assumes "\<forall>i \<in> set xs. i < g_frame_count s"
  shows "marks (\<lambda>F. F \<union> set xs) s (fold mark_frame_usable_and_free xs s)"
  using assms
proof (induction xs arbitrary: s)
  case (Cons i xs)
  have "marks (insert i) s (mark_frame_usable_and_free i s)"
    using Cons.prems by (intro mark_frame_usable_marks) simp
  moreover from marks_count [OF this] Cons
  have "marks (\<lambda>F. F \<union> set xs) (mark_frame_usable_and_free i s)
      (fold mark_frame_usable_and_free xs (mark_frame_usable_and_free i s))" by simp
  ultimately show ?case by (auto intro: marks_cong dest: marks_trans)
qed (simp add: marks_id)

text \<open>The frames that share a byte with a range, and those that lie inside it.\<close>

definition frames_touching :: "u64 \<Rightarrow> u64 \<Rightarrow> nat set" where
  "frames_touching base fin = {i. base < fin \<and> unat base < i * 4096 + 4096 \<and> i * 4096 < unat fin}"

definition frames_within :: "u64 \<Rightarrow> u64 \<Rightarrow> nat set" where
  "frames_within base fin = {i. unat base \<le> i * 4096 \<and> i * 4096 + 4096 \<le> unat fin}"

lemma div_4096_le_iff: "(a::nat) div 4096 \<le> i \<longleftrightarrow> a < i * 4096 + 4096"
  using div_less_iff_less_mult [of 4096 a "i + 1"] by (simp add: less_Suc_eq_le add.commute)

lemma less_div_up_4096_iff: "i < ((a::nat) + 4095) div 4096 \<longleftrightarrow> i * 4096 < a"
  using less_eq_div_iff_mult_less_eq [of 4096 "i + 1" "a + 4095"] by (simp add: Suc_le_eq)

lemma less_div_4096_iff: "i < (a::nat) div 4096 \<longleftrightarrow> i * 4096 + 4096 \<le> a"
  using less_eq_div_iff_mult_less_eq [of 4096 "i + 1" a] by (simp add: Suc_le_eq add.commute)

lemma div_up_4096_le_iff: "((a::nat) + 4095) div 4096 \<le> i \<longleftrightarrow> a \<le> i * 4096"
  using less_div_up_4096_iff [of i a] by (simp add: not_less [symmetric])

lemma index_ALIGN_DOWN: "frame_index_of (ALIGN_DOWN a PAGE_SIZE) = unat a div 4096"
  by (simp add: frame_index_of_unat PAGE_SIZE_def unat_ALIGN_DOWN_4096)

lemma index_ALIGN_UP:
  "unat a + 4095 < 2 ^ 64 \<Longrightarrow> frame_index_of (ALIGN_UP a PAGE_SIZE) = (unat a + 4095) div 4096"
  by (simp add: frame_index_of_unat PAGE_SIZE_def unat_ALIGN_UP_4096)

lemma mark_range_allocated_marks:
  assumes "unat fin + 4095 < 2 ^ 64"
  shows "marks (\<lambda>F. F - frames_touching base fin) s (mark_range_allocated base fin s)"
proof (cases "fin \<le> base")
  case True
  then show ?thesis by (auto simp: mark_range_allocated_def frames_touching_def intro!: marks_id)
next
  case False
  define xs where "xs = [unat base div 4096..<min (g_frame_count s) ((unat fin + 4095) div 4096)]"
  from False have eq: "mark_range_allocated base fin s = fold mark_frame_allocated xs s"
    by (auto simp: mark_range_allocated_def index_ALIGN_DOWN index_ALIGN_UP [OF assms] xs_def
        Let_def min_def)
  have "i \<in> set xs \<longleftrightarrow> i < g_frame_count s \<and> i \<in> frames_touching base fin" for i
    using False by (auto simp: xs_def frames_touching_def div_4096_le_iff less_div_up_4096_iff)
  then have "free_frames s - set xs = free_frames s - frames_touching base fin"
    and "\<forall>i \<in> set xs. i < g_frame_count s"
    by (auto simp: free_frames_def)
  then show ?thesis unfolding eq
    by (intro marks_cong [OF fold_mark_allocated])
qed

lemma mark_range_usable_marks:
  assumes "unat base + 4095 < 2 ^ 64" and "unat fin \<le> unat (g_max_phys s)" and "frame_topology s"
  shows "marks (\<lambda>F. F \<union> frames_within base fin) s (mark_range_usable_and_free base fin s)"
proof -
  define i0 i1 where "i0 = (unat base + 4095) div 4096" and "i1 = unat fin div 4096"
  have in_iff: "i \<in> frames_within base fin \<longleftrightarrow> i0 \<le> i \<and> i < i1" for i
    unfolding frames_within_def i0_def i1_def less_div_4096_iff div_up_4096_le_iff by simp
  show ?thesis
  proof (cases "fin \<le> base \<or> i1 \<le> i0")
    case True
    then have "frames_within base fin = {}"
    proof
      assume "fin \<le> base"
      then have "\<not> (unat base \<le> i * 4096 \<and> i * 4096 + 4096 \<le> unat fin)" for i
        unfolding word_le_nat_alt by linarith
      then show ?thesis by (simp add: frames_within_def)
    next
      assume "i1 \<le> i0"
      then show ?thesis by (simp add: set_eq_iff in_iff)
    qed
    moreover from True have "mark_range_usable_and_free base fin s = s"
      by (auto simp: mark_range_usable_and_free_def index_ALIGN_DOWN index_ALIGN_UP [OF assms(1)]
          i0_def i1_def)
    ultimately show ?thesis by (simp add: marks_id)
  next
    case False
    have "i1 \<le> g_frame_count s"
      using assms(2,3) by (auto simp: i1_def frame_topology_def intro!: div_le_mono)
    with False have eq: "mark_range_usable_and_free base fin s =
        fold mark_frame_usable_and_free [i0..<i1] s"
      by (auto simp: mark_range_usable_and_free_def index_ALIGN_DOWN index_ALIGN_UP [OF assms(1)]
          i0_def i1_def)
    have "set [i0..<i1] = frames_within base fin"
      by (simp add: set_eq_iff in_iff)
    with \<open>i1 \<le> g_frame_count s\<close> fold_mark_usable [of "[i0..<i1]" s] show ?thesis
      by (simp add: eq)
  qed
qed

definition usable_frames :: "memmap_entry list \<Rightarrow> nat set" where
  "usable_frames es = {i. \<exists>e \<in> set es. me_type e = LIMINE_MEMMAP_USABLE \<and>
     i \<in> frames_within (me_base e) (me_base e + me_length e)}"

lemma usable_frames_simps [simp]:
  "usable_frames [] = {}"
  "usable_frames (e # es) =
     (if me_type e = LIMINE_MEMMAP_USABLE
      then frames_within (me_base e) (me_base e + me_length e) \<union> usable_frames es
      else usable_frames es)"
  by (auto simp: usable_frames_def)

lemma fold_mark_entries:
  assumes "memmap_bounded es" and "frame_pre s"
    and "\<forall>e \<in> set es. unat (me_base e + me_length e) \<le> unat (g_max_phys s)"
  shows "marks (\<lambda>F. F \<union> usable_frames es) s (fold mark_usable_entry es s)"
  using assms
proof (induction es arbitrary: s)
  case (Cons e es)
  have bnd: "unat (me_base e) + 4095 < 2 ^ 64" "memmap_bounded es"
    using Cons.prems(1) by (auto simp: memmap_bounded_def)
  define G where "G F = (if me_type e = LIMINE_MEMMAP_USABLE
      then F \<union> frames_within (me_base e) (me_base e + me_length e) else F)" for F
  have e: "marks G s (mark_usable_entry e s)"
    using Cons.prems mark_range_usable_marks [OF bnd(1), of "me_base e + me_length e" s]
    by (auto simp: mark_usable_entry_def G_def frame_pre_def intro: marks_id marks_cong)
  with Cons.prems have "frame_pre (mark_usable_entry e s)"
    "g_max_phys (mark_usable_entry e s) = g_max_phys s"
    by (auto simp: marks_def bm_only_fields)
  with Cons bnd have "marks (\<lambda>F. F \<union> usable_frames es) (mark_usable_entry e s)
      (fold mark_usable_entry es (mark_usable_entry e s))" by simp
  from marks_trans [OF e this]
  have "marks (\<lambda>F. F \<union> usable_frames (e # es)) s (fold mark_usable_entry es (mark_usable_entry e s))"
    by (rule marks_cong) (auto simp: G_def)
  then show ?case by (simp del: usable_frames_simps)
qed (simp add: marks_id)

definition file_bounded :: "limine_file \<Rightarrow> bool" where
  "file_bounded f \<longleftrightarrow> unat (lf_address f + lf_size f) + 4095 < 2 ^ 64"

definition module_frames :: "limine_file list \<Rightarrow> nat set" where
  "module_frames ms = {i. \<exists>f \<in> set ms. i \<in> frames_touching (lf_address f) (lf_address f + lf_size f)}"

lemma fold_mark_modules:
  assumes "\<forall>f \<in> set ms. file_bounded f"
  shows "marks (\<lambda>F. F - module_frames ms) s (fold mark_module ms s)"
  using assms
proof (induction ms arbitrary: s)
  case Nil
  show ?case by (simp add: marks_id module_frames_def)
next
  case (Cons f ms)
  have "marks (\<lambda>F. F - frames_touching (lf_address f) (lf_address f + lf_size f)) s (mark_module f s)"
    using Cons.prems by (simp add: mark_module_def mark_range_allocated_marks file_bounded_def)
  moreover have "marks (\<lambda>F. F - module_frames ms) (mark_module f s) (fold mark_module ms (mark_module f s))"
    using Cons by simp
  ultimately have "marks ((\<lambda>F. F - module_frames ms) \<circ>
      (\<lambda>F. F - frames_touching (lf_address f) (lf_address f + lf_size f))) s
      (fold mark_module ms (mark_module f s))" by (rule marks_trans)
  then have "marks (\<lambda>F. F - module_frames (f # ms)) s (fold mark_module ms (mark_module f s))"
    by (rule marks_cong) (auto simp: module_frames_def)
  then show ?case by simp
qed

definition early_frames :: "'a early_state_scheme \<Rightarrow> nat set" where
  "early_frames s = {i. unat (g_base s) \<le> i * 4096 \<and> i * 4096 < unat (g_cursor s)}"

lemma early_region_end:
  assumes "early_wf s"
  shows "(g_cursor s - g_base s) div PAGE_SIZE * PAGE_SIZE = g_cursor s - g_base s"
proof -
  have "unat (g_cursor s - g_base s) = unat (g_cursor s) - unat (g_base s)"
    using assms by (simp add: early_wf_def unat_sub_if' word_le_nat_alt)
  moreover have "4096 dvd unat (g_cursor s) - unat (g_base s)"
    using assms by (simp add: early_wf_def dvd_diff_nat)
  ultimately have dvd: "4096 dvd unat (g_cursor s - g_base s)" by simp
  have "unat ((g_cursor s - g_base s) div PAGE_SIZE * PAGE_SIZE) =
      unat (g_cursor s - g_base s) div 4096 * 4096 mod 2 ^ 64"
    by (simp add: PAGE_SIZE_def unat_word_ariths unat_div mod_mult_left_eq)
  also have "\<dots> = unat (g_cursor s - g_base s)" using dvd by simp
  finally show ?thesis by (simp only: word_unat_eq_iff)
qed

lemma touching_aligned:
  assumes "4096 dvd unat a" and "4096 dvd unat b" and "a < b"
  shows "frames_touching a b = {i. unat a \<le> i * 4096 \<and> i * 4096 < unat b}"
proof -
  from assms(1) obtain k where k: "unat a = 4096 * k" by (elim dvdE)
  show ?thesis
    using assms(3) by (auto simp: frames_touching_def k)
qed

lemma mark_early_marks:
  assumes "early_wf s"
  shows "marks (\<lambda>F. F - early_frames s) s (mark_early s)"
proof (cases "g_cursor s = g_base s")
  case True
  then have "early_frames s = {}" by (auto simp: early_frames_def)
  with True show ?thesis by (simp add: mark_early_def early_reserved_region_def marks_id)
next
  case False
  with assms have less: "g_base s < g_cursor s" by (auto simp: early_wf_def)
  have end_eq: "g_base s + snd (early_reserved_region s) * PAGE_SIZE = g_cursor s"
    using early_region_end [OF assms] by (simp add: early_reserved_region_def)
  have "snd (early_reserved_region s) \<noteq> 0"
    using end_eq False by auto
  then have "mark_early s = mark_range_allocated (g_base s) (g_cursor s) s"
    using end_eq by (simp add: mark_early_def) (simp add: early_reserved_region_def)
  moreover have "frames_touching (g_base s) (g_cursor s) = early_frames s"
    using assms less touching_aligned [of "g_base s" "g_cursor s"]
    by (simp add: early_wf_def early_frames_def)
  moreover have "unat (g_cursor s) + 4095 < 2 ^ 64"
    using assms by (simp add: early_wf_def word_le_nat_alt)
  ultimately show ?thesis using mark_range_allocated_marks by metis
qed

lemma for_early_pages:
  "for_outcome xs (\<lambda>_ t. bind_outcome (early_alloc_page t) (\<lambda>(_, t'). Done t')) s =
    bind_outcome (take_frames early_alloc_page (length xs) s) (\<lambda>(_, s'). Done s')"
proof (induction xs arbitrary: s)
  case (Cons x xs)
  show ?case
  proof (cases "early_alloc_page s")
    case (Done r)
    obtain p s1 where "r = (p, s1)" by (cases r)
    with Done Cons show ?thesis
      by (cases "take_frames early_alloc_page (length xs) s1") (auto split: prod.splits)
  qed simp_all
qed simp

lemma alloc_bitmap_pages_eq:
  assumes "early_wf s" and "1 \<le> n"
  shows "alloc_bitmap_pages n s =
    (if unat (g_cursor s) + n * 4096 \<le> unat (g_end s)
     then Done (g_cursor s, s\<lparr>g_cursor := g_cursor s + of_nat n * PAGE_SIZE\<rparr>)
     else Panic ''early_alloc_page: out of early pages (used=%zu pages)'')"
proof -
  obtain m where n: "n = Suc m" using assms(2) by (cases n) auto
  have "alloc_bitmap_pages n s =
      bind_outcome (take_frames early_alloc_page n s) (\<lambda>(ps, s'). Done (hd ps, s'))"
  proof (cases "early_alloc_page s")
    case (Done r)
    obtain p s1 where "r = (p, s1)" by (cases r)
    with Done show ?thesis
      by (cases "take_frames early_alloc_page m s1")
         (auto simp: alloc_bitmap_pages_def for_early_pages n simp del: upt_Suc split: prod.splits)
  qed (simp_all add: alloc_bitmap_pages_def n)
  also have "\<dots> = (if unat (g_cursor s) + n * 4096 \<le> unat (g_end s)
     then Done (g_cursor s, s\<lparr>g_cursor := g_cursor s + of_nat n * PAGE_SIZE\<rparr>)
     else Panic ''early_alloc_page: out of early pages (used=%zu pages)'')"
    using assms(2) by (simp add: take_early_pages [OF assms(1)] hd_map)
  finally show ?thesis .
qed

lemma early_wf_advance:
  assumes "early_wf s" and "unat (g_cursor s) + n * 4096 \<le> unat (g_end s)"
  shows "unat (g_cursor s + of_nat n * PAGE_SIZE) = unat (g_cursor s) + n * 4096"
    and "early_wf (s\<lparr>g_cursor := g_cursor s + of_nat n * PAGE_SIZE\<rparr>)"
proof -
  have "n * 4096 \<le> 2 ^ 52" using assms by (simp add: early_wf_def)
  then have len: "unat (of_nat n * PAGE_SIZE) = n * 4096"
    by (simp add: PAGE_SIZE_def unat_word_ariths unat_of_nat)
  show un: "unat (g_cursor s + of_nat n * PAGE_SIZE) = unat (g_cursor s) + n * 4096"
    using assms len by (simp add: early_wf_def unat_word_ariths)
  show "early_wf (s\<lparr>g_cursor := g_cursor s + of_nat n * PAGE_SIZE\<rparr>)"
    using assms un by (simp add: early_wf_def word_le_nat_alt)
qed

lemma fold_max_bound:
  fixes f :: "'e \<Rightarrow> u64"
  shows "m \<le> fold (\<lambda>e m. if f e > m then f e else m) es m \<and>
    (\<forall>e \<in> set es. f e \<le> fold (\<lambda>e m. if f e > m then f e else m) es m) \<and>
    fold (\<lambda>e m. if f e > m then f e else m) es m \<in> insert m (f ` set es)"
proof (induction es arbitrary: m)
  case (Cons e es)
  from Cons [of "if f e > m then f e else m"] show ?case
    by (auto split: if_splits)
qed simp

lemma get_max_phys_bound:
  assumes "memmap bi = Some es" and "memmap_bounded es" and "\<exists>e \<in> set es. 0 < me_length e"
  shows "\<forall>e \<in> set es. unat (me_base e + me_length e) \<le> unat (get_max_phys bi)"
    and "unat (get_max_phys bi) \<le> 2 ^ 52" and "0 < get_max_phys bi"
proof -
  note fold = fold_max_bound [of 0 me_end es]
  have le: "unat (me_base e + me_length e) \<le> 2 ^ 52" if "e \<in> set es" for e
    using that assms(2) unat_plus_simple by (fastforce simp: memmap_bounded_def unat_word_ariths)
  show all: "\<forall>e \<in> set es. unat (me_base e + me_length e) \<le> unat (get_max_phys bi)"
    using fold assms(1) by (simp add: get_max_phys_def me_end_def word_le_nat_alt)
  show "unat (get_max_phys bi) \<le> 2 ^ 52"
    using fold assms(1) le by (auto simp: get_max_phys_def me_end_def)
  from assms(3) obtain e where e: "e \<in> set es" "0 < me_length e" by blast
  have "unat (me_base e + me_length e) = unat (me_base e) + unat (me_length e)"
    using e(1) assms(2) by (auto simp: memmap_bounded_def unat_word_ariths)
  with e all show "0 < get_max_phys bi" by (fastforce simp: word_less_nat_alt)
qed

lemma compute_topology:
  assumes "memmap bi = Some es" and "memmap_bounded es" and "\<exists>e \<in> set es. 0 < me_length e"
  shows "compute_max_phys_and_count bi s =
    Done (s\<lparr>g_max_phys := get_max_phys bi,
      g_frame_count := (unat (get_max_phys bi) + 4095) div 4096\<rparr>)"
proof -
  note bound = get_max_phys_bound [OF assms]
  have "unat (get_max_phys bi) + 4095 < 2 ^ 64" using bound(2) by simp
  from index_ALIGN_UP [OF this]
  have count: "unat (ALIGN_UP (get_max_phys bi) PAGE_SIZE div PAGE_SIZE) =
      (unat (get_max_phys bi) + 4095) div 4096" by (simp add: frame_index_of_def)
  have pos: "0 < (unat (get_max_phys bi) + 4095) div 4096"
    using bound(3) unfolding less_div_up_4096_iff by (simp add: word_less_nat_alt)
  have "es \<noteq> []" using assms(3) by auto
  moreover have "fold (\<lambda>e m. if me_base e + me_length e > m then me_base e + me_length e else m) es 0 =
      get_max_phys bi"
    unfolding get_max_phys_def me_end_def assms(1) by simp
  ultimately show ?thesis
    using assms(1) count pos by (simp add: compute_max_phys_and_count_def Let_def)
qed

definition bitmap_bytes :: "boot_info \<Rightarrow> nat" where
  "bitmap_bytes bi = ((unat (get_max_phys bi) + 4095) div 4096 + 7) div 8"

definition bitmap_pages :: "boot_info \<Rightarrow> nat" where
  "bitmap_pages bi = (bitmap_bytes bi + 4095) div 4096"

definition kernel_frames :: "boot_info \<Rightarrow> nat set" where
  "kernel_frames bi =
     (case kernel_address bi of None \<Rightarrow> {}
      | Some (kp, kv) \<Rightarrow> frames_touching (kp + (kernel_start bi - kv)) (kp + (kernel_end bi - kv)))"

text \<open>
  A boot the allocator can be set up for: every response is there, the memory map has a
  non-empty entry, and the kernel image and the modules do not reach the end of the address
  space.
\<close>

definition boot_ok :: "boot_info \<Rightarrow> bool" where
  "boot_ok bi \<longleftrightarrow>
     (case memmap bi of None \<Rightarrow> False
      | Some es \<Rightarrow> memmap_bounded es \<and> (\<exists>e \<in> set es. 0 < me_length e)) \<and>
     hhdm_offset bi \<noteq> None \<and>
     (case kernel_address bi of None \<Rightarrow> False
      | Some (kp, kv) \<Rightarrow> unat (kp + (kernel_end bi - kv)) + 4095 < 2 ^ 64) \<and>
     (case modules bi of None \<Rightarrow> True | Some ms \<Rightarrow> \<forall>f \<in> set ms. file_bounded f)"

definition boot_module_frames :: "boot_info \<Rightarrow> nat set" where
  "boot_module_frames bi = (case modules bi of None \<Rightarrow> {} | Some ms \<Rightarrow> module_frames ms)"

lemma bitmap_pages_code:
  assumes "unat (get_max_phys bi) \<le> 2 ^ 52"
  shows "unat (ALIGN_UP (of_nat (bitmap_bytes bi)) PAGE_SIZE div PAGE_SIZE) = bitmap_pages bi"
proof -
  have "(unat (get_max_phys bi) + 4095) div 4096 \<le> 2 ^ 41"
    using assms div_le_mono [of "unat (get_max_phys bi) + 4095" "2 ^ 52 + 4095" 4096] by simp
  then have small: "bitmap_bytes bi \<le> 2 ^ 41" by (simp add: bitmap_bytes_def)
  then have un: "unat (of_nat (bitmap_bytes bi) :: u64) = bitmap_bytes bi"
    by (simp add: unat_of_nat)
  with small index_ALIGN_UP [of "of_nat (bitmap_bytes bi)"] show ?thesis
    by (simp add: bitmap_pages_def frame_index_of_def)
qed

lemma bitmap_pages_pos:
  assumes "0 < get_max_phys bi" shows "1 \<le> bitmap_pages bi"
proof -
  have "0 < (unat (get_max_phys bi) + 4095) div 4096"
    using assms unfolding less_div_up_4096_iff by (simp add: word_less_nat_alt)
  then have "0 < bitmap_bytes bi" by (simp add: bitmap_bytes_def)
  then show ?thesis using less_div_up_4096_iff [of 0 "bitmap_bytes bi"]
    by (simp add: bitmap_pages_def)
qed

text \<open>The state in which the marking starts.\<close>

definition blank_bitmaps :: "boot_info \<Rightarrow> u64 \<Rightarrow> 'a frame_state_scheme \<Rightarrow> 'a frame_state_scheme" where
  "blank_bitmaps bi hh s =
     s\<lparr>g_max_phys := get_max_phys bi, g_frame_count := (unat (get_max_phys bi) + 4095) div 4096,
       g_cursor := g_cursor s + of_nat (2 * bitmap_pages bi) * PAGE_SIZE,
       g_alloc_at := g_cursor s + hh,
       g_usable_at := g_cursor s + of_nat (bitmap_pages bi) * PAGE_SIZE + hh,
       g_alloc_bm := replicate (bitmap_bytes bi) 0xFF, g_usable_bm := replicate (bitmap_bytes bi) 0,
       g_free_count := 0\<rparr>"

definition mark_all :: "boot_info \<Rightarrow> 'a frame_state_scheme \<Rightarrow> 'a frame_state_scheme" where
  "mark_all bi s =
     mark_early
       (case modules bi of
          None \<Rightarrow> mark_kernel bi (the (kernel_address bi)) (fold mark_usable_entry (the (memmap bi)) s)
        | Some ms \<Rightarrow> fold mark_module ms
            (mark_kernel bi (the (kernel_address bi)) (fold mark_usable_entry (the (memmap bi)) s)))"

lemma frame_init_run:
  assumes ok: "boot_ok bi" and hh: "hhdm_offset bi = Some hh" and wf: "early_wf s"
    and room: "unat (g_cursor s) + 2 * bitmap_pages bi * 4096 \<le> unat (g_end s)"
  shows "frame_init bi s = Done ((mark_all bi (blank_bitmaps bi hh s))\<lparr>g_hint := 0\<rparr>)"
proof -
  from ok obtain es ka where es: "memmap bi = Some es" "memmap_bounded es"
    "\<exists>e \<in> set es. 0 < me_length e" and ka: "kernel_address bi = Some ka"
    by (auto simp: boot_ok_def split: option.splits)
  note bound = get_max_phys_bound [OF es]
  note pos = bitmap_pages_pos [OF bound(3)]
  define s1 where "s1 = s\<lparr>g_max_phys := get_max_phys bi,
      g_frame_count := (unat (get_max_phys bi) + 4095) div 4096\<rparr>"
  define s2 where "s2 = s1\<lparr>g_cursor := g_cursor s + of_nat (bitmap_pages bi) * PAGE_SIZE\<rparr>"
  have wf1: "early_wf s1" using wf by (simp add: early_wf_def s1_def)
  have r1: "unat (g_cursor s1) + bitmap_pages bi * 4096 \<le> unat (g_end s1)"
    using room by (simp add: s1_def)
  note adv = early_wf_advance [OF wf1 r1]
  have cur2: "unat (g_cursor s2) = unat (g_cursor s) + bitmap_pages bi * 4096"
    and wf2: "early_wf (s2\<lparr>g_alloc_at := g_cursor s + hh\<rparr>)"
    using adv by (simp_all add: s2_def s1_def early_wf_def)
  have r2: "unat (g_cursor (s2\<lparr>g_alloc_at := g_cursor s + hh\<rparr>)) + bitmap_pages bi * 4096 \<le>
      unat (g_end (s2\<lparr>g_alloc_at := g_cursor s + hh\<rparr>))"
    using room cur2 by (simp add: s2_def s1_def)
  have a1: "alloc_bitmap_pages (bitmap_pages bi) s1 = Done (g_cursor s, s2)"
    using alloc_bitmap_pages_eq [OF wf1 pos] r1 by (simp add: s2_def s1_def)
  have a2: "alloc_bitmap_pages (bitmap_pages bi) (s2\<lparr>g_alloc_at := g_cursor s + hh\<rparr>) =
      Done (g_cursor s2, s2\<lparr>g_alloc_at := g_cursor s + hh,
        g_cursor := g_cursor s2 + of_nat (bitmap_pages bi) * PAGE_SIZE\<rparr>)"
    using alloc_bitmap_pages_eq [OF wf2 pos] r2 by simp
  have blank: "s2\<lparr>g_alloc_at := g_cursor s + hh,
        g_cursor := g_cursor s2 + of_nat (bitmap_pages bi) * PAGE_SIZE,
        g_usable_at := g_cursor s2 + hh, g_alloc_bm := replicate (bitmap_bytes bi) 0xFF,
        g_usable_bm := replicate (bitmap_bytes bi) 0, g_free_count := 0\<rparr> = blank_bitmaps bi hh s"
    by (simp add: s2_def s1_def blank_bitmaps_def algebra_simps)
  have count: "(g_frame_count s1 + 7) div 8 = bitmap_bytes bi"
    by (simp add: s1_def bitmap_bytes_def)
  show ?thesis
    using a1 a2 blank ka es(1) hh bitmap_pages_code [OF bound(2)]
    by (simp add: frame_init_def compute_topology [OF es] s1_def [symmetric] count Let_def
        mark_all_def split: option.split)
qed

lemma blank_bitmaps_pre:
  assumes "unat (get_max_phys bi) \<le> 2 ^ 52"
  shows "frame_pre (blank_bitmaps bi hh s)" and "free_frames (blank_bitmaps bi hh s) = {}"
proof -
  let ?s = "blank_bitmaps bi hh s"
  have full: "bm_test (g_alloc_bm ?s) i" if "i < g_frame_count ?s" for i
    using that by (auto simp: blank_bitmaps_def bitmap_bytes_def intro!: bm_test_replicate_FF)
  then show free: "free_frames ?s = {}" by (auto simp: free_frames_def)
  have "frame_topology ?s"
    using assms by (simp add: frame_topology_def blank_bitmaps_def bitmap_bytes_def)
  moreover have "g_free_count ?s = 0" by (simp add: blank_bitmaps_def)
  ultimately show "frame_pre ?s" using full free by (simp add: frame_pre_def)
qed

lemma mark_all_marks:
  assumes ok: "boot_ok bi" and es: "memmap bi = Some es" and pre: "frame_pre s"
    and max: "g_max_phys s = get_max_phys bi" and wf: "early_wf s"
  shows "marks (\<lambda>F. F \<union> usable_frames es - kernel_frames bi - boot_module_frames bi - early_frames s)
    s (mark_all bi s)"
proof -
  from ok es obtain kp kv where bnd: "memmap_bounded es" "\<exists>e \<in> set es. 0 < me_length e"
    and ka: "kernel_address bi = Some (kp, kv)"
    and kend: "unat (kp + (kernel_end bi - kv)) + 4095 < 2 ^ 64"
    by (auto simp: boot_ok_def split: option.splits)
  define s1 where "s1 = fold mark_usable_entry es s"
  define s2 where "s2 = mark_kernel bi (kp, kv) s1"
  define s3 where "s3 = (case modules bi of None \<Rightarrow> s2 | Some ms \<Rightarrow> fold mark_module ms s2)"
  have all: "mark_all bi s = mark_early s3"
    by (simp add: mark_all_def s3_def s2_def s1_def es ka split: option.split)
  have m1: "marks (\<lambda>F. F \<union> usable_frames es) s s1"
    unfolding s1_def
    using fold_mark_entries [OF bnd(1) pre] get_max_phys_bound(1) [OF es bnd] max by simp
  have m2: "marks (\<lambda>F. F - kernel_frames bi) s1 s2"
    unfolding s2_def mark_kernel_def
    using mark_range_allocated_marks [OF kend] by (simp add: kernel_frames_def ka)
  have m3: "marks (\<lambda>F. F - boot_module_frames bi) s2 s3"
    using ok fold_mark_modules
    by (auto simp: s3_def boot_module_frames_def boot_ok_def marks_id split: option.splits)
  from marks_trans [OF marks_trans [OF m1 m2] m3] have "bm_only s s3" by (simp add: marks_def)
  then have "early_wf s3" "early_frames s3 = early_frames s"
    using wf by (simp_all add: early_wf_def early_frames_def bm_only_fields)
  with mark_early_marks [of s3] have m4: "marks (\<lambda>F. F - early_frames s) s3 (mark_all bi s)"
    by (simp add: all)
  from marks_trans [OF marks_trans [OF marks_trans [OF m1 m2] m3] m4]
  show ?thesis by (rule marks_cong) simp
qed

lemma frame_init_post:
  assumes ok: "boot_ok bi" and es: "memmap bi = Some es" and wf: "early_wf s"
    and lock: "\<not> g_memlock s"
    and room: "unat (g_cursor s) + 2 * bitmap_pages bi * 4096 \<le> unat (g_end s)"
  shows "\<exists>s'. frame_init bi s = Done s' \<and> frame_wf s' \<and> early_wf s' \<and> g_base s' = g_base s \<and>
    unat (g_cursor s') = unat (g_cursor s) + 2 * bitmap_pages bi * 4096 \<and>
    free_frames s' = usable_frames es - kernel_frames bi - boot_module_frames bi - early_frames s'"
proof -
  from ok es obtain hh where hh: "hhdm_offset bi = Some hh" and bnd: "memmap_bounded es"
    "\<exists>e \<in> set es. 0 < me_length e" by (auto simp: boot_ok_def)
  let ?b = "blank_bitmaps bi hh s"
  let ?m = "mark_all bi ?b"
  note blank = blank_bitmaps_pre [OF get_max_phys_bound(2) [OF es bnd], of hh s]
  note adv = early_wf_advance [OF wf, of "2 * bitmap_pages bi"]
  have cur: "unat (g_cursor ?b) = unat (g_cursor s) + 2 * bitmap_pages bi * 4096"
    and wfb: "early_wf ?b"
    using adv room by (simp_all add: blank_bitmaps_def early_wf_def algebra_simps)
  have "g_max_phys ?b = get_max_phys bi" by (simp add: blank_bitmaps_def)
  from mark_all_marks [OF ok es blank(1) this wfb] blank
  have m: "bm_only ?b ?m" "frame_pre ?m"
    "free_frames ?m = usable_frames es - kernel_frames bi - boot_module_frames bi - early_frames ?b"
    by (simp_all add: marks_def)
  note fields = bm_only_fields [OF m(1)]
  have "g_base ?m = g_base s" "g_cursor ?m = g_cursor ?b" "g_memlock ?m = g_memlock s"
    by (simp_all add: fields) (simp_all add: blank_bitmaps_def)
  then show ?thesis
    using frame_init_run [OF ok hh wf room] m wfb cur lock fields
    by (simp add: frame_wf_def frame_pre_def free_frames_def frame_topology_def early_wf_def
        early_frames_def)
qed

section \<open>Properties\<close>

text \<open>C10: On a boot with all its responses and enough early pages, \<open>frame_init\<close> succeeds and
  leaves a consistent allocator in which exactly those frames are free that lie wholly inside
  a USABLE entry and share no byte with the kernel image, with a module as reported by the
  loader, or with a page the early allocator has handed out (the pages of the two bitmaps
  included, which are taken as \<open>2 * bitmap_pages\<close> consecutive early pages).\<close>
theorem frame_init_correct:
  assumes "boot_ok bi" and "memmap bi = Some es" and "early_wf s" and "\<not> g_memlock s"
    and "unat (g_cursor s) + 2 * bitmap_pages bi * 4096 \<le> unat (g_end s)"
  shows "\<exists>s'. frame_init bi s = Done s' \<and> frame_wf s' \<and> early_wf s' \<and> g_base s' = g_base s \<and>
    unat (g_cursor s') = unat (g_cursor s) + 2 * bitmap_pages bi * 4096 \<and>
    free_frames s' = usable_frames es - kernel_frames bi - boot_module_frames bi - early_frames s'"
  by (rule frame_init_post [OF assms])

definition wit_frame0 :: frame_state where
  "wit_frame0 = \<lparr>g_base = 0x201000, g_cursor = 0x203000, g_end = 0x240000, g_region_forced = False,
     g_alloc_bm = [], g_usable_bm = [], g_alloc_at = 0, g_usable_at = 0,
     g_frame_count = 0, g_max_phys = 0, g_free_count = 0, g_hint = 0, g_memlock = False\<rparr>"

lemma wit_boot_ok: "boot_ok wit_boot" "memmap wit_boot = Some wit_map"
  using wit_map_bounded by (simp_all add: boot_ok_def wit_boot_def) (simp_all add: wit_map_def)

lemma wit_boot_bitmaps: "get_max_phys wit_boot = 0x240800" "bitmap_pages wit_boot = 1"
proof -
  show max: "get_max_phys wit_boot = 0x240800"
    by (simp add: get_max_phys_def me_end_def wit_boot_def wit_map_def)
  show "bitmap_pages wit_boot = 1"
    by (simp add: bitmap_pages_def bitmap_bytes_def max)
qed

lemma wit_frame0_ok: "early_wf wit_frame0" "\<not> g_memlock wit_frame0"
    "unat (g_cursor wit_frame0) + 2 * bitmap_pages wit_boot * 4096 \<le> unat (g_end wit_frame0)"
  by (simp_all add: early_wf_def wit_frame0_def wit_boot_bitmaps)

theorem frame_init_correct_witness:
  "\<exists>s'. frame_init wit_boot wit_frame0 = Done s' \<and> 0x205 \<in> free_frames s' \<and> 0x101 \<notin> free_frames s' \<and>
    0x204 \<notin> free_frames s' \<and> 0x110 \<notin> free_frames s'"
proof -
  from frame_init_correct [OF wit_boot_ok wit_frame0_ok] obtain s' where
    run: "frame_init wit_boot wit_frame0 = Done s'" and
    cur: "unat (g_cursor s') = 0x205000" "g_base s' = 0x201000" and
    free: "free_frames s' = usable_frames wit_map - kernel_frames wit_boot -
        boot_module_frames wit_boot - early_frames s'"
    by (auto simp: wit_boot_bitmaps wit_frame0_def)
  have "0x205 \<in> free_frames s'" "0x101 \<notin> free_frames s'" "0x204 \<notin> free_frames s'"
    "0x110 \<notin> free_frames s'"
    by (auto simp: free usable_frames_def wit_map_def memmap_type_defs frames_within_def kernel_frames_def
        wit_boot_def frames_touching_def boot_module_frames_def early_frames_def cur)
  with run show ?thesis by blast
qed

text \<open>C18: The pages that hold the allocator's own bitmaps, the page tables built from early
  pages and everything else the early allocator gave away are never handed out again: no
  client of the allocator, whatever it allocates and releases after \<open>frame_init\<close>, ever
  holds an early page.\<close>
theorem early_pages_never_owned:
  assumes "boot_ok bi" and "early_wf s" and "\<not> g_memlock s"
    and "unat (g_cursor s) + 2 * bitmap_pages bi * 4096 \<le> unat (g_end s)"
    and "frame_init bi s = Done s0" and "pmm_run s0 s1 owned"
  shows "owned \<inter> early_pages s0 = {}"
proof -
  from assms(1) obtain es where es: "memmap bi = Some es"
    by (auto simp: boot_ok_def split: option.splits)
  from frame_init_post [OF assms(1) es assms(2-4)] assms(5)
  have wf: "frame_wf s0" and free: "free_frames s0 \<inter> early_frames s0 = {}" by auto
  have own: "owned \<subseteq> frame_addr_of ` free_frames s0"
    using pmm_run_owned [OF assms(6) wf] by (auto simp: owned_ok_def)
  have "p \<notin> early_pages s0" if "p \<in> owned" for p
  proof -
    from that own obtain i where i: "i \<in> free_frames s0" "p = frame_addr_of i" by blast
    with free have "i \<notin> early_frames s0" by blast
    with i free_frame_addr(1) [OF frame_wf_topology [OF wf] i(1)] show ?thesis
      by (simp add: early_pages_def early_frames_def word_le_nat_alt word_less_nat_alt)
  qed
  then show ?thesis by blast
qed

theorem early_pages_never_owned_witness:
  "\<exists>s0 p s1. frame_init wit_boot wit_frame0 = Done s0 \<and> frame_alloc s0 = Done (p, s1) \<and>
    p \<notin> early_pages s0"
proof -
  from frame_init_post [OF wit_boot_ok wit_frame0_ok] obtain s0 where
    run: "frame_init wit_boot wit_frame0 = Done s0" and wf: "frame_wf s0" and
    cur: "unat (g_cursor s0) = 0x205000" "g_base s0 = 0x201000" and
    free: "free_frames s0 = usable_frames wit_map - kernel_frames wit_boot -
        boot_module_frames wit_boot - early_frames s0"
    by (auto simp: wit_boot_bitmaps wit_frame0_def)
  have "0x205 \<in> free_frames s0"
    by (auto simp: free usable_frames_def wit_map_def memmap_type_defs frames_within_def kernel_frames_def
        wit_boot_def frames_touching_def boot_module_frames_def early_frames_def cur)
  then have "free_frames s0 \<noteq> {}" by blast
  with frame_alloc_wf_cases [OF wf] obtain i where al: "frame_alloc s0 = Done (frame_addr_of i, take_frame i s0)"
    by blast
  from pmm_run.alloc [OF pmm_run.start al]
  have "pmm_run s0 (take_frame i s0) {frame_addr_of i}" .
  from early_pages_never_owned [OF wit_boot_ok(1) wit_frame0_ok run this] run al show ?thesis by auto
qed

end
