(* ===== verification/Kstring.thy ===== *)
theory Kstring
  imports Prelude
begin

text \<open>
  The freestanding string routines of \<open>src/src/mem*.c\<close> and \<open>src/src/str*.c\<close>, as functions on
  the kernel's byte memory. A counted loop is a fold over its index range; a loop that runs
  until it meets a NUL byte is a partial function, \<open>None\<close> when there is none. The routines
  that return their destination argument are modelled by the memory they leave.
\<close>

section \<open>memset, memcpy, memmove, memcmp\<close>

definition memset :: "memory \<Rightarrow> u64 \<Rightarrow> u32 \<Rightarrow> u64 \<Rightarrow> memory" where
  "memset m bufptr value n =
     fold (\<lambda>i m. m(bufptr + of_nat i := ucast value)) [0..<unat n] m"

definition copy_byte :: "u64 \<Rightarrow> u64 \<Rightarrow> nat \<Rightarrow> memory \<Rightarrow> memory" where
  "copy_byte dst src i m = m(dst + of_nat i := m (src + of_nat i))"

definition memcpy :: "memory \<Rightarrow> u64 \<Rightarrow> u64 \<Rightarrow> u64 \<Rightarrow> memory" where
  "memcpy m dst src n = fold (copy_byte dst src) [0..<unat n] m"

definition memmove :: "memory \<Rightarrow> u64 \<Rightarrow> u64 \<Rightarrow> u64 \<Rightarrow> memory" where
  "memmove m dst src n =
     (if dst < src
      then fold (copy_byte dst src) [0..<unat n] m
      else fold (copy_byte dst src) (rev [0..<unat n]) m)"

fun memcmp_loop :: "memory \<Rightarrow> u64 \<Rightarrow> u64 \<Rightarrow> nat list \<Rightarrow> int" where
  "memcmp_loop m a b [] = 0"
| "memcmp_loop m a b (i # is) =
     (if m (a + of_nat i) < m (b + of_nat i) then -1
      else if m (b + of_nat i) < m (a + of_nat i) then 1
      else memcmp_loop m a b is)"

definition memcmp :: "memory \<Rightarrow> u64 \<Rightarrow> u64 \<Rightarrow> u64 \<Rightarrow> int" where
  "memcmp m aptr bptr n = memcmp_loop m aptr bptr [0..<unat n]"

lemma eq_add_of_nat_iff:
  fixes x p :: u64
  assumes "k < 2 ^ 64"
  shows "x = p + of_nat k \<longleftrightarrow> unat (x - p) = k"
proof -
  have "x = p + of_nat k \<longleftrightarrow> x - p = of_nat k" by (auto simp: algebra_simps)
  also have "\<dots> \<longleftrightarrow> unat (x - p) = k"
    using assms by (auto simp: word_unat_eq_iff unat_of_nat take_bit_eq_mod)
  finally show ?thesis .
qed

lemma memset_fold:
  "k \<le> 2 ^ 64 \<Longrightarrow>
   fold (\<lambda>i m. m(p + of_nat i := v)) [0..<k] m x = (if unat (x - p) < k then v else (m :: memory) x)"
proof (induction k)
  case (Suc k)
  then have "x = p + of_nat k \<longleftrightarrow> unat (x - p) = k" by (simp add: eq_add_of_nat_iff)
  with Suc show ?case by (auto simp: less_Suc_eq)
qed simp

lemma copy_byte_apply:
  "copy_byte dst src i m x = (if x = dst + of_nat i then m (src + of_nat i) else m x)"
  by (simp add: copy_byte_def)

lemma memset_apply: "memset m p v n x = (if x - p < n then ucast v else m x)"
  unfolding memset_def
  by (subst memset_fold) (simp_all add: word_less_nat_alt less_imp_le)

text \<open>A forward copy that never reads a byte it has already overwritten.\<close>
lemma copy_forward:
  assumes "\<And>i j. i < k \<Longrightarrow> j < i \<Longrightarrow> src + of_nat i \<noteq> dst + of_nat j" and "k \<le> 2 ^ 64"
  shows "fold (copy_byte dst src) [0..<k] m x =
    (if unat (x - dst) < k then m (src + (x - dst)) else m x)"
  using assms
proof (induction k arbitrary: x)
  case (Suc k)
  let ?m = "fold (copy_byte dst src) [0..<k] m"
  have IH: "?m y = (if unat (y - dst) < k then m (src + (y - dst)) else m y)" for y
    using Suc by simp
  have "\<not> unat ((src + of_nat k) - dst) < k"
  proof
    let ?j = "unat ((src + of_nat k) - dst)"
    assume "?j < k"
    with Suc.prems(1) [of k ?j] show False by simp
  qed
  then have read: "?m (src + of_nat k) = m (src + of_nat k)" by (simp add: IH)
  have "x = dst + of_nat k \<longleftrightarrow> unat (x - dst) = k"
    using Suc.prems(2) by (simp add: eq_add_of_nat_iff)
  moreover have "fold (copy_byte dst src) [0..<Suc k] m x =
    (if x = dst + of_nat k then m (src + of_nat k) else ?m x)"
    by (simp add: copy_byte_apply [of dst src k ?m x] read)
  ultimately show ?case
    using IH [of x] by (auto simp: less_Suc_eq)
qed simp

lemma copy_backward:
  assumes "\<And>i j. i < j \<Longrightarrow> j < k \<Longrightarrow> src + of_nat i \<noteq> dst + of_nat j" and "k \<le> 2 ^ 64"
  shows "fold (copy_byte dst src) (rev [0..<k]) m x =
    (if unat (x - dst) < k then m (src + (x - dst)) else m x)"
  using assms
proof (induction k arbitrary: m x)
  case (Suc k)
  let ?m = "copy_byte dst src k m"
  have IH: "fold (copy_byte dst src) (rev [0..<k]) ?m x =
    (if unat (x - dst) < k then ?m (src + (x - dst)) else ?m x)"
    using Suc by simp
  have keep: "?m (src + (x - dst)) = m (src + (x - dst))" if "unat (x - dst) < k"
    using Suc.prems(1) [of "unat (x - dst)" k] that by (simp add: copy_byte_apply)
  have "x = dst + of_nat k \<longleftrightarrow> unat (x - dst) = k"
    using Suc.prems(2) by (simp add: eq_add_of_nat_iff)
  moreover have "fold (copy_byte dst src) (rev [0..<Suc k]) m x =
    fold (copy_byte dst src) (rev [0..<k]) ?m x" by simp
  ultimately show ?case
    using IH keep copy_byte_apply [of dst src k m x] by (auto simp: less_Suc_eq)
qed simp

lemma memcpy_apply:
  assumes "\<And>i j. i < unat n \<Longrightarrow> j < unat n \<Longrightarrow> src + of_nat i \<noteq> dst + of_nat j"
  shows "memcpy m dst src n x = (if x - dst < n then m (src + (x - dst)) else m x)"
  unfolding memcpy_def
  by (subst copy_forward) (use assms in \<open>simp_all add: word_less_nat_alt less_imp_le\<close>)

lemma add_of_nat_neq:
  fixes a b :: u64
  assumes "unat a + i < unat b + j" "unat b + j < 2 ^ 64"
  shows "a + of_nat i \<noteq> b + of_nat j"
proof -
  have "unat (a + of_nat i) = unat a + i" "unat (b + of_nat j) = unat b + j"
    using assms by (simp_all add: unat_word_ariths unat_of_nat take_bit_eq_mod)
  with assms(1) show ?thesis by auto
qed

lemma memmove_apply:
  assumes "unat dst + unat n \<le> 2 ^ 64" and "unat src + unat n \<le> 2 ^ 64"
  shows "memmove m dst src n x = (if x - dst < n then m (src + (x - dst)) else m x)"
proof (cases "dst < src")
  case True
  then have "unat dst < unat src" by (simp add: word_less_nat_alt)
  then have "src + of_nat i \<noteq> dst + of_nat j" if "i < unat n" "j < i" for i j
    using add_of_nat_neq [of dst j src i] that assms by auto
  then show ?thesis
    unfolding memmove_def if_P [OF True]
    by (subst copy_forward) (simp_all add: word_less_nat_alt less_imp_le)
next
  case False
  then have "unat src \<le> unat dst" by (simp add: word_less_nat_alt)
  then have "src + of_nat i \<noteq> dst + of_nat j" if "i < j" "j < unat n" for i j
    using add_of_nat_neq [of src i dst j] that assms by auto
  then show ?thesis
    unfolding memmove_def if_not_P [OF False]
    by (subst copy_backward) (simp_all add: word_less_nat_alt less_imp_le)
qed

end
