(* ===== verification/Page_Tree.thy ===== *)
theory Page_Tree
  imports Prelude "HOL-Library.Sublist"
begin

text \<open>
  The shape of an x86-64 page-table tree, independent of how its entries are stored:
  \<open>tables\<close> gives entry \<open>k\<close> of the table in frame \<open>f\<close>. Both mapping layers of the kernel
  (\<open>paging.c\<close> and \<open>paging/paging_bootstrap.c\<close>) and the hardware-style walk
  \<open>walk_va_to_pa\<close> are proved correct over these lemmas: what a write into one entry does to
  the translation of every address.
\<close>

type_synonym tables = "u64 \<Rightarrow> nat \<Rightarrow> u64"

definition PTE_P :: u64 where "PTE_P = 0x1"
definition PTE_W :: u64 where "PTE_W = 0x2"
definition PTE_U :: u64 where "PTE_U = 0x4"
definition PTE_PS :: u64 where "PTE_PS = 0x80"
definition PTE_NX :: u64 where "PTE_NX = 0x8000000000000000"
definition ADDR_MASK :: u64 where "ADDR_MASK = 0x000FFFFFFFFFF000"
definition PAGE_FLAG_MASK :: u64 where "PAGE_FLAG_MASK = 0xFFF OR push_bit 63 1"
definition PAGE_ADDRESS_MASK :: u64 where "PAGE_ADDRESS_MASK = NOT PAGE_FLAG_MASK"

lemmas pte_defs = PTE_P_def PTE_W_def PTE_U_def PTE_PS_def PTE_NX_def ADDR_MASK_def
  PAGE_FLAG_MASK_def PAGE_ADDRESS_MASK_def

definition pte_present :: "u64 \<Rightarrow> bool" where "pte_present e \<longleftrightarrow> e AND PTE_P \<noteq> 0"
definition pte_huge :: "u64 \<Rightarrow> bool" where "pte_huge e \<longleftrightarrow> e AND PTE_PS \<noteq> 0"

definition child :: "u64 \<Rightarrow> u64 option" where
  "child e = (if pte_present e \<and> \<not> pte_huge e then Some (e AND ADDR_MASK) else None)"

primrec desc :: "tables \<Rightarrow> u64 \<Rightarrow> nat list \<Rightarrow> u64 option" where
  "desc E f [] = Some f"
| "desc E f (k # ks) = (case child (E f k) of None \<Rightarrow> None | Some g \<Rightarrow> desc E g ks)"

text \<open>The entry that translates a path of indices, with the number of levels below it: 0 for a
  4 KiB page, 1 for a 2 MiB page, 2 for a 1 GiB page.\<close>

primrec resolve :: "tables \<Rightarrow> u64 \<Rightarrow> nat list \<Rightarrow> (u64 \<times> nat) option" where
  "resolve E f [] = None"
| "resolve E f (k # ks) =
     (let e = E f k
      in if \<not> pte_present e then None
         else if ks = [] \<or> pte_huge e then Some (e, length ks)
         else resolve E (e AND ADDR_MASK) ks)"

definition path_ok :: "nat \<Rightarrow> nat list \<Rightarrow> bool" where
  "path_ok n ks \<longleftrightarrow> length ks \<le> n \<and> (\<forall>k \<in> set ks. k < 512)"

definition tree_ok :: "tables \<Rightarrow> u64 \<Rightarrow> u64 set \<Rightarrow> bool" where
  "tree_ok E r V \<longleftrightarrow>
     (\<forall>ks f. path_ok 3 ks \<longrightarrow> desc E r ks = Some f \<longrightarrow> f \<in> V) \<and>
     (\<forall>ks ks' f. path_ok 3 ks \<longrightarrow> path_ok 3 ks' \<longrightarrow> desc E r ks = Some f \<longrightarrow> desc E r ks' = Some f \<longrightarrow>
        ks = ks')"

lemma path_ok_append: "path_ok n (ks @ ks') \<Longrightarrow> path_ok n ks \<and> path_ok n ks'"
  by (auto simp: path_ok_def)

lemma path_ok_snoc: "path_ok n (ks @ [k]) \<longleftrightarrow> length ks < n \<and> path_ok n ks \<and> k < 512"
  by (auto simp: path_ok_def)

lemma desc_append: "desc E f (ks @ ks') = Option.bind (desc E f ks) (\<lambda>g. desc E g ks')"
  by (induction ks arbitrary: f) (auto split: option.split)

lemma desc_snoc: "desc E f (ks @ [k]) = Option.bind (desc E f ks) (\<lambda>g. child (E g k))"
  by (auto simp: desc_append fun_eq_iff split: option.split intro!: arg_cong2 [where f = Option.bind])

lemma tree_okD:
  assumes "tree_ok E r V" and "path_ok 3 ks" and "desc E r ks = Some f"
  shows "f \<in> V" and "path_ok 3 ks' \<Longrightarrow> desc E r ks' = Some f \<Longrightarrow> ks' = ks"
  using assms unfolding tree_ok_def by blast+

lemma resolve_append:
  "desc E r ks = Some f \<Longrightarrow> rest \<noteq> [] \<Longrightarrow> resolve E r (ks @ rest) = resolve E f rest"
proof (induction ks arbitrary: r)
  case (Cons k ks)
  then show ?case by (auto simp: child_def Let_def split: option.splits if_splits)
qed simp

text \<open>Only the entry \<open>(f, k)\<close>, where \<open>f\<close> is the table at path \<open>ks\<close>, has changed (as far as
  frames of \<open>V\<close> are concerned).\<close>

definition only_entry :: "tables \<Rightarrow> tables \<Rightarrow> u64 set \<Rightarrow> u64 \<Rightarrow> nat \<Rightarrow> bool" where
  "only_entry E E' V f k \<longleftrightarrow> (\<forall>h \<in> V. \<forall>j < 512. (h, j) \<noteq> (f, k) \<longrightarrow> E' h j = E h j)"

lemma desc_elsewhere:
  assumes tree: "tree_ok E r V" and f: "desc E r ks = Some f" and f3: "path_ok 3 ks"
    and only: "only_entry E E' V f k"
    and q: "path_ok 4 qs" "\<not> prefix (ks @ [k]) qs"
  shows "length qs \<le> 3 \<Longrightarrow> desc E' r qs = desc E r qs"
    and "resolve E' r qs = resolve E r qs"
proof -
  have step: "E' h j = E h j"
    if "desc E r ps = Some h" "path_ok 3 ps" "j < 512" "\<not> prefix (ks @ [k]) (ps @ [j])" for ps h j
  proof -
    have "h = f \<Longrightarrow> ps = ks" using tree_okD(2) [OF tree f3 f that(2)] that(1) by simp
    then have "(h, j) \<noteq> (f, k)" using that(4) by auto
    then show ?thesis using only that(3) tree_okD(1) [OF tree that(2,1)] by (auto simp: only_entry_def)
  qed
  have sub: "\<not> prefix (ks @ [k]) (ps @ [j])" if "qs = ps @ j # rest" for ps j rest
    using q(2) that by (metis Cons_eq_appendI append_assoc append_Nil prefix_prefix)
  have "resolve E' h rest = resolve E h rest \<and> (length qs \<le> 3 \<longrightarrow> desc E' h rest = desc E h rest)"
    if "qs = ps @ rest" "desc E r ps = Some h" for ps rest h
    using that
  proof (induction rest arbitrary: ps h)
    case (Cons j rest)
    have ps3: "path_ok 3 ps" and j: "j < 512"
      using q(1) Cons.prems(1) by (auto simp: path_ok_def)
    have same: "E' h j = E h j" by (rule step [OF Cons.prems(2) ps3 j sub [OF Cons.prems(1)]])
    show ?case
    proof (cases "child (E h j)")
      case None
      then show ?thesis using same by (auto simp: child_def Let_def split: if_splits)
    next
      case (Some g)
      then have "desc E r (ps @ [j]) = Some g" using Cons.prems(2) by (simp add: desc_append)
      then show ?thesis
        using Cons.IH [of "ps @ [j]" g] Cons.prems(1) same Some
        by (auto simp: child_def Let_def split: if_splits)
    qed
  qed simp
  from this [of "[]" qs r] show "length qs \<le> 3 \<Longrightarrow> desc E' r qs = desc E r qs"
    "resolve E' r qs = resolve E r qs" by simp_all
qed

lemma not_prefix_snoc: "\<not> prefix (ks @ [k]) ks"
  by (auto dest: prefix_length_le)

lemma desc_same_table:
  assumes "tree_ok E r V" and "desc E r ks = Some f" and "path_ok 3 ks" and "only_entry E E' V f k"
  shows "desc E' r ks = Some f"
  using desc_elsewhere(1) [OF assms _ not_prefix_snoc] assms(2,3) by (simp add: path_ok_def)

text \<open>Writing an entry that points to no further table keeps the tree well formed.\<close>
lemma write_leaf:
  assumes tree: "tree_ok E r V" and f: "desc E r ks = Some f" and f3: "path_ok 3 ks"
    and only: "only_entry E E' V f k"
    and leaf: "length ks = 3 \<or> child (E' f k) = None"
  shows "tree_ok E' r V" and "resolve E' r (ks @ k # rest) = resolve E' f (k # rest)"
    and "path_ok 3 qs \<Longrightarrow> desc E' r qs = (if prefix (ks @ [k]) qs then None else desc E r qs)"
proof -
  note f' = desc_same_table [OF tree f f3 only]
  show eq: "desc E' r qs = (if prefix (ks @ [k]) qs then None else desc E r qs)" if "path_ok 3 qs" for qs
  proof (cases "prefix (ks @ [k]) qs")
    case True
    then obtain rest where qs: "qs = ks @ k # rest" by (auto elim!: prefixE)
    with that have "length ks \<noteq> 3" by (auto simp: path_ok_def)
    with leaf f' True qs show ?thesis by (simp add: desc_append)
  next
    case False
    with desc_elsewhere(1) [OF tree f f3 only _ False] that show ?thesis by (auto simp: path_ok_def)
  qed
  show "tree_ok E' r V"
    unfolding tree_ok_def
  proof (intro conjI allI impI)
    fix qs h assume "path_ok 3 qs" "desc E' r qs = Some h"
    then show "h \<in> V" using eq tree_okD(1) [OF tree] by (auto split: if_splits)
  next
    fix qs qs' h assume "path_ok 3 qs" "path_ok 3 qs'" "desc E' r qs = Some h" "desc E' r qs' = Some h"
    then show "qs = qs'" using eq tree_okD(2) [OF tree] by (metis option.distinct(1))
  qed
  show "resolve E' r (ks @ k # rest) = resolve E' f (k # rest)"
    by (rule resolve_append [OF f']) simp
qed

text \<open>Hooking up a fresh, empty table below an entry that was not present.\<close>
lemma grow_table:
  assumes tree: "tree_ok E r V" and f: "desc E r ks = Some f" and f2: "path_ok 2 ks" and k: "k < 512"
    and only: "only_entry E E' V f k" and absent: "\<not> pte_present (E f k)"
    and g: "child (E' f k) = Some g" "g \<notin> V" and empty: "\<forall>j < 512. E' g j = 0"
  shows "tree_ok E' r (insert g V)" and "desc E' r (ks @ [k]) = Some g"
    and "path_ok 4 qs \<Longrightarrow> length qs = 4 \<Longrightarrow> resolve E' r qs = resolve E r qs"
    and "path_ok 3 qs \<Longrightarrow> desc E' r qs = (if qs = ks @ [k] then Some g else desc E r qs)"
    and "desc E r (ks @ [k]) = None"
proof -
  have f3: "path_ok 3 ks" using f2 by (simp add: path_ok_def)
  note f' = desc_same_table [OF tree f f3 only]
  show kg: "desc E' r (ks @ [k]) = Some g" using f' g by (simp add: desc_append)
  have none: "child 0 = None" by (simp add: child_def pte_present_def)
  have old: "desc E r (ks @ k # rest) = None" for rest
    using f absent by (simp add: desc_append child_def)
  have below: "desc E' r (ks @ k # rest) = (if rest = [] then Some g else None)"
    if "path_ok 3 (ks @ k # rest)" for rest
    using that f' g empty none by (cases rest) (auto simp: desc_append path_ok_def)
  show "desc E r (ks @ [k]) = None" using old [of "[]"] .
  show eq: "desc E' r qs = (if qs = ks @ [k] then Some g else desc E r qs)" if "path_ok 3 qs" for qs
  proof (cases "prefix (ks @ [k]) qs")
    case True
    then obtain rest where "qs = ks @ k # rest" by (auto elim!: prefixE)
    with that old below show ?thesis by auto
  next
    case False
    moreover from False have "qs \<noteq> ks @ [k]" by auto
    ultimately show ?thesis
      using desc_elsewhere(1) [OF tree f f3 only _ False] that by (simp add: path_ok_def)
  qed
  show "tree_ok E' r (insert g V)"
    unfolding tree_ok_def
  proof (intro conjI allI impI)
    fix qs h assume "path_ok 3 qs" "desc E' r qs = Some h"
    then show "h \<in> insert g V" using eq tree_okD(1) [OF tree] by (auto split: if_splits)
  next
    fix qs qs' h assume "path_ok 3 qs" "path_ok 3 qs'" "desc E' r qs = Some h" "desc E' r qs' = Some h"
    then show "qs = qs'"
      using eq tree_okD [OF tree] g(2) by (metis option.inject)
  qed
  show "resolve E' r qs = resolve E r qs" if "path_ok 4 qs" "length qs = 4"
  proof (cases "prefix (ks @ [k]) qs")
    case False
    show ?thesis by (rule desc_elsewhere(2) [OF tree f f3 only that(1) False])
  next
    case True
    then obtain rest where qs: "qs = (ks @ [k]) @ rest" by (auto elim!: prefixE)
    with f2 that obtain j rest' where r: "rest = j # rest'" "j < 512"
      by (cases rest) (auto simp: path_ok_def)
    have "resolve E' r ((ks @ [k]) @ j # rest') = resolve E' g (j # rest')"
      by (rule resolve_append [OF kg]) simp
    then have "resolve E' r qs = None"
      using r empty by (simp add: qs pte_present_def)
    moreover have "resolve E r qs = None"
      using resolve_append [OF f, of "k # rest"] absent by (simp add: qs)
    ultimately show ?thesis by simp
  qed
qed

text \<open>The entries that point to a further table all satisfy \<open>Q\<close>.\<close>

definition table_entries :: "(u64 \<Rightarrow> bool) \<Rightarrow> tables \<Rightarrow> u64 \<Rightarrow> bool" where
  "table_entries Q E r \<longleftrightarrow> (\<forall>ks f k. path_ok 2 ks \<longrightarrow> k < 512 \<longrightarrow> desc E r ks = Some f \<longrightarrow>
     child (E f k) \<noteq> None \<longrightarrow> Q (E f k))"

lemma write_leaf_entries:
  assumes tree: "tree_ok E r V" and f: "desc E r ks = Some f" and f3: "path_ok 3 ks"
    and only: "only_entry E E' V f k" and leaf: "length ks = 3 \<or> child (E' f k) = None"
    and q: "table_entries Q E r"
  shows "table_entries Q E' r"
  unfolding table_entries_def
proof (intro allI impI)
  fix qs h j
  assume a: "path_ok 2 qs" "j < 512" "desc E' r qs = Some h" "child (E' h j) \<noteq> None"
  then have q3: "path_ok 3 qs" by (simp add: path_ok_def)
  with write_leaf(3) [OF tree f f3 only leaf] a(3) have h: "desc E r qs = Some h" by (auto split: if_splits)
  have "h = f \<Longrightarrow> qs = ks" using tree_okD(2) [OF tree f3 f q3] h by simp
  then have "(h, j) \<noteq> (f, k)" using a leaf by (auto simp: path_ok_def)
  then have "E' h j = E h j"
    using only tree_okD(1) [OF tree q3 h] a(2) by (simp add: only_entry_def)
  with q a h show "Q (E' h j)" by (simp add: table_entries_def)
qed

lemma grow_table_entries:
  assumes tree: "tree_ok E r V" and f: "desc E r ks = Some f" and f2: "path_ok 2 ks" and k: "k < 512"
    and only: "only_entry E E' V f k" and absent: "\<not> pte_present (E f k)"
    and g: "child (E' f k) = Some g" "g \<notin> V" and empty: "\<forall>j < 512. E' g j = 0"
    and q: "table_entries Q E r" "Q (E' f k)"
  shows "table_entries Q E' r"
  unfolding table_entries_def
proof (intro allI impI)
  note grow = grow_table [OF tree f f2 k only absent g empty]
  fix qs h j
  assume a: "path_ok 2 qs" "j < 512" "desc E' r qs = Some h" "child (E' h j) \<noteq> None"
  then have q3: "path_ok 3 qs" by (simp add: path_ok_def)
  have "h \<noteq> g" using a empty by (auto simp: child_def pte_present_def)
  then have h: "desc E r qs = Some h" using grow(2) grow(4) [OF q3] a(3) by (auto split: if_splits)
  show "Q (E' h j)"
  proof (cases "(h, j) = (f, k)")
    case False
    with only tree_okD(1) [OF tree q3 h] a(2) have "E' h j = E h j" by (simp add: only_entry_def)
    with q(1) a h show ?thesis by (simp add: table_entries_def)
  qed (use q(2) in simp)
qed

section \<open>Rights\<close>

text \<open>The entries the processor reads on the way to a translation. An access is allowed to write
  when every one of them has bit 1 set, and to fetch instructions when none has bit 63 set.\<close>

primrec walk_entries :: "tables \<Rightarrow> u64 \<Rightarrow> nat list \<Rightarrow> u64 list" where
  "walk_entries E f [] = []"
| "walk_entries E f (k # ks) =
     E f k # (if pte_present (E f k) \<and> \<not> pte_huge (E f k) then walk_entries E (E f k AND ADDR_MASK) ks else [])"

definition writable :: "tables \<Rightarrow> u64 \<Rightarrow> nat list \<Rightarrow> bool" where
  "writable E r P \<longleftrightarrow> list_all (\<lambda>e. bit e 1) (walk_entries E r P)"

definition executable :: "tables \<Rightarrow> u64 \<Rightarrow> nat list \<Rightarrow> bool" where
  "executable E r P \<longleftrightarrow> list_all (\<lambda>e. \<not> bit e 63) (walk_entries E r P)"

definition open_entry :: "u64 \<Rightarrow> bool" where
  "open_entry e \<longleftrightarrow> bit e 1 \<and> \<not> bit e 63"

text \<open>Where the tables withhold no right, the entry that translates decides.\<close>
lemma open_rights:
  assumes q: "table_entries open_entry E r" and P: "path_ok 4 P" "resolve E r P = Some (e, n)" "length P = 4"
  shows "writable E r P \<longleftrightarrow> bit e 1" and "executable E r P \<longleftrightarrow> \<not> bit e 63"
proof -
  have "(list_all (\<lambda>e. bit e 1) (walk_entries E h rest) \<longleftrightarrow> bit e 1) \<and>
      (list_all (\<lambda>e. \<not> bit e 63) (walk_entries E h rest) \<longleftrightarrow> \<not> bit e 63)"
    if "P = ps @ rest" "desc E r ps = Some h" "resolve E h rest = Some (e, n)" for ps h rest
    using that
  proof (induction rest arbitrary: ps h)
    case (Cons j rest)
    have up: "pte_present (E h j)" using Cons.prems(3) by (auto simp: Let_def split: if_splits)
    show ?case
    proof (cases "rest = [] \<or> pte_huge (E h j)")
      case False
      then have next_res: "resolve E (E h j AND ADDR_MASK) rest = Some (e, n)"
        using Cons.prems(3) by (auto simp: Let_def split: if_splits)
      have "path_ok 2 ps" "j < 512" using Cons.prems(1) P(1,3) False by (cases rest; auto simp: path_ok_def)+
      with q up False Cons.prems(2) have "open_entry (E h j)" by (auto simp: table_entries_def child_def)
      moreover have "desc E r (ps @ [j]) = Some (E h j AND ADDR_MASK)"
        using up False Cons.prems(2) by (simp add: desc_append child_def)
      ultimately show ?thesis
        using Cons.IH [of "ps @ [j]"] Cons.prems(1) up next_res False by (simp add: open_entry_def)
    qed (use Cons.prems in \<open>auto simp: Let_def split: if_splits\<close>)
  qed simp
  from this [of "[]" P r] P(2) show "writable E r P \<longleftrightarrow> bit e 1" "executable E r P \<longleftrightarrow> \<not> bit e 63"
    by (simp_all add: writable_def executable_def)
qed

end
