(* ===== verification/Table_Memory.thy ===== *)
theory Table_Memory
  imports Frame_Init Kstring Page_Tree
begin

text \<open>
  The state of the paging code and page tables as they lie in memory. A table in the physical
  frame \<open>t\<close> is reached through the direct map (HHDM) at \<open>hh + t\<close>; \<open>tbl\<close> reads its entries.
  The interpretation of \<open>word_store\<close> says that entries of valid frames are independent
  cells, and \<open>tbl_memset_page\<close> what clearing a fresh table does.
\<close>

section \<open>State\<close>

datatype phys_page_supplier = supply_from_early | supply_from_frame

record paging_state = frame_state +
  mem :: memory
  g_hhdm :: u64
  g_pml4_phys :: u64
  g_pml4_virt :: u64
  cr3 :: u64
  g_boot_phys_page :: "phys_page_supplier option"

definition PagingGetFreeFrame :: "'a paging_state_scheme \<Rightarrow> (u64 \<times> 'a paging_state_scheme) outcome" where
  "PagingGetFreeFrame s =
     (case g_boot_phys_page s of
        None \<Rightarrow> Done (0, s)
      | Some supply_from_early \<Rightarrow> early_alloc_page s
      | Some supply_from_frame \<Rightarrow> frame_alloc s)"

section \<open>Tables in memory\<close>

definition entry_addr :: "u64 \<Rightarrow> u64 \<Rightarrow> u64" where
  "entry_addr table k = table + 8 * k"

definition tbl :: "u64 \<Rightarrow> memory \<Rightarrow> tables" where
  "tbl hh m t k = load64 m (entry_addr (hh + t) (of_nat k))"

definition hh_ok :: "u64 \<Rightarrow> bool" where
  "hh_ok hh \<longleftrightarrow> 4096 dvd unat hh \<and> unat hh + 2 ^ 47 \<le> 2 ^ 64"

definition valid_frame :: "u64 \<Rightarrow> bool" where
  "valid_frame t \<longleftrightarrow> 4096 dvd unat t \<and> unat t + 4096 \<le> 2 ^ 47"

definition table_cells :: "u64 \<Rightarrow> (u64 \<times> nat) set" where
  "table_cells hh = {(t, k). hh_ok hh \<and> valid_frame t \<and> k < 512}"

lemma unat_table_addr:
  assumes "hh_ok hh" and "valid_frame t"
  shows "unat (hh + t) = unat hh + unat t"
  using assms by (simp add: hh_ok_def valid_frame_def unat_word_ariths)

lemma unat_entry_addr:
  assumes "hh_ok hh" and "valid_frame t" and "k < 512"
  shows "unat (entry_addr (hh + t) (of_nat k)) = unat hh + unat t + 8 * k"
proof -
  have "unat (8 * (of_nat k :: u64)) = 8 * k"
    using assms(3) by (simp add: unat_word_ariths unat_of_nat)
  then show ?thesis
    using assms unat_table_addr [OF assms(1,2)]
    by (simp add: entry_addr_def unat_word_ariths hh_ok_def valid_frame_def)
qed

lemma aligned_parts_eq:
  assumes "4096 dvd (a::nat)" and "4096 dvd b" and "i < 4096" and "j < 4096" and "a + i = b + j"
  shows "a = b \<and> i = j"
proof -
  from assms(1,2) obtain x y where xy: "a = 4096 * x" "b = 4096 * y" by (auto elim!: dvdE)
  have "i = (a + i) mod 4096" "j = (b + j) mod 4096" using assms(3,4) by (simp_all add: xy)
  with assms(5) show ?thesis by simp
qed

lemma entry_addr_inj:
  assumes "(t, k) \<in> table_cells hh" and "(u, j) \<in> table_cells hh"
    and "entry_addr (hh + t) (of_nat k) = entry_addr (hh + u) (of_nat j)"
  shows "(t, k) = (u, j)"
proof -
  have "unat hh + unat t + 8 * k = unat hh + unat u + 8 * j"
    using assms unat_entry_addr [of hh t k] unat_entry_addr [of hh u j]
    by (simp add: table_cells_def)
  then have "unat t + 8 * k = unat u + 8 * j" by simp
  moreover have "8 * k < 4096" "8 * j < 4096" "4096 dvd unat t" "4096 dvd unat u"
    using assms by (simp_all add: table_cells_def valid_frame_def)
  ultimately have "unat t = unat u \<and> 8 * k = 8 * j" using aligned_parts_eq by blast
  then show ?thesis by (simp add: word_unat_eq_iff)
qed

lemma aligned8_entry:
  assumes "(t, k) \<in> table_cells hh" shows "aligned8 (entry_addr (hh + t) (of_nat k))"
proof -
  have "(8::nat) dvd 4096" by simp
  with assms have "8 dvd unat hh" "8 dvd unat t"
    using dvd_trans by (auto simp: table_cells_def hh_ok_def valid_frame_def)
  with assms unat_entry_addr [of hh t k] show ?thesis
    by (simp add: aligned8_def table_cells_def)
qed

interpretation tblmem: word_store "\<lambda>m (t, k). tbl hh m t k"
  "\<lambda>m (t, k) e. store64 m (entry_addr (hh + t) (of_nat k)) e" "table_cells hh" for hh
proof unfold_locales
  fix a b :: "u64 \<times> nat" and m v
  assume "a \<in> table_cells hh" and "b \<in> table_cells hh"
  then show "(case b of (t, k) \<Rightarrow> tbl hh ((case a of (t, k) \<Rightarrow> store64 m (entry_addr (hh + t) (of_nat k))) v) t k) =
      (if a = b then v else case b of (t, k) \<Rightarrow> tbl hh m t k)"
    using entry_addr_inj [of "fst a" "snd a" hh "fst b" "snd b"] aligned8_entry [of "fst a" "snd a" hh]
      aligned8_entry [of "fst b" "snd b" hh]
    by (cases a, cases b) (auto simp: tbl_def intro!: load64_store64_other)
qed

lemma tbl_store:
  assumes "hh_ok hh" and "valid_frame f" and "k < 512" and "valid_frame t" and "j < 512"
  shows "tbl hh (store64 m (entry_addr (hh + f) (of_nat k)) e) t j =
    (if t = f \<and> j = k then e else tbl hh m t j)"
  using tblmem.rd_wr [of "(f, k)" hh "(t, j)" m e] assms by (auto simp: table_cells_def)

text \<open>The bytes of a page, seen through the direct map.\<close>

definition page_bytes :: "u64 \<Rightarrow> u64 set" where
  "page_bytes p = {a. a - p < 4096}"

lemma page_bytes_entry:
  assumes "k < 512" and "i < 8"
  shows "entry_addr p (of_nat k) + i \<in> page_bytes p"
proof -
  have "unat (8 * of_nat k + i) = 8 * k + unat i" "unat i < 8"
    using assms by (simp_all add: unat_word_ariths unat_of_nat word_less_nat_alt)
  with assms have "8 * of_nat k + i < 4096" by (simp add: word_less_nat_alt)
  then show ?thesis by (simp add: page_bytes_def entry_addr_def algebra_simps)
qed

lemma page_bytes_disjoint:
  assumes "hh_ok hh" and "valid_frame t" and "valid_frame u" and "t \<noteq> u"
  shows "page_bytes (hh + t) \<inter> page_bytes (hh + u) = {}"
proof (rule ccontr)
  assume "page_bytes (hh + t) \<inter> page_bytes (hh + u) \<noteq> {}"
  then obtain a where a: "a - (hh + t) < 4096" "a - (hh + u) < 4096" by (auto simp: page_bytes_def)
  define i j where "i = unat (a - (hh + t))" and "j = unat (a - (hh + u))"
  have ij: "i < 4096" "j < 4096" using a by (simp_all add: i_def j_def word_less_nat_alt)
  have "unat hh + unat t + i < 2 ^ 64" "unat hh + unat u + j < 2 ^ 64"
    using ij assms by (simp_all add: hh_ok_def valid_frame_def)
  then have "unat ((hh + t) + (a - (hh + t))) = unat hh + unat t + i"
    "unat ((hh + u) + (a - (hh + u))) = unat hh + unat u + j"
    using unat_table_addr [OF assms(1)] assms unat_add_lem [of "hh + t" "a - (hh + t)"]
      unat_add_lem [of "hh + u" "a - (hh + u)"] by (simp_all add: i_def j_def)
  then have "unat t + i = unat u + j" by simp
  then have "unat t = unat u"
    using aligned_parts_eq [of "unat t" "unat u" i j] ij assms by (simp add: valid_frame_def)
  with assms(4) show False by (simp add: word_unat_eq_iff)
qed

lemma store_entry_other:
  assumes "a \<notin> page_bytes p" and "k < 512"
  shows "store64 m (entry_addr p (of_nat k)) e a = m a"
proof (rule store64_other, rule notI)
  assume "a - entry_addr p (of_nat k) < 8"
  from page_bytes_entry [OF assms(2) this, of p] assms(1) show False by simp
qed

lemma memset_page_other: "a \<notin> page_bytes p \<Longrightarrow> memset m p v 0x1000 a = m a"
  by (simp add: memset_apply page_bytes_def)

lemma tbl_memset_page:
  assumes "hh_ok hh" and "valid_frame f" and "valid_frame t" and "j < 512"
  shows "tbl hh (memset m (hh + f) 0 0x1000) t j = (if t = f then 0 else tbl hh m t j)"
proof (cases "t = f")
  case True
  have "load64 (memset m (hh + f) 0 0x1000) (entry_addr (hh + f) (of_nat j)) =
      load64 (\<lambda>_. 0) (entry_addr (hh + f) (of_nat j))"
    using page_bytes_entry [OF assms(4), of _ "hh + f"]
    by (intro load64_cong) (simp add: memset_apply page_bytes_def)
  also have "\<dots> = 0" by (simp add: load64_def)
  finally show ?thesis using True by (simp add: tbl_def)
next
  case False
  have "load64 (memset m (hh + f) 0 0x1000) (entry_addr (hh + t) (of_nat j)) =
      load64 m (entry_addr (hh + t) (of_nat j))"
  proof (rule load64_cong)
    fix i :: u64 assume "i < 8"
    from page_bytes_entry [OF assms(4) this] page_bytes_disjoint [OF assms(1,3,2) False]
    show "memset m (hh + f) 0 0x1000 (entry_addr (hh + t) (of_nat j) + i) =
        m (entry_addr (hh + t) (of_nat j) + i)"
      by (intro memset_page_other) blast
  qed
  with False show ?thesis by (simp add: tbl_def)
qed

end
