(* ===== verification/Paging.thy ===== *)
theory Paging
  imports Table_Memory
begin

text \<open>
  The generic page-table layer \<open>src/src/paging.c\<close> with \<open>include/paging/paging.h\<close>: index
  arithmetic, mapping, unmapping and lookup of 4 KiB pages. A table pointer is its virtual
  address in the direct map; \<open>table->entries[k]\<close> is the 64-bit word at \<open>entry_addr table k\<close>.
  The debug printing of \<open>PagingMapMemory\<close> (switched off by \<open>k_mode.addr_debug\<close>) is omitted.
\<close>

section \<open>Constants and address arithmetic\<close>

definition HIGHER_HALF_MEMORY_OFFSET :: u64 where
  "HIGHER_HALF_MEMORY_OFFSET = 0xFFFF800000000000"

definition HIGHER_HALF_KERNEL_MEMORY_OFFSET :: u64 where
  "HIGHER_HALF_KERNEL_MEMORY_OFFSET = 0xFFFFFFFF80000000"

definition PAGING_FLAG_PRESENT :: u64 where "PAGING_FLAG_PRESENT = push_bit 0 1"
definition PAGING_FLAG_WRITABLE :: u64 where "PAGING_FLAG_WRITABLE = push_bit 1 1"
definition PAGING_FLAG_USER_ACCESSIBLE :: u64 where "PAGING_FLAG_USER_ACCESSIBLE = push_bit 2 1"
definition PAGING_FLAG_LARGER_PAGES :: u64 where "PAGING_FLAG_LARGER_PAGES = push_bit 7 1"
definition PAGING_FLAG_NO_EXECUTE :: u64 where "PAGING_FLAG_NO_EXECUTE = push_bit 63 1"

lemmas paging_flag_defs = PAGING_FLAG_PRESENT_def PAGING_FLAG_WRITABLE_def
  PAGING_FLAG_USER_ACCESSIBLE_def PAGING_FLAG_LARGER_PAGES_def PAGING_FLAG_NO_EXECUTE_def

definition TranslateToHighHalfMemoryAddress :: "u64 \<Rightarrow> u64" where
  "TranslateToHighHalfMemoryAddress physicalAddress = physicalAddress + HIGHER_HALF_MEMORY_OFFSET"

definition TranslateToPhysicalMemoryAddress :: "u64 \<Rightarrow> u64" where
  "TranslateToPhysicalMemoryAddress virtualAddress = virtualAddress - HIGHER_HALF_MEMORY_OFFSET"

definition TranslateToKernelPhysicalMemoryAddress :: "u64 \<Rightarrow> u64" where
  "TranslateToKernelPhysicalMemoryAddress virtualAddress =
     virtualAddress - HIGHER_HALF_KERNEL_MEMORY_OFFSET"

definition TranslateToKernelMemoryAddress :: "u64 \<Rightarrow> u64" where
  "TranslateToKernelMemoryAddress virtualAddress = virtualAddress + HIGHER_HALF_KERNEL_MEMORY_OFFSET"

definition IsHigherHalf :: "u64 \<Rightarrow> bool" where
  "IsHigherHalf physicalAddress \<longleftrightarrow> physicalAddress \<ge> HIGHER_HALF_MEMORY_OFFSET"

definition IsKernelHigherHalf :: "u64 \<Rightarrow> bool" where
  "IsKernelHigherHalf physicalAddress \<longleftrightarrow> physicalAddress \<ge> HIGHER_HALF_KERNEL_MEMORY_OFFSET"

record PageTableOffset =
  p4Offset :: u64
  pdpOffset :: u64
  pdOffset :: u64
  ptOffset :: u64

definition VirtualAddressToOffsets :: "u64 \<Rightarrow> PageTableOffset" where
  "VirtualAddressToOffsets address =
     \<lparr>p4Offset = drop_bit 39 (address AND push_bit 39 0x1FF),
      pdpOffset = drop_bit 30 (address AND push_bit 30 0x1FF),
      pdOffset = drop_bit 21 (address AND push_bit 21 0x1FF),
      ptOffset = drop_bit 12 (address AND push_bit 12 0x1FF)\<rparr>"

definition OffsetToVirtualAddress :: "PageTableOffset \<Rightarrow> u64" where
  "OffsetToVirtualAddress off =
     push_bit 39 (p4Offset off) OR push_bit 30 (pdpOffset off) OR
     push_bit 21 (pdOffset off) OR push_bit 12 (ptOffset off)"

section \<open>Operations\<close>

definition GetOrAllocEntry ::
    "u64 \<Rightarrow> u64 \<Rightarrow> u64 \<Rightarrow> 'a paging_state_scheme \<Rightarrow> (u64 \<times> 'a paging_state_scheme) outcome" where
  "GetOrAllocEntry table offs flags s =
     (let address = load64 (mem s) (entry_addr table offs)
      in if address AND PAGING_FLAG_PRESENT = 0
         then
           bind_outcome (PagingGetFreeFrame s) (\<lambda>(address, s1).
           let s2 = s1\<lparr>mem := store64 (mem s1) (entry_addr table offs) address\<rparr>
           in if address = 0 then Done (0, s2)
              else
                let entry = load64 (mem s2) (entry_addr table offs);
                    s3 = s2\<lparr>mem := store64 (mem s2) (entry_addr table offs)
                                     (entry OR (flags OR PAGING_FLAG_PRESENT))\<rparr>;
                    s4 = s3\<lparr>mem := memset (mem s3) (TranslateToHighHalfMemoryAddress address) 0 0x1000\<rparr>
                in Done (TranslateToHighHalfMemoryAddress (address AND PAGE_ADDRESS_MASK), s4))
         else Done (TranslateToHighHalfMemoryAddress (address AND PAGE_ADDRESS_MASK), s))"

definition GetOrNullifyEntry :: "u64 \<Rightarrow> u64 \<Rightarrow> 'a paging_state_scheme \<Rightarrow> u64" where
  "GetOrNullifyEntry table offs s =
     (let address = load64 (mem s) (entry_addr table offs)
      in if address AND PAGING_FLAG_PRESENT = 0 then 0
         else TranslateToHighHalfMemoryAddress (address AND PAGE_ADDRESS_MASK))"

definition PagingMapMemory ::
    "u64 \<Rightarrow> u64 \<Rightarrow> u64 \<Rightarrow> u64 \<Rightarrow> 'a paging_state_scheme \<Rightarrow> 'a paging_state_scheme outcome" where
  "PagingMapMemory p4 virtualMemory physicalMemory flags s =
     (let higherPermissions = PAGING_FLAG_WRITABLE OR PAGING_FLAG_USER_ACCESSIBLE;
          off = VirtualAddressToOffsets virtualMemory;
          p4Virtual = TranslateToHighHalfMemoryAddress p4
      in
      bind_outcome (GetOrAllocEntry p4Virtual (p4Offset off) higherPermissions s) (\<lambda>(pdp, s1).
      bind_outcome (GetOrAllocEntry pdp (pdpOffset off) higherPermissions s1) (\<lambda>(pd, s2).
      bind_outcome (GetOrAllocEntry pd (pdOffset off) higherPermissions s2) (\<lambda>(pt, s3).
      Done (s3\<lparr>mem := store64 (mem s3) (entry_addr pt (ptOffset off))
                  (physicalMemory OR flags OR PAGING_FLAG_PRESENT)\<rparr>)))))"

definition PagingIdentityMap ::
    "u64 \<Rightarrow> u64 \<Rightarrow> u64 \<Rightarrow> 'a paging_state_scheme \<Rightarrow> 'a paging_state_scheme outcome" where
  "PagingIdentityMap p4 virtualMemory flags s =
     PagingMapMemory p4 virtualMemory virtualMemory flags s"

definition PagingPhysicalMemory :: "u64 \<Rightarrow> u64 \<Rightarrow> 'a paging_state_scheme \<Rightarrow> u64" where
  "PagingPhysicalMemory p4 virtualMemory s =
     (let off = VirtualAddressToOffsets virtualMemory;
          p4Virtual = TranslateToHighHalfMemoryAddress p4;
          pdp = GetOrNullifyEntry p4Virtual (p4Offset off) s
      in if pdp = 0 then 0
         else
           let pd = GetOrNullifyEntry pdp (pdpOffset off) s
           in if pd = 0 then 0
              else
                let pt = GetOrNullifyEntry pd (pdOffset off) s
                in if pt = 0 then 0
                   else load64 (mem s) (entry_addr pt (ptOffset off)) AND NOT PAGE_FLAG_MASK)"

definition PagingUnmapMemory :: "u64 \<Rightarrow> u64 \<Rightarrow> 'a paging_state_scheme \<Rightarrow> 'a paging_state_scheme" where
  "PagingUnmapMemory p4 virtualMemory s =
     (let off = VirtualAddressToOffsets virtualMemory;
          p4Virtual = TranslateToHighHalfMemoryAddress p4;
          pdp = GetOrNullifyEntry p4Virtual (p4Offset off) s
      in if pdp = 0 then s
         else
           let pd = GetOrNullifyEntry pdp (pdpOffset off) s
           in if pd = 0 then s
              else
                let pt = GetOrNullifyEntry pd (pdOffset off) s
                in if pt = 0 then s
                   else s\<lparr>mem := store64 (mem s) (entry_addr pt (ptOffset off)) 0\<rparr>)"

text \<open>
  Duplication of an address space. The level counts down to 0, the copy of a leaf page; the
  loops of the C code over the 512 (256) entries are \<open>for_outcome\<close>.
\<close>

fun DuplicateRecursive ::
    "u64 \<Rightarrow> u64 \<Rightarrow> nat \<Rightarrow> 'a paging_state_scheme \<Rightarrow> (u64 \<times> 'a paging_state_scheme) outcome" where
  "DuplicateRecursive self entry level s =
     (let flags = PAGING_FLAG_PRESENT OR PAGING_FLAG_USER_ACCESSIBLE OR PAGING_FLAG_WRITABLE;
          virt = TranslateToHighHalfMemoryAddress (entry AND NOT PAGE_FLAG_MASK)
      in
      bind_outcome (PagingGetFreeFrame s) (\<lambda>(newPage, s1).
      let newVirtual = TranslateToHighHalfMemoryAddress newPage in
      bind_outcome (PagingMapMemory self newVirtual newPage flags s1) (\<lambda>s2.
      let s3 = s2\<lparr>mem := memset (mem s2) newVirtual 0 0x1000\<rparr> in
      bind_outcome
        (case level of
           0 \<Rightarrow> Done (s3\<lparr>mem := memcpy (mem s3) newVirtual virt 0x1000\<rparr>)
         | Suc l \<Rightarrow>
             for_outcome [0..<512] (\<lambda>i t.
               let e = load64 (mem t) (entry_addr virt (of_nat i))
               in if e AND PAGING_FLAG_PRESENT \<noteq> 0
                  then bind_outcome (DuplicateRecursive self e l t) (\<lambda>(v, t1).
                         Done (t1\<lparr>mem := store64 (mem t1) (entry_addr newVirtual (of_nat i)) v\<rparr>))
                  else Done t) s3)
        (\<lambda>s4. Done (newPage OR (entry AND PAGE_FLAG_MASK), s4)))))"

definition PagingDuplicate :: "u64 \<Rightarrow> u64 \<Rightarrow> 'a paging_state_scheme \<Rightarrow> 'a paging_state_scheme outcome" where
  "PagingDuplicate p4 newTable s =
     (let p4Virtual = TranslateToHighHalfMemoryAddress p4;
          s1 = s\<lparr>mem := memset (mem s) newTable 0 0x1000\<rparr>
      in
      bind_outcome
        (for_outcome [0..<256] (\<lambda>i t.
           let entry = load64 (mem t) (entry_addr p4Virtual (of_nat i))
           in if entry AND PAGING_FLAG_PRESENT \<noteq> 0
              then bind_outcome (DuplicateRecursive p4 entry 3 t) (\<lambda>(v, t1).
                     Done (t1\<lparr>mem := store64 (mem t1) (entry_addr newTable (of_nat i)) v\<rparr>))
              else Done t) s1)
        (\<lambda>s2.
           for_outcome [256..<512] (\<lambda>i t.
             Done (t\<lparr>mem := store64 (mem t) (entry_addr newTable (of_nat i))
                              (load64 (mem t) (entry_addr p4Virtual (of_nat i)))\<rparr>)) s2))"

section \<open>Indices\<close>
lemma bit_int_masks [simp]:
  "bit (0x1FF :: int) n \<longleftrightarrow> n < 9" "bit (0xFFF :: int) n \<longleftrightarrow> n < 12"
  "bit (0x0000FFFFFFFFF000 :: int) n \<longleftrightarrow> 12 \<le> n \<and> n < 48"
  "bit (0x000FFFFFFFFFF000 :: int) n \<longleftrightarrow> 12 \<le> n \<and> n < 52"
proof -
  have "(0x1FF :: int) = mask 9" "(0xFFF :: int) = mask 12"
    "(0x0000FFFFFFFFF000 :: int) = push_bit 12 (mask 36)"
    "(0x000FFFFFFFFFF000 :: int) = push_bit 12 (mask 40)"
    by (simp_all add: mask_eq_exp_minus_1 push_bit_eq_mult)
  note eqs = this
  show "bit (0x1FF :: int) n \<longleftrightarrow> n < 9" "bit (0xFFF :: int) n \<longleftrightarrow> n < 12"
    "bit (0x0000FFFFFFFFF000 :: int) n \<longleftrightarrow> 12 \<le> n \<and> n < 48"
    "bit (0x000FFFFFFFFFF000 :: int) n \<longleftrightarrow> 12 \<le> n \<and> n < 52"
    unfolding eqs bit_push_bit_iff bit_mask_iff by auto
qed

lemma index_field:
  assumes "n + 9 \<le> 64"
  shows "drop_bit n ((a :: u64) AND push_bit n 0x1FF) = take_bit 9 (drop_bit n a)"
  using assms by (intro bit_word_eqI) (auto simp: bit_simps)

lemma unat_index_field: "unat (take_bit 9 (drop_bit n (a :: u64))) = unat a div 2 ^ n mod 512"
  by (subst unsigned_take_bit_eq, subst unat_drop_bit_eq) (simp add: take_bit_eq_mod drop_bit_eq_div)

lemma offsets_bits:
  "VirtualAddressToOffsets va = \<lparr>p4Offset = take_bit 9 (drop_bit 39 va),
     pdpOffset = take_bit 9 (drop_bit 30 va), pdOffset = take_bit 9 (drop_bit 21 va),
     ptOffset = take_bit 9 (drop_bit 12 va)\<rparr>"
proof -
  have "drop_bit 39 (va AND push_bit 39 0x1FF) = take_bit 9 (drop_bit 39 va)"
    "drop_bit 30 (va AND push_bit 30 0x1FF) = take_bit 9 (drop_bit 30 va)"
    "drop_bit 21 (va AND push_bit 21 0x1FF) = take_bit 9 (drop_bit 21 va)"
    "drop_bit 12 (va AND push_bit 12 0x1FF) = take_bit 9 (drop_bit 12 va)"
    by (rule index_field, simp)+
  then show ?thesis unfolding VirtualAddressToOffsets_def by (simp only:)
qed

definition va_path :: "u64 \<Rightarrow> nat list" where
  "va_path va = (let off = VirtualAddressToOffsets va
     in [unat (p4Offset off), unat (pdpOffset off), unat (pdOffset off), unat (ptOffset off)])"

lemma va_path_unat:
  "va_path va = [unat va div 2 ^ 39 mod 512, unat va div 2 ^ 30 mod 512, unat va div 2 ^ 21 mod 512,
     unat va div 2 ^ 12 mod 512]"
  unfolding va_path_def offsets_bits Let_def by (simp only: PageTableOffset.simps unat_index_field)

lemma va_path_ok: "path_ok 4 (va_path va)" "length (va_path va) = 4"
  by (simp_all add: va_path_unat path_ok_def)

lemma offset_join: "OffsetToVirtualAddress (VirtualAddressToOffsets va) = va AND 0x0000FFFFFFFFF000"
proof (rule bit_word_eqI)
  fix n assume "n < LENGTH(64)"
  then have "n < 64" by simp
  then consider "n < 12" | "12 \<le> n" "n < 21" | "21 \<le> n" "n < 30" | "30 \<le> n" "n < 39"
    | "39 \<le> n" "n < 48" | "48 \<le> n" "n < 64" by linarith
  then show "bit (OffsetToVirtualAddress (VirtualAddressToOffsets va)) n =
      bit (va AND 0x0000FFFFFFFFF000) n"
    by cases (auto simp: OffsetToVirtualAddress_def offsets_bits bit_simps)
qed

lemma take_bit_9_small: "unat (x :: u64) < 512 \<Longrightarrow> bit x n \<Longrightarrow> n < 9"
proof -
  assume "unat x < 512" and b: "bit x n"
  then have "take_bit 9 (unat x) = unat x" by (simp add: take_bit_eq_mod)
  then have "take_bit 9 x = x" by (simp only: word_unat_eq_iff unsigned_take_bit_eq)
  then show ?thesis using b by (metis bit_take_bit_iff)
qed

lemma field_eqI:
  assumes "\<And>n. n < 9 \<Longrightarrow> bit x n = bit (y :: u64) n" and "\<And>n. 9 \<le> n \<Longrightarrow> \<not> bit y n"
  shows "take_bit 9 x = y"
proof (rule bit_word_eqI)
  fix n assume "n < LENGTH(64)"
  show "bit (take_bit 9 x) n = bit y n"
    using assms [of n] by (cases "n < 9") (simp_all add: bit_take_bit_iff)
qed

lemma offset_split:
  assumes "unat (p4Offset off) < 512" "unat (pdpOffset off) < 512" "unat (pdOffset off) < 512"
    "unat (ptOffset off) < 512"
  shows "VirtualAddressToOffsets (OffsetToVirtualAddress off) = off"
proof -
  have high: "9 \<le> n \<Longrightarrow> \<not> bit (p4Offset off) n" "9 \<le> n \<Longrightarrow> \<not> bit (pdpOffset off) n"
    "9 \<le> n \<Longrightarrow> \<not> bit (pdOffset off) n" "9 \<le> n \<Longrightarrow> \<not> bit (ptOffset off) n" for n
    using assms [THEN take_bit_9_small, of n] by linarith+
  have "take_bit 9 (drop_bit 39 (OffsetToVirtualAddress off)) = p4Offset off"
    "take_bit 9 (drop_bit 30 (OffsetToVirtualAddress off)) = pdpOffset off"
    "take_bit 9 (drop_bit 21 (OffsetToVirtualAddress off)) = pdOffset off"
    "take_bit 9 (drop_bit 12 (OffsetToVirtualAddress off)) = ptOffset off"
    by (rule field_eqI; simp add: OffsetToVirtualAddress_def bit_simps high)+
  then show ?thesis by (simp add: offsets_bits)
qed

end
