(* ===== verification/Table_Tree.thy ===== *)
theory Table_Tree
  imports Paging
begin

text \<open>
  Page-table trees in memory: the invariant \<open>pt_ok\<close> (a tree of distinct table frames, each
  taken from the frame supplier), the supplier as a \<open>frame_source\<close>, and what the two kinds of
  update do to it: hooking up an empty table, and writing an entry that translates. Both
  mapping layers, \<open>paging.c\<close> and \<open>paging/paging_bootstrap.c\<close>, are verified with these lemmas.
\<close>

section \<open>Entries\<close>
lemma bit_ADDR_MASK: "bit ADDR_MASK n \<longleftrightarrow> 12 \<le> n \<and> n < 52"
  by (auto simp: ADDR_MASK_def)

lemma bit_PAGE_FLAG_MASK: "bit PAGE_FLAG_MASK n \<longleftrightarrow> n < 12 \<or> n = 63"
  unfolding PAGE_FLAG_MASK_def bit_or_iff bit_push_bit_iff by auto

lemma bit_PAGE_ADDRESS_MASK: "bit PAGE_ADDRESS_MASK n \<longleftrightarrow> 12 \<le> n \<and> n < 63"
  by (auto simp: PAGE_ADDRESS_MASK_def bit_simps bit_PAGE_FLAG_MASK)

lemma pte_present_bit: "pte_present e \<longleftrightarrow> bit e 0"
  by (simp add: pte_present_def PTE_P_def and_one_eq bit_0 odd_iff_mod_2_eq_one)

lemma pte_huge_bit: "pte_huge e \<longleftrightarrow> bit e 7"
proof -
  have "(PTE_PS :: u64) = 2 ^ 7" by (simp add: PTE_PS_def)
  then show ?thesis
    by (simp add: pte_huge_def bit_iff_and_push_bit_not_eq_0)
qed

lemma valid_frame_bits:
  assumes "valid_frame t" and "bit t n" shows "12 \<le> n" and "n < 47"
proof -
  from assms(1) have dvd: "2 ^ 12 dvd unat t" and lt: "unat t < 2 ^ 47" by (simp_all add: valid_frame_def)
  show "n < 47"
  proof (rule ccontr)
    assume "\<not> n < 47"
    moreover from lt have "take_bit 47 (unat t) = unat t" by (simp add: take_bit_eq_mod)
    then have "take_bit 47 t = t" by (simp only: word_unat_eq_iff unsigned_take_bit_eq)
    ultimately show False using assms(2) by (metis bit_take_bit_iff)
  qed
  show "12 \<le> n"
  proof (rule ccontr)
    assume "\<not> 12 \<le> n"
    moreover from dvd have "take_bit 12 (unat t) = 0" by (simp add: take_bit_eq_mod)
    then have "take_bit 12 t = 0" by (simp only: word_unat_eq_iff unsigned_take_bit_eq unsigned_0)
    ultimately show False using assms(2) by (metis bit_0_eq bit_take_bit_iff bot_apply bot_bool_def not_le)
  qed
qed

section \<open>The frame supplier\<close>

definition supplier_ok :: "'a paging_state_scheme \<Rightarrow> bool" where
  "supplier_ok s \<longleftrightarrow>
     (case g_boot_phys_page s of
        None \<Rightarrow> False
      | Some supply_from_early \<Rightarrow> early_wf s \<and> unat (g_end s) \<le> 2 ^ 47
      | Some supply_from_frame \<Rightarrow> frame_wf s \<and> frame_limit s \<le> 2 ^ 47 \<and> frame_is_allocated s 0)"

definition supplied :: "'a paging_state_scheme \<Rightarrow> u64 set" where
  "supplied s =
     (case g_boot_phys_page s of
        None \<Rightarrow> {}
      | Some supply_from_early \<Rightarrow> early_pages s
      | Some supply_from_frame \<Rightarrow> {p. frame_is_allocated s p})"

text \<open>The frames the supplier hands out end below this address.\<close>

definition supply_limit :: "'a paging_state_scheme \<Rightarrow> nat" where
  "supply_limit s =
     (case g_boot_phys_page s of
        None \<Rightarrow> 0
      | Some supply_from_early \<Rightarrow> unat (g_end s)
      | Some supply_from_frame \<Rightarrow> frame_limit s)"

lemma supply_limit_bound: "supplier_ok s \<Longrightarrow> supply_limit s \<le> 2 ^ 47"
  by (simp add: supplier_ok_def supply_limit_def split: option.splits phys_page_supplier.splits)

definition frames_left :: "nat \<Rightarrow> 'a paging_state_scheme \<Rightarrow> bool" where
  "frames_left n s \<longleftrightarrow>
     (case g_boot_phys_page s of
        None \<Rightarrow> False
      | Some supply_from_early \<Rightarrow> unat (g_cursor s) + n * 4096 \<le> unat (g_end s)
      | Some supply_from_frame \<Rightarrow> n \<le> g_free_count s)"

text \<open>The only fields the page-table code changes are those of the allocators, and memory; it leaves
  no lock behind.\<close>

definition paging_only :: "'a paging_state_scheme \<Rightarrow> 'a paging_state_scheme \<Rightarrow> bool" where
  "paging_only s s' \<longleftrightarrow> (\<exists>c a n h l m. s' = s\<lparr>g_cursor := c, g_alloc_bm := a, g_free_count := n,
     g_hint := h, g_memlock := l, mem := m\<rparr>) \<and> (g_memlock s' \<longrightarrow> g_memlock s)"

lemma paging_onlyI:
  "(l \<longrightarrow> g_memlock s) \<Longrightarrow>
    paging_only s (s\<lparr>g_cursor := c, g_alloc_bm := a, g_free_count := n, g_hint := h, g_memlock := l, mem := m\<rparr>)"
  unfolding paging_only_def by (simp, blast)

lemma paging_only_early: "paging_only s (s\<lparr>g_cursor := c\<rparr>)"
  using paging_onlyI [where s = s and c = c and a = "g_alloc_bm s" and n = "g_free_count s" and h = "g_hint s"
    and l = "g_memlock s" and m = "mem s"] by simp

lemma paging_only_frame: "paging_only s (take_frame i s)"
  using paging_onlyI [where s = s and c = "g_cursor s" and a = "bm_set (g_alloc_bm s) i" and n = "g_free_count s - 1"
    and h = "i + 1" and l = False and m = "mem s"]
  by (simp add: take_frame_def)

lemma paging_only_mem: "paging_only s (s\<lparr>mem := m\<rparr>)"
  using paging_onlyI [where s = s and c = "g_cursor s" and a = "g_alloc_bm s" and n = "g_free_count s" and h = "g_hint s"
    and l = "g_memlock s" and m = m] by simp

lemma paging_only_refl [simp]: "paging_only s s"
  using paging_only_mem [of s "mem s"] by simp

lemma paging_only_trans: "paging_only s t \<Longrightarrow> paging_only t u \<Longrightarrow> paging_only s u"
  by (auto simp: paging_only_def) blast+

lemma paging_only_fields:
  assumes "paging_only s s'"
  shows "g_hhdm s' = g_hhdm s" "g_pml4_phys s' = g_pml4_phys s" "g_pml4_virt s' = g_pml4_virt s"
    "cr3 s' = cr3 s" "g_boot_phys_page s' = g_boot_phys_page s" "g_base s' = g_base s"
    "g_end s' = g_end s" "g_usable_bm s' = g_usable_bm s" "g_frame_count s' = g_frame_count s"
    "g_max_phys s' = g_max_phys s" "paging_state.more s' = paging_state.more s" "\<not> g_memlock s \<Longrightarrow> \<not> g_memlock s'"
  using assms by (auto simp: paging_only_def)

lemma paging_only_limit: "paging_only s s' \<Longrightarrow> supply_limit s' = supply_limit s"
  using paging_only_fields [of s s'] by (simp add: supply_limit_def frame_limit_def split: option.splits phys_page_supplier.splits)

lemma get_free_frame_same:
  assumes "supplier_ok s" and "PagingGetFreeFrame s = Done (p, s')"
  shows "paging_only s s'" and "mem s' = mem s"
proof -
  have "paging_only s s' \<and> mem s' = mem s"
  proof (cases "g_boot_phys_page s")
    case None
    with assms show ?thesis by (simp add: supplier_ok_def)
  next
    case (Some x)
    show ?thesis
    proof (cases x)
      case supply_from_early
      with Some assms show ?thesis
        by (auto simp: supplier_ok_def PagingGetFreeFrame_def early_alloc_page_Done intro: paging_only_early)
    next
      case supply_from_frame
      with Some assms have "frame_wf s" "frame_alloc s = Done (p, s')"
        by (simp_all add: supplier_ok_def PagingGetFreeFrame_def)
      then obtain i where "s' = take_frame i s" by (elim frame_alloc_DoneD)
      then show ?thesis by (simp add: paging_only_frame) (simp add: take_frame_def)
    qed
  qed
  then show "paging_only s s'" "mem s' = mem s" by simp_all
qed

interpretation supplier: frame_source PagingGetFreeFrame supplier_ok supplied supply_limit
proof unfold_locales
  fix s s' :: "'a paging_state_scheme" and p
  assume ok: "supplier_ok s" and get: "PagingGetFreeFrame s = Done (p, s')"
  note same = get_free_frame_same [OF ok get]
  from ok obtain x where x: "g_boot_phys_page s = Some x" "g_boot_phys_page s' = Some x"
    using paging_only_fields(5) [OF same(1)]
    by (cases "g_boot_phys_page s") (simp_all add: supplier_ok_def)
  have "supplier_ok s' \<and> p \<notin> supplied s \<and> supplied s' = insert p (supplied s) \<and>
      4096 dvd unat p \<and> unat p + 4096 \<le> supply_limit s"
  proof (cases x)
    case supply_from_early
    with x ok get have e: "early_wf s" "unat (g_end s) \<le> 2 ^ 47" "early_alloc_page s = Done (p, s')"
      by (simp_all add: supplier_ok_def PagingGetFreeFrame_def)
    from early.get_facts [OF e(1,3)] e(2) x supply_from_early paging_only_fields(7) [OF same(1)]
    show ?thesis by (simp add: supplier_ok_def supplied_def supply_limit_def)
  next
    case supply_from_frame
    with x ok get have e: "frame_wf s" "frame_limit s \<le> 2 ^ 47" "frame_is_allocated s 0"
      "frame_alloc s = Done (p, s')"
      by (simp_all add: supplier_ok_def PagingGetFreeFrame_def)
    from pmm.get_facts [OF e(1,4)] e(2,3) x supply_from_frame paging_only_fields(9) [OF same(1)]
    show ?thesis by (auto simp: supplier_ok_def supplied_def supply_limit_def frame_limit_def)
  qed
  then show "supplier_ok s'" "p \<notin> supplied s" "supplied s' = insert p (supplied s)"
    "4096 dvd unat p" "unat p + 4096 \<le> supply_limit s" by simp_all
qed

lemma get_free_frame_valid:
  assumes "supplier_ok s" and "PagingGetFreeFrame s = Done (p, s')"
  shows "valid_frame p"
  using supplier.get_facts(4,5) [OF assms] supply_limit_bound [OF assms(1)] by (simp add: valid_frame_def)

lemma get_free_frame_nonzero:
  assumes "supplier_ok s" and "PagingGetFreeFrame s = Done (p, s')"
  shows "p \<noteq> 0"
proof -
  from assms(1) obtain x where x: "g_boot_phys_page s = Some x"
    by (cases "g_boot_phys_page s") (simp_all add: supplier_ok_def)
  show ?thesis
  proof (cases x)
    case supply_from_early
    with x assms have "early_wf s" "early_alloc_page s = Done (p, s')"
      by (simp_all add: supplier_ok_def PagingGetFreeFrame_def)
    then show ?thesis by (auto simp: early_alloc_page_Done early_wf_def)
  next
    case supply_from_frame
    with x assms supplier.get_fresh [OF assms] show ?thesis
      by (auto simp: supplier_ok_def supplied_def)
  qed
qed

lemma get_free_frame_total:
  assumes "supplier_ok s" and "frames_left (Suc n) s"
  obtains p s' where "PagingGetFreeFrame s = Done (p, s')" "frames_left n s'"
proof -
  from assms(1) obtain x where x: "g_boot_phys_page s = Some x"
    by (cases "g_boot_phys_page s") (simp_all add: supplier_ok_def)
  show thesis
  proof (cases x)
    case supply_from_early
    with x assms have wf: "early_wf s" and left: "unat (g_cursor s) + Suc n * 4096 \<le> unat (g_end s)"
      by (simp_all add: supplier_ok_def frames_left_def)
    let ?s = "s\<lparr>g_cursor := g_cursor s + PAGE_SIZE\<rparr>"
    from wf left have "PagingGetFreeFrame s = Done (g_cursor s, ?s)"
      using x supply_from_early by (simp add: PagingGetFreeFrame_def early_alloc_page_Done)
    moreover have "frames_left n ?s"
      using x supply_from_early left early_wf_cursor_next [OF wf] by (simp add: frames_left_def)
    ultimately show thesis by (rule that)
  next
    case supply_from_frame
    with x assms have wf: "frame_wf s" and left: "Suc n \<le> g_free_count s"
      by (simp_all add: supplier_ok_def frames_left_def)
    show thesis
    proof (cases rule: frame_alloc_wf_cases [OF wf])
      case 1
      with left show thesis by simp
    next
      case (2 i)
      then have "PagingGetFreeFrame s = Done (frame_addr_of i, take_frame i s)"
        using x supply_from_frame by (simp add: PagingGetFreeFrame_def)
      moreover have "frames_left n (take_frame i s)"
        using x supply_from_frame left by (simp add: frames_left_def take_frame_def)
      ultimately show thesis by (rule that)
    qed
  qed
qed

section \<open>The tree invariant\<close>

abbreviation ptab :: "'a paging_state_scheme \<Rightarrow> tables" where
  "ptab s \<equiv> tbl HIGHER_HALF_MEMORY_OFFSET (mem s)"

definition table_frames :: "'a paging_state_scheme \<Rightarrow> u64 set" where
  "table_frames s = {t. valid_frame t \<and> t \<in> supplied s \<and> unat t + 4096 \<le> supply_limit s}"

definition plain_entries :: "tables \<Rightarrow> u64 \<Rightarrow> bool" where
  "plain_entries E r \<longleftrightarrow> (\<forall>ks f k g. path_ok 2 ks \<longrightarrow> k < 512 \<longrightarrow> desc E r ks = Some f \<longrightarrow>
     child (E f k) = Some g \<longrightarrow> E f k AND PAGE_ADDRESS_MASK = g)"

lemma plain_entries_iff:
  "plain_entries E r \<longleftrightarrow> table_entries (\<lambda>e. e AND PAGE_ADDRESS_MASK = e AND ADDR_MASK) E r"
  by (fastforce simp: plain_entries_def table_entries_def child_def split: if_splits)

text \<open>The frames that hold the tables of the tree below \<open>r\<close>.\<close>

definition tree_tables :: "tables \<Rightarrow> u64 \<Rightarrow> u64 set" where
  "tree_tables E r = {f. \<exists>ks. path_ok 3 ks \<and> desc E r ks = Some f}"

definition pt_ok :: "'a paging_state_scheme \<Rightarrow> u64 \<Rightarrow> bool" where
  "pt_ok s r \<longleftrightarrow> supplier_ok s \<and> tree_ok (ptab s) r (table_frames s) \<and> plain_entries (ptab s) r"

text \<open>No large page on the way to a 4 KiB translation.\<close>

definition small_path :: "tables \<Rightarrow> u64 \<Rightarrow> nat list \<Rightarrow> bool" where
  "small_path E r P \<longleftrightarrow> (\<forall>e n. resolve E r P = Some (e, n) \<longrightarrow> n = 0)"

text \<open>The step from \<open>s\<close> to \<open>s'\<close> added at most empty tables: no translation changed, tables stay
  where they were, tables keep all rights if they did before, and memory changed in the tables of
  this tree only.\<close>

definition tables_grow :: "u64 \<Rightarrow> 'a paging_state_scheme \<Rightarrow> 'a paging_state_scheme \<Rightarrow> bool" where
  "tables_grow r s s' \<longleftrightarrow> pt_ok s' r \<and> paging_only s s' \<and> supplied s \<subseteq> supplied s' \<and>
     (\<forall>qs. path_ok 4 qs \<longrightarrow> length qs = 4 \<longrightarrow> resolve (ptab s') r qs = resolve (ptab s) r qs) \<and>
     (\<forall>qs h. path_ok 3 qs \<longrightarrow> desc (ptab s) r qs = Some h \<longrightarrow> desc (ptab s') r qs = Some h) \<and>
     (table_entries open_entry (ptab s) r \<longrightarrow> table_entries open_entry (ptab s') r) \<and>
     (\<forall>a. (\<forall>t \<in> tree_tables (ptab s') r. a \<notin> page_bytes (HIGHER_HALF_MEMORY_OFFSET + t)) \<longrightarrow> mem s' a = mem s a)"

lemma hh_ok_offset [simp]: "hh_ok HIGHER_HALF_MEMORY_OFFSET"
  by (simp add: hh_ok_def HIGHER_HALF_MEMORY_OFFSET_def)

lemma Translate_eq: "TranslateToHighHalfMemoryAddress p = HIGHER_HALF_MEMORY_OFFSET + p"
  by (simp add: TranslateToHighHalfMemoryAddress_def)

lemma pte_present_flag: "e AND PAGING_FLAG_PRESENT = 0 \<longleftrightarrow> \<not> pte_present e"
  by (simp add: pte_present_def PTE_P_def PAGING_FLAG_PRESENT_def)

lemma present_flag_eq: "PAGING_FLAG_PRESENT = PTE_P"
  by (simp add: PTE_P_def PAGING_FLAG_PRESENT_def)

definition table_flags :: u64 where
  "table_flags = PAGING_FLAG_WRITABLE OR PAGING_FLAG_USER_ACCESSIBLE"

lemma bit_table_flags: "bit (table_flags OR PTE_P) n \<longleftrightarrow> n < 3"
proof -
  have "table_flags OR PTE_P = mask 3"
    by (simp add: table_flags_def PAGING_FLAG_WRITABLE_def PAGING_FLAG_USER_ACCESSIBLE_def PTE_P_def
        mask_eq_exp_minus_1)
  then show ?thesis by (simp only: bit_mask_iff) auto
qed

lemma table_entry:
  assumes "valid_frame a"
  shows "child (a OR (table_flags OR PTE_P)) = Some a"
    and "(a OR (table_flags OR PTE_P)) AND PAGE_ADDRESS_MASK = a"
    and "open_entry (a OR (table_flags OR PTE_P))"
    and "a AND PAGE_ADDRESS_MASK = a"
proof -
  note bits = valid_frame_bits [OF assms]
  have "(a OR (table_flags OR PTE_P)) AND ADDR_MASK = a"
    by (rule bit_word_eqI) (auto simp: bit_and_iff bit_or_iff [of a] bit_table_flags bit_ADDR_MASK dest: bits)
  moreover have "pte_present (a OR (table_flags OR PTE_P))"
    by (simp add: pte_present_bit bit_or_iff [of a] bit_table_flags)
  moreover have "\<not> bit a 7" using bits(1) [of 7] by auto
  then have "\<not> pte_huge (a OR (table_flags OR PTE_P))"
    by (simp add: pte_huge_bit bit_or_iff [of a] bit_table_flags)
  ultimately show "child (a OR (table_flags OR PTE_P)) = Some a" by (simp add: child_def)
  show "(a OR (table_flags OR PTE_P)) AND PAGE_ADDRESS_MASK = a"
    by (rule bit_word_eqI)
       (auto simp: bit_and_iff bit_or_iff [of a] bit_table_flags bit_PAGE_ADDRESS_MASK dest: bits)
  show "open_entry (a OR (table_flags OR PTE_P))"
    using bits(2) [of 63] by (auto simp: open_entry_def bit_or_iff [of a] bit_table_flags)
  show "a AND PAGE_ADDRESS_MASK = a"
    by (rule bit_word_eqI) (auto simp: bit_and_iff bit_PAGE_ADDRESS_MASK dest: bits)
qed

lemma small_path_entry:
  assumes "small_path E r (ks @ k # rest)" and "desc E r ks = Some f" and "rest \<noteq> []"
  shows "\<not> (pte_present (E f k) \<and> pte_huge (E f k))"
proof -
  have "resolve E r (ks @ k # rest) = resolve E f (k # rest)"
    by (rule resolve_append [OF assms(2)]) simp
  with assms(1,3) show ?thesis by (auto simp: small_path_def Let_def)
qed

lemma tables_grow_refl: "pt_ok s r \<Longrightarrow> tables_grow r s s"
  by (simp add: tables_grow_def)

lemma tables_grow_frames: "tables_grow r s s' \<Longrightarrow> table_frames s \<subseteq> table_frames s'"
  by (auto simp: tables_grow_def table_frames_def paging_only_limit)

lemma tables_grow_tables: "tables_grow r s s' \<Longrightarrow> tree_tables (ptab s) r \<subseteq> tree_tables (ptab s') r"
  unfolding tables_grow_def tree_tables_def by blast

lemma tables_grow_trans:
  assumes "tables_grow r s t" and "tables_grow r t u"
  shows "tables_grow r s u"
proof -
  have "mem u a = mem s a"
    if "\<forall>f \<in> tree_tables (ptab u) r. a \<notin> page_bytes (HIGHER_HALF_MEMORY_OFFSET + f)" for a
  proof -
    have "\<forall>f \<in> tree_tables (ptab t) r. a \<notin> page_bytes (HIGHER_HALF_MEMORY_OFFSET + f)"
      using that tables_grow_tables [OF assms(2)] by blast
    with that assms show ?thesis by (simp add: tables_grow_def)
  qed
  moreover have "paging_only s u"
    using assms by (auto simp: tables_grow_def intro: paging_only_trans)
  moreover have "supplied s \<subseteq> supplied u"
    using assms by (auto simp: tables_grow_def)
  ultimately show ?thesis using assms by (simp add: tables_grow_def)
qed

lemma tables_grow_small_path:
  "tables_grow r s s' \<Longrightarrow> path_ok 4 P \<Longrightarrow> length P = 4 \<Longrightarrow> small_path (ptab s) r P \<Longrightarrow> small_path (ptab s') r P"
  by (simp add: tables_grow_def small_path_def)

lemma pt_okD:
  assumes "pt_ok s r"
  shows "supplier_ok s" "tree_ok (ptab s) r (table_frames s)" "plain_entries (ptab s) r"
  using assms by (simp_all add: pt_ok_def)

lemma pt_ok_table:
  assumes "pt_ok s r" and "path_ok 3 ks" and "desc (ptab s) r ks = Some f"
  shows "f \<in> table_frames s" "valid_frame f"
  using tree_okD(1) [OF pt_okD(2) [OF assms(1)] assms(2,3)] by (simp_all add: table_frames_def)

lemma tree_tables_frames: "pt_ok s r \<Longrightarrow> tree_tables (ptab s) r \<subseteq> table_frames s"
  using pt_ok_table(1) by (auto simp: tree_tables_def)

lemma get_entry_load:
  "load64 (mem s) (entry_addr (TranslateToHighHalfMemoryAddress f) (of_nat k)) = ptab s f k"
  by (simp add: tbl_def Translate_eq)

lemma frame_is_allocated_mem [simp]: "frame_is_allocated (s\<lparr>mem := m\<rparr>) = frame_is_allocated s"
  by (simp add: fun_eq_iff frame_is_allocated_def)

lemma supplier_mem [simp]:
  "supplier_ok (s\<lparr>mem := m\<rparr>) = supplier_ok s" "supplied (s\<lparr>mem := m\<rparr>) = supplied s"
  "frames_left n (s\<lparr>mem := m\<rparr>) = frames_left n s" "supply_limit (s\<lparr>mem := m\<rparr>) = supply_limit s"
  by (simp_all add: supply_limit_def supplier_ok_def supplied_def frames_left_def early_wf_def early_pages_def frame_wf_def
      frame_topology_def free_frames_def frame_limit_def frame_is_allocated_def
      split: option.split phys_page_supplier.split)

text \<open>The table that \<open>GetOrAllocEntry\<close> installs.\<close>
lemma hook_table:
  assumes ok: "pt_ok s r" and f: "desc (ptab s) r ks = Some f" and ks: "path_ok 2 ks" and k: "k < 512"
    and absent: "\<not> pte_present (ptab s f k)" and get: "PagingGetFreeFrame s = Done (a, s1)"
    and s': "s' = s1\<lparr>mem := m'\<rparr>"
    and m': "\<And>t j. valid_frame t \<Longrightarrow> j < 512 \<Longrightarrow> tbl HIGHER_HALF_MEMORY_OFFSET m' t j =
      (if t = a then 0 else if t = f \<and> j = k then e else ptab s1 t j)"
    and elsewhere: "\<And>b. b \<notin> page_bytes (HIGHER_HALF_MEMORY_OFFSET + f) \<Longrightarrow>
      b \<notin> page_bytes (HIGHER_HALF_MEMORY_OFFSET + a) \<Longrightarrow> m' b = mem s1 b"
    and e: "child e = Some a" "e AND PAGE_ADDRESS_MASK = a" "open_entry e"
  shows "tables_grow r s s'" and "desc (ptab s') r (ks @ [k]) = Some a"
proof -
  let ?E = "ptab s" and ?E' = "ptab s'" and ?V = "table_frames s"
  note sok = pt_okD(1) [OF ok] and tree = pt_okD(2) [OF ok]
  note get_facts = supplier.get_facts [OF sok get] and same = get_free_frame_same [OF sok get]
  have f3: "path_ok 3 ks" using ks by (simp add: path_ok_def)
  have va: "valid_frame a" by (rule get_free_frame_valid [OF sok get])
  have vf: "valid_frame f" "f \<in> ?V" using pt_ok_table [OF ok f3 f] by simp_all
  have fresh: "a \<notin> ?V" using get_facts(2) by (simp add: table_frames_def)
  have V': "table_frames s' = insert a ?V"
    using get_facts(3,5) va paging_only_limit [OF same(1)] by (auto simp: table_frames_def s')
  have E': "?E' t j = (if t = a then 0 else if t = f \<and> j = k then e else ?E t j)"
    if "valid_frame t" "j < 512" for t j
    using that m' same(2) by (simp add: s')
  have only: "only_entry ?E ?E' ?V f k"
    using E' fresh by (auto simp: only_entry_def table_frames_def)
  have "f \<noteq> a" using vf fresh by auto
  then have ek: "?E' f k = e" using E' vf k by simp
  have empty: "\<forall>j < 512. ?E' a j = 0" using E' va by simp
  note grow = grow_table [OF tree f ks k only absent _ fresh empty, unfolded ek, OF e(1)]
  show "desc ?E' r (ks @ [k]) = Some a" by (rule grow(2))
  have grown: "table_entries Q ?E' r" if "table_entries Q ?E r" "Q e" for Q
    using grow_table_entries [OF tree f ks k only absent _ fresh empty, unfolded ek, OF e(1)] that by blast
  have "e AND ADDR_MASK = a" using e(1) by (simp add: child_def split: if_splits)
  with grown e(2) pt_okD(3) [OF ok] have plain: "plain_entries ?E' r" by (simp add: plain_entries_iff)
  have "supplier_ok s'" using get_facts(1) by (simp add: s')
  with grow(1) plain V' have "pt_ok s' r" by (simp add: pt_ok_def)
  moreover have "paging_only s s'"
    using paging_only_trans [OF same(1) paging_only_mem] by (simp add: s')
  moreover have "supplied s \<subseteq> supplied s'" using get_facts(3) by (auto simp: s')
  moreover have "mem s' b = mem s b"
    if "\<forall>t \<in> tree_tables ?E' r. b \<notin> page_bytes (HIGHER_HALF_MEMORY_OFFSET + t)" for b
  proof -
    have "path_ok 3 (ks @ [k])" using ks k by (simp add: path_ok_snoc path_ok_def)
    then have "a \<in> tree_tables ?E' r" using grow(2) by (auto simp: tree_tables_def)
    moreover have "f \<in> tree_tables ?E' r"
      using desc_same_table [OF tree f f3 only] f3 by (auto simp: tree_tables_def)
    ultimately show ?thesis using that same(2) elsewhere by (simp add: s')
  qed
  moreover have "desc ?E' r qs = Some h" if "path_ok 3 qs" "desc ?E r qs = Some h" for qs h
    using grow(4) [OF that(1)] grow(5) that(2) by auto
  ultimately show "tables_grow r s s'"
    using grow(3) grown e(3) by (simp add: tables_grow_def)
qed

section \<open>Leaf entries\<close>

text \<open>An entry \<open>e\<close> that translates has been written at path \<open>P\<close>: every address below \<open>P\<close> now
  resolves to it, at the level that the length of the path gives, and no other address is
  affected. Memory changed in table frames only, and for a 4 KiB translation, which drops no table,
  in the tables of this tree only.\<close>

definition leaf_written :: "u64 \<Rightarrow> nat list \<Rightarrow> u64 \<Rightarrow> 'a paging_state_scheme \<Rightarrow> 'a paging_state_scheme \<Rightarrow> bool" where
  "leaf_written r P e s s' \<longleftrightarrow> pt_ok s' r \<and> paging_only s s' \<and> supplied s \<subseteq> supplied s' \<and>
     (\<forall>qs. path_ok 4 qs \<longrightarrow> length qs = 4 \<longrightarrow>
        resolve (ptab s') r qs =
          (if prefix P qs then (if pte_present e then Some (e, 4 - length P) else None)
           else resolve (ptab s) r qs)) \<and>
     (\<forall>qs h. path_ok 3 qs \<longrightarrow> \<not> prefix P qs \<longrightarrow> desc (ptab s) r qs = Some h \<longrightarrow> desc (ptab s') r qs = Some h) \<and>
     (table_entries open_entry (ptab s) r \<longrightarrow> table_entries open_entry (ptab s') r) \<and>
     (length P = 4 \<longrightarrow>
        (\<forall>a. (\<forall>t \<in> tree_tables (ptab s') r. a \<notin> page_bytes (HIGHER_HALF_MEMORY_OFFSET + t)) \<longrightarrow> mem s' a = mem s a)) \<and>
     (\<forall>a. (\<forall>t \<in> table_frames s'. a \<notin> page_bytes (HIGHER_HALF_MEMORY_OFFSET + t)) \<longrightarrow> mem s' a = mem s a)"

lemma leaf_written4:
  assumes "leaf_written r P e s s'" and "length P = 4"
  shows "path_ok 4 qs \<Longrightarrow> length qs = 4 \<Longrightarrow> resolve (ptab s') r qs =
      (if qs = P then (if pte_present e then Some (e, 0) else None) else resolve (ptab s) r qs)"
    and "path_ok 3 qs \<Longrightarrow> desc (ptab s) r qs = Some h \<Longrightarrow> desc (ptab s') r qs = Some h"
proof -
  have "prefix P qs \<longleftrightarrow> qs = P" if "length qs = 4" for qs
    using that assms(2) by (auto elim!: prefixE)
  then show "path_ok 4 qs \<Longrightarrow> length qs = 4 \<Longrightarrow> resolve (ptab s') r qs =
      (if qs = P then (if pte_present e then Some (e, 0) else None) else resolve (ptab s) r qs)"
    using assms by (simp add: leaf_written_def)
  have "\<not> prefix P qs" if "path_ok 3 qs" for qs
    using that assms(2) by (auto simp: path_ok_def dest: prefix_length_le)
  then show "path_ok 3 qs \<Longrightarrow> desc (ptab s) r qs = Some h \<Longrightarrow> desc (ptab s') r qs = Some h"
    using assms(1) by (simp add: leaf_written_def)
qed

lemma write_entry:
  assumes ok: "pt_ok s r" and f: "desc (ptab s) r ks = Some f" and ks: "path_ok 3 ks" and k: "k < 512"
    and leaf: "length ks = 3 \<or> pte_huge e \<or> \<not> pte_present e"
    and s': "s' = s\<lparr>mem := store64 (mem s) (entry_addr (HIGHER_HALF_MEMORY_OFFSET + f) (of_nat k)) e\<rparr>"
  shows "leaf_written r (ks @ [k]) e s s'"
proof -
  let ?E = "ptab s" and ?E' = "ptab s'" and ?V = "table_frames s"
  note tree = pt_okD(2) [OF ok]
  have vf: "valid_frame f" "f \<in> ?V" using pt_ok_table [OF ok ks f] by simp_all
  have E': "?E' t j = (if t = f \<and> j = k then e else ?E t j)" if "valid_frame t" "j < 512" for t j
    using that vf k by (simp add: s' tbl_store)
  have only: "only_entry ?E ?E' ?V f k"
    using E' by (auto simp: only_entry_def table_frames_def)
  have ek: "?E' f k = e" using E' vf k by simp
  have nochild: "length ks = 3 \<or> child (?E' f k) = None" using leaf by (auto simp: ek child_def)
  note wl = write_leaf [OF tree f ks only nochild]
  have V': "table_frames s' = ?V" by (simp add: table_frames_def s')
  note kept = write_leaf_entries [OF tree f ks only nochild]
  have plain: "plain_entries ?E' r" using kept pt_okD(3) [OF ok] by (simp add: plain_entries_iff)
  have "pt_ok s' r" using wl(1) plain V' pt_okD(1) [OF ok] by (simp add: pt_ok_def s')
  moreover have "paging_only s s'" by (simp add: s' paging_only_mem)
  moreover have "resolve ?E' r qs =
      (if prefix (ks @ [k]) qs then (if pte_present e then Some (e, 4 - length (ks @ [k])) else None)
       else resolve ?E r qs)"
    if "path_ok 4 qs" "length qs = 4" for qs
  proof (cases "prefix (ks @ [k]) qs")
    case True
    then obtain rest where "qs = ks @ k # rest" by (auto elim!: prefixE)
    moreover from this that have "4 - length (ks @ [k]) = length rest" by simp
    moreover from calculation that leaf have "pte_huge e \<or> \<not> pte_present e \<or> rest = []" by auto
    ultimately show ?thesis using wl(2) [of rest] ek True by auto
  next
    case False
    then show ?thesis using desc_elsewhere(2) [OF tree f ks only that(1)] False by simp
  qed
  moreover have "mem s' b = mem s b"
    if "\<forall>t \<in> table_frames s'. b \<notin> page_bytes (HIGHER_HALF_MEMORY_OFFSET + t)" for b
    using that V' vf(2) k by (simp add: s' store_entry_other)
  moreover have "mem s' b = mem s b"
    if "\<forall>t \<in> tree_tables ?E' r. b \<notin> page_bytes (HIGHER_HALF_MEMORY_OFFSET + t)" for b
  proof -
    have "f \<in> tree_tables ?E' r"
      using desc_same_table [OF tree f ks only] ks by (auto simp: tree_tables_def)
    then show ?thesis using that k by (simp add: s' store_entry_other)
  qed
  ultimately show ?thesis using wl(3) kept by (simp add: leaf_written_def) (simp add: s')
qed

lemma grow_then_write:
  assumes "tables_grow r s t" and "leaf_written r P e t u"
  shows "leaf_written r P e s u"
proof -
  have sub: "table_frames t \<subseteq> table_frames u"
    using assms(2) by (auto simp: leaf_written_def table_frames_def paging_only_limit)
  have grown: "pt_ok t r" using assms(1) by (simp add: tables_grow_def)
  have "mem u a = mem s a"
    if "\<forall>f \<in> table_frames u. a \<notin> page_bytes (HIGHER_HALF_MEMORY_OFFSET + f)" for a
  proof -
    have "\<forall>f \<in> tree_tables (ptab t) r. a \<notin> page_bytes (HIGHER_HALF_MEMORY_OFFSET + f)"
      using that sub tree_tables_frames [OF grown] by blast
    with that assms show ?thesis by (simp add: tables_grow_def leaf_written_def)
  qed
  moreover have "mem u a = mem s a"
    if "length P = 4" "\<forall>f \<in> tree_tables (ptab u) r. a \<notin> page_bytes (HIGHER_HALF_MEMORY_OFFSET + f)" for a
  proof -
    have "\<forall>f \<in> tree_tables (ptab t) r. a \<notin> page_bytes (HIGHER_HALF_MEMORY_OFFSET + f)"
      using that(2) leaf_written4(2) [OF assms(2) that(1)] by (auto simp: tree_tables_def)
    with that assms show ?thesis by (simp add: tables_grow_def leaf_written_def)
  qed
  moreover have "paging_only s u"
    using assms paging_only_trans unfolding tables_grow_def leaf_written_def by blast
  moreover have "supplied s \<subseteq> supplied u"
    using assms unfolding tables_grow_def leaf_written_def by blast
  ultimately show ?thesis using assms by (simp add: tables_grow_def leaf_written_def)
qed

lemma resolve_snocD:
  "resolve E r (ks @ [k]) = Some (e, 0) \<Longrightarrow> \<exists>f. desc E r ks = Some f \<and> E f k = e \<and> pte_present e"
proof (induction ks arbitrary: r)
  case Nil
  then show ?case by (auto simp: Let_def split: if_splits)
next
  case (Cons j ks)
  then show ?case by (auto simp: Let_def child_def split: if_splits)
qed

lemma load64_zero: "load64 (\<lambda>_. 0) a = 0"
  by (simp add: load64_def)

text \<open>An empty root table in a supplied frame is a well-formed tree.\<close>
lemma empty_tree:
  assumes "supplier_ok s" and "r \<in> table_frames s" and "\<forall>k < 512. ptab s r k = 0"
  shows "pt_ok s r" and "path_ok 4 P \<Longrightarrow> small_path (ptab s) r P" and "table_entries Q (ptab s) r"
proof -
  have none: "child 0 = None" by (simp add: child_def pte_present_def)
  have only: "ks = [] \<and> f = r" if "path_ok n ks" "desc (ptab s) r ks = Some f" for ks f n
    using that assms(3) none by (cases ks) (auto simp: path_ok_def)
  have "tree_ok (ptab s) r (table_frames s)"
    unfolding tree_ok_def using only assms(2) by blast
  moreover show entries: "table_entries Q (ptab s) r" for Q
    using only assms(3) none by (fastforce simp: table_entries_def)
  ultimately show "pt_ok s r" using assms(1) by (simp add: pt_ok_def plain_entries_iff)
  show "path_ok 4 P \<Longrightarrow> small_path (ptab s) r P"
    using assms(3) by (cases P) (auto simp: small_path_def path_ok_def pte_present_def)
qed

end
