(* ===== verification/Paging_Correct.thy ===== *)
theory Paging_Correct
  imports Table_Tree
begin

text \<open>
  Correctness of \<open>paging.c\<close>: mapping, lookup and unmapping of 4 KiB pages, stated with the
  hardware walk \<open>resolve\<close> of the tree.
\<close>

section \<open>Mapping\<close>

text \<open>The table that \<open>GetOrAllocEntry\<close> installs.\<close>
lemma new_table_grow:
  assumes ok: "pt_ok s r" and f: "desc (ptab s) r ks = Some f" and ks: "path_ok 2 ks" and k: "k < 512"
    and absent: "\<not> pte_present (ptab s f k)" and get: "PagingGetFreeFrame s = Done (a, s1)"
    and s': "s' = s1\<lparr>mem := memset (store64 (store64 (mem s1) (entry_addr (HIGHER_HALF_MEMORY_OFFSET + f) (of_nat k)) a)
        (entry_addr (HIGHER_HALF_MEMORY_OFFSET + f) (of_nat k)) (a OR (table_flags OR PTE_P)))
        (HIGHER_HALF_MEMORY_OFFSET + a) 0 0x1000\<rparr>"
  shows "tables_grow r s s'" and "desc (ptab s') r (ks @ [k]) = Some a"
proof -
  have "path_ok 3 ks" using ks by (simp add: path_ok_def)
  then have vf: "valid_frame f" using pt_ok_table [OF ok _ f] by simp
  have va: "valid_frame a" by (rule get_free_frame_valid [OF pt_okD(1) [OF ok] get])
  note hook = hook_table [OF ok f ks k absent get s' _ _ table_entry(1-3) [OF va]]
  show "tables_grow r s s'" "desc (ptab s') r (ks @ [k]) = Some a"
    using va vf k by (auto intro!: hook simp: tbl_memset_page tbl_store memset_page_other store_entry_other)
qed

text \<open>One level of the descent: whether the table was there or not, afterwards it is.\<close>
lemma get_or_alloc_step:
  assumes ok: "pt_ok s r" and f: "desc (ptab s) r ks = Some f" and ks: "path_ok 2 ks" and k: "k < 512"
    and open_entry: "\<not> (pte_present (ptab s f k) \<and> pte_huge (ptab s f k))" and left: "frames_left (Suc n) s"
  obtains g s' where "GetOrAllocEntry (TranslateToHighHalfMemoryAddress f) (of_nat k) table_flags s =
      Done (TranslateToHighHalfMemoryAddress g, s')"
    "tables_grow r s s'" "desc (ptab s') r (ks @ [k]) = Some g" "frames_left n s'"
proof (cases "pte_present (ptab s f k)")
  case True
  with open_entry obtain g where g: "child (ptab s f k) = Some g" by (simp add: child_def)
  then have "desc (ptab s) r (ks @ [k]) = Some g" using f by (simp add: desc_append)
  moreover have "ptab s f k AND PAGE_ADDRESS_MASK = g"
    using pt_okD(3) [OF ok] ks k f g by (simp add: plain_entries_def)
  then have "GetOrAllocEntry (TranslateToHighHalfMemoryAddress f) (of_nat k) table_flags s =
      Done (TranslateToHighHalfMemoryAddress g, s)"
    using True by (simp add: GetOrAllocEntry_def get_entry_load pte_present_flag)
  moreover have "frames_left n s" using left by (auto simp: frames_left_def split: option.splits
      phys_page_supplier.splits)
  ultimately show thesis using that tables_grow_refl [OF ok] by blast
next
  case False
  from get_free_frame_total [OF pt_okD(1) [OF ok] left] obtain a s1 where
    get: "PagingGetFreeFrame s = Done (a, s1)" and left1: "frames_left n s1" by blast
  have va: "valid_frame a" by (rule get_free_frame_valid [OF pt_okD(1) [OF ok] get])
  have nz: "a \<noteq> 0" by (rule get_free_frame_nonzero [OF pt_okD(1) [OF ok] get])
  define s' where "s' = s1\<lparr>mem := memset (store64 (store64 (mem s1)
        (entry_addr (HIGHER_HALF_MEMORY_OFFSET + f) (of_nat k)) a)
        (entry_addr (HIGHER_HALF_MEMORY_OFFSET + f) (of_nat k)) (a OR (table_flags OR PTE_P)))
        (HIGHER_HALF_MEMORY_OFFSET + a) 0 0x1000\<rparr>"
  note grow = new_table_grow [OF ok f ks k False get s'_def]
  have "load64 (mem s) (entry_addr (HIGHER_HALF_MEMORY_OFFSET + f) (of_nat k)) AND PTE_P = 0"
    using False by (simp add: tbl_def pte_present_def)
  then have "GetOrAllocEntry (TranslateToHighHalfMemoryAddress f) (of_nat k) table_flags s =
      Done (TranslateToHighHalfMemoryAddress a, s')"
    using get nz table_entry(4) [OF va]
    by (simp add: GetOrAllocEntry_def present_flag_eq Translate_eq s'_def Let_def)
  moreover have "frames_left n s'" using left1 by (simp add: s'_def)
  ultimately show thesis using that grow by blast
qed

lemma va_path_offsets:
  obtains i4 i3 i2 i1 where "va_path va = [i4, i3, i2, i1]"
    "p4Offset (VirtualAddressToOffsets va) = of_nat i4" "pdpOffset (VirtualAddressToOffsets va) = of_nat i3"
    "pdOffset (VirtualAddressToOffsets va) = of_nat i2" "ptOffset (VirtualAddressToOffsets va) = of_nat i1"
    "i4 < 512" "i3 < 512" "i2 < 512" "i1 < 512"
proof -
  let ?o = "VirtualAddressToOffsets va"
  have "va_path va = [unat (p4Offset ?o), unat (pdpOffset ?o), unat (pdOffset ?o), unat (ptOffset ?o)]"
    by (simp add: va_path_def Let_def)
  moreover from this va_path_ok(1) [of va]
  have "unat (p4Offset ?o) < 512" "unat (pdpOffset ?o) < 512" "unat (pdOffset ?o) < 512"
    "unat (ptOffset ?o) < 512" by (simp_all add: path_ok_def)
  ultimately show thesis
    using that [of "unat (p4Offset ?o)" "unat (pdpOffset ?o)" "unat (pdOffset ?o)" "unat (ptOffset ?o)"]
    by simp
qed

lemma PagingMapMemory_run:
  assumes ok: "pt_ok s r" and small: "small_path (ptab s) r (va_path va)" and left: "frames_left (n + 3) s"
  obtains s' where "PagingMapMemory r va pa flags s = Done s'"
    "leaf_written r (va_path va) (pa OR flags OR PTE_P) s s'" "frames_left n s'"
proof -
  obtain i4 i3 i2 i1 where P: "va_path va = [i4, i3, i2, i1]"
    and off: "p4Offset (VirtualAddressToOffsets va) = of_nat i4"
      "pdpOffset (VirtualAddressToOffsets va) = of_nat i3"
      "pdOffset (VirtualAddressToOffsets va) = of_nat i2" "ptOffset (VirtualAddressToOffsets va) = of_nat i1"
    and i: "i4 < 512" "i3 < 512" "i2 < 512" "i1 < 512" by (rule va_path_offsets)
  note vp = va_path_ok [of va]
  have left': "frames_left (Suc (Suc (Suc n))) s" using left by (simp add: numeral_3_eq_3)
  have "\<not> (pte_present (ptab s r i4) \<and> pte_huge (ptab s r i4))"
    using small_path_entry [of "ptab s" r "[]" i4 "[i3, i2, i1]" r] small P by simp
  from get_or_alloc_step [OF ok _ _ i(1) this left', of "[]"] obtain g1 s1 where
    r1: "GetOrAllocEntry (TranslateToHighHalfMemoryAddress r) (of_nat i4) table_flags s =
      Done (TranslateToHighHalfMemoryAddress g1, s1)" and
    t1: "tables_grow r s s1" "desc (ptab s1) r [i4] = Some g1" "frames_left (Suc (Suc n)) s1"
    by (auto simp: path_ok_def)
  have ok1: "pt_ok s1 r" using t1(1) by (simp add: tables_grow_def)
  have small1: "small_path (ptab s1) r [i4, i3, i2, i1]"
    using tables_grow_small_path [OF t1(1) vp small] P by simp
  have "\<not> (pte_present (ptab s1 g1 i3) \<and> pte_huge (ptab s1 g1 i3))"
    using small_path_entry [of "ptab s1" r "[i4]" i3 "[i2, i1]" g1] small1 t1 by simp
  from get_or_alloc_step [OF ok1 t1(2) _ i(2) this t1(3)] i obtain g2 s2 where
    r2: "GetOrAllocEntry (TranslateToHighHalfMemoryAddress g1) (of_nat i3) table_flags s1 =
      Done (TranslateToHighHalfMemoryAddress g2, s2)" and
    t2: "tables_grow r s1 s2" "desc (ptab s2) r [i4, i3] = Some g2" "frames_left (Suc n) s2"
    by (auto simp: path_ok_def)
  have ok2: "pt_ok s2 r" using t2(1) by (simp add: tables_grow_def)
  have small2: "small_path (ptab s2) r [i4, i3, i2, i1]"
    using tables_grow_small_path [OF t2(1) vp] small1 P by simp
  have "\<not> (pte_present (ptab s2 g2 i2) \<and> pte_huge (ptab s2 g2 i2))"
    using small_path_entry [of "ptab s2" r "[i4, i3]" i2 "[i1]" g2] small2 t2 by simp
  from get_or_alloc_step [OF ok2 t2(2) _ i(3) this t2(3)] i obtain g3 s3 where
    r3: "GetOrAllocEntry (TranslateToHighHalfMemoryAddress g2) (of_nat i2) table_flags s2 =
      Done (TranslateToHighHalfMemoryAddress g3, s3)" and
    t3: "tables_grow r s2 s3" "desc (ptab s3) r [i4, i3, i2] = Some g3" "frames_left n s3"
    by (auto simp: path_ok_def)
  have ok3: "pt_ok s3 r" using t3(1) by (simp add: tables_grow_def)
  define s' where "s' = s3\<lparr>mem := store64 (mem s3) (entry_addr (HIGHER_HALF_MEMORY_OFFSET + g3) (of_nat i1))
      (pa OR flags OR PTE_P)\<rparr>"
  have "leaf_written r (va_path va) (pa OR flags OR PTE_P) s3 s'"
    using write_entry [OF ok3 t3(2) _ i(4) _ s'_def] i by (simp add: P path_ok_def)
  then have "leaf_written r (va_path va) (pa OR flags OR PTE_P) s s'"
    by (rule grow_then_write [OF tables_grow_trans [OF tables_grow_trans [OF t1(1) t2(1)] t3(1)]])
  moreover have "PagingMapMemory r va pa flags s = Done s'"
    using r1 r2 r3 by (simp add: PagingMapMemory_def off table_flags_def [symmetric] s'_def
        present_flag_eq Translate_eq Let_def)
  moreover have "frames_left n s'" using t3(3) by (simp add: s'_def)
  ultimately show thesis using that by blast
qed

section \<open>Lookup and unmapping\<close>
lemma Translate_nonzero: "valid_frame g \<Longrightarrow> TranslateToHighHalfMemoryAddress g \<noteq> 0"
  using unat_table_addr [OF hh_ok_offset, of g]
  by (auto simp: Translate_eq HIGHER_HALF_MEMORY_OFFSET_def)

lemma nullify_entry:
  assumes ok: "pt_ok s r" and f: "desc (ptab s) r ks = Some f" and ks: "path_ok 2 ks" and k: "k < 512"
    and open_entry: "\<not> (pte_present (ptab s f k) \<and> pte_huge (ptab s f k))"
  shows "GetOrNullifyEntry (TranslateToHighHalfMemoryAddress f) (of_nat k) s =
    (case desc (ptab s) r (ks @ [k]) of None \<Rightarrow> 0 | Some g \<Rightarrow> TranslateToHighHalfMemoryAddress g)"
    and "desc (ptab s) r (ks @ [k]) = Some g \<Longrightarrow> TranslateToHighHalfMemoryAddress g \<noteq> 0"
proof -
  have d: "desc (ptab s) r (ks @ [k]) = child (ptab s f k)"
    using f by (auto simp: desc_append split: option.split)
  have "ptab s f k AND PAGE_ADDRESS_MASK = g" if "child (ptab s f k) = Some g" for g
    using pt_okD(3) [OF ok] ks k f that by (simp add: plain_entries_def)
  then show "GetOrNullifyEntry (TranslateToHighHalfMemoryAddress f) (of_nat k) s =
    (case desc (ptab s) r (ks @ [k]) of None \<Rightarrow> 0 | Some g \<Rightarrow> TranslateToHighHalfMemoryAddress g)"
    unfolding d using open_entry
    by (auto simp: GetOrNullifyEntry_def get_entry_load pte_present_flag child_def split: option.split)
  assume g: "desc (ptab s) r (ks @ [k]) = Some g"
  have "path_ok 3 (ks @ [k])" using ks k by (auto simp: path_ok_def)
  from pt_ok_table(2) [OF ok this g] show "TranslateToHighHalfMemoryAddress g \<noteq> 0"
    by (rule Translate_nonzero)
qed

text \<open>The leaf table of an address, as the three guarded lookups of the code find it.\<close>

definition leaf_table :: "u64 \<Rightarrow> u64 \<Rightarrow> 'a paging_state_scheme \<Rightarrow> u64" where
  "leaf_table p4 va s =
     (let off = VirtualAddressToOffsets va;
          pdp = GetOrNullifyEntry (TranslateToHighHalfMemoryAddress p4) (p4Offset off) s
      in if pdp = 0 then 0
         else let pd = GetOrNullifyEntry pdp (pdpOffset off) s
              in if pd = 0 then 0 else GetOrNullifyEntry pd (pdOffset off) s)"

lemma leaf_table_uses:
  "PagingPhysicalMemory p4 va s =
     (if leaf_table p4 va s = 0 then 0
      else load64 (mem s) (entry_addr (leaf_table p4 va s) (ptOffset (VirtualAddressToOffsets va)))
        AND NOT PAGE_FLAG_MASK)"
  "PagingUnmapMemory p4 va s =
     (if leaf_table p4 va s = 0 then s
      else s\<lparr>mem := store64 (mem s)
        (entry_addr (leaf_table p4 va s) (ptOffset (VirtualAddressToOffsets va))) 0\<rparr>)"
  by (simp_all add: PagingPhysicalMemory_def PagingUnmapMemory_def leaf_table_def Let_def)

lemma leaf_table_desc:
  assumes ok: "pt_ok s r" and small: "small_path (ptab s) r (va_path va)"
  shows "leaf_table r va s =
      (case desc (ptab s) r (butlast (va_path va)) of None \<Rightarrow> 0 | Some g \<Rightarrow> TranslateToHighHalfMemoryAddress g)"
    and "desc (ptab s) r (butlast (va_path va)) = Some g \<Longrightarrow> TranslateToHighHalfMemoryAddress g \<noteq> 0"
proof -
  obtain i4 i3 i2 i1 where P: "va_path va = [i4, i3, i2, i1]"
    and off: "p4Offset (VirtualAddressToOffsets va) = of_nat i4"
      "pdpOffset (VirtualAddressToOffsets va) = of_nat i3"
      "pdOffset (VirtualAddressToOffsets va) = of_nat i2" "ptOffset (VirtualAddressToOffsets va) = of_nat i1"
    and i: "i4 < 512" "i3 < 512" "i2 < 512" "i1 < 512" by (rule va_path_offsets)
  have o1: "\<not> (pte_present (ptab s r i4) \<and> pte_huge (ptab s r i4))"
    using small_path_entry [of "ptab s" r "[]" i4 "[i3, i2, i1]" r] small P by simp
  have o2: "\<not> (pte_present (ptab s g i3) \<and> pte_huge (ptab s g i3))" if "desc (ptab s) r [i4] = Some g" for g
    using small_path_entry [of "ptab s" r "[i4]" i3 "[i2, i1]" g] small P that by simp
  have o3: "\<not> (pte_present (ptab s g i2) \<and> pte_huge (ptab s g i2))" if "desc (ptab s) r [i4, i3] = Some g" for g
    using small_path_entry [of "ptab s" r "[i4, i3]" i2 "[i1]" g] small P that by simp
  have p: "path_ok 2 []" "path_ok 2 [i4]" "path_ok 2 [i4, i3]" using i by (simp_all add: path_ok_def)
  have d: "desc (ptab s) r [] = Some r" by simp
  note n1 = nullify_entry [OF ok d p(1) i(1) o1, unfolded append_Nil]
  have d0: "desc (ptab s) r [i4] = None \<Longrightarrow> desc (ptab s) r [i4, i3, i2] = None"
    "desc (ptab s) r [i4, i3] = None \<Longrightarrow> desc (ptab s) r [i4, i3, i2] = None"
    by (auto split: option.splits)
  have "leaf_table r va s =
      (case desc (ptab s) r [i4, i3, i2] of None \<Rightarrow> 0 | Some g \<Rightarrow> TranslateToHighHalfMemoryAddress g)"
  proof (cases "desc (ptab s) r [i4]")
    case None
    then show ?thesis using n1(1) d0 by (simp add: leaf_table_def off del: desc.simps)
  next
    case g1: (Some g1)
    note n2 = nullify_entry [OF ok g1 p(2) i(2) o2 [OF g1], unfolded append_Cons append_Nil]
    show ?thesis
    proof (cases "desc (ptab s) r [i4, i3]")
      case None
      then show ?thesis
        using g1 n1 n2(1) d0 by (simp add: leaf_table_def off del: desc.simps)
    next
      case (Some g2)
      note n3 = nullify_entry [OF ok Some p(3) i(3) o3 [OF Some], unfolded append_Cons append_Nil]
      show ?thesis
        using Some g1 n1 n2 n3(1)
        by (simp add: leaf_table_def off del: desc.simps)
    qed
  qed
  then show "leaf_table r va s =
      (case desc (ptab s) r (butlast (va_path va)) of None \<Rightarrow> 0 | Some g \<Rightarrow> TranslateToHighHalfMemoryAddress g)"
    by (simp add: P del: desc.simps)
  have "path_ok 3 [i4, i3, i2]" using i by (simp add: path_ok_def)
  then show "TranslateToHighHalfMemoryAddress g \<noteq> 0" if "desc (ptab s) r (butlast (va_path va)) = Some g"
    using pt_ok_table(2) [OF ok _ that] Translate_nonzero P by simp
qed

lemma PagingPhysicalMemory_resolve:
  assumes ok: "pt_ok s r" and res: "resolve (ptab s) r (va_path va) = Some (e, 0)"
  shows "PagingPhysicalMemory r va s = e AND NOT PAGE_FLAG_MASK"
proof -
  obtain i4 i3 i2 i1 where P: "va_path va = [i4, i3, i2, i1]"
    and off: "ptOffset (VirtualAddressToOffsets va) = of_nat i1" by (rule va_path_offsets)
  have small: "small_path (ptab s) r (va_path va)" using res by (simp add: small_path_def)
  from resolve_snocD [of "ptab s" r "[i4, i3, i2]" i1 e] res P obtain f where
    f: "desc (ptab s) r (butlast (va_path va)) = Some f" "ptab s f i1 = e" by auto
  from f leaf_table_desc [OF ok small] have "leaf_table r va s = TranslateToHighHalfMemoryAddress f"
    "leaf_table r va s \<noteq> 0" by simp_all
  with f(2) off show ?thesis by (simp add: leaf_table_uses get_entry_load)
qed

lemma PagingUnmapMemory_run:
  assumes ok: "pt_ok s r" and small: "small_path (ptab s) r (va_path va)"
  shows "leaf_written r (va_path va) 0 s (PagingUnmapMemory r va s)"
proof -
  obtain i4 i3 i2 i1 where P: "va_path va = [i4, i3, i2, i1]"
    and off: "ptOffset (VirtualAddressToOffsets va) = of_nat i1"
    and i: "i4 < 512" "i3 < 512" "i2 < 512" "i1 < 512" by (rule va_path_offsets)
  have p3: "path_ok 3 [i4, i3, i2]" using i by (simp add: path_ok_def)
  show ?thesis
  proof (cases "desc (ptab s) r [i4, i3, i2]")
    case None
    then have "PagingUnmapMemory r va s = s"
      using leaf_table_desc(1) [OF ok small] by (simp add: leaf_table_uses P del: desc.simps)
    moreover have "resolve (ptab s) r (va_path va) = None"
    proof (rule ccontr)
      assume "resolve (ptab s) r (va_path va) \<noteq> None"
      then obtain e where "resolve (ptab s) r ([i4, i3, i2] @ [i1]) = Some (e, 0)"
        using small P by (auto simp: small_path_def)
      from resolve_snocD [OF this] None show False by simp
    qed
    moreover have "prefix (va_path va) qs \<longleftrightarrow> qs = va_path va" if "length qs = 4" for qs
      using that va_path_ok(2) [of va] by (auto elim!: prefixE)
    ultimately show ?thesis
      using ok by (auto simp: leaf_written_def pte_present_def)
  next
    case (Some f)
    then have "PagingUnmapMemory r va s =
        s\<lparr>mem := store64 (mem s) (entry_addr (HIGHER_HALF_MEMORY_OFFSET + f) (of_nat i1)) 0\<rparr>"
      using leaf_table_desc [OF ok small] P off
      by (simp add: leaf_table_uses Translate_eq del: desc.simps)
    from write_entry [OF ok Some p3 i(4) _ this] show ?thesis by (simp add: P)
  qed
qed

lemma flags_masked:
  assumes "pa AND PAGE_ADDRESS_MASK = pa" and "flags AND PAGE_ADDRESS_MASK = 0"
  shows "(pa OR flags OR PTE_P) AND NOT PAGE_FLAG_MASK = pa"
proof -
  have eq: "NOT PAGE_FLAG_MASK = PAGE_ADDRESS_MASK" by (simp add: PAGE_ADDRESS_MASK_def)
  have "PTE_P AND PAGE_ADDRESS_MASK = 0"
    by (rule bit_word_eqI) (auto simp: PTE_P_def bit_simps bit_PAGE_ADDRESS_MASK)
  with assms show ?thesis by (simp add: eq bit.conj_disj_distrib2)
qed

lemma pte_present_or: "pte_present (x OR PTE_P)"
  by (simp add: pte_present_bit bit_or_iff) (simp add: PTE_P_def)

section \<open>Properties\<close>

text \<open>C12: Mapping a page works and disturbs nothing. In a well-formed tree, for an address with no
  large page on its path and with three frames available, \<open>PagingMapMemory\<close> returns; the
  hardware walk of the address then ends in exactly the entry written, the walk of every other
  page is what it was before, \<open>PagingPhysicalMemory\<close> answers the physical page just mapped, the
  tree stays well formed, and memory has changed only inside the tables of this tree, so neither
  the page just mapped nor any other frame is touched unless it is itself a table of the tree.\<close>
theorem PagingMapMemory_correct:
  assumes "pt_ok s r" and "small_path (ptab s) r (va_path va)" and "frames_left (n + 3) s"
    and "pa AND PAGE_ADDRESS_MASK = pa" and "flags AND PAGE_ADDRESS_MASK = 0"
  shows "\<exists>s'. PagingMapMemory r va pa flags s = Done s' \<and> pt_ok s' r \<and> frames_left n s' \<and>
    resolve (ptab s') r (va_path va) = Some (pa OR flags OR PTE_P, 0) \<and>
    (\<forall>va'. va_path va' \<noteq> va_path va \<longrightarrow>
       resolve (ptab s') r (va_path va') = resolve (ptab s) r (va_path va')) \<and>
    PagingPhysicalMemory r va s' = pa \<and> paging_only s s' \<and>
    (\<forall>a. (\<forall>t \<in> tree_tables (ptab s') r. a \<notin> page_bytes (HIGHER_HALF_MEMORY_OFFSET + t)) \<longrightarrow> mem s' a = mem s a)"
proof -
  from PagingMapMemory_run [OF assms(1-3)] obtain s' where
    run: "PagingMapMemory r va pa flags s = Done s'" and
    leaf: "leaf_written r (va_path va) (pa OR flags OR PTE_P) s s'" and left: "frames_left n s'" .
  have pres: "pte_present (pa OR flags OR PTE_P)"
    using pte_present_or [of "pa OR flags"] by (simp add: or.assoc)
  note lw = leaf_written4 [OF leaf va_path_ok(2)]
  have res: "resolve (ptab s') r (va_path va) = Some (pa OR flags OR PTE_P, 0)"
    using lw(1) [OF va_path_ok] pres by simp
  have "pt_ok s' r" using leaf by (simp add: leaf_written_def)
  from PagingPhysicalMemory_resolve [OF this res] flags_masked [OF assms(4,5)]
  have "PagingPhysicalMemory r va s' = pa" by simp
  moreover have "\<forall>va'. va_path va' \<noteq> va_path va \<longrightarrow>
      resolve (ptab s') r (va_path va') = resolve (ptab s) r (va_path va')"
    using lw(1) [OF va_path_ok] by simp
  ultimately show ?thesis using run left res leaf va_path_ok(2) [of va] unfolding leaf_written_def by blast
qed

definition wit_pt :: paging_state where
  "wit_pt = \<lparr>g_base = 0x1000, g_cursor = 0x2000, g_end = 0x10000, g_region_forced = False,
     g_alloc_bm = [], g_usable_bm = [], g_alloc_at = 0, g_usable_at = 0,
     g_frame_count = 0, g_max_phys = 0, g_free_count = 0, g_hint = 0, g_memlock = False,
     mem = (\<lambda>_. 0), g_hhdm = HIGHER_HALF_MEMORY_OFFSET, g_pml4_phys = 0x1000, g_pml4_virt = 0,
     cr3 = 0x1000, g_boot_phys_page = Some supply_from_early\<rparr>"

lemma wit_pt_ok: "pt_ok wit_pt 0x1000" "small_path (ptab wit_pt) 0x1000 (va_path va)"
  "frames_left (0 + 3) wit_pt"
proof -
  have sok: "supplier_ok wit_pt" by (simp add: supplier_ok_def wit_pt_def early_wf_def)
  have r: "0x1000 \<in> table_frames wit_pt"
    by (simp add: table_frames_def valid_frame_def supplied_def supply_limit_def wit_pt_def early_pages_def)
  have z: "\<forall>k < 512. ptab wit_pt 0x1000 k = 0" by (simp add: tbl_def wit_pt_def load64_zero)
  show "pt_ok wit_pt 0x1000" by (rule empty_tree(1) [OF sok r z])
  show "small_path (ptab wit_pt) 0x1000 (va_path va)"
    by (rule empty_tree(2) [OF sok r z va_path_ok(1)])
  show "frames_left (0 + 3) wit_pt" by (simp add: frames_left_def wit_pt_def)
qed

theorem PagingMapMemory_correct_witness:
  "\<exists>s'. PagingMapMemory 0x1000 0xFFFF900000000000 0x5000 PTE_W wit_pt = Done s' \<and>
    PagingPhysicalMemory 0x1000 0xFFFF900000000000 s' = 0x5000"
proof -
  have "(0x5000 :: u64) AND PAGE_ADDRESS_MASK = 0x5000" "PTE_W AND PAGE_ADDRESS_MASK = 0"
    by (simp_all add: PAGE_ADDRESS_MASK_def PAGE_FLAG_MASK_def PTE_W_def)
  from PagingMapMemory_correct [OF wit_pt_ok this] show ?thesis by blast
qed

text \<open>C19: \<open>PagingUnmapMemory\<close> makes the walk of its address fail and leaves the walk of every other
  page as it was, whether or not the address was mapped; the tree stays well formed, no frame is
  taken or released, and memory changes only in the tables of the tree. The address must not lie
  under a 2 MiB or 1 GiB page: there the three lookups take the large page for a table and the
  code clears eight bytes of the mapped memory instead.\<close>
theorem PagingUnmapMemory_correct:
  assumes "pt_ok s r" and "small_path (ptab s) r (va_path va)"
  shows "let s' = PagingUnmapMemory r va s in
    pt_ok s' r \<and> resolve (ptab s') r (va_path va) = None \<and>
    (\<forall>va'. va_path va' \<noteq> va_path va \<longrightarrow>
       resolve (ptab s') r (va_path va') = resolve (ptab s) r (va_path va')) \<and>
    PagingPhysicalMemory r va s' = 0 \<and> supplied s' = supplied s \<and> paging_only s s' \<and>
    (\<forall>a. (\<forall>t \<in> tree_tables (ptab s') r. a \<notin> page_bytes (HIGHER_HALF_MEMORY_OFFSET + t)) \<longrightarrow> mem s' a = mem s a)"
proof -
  let ?s = "PagingUnmapMemory r va s"
  have leaf: "leaf_written r (va_path va) 0 s ?s" by (rule PagingUnmapMemory_run [OF assms])
  have none: "resolve (ptab ?s) r (va_path va) = None"
    using leaf va_path_ok by (simp add: leaf_written_def pte_present_def)
  have ok: "pt_ok ?s r" using leaf by (simp add: leaf_written_def)
  have small: "small_path (ptab ?s) r (va_path va)" using none by (simp add: small_path_def)
  obtain i4 i3 i2 i1 where P: "va_path va = [i4, i3, i2, i1]"
    and off: "ptOffset (VirtualAddressToOffsets va) = of_nat i1"
    and i: "i4 < 512" "i3 < 512" "i2 < 512" "i1 < 512" by (rule va_path_offsets)
  have p3: "path_ok 3 (butlast (va_path va))" using i P by (simp add: path_ok_def)
  have "PagingPhysicalMemory r va ?s = 0"
  proof (cases "desc (ptab s) r (butlast (va_path va))")
    case None
    with leaf_table_desc(1) [OF assms] show ?thesis by (simp add: leaf_table_uses)
  next
    case (Some f)
    with leaf_written4(2) [OF leaf va_path_ok(2) p3]
    have "desc (ptab ?s) r (butlast (va_path va)) = Some f" by simp
    with leaf_table_desc [OF ok small] leaf_table_desc [OF assms] Some
    have "leaf_table r va ?s = leaf_table r va s" "leaf_table r va s \<noteq> 0" by simp_all
    then show ?thesis by (simp add: leaf_table_uses(1) [of r va ?s]) (simp add: leaf_table_uses(2))
  qed
  moreover have "\<forall>va'. va_path va' \<noteq> va_path va \<longrightarrow>
      resolve (ptab ?s) r (va_path va') = resolve (ptab s) r (va_path va')"
    using leaf_written4(1) [OF leaf va_path_ok(2) va_path_ok] by simp
  moreover have "supplied ?s = supplied s" by (simp add: leaf_table_uses(2))
  ultimately show ?thesis
    using none ok leaf va_path_ok(2) [of va] by (simp add: Let_def leaf_written_def)
qed

theorem PagingUnmapMemory_correct_witness:
  "\<exists>s. PagingMapMemory 0x1000 0xFFFF900000000000 0x5000 PTE_W wit_pt = Done s \<and>
    resolve (ptab s) 0x1000 (va_path 0xFFFF900000000000) = Some (0x5000 OR PTE_W OR PTE_P, 0) \<and>
    resolve (ptab (PagingUnmapMemory 0x1000 0xFFFF900000000000 s)) 0x1000 (va_path 0xFFFF900000000000) = None"
proof -
  let ?va = "0xFFFF900000000000 :: u64" and ?e = "0x5000 OR PTE_W OR PTE_P"
  obtain s where run: "PagingMapMemory 0x1000 ?va 0x5000 PTE_W wit_pt = Done s"
    and leaf: "leaf_written 0x1000 (va_path ?va) ?e wit_pt s"
    by (rule PagingMapMemory_run [OF wit_pt_ok])
  have "pte_present ?e" using pte_present_or [of "0x5000 OR PTE_W"] by (simp add: or.assoc)
  with leaf_written4(1) [OF leaf va_path_ok(2) va_path_ok]
  have res: "resolve (ptab s) 0x1000 (va_path ?va) = Some (?e, 0)" by simp
  then have "small_path (ptab s) 0x1000 (va_path ?va)" by (simp add: small_path_def)
  moreover have "pt_ok s 0x1000" using leaf by (simp add: leaf_written_def)
  ultimately show ?thesis using PagingUnmapMemory_correct run res unfolding Let_def by blast
qed

text \<open>Splitting an address into table indices and putting them together again gives the
  address without its page offset and without its 16 sign-extension bits, and four indices
  below 512 survive the trip in the other direction.\<close>
theorem page_table_offsets_roundtrip:
  "OffsetToVirtualAddress (VirtualAddressToOffsets va) = va AND 0x0000FFFFFFFFF000 \<and>
   (unat (p4Offset off) < 512 \<and> unat (pdpOffset off) < 512 \<and> unat (pdOffset off) < 512 \<and>
      unat (ptOffset off) < 512 \<longrightarrow>
    VirtualAddressToOffsets (OffsetToVirtualAddress off) = off)"
  using offset_join offset_split by blast

theorem page_table_offsets_roundtrip_witness:
  "VirtualAddressToOffsets (OffsetToVirtualAddress
     \<lparr>p4Offset = 288, pdpOffset = 1, pdOffset = 2, ptOffset = 511\<rparr>) =
   \<lparr>p4Offset = 288, pdpOffset = 1, pdOffset = 2, ptOffset = 511\<rparr>"
  using page_table_offsets_roundtrip [of 0 "\<lparr>p4Offset = 288, pdpOffset = 1, pdOffset = 2, ptOffset = 511\<rparr>"]
  by simp

text \<open>C24: With no frame supplier installed \<open>GetOrAllocEntry\<close> returns the null pointer for a missing
  table, and \<open>PagingMapMemory\<close> does not look. When the root has no entry for the address, it takes
  the page at virtual address 0 for its tables: if the two entries it consults there are not
  present, the leaf entry is written into that page, and every byte outside the root and the page
  at address 0 is unchanged.\<close>
theorem PagingMapMemory_null_table:
  assumes "g_boot_phys_page s = None" and "valid_frame p4"
    and "\<not> pte_present (load64 (mem s) (entry_addr (HIGHER_HALF_MEMORY_OFFSET + p4) (p4Offset (VirtualAddressToOffsets va))))"
    and "\<not> pte_present (load64 (mem s) (entry_addr 0 (pdpOffset (VirtualAddressToOffsets va))))"
    and "\<not> pte_present (load64 (mem s) (entry_addr 0 (pdOffset (VirtualAddressToOffsets va))))"
  shows "\<exists>s'. PagingMapMemory p4 va pa flags s = Done s' \<and>
    load64 (mem s') (entry_addr 0 (ptOffset (VirtualAddressToOffsets va))) = pa OR flags OR PAGING_FLAG_PRESENT \<and>
    (\<forall>a. a \<notin> page_bytes 0 \<longrightarrow> a \<notin> page_bytes (HIGHER_HALF_MEMORY_OFFSET + p4) \<longrightarrow> mem s' a = mem s a)"
proof -
  obtain i4 i3 i2 i1 where off: "p4Offset (VirtualAddressToOffsets va) = of_nat i4"
      "pdpOffset (VirtualAddressToOffsets va) = of_nat i3"
      "pdOffset (VirtualAddressToOffsets va) = of_nat i2" "ptOffset (VirtualAddressToOffsets va) = of_nat i1"
    and i: "i4 < 512" "i3 < 512" "i2 < 512" "i1 < 512" by (rule va_path_offsets)
  let ?r = "HIGHER_HALF_MEMORY_OFFSET + p4"
  have step: "GetOrAllocEntry t k fl u = Done (0, u\<lparr>mem := store64 (mem u) (entry_addr t k) 0\<rparr>)"
    if "g_boot_phys_page u = None" "\<not> pte_present (load64 (mem u) (entry_addr t k))" for t k fl u
    using that by (simp add: GetOrAllocEntry_def pte_present_flag PagingGetFreeFrame_def Let_def)
  have al: "aligned8 (entry_addr ?r (of_nat i4))" "aligned8 (entry_addr 0 (of_nat k))" if "k < 512" for k
    using aligned8_entry [of p4 i4 HIGHER_HALF_MEMORY_OFFSET] aligned8_entry [of 0 k 0] assms(2) i(1) that
    by (simp_all add: table_cells_def hh_ok_def valid_frame_def HIGHER_HALF_MEMORY_OFFSET_def)
  have keep: "\<not> pte_present (load64 (store64 m a 0) b)"
    if "\<not> pte_present (load64 m b)" "aligned8 a" "aligned8 b" for m a b
    using that load64_store64_other [of a b m 0] by (cases "a = b") (simp_all add: pte_present_def)
  define m1 where "m1 = store64 (mem s) (entry_addr ?r (of_nat i4)) 0"
  define m2 where "m2 = store64 m1 (entry_addr 0 (of_nat i3)) 0"
  define m3 where "m3 = store64 m2 (entry_addr 0 (of_nat i2)) 0"
  have p: "\<not> pte_present (load64 m1 (entry_addr 0 (of_nat i3)))" "\<not> pte_present (load64 m2 (entry_addr 0 (of_nat i2)))"
    unfolding m2_def m1_def by (intro keep al(1) [OF i(1)] al(2) i assms(4,5) [unfolded off])+
  have "PagingMapMemory p4 va pa flags s =
      Done (s\<lparr>mem := store64 m3 (entry_addr 0 (of_nat i1)) (pa OR flags OR PAGING_FLAG_PRESENT)\<rparr>)"
    using assms(1,3) p by (simp add: PagingMapMemory_def off step Translate_eq m1_def [symmetric]
        m2_def [symmetric] m3_def [symmetric] Let_def)
  then show ?thesis
    using i by (simp add: off m3_def m2_def m1_def store_entry_other)
qed

theorem PagingMapMemory_null_table_witness:
  "\<exists>s'. PagingMapMemory 0x1000 0x200000 0x5000 0 (wit_pt\<lparr>g_boot_phys_page := None\<rparr>) = Done s' \<and>
    load64 (mem s') 0 = 0x5001"
  using PagingMapMemory_null_table [of "wit_pt\<lparr>g_boot_phys_page := None\<rparr>" "0x1000" "0x200000" "0x5000" 0]
  by (simp add: wit_pt_def PAGING_FLAG_PRESENT_def entry_addr_def VirtualAddressToOffsets_def load64_zero
      pte_present_def valid_frame_def) blast

end
