(* ===== verification/Boot_Paging.thy ===== *)
theory Boot_Paging
  imports Paging
begin

text \<open>
  Construction of the kernel's own page tables, \<open>src/src/paging/paging_bootstrap.c\<close>: the 4 KiB,
  2 MiB and 1 GiB mapping helpers, the kernel image, the direct map, the walk that checks
  coverage, and the installation of the new root in CR3. The stack pointer and the address of
  the running code are arguments; the probe printing is omitted, \<open>scan_hhdm_range\<close> returns the
  runs it would print. A \<open>while\<close> loop over pages has fuel \<open>PAGES_FUEL\<close>: an address advanced by
  4096 takes at most \<open>2 ^ 52\<close> values, so a loop that runs longer never ends.
\<close>

section \<open>Helpers\<close>

definition PAGE_2M_SIZE :: u64 where "PAGE_2M_SIZE = 2 * 1024 * 1024"
definition PAGE_1G_SIZE :: u64 where "PAGE_1G_SIZE = push_bit 30 1"
definition ADDR_MASK_2M :: u64 where "ADDR_MASK_2M = 0x000FFFFFFFFFE000"
definition ADDR_MASK_1G :: u64 where "ADDR_MASK_1G = 0x000FFFFFC0000000"

definition PAGES_FUEL :: nat where "PAGES_FUEL = 2 ^ 52 + 1"

definition paging_pml4_phys :: "'a paging_state_scheme \<Rightarrow> u64" where
  "paging_pml4_phys s = g_pml4_phys s"

definition paging_pml4_virt :: "'a paging_state_scheme \<Rightarrow> u64" where
  "paging_pml4_virt s = g_pml4_virt s"

definition memzero :: "memory \<Rightarrow> u64 \<Rightarrow> u64 \<Rightarrow> memory" where
  "memzero m p n = fold (\<lambda>i m. m(p + of_nat i := 0)) [0..<unat n] m"

definition phys_to_virt :: "'a paging_state_scheme \<Rightarrow> u64 \<Rightarrow> u64" where
  "phys_to_virt s phys = phys + g_hhdm s"

definition vaddr_indices :: "u64 \<Rightarrow> u64 \<times> u64 \<times> u64 \<times> u64" where
  "vaddr_indices v = (drop_bit 39 v AND 0x1FF, drop_bit 30 v AND 0x1FF,
     drop_bit 21 v AND 0x1FF, drop_bit 12 v AND 0x1FF)"

definition virt_to_phys_kernel :: "u64 \<Rightarrow> u64 \<Rightarrow> u64 \<Rightarrow> u64" where
  "virt_to_phys_kernel vaddr kphys_base kvirt_base = kphys_base + (vaddr - kvirt_base)"

section \<open>Tables and mappings\<close>

definition alloc_table :: "'a paging_state_scheme \<Rightarrow> ((u64 \<times> u64) \<times> 'a paging_state_scheme) outcome" where
  "alloc_table s =
     bind_outcome (early_alloc_page s) (\<lambda>(phys, s1).
     if g_hhdm s1 = 0 then Panic ''paging_bootstrap: HHDM required for table zeroing''
     else
       let pt = phys_to_virt s1 phys
       in Done ((pt, phys), s1\<lparr>mem := memzero (mem s1) pt 4096\<rparr>))"

definition get_or_make_next ::
    "u64 \<Rightarrow> u64 \<Rightarrow> 'a paging_state_scheme \<Rightarrow> ((u64 \<times> u64) \<times> 'a paging_state_scheme) outcome" where
  "get_or_make_next cur idx s =
     (let e = load64 (mem s) (entry_addr cur idx)
      in if e AND PTE_P \<noteq> 0
         then
           if e AND PTE_PS \<noteq> 0
           then Panic ''paging_bootstrap: attempted descent through huge-page leaf''
           else Done ((phys_to_virt s (e AND ADDR_MASK), e AND ADDR_MASK), s)
         else
           bind_outcome (alloc_table s) (\<lambda>((child, child_phys), s1).
           Done ((child, child_phys),
             s1\<lparr>mem := store64 (mem s1) (entry_addr cur idx)
                          ((child_phys AND ADDR_MASK) OR PTE_P OR PTE_W)\<rparr>)))"

definition get_or_make_pd ::
    "u64 \<Rightarrow> u64 \<Rightarrow> u64 \<Rightarrow> 'a paging_state_scheme \<Rightarrow> ((u64 \<times> u64) \<times> 'a paging_state_scheme) outcome" where
  "get_or_make_pd pml4 pml4i pdpti s =
     bind_outcome (get_or_make_next pml4 pml4i s) (\<lambda>((pdpt, _), s1). get_or_make_next pdpt pdpti s1)"

definition map_4k ::
    "u64 \<Rightarrow> u64 \<Rightarrow> u64 \<Rightarrow> u64 \<Rightarrow> 'a paging_state_scheme \<Rightarrow> 'a paging_state_scheme outcome" where
  "map_4k pml4 va pa flags s =
     (case vaddr_indices va of (i0, i1, i2, i3) \<Rightarrow>
      bind_outcome (get_or_make_next pml4 i0 s) (\<lambda>((pdpt, _), s1).
      bind_outcome (get_or_make_next pdpt i1 s1) (\<lambda>((pd, _), s2).
      bind_outcome (get_or_make_next pd i2 s2) (\<lambda>((pt, _), s3).
      Done (s3\<lparr>mem := store64 (mem s3) (entry_addr pt i3)
                  ((pa AND ADDR_MASK) OR (flags AND NOT ADDR_MASK) OR PTE_P)\<rparr>)))))"

definition map_2m ::
    "u64 \<Rightarrow> u64 \<Rightarrow> u64 \<Rightarrow> u64 \<Rightarrow> 'a paging_state_scheme \<Rightarrow> 'a paging_state_scheme outcome" where
  "map_2m pml4 va pa flags s =
     (case vaddr_indices va of (i0, i1, i2, i3) \<Rightarrow>
      bind_outcome (get_or_make_pd pml4 i0 i1 s) (\<lambda>((pd, _), s1).
      Done (s1\<lparr>mem := store64 (mem s1) (entry_addr pd i2)
        ((pa AND ADDR_MASK_2M) OR (flags AND NOT ADDR_MASK) OR PTE_P OR PTE_W OR PTE_PS)\<rparr>)))"

definition map_1g ::
    "u64 \<Rightarrow> u64 \<Rightarrow> u64 \<Rightarrow> u64 \<Rightarrow> 'a paging_state_scheme \<Rightarrow> 'a paging_state_scheme outcome" where
  "map_1g pml4 va pa flags s =
     (case vaddr_indices va of (i0, i1, i2, i3) \<Rightarrow>
      bind_outcome (get_or_make_next pml4 i0 s) (\<lambda>((pdpt, _), s1).
      Done (s1\<lparr>mem := store64 (mem s1) (entry_addr pdpt i1)
        ((pa AND ADDR_MASK_1G) OR (flags AND NOT ADDR_MASK) OR PTE_P OR PTE_W OR PTE_PS)\<rparr>)))"

text \<open>The loops carry the current virtual and physical address and the state.\<close>

definition map_step ::
    "(u64 \<Rightarrow> u64 \<Rightarrow> 's \<Rightarrow> 's outcome) \<Rightarrow> u64 \<Rightarrow> u64 \<times> u64 \<times> 's \<Rightarrow> (u64 \<times> u64 \<times> 's) outcome" where
  "map_step f stride = (\<lambda>(va, pa, s). bind_outcome (f va pa s) (\<lambda>s'. Done (va + stride, pa + stride, s')))"

definition map_range_4k ::
    "u64 \<Rightarrow> u64 \<Rightarrow> u64 \<Rightarrow> u64 \<Rightarrow> u64 \<Rightarrow> 'a paging_state_scheme \<Rightarrow> 'a paging_state_scheme outcome" where
  "map_range_4k pml4 va pa len flags s =
     (let fin = va + len in
      bind_outcome (while_outcome PAGES_FUEL (\<lambda>(va, pa, s). va < fin)
        (map_step (\<lambda>va pa. map_4k pml4 va pa flags) PAGE_SIZE) (va, pa, s)) (\<lambda>(_, _, s'). Done s'))"

definition map_range_huge_first ::
    "u64 \<Rightarrow> u64 \<Rightarrow> u64 \<Rightarrow> u64 \<Rightarrow> u64 \<Rightarrow> 'a paging_state_scheme \<Rightarrow> 'a paging_state_scheme outcome" where
  "map_range_huge_first pml4 va pa len base_flags s =
     (let fin = pa + len in
      bind_outcome (while_outcome PAGES_FUEL
        (\<lambda>(va, pa, s). pa < fin \<and> (pa OR va) AND (PAGE_2M_SIZE - 1) \<noteq> 0)
        (map_step (\<lambda>va pa. map_4k pml4 va pa (base_flags OR PTE_W OR PTE_NX)) PAGE_SIZE) (va, pa, s)) (\<lambda>t1.
      bind_outcome (while_outcome PAGES_FUEL
        (\<lambda>(va, pa, s). pa + PAGE_2M_SIZE \<le> fin)
        (map_step (\<lambda>va pa. map_2m pml4 va pa (base_flags OR PTE_NX)) PAGE_2M_SIZE) t1) (\<lambda>t2.
      bind_outcome (while_outcome PAGES_FUEL
        (\<lambda>(va, pa, s). pa < fin)
        (map_step (\<lambda>va pa. map_4k pml4 va pa (base_flags OR PTE_W OR PTE_NX)) PAGE_SIZE) t2) (\<lambda>(_, _, s').
      Done s'))))"

section \<open>Kernel and direct map\<close>

definition map_identity_minimal :: "u64 \<Rightarrow> 'a paging_state_scheme \<Rightarrow> 'a paging_state_scheme outcome" where
  "map_identity_minimal pml4 s =
     for_outcome [0..<unat (PAGE_2M_SIZE div PAGE_SIZE)]
       (\<lambda>i. map_4k pml4 (of_nat i * PAGE_SIZE) (of_nat i * PAGE_SIZE) (PTE_W OR PTE_NX)) s"

definition map_section ::
    "u64 \<Rightarrow> u64 \<times> u64 \<Rightarrow> u64 \<Rightarrow> u64 \<Rightarrow> u64 \<Rightarrow> 'a paging_state_scheme \<Rightarrow> 'a paging_state_scheme outcome" where
  "map_section pml4 ka x0 x1 flags s =
     (if x1 > x0
      then map_range_4k pml4 x0 (virt_to_phys_kernel x0 (fst ka) (snd ka)) (x1 - x0) flags s
      else Done s)"

definition map_kernel_higher_half ::
    "boot_info \<Rightarrow> u64 \<Rightarrow> 'a paging_state_scheme \<Rightarrow> 'a paging_state_scheme outcome" where
  "map_kernel_higher_half bi pml4 s =
     (case kernel_address bi of
        None \<Rightarrow> Panic ''paging_bootstrap: kernel address request missing''
      | Some ka \<Rightarrow>
          let t0 = ALIGN_DOWN (text_start bi) PAGE_SIZE;
              t1 = ALIGN_UP (text_end bi) PAGE_SIZE;
              r0 = ALIGN_DOWN (rodata_start bi) PAGE_SIZE;
              r1 = ALIGN_UP (rodata_end bi) PAGE_SIZE;
              d0 = ALIGN_DOWN (data_start bi) PAGE_SIZE;
              d1 = ALIGN_UP (bss_end bi) PAGE_SIZE
          in
          bind_outcome (map_section pml4 ka t0 t1 0 s) (\<lambda>s1.
          bind_outcome (map_section pml4 ka r0 r1 PTE_NX s1) (\<lambda>s2.
          map_section pml4 ka d0 d1 (PTE_W OR PTE_NX) s2)))"

definition hhdm_include :: "u64 \<Rightarrow> bool" where
  "hhdm_include t \<longleftrightarrow>
     t = LIMINE_MEMMAP_USABLE \<or> t = LIMINE_MEMMAP_BOOTLOADER_RECLAIMABLE \<or>
     t = LIMINE_MEMMAP_ACPI_RECLAIMABLE \<or> t = LIMINE_MEMMAP_ACPI_NVS \<or>
     t = LIMINE_MEMMAP_KERNEL_AND_MODULES \<or> t = LIMINE_MEMMAP_FRAMEBUFFER"

fun map_hhdm_entries ::
    "u64 \<Rightarrow> memmap_entry list \<Rightarrow> 'a paging_state_scheme \<Rightarrow> 'a paging_state_scheme outcome" where
  "map_hhdm_entries pml4 [] s = Done s"
| "map_hhdm_entries pml4 (e # es) s =
     (if \<not> hhdm_include (me_type e) then map_hhdm_entries pml4 es s
      else
        let base = ALIGN_DOWN (me_base e) PAGE_SIZE;
            fin = ALIGN_UP (me_base e + me_length e) PAGE_SIZE
        in if fin \<le> base then map_hhdm_entries pml4 es s
           else bind_outcome (map_range_huge_first pml4 (g_hhdm s + base) base (fin - base) 0 s)
                  (map_hhdm_entries pml4 es))"

definition map_hhdm :: "boot_info \<Rightarrow> u64 \<Rightarrow> 'a paging_state_scheme \<Rightarrow> 'a paging_state_scheme outcome" where
  "map_hhdm bi pml4 s =
     (if g_hhdm s = 0 then Panic ''paging_bootstrap: HHDM offset missing''
      else
        case memmap bi of
          None \<Rightarrow> Panic ''paging_bootstrap: memmap missing''
        | Some es \<Rightarrow>
            if es = [] then Panic ''paging_bootstrap: memmap missing''
            else bind_outcome (map_hhdm_entries pml4 es s) (\<lambda>s1. map_2m pml4 (g_hhdm s1) 0 PTE_NX s1))"

section \<open>Walk and coverage\<close>

definition walk_va_to_pa :: "u64 \<Rightarrow> u64 \<Rightarrow> 'a paging_state_scheme \<Rightarrow> (u64 \<times> nat) option" where
  "walk_va_to_pa va pml4_root s =
     (case vaddr_indices va of (i0, i1, i2, i3) \<Rightarrow>
      let pml4e = load64 (mem s) (entry_addr pml4_root i0) in
      if pml4e AND PTE_P = 0 then None
      else
        let pdpt = phys_to_virt s (pml4e AND ADDR_MASK);
            pdpte = load64 (mem s) (entry_addr pdpt i1) in
        if pdpte AND PTE_P = 0 then None
        else if pdpte AND PTE_PS \<noteq> 0
        then Some ((pdpte AND ADDR_MASK_1G) OR (va AND (PAGE_1G_SIZE - 1)), 3)
        else
          let pd = phys_to_virt s (pdpte AND ADDR_MASK);
              pde = load64 (mem s) (entry_addr pd i2) in
          if pde AND PTE_P = 0 then None
          else if pde AND PTE_PS \<noteq> 0
          then Some ((pde AND ADDR_MASK_2M) OR (va AND (PAGE_2M_SIZE - 1)), 2)
          else
            let pt = phys_to_virt s (pde AND ADDR_MASK);
                pte = load64 (mem s) (entry_addr pt i3) in
            if pte AND PTE_P = 0 then None
            else Some ((pte AND ADDR_MASK) OR (va AND (PAGE_SIZE - 1)), 1))"

definition ensure_hhdm_cover_phys_page ::
    "u64 \<Rightarrow> u64 \<Rightarrow> 'a paging_state_scheme \<Rightarrow> 'a paging_state_scheme outcome" where
  "ensure_hhdm_cover_phys_page pml4 phys_page s =
     (let page = ALIGN_DOWN phys_page PAGE_SIZE;
          va = g_hhdm s + page
      in if walk_va_to_pa va pml4 s \<noteq> None then Done s
         else map_4k pml4 va page (PTE_W OR PTE_NX) s)"

definition ensure_hhdm_cover_phys_range ::
    "u64 \<Rightarrow> u64 \<Rightarrow> u64 \<Rightarrow> 'a paging_state_scheme \<Rightarrow> 'a paging_state_scheme outcome" where
  "ensure_hhdm_cover_phys_range pml4 phys len s =
     (if len = 0 then Done s
      else
        let fin = ALIGN_UP (phys + len) PAGE_SIZE in
        bind_outcome (while_outcome PAGES_FUEL (\<lambda>(page, s). page < fin)
          (\<lambda>(page, s). bind_outcome (ensure_hhdm_cover_phys_page pml4 page s)
             (\<lambda>s'. Done (page + PAGE_SIZE, s')))
          (ALIGN_DOWN phys PAGE_SIZE, s)) (\<lambda>(_, s'). Done s'))"

text \<open>The runs \<open>[start .. end)\<close> of equal coverage that \<open>scan_hhdm_range\<close> reports.\<close>

definition scan_step ::
    "'a paging_state_scheme \<Rightarrow> u64 \<Rightarrow> u64 \<Rightarrow> u64 \<times> bool option \<times> u64 \<times> (u64 \<times> u64 \<times> bool) list \<Rightarrow>
     (u64 \<times> bool option \<times> u64 \<times> (u64 \<times> u64 \<times> bool) list) outcome" where
  "scan_step s pml4 stride = (\<lambda>(phys, prev_state, run_start, out).
     let state = (walk_va_to_pa (g_hhdm s + phys) pml4 s \<noteq> None) in
     case prev_state of
       None \<Rightarrow> Done (phys + stride, Some state, phys, out)
     | Some p \<Rightarrow>
         if state \<noteq> p then Done (phys + stride, Some state, phys, out @ [(run_start, phys, p)])
         else Done (phys + stride, prev_state, run_start, out))"

definition scan_hhdm_range ::
    "u64 \<Rightarrow> u64 \<Rightarrow> u64 \<Rightarrow> u64 \<Rightarrow> 'a paging_state_scheme \<Rightarrow> (u64 \<times> u64 \<times> bool) list outcome" where
  "scan_hhdm_range phys_start len stride0 pml4 s =
     (let stride = (if stride0 = 0 then PAGE_2M_SIZE else stride0);
          fin = phys_start + len
      in
      bind_outcome (while_outcome (2 ^ 64 + 1) (\<lambda>(phys, _). phys < fin) (scan_step s pml4 stride)
        (phys_start, None, phys_start, [])) (\<lambda>(_, prev_state, run_start, out).
      Done (out @ [(run_start, fin, prev_state = Some True)])))"

section \<open>Installation\<close>

definition pre_switch_audit_and_patch ::
    "boot_info \<Rightarrow> u64 \<Rightarrow> u64 \<Rightarrow> u64 \<Rightarrow> u64 \<Rightarrow> 'a paging_state_scheme \<Rightarrow> 'a paging_state_scheme outcome" where
  "pre_switch_audit_and_patch bi rsp_va rip new_pml4 new_pml4_phys s =
     (let old_cr3 = cr3 s AND ADDR_MASK;
          max_phys = get_max_phys bi
      in
      bind_outcome
        (if rsp_va \<ge> g_hhdm s \<and> rsp_va < g_hhdm s + max_phys then Done (rsp_va - g_hhdm s)
         else case walk_va_to_pa rsp_va new_pml4 s of
                None \<Rightarrow> Panic ''paging_bootstrap: stack VA missing before CR3 switch''
              | Some (rsp_phys, _) \<Rightarrow> Done rsp_phys) (\<lambda>rsp_phys.
      bind_outcome (ensure_hhdm_cover_phys_range new_pml4 0 PAGE_2M_SIZE s) (\<lambda>s1.
      bind_outcome (ensure_hhdm_cover_phys_page new_pml4 rsp_phys s1) (\<lambda>s2.
      bind_outcome (ensure_hhdm_cover_phys_page new_pml4 old_cr3 s2) (\<lambda>s3.
      bind_outcome (ensure_hhdm_cover_phys_page new_pml4 new_pml4_phys s3) (\<lambda>s4.
      if walk_va_to_pa rsp_va new_pml4 s4 = None
      then Panic ''paging_bootstrap: stack missing after patching''
      else if walk_va_to_pa rip new_pml4 s4 = None
      then Panic ''paging_bootstrap: kernel RIP missing after patching''
      else if walk_va_to_pa (g_hhdm s4) new_pml4 s4 = None
      then Panic ''paging_bootstrap: HHDM+0 missing after patching''
      else if walk_va_to_pa (g_hhdm s4 + old_cr3) new_pml4 s4 = None
      then Panic ''paging_bootstrap: old CR3 page missing from HHDM''
      else if walk_va_to_pa (g_hhdm s4 + new_pml4_phys) new_pml4 s4 = None
      then Panic ''paging_bootstrap: new CR3 page missing from HHDM''
      else Done s4))))))"

definition install_new_cr3 ::
    "boot_info \<Rightarrow> u64 \<Rightarrow> u64 \<Rightarrow> u64 \<Rightarrow> u64 \<Rightarrow> 'a paging_state_scheme \<Rightarrow> 'a paging_state_scheme outcome" where
  "install_new_cr3 bi rsp rip new_pml4_phys new_pml4 s =
     bind_outcome (pre_switch_audit_and_patch bi rsp rip new_pml4 new_pml4_phys s) (\<lambda>s1.
     Done (s1\<lparr>cr3 := new_pml4_phys\<rparr>))"

definition paging_bootstrap ::
    "boot_info \<Rightarrow> u64 \<Rightarrow> u64 \<Rightarrow> 'a paging_state_scheme \<Rightarrow> 'a paging_state_scheme outcome" where
  "paging_bootstrap bi rsp rip s =
     (case hhdm_offset bi of
        None \<Rightarrow> Panic ''paging_bootstrap: HHDM response missing''
      | Some offs \<Rightarrow>
          let s0 = s\<lparr>g_hhdm := offs\<rparr> in
          if g_hhdm s0 = 0 then Panic ''paging_bootstrap: HHDM offset is zero''
          else
            bind_outcome (alloc_table s0) (\<lambda>((virt, phys), s1).
            let s2 = s1\<lparr>g_pml4_phys := phys, g_pml4_virt := virt\<rparr> in
            bind_outcome (map_identity_minimal (g_pml4_virt s2) s2) (\<lambda>s3.
            bind_outcome (map_kernel_higher_half bi (g_pml4_virt s3) s3) (\<lambda>s4.
            bind_outcome (map_hhdm bi (g_pml4_virt s4) s4) (\<lambda>s5.
            bind_outcome (scan_hhdm_range 0 (16 * 1024 * 1024) PAGE_2M_SIZE (g_pml4_virt s5) s5) (\<lambda>_.
            install_new_cr3 bi rsp rip (g_pml4_phys s5) (g_pml4_virt s5) s5))))))"

end
