(* ===== verification/Boot_Paging_Correct.thy ===== *)
theory Boot_Paging_Correct
  imports Paging_Correct Boot_Paging
begin

text \<open>
  Correctness of \<open>paging/paging_bootstrap.c\<close>: every mapping helper writes exactly the leaf it
  names, the loops end, the walk agrees with the translation \<open>resolve\<close>, the kernel image is
  mapped with write-xor-execute permissions, and every included physical page is reachable
  through the direct map when CR3 is switched.
\<close>

section \<open>Page numbers\<close>

text \<open>A translation depends on bits 12 to 47 of the address, its page number.\<close>

definition vpn :: "u64 \<Rightarrow> nat" where "vpn va = unat va div 4096 mod 2 ^ 36"

definition vpath :: "nat \<Rightarrow> nat list" where
  "vpath n = [n div 2 ^ 27 mod 512, n div 2 ^ 18 mod 512, n div 2 ^ 9 mod 512, n mod 512]"

lemma vpn_less [simp]: "vpn va < 68719476736"
  by (simp add: vpn_def)

lemma div_mod_field:
  assumes "k + 9 \<le> 36"
  shows "(m mod 2 ^ 36) div 2 ^ k mod 512 = (m :: nat) div 2 ^ k mod 512"
proof -
  have "(m mod 2 ^ 36) div 2 ^ k mod 2 ^ 9 = m div 2 ^ k mod 2 ^ 9"
  proof -
    have "take_bit 9 (drop_bit k (take_bit 36 m)) = take_bit 9 (drop_bit k m)"
      using assms by (simp add: drop_bit_take_bit take_bit_take_bit)
    then show ?thesis by (simp add: take_bit_eq_mod drop_bit_eq_div)
  qed
  then show ?thesis by simp
qed

lemma va_path_vpn: "va_path va = vpath (vpn va)"
proof -
  have "unat va div 2 ^ 39 = unat va div 4096 div 2 ^ 27" "unat va div 2 ^ 30 = unat va div 4096 div 2 ^ 18"
    "unat va div 2 ^ 21 = unat va div 4096 div 2 ^ 9" "unat va div 2 ^ 12 = unat va div 4096 div 2 ^ 0"
    by (simp_all flip: div_mult2_eq)
  then show ?thesis
    using div_mod_field [of 27 "unat va div 4096"] div_mod_field [of 18 "unat va div 4096"]
      div_mod_field [of 9 "unat va div 4096"] div_mod_field [of 0 "unat va div 4096"]
    unfolding va_path_unat vpath_def vpn_def by (simp del: power_numeral)
qed

lemma vpath_ok [simp]: "path_ok 4 (vpath n)" "length (vpath n) = 4"
  by (simp_all add: vpath_def path_ok_def)

lemma split9:
  assumes "(n :: nat) div 2 ^ k mod 512 = m div 2 ^ k mod 512" and "n div 2 ^ (k + 9) = m div 2 ^ (k + 9)"
  shows "n div 2 ^ k = m div 2 ^ k"
proof -
  have "x = x div 512 * 512 + x mod 512" for x :: nat by simp
  moreover have "n div 2 ^ k div 512 = n div 2 ^ (k + 9)" "m div 2 ^ k div 512 = m div 2 ^ (k + 9)"
    by (simp_all add: power_add flip: div_mult2_eq)
  ultimately show ?thesis using assms by metis
qed

lemma vpath_prefix3:
  assumes "n < 2 ^ 36" and "m < 2 ^ 36"
  shows "prefix (take 3 (vpath m)) (vpath n) \<longleftrightarrow> n div 512 = m div 512"
proof -
  have z: "n div 2 ^ 36 = 0" "m div 2 ^ 36 = 0" using assms by simp_all
  have low: "n div 2 ^ 9 = m div 2 ^ 9"
    if "n div 2 ^ 27 mod 512 = m div 2 ^ 27 mod 512" "n div 2 ^ 18 mod 512 = m div 2 ^ 18 mod 512"
      "n div 2 ^ 9 mod 512 = m div 2 ^ 9 mod 512"
  proof -
    have "n div 2 ^ 27 = m div 2 ^ 27" by (rule split9 [OF that(1)]) (use z in simp)
    then have "n div 2 ^ 18 = m div 2 ^ 18" by (intro split9 [OF that(2)]) simp
    then show ?thesis by (intro split9 [OF that(3)]) simp
  qed
  have up: "x div 2 ^ 18 = x div 2 ^ 9 div 2 ^ 9" "x div 2 ^ 27 = x div 2 ^ 9 div 2 ^ 18" for x :: nat
    by (simp_all flip: div_mult2_eq)
  have "n div 2 ^ 9 = m div 2 ^ 9 \<longleftrightarrow> n div 2 ^ 27 mod 512 = m div 2 ^ 27 mod 512 \<and>
      n div 2 ^ 18 mod 512 = m div 2 ^ 18 mod 512 \<and> n div 2 ^ 9 mod 512 = m div 2 ^ 9 mod 512"
    using low unfolding up [of n] up [of m] by metis
  moreover have "prefix (take 3 (vpath m)) (vpath n) \<longleftrightarrow> n div 2 ^ 27 mod 512 = m div 2 ^ 27 mod 512 \<and>
      n div 2 ^ 18 mod 512 = m div 2 ^ 18 mod 512 \<and> n div 2 ^ 9 mod 512 = m div 2 ^ 9 mod 512"
    unfolding vpath_def by (auto simp del: power_numeral)
  ultimately show ?thesis by simp
qed

lemma vpath_inj:
  assumes "n < 2 ^ 36" and "m < 2 ^ 36"
  shows "vpath n = vpath m \<longleftrightarrow> n = m"
proof
  assume e: "vpath n = vpath m"
  then have "prefix (take 3 (vpath m)) (vpath n)" by (metis take_is_prefix)
  then have "n div 2 ^ (0 + 9) = m div 2 ^ (0 + 9)" using vpath_prefix3 [OF assms] by simp
  moreover have "n div 2 ^ 0 mod 512 = m div 2 ^ 0 mod 512" using e by (simp add: vpath_def)
  ultimately show "n = m" using split9 [of n 0 m] by simp
qed simp

section \<open>Translations during the construction\<close>

definition tr :: "'a paging_state_scheme \<Rightarrow> u64 \<Rightarrow> nat \<Rightarrow> (u64 \<times> nat) option" where
  "tr s r n = resolve (ptab s) r (vpath n)"

text \<open>The tables being built: a well-formed tree whose frames come from the early allocator, with
  no large page at the top level and no right withheld above the entry that translates.\<close>

definition boot_inv :: "'a paging_state_scheme \<Rightarrow> u64 \<Rightarrow> bool" where
  "boot_inv s r \<longleftrightarrow> pt_ok s r \<and> g_hhdm s = HIGHER_HALF_MEMORY_OFFSET \<and>
     g_boot_phys_page s = Some supply_from_early \<and>
     (\<forall>n < 2 ^ 36. \<forall>e l. tr s r n = Some (e, l) \<longrightarrow> l < 3) \<and> table_entries open_entry (ptab s) r"

text \<open>From \<open>s\<close> to \<open>s'\<close> only translations of pages in \<open>A\<close> changed, and only memory of table
  frames.\<close>

definition remap :: "u64 \<Rightarrow> nat set \<Rightarrow> 'a paging_state_scheme \<Rightarrow> 'a paging_state_scheme \<Rightarrow> bool" where
  "remap r A s s' \<longleftrightarrow> boot_inv s' r \<and> paging_only s s' \<and> supplied s \<subseteq> supplied s' \<and>
     (\<forall>n < 2 ^ 36. n \<notin> A \<longrightarrow> tr s' r n = tr s r n) \<and>
     (\<forall>a. (\<forall>t \<in> table_frames s'. a \<notin> page_bytes (HIGHER_HALF_MEMORY_OFFSET + t)) \<longrightarrow> mem s' a = mem s a)"

lemma boot_invD:
  assumes "boot_inv s r"
  shows "pt_ok s r" "g_hhdm s = HIGHER_HALF_MEMORY_OFFSET" "g_boot_phys_page s = Some supply_from_early"
    "n < 2 ^ 36 \<Longrightarrow> tr s r n = Some (e, l) \<Longrightarrow> l < 3" "table_entries open_entry (ptab s) r"
  using assms by (auto simp: boot_inv_def)

lemma remapD:
  assumes "remap r A s s'"
  shows "boot_inv s' r" "paging_only s s'" "n < 2 ^ 36 \<Longrightarrow> n \<notin> A \<Longrightarrow> tr s' r n = tr s r n"
  using assms by (auto simp: remap_def)

lemma remap_refl: "boot_inv s r \<Longrightarrow> remap r A s s"
  by (simp add: remap_def)

lemma remap_trans:
  assumes "remap r A s t" and "remap r B t u" and "A \<subseteq> C" and "B \<subseteq> C"
  shows "remap r C s u"
proof -
  have sub: "table_frames t \<subseteq> table_frames u"
    using assms(2) by (auto simp: remap_def table_frames_def paging_only_limit)
  have "mem u a = mem s a"
    if "\<forall>f \<in> table_frames u. a \<notin> page_bytes (HIGHER_HALF_MEMORY_OFFSET + f)" for a
  proof -
    have "\<forall>f \<in> table_frames t. a \<notin> page_bytes (HIGHER_HALF_MEMORY_OFFSET + f)"
      using that sub by blast
    with that assms(1,2) show ?thesis by (simp add: remap_def)
  qed
  moreover have "paging_only s u"
    using assms(1,2) paging_only_trans unfolding remap_def by blast
  moreover have "supplied s \<subseteq> supplied u" using assms(1,2) unfolding remap_def by blast
  moreover have "tr u r n = tr s r n" if "n < 2 ^ 36" "n \<notin> C" for n
  proof -
    have "n \<notin> A" "n \<notin> B" using that(2) assms(3,4) by auto
    then show ?thesis using remapD(3) [OF assms(1) that(1)] remapD(3) [OF assms(2) that(1)] by simp
  qed
  ultimately show ?thesis using remapD(1) [OF assms(2)] by (simp add: remap_def)
qed

lemma remap_mono: "remap r A s t \<Longrightarrow> A \<subseteq> C \<Longrightarrow> remap r C s t"
  by (auto simp: remap_def)

lemma leaf_written_remap:
  assumes inv: "boot_inv s r" and w: "leaf_written r P e s s'" and p: "pte_present e" and len: "length P > 1"
  shows "remap r {n. prefix P (vpath n)} s s'"
    and "prefix P (vpath n) \<Longrightarrow> tr s' r n = Some (e, 4 - length P)"
proof -
  have tr': "tr s' r n = (if prefix P (vpath n) then Some (e, 4 - length P) else tr s r n)" for n
    using w p by (simp add: leaf_written_def tr_def)
  then show "prefix P (vpath n) \<Longrightarrow> tr s' r n = Some (e, 4 - length P)" by simp
  have po: "paging_only s s'" using w by (simp add: leaf_written_def)
  have "l < 3" if "n < 2 ^ 36" "tr s' r n = Some (d, l)" for n d l
    using that tr' len boot_invD(4) [OF inv that(1)] by (auto split: if_splits)
  then have "boot_inv s' r"
    using w boot_invD(2,3,5) [OF inv] paging_only_fields(1,5) [OF po] by (simp add: boot_inv_def leaf_written_def)
  then show "remap r {n. prefix P (vpath n)} s s'"
    using w tr' by (simp add: remap_def leaf_written_def)
qed

lemma tables_grow_inv:
  assumes "boot_inv s r" and "tables_grow r s s'"
  shows "boot_inv s' r"
proof -
  have "paging_only s s'" using assms(2) by (simp add: tables_grow_def)
  from paging_only_fields(1,5) [OF this] assms show ?thesis
    by (simp add: boot_inv_def tables_grow_def tr_def)
qed

section \<open>Descending and creating tables\<close>
lemma memzero_memset: "memzero m p n = memset m p 0 n"
  by (simp add: memzero_def memset_def)

definition boot_table_entry :: "u64 \<Rightarrow> u64" where
  "boot_table_entry a = (a AND ADDR_MASK) OR PTE_P OR PTE_W"

lemma bit_PW: "bit (PTE_P OR PTE_W) n \<longleftrightarrow> n < 2"
proof -
  have "PTE_P OR PTE_W = mask 2" by (simp add: PTE_P_def PTE_W_def mask_eq_exp_minus_1)
  then show ?thesis by (simp only: bit_mask_iff) auto
qed

lemma boot_table_entry:
  assumes "valid_frame a"
  shows "child (boot_table_entry a) = Some a" and "boot_table_entry a AND PAGE_ADDRESS_MASK = a"
    and "open_entry (boot_table_entry a)"
proof -
  note bits = valid_frame_bits [OF assms]
  let ?e = "boot_table_entry a"
  have e: "bit ?e n \<longleftrightarrow> bit a n \<or> n < 2" for n
    using bits [of n]
    by (auto simp: boot_table_entry_def bit_or_iff [of "a AND ADDR_MASK"] bit_and_iff bit_PW bit_ADDR_MASK)
  have "?e AND ADDR_MASK = a"
    by (rule bit_word_eqI) (auto simp: bit_and_iff e bit_ADDR_MASK dest: bits)
  moreover have "pte_present ?e" by (simp add: pte_present_bit e)
  moreover have "\<not> pte_huge ?e" using bits(1) [of 7] by (auto simp: pte_huge_bit e)
  ultimately show "child ?e = Some a" by (simp add: child_def)
  show "?e AND PAGE_ADDRESS_MASK = a"
    by (rule bit_word_eqI) (auto simp: bit_and_iff e bit_PAGE_ADDRESS_MASK dest: bits)
  show "open_entry ?e" using bits(2) [of 63] by (auto simp: open_entry_def e)
qed

lemma HIGHER_HALF_nonzero [simp]: "HIGHER_HALF_MEMORY_OFFSET \<noteq> 0"
  by (simp add: HIGHER_HALF_MEMORY_OFFSET_def)

text \<open>One level: the table below an entry, which exists or is created empty. It fails only on a
  large page or when the early allocator is exhausted.\<close>
lemma get_or_make_next_ends:
  assumes inv: "boot_inv s r" and f: "desc (ptab s) r ks = Some f" and ks: "path_ok 2 ks" and k: "k < 512"
  shows "ends (\<lambda>((p, ph), s'). p = HIGHER_HALF_MEMORY_OFFSET + ph \<and> boot_inv s' r \<and> tables_grow r s s' \<and>
      desc (ptab s') r (ks @ [k]) = Some ph)
    (get_or_make_next (HIGHER_HALF_MEMORY_OFFSET + f) (of_nat k) s)"
    (is "ends ?Q ?x")
    and "\<not> (pte_present (ptab s f k) \<and> pte_huge (ptab s f k)) \<Longrightarrow> frames_left (Suc n) s \<Longrightarrow>
      \<exists>y s'. get_or_make_next (HIGHER_HALF_MEMORY_OFFSET + f) (of_nat k) s = Done (y, s') \<and> frames_left n s'"
proof -
  note ok = boot_invD(1) [OF inv] and hh = boot_invD(2) [OF inv]
  have ld: "load64 (mem s) (entry_addr (HIGHER_HALF_MEMORY_OFFSET + f) (of_nat k)) = ptab s f k"
    by (simp add: tbl_def)
  have pp: "ptab s f k AND PTE_P \<noteq> 0 \<longleftrightarrow> pte_present (ptab s f k)"
    "ptab s f k AND PTE_PS \<noteq> 0 \<longleftrightarrow> pte_huge (ptab s f k)"
    by (simp_all add: pte_present_def pte_huge_def)
  have here: "?Q ((HIGHER_HALF_MEMORY_OFFSET + (ptab s f k AND ADDR_MASK), ptab s f k AND ADDR_MASK), s)"
    if "pte_present (ptab s f k)" "\<not> pte_huge (ptab s f k)"
    using that f inv tables_grow_refl [OF ok] by (simp add: desc_append child_def)
  have early: "PagingGetFreeFrame s = early_alloc_page s"
    using boot_invD(3) [OF inv] by (simp add: PagingGetFreeFrame_def)
  have fresh: "\<exists>s'. ?x = Done ((HIGHER_HALF_MEMORY_OFFSET + a, a), s') \<and>
      ?Q ((HIGHER_HALF_MEMORY_OFFSET + a, a), s') \<and> (frames_left n s1 \<longrightarrow> frames_left n s')"
    if absent: "\<not> pte_present (ptab s f k)" and get: "early_alloc_page s = Done (a, s1)" for a s1
  proof -
    have get': "PagingGetFreeFrame s = Done (a, s1)" using get early by simp
    note sok = pt_okD(1) [OF ok]
    have "path_ok 3 ks" using ks by (simp add: path_ok_def)
    then have vf: "valid_frame f" "f \<in> table_frames s" using pt_ok_table [OF ok _ f] by simp_all
    have va: "valid_frame a" by (rule get_free_frame_valid [OF sok get'])
    have fa: "f \<noteq> a" using supplier.get_facts(2) [OF sok get'] vf(2) by (auto simp: table_frames_def)
    have hh1: "g_hhdm s1 = HIGHER_HALF_MEMORY_OFFSET"
      using paging_only_fields(1) [OF get_free_frame_same(1) [OF sok get']] hh by simp
    define s' where "s' = s1\<lparr>mem := store64 (memset (mem s1) (HIGHER_HALF_MEMORY_OFFSET + a) 0 0x1000)
        (entry_addr (HIGHER_HALF_MEMORY_OFFSET + f) (of_nat k)) (boot_table_entry a)\<rparr>"
    note hook = hook_table [OF ok f ks k absent get' s'_def _ _ boot_table_entry [OF va]]
    have g: "tables_grow r s s'" "desc (ptab s') r (ks @ [k]) = Some a"
      using va vf fa k by (auto intro!: hook simp: tbl_memset_page tbl_store memset_page_other store_entry_other)
    have "?x = Done ((HIGHER_HALF_MEMORY_OFFSET + a, a), s')"
      using absent get hh1
      by (simp add: get_or_make_next_def ld pte_present_def alloc_table_def Let_def phys_to_virt_def
          memzero_memset s'_def boot_table_entry_def add.commute [of a])
    moreover have "frames_left n s1 \<longrightarrow> frames_left n s'" by (simp add: s'_def)
    ultimately show ?thesis using g tables_grow_inv [OF inv g(1)] by simp
  qed
  have gomn: "?x = (if pte_present (ptab s f k)
      then if pte_huge (ptab s f k) then Panic ''paging_bootstrap: attempted descent through huge-page leaf''
        else Done ((HIGHER_HALF_MEMORY_OFFSET + (ptab s f k AND ADDR_MASK), ptab s f k AND ADDR_MASK), s)
      else ?x)"
    using hh by (simp add: get_or_make_next_def ld pte_present_def pte_huge_def phys_to_virt_def Let_def
        add.commute)
  have al: "?x = Panic msg" if "\<not> pte_present (ptab s f k)" "early_alloc_page s = Panic msg" for msg
    using that by (simp add: get_or_make_next_def ld pte_present_def alloc_table_def)
  have nd: "early_alloc_page s \<noteq> Diverge" by (simp add: early_alloc_page_def)
  show "ends ?Q ?x"
  proof (cases "pte_present (ptab s f k)")
    case True
    then show ?thesis using here by (subst gomn) auto
  next
    case False
    show ?thesis
    proof (cases "early_alloc_page s")
      case (Done y)
      obtain a s1 where "y = (a, s1)" by force
      with fresh [OF False] Done show ?thesis by fastforce
    qed (use al [OF False] nd in simp_all)
  qed
  show "\<exists>y s'. ?x = Done (y, s') \<and> frames_left n s'"
    if op: "\<not> (pte_present (ptab s f k) \<and> pte_huge (ptab s f k))" and left: "frames_left (Suc n) s"
  proof (cases "pte_present (ptab s f k)")
    case True
    moreover have "frames_left n s" using left boot_invD(3) [OF inv] by (simp add: frames_left_def)
    ultimately show ?thesis using op by (subst gomn) auto
  next
    case False
    from get_free_frame_total [OF pt_okD(1) [OF ok] left] obtain a s1 where
      "early_alloc_page s = Done (a, s1)" "frames_left n s1" unfolding early by blast
    with fresh [OF False] show ?thesis by blast
  qed
qed

section \<open>Mapping one page\<close>
lemma and_511: "x AND 0x1FF = take_bit 9 (x :: u64)"
  by (rule bit_word_eqI) (auto simp: bit_simps)

lemma vaddr_indices_offsets:
  "vaddr_indices va = (let off = VirtualAddressToOffsets va
     in (p4Offset off, pdpOffset off, pdOffset off, ptOffset off))"
  by (simp add: vaddr_indices_def offsets_bits and_511)

lemma vaddr_indices_path:
  obtains i4 i3 i2 i1 where "va_path va = [i4, i3, i2, i1]"
    "vaddr_indices va = (of_nat i4, of_nat i3, of_nat i2, of_nat i1)"
    "i4 < 512" "i3 < 512" "i2 < 512" "i1 < 512"
  by (rule va_path_offsets [of va]) (simp add: vaddr_indices_offsets Let_def)

definition leaf_4k :: "u64 \<Rightarrow> u64 \<Rightarrow> u64" where
  "leaf_4k pa flags = (pa AND ADDR_MASK) OR (flags AND NOT ADDR_MASK) OR PTE_P"

definition leaf_2m :: "u64 \<Rightarrow> u64 \<Rightarrow> u64" where
  "leaf_2m pa flags = (pa AND ADDR_MASK_2M) OR (flags AND NOT ADDR_MASK) OR PTE_P OR PTE_W OR PTE_PS"

lemma leaf_4k_bits:
  "bit (leaf_4k pa flags) n \<longleftrightarrow> (if 12 \<le> n \<and> n < 52 then bit pa n else n < 64 \<and> (bit flags n \<or> n = 0))"
proof -
  have "bit PTE_P n \<longleftrightarrow> n = 0" by (auto simp: PTE_P_def bit_1_iff)
  then show ?thesis
    using bit_imp_le_length [of flags n] by (auto simp: leaf_4k_def bit_or_iff bit_and_iff bit_not_iff bit_ADDR_MASK)
qed

lemma leaf_4k_simps:
  "leaf_4k pa flags AND ADDR_MASK = pa AND ADDR_MASK" "pte_present (leaf_4k pa flags)"
  by (rule bit_word_eqI) (auto simp: bit_and_iff leaf_4k_bits bit_ADDR_MASK pte_present_bit)

lemma bit_ADDR_MASK_2M: "bit ADDR_MASK_2M n \<longleftrightarrow> 13 \<le> n \<and> n < 52"
proof -
  have "ADDR_MASK_2M = push_bit 13 (mask 39)"
    by (simp add: ADDR_MASK_2M_def mask_eq_exp_minus_1 push_bit_eq_mult)
  then show ?thesis unfolding \<open>ADDR_MASK_2M = _\<close> bit_push_bit_iff bit_mask_iff by auto
qed

lemma bit_PTE_PS: "bit PTE_PS n \<longleftrightarrow> n = 7"
proof -
  have "PTE_PS = (2 :: u64) ^ 7" by (simp add: PTE_PS_def)
  then show ?thesis unfolding \<open>PTE_PS = _\<close> bit_exp_iff by auto
qed

lemma leaf_2m_simps: "pte_present (leaf_2m pa flags)" "pte_huge (leaf_2m pa flags)"
  by (simp_all add: leaf_2m_def pte_present_bit pte_huge_bit bit_or_iff bit_PTE_PS, simp add: PTE_P_def)

text \<open>The descent of \<open>map_4k\<close> over the first \<open>n\<close> levels, as one lemma per level.\<close>
lemma get_or_make_next_then:
  assumes inv: "boot_inv s r" and f: "desc (ptab s) r ks = Some f" and ks: "path_ok 2 ks" and k: "k < 512"
    and rest: "\<And>g ph s'. boot_inv s' r \<Longrightarrow> tables_grow r s s' \<Longrightarrow> desc (ptab s') r (ks @ [k]) = Some g \<Longrightarrow>
      ends Q (F ((HIGHER_HALF_MEMORY_OFFSET + g, g), s'))"
  shows "ends Q (bind_outcome (get_or_make_next (HIGHER_HALF_MEMORY_OFFSET + f) (of_nat k) s) F)"
  by (rule ends_bind [OF get_or_make_next_ends(1) [OF inv f ks k]]) (use rest in force)

lemma map_4k_written:
  assumes inv: "boot_inv s r"
  shows "ends (leaf_written r (va_path va) (leaf_4k pa flags) s) (map_4k (HIGHER_HALF_MEMORY_OFFSET + r) va pa flags s)"
proof -
  obtain i4 i3 i2 i1 where P: "va_path va = [i4, i3, i2, i1]"
    and v: "vaddr_indices va = (of_nat i4, of_nat i3, of_nat i2, of_nat i1)"
    and i: "i4 < 512" "i3 < 512" "i2 < 512" "i1 < 512" by (rule vaddr_indices_path)
  note next1 = get_or_make_next_then [where ks = "[]" and k = i4]
    and next2 = get_or_make_next_then [where ks = "[i4]" and k = i3]
    and next3 = get_or_make_next_then [where ks = "[i4, i3]" and k = i2]
  have "leaf_written r [i4, i3, i2, i1] (leaf_4k pa flags) s
      (s3\<lparr>mem := store64 (mem s3) (entry_addr (HIGHER_HALF_MEMORY_OFFSET + g3) (of_nat i1)) (leaf_4k pa flags)\<rparr>)"
    if "tables_grow r s s1" "tables_grow r s1 s2" "tables_grow r s2 s3" "boot_inv s3 r"
      "desc (ptab s3) r [i4, i3, i2] = Some g3" for s1 s2 s3 g3
  proof (rule grow_then_write)
    show "tables_grow r s s3" using that tables_grow_trans by blast
    show "leaf_written r [i4, i3, i2, i1] (leaf_4k pa flags) s3
      (s3\<lparr>mem := store64 (mem s3) (entry_addr (HIGHER_HALF_MEMORY_OFFSET + g3) (of_nat i1)) (leaf_4k pa flags)\<rparr>)"
      using write_entry [OF boot_invD(1) [OF that(4)] that(5) _ i(4) _ refl] i by (simp add: path_ok_def)
  qed
  then show ?thesis
    unfolding map_4k_def v prod.case P leaf_4k_def [symmetric]
    by (auto intro!: next1 next2 next3 inv simp: i path_ok_def)
qed

lemma map_2m_written:
  assumes inv: "boot_inv s r"
  shows "ends (leaf_written r (take 3 (va_path va)) (leaf_2m pa flags) s)
    (map_2m (HIGHER_HALF_MEMORY_OFFSET + r) va pa flags s)"
proof -
  obtain i4 i3 i2 i1 where P: "va_path va = [i4, i3, i2, i1]"
    and v: "vaddr_indices va = (of_nat i4, of_nat i3, of_nat i2, of_nat i1)"
    and i: "i4 < 512" "i3 < 512" "i2 < 512" "i1 < 512" by (rule vaddr_indices_path)
  have "leaf_written r [i4, i3, i2] (leaf_2m pa flags) s
      (s2\<lparr>mem := store64 (mem s2) (entry_addr (HIGHER_HALF_MEMORY_OFFSET + g2) (of_nat i2)) (leaf_2m pa flags)\<rparr>)"
    if "tables_grow r s s1" "tables_grow r s1 s2" "boot_inv s2 r" "desc (ptab s2) r [i4, i3] = Some g2" for s1 s2 g2
  proof (rule grow_then_write)
    show "tables_grow r s s2" using that tables_grow_trans by blast
    show "leaf_written r [i4, i3, i2] (leaf_2m pa flags) s2
      (s2\<lparr>mem := store64 (mem s2) (entry_addr (HIGHER_HALF_MEMORY_OFFSET + g2) (of_nat i2)) (leaf_2m pa flags)\<rparr>)"
      using write_entry [OF boot_invD(1) [OF that(3)] that(4) _ i(3) _ refl] i leaf_2m_simps by (simp add: path_ok_def)
  qed
  moreover have pd: "bind_outcome (get_or_make_pd p (of_nat i4) (of_nat i3) s) F =
      bind_outcome (get_or_make_next p (of_nat i4) s) (\<lambda>((q, _), s1).
        bind_outcome (get_or_make_next q (of_nat i3) s1) F)" for p F
    unfolding get_or_make_pd_def by (cases "get_or_make_next p (of_nat i4) s") (simp_all split: prod.split)
  ultimately show ?thesis
    unfolding map_2m_def v prod.case pd P leaf_2m_def [symmetric]
    by (auto intro!: get_or_make_next_then [where ks = "[]" and k = i4]
        get_or_make_next_then [where ks = "[i4]" and k = i3] inv simp: i path_ok_def)
qed

lemma get_or_make_next_open:
  assumes t: "boot_inv t r" "desc (ptab t) r ks = Some f" "small_path (ptab t) r (va_path va)" "frames_left (Suc m) t"
    and ks: "va_path va = ks @ k # rest" "length ks < 3" "k < 512"
  shows "\<exists>g s'. get_or_make_next (HIGHER_HALF_MEMORY_OFFSET + f) (of_nat k) t =
      Done ((HIGHER_HALF_MEMORY_OFFSET + g, g), s') \<and> boot_inv s' r \<and> desc (ptab s') r (ks @ [k]) = Some g \<and>
    small_path (ptab s') r (va_path va) \<and> frames_left m s'"
proof -
  note vp = va_path_ok [of va]
  have k2: "path_ok 2 ks" using vp ks by (auto simp: path_ok_def)
  have "rest \<noteq> []" using vp(2) ks by auto
  then have "\<not> (pte_present (ptab t f k) \<and> pte_huge (ptab t f k))"
    using small_path_entry [OF _ t(2)] t(3) ks(1) by simp
  from get_or_make_next_ends(2) [OF t(1,2) k2 ks(3) this t(4)] obtain y s' where
    y: "get_or_make_next (HIGHER_HALF_MEMORY_OFFSET + f) (of_nat k) t = Done (y, s')" "frames_left m s'" by blast
  from ends_DoneD [OF get_or_make_next_ends(1) [OF t(1,2) k2 ks(3)] y(1)] y t(3)
    tables_grow_small_path [of r t s', OF _ vp]
  show ?thesis by (cases y) auto
qed

lemma map_4k_total:
  assumes inv: "boot_inv s r" and small: "small_path (ptab s) r (va_path va)" and left: "frames_left (n + 3) s"
  obtains s' where "map_4k (HIGHER_HALF_MEMORY_OFFSET + r) va pa flags s = Done s'" "frames_left n s'"
proof -
  obtain i4 i3 i2 i1 where P: "va_path va = [i4, i3, i2, i1]"
    and v: "vaddr_indices va = (of_nat i4, of_nat i3, of_nat i2, of_nat i1)"
    and i: "i4 < 512" "i3 < 512" "i2 < 512" "i1 < 512" by (rule vaddr_indices_path)
  have l3: "frames_left (Suc (Suc (Suc n))) s" using left by (simp add: numeral_3_eq_3)
  have "desc (ptab s) r [] = Some r" by simp
  from get_or_make_next_open [OF inv this small l3, of i4] P i obtain g1 s1 where
    1: "get_or_make_next (HIGHER_HALF_MEMORY_OFFSET + r) (of_nat i4) s = Done ((HIGHER_HALF_MEMORY_OFFSET + g1, g1), s1)"
      "boot_inv s1 r" "desc (ptab s1) r [i4] = Some g1" "small_path (ptab s1) r (va_path va)"
      "frames_left (Suc (Suc n)) s1" by auto
  from get_or_make_next_open [OF 1(2,3,4,5), of i3] P i obtain g2 s2 where
    2: "get_or_make_next (HIGHER_HALF_MEMORY_OFFSET + g1) (of_nat i3) s1 = Done ((HIGHER_HALF_MEMORY_OFFSET + g2, g2), s2)"
      "boot_inv s2 r" "desc (ptab s2) r [i4, i3] = Some g2" "small_path (ptab s2) r (va_path va)"
      "frames_left (Suc n) s2" by auto
  from get_or_make_next_open [OF 2(2,3,4,5), of i2] P i obtain g3 s3 where
    3: "get_or_make_next (HIGHER_HALF_MEMORY_OFFSET + g2) (of_nat i2) s2 = Done ((HIGHER_HALF_MEMORY_OFFSET + g3, g3), s3)"
      "frames_left n s3" by auto
  have "map_4k (HIGHER_HALF_MEMORY_OFFSET + r) va pa flags s =
      Done (s3\<lparr>mem := store64 (mem s3) (entry_addr (HIGHER_HALF_MEMORY_OFFSET + g3) (of_nat i1)) (leaf_4k pa flags)\<rparr>)"
    unfolding map_4k_def v leaf_4k_def using 1(1) 2(1) 3(1) by simp
  then show thesis by (rule that) (simp add: 3(2))
qed

lemma map_2m_total:
  assumes inv: "boot_inv s r" and small: "small_path (ptab s) r (va_path va)" and left: "frames_left (n + 2) s"
  obtains s' where "map_2m (HIGHER_HALF_MEMORY_OFFSET + r) va pa flags s = Done s'" "frames_left n s'"
proof -
  obtain i4 i3 i2 i1 where P: "va_path va = [i4, i3, i2, i1]"
    and v: "vaddr_indices va = (of_nat i4, of_nat i3, of_nat i2, of_nat i1)"
    and i: "i4 < 512" "i3 < 512" "i2 < 512" "i1 < 512" by (rule vaddr_indices_path)
  have l2: "frames_left (Suc (Suc n)) s" using left by (simp add: numeral_2_eq_2)
  have "desc (ptab s) r [] = Some r" by simp
  from get_or_make_next_open [OF inv this small l2, of i4] P i obtain g1 s1 where
    1: "get_or_make_next (HIGHER_HALF_MEMORY_OFFSET + r) (of_nat i4) s = Done ((HIGHER_HALF_MEMORY_OFFSET + g1, g1), s1)"
      "boot_inv s1 r" "desc (ptab s1) r [i4] = Some g1" "small_path (ptab s1) r (va_path va)"
      "frames_left (Suc n) s1" by auto
  from get_or_make_next_open [OF 1(2,3,4,5), of i3] P i obtain g2 s2 where
    2: "get_or_make_next (HIGHER_HALF_MEMORY_OFFSET + g1) (of_nat i3) s1 = Done ((HIGHER_HALF_MEMORY_OFFSET + g2, g2), s2)"
      "frames_left n s2" by auto
  have "map_2m (HIGHER_HALF_MEMORY_OFFSET + r) va pa flags s =
      Done (s2\<lparr>mem := store64 (mem s2) (entry_addr (HIGHER_HALF_MEMORY_OFFSET + g2) (of_nat i2)) (leaf_2m pa flags)\<rparr>)"
    unfolding map_2m_def get_or_make_pd_def v leaf_2m_def using 1(1) 2(1) by simp
  then show thesis by (rule that) (simp add: 2(2))
qed

lemma prefix_full: "length P = length Q \<Longrightarrow> prefix P Q \<longleftrightarrow> P = Q"
  by (auto elim!: prefixE)

lemma map_4k_tr:
  assumes inv: "boot_inv s r"
  shows "ends (\<lambda>s'. remap r {vpn va} s s' \<and> tr s' r (vpn va) = Some (leaf_4k pa flags, 0))
    (map_4k (HIGHER_HALF_MEMORY_OFFSET + r) va pa flags s)"
proof (rule ends_mono [OF map_4k_written [OF inv]])
  fix s' assume w: "leaf_written r (va_path va) (leaf_4k pa flags) s s'"
  note lr = leaf_written_remap [OF inv this leaf_4k_simps(2)]
  have p: "prefix (va_path va) (vpath n) \<longleftrightarrow> n = vpn va" if "n < 2 ^ 36" for n
    using vpath_inj [OF that, of "vpn va"] by (auto simp: va_path_vpn prefix_full)
  have "remap r {n. prefix (va_path va) (vpath n)} s s'" by (rule lr(1)) (simp add: va_path_ok)
  then have "remap r {vpn va} s s'" using p by (auto simp: remap_def)
  moreover have "tr s' r (vpn va) = Some (leaf_4k pa flags, 0)"
    using lr(2) [of "vpn va"] p [of "vpn va"] by (simp add: va_path_ok)
  ultimately show "remap r {vpn va} s s' \<and> tr s' r (vpn va) = Some (leaf_4k pa flags, 0)" by simp
qed

lemma map_2m_tr:
  assumes inv: "boot_inv s r"
  shows "ends (\<lambda>s'. remap r {n. n div 512 = vpn va div 512} s s' \<and>
      (\<forall>n < 2 ^ 36. n div 512 = vpn va div 512 \<longrightarrow> tr s' r n = Some (leaf_2m pa flags, 1)))
    (map_2m (HIGHER_HALF_MEMORY_OFFSET + r) va pa flags s)"
proof (rule ends_mono [OF map_2m_written [OF inv]])
  fix s' assume w: "leaf_written r (take 3 (va_path va)) (leaf_2m pa flags) s s'"
  note lr = leaf_written_remap [OF inv this leaf_2m_simps(1)]
  have p: "prefix (take 3 (va_path va)) (vpath n) \<longleftrightarrow> n div 512 = vpn va div 512" if "n < 2 ^ 36" for n
    using vpath_prefix3 [OF that, of "vpn va"] by (simp add: va_path_vpn)
  have len: "length (take 3 (va_path va)) = 3" by (simp add: va_path_ok)
  have "remap r {n. prefix (take 3 (va_path va)) (vpath n)} s s'" by (rule lr(1)) (use len in linarith)
  then have "remap r {n. n div 512 = vpn va div 512} s s'" using p by (auto simp: remap_def)
  moreover have "tr s' r n = Some (leaf_2m pa flags, 1)" if "n < 2 ^ 36" "n div 512 = vpn va div 512" for n
    using lr(2) [of n] p [OF that(1)] that(2) unfolding len by simp
  ultimately show "remap r {n. n div 512 = vpn va div 512} s s' \<and>
      (\<forall>n < 2 ^ 36. n div 512 = vpn va div 512 \<longrightarrow> tr s' r n = Some (leaf_2m pa flags, 1))" by simp
qed

section \<open>The walk\<close>

text \<open>What a translation gives: the frame of the entry joined with the offset of the address in a
  page of that level.\<close>

definition level_mask :: "nat \<Rightarrow> u64" where
  "level_mask l = (if l = 0 then ADDR_MASK else if l = 1 then ADDR_MASK_2M else ADDR_MASK_1G)"

definition level_size :: "nat \<Rightarrow> u64" where
  "level_size l = (if l = 0 then PAGE_SIZE else if l = 1 then PAGE_2M_SIZE else PAGE_1G_SIZE)"

definition translate :: "u64 \<Rightarrow> u64 \<times> nat \<Rightarrow> u64 \<times> nat" where
  "translate va = (\<lambda>(e, l). ((e AND level_mask l) OR (va AND (level_size l - 1)), Suc l))"

lemma walk_resolve:
  assumes inv: "boot_inv s r"
  shows "walk_va_to_pa va (HIGHER_HALF_MEMORY_OFFSET + r) s = map_option (translate va) (tr s r (vpn va))"
proof -
  obtain i4 i3 i2 i1 where P: "va_path va = [i4, i3, i2, i1]"
    and v: "vaddr_indices va = (of_nat i4, of_nat i3, of_nat i2, of_nat i1)" by (rule vaddr_indices_path)
  have ld: "load64 (mem s) (entry_addr (HIGHER_HALF_MEMORY_OFFSET + f) (of_nat k)) = ptab s f k" for f k
    by (simp add: tbl_def)
  have tr: "tr s r (vpn va) = resolve (ptab s) r [i4, i3, i2, i1]" by (simp add: tr_def P flip: va_path_vpn)
  have top: "\<not> pte_huge (ptab s r i4)" if "pte_present (ptab s r i4)"
    using boot_invD(4) [OF inv, of "vpn va" "ptab s r i4" 3] that tr by (auto simp: Let_def)
  have pp: "e AND PTE_P = 0 \<longleftrightarrow> \<not> pte_present e" "e AND PTE_PS = 0 \<longleftrightarrow> \<not> pte_huge e" for e
    by (simp_all add: pte_present_def pte_huge_def)
  show ?thesis
    unfolding tr walk_va_to_pa_def v prod.case Let_def phys_to_virt_def boot_invD(2) [OF inv]
      add.commute [of _ HIGHER_HALF_MEMORY_OFFSET] ld pp
    using top by (auto simp: Let_def translate_def level_mask_def level_size_def numeral_2_eq_2 numeral_3_eq_3)
qed

section \<open>Mapping a range of small pages\<close>
lemma unat_plus_pages:
  assumes "unat (va :: u64) + i * 4096 < 2 ^ 64"
  shows "unat (va + of_nat (i * 4096)) = unat va + i * 4096"
  using assms by (simp add: unat_word_ariths unat_of_nat)

lemma vpn_plus_pages:
  assumes "unat (va :: u64) + i * 4096 < 2 ^ 64" and "vpn va + i < 2 ^ 36"
  shows "vpn (va + of_nat (i * 4096)) = vpn va + i"
proof -
  have "(unat va + i * 4096) div 4096 = unat va div 4096 + i" by simp
  moreover have "(unat va div 4096 + i) mod 2 ^ 36 = (unat va div 4096 mod 2 ^ 36 + i) mod 2 ^ 36"
    by (simp only: mod_add_left_eq)
  moreover have "(unat va div 4096 mod 2 ^ 36 + i) mod 2 ^ 36 = vpn va + i"
    using assms(2) unfolding vpn_def by (rule mod_less)
  ultimately show ?thesis
    using unat_plus_pages [OF assms(1)] unfolding vpn_def by (simp add: add.commute [of i])
qed

lemma pages_snoc: "va + of_nat (i * 4096) + PAGE_SIZE = va + of_nat (Suc i * 4096)"
  by (simp add: PAGE_SIZE_def algebra_simps)

lemma page_measure:
  assumes "unat (va :: u64) + 4096 < 2 ^ 64"
  shows "2 ^ 52 - unat (va + PAGE_SIZE) div 4096 < 2 ^ 52 - unat va div 4096"
proof -
  have "unat (va + PAGE_SIZE) = unat va + 4096"
    using assms by (simp add: PAGE_SIZE_def unat_word_ariths)
  moreover have "unat va div 4096 < 2 ^ 52" using unat_u64_less [of va] by (intro div_less_iff_less_mult [THEN iffD2]) simp_all
  ultimately show ?thesis by simp
qed

text \<open>The pages \<open>va .. va + 4096 * i\<close> are mapped to consecutive frames from \<open>pa\<close>.\<close>

definition mapped_pages ::
    "u64 \<Rightarrow> u64 \<Rightarrow> u64 \<Rightarrow> u64 \<Rightarrow> nat \<Rightarrow> 'a paging_state_scheme \<Rightarrow> 'a paging_state_scheme \<Rightarrow> bool" where
  "mapped_pages r va pa flags i s t \<longleftrightarrow> remap r {vpn va ..< vpn va + i} s t \<and>
     (\<forall>j < i. tr t r (vpn va + j) = Some (leaf_4k (pa + of_nat (j * 4096)) flags, 0))"

lemma mapped_pages_step:
  assumes m: "mapped_pages r va pa flags i s t" and lim: "unat va + i * 4096 < 2 ^ 64" "vpn va + i < 2 ^ 36"
  shows "ends (mapped_pages r va pa flags (Suc i) s)
    (map_4k (HIGHER_HALF_MEMORY_OFFSET + r) (va + of_nat (i * 4096)) (pa + of_nat (i * 4096)) flags t)"
proof (rule ends_mono [OF map_4k_tr])
  have rm: "remap r {vpn va ..< vpn va + i} s t" using m by (simp add: mapped_pages_def)
  then show "boot_inv t r" by (rule remapD(1))
  fix u
  assume u: "remap r {vpn (va + of_nat (i * 4096))} t u \<and>
    tr u r (vpn (va + of_nat (i * 4096))) = Some (leaf_4k (pa + of_nat (i * 4096)) flags, 0)"
  have v: "vpn (va + of_nat (i * 4096)) = vpn va + i" by (rule vpn_plus_pages [OF lim])
  have u1: "remap r {vpn va + i} t u" "tr u r (vpn va + i) = Some (leaf_4k (pa + of_nat (i * 4096)) flags, 0)"
    using u unfolding v by simp_all
  have "remap r {vpn va ..< vpn va + Suc i} s u" by (rule remap_trans [OF rm u1(1)]) auto
  moreover have "tr u r (vpn va + j) = Some (leaf_4k (pa + of_nat (j * 4096)) flags, 0)" if "j < Suc i" for j
  proof (cases "j = i")
    case False
    with that lim(2) have "tr u r (vpn va + j) = tr t r (vpn va + j)"
      by (intro remapD(3) [OF u1(1)]) simp_all
    with m that False show ?thesis by (simp add: mapped_pages_def)
  qed (use u1(2) in simp)
  ultimately show "mapped_pages r va pa flags (Suc i) s u" by (simp add: mapped_pages_def)
qed

lemma map_range_4k_pages:
  assumes inv: "boot_inv s r" and al: "unat len = n * 4096"
    and lim: "unat va + n * 4096 < 2 ^ 64" "vpn va + n \<le> 2 ^ 36"
  shows "ends (mapped_pages r va pa flags n s) (map_range_4k (HIGHER_HALF_MEMORY_OFFSET + r) va pa len flags s)"
proof -
  define J where "J = (\<lambda>(v, p, t). \<exists>i \<le> n. v = va + of_nat (i * 4096) \<and> p = pa + of_nat (i * 4096) \<and>
    mapped_pages r va pa flags i s t)"
  define f where "f = (\<lambda>(v :: u64, p :: u64, t :: 'a paging_state_scheme). 2 ^ 52 - unat v div 4096)"
  have fin: "unat (va + len) = unat va + n * 4096" using al lim(1) by (simp add: unat_word_ariths)
  have lt: "va + of_nat (i * 4096) < va + len \<longleftrightarrow> i < n" if "i \<le> n" for i
    using unat_plus_pages [of va i] fin that lim(1) by (simp add: word_less_nat_alt)
  have "ends (\<lambda>x. J x \<and> \<not> (case x of (v, p, t) \<Rightarrow> v < va + len))
    (while_outcome PAGES_FUEL (\<lambda>(v, p, t). v < va + len)
      (map_step (\<lambda>v p. map_4k (HIGHER_HALF_MEMORY_OFFSET + r) v p flags) PAGE_SIZE) (va, pa, s))"
  proof (rule ends_while [where f = f])
    show "J (va, pa, s)" using remap_refl [OF inv] by (auto simp: J_def mapped_pages_def intro!: exI [of _ 0])
    show "f (va, pa, s) < PAGES_FUEL" by (simp add: f_def PAGES_FUEL_def)
    fix x assume x: "J x" "case x of (v, p, t) \<Rightarrow> v < va + len"
    then obtain i t where i: "i \<le> n" "mapped_pages r va pa flags i s t"
      and xe: "x = (va + of_nat (i * 4096), pa + of_nat (i * 4096), t)" by (auto simp: J_def)
    have "i < n" using x(2) lt [OF i(1)] by (simp add: xe)
    then have l: "unat va + i * 4096 < 2 ^ 64" "vpn va + i < 2 ^ 36" "unat (va + of_nat (i * 4096)) + 4096 < 2 ^ 64"
      using lim unat_plus_pages [of va i] by simp_all
    show "ends (\<lambda>y. J y \<and> f y < f x)
      (map_step (\<lambda>v p. map_4k (HIGHER_HALF_MEMORY_OFFSET + r) v p flags) PAGE_SIZE x)"
      unfolding map_step_def xe prod.case
    proof (rule ends_bind [OF mapped_pages_step [OF i(2) l(1,2)]])
      fix u assume "mapped_pages r va pa flags (Suc i) s u"
      then have "J (va + of_nat (i * 4096) + PAGE_SIZE, pa + of_nat (i * 4096) + PAGE_SIZE, u)"
        unfolding J_def pages_snoc using \<open>i < n\<close> by (auto intro!: exI [of _ "Suc i"])
      then show "ends (\<lambda>y. J y \<and> f y < f (va + of_nat (i * 4096), pa + of_nat (i * 4096), t))
        (Done (va + of_nat (i * 4096) + PAGE_SIZE, pa + of_nat (i * 4096) + PAGE_SIZE, u))"
        using page_measure [OF l(3)] by (simp add: f_def)
    qed
  qed
  then show ?thesis
    unfolding map_range_4k_def Let_def
    by (rule ends_bind) (use lt in \<open>auto simp: J_def\<close>)
qed

section \<open>The direct map\<close>

text \<open>Page \<open>n\<close> of physical memory is reached through the direct map at its own address, writable
  and not executable.\<close>

definition direct :: "'a paging_state_scheme \<Rightarrow> u64 \<Rightarrow> nat \<Rightarrow> bool" where
  "direct s r n \<longleftrightarrow> (\<exists>e l. tr s r (2 ^ 35 + n) = Some (e, l) \<and> bit e 1 \<and> bit e 63 \<and>
     (\<forall>p. unat p div 4096 = n \<longrightarrow> fst (translate (HIGHER_HALF_MEMORY_OFFSET + p) (e, l)) = p))"

lemma take_bit_HHMO:
  assumes "k \<le> 21" shows "take_bit k (HIGHER_HALF_MEMORY_OFFSET + p) = take_bit k p"
proof -
  have "2 ^ 21 dvd unat HIGHER_HALF_MEMORY_OFFSET" by (simp add: HIGHER_HALF_MEMORY_OFFSET_def)
  moreover have "(2 :: nat) ^ k dvd 2 ^ 21" using assms by (rule le_imp_power_dvd)
  ultimately have "2 ^ k dvd unat HIGHER_HALF_MEMORY_OFFSET" by (rule dvd_trans [rotated])
  then have "(unat HIGHER_HALF_MEMORY_OFFSET + unat p) mod 2 ^ k = unat p mod 2 ^ k"
    by (metis dvd_eq_mod_eq_0 mod_add_left_eq add_0)
  moreover have "(unat HIGHER_HALF_MEMORY_OFFSET + unat p) mod 2 ^ 64 mod 2 ^ k =
      (unat HIGHER_HALF_MEMORY_OFFSET + unat p) mod 2 ^ k"
    using assms by (intro mod_mod_cancel le_imp_power_dvd) simp
  moreover have "unat (take_bit k x) = unat x mod 2 ^ k" for x :: u64
    by (subst unsigned_take_bit_eq) (rule take_bit_eq_mod)
  moreover have "unat (HIGHER_HALF_MEMORY_OFFSET + p) = (unat HIGHER_HALF_MEMORY_OFFSET + unat p) mod 2 ^ 64"
    by (simp add: unat_word_ariths)
  ultimately show ?thesis by (simp only: word_unat_eq_iff)
qed

lemma bit_HHMO: "k < 21 \<Longrightarrow> bit (HIGHER_HALF_MEMORY_OFFSET + p) k = bit p k"
  using take_bit_HHMO [of 21 p] by (metis bit_take_bit_iff order_refl)

lemma small_phys_bits: "unat (p :: u64) < 2 ^ 46 \<Longrightarrow> bit p m \<Longrightarrow> m < 46"
proof -
  assume "unat p < 2 ^ 46" and b: "bit p m"
  then have "take_bit 46 (unat p) = unat p" by (simp add: take_bit_eq_mod)
  then have "take_bit 46 p = p" by (simp only: word_unat_eq_iff unsigned_take_bit_eq)
  then show ?thesis using b by (metis bit_take_bit_iff)
qed

lemma same_page_bits: "unat (p :: u64) div 2 ^ k = unat (q :: u64) div 2 ^ k \<Longrightarrow> k \<le> m \<Longrightarrow> bit p m = bit q m"
proof -
  assume "unat p div 2 ^ k = unat q div 2 ^ k" and k: "k \<le> m"
  then have "drop_bit k (unat p) = drop_bit k (unat q)" by (simp add: drop_bit_eq_div)
  then have "drop_bit k p = drop_bit k q" by (simp only: word_unat_eq_iff unat_drop_bit_eq)
  then have "bit (drop_bit k p) (m - k) = bit (drop_bit k q) (m - k)" by simp
  then show ?thesis using k by (simp add: bit_drop_bit_eq)
qed

lemma aligned_low_bits: "4096 dvd unat (p :: u64) \<Longrightarrow> m < 12 \<Longrightarrow> \<not> bit p m"
proof -
  assume "4096 dvd unat p" and m: "m < 12"
  then have "take_bit 12 (unat p) = 0" by (simp add: take_bit_eq_mod)
  then have "take_bit 12 p = 0" by (simp only: word_unat_eq_iff unsigned_take_bit_eq unsigned_0)
  then show ?thesis using m by (metis bit_0_eq bit_take_bit_iff bot_apply bot_bool_def)
qed

lemma bit_PTE_W: "bit PTE_W n \<longleftrightarrow> n = 1"
proof -
  have "PTE_W = (2 :: u64) ^ 1" by (simp add: PTE_W_def)
  then show ?thesis unfolding \<open>PTE_W = _\<close> bit_exp_iff by auto
qed

lemma bit_PTE_NX: "bit PTE_NX n \<longleftrightarrow> n = 63"
proof -
  have "PTE_NX = (2 :: u64) ^ 63" by (simp add: PTE_NX_def)
  then show ?thesis unfolding \<open>PTE_NX = _\<close> bit_exp_iff by auto
qed

lemma bit_PTE_P: "bit PTE_P n \<longleftrightarrow> n = 0"
  by (auto simp: PTE_P_def bit_1_iff)

lemmas pte_bits = bit_PTE_P bit_PTE_W bit_PTE_NX bit_PTE_PS bit_ADDR_MASK bit_ADDR_MASK_2M

lemma and_PAGE_mask: "x AND (PAGE_SIZE - 1) = take_bit 12 x" "x AND (PAGE_2M_SIZE - 1) = take_bit 21 x"
  by (simp_all add: PAGE_SIZE_def PAGE_2M_SIZE_def take_bit_eq_mask mask_eq_exp_minus_1)

lemma translate_4k:
  assumes "unat q div 4096 = unat p div 4096" and "unat p < 2 ^ 46"
  shows "fst (translate (HIGHER_HALF_MEMORY_OFFSET + p) (leaf_4k q flags, 0)) = p"
proof (rule bit_word_eqI)
  fix m assume "m < LENGTH(64)"
  have "12 \<le> m \<Longrightarrow> bit q m = bit p m" using same_page_bits [of q 12 p m] assms(1) by simp
  then show "bit (fst (translate (HIGHER_HALF_MEMORY_OFFSET + p) (leaf_4k q flags, 0))) m = bit p m"
    using small_phys_bits [OF assms(2), of m] bit_HHMO [of m p]
    by (auto simp: translate_def level_mask_def level_size_def and_PAGE_mask leaf_4k_bits bit_or_iff bit_and_iff
        bit_take_bit_iff bit_ADDR_MASK)
qed

lemma leaf_2m_bits:
  "bit (leaf_2m pa flags) m \<longleftrightarrow> bit pa m \<and> 13 \<le> m \<and> m < 52 \<or> bit flags m \<and> \<not> (12 \<le> m \<and> m < 52) \<or>
     m = 0 \<or> m = 1 \<or> m = 7"
proof -
  have "bit flags m \<Longrightarrow> m < 64" using bit_imp_le_length [of flags m] by simp
  then show ?thesis
    unfolding leaf_2m_def bit_or_iff bit_and_iff bit_not_iff pte_bits by auto
qed

lemma translate_2m:
  assumes "unat q div 2 ^ 21 = unat p div 2 ^ 21" and "2 ^ 21 dvd unat q" and "unat p < 2 ^ 46"
  shows "fst (translate (HIGHER_HALF_MEMORY_OFFSET + p) (leaf_2m q flags, 1)) = p"
proof (rule bit_word_eqI)
  fix m assume "m < LENGTH(64)"
  have hi: "21 \<le> m \<Longrightarrow> bit q m = bit p m" using same_page_bits [of q 21 p m] assms(1) by simp
  have "take_bit 21 (unat q) = 0" using assms(2) by (simp add: take_bit_eq_mod)
  then have "take_bit 21 q = 0" by (simp only: word_unat_eq_iff unsigned_take_bit_eq unsigned_0)
  then have lo: "m < 21 \<Longrightarrow> \<not> bit q m" by (metis bit_0_eq bit_take_bit_iff bot_apply bot_bool_def)
  show "bit (fst (translate (HIGHER_HALF_MEMORY_OFFSET + p) (leaf_2m q flags, 1))) m = bit p m"
    using small_phys_bits [OF assms(3), of m] bit_HHMO [of m p] hi lo
    by (cases "m < 21") (auto simp: translate_def level_mask_def level_size_def and_PAGE_mask leaf_2m_bits bit_or_iff bit_and_iff
        bit_take_bit_iff bit_ADDR_MASK_2M)
qed

text \<open>Pages \<open>lo .. hi - 1\<close> of physical memory have been entered into the direct map.\<close>

definition direct_step :: "u64 \<Rightarrow> nat \<Rightarrow> nat \<Rightarrow> 'a paging_state_scheme \<Rightarrow> 'a paging_state_scheme \<Rightarrow> bool" where
  "direct_step r lo hi s t \<longleftrightarrow> remap r {2 ^ 35 + lo ..< 2 ^ 35 + hi} s t \<and> (\<forall>n. lo \<le> n \<and> n < hi \<longrightarrow> direct t r n)"

lemma direct_same: "tr t r (2 ^ 35 + n) = tr s r (2 ^ 35 + n) \<Longrightarrow> direct t r n = direct s r n"
  by (simp add: direct_def)

lemma direct_step_refl: "boot_inv s r \<Longrightarrow> direct_step r lo lo s s"
  by (auto simp: direct_step_def remap_refl)

lemma direct_step_trans:
  assumes "direct_step r lo mid s t" and "direct_step r mid hi t u" and "lo \<le> mid" and "mid \<le> hi" and "hi \<le> 2 ^ 34"
  shows "direct_step r lo hi s u"
proof -
  note r = assms(1,2) [unfolded direct_step_def]
  have "remap r {2 ^ 35 + lo ..< 2 ^ 35 + hi} s u"
    by (rule remap_trans [OF conjunct1 [OF r(1)] conjunct1 [OF r(2)]]) (use assms(3,4) in auto)
  moreover have "direct u r n" if n: "lo \<le> n" "n < hi" for n
  proof (cases "n < mid")
    case True
    have "tr u r (2 ^ 35 + n) = tr t r (2 ^ 35 + n)"
      by (rule remapD(3) [OF conjunct1 [OF r(2)]]) (use n assms(5) True in simp_all)
    then have "direct u r n = direct t r n" by (rule direct_same)
    with True n r(1) show ?thesis by blast
  next
    case False
    with n r(2) show ?thesis by (simp add: not_less)
  qed
  ultimately show ?thesis by (simp add: direct_step_def)
qed

lemma unat_page: "n < 2 ^ 52 \<Longrightarrow> unat (of_nat (n * 4096) :: u64) = n * 4096"
  unfolding unsigned_of_nat take_bit_eq_mod by simp

lemma unat_div_page_less: "unat (p :: u64) div 4096 < 2 ^ 34 \<Longrightarrow> unat p < 2 ^ 46"
  by (simp add: div_less_iff_less_mult)

lemma vpn_direct:
  assumes "n \<le> 2 ^ 34" shows "vpn (HIGHER_HALF_MEMORY_OFFSET + of_nat (n * 4096)) = 2 ^ 35 + n"
proof -
  have "vpn HIGHER_HALF_MEMORY_OFFSET = 2 ^ 35" by (simp add: vpn_def HIGHER_HALF_MEMORY_OFFSET_def)
  moreover have "unat HIGHER_HALF_MEMORY_OFFSET = 0xFFFF800000000000" by (simp add: HIGHER_HALF_MEMORY_OFFSET_def)
  ultimately show ?thesis using vpn_plus_pages [of HIGHER_HALF_MEMORY_OFFSET n] assms by simp
qed

lemma map_4k_direct:
  assumes inv: "boot_inv s r" and n: "n < 2 ^ 34"
  shows "ends (direct_step r n (Suc n) s)
    (map_4k (HIGHER_HALF_MEMORY_OFFSET + r) (HIGHER_HALF_MEMORY_OFFSET + of_nat (n * 4096)) (of_nat (n * 4096))
       (0 OR PTE_W OR PTE_NX) s)"
proof (rule ends_mono [OF map_4k_tr [OF inv]])
  have v: "vpn (HIGHER_HALF_MEMORY_OFFSET + of_nat (n * 4096)) = 2 ^ 35 + n" using n by (intro vpn_direct) simp
  fix t
  assume t: "remap r {vpn (HIGHER_HALF_MEMORY_OFFSET + of_nat (n * 4096))} s t \<and>
    tr t r (vpn (HIGHER_HALF_MEMORY_OFFSET + of_nat (n * 4096))) =
      Some (leaf_4k (of_nat (n * 4096)) (0 OR PTE_W OR PTE_NX), 0)"
  have "{2 ^ 35 + n ..< 2 ^ 35 + Suc n} = {2 ^ 35 + n}" by auto
  moreover have "direct t r n"
    unfolding direct_def
  proof (intro exI conjI allI impI)
    show "tr t r (2 ^ 35 + n) = Some (leaf_4k (of_nat (n * 4096)) (0 OR PTE_W OR PTE_NX), 0)"
      using t unfolding v by simp
    show "bit (leaf_4k (of_nat (n * 4096)) (0 OR PTE_W OR PTE_NX)) 1"
      "bit (leaf_4k (of_nat (n * 4096)) (0 OR PTE_W OR PTE_NX)) 63"
      by (simp_all add: leaf_4k_bits bit_or_iff bit_PTE_W bit_PTE_NX del: bit_numeral_word_iff)
    fix p :: u64 assume p: "unat p div 4096 = n"
    show "fst (translate (HIGHER_HALF_MEMORY_OFFSET + p) (leaf_4k (of_nat (n * 4096)) (0 OR PTE_W OR PTE_NX), 0)) = p"
      by (rule translate_4k) (use p n unat_page [of n] unat_div_page_less [of p] in simp_all)
  qed
  ultimately show "direct_step r n (Suc n) s t" using t unfolding v direct_step_def
    by (metis le_antisym less_Suc_eq_le)
qed

lemma map_2m_direct:
  assumes inv: "boot_inv s r" and n: "n + 512 \<le> 2 ^ 34" "512 dvd n" and f: "bit flags 63"
  shows "ends (direct_step r n (n + 512) s)
    (map_2m (HIGHER_HALF_MEMORY_OFFSET + r) (HIGHER_HALF_MEMORY_OFFSET + of_nat (n * 4096)) (of_nat (n * 4096)) flags s)"
proof (rule ends_mono [OF map_2m_tr [OF inv]])
  have v: "vpn (HIGHER_HALF_MEMORY_OFFSET + of_nat (n * 4096)) = 2 ^ 35 + n" using n by (intro vpn_direct) simp
  fix t
  assume t: "remap r {m. m div 512 = vpn (HIGHER_HALF_MEMORY_OFFSET + of_nat (n * 4096)) div 512} s t \<and>
    (\<forall>m < 2 ^ 36. m div 512 = vpn (HIGHER_HALF_MEMORY_OFFSET + of_nat (n * 4096)) div 512 \<longrightarrow>
      tr t r m = Some (leaf_2m (of_nat (n * 4096)) flags, 1))"
  obtain k where k: "n = 512 * k" using n(2) by (elim dvdE)
  have pages: "m div 512 = (2 ^ 35 + n) div 512 \<longleftrightarrow> 2 ^ 35 + n \<le> m \<and> m < 2 ^ 35 + n + 512" for m
  proof -
    have "2 ^ 35 + n = (67108864 + k) * 512" by (simp add: k)
    then have d: "(2 ^ 35 + n) div 512 = 67108864 + k" by (metis nonzero_mult_div_cancel_right numeral_eq_iff zero_neq_numeral)
    show ?thesis unfolding d using div_times_less_eq_dividend [of m 512] dividend_less_div_times [of 512 m]
        less_eq_div_iff_mult_less_eq [of 512 "67108864 + k" m] div_less_iff_less_mult [of 512 m "67108864 + k + 1"]
      by (auto simp: k)
  qed
  have set: "{m. m div 512 = (2 ^ 35 + n) div 512} = {2 ^ 35 + n ..< 2 ^ 35 + (n + 512)}"
    unfolding pages by (auto simp: add.assoc)
  have un: "unat (of_nat (n * 4096) :: u64) = n * 4096" using n by (intro unat_page) simp
  have d21: "2 ^ 21 dvd n * 4096" by (simp add: k)
  have "direct t r m" if m: "n \<le> m" "m < n + 512" for m
    unfolding direct_def
  proof (intro exI conjI allI impI)
    have "(2 ^ 35 + m) div 512 = (2 ^ 35 + n) div 512" unfolding pages using m by simp
    then show "tr t r (2 ^ 35 + m) = Some (leaf_2m (of_nat (n * 4096)) flags, 1)"
      using t m n(1) unfolding v by simp
    show "bit (leaf_2m (of_nat (n * 4096)) flags) 1" "bit (leaf_2m (of_nat (n * 4096)) flags) 63"
      using f by (simp_all add: leaf_2m_bits)
    fix p :: u64 assume p: "unat p div 4096 = m"
    have "unat p div 2 ^ 21 = unat p div 4096 div 512" by (simp flip: div_mult2_eq)
    moreover have "m div 512 = k" using m k by (intro div_nat_eqI) simp_all
    moreover have "n * 4096 div 2 ^ 21 = k" by (simp add: k)
    ultimately show "fst (translate (HIGHER_HALF_MEMORY_OFFSET + p) (leaf_2m (of_nat (n * 4096)) flags, 1)) = p"
      using p m n(1) un d21 unat_div_page_less [of p] by (intro translate_2m) simp_all
  qed
  then show "direct_step r n (n + 512) s t" using t unfolding v set direct_step_def by simp
qed

text \<open>A loop that enters \<open>k\<close> pages per round into the direct map, from page \<open>q0\<close> on.\<close>

abbreviation hhdm_at :: "nat \<Rightarrow> 'a paging_state_scheme \<Rightarrow> u64 \<times> u64 \<times> 'a paging_state_scheme" where
  "hhdm_at q t \<equiv> (HIGHER_HALF_MEMORY_OFFSET + of_nat (q * 4096), of_nat (q * 4096), t)"

definition direct_upto ::
    "u64 \<Rightarrow> nat \<Rightarrow> nat \<Rightarrow> (nat \<Rightarrow> bool) \<Rightarrow> 'a paging_state_scheme \<Rightarrow> u64 \<times> u64 \<times> 'a paging_state_scheme \<Rightarrow> bool" where
  "direct_upto r lo hi I s x \<longleftrightarrow> (\<exists>q t. x = hhdm_at q t \<and> lo \<le> q \<and> q \<le> hi \<and> I q \<and> direct_step r lo q s t)"

lemma direct_loop:
  assumes start: "direct_upto r lo hi I s x" and hi: "hi \<le> 2 ^ 34" and k: "0 < k"
    and c: "\<And>q t. q \<le> hi \<Longrightarrow> I q \<Longrightarrow> c (hhdm_at q t) \<Longrightarrow> q + k \<le> hi \<and> I (q + k)"
    and body: "\<And>q t. q + k \<le> hi \<Longrightarrow> I q \<Longrightarrow> c (hhdm_at q t) \<Longrightarrow> boot_inv t r \<Longrightarrow>
      ends (direct_step r q (q + k) t) (F (HIGHER_HALF_MEMORY_OFFSET + of_nat (q * 4096)) (of_nat (q * 4096)) t)"
  shows "ends (\<lambda>y. direct_upto r lo hi I s y \<and> \<not> c y) (while_outcome PAGES_FUEL c (map_step F (of_nat (k * 4096))) x)"
proof -
  define f where "f = (\<lambda>(v :: u64, p :: u64, t :: 'a paging_state_scheme). 2 ^ 52 - unat p div 4096)"
  show ?thesis
  proof (rule ends_while [where f = f])
    show "direct_upto r lo hi I s x" by (rule start)
    show "f x < PAGES_FUEL" by (cases x) (simp add: f_def PAGES_FUEL_def)
    fix y assume "direct_upto r lo hi I s y" and cy: "c y"
    then obtain q t where y: "y = hhdm_at q t" and q: "lo \<le> q" "q \<le> hi" "I q" "direct_step r lo q s t"
      by (auto simp: direct_upto_def)
    have n: "q + k \<le> hi" "I (q + k)" using c [OF q(2,3)] cy y by simp_all
    have inv: "boot_inv t r" using q(4) remapD(1) by (auto simp: direct_step_def)
    have cy': "c (hhdm_at q t)" using cy y by simp
    show "ends (\<lambda>z. direct_upto r lo hi I s z \<and> f z < f y) (map_step F (of_nat (k * 4096)) y)"
      unfolding map_step_def y prod.case
    proof (rule ends_bind [OF body [OF n(1) q(3) cy' inv]])
      fix u assume u: "direct_step r q (q + k) t u"
      have st: "direct_step r lo (q + k) s u" by (rule direct_step_trans [OF q(4) u]) (use q n hi in simp_all)
      have adv: "(of_nat (q * 4096) :: u64) + of_nat (k * 4096) = of_nat ((q + k) * 4096)"
        by (simp add: algebra_simps)
      have un: "unat (of_nat (q * 4096) :: u64) = q * 4096" "unat (of_nat ((q + k) * 4096) :: u64) = (q + k) * 4096"
        using n(1) hi by (intro unat_page; simp)+
      have "f (hhdm_at (q + k) u) < f (hhdm_at q t)" using k n(1) hi unfolding f_def prod.case un by simp
      moreover have "direct_upto r lo hi I s (hhdm_at (q + k) u)"
        unfolding direct_upto_def by (intro exI conjI, rule refl) (use st q(1) n in simp_all)
      ultimately show "ends (\<lambda>z. direct_upto r lo hi I s z \<and> f z < f (hhdm_at q t))
        (Done (HIGHER_HALF_MEMORY_OFFSET + of_nat (q * 4096) + of_nat (k * 4096), of_nat (q * 4096) + of_nat (k * 4096), u))"
        unfolding add.assoc adv ends.simps by blast
    qed
  qed
qed

lemma direct_bounds:
  assumes hi: "hi \<le> 2 ^ 34" and q: "q \<le> hi"
  shows "(of_nat (q * 4096) :: u64) < of_nat (hi * 4096) \<longleftrightarrow> q < hi"
    and "(of_nat (q * 4096) :: u64) + PAGE_2M_SIZE \<le> of_nat (hi * 4096) \<longleftrightarrow> q + 512 \<le> hi"
    and "(of_nat (q * 4096) OR (HIGHER_HALF_MEMORY_OFFSET + of_nat (q * 4096))) AND (PAGE_2M_SIZE - 1) = (0 :: u64) \<longleftrightarrow> 512 dvd q"
proof -
  have un: "unat (of_nat (q * 4096) :: u64) = q * 4096" if "q \<le> hi + 512" for q
    using that hi by (intro unat_page) simp
  show "(of_nat (q * 4096) :: u64) < of_nat (hi * 4096) \<longleftrightarrow> q < hi"
    unfolding word_less_nat_alt using un [of q] un [of hi] q by simp
  have "(of_nat (q * 4096) :: u64) + PAGE_2M_SIZE = of_nat ((q + 512) * 4096)"
    by (simp add: PAGE_2M_SIZE_def algebra_simps)
  then have "unat ((of_nat (q * 4096) :: u64) + PAGE_2M_SIZE) = q * 4096 + 512 * 4096"
    using un [of "q + 512"] q by simp
  then show "(of_nat (q * 4096) :: u64) + PAGE_2M_SIZE \<le> of_nat (hi * 4096) \<longleftrightarrow> q + 512 \<le> hi"
    unfolding word_le_nat_alt using un [of hi] by linarith
  have "take_bit 21 (of_nat (q * 4096) :: u64) = 0 \<longleftrightarrow> unat (of_nat (q * 4096) :: u64) mod 2 ^ 21 = 0"
    by (metis unsigned_take_bit_eq take_bit_eq_mod unsigned_0 unsigned_eq_0_iff)
  also have "\<dots> \<longleftrightarrow> 512 * 4096 dvd q * 4096" using un [of q] q by auto
  also have "\<dots> \<longleftrightarrow> 512 dvd q" by (subst dvd_times_right_cancel_iff) simp_all
  finally show "(of_nat (q * 4096) OR (HIGHER_HALF_MEMORY_OFFSET + of_nat (q * 4096))) AND (PAGE_2M_SIZE - 1) = (0 :: u64) \<longleftrightarrow> 512 dvd q"
    by (simp only: and_PAGE_mask take_bit_or take_bit_HHMO [OF order_refl] or.idem)
qed

lemma page_strides: "PAGE_SIZE = of_nat (1 * 4096)" "PAGE_2M_SIZE = of_nat (512 * 4096)"
  by (simp_all add: PAGE_SIZE_def PAGE_2M_SIZE_def)

lemma map_range_huge_first_direct:
  assumes inv: "boot_inv s r" and lh: "lo \<le> hi" "hi \<le> 2 ^ 34"
  shows "ends (direct_step r lo hi s)
    (map_range_huge_first (HIGHER_HALF_MEMORY_OFFSET + r) (HIGHER_HALF_MEMORY_OFFSET + of_nat (lo * 4096))
       (of_nat (lo * 4096)) (of_nat ((hi - lo) * 4096)) 0 s)"
proof -
  let ?I1 = "\<lambda>_ :: nat. True" and ?I2 = "\<lambda>q. q = hi \<or> 512 dvd q"
  have fin: "(of_nat (lo * 4096) :: u64) + of_nat ((hi - lo) * 4096) = of_nat (hi * 4096)"
    using lh(1) by (simp add: of_nat_diff algebra_simps)
  note lt = direct_bounds(1) [OF lh(2)] and le = direct_bounds(2) [OF lh(2)] and al = direct_bounds(3) [OF lh(2), THEN iffD1]
  note step = page_strides
  have small: "ends (direct_step r q (q + 1) t)
      (map_4k (HIGHER_HALF_MEMORY_OFFSET + r) (HIGHER_HALF_MEMORY_OFFSET + of_nat (q * 4096)) (of_nat (q * 4096))
        (0 OR PTE_W OR PTE_NX) t)" if "q + 1 \<le> hi" "boot_inv t r" for q t
    using map_4k_direct [OF that(2), of q] that(1) lh(2) by simp
  have large: "ends (direct_step r q (q + 512) t)
      (map_2m (HIGHER_HALF_MEMORY_OFFSET + r) (HIGHER_HALF_MEMORY_OFFSET + of_nat (q * 4096)) (of_nat (q * 4096))
        (0 OR PTE_NX) t)" if "q + 512 \<le> hi" "boot_inv t r" "512 dvd q" for q t
    by (rule map_2m_direct [OF that(2)]) (use that lh(2) in \<open>simp_all add: bit_or_iff bit_PTE_NX\<close>)
  have start: "direct_upto r lo hi ?I1 s (hhdm_at lo s)"
    using direct_step_refl [OF inv] lh(1) by (auto simp: direct_upto_def)
  show ?thesis
    unfolding map_range_huge_first_def Let_def fin
  proof (rule ends_bind)
    show "ends (direct_upto r lo hi ?I2 s) (while_outcome PAGES_FUEL
        (\<lambda>(va, pa, s). pa < of_nat (hi * 4096) \<and> (pa OR va) AND (PAGE_2M_SIZE - 1) \<noteq> 0)
        (map_step (\<lambda>va pa. map_4k (HIGHER_HALF_MEMORY_OFFSET + r) va pa (0 OR PTE_W OR PTE_NX)) PAGE_SIZE)
        (hhdm_at lo s))"
      unfolding step(1)
    proof (rule ends_mono [OF direct_loop [OF start lh(2)]])
      fix y assume "direct_upto r lo hi ?I1 s y \<and> \<not> (case y of (va, pa, s) \<Rightarrow>
        pa < of_nat (hi * 4096) \<and> (pa OR va) AND (PAGE_2M_SIZE - 1) \<noteq> 0)"
      then obtain q t where y: "y = hhdm_at q t" "lo \<le> q" "q \<le> hi" "direct_step r lo q s t"
        and stop: "\<not> (case hhdm_at q t of (va, pa, s) \<Rightarrow>
          pa < of_nat (hi * 4096) \<and> (pa OR va) AND (PAGE_2M_SIZE - 1) \<noteq> 0)"
        unfolding direct_upto_def by blast
      have "?I2 q" using stop lt [OF y(3)] al [OF y(3)] y(3) unfolding prod.case by fastforce
      with y show "direct_upto r lo hi ?I2 s y" unfolding direct_upto_def by blast
    next
      fix q t assume "q \<le> hi" "case hhdm_at q t of (va, pa, s) \<Rightarrow>
        pa < of_nat (hi * 4096) \<and> (pa OR va) AND (PAGE_2M_SIZE - 1) \<noteq> 0"
      then show "q + 1 \<le> hi \<and> True" using lt [of q] unfolding prod.case by (auto simp only: Suc_eq_plus1 [symmetric] Suc_le_eq)
    qed (simp_all only: small)
    fix x assume x: "direct_upto r lo hi ?I2 s x"
    show "ends (direct_step r lo hi s) (bind_outcome (while_outcome PAGES_FUEL
        (\<lambda>(va, pa, s). pa + PAGE_2M_SIZE \<le> of_nat (hi * 4096))
        (map_step (\<lambda>va pa. map_2m (HIGHER_HALF_MEMORY_OFFSET + r) va pa (0 OR PTE_NX)) PAGE_2M_SIZE) x) (\<lambda>t2.
      bind_outcome (while_outcome PAGES_FUEL (\<lambda>(va, pa, s). pa < of_nat (hi * 4096))
        (map_step (\<lambda>va pa. map_4k (HIGHER_HALF_MEMORY_OFFSET + r) va pa (0 OR PTE_W OR PTE_NX)) PAGE_SIZE) t2)
        (\<lambda>(_, _, s'). Done s')))"
    proof (rule ends_bind)
      show "ends (direct_upto r lo hi ?I1 s) (while_outcome PAGES_FUEL
          (\<lambda>(va, pa, s). pa + PAGE_2M_SIZE \<le> of_nat (hi * 4096))
          (map_step (\<lambda>va pa. map_2m (HIGHER_HALF_MEMORY_OFFSET + r) va pa (0 OR PTE_NX)) PAGE_2M_SIZE) x)"
        unfolding step(2)
      proof (rule ends_mono [OF direct_loop [OF x lh(2)]])
        fix q t
        assume "q + 512 \<le> hi" "?I2 q" "boot_inv t r"
        then show "ends (direct_step r q (q + 512) t) (map_2m (HIGHER_HALF_MEMORY_OFFSET + r)
            (HIGHER_HALF_MEMORY_OFFSET + of_nat (q * 4096)) (of_nat (q * 4096)) (0 OR PTE_NX) t)"
          by (intro large) auto
      next
        fix q t assume q: "q \<le> hi" "?I2 q"
          "case hhdm_at q t of (va, pa, s) \<Rightarrow> pa + of_nat (512 * 4096) \<le> of_nat (hi * 4096)"
        then have "q + 512 \<le> hi" using le [OF q(1)] unfolding step(2) prod.case by blast
        with q(2) show "q + 512 \<le> hi \<and> ?I2 (q + 512)" by auto
      qed (auto simp: direct_upto_def)
      fix z assume z: "direct_upto r lo hi ?I1 s z"
      show "ends (direct_step r lo hi s) (bind_outcome (while_outcome PAGES_FUEL
          (\<lambda>(va, pa, s). pa < of_nat (hi * 4096))
          (map_step (\<lambda>va pa. map_4k (HIGHER_HALF_MEMORY_OFFSET + r) va pa (0 OR PTE_W OR PTE_NX)) PAGE_SIZE) z)
          (\<lambda>(_, _, s'). Done s'))"
      proof (rule ends_bind)
        show "ends (\<lambda>y. direct_upto r lo hi ?I1 s y \<and> \<not> (case y of (va, pa, s) \<Rightarrow> pa < of_nat (hi * 4096)))
          (while_outcome PAGES_FUEL (\<lambda>(va, pa, s). pa < of_nat (hi * 4096))
          (map_step (\<lambda>va pa. map_4k (HIGHER_HALF_MEMORY_OFFSET + r) va pa (0 OR PTE_W OR PTE_NX)) PAGE_SIZE) z)"
          unfolding step(1)
        proof (rule direct_loop [OF z lh(2)])
          fix q t assume "q \<le> hi" "case hhdm_at q t of (va, pa, s) \<Rightarrow> pa < of_nat (hi * 4096)"
          then show "q + 1 \<le> hi \<and> True" using lt [of q] unfolding prod.case by (auto simp only: Suc_eq_plus1 [symmetric] Suc_le_eq)
        qed (simp_all only: small)
        fix y assume "direct_upto r lo hi ?I1 s y \<and> \<not> (case y of (va, pa, s) \<Rightarrow> pa < of_nat (hi * 4096))"
        then obtain q t where "y = hhdm_at q t" "q \<le> hi" "\<not> q < hi" "direct_step r lo q s t"
          using lt unfolding direct_upto_def by fast
        then show "ends (direct_step r lo hi s) (case y of (_, _, s') \<Rightarrow> Done s')" by simp
      qed
    qed
  qed
qed

text \<open>The direct map has been extended by the pages \<open>A\<close>; pages that were in it still are.\<close>

definition direct_ext :: "u64 \<Rightarrow> nat set \<Rightarrow> 'a paging_state_scheme \<Rightarrow> 'a paging_state_scheme \<Rightarrow> bool" where
  "direct_ext r A s t \<longleftrightarrow> remap r ((+) (2 ^ 35) ` A) s t \<and>
     (\<forall>n < 2 ^ 34. direct s r n \<or> n \<in> A \<longrightarrow> direct t r n)"

lemma direct_step_ext:
  assumes "direct_step r lo hi s t" and "hi \<le> 2 ^ 34"
  shows "direct_ext r {lo ..< hi} s t"
proof -
  have rm: "remap r {2 ^ 35 + lo ..< 2 ^ 35 + hi} s t" and new: "\<forall>n. lo \<le> n \<and> n < hi \<longrightarrow> direct t r n"
    using assms(1) unfolding direct_step_def by blast+
  have "direct t r n" if n: "n < 2 ^ 34" "direct s r n" for n
  proof (cases "lo \<le> n \<and> n < hi")
    case False
    have "tr t r (2 ^ 35 + n) = tr s r (2 ^ 35 + n)"
      by (rule remapD(3) [OF rm]) (use n False in auto)
    then show ?thesis using n direct_same by blast
  qed (use new in blast)
  moreover have "remap r ((+) (2 ^ 35) ` {lo ..< hi}) s t" using rm by (simp add: image_add_atLeastLessThan add.commute)
  ultimately show ?thesis using new unfolding direct_ext_def by auto
qed

lemma direct_ext_refl: "boot_inv s r \<Longrightarrow> direct_ext r {} s s"
  by (simp add: direct_ext_def remap_refl)

lemma direct_ext_trans:
  assumes "direct_ext r A s t" and "direct_ext r B t u"
  shows "direct_ext r (A \<union> B) s u"
proof -
  have "remap r ((+) (2 ^ 35) ` (A \<union> B)) s u"
    by (rule remap_trans) (use assms in \<open>unfold direct_ext_def, blast+\<close>)
  then show ?thesis using assms unfolding direct_ext_def by blast
qed

lemma direct_ext_inv: "direct_ext r A s t \<Longrightarrow> boot_inv t r"
  unfolding direct_ext_def by (blast dest: remapD(1))

text \<open>The pages of an entry of the memory map.\<close>

abbreviation first_page :: "memmap_entry \<Rightarrow> nat" where "first_page e \<equiv> unat (me_base e) div 4096"
abbreviation past_page :: "memmap_entry \<Rightarrow> nat" where
  "past_page e \<equiv> (unat (me_base e) + unat (me_length e) + 4095) div 4096"

definition entry_pages :: "memmap_entry \<Rightarrow> nat set" where
  "entry_pages e = {first_page e ..< past_page e}"

text \<open>The memory map leaves room for the direct map below the kernel: it ends below 64 TiB.\<close>

definition hhdm_fits :: "memmap_entry list \<Rightarrow> bool" where
  "hhdm_fits es \<longleftrightarrow> (\<forall>e \<in> set es. unat (me_base e) + unat (me_length e) + 4096 \<le> 2 ^ 46)"

lemma page_of_nat: "4096 dvd unat (x :: u64) \<Longrightarrow> of_nat (unat x div 4096 * 4096) = x"
  by simp

lemma entry_bounds:
  assumes fits: "unat (me_base e) + unat (me_length e) + 4096 \<le> 2 ^ 46"
  defines "base \<equiv> ALIGN_DOWN (me_base e) PAGE_SIZE" and "fin \<equiv> ALIGN_UP (me_base e + me_length e) PAGE_SIZE"
  shows "base = of_nat (first_page e * 4096)" and "fin = of_nat (past_page e * 4096)" and "past_page e \<le> 2 ^ 34"
    and "fin \<le> base \<longleftrightarrow> past_page e \<le> first_page e"
    and "first_page e \<le> past_page e \<Longrightarrow> fin - base = of_nat ((past_page e - first_page e) * 4096)"
proof -
  have sum: "unat (me_base e + me_length e) = unat (me_base e) + unat (me_length e)"
    using fits by (simp add: unat_word_ariths)
  have ub: "unat base = first_page e * 4096" unfolding base_def PAGE_SIZE_def by (rule unat_ALIGN_DOWN_4096)
  have uf: "unat fin = past_page e * 4096" unfolding fin_def PAGE_SIZE_def
    using unat_ALIGN_UP_4096 [of "me_base e + me_length e"] sum fits by simp
  have "past_page e \<le> 2 ^ 46 div 4096" by (rule div_le_mono) (use fits in simp)
  then show "past_page e \<le> 2 ^ 34" by simp
  show ow: "base = of_nat (first_page e * 4096)" "fin = of_nat (past_page e * 4096)" unfolding ub [symmetric] uf [symmetric] by simp_all
  show "fin \<le> base \<longleftrightarrow> past_page e \<le> first_page e" unfolding word_le_nat_alt ub uf by simp
  show "fin - base = of_nat ((past_page e - first_page e) * 4096)" if "first_page e \<le> past_page e"
    unfolding ow using that by (simp add: of_nat_diff algebra_simps)
qed

lemma map_hhdm_entry:
  assumes inv: "boot_inv s r" and fits: "unat (me_base e) + unat (me_length e) + 4096 \<le> 2 ^ 46"
    and base: "base = ALIGN_DOWN (me_base e) PAGE_SIZE" and fin: "fin = ALIGN_UP (me_base e + me_length e) PAGE_SIZE"
  shows "fin \<le> base \<Longrightarrow> entry_pages e = {}"
    and "\<not> fin \<le> base \<Longrightarrow> ends (direct_ext r (entry_pages e) s)
      (map_range_huge_first (HIGHER_HALF_MEMORY_OFFSET + r) (HIGHER_HALF_MEMORY_OFFSET + base) base (fin - base) 0 s)"
proof -
  note b = entry_bounds [OF fits, folded base fin]
  show "fin \<le> base \<Longrightarrow> entry_pages e = {}" using b(4) by (simp add: entry_pages_def)
  assume "\<not> fin \<le> base"
  then have le: "first_page e \<le> past_page e" using b(4) by simp
  show "ends (direct_ext r (entry_pages e) s)
      (map_range_huge_first (HIGHER_HALF_MEMORY_OFFSET + r) (HIGHER_HALF_MEMORY_OFFSET + base) base (fin - base) 0 s)"
    unfolding b(5) [OF le] unfolding b(1) entry_pages_def
    by (rule ends_mono [OF map_range_huge_first_direct [OF inv le b(3)] direct_step_ext [OF _ b(3)]])
qed

lemma map_hhdm_entries_direct:
  assumes "boot_inv s r" and "hhdm_fits es"
  shows "ends (direct_ext r (\<Union>e \<in> {e \<in> set es. hhdm_include (me_type e)}. entry_pages e) s)
    (map_hhdm_entries (HIGHER_HALF_MEMORY_OFFSET + r) es s)"
  using assms
proof (induction es arbitrary: s)
  case Nil
  then show ?case by (simp add: direct_ext_refl)
next
  case (Cons e es)
  let ?P = "\<lambda>es. \<Union>e \<in> {e \<in> set es. hhdm_include (me_type e)}. entry_pages e"
  have fits: "unat (me_base e) + unat (me_length e) + 4096 \<le> 2 ^ 46" "hhdm_fits es"
    using Cons.prems(2) by (simp_all add: hhdm_fits_def)
  note IH = Cons.IH [OF _ fits(2)] and entry = map_hhdm_entry [OF Cons.prems(1) fits(1) refl refl]
  show ?case
  proof (cases "hhdm_include (me_type e)")
    case False
    then have "?P (e # es) = ?P es" by auto
    with False show ?thesis using IH [OF Cons.prems(1)] by simp
  next
    case True
    then have P: "?P (e # es) = entry_pages e \<union> ?P es" by auto
    let ?b = "ALIGN_DOWN (me_base e) PAGE_SIZE" and ?f = "ALIGN_UP (me_base e + me_length e) PAGE_SIZE"
    show ?thesis
    proof (cases "?f \<le> ?b")
      case True
      with P entry(1) have "?P (e # es) = ?P es" by simp
      with True \<open>hhdm_include (me_type e)\<close> show ?thesis using IH [OF Cons.prems(1)] by simp
    next
      case False
      have "ends (direct_ext r (?P (e # es)) s) (bind_outcome (map_range_huge_first (HIGHER_HALF_MEMORY_OFFSET + r)
          (HIGHER_HALF_MEMORY_OFFSET + ?b) ?b (?f - ?b) 0 s) (map_hhdm_entries (HIGHER_HALF_MEMORY_OFFSET + r) es))"
        unfolding P
        by (rule ends_bind [OF entry(2) [OF False]], rule ends_mono [OF IH [OF direct_ext_inv] direct_ext_trans])
      with True False boot_invD(2) [OF Cons.prems(1)] show ?thesis by (simp add: Let_def)
    qed
  qed
qed

lemma map_hhdm_direct:
  assumes inv: "boot_inv s r" and es: "memmap bi = Some es" "hhdm_fits es"
  shows "ends (direct_ext r ((\<Union>e \<in> {e \<in> set es. hhdm_include (me_type e)}. entry_pages e) \<union> {0 ..< 512}) s)
    (map_hhdm bi (HIGHER_HALF_MEMORY_OFFSET + r) s)"
proof (cases "es = []")
  case True
  then show ?thesis using inv es(1) by (simp add: map_hhdm_def)
next
  case False
  have eq: "map_hhdm bi (HIGHER_HALF_MEMORY_OFFSET + r) s =
      bind_outcome (map_hhdm_entries (HIGHER_HALF_MEMORY_OFFSET + r) es s)
        (\<lambda>t. map_2m (HIGHER_HALF_MEMORY_OFFSET + r) (g_hhdm t) 0 PTE_NX t)"
    using False es(1) boot_invD(2) [OF inv] by (simp add: map_hhdm_def)
  show ?thesis
    unfolding eq
  proof (rule ends_bind [OF map_hhdm_entries_direct [OF inv es(2)]])
    fix t assume t: "direct_ext r (\<Union>e \<in> {e \<in> set es. hhdm_include (me_type e)}. entry_pages e) s t"
    note inv' = direct_ext_inv [OF t]
    have "ends (direct_step r 0 512 t) (map_2m (HIGHER_HALF_MEMORY_OFFSET + r) (g_hhdm t) 0 PTE_NX t)"
      using map_2m_direct [OF inv', of 0 PTE_NX] boot_invD(2) [OF inv'] by (simp add: bit_PTE_NX)
    then show "ends (direct_ext r ((\<Union>e \<in> {e \<in> set es. hhdm_include (me_type e)}. entry_pages e) \<union> {0 ..< 512}) s)
        (map_2m (HIGHER_HALF_MEMORY_OFFSET + r) (g_hhdm t) 0 PTE_NX t)"
      by (rule ends_mono) (rule direct_ext_trans [OF t direct_step_ext], simp_all)
  qed
qed

section \<open>Coverage and the switch\<close>

text \<open>Only pages without a translation were touched, and they got 4 KiB pages.\<close>

definition keeps :: "u64 \<Rightarrow> 'a paging_state_scheme \<Rightarrow> 'a paging_state_scheme \<Rightarrow> bool" where
  "keeps r s t \<longleftrightarrow> remap r {n. tr s r n = None} s t \<and>
     (\<forall>n < 2 ^ 36. tr s r n = None \<longrightarrow> (\<forall>e l. tr t r n = Some (e, l) \<longrightarrow> l = 0))"

lemma keepsD: "keeps r s t \<Longrightarrow> n < 2 ^ 36 \<Longrightarrow> tr s r n = Some x \<Longrightarrow> tr t r n = Some x"
  unfolding keeps_def using remapD(3) by fastforce

lemma keeps_refl: "boot_inv s r \<Longrightarrow> keeps r s s"
  by (simp add: keeps_def remap_refl)

lemma keeps_trans: "keeps r s t \<Longrightarrow> keeps r t u \<Longrightarrow> keeps r s u"
proof -
  assume a: "keeps r s t" "keeps r t u"
  note k = a [unfolded keeps_def]
  have "remap r {n. tr s r n = None \<or> n \<ge> 2 ^ 36} s u"
  proof (rule remap_trans [OF conjunct1 [OF k(1)] conjunct1 [OF k(2)]])
    show "{n. tr t r n = None} \<subseteq> {n. tr s r n = None \<or> n \<ge> 2 ^ 36}"
    proof
      fix n assume "n \<in> {n. tr t r n = None}"
      then show "n \<in> {n. tr s r n = None \<or> n \<ge> 2 ^ 36}"
        using keepsD [OF a(1), of n] by (cases "tr s r n") (auto simp del: power_numeral intro: leI)
    qed
  qed auto
  moreover have "l = 0" if "n < 2 ^ 36" "tr s r n = None" "tr u r n = Some (e, l)" for n e l
    using that k keepsD [OF a(2) that(1)] by (cases "tr t r n") fastforce+
  ultimately show ?thesis unfolding keeps_def remap_def by auto
qed

lemma keeps_inv: "keeps r s t \<Longrightarrow> boot_inv t r"
  unfolding keeps_def by (blast dest: remapD(1))

lemma keeps_direct: "keeps r s t \<Longrightarrow> n < 2 ^ 34 \<Longrightarrow> direct s r n \<Longrightarrow> direct t r n"
  unfolding direct_def using keepsD [of r s t "2 ^ 35 + n"] by fastforce

text \<open>A page that no large page translates.\<close>

definition small_page :: "'a paging_state_scheme \<Rightarrow> u64 \<Rightarrow> nat \<Rightarrow> bool" where
  "small_page s r n \<longleftrightarrow> (\<forall>e l. tr s r n = Some (e, l) \<longrightarrow> l = 0)"

lemma small_page_remap: "remap r A s t \<Longrightarrow> n < 2 ^ 36 \<Longrightarrow> n \<notin> A \<Longrightarrow> small_page s r n \<Longrightarrow> small_page t r n"
  using remapD(3) unfolding small_page_def by fastforce

lemma small_page_keeps: "keeps r s t \<Longrightarrow> n < 2 ^ 36 \<Longrightarrow> small_page s r n \<Longrightarrow> small_page t r n"
  using keepsD [of r s t n] unfolding keeps_def small_page_def by (cases "tr s r n") fastforce+

lemma walk_None:
  "boot_inv s r \<Longrightarrow> walk_va_to_pa va (HIGHER_HALF_MEMORY_OFFSET + r) s = None \<longleftrightarrow> tr s r (vpn va) = None"
  by (simp add: walk_resolve)

lemma ensure_page_keeps:
  assumes inv: "boot_inv s r"
  shows "ends (keeps r s) (ensure_hhdm_cover_phys_page (HIGHER_HALF_MEMORY_OFFSET + r) phys s)"
proof (cases "walk_va_to_pa (g_hhdm s + ALIGN_DOWN phys PAGE_SIZE) (HIGHER_HALF_MEMORY_OFFSET + r) s")
  case None
  let ?va = "g_hhdm s + ALIGN_DOWN phys PAGE_SIZE"
  have n: "tr s r (vpn ?va) = None" using walk_None [OF inv] None by simp
  have "ends (keeps r s) (map_4k (HIGHER_HALF_MEMORY_OFFSET + r) ?va (ALIGN_DOWN phys PAGE_SIZE) (PTE_W OR PTE_NX) s)"
  proof (rule ends_mono [OF map_4k_tr [OF inv]])
    fix t assume t: "remap r {vpn ?va} s t \<and> tr t r (vpn ?va) = Some (leaf_4k (ALIGN_DOWN phys PAGE_SIZE) (PTE_W OR PTE_NX), 0)"
    have "l = 0" if "n < 2 ^ 36" "tr s r n = None" "tr t r n = Some (e, l)" for n e l
      using t that remapD(3) [OF conjunct1 [OF t] that(1)] by (cases "n = vpn ?va") simp_all
    then show "keeps r s t" using t n by (auto simp: keeps_def intro: remap_mono)
  qed
  with None show ?thesis by (simp add: ensure_hhdm_cover_phys_page_def Let_def)
qed (simp add: ensure_hhdm_cover_phys_page_def keeps_refl [OF inv])

lemma scan_runs: "runs (\<lambda>_. True) (scan_hhdm_range 0 (16 * 1024 * 1024) PAGE_2M_SIZE pml4 s)"
proof -
  have c: "PAGE_2M_SIZE = 0x200000" "(16 * 1024 * 1024 :: u64) = 0x1000000" by (simp_all add: PAGE_2M_SIZE_def)
  define f where "f x = 2 ^ 64 - unat (fst x)" for x :: "u64 \<times> bool option \<times> u64 \<times> (u64 \<times> u64 \<times> bool) list"
  have "runs (\<lambda>x. True \<and> \<not> (case x of (phys, _) \<Rightarrow> phys < 0x1000000))
    (while_outcome (2 ^ 64 + 1) (\<lambda>(phys, _). phys < 0x1000000) (scan_step s pml4 0x200000) (0, None, 0, []))"
  proof (rule runs_while [where f = f and P = "\<lambda>_. True"])
    show "f (0, None, 0, []) < 2 ^ 64 + 1" by (simp add: f_def)
    fix x :: "u64 \<times> bool option \<times> u64 \<times> (u64 \<times> u64 \<times> bool) list"
    assume "case x of (phys, _) \<Rightarrow> phys < 0x1000000"
    then have "unat (fst x + 0x200000) = unat (fst x) + 0x200000"
      by (cases x) (simp add: word_less_nat_alt unat_word_ariths)
    moreover have "unat (fst x) < 2 ^ 64" by simp
    ultimately have "f (fst x + 0x200000, y) < f x" for y
      unfolding f_def fst_conv by linarith
    then show "runs (\<lambda>y. True \<and> f y < f x) (scan_step s pml4 0x200000 x)"
      by (cases x) (auto simp: scan_step_def Let_def split: option.split)
  qed simp_all
  then show ?thesis
    unfolding scan_hhdm_range_def c Let_def by simp (erule runs_mono, auto)
qed

section \<open>The direct-map window\<close>
lemma vpn_window:
  assumes "unat p < 2 ^ 46"
  shows "vpn (HIGHER_HALF_MEMORY_OFFSET + p) = 2 ^ 35 + unat p div 4096"
proof -
  have "unat (HIGHER_HALF_MEMORY_OFFSET + p) = 0xFFFF800000000000 + unat p"
    using assms by (simp add: HIGHER_HALF_MEMORY_OFFSET_def unat_word_ariths)
  moreover have "(0xFFFF800000000000 + unat p) div 4096 = 0xFFFF800000000 + unat p div 4096" by simp
  moreover have "(0xFFFF800000000 + unat p div 4096) mod 2 ^ 36 = 2 ^ 35 + unat p div 4096"
  proof -
    have "0xFFFF800000000 + unat p div 4096 = (2 ^ 35 + unat p div 4096) + 65535 * 2 ^ 36" by simp
    moreover have "unat p div 4096 < 2 ^ 34" using assms by (simp add: div_less_iff_less_mult)
    ultimately show ?thesis by (simp only: mod_mult_self1) simp
  qed
  ultimately show ?thesis by (simp only: vpn_def)
qed

lemma direct_walk:
  assumes inv: "boot_inv t r" and d: "direct t r (unat p div 4096)" and lt: "unat p < 2 ^ 46"
  shows "\<exists>l. walk_va_to_pa (HIGHER_HALF_MEMORY_OFFSET + p) (HIGHER_HALF_MEMORY_OFFSET + r) t = Some (p, l)"
proof -
  obtain e l where "tr t r (2 ^ 35 + unat p div 4096) = Some (e, l)"
    "fst (translate (HIGHER_HALF_MEMORY_OFFSET + p) (e, l)) = p" using d by (auto simp: direct_def)
  then show ?thesis
    using walk_resolve [OF inv, of "HIGHER_HALF_MEMORY_OFFSET + p"] by (simp add: vpn_window [OF lt] translate_def)
qed

lemma vpn_page: "vpn (HIGHER_HALF_MEMORY_OFFSET + ALIGN_DOWN x PAGE_SIZE) = vpn (HIGHER_HALF_MEMORY_OFFSET + x)"
proof -
  have page: "(h * 4096 + (q * 4096 + m)) mod (4096 * 2 ^ 52) div 4096 = (h + q) mod 2 ^ 52" if "m < 4096" for h q m :: nat
  proof -
    have "(h * 4096 + (q * 4096 + m)) div 4096 = h + q" "(h * 4096 + (q * 4096 + m)) mod 4096 = m" using that by simp_all
    then show ?thesis using that by (simp only: mod_mult2_eq)
  qed
  have h: "unat HIGHER_HALF_MEMORY_OFFSET = 0xFFFF800000000 * 4096" by (simp add: HIGHER_HALF_MEMORY_OFFSET_def)
  have x: "unat x = unat x div 4096 * 4096 + unat x mod 4096" by simp
  have sz: "(2 :: nat) ^ LENGTH(64) = 4096 * 2 ^ 52" by simp
  have "unat (HIGHER_HALF_MEMORY_OFFSET + x) div 4096 = (0xFFFF800000000 + unat x div 4096) mod 2 ^ 52"
    unfolding unat_word_ariths h sz by (subst x) (rule page, simp)
  moreover have "unat (HIGHER_HALF_MEMORY_OFFSET + ALIGN_DOWN x PAGE_SIZE) div 4096 = (0xFFFF800000000 + unat x div 4096) mod 2 ^ 52"
    unfolding unat_word_ariths h sz PAGE_SIZE_def unat_ALIGN_DOWN_4096 using page [of 0 "0xFFFF800000000" "unat x div 4096"] by simp
  ultimately show ?thesis by (simp only: vpn_def)
qed

text \<open>Whatever is mapped in the window is mapped to the address it stands for.\<close>

definition hhdm_window :: "'a paging_state_scheme \<Rightarrow> u64 \<Rightarrow> bool" where
  "hhdm_window s r \<longleftrightarrow> (\<forall>n < 2 ^ 34. tr s r (2 ^ 35 + n) = None \<or> direct s r n)"

lemma window_walk:
  assumes "hhdm_window s r" and "boot_inv s r" and "unat p < 2 ^ 46"
    and "walk_va_to_pa (HIGHER_HALF_MEMORY_OFFSET + p) (HIGHER_HALF_MEMORY_OFFSET + r) s \<noteq> None"
  shows "direct s r (unat p div 4096)"
    and "\<exists>l. walk_va_to_pa (HIGHER_HALF_MEMORY_OFFSET + p) (HIGHER_HALF_MEMORY_OFFSET + r) s = Some (p, l)"
proof -
  have "unat p div 4096 < 2 ^ 34" using assms(3) by (simp add: div_less_iff_less_mult)
  then show "direct s r (unat p div 4096)"
    using assms(1,4) walk_None [OF assms(2)] by (auto simp: hhdm_window_def vpn_window [OF assms(3)])
  from direct_walk [OF assms(2) this assms(3)]
  show "\<exists>l. walk_va_to_pa (HIGHER_HALF_MEMORY_OFFSET + p) (HIGHER_HALF_MEMORY_OFFSET + r) s = Some (p, l)" .
qed

lemma window_remap:
  assumes "hhdm_window s r" and "remap r A s t" and "\<And>n. n < 2 ^ 34 \<Longrightarrow> 2 ^ 35 + n \<in> A \<Longrightarrow> direct t r n"
  shows "hhdm_window t r"
  unfolding hhdm_window_def
proof (intro allI impI)
  fix n :: nat assume n: "n < 2 ^ 34"
  show "tr t r (2 ^ 35 + n) = None \<or> direct t r n"
  proof (cases "2 ^ 35 + n \<in> A")
    case False
    then have "tr t r (2 ^ 35 + n) = tr s r (2 ^ 35 + n)" using remapD(3) [OF assms(2)] n by simp
    with assms(1) n direct_same show ?thesis unfolding hhdm_window_def by metis
  qed (use assms(3) n in blast)
qed

text \<open>A page is patched in only at its own direct-map address.\<close>
lemma ensure_page_window:
  assumes inv: "boot_inv s r" and w: "hhdm_window s r"
    and p: "unat p < 2 ^ 46 \<or> tr s r (vpn (HIGHER_HALF_MEMORY_OFFSET + p)) \<noteq> None"
  shows "ends (\<lambda>t. keeps r s t \<and> hhdm_window t r) (ensure_hhdm_cover_phys_page (HIGHER_HALF_MEMORY_OFFSET + r) p s)"
proof (cases "tr s r (vpn (HIGHER_HALF_MEMORY_OFFSET + p)) = None")
  case True
  let ?n = "unat p div 4096"
  have lt: "?n < 2 ^ 34" using True p by (simp add: div_less_iff_less_mult)
  have page: "ALIGN_DOWN p PAGE_SIZE = of_nat (?n * 4096)"
    using lt unat_page [of ?n] by (simp add: word_unat_eq_iff PAGE_SIZE_def align_simps)
  have none: "walk_va_to_pa (g_hhdm s + ALIGN_DOWN p PAGE_SIZE) (HIGHER_HALF_MEMORY_OFFSET + r) s = None"
    using True walk_None [OF inv] boot_invD(2) [OF inv] by (simp add: vpn_page)
  have "ends (\<lambda>t. hhdm_window t r) (ensure_hhdm_cover_phys_page (HIGHER_HALF_MEMORY_OFFSET + r) p s)"
    using none map_4k_direct [OF inv lt] boot_invD(2) [OF inv]
    by (simp add: ensure_hhdm_cover_phys_page_def Let_def page)
       (erule ends_mono, auto simp: direct_step_def intro: window_remap [OF w])
  with ensure_page_keeps [OF inv, of p] show ?thesis
    by (cases "ensure_hhdm_cover_phys_page (HIGHER_HALF_MEMORY_OFFSET + r) p s") simp_all
next
  case False
  then have "walk_va_to_pa (g_hhdm s + ALIGN_DOWN p PAGE_SIZE) (HIGHER_HALF_MEMORY_OFFSET + r) s \<noteq> None"
    using walk_None [OF inv] boot_invD(2) [OF inv] by (simp add: vpn_page)
  then show ?thesis using w keeps_refl [OF inv] by (simp add: ensure_hhdm_cover_phys_page_def)
qed

text \<open>One patched page: nothing that was mapped changes, and the window stays direct if the page is
  one the window can hold, or was mapped already.\<close>

definition patched :: "u64 \<Rightarrow> u64 \<Rightarrow> 'a paging_state_scheme \<Rightarrow> 'a paging_state_scheme \<Rightarrow> bool" where
  "patched r p s t \<longleftrightarrow> keeps r s t \<and> (hhdm_window s r \<longrightarrow>
     unat p < 2 ^ 46 \<or> tr s r (vpn (HIGHER_HALF_MEMORY_OFFSET + p)) \<noteq> None \<longrightarrow> hhdm_window t r)"

lemma ensure_page_patched:
  assumes inv: "boot_inv s r"
  shows "ends (patched r p s) (ensure_hhdm_cover_phys_page (HIGHER_HALF_MEMORY_OFFSET + r) p s)"
  using ensure_page_keeps [OF inv, of p] ensure_page_window [OF inv, of p]
  by (cases "ensure_hhdm_cover_phys_page (HIGHER_HALF_MEMORY_OFFSET + r) p s") (auto simp: patched_def)

lemma patched_refl: "boot_inv s r \<Longrightarrow> patched r p s s"
  by (simp add: patched_def keeps_refl)

lemma patched_trans: "patched r 0 s t \<Longrightarrow> patched r p t u \<Longrightarrow> unat p < 2 ^ 46 \<Longrightarrow> patched r 0 s u"
  unfolding patched_def using keeps_trans by auto

lemma ensure_range_patched:
  assumes inv: "boot_inv s r"
  shows "ends (patched r 0 s) (ensure_hhdm_cover_phys_range (HIGHER_HALF_MEMORY_OFFSET + r) 0 PAGE_2M_SIZE s)"
proof -
  have fin: "ALIGN_UP (0 + PAGE_2M_SIZE) PAGE_SIZE = 0x200000" "ALIGN_DOWN 0 PAGE_SIZE = 0" "PAGE_2M_SIZE \<noteq> 0"
    by (simp_all add: ALIGN_UP_def ALIGN_DOWN_def PAGE_2M_SIZE_def PAGE_SIZE_def)
  define f where "f = (\<lambda>(p :: u64, t :: 'a paging_state_scheme). 2 ^ 52 - unat p div 4096)"
  have "ends (\<lambda>x. (case x of (p, t) \<Rightarrow> patched r 0 s t) \<and> \<not> (case x of (p, t) \<Rightarrow> p < 0x200000))
    (while_outcome PAGES_FUEL (\<lambda>(page, s). page < 0x200000)
      (\<lambda>(page, s). bind_outcome (ensure_hhdm_cover_phys_page (HIGHER_HALF_MEMORY_OFFSET + r) page s)
         (\<lambda>s'. Done (page + PAGE_SIZE, s'))) (0, s))"
  proof (rule ends_while [where f = f])
    show "case (0, s) of (p, t) \<Rightarrow> patched r 0 s t" using patched_refl [OF inv] by simp
    show "f (0, s) < PAGES_FUEL" by (simp add: f_def PAGES_FUEL_def)
    fix x :: "u64 \<times> 'a paging_state_scheme"
    assume x: "case x of (p, t) \<Rightarrow> patched r 0 s t" "case x of (page, s) \<Rightarrow> page < 0x200000"
    obtain p t where xe: "x = (p, t)" by (cases x)
    have "unat p + 4096 < 2 ^ 64" using x(2) by (simp add: xe word_less_nat_alt)
    then have m: "f (p + PAGE_SIZE, u) < f (p, t)" for u using page_measure [of p] by (simp add: f_def)
    have kt: "patched r 0 s t" using x(1) by (simp add: xe)
    then have it: "boot_inv t r" by (auto simp: patched_def dest: keeps_inv)
    have low: "unat p < 2 ^ 46" using x(2) by (simp add: xe word_less_nat_alt)
    show "ends (\<lambda>y. (case y of (p, t) \<Rightarrow> patched r 0 s t) \<and> f y < f x)
      (case x of (page, s) \<Rightarrow> bind_outcome (ensure_hhdm_cover_phys_page (HIGHER_HALF_MEMORY_OFFSET + r) page s)
         (\<lambda>s'. Done (page + PAGE_SIZE, s')))"
      unfolding xe prod.case
      by (rule ends_bind [OF ensure_page_patched [OF it]]) (use m patched_trans [OF kt _ low] in simp)
  qed
  then show ?thesis
    unfolding ensure_hhdm_cover_phys_range_def fin(1,2) if_not_P [OF fin(3)] Let_def by (rule ends_bind) auto
qed

text \<open>What \<open>pre_switch_audit_and_patch\<close> has checked when it returns.\<close>

definition reachable_va :: "'a paging_state_scheme \<Rightarrow> u64 \<Rightarrow> u64 \<Rightarrow> bool" where
  "reachable_va s r va \<longleftrightarrow> walk_va_to_pa va (HIGHER_HALF_MEMORY_OFFSET + r) s \<noteq> None"

text \<open>The page the audit picks for the stack can be patched in.\<close>

definition stack_low :: "boot_info \<Rightarrow> u64 \<Rightarrow> u64 \<Rightarrow> 'a paging_state_scheme \<Rightarrow> bool" where
  "stack_low bi rsp r s \<longleftrightarrow> (\<forall>q. (if HIGHER_HALF_MEMORY_OFFSET \<le> rsp \<and> rsp < HIGHER_HALF_MEMORY_OFFSET + get_max_phys bi
        then q = rsp - HIGHER_HALF_MEMORY_OFFSET
        else \<exists>l. walk_va_to_pa rsp (HIGHER_HALF_MEMORY_OFFSET + r) s = Some (q, l)) \<longrightarrow>
     unat q < 2 ^ 46 \<or> tr s r (vpn (HIGHER_HALF_MEMORY_OFFSET + q)) \<noteq> None)"

definition low_roots :: "boot_info \<Rightarrow> u64 \<Rightarrow> u64 \<Rightarrow> 'a paging_state_scheme \<Rightarrow> bool" where
  "low_roots bi rsp r s \<longleftrightarrow> hhdm_window s r \<and> unat (cr3 s AND ADDR_MASK) < 2 ^ 46 \<and> unat r < 2 ^ 46 \<and> stack_low bi rsp r s"

lemma audit_keeps:
  assumes inv: "boot_inv s r"
  shows "ends (\<lambda>t. keeps r s t \<and> reachable_va t r rsp \<and> reachable_va t r rip \<and>
      reachable_va t r (HIGHER_HALF_MEMORY_OFFSET + (cr3 s AND ADDR_MASK)) \<and>
      reachable_va t r (HIGHER_HALF_MEMORY_OFFSET + r) \<and> (low_roots bi rsp r s \<longrightarrow> hhdm_window t r))
    (pre_switch_audit_and_patch bi rsp rip (HIGHER_HALF_MEMORY_OFFSET + r) r s)"
proof -
  let ?M = "\<lambda>q. stack_low bi rsp r s \<longrightarrow> unat q < 2 ^ 46 \<or> tr s r (vpn (HIGHER_HALF_MEMORY_OFFSET + q)) \<noteq> None"
  have hh: "g_hhdm s = HIGHER_HALF_MEMORY_OFFSET" by (rule boot_invD(2) [OF inv])
  have first: "ends ?M (if rsp \<ge> g_hhdm s \<and> rsp < g_hhdm s + get_max_phys bi then Done (rsp - g_hhdm s)
      else case walk_va_to_pa rsp (HIGHER_HALF_MEMORY_OFFSET + r) s of
        None \<Rightarrow> Panic ''paging_bootstrap: stack VA missing before CR3 switch'' | Some (rsp_phys, _) \<Rightarrow> Done rsp_phys)"
    by (auto simp: hh stack_low_def split: option.split if_splits)
  have all: "keeps r s s4 \<and> g_hhdm s4 = HIGHER_HALF_MEMORY_OFFSET \<and> (low_roots bi rsp r s \<longrightarrow> hhdm_window s4 r)"
    if q: "?M q" and p: "patched r 0 s s1" "patched r q s1 s2" "patched r (cr3 s AND ADDR_MASK) s2 s3" "patched r r s3 s4"
    for q s1 s2 s3 s4
  proof -
    have k: "keeps r s s1" "keeps r s1 s2" "keeps r s2 s3" "keeps r s3 s4" using p by (simp_all add: patched_def)
    then have "keeps r s s4" using keeps_trans by blast
    moreover have "hhdm_window s4 r" if low: "low_roots bi rsp r s"
    proof -
      have "hhdm_window s1 r" using p(1) low by (simp add: patched_def low_roots_def)
      moreover have "unat q < 2 ^ 46 \<or> tr s1 r (vpn (HIGHER_HALF_MEMORY_OFFSET + q)) \<noteq> None"
        using q low keepsD [OF k(1), of "vpn (HIGHER_HALF_MEMORY_OFFSET + q)"] by (auto simp: low_roots_def)
      ultimately show ?thesis using p(2-4) low by (simp add: patched_def low_roots_def)
    qed
    ultimately show ?thesis using boot_invD(2) [OF keeps_inv] by blast
  qed
  have inv_p: "boot_inv t r" if "patched r p u t" for p u t using that keeps_inv by (auto simp: patched_def)
  note page = ends_bind [OF ensure_page_patched [OF inv_p]]
  show ?thesis
    unfolding pre_switch_audit_and_patch_def Let_def
    by (rule ends_bind [OF first], rule ends_bind [OF ensure_range_patched [OF inv]], rule page, assumption,
        rule page, assumption, rule page, assumption, frule (4) all)
      (auto simp: reachable_va_def)
qed

section \<open>The root table and the kernel image\<close>
lemma alloc_root:
  assumes ok: "supplier_ok s" and hh: "g_hhdm s = HIGHER_HALF_MEMORY_OFFSET"
    and early: "g_boot_phys_page s = Some supply_from_early"
  shows "ends (\<lambda>((virt, phys), s1). virt = HIGHER_HALF_MEMORY_OFFSET + phys \<and> paging_only s s1 \<and>
      boot_inv (s1\<lparr>g_pml4_phys := phys, g_pml4_virt := virt\<rparr>) phys \<and>
      (\<forall>n. tr (s1\<lparr>g_pml4_phys := phys, g_pml4_virt := virt\<rparr>) phys n = None)) (alloc_table s)"
proof (cases "early_alloc_page s")
  case (Done y)
  obtain a s1 where y: "y = (a, s1)" by force
  have get: "PagingGetFreeFrame s = Done (a, s1)" using Done early by (simp add: PagingGetFreeFrame_def y)
  note facts = supplier.get_facts [OF ok get] and same = get_free_frame_same [OF ok get]
  have va: "valid_frame a" by (rule get_free_frame_valid [OF ok get])
  note f = paging_only_fields [OF same(1)]
  define m where "m = memset (mem s1) (HIGHER_HALF_MEMORY_OFFSET + a) 0 4096"
  define t where "t = s1\<lparr>mem := m, g_pml4_phys := a, g_pml4_virt := HIGHER_HALF_MEMORY_OFFSET + a\<rparr>"
  have sup: "supplier_ok t" "supplied t = supplied s1" "supply_limit t = supply_limit s"
    using facts(1) early f(5) paging_only_limit [OF same(1)]
    by (simp_all add: t_def supplier_ok_def supplied_def early_wf_def early_pages_def supply_limit_def)
  have z: "ptab t a k = 0" if "k < 512" for k
    using tbl_memset_page [OF hh_ok_offset va va that, of "mem s1"] by (simp add: t_def m_def)
  have "a \<in> table_frames t" using va facts(3,5) sup(2,3) by (simp add: table_frames_def)
  then have "pt_ok t a" using empty_tree(1) [OF sup(1)] z by simp
  moreover have "tr t a n = None" for n
    using z by (simp add: tr_def vpath_def pte_present_def)
  moreover have "table_entries open_entry (ptab t) a" using empty_tree(3) [OF sup(1)] z \<open>a \<in> table_frames t\<close> by simp
  ultimately have "boot_inv t a \<and> (\<forall>n. tr t a n = None)"
    using f(1,5) hh early by (simp add: boot_inv_def t_def)
  then show ?thesis
    using Done y f(1) hh paging_only_trans [OF same(1) paging_only_mem]
    by (auto simp: alloc_table_def Let_def phys_to_virt_def memzero_memset t_def m_def add.commute [of a])
qed (use assms in \<open>auto simp: alloc_table_def early_alloc_page_def split: if_splits\<close>)

lemma identity_pages:
  assumes inv: "boot_inv s r"
  shows "ends (mapped_pages r 0 0 (PTE_W OR PTE_NX) 512 s) (map_identity_minimal (HIGHER_HALF_MEMORY_OFFSET + r) s)"
proof -
  have c: "unat (PAGE_2M_SIZE div PAGE_SIZE) = 512" by (simp add: PAGE_2M_SIZE_def PAGE_SIZE_def unat_div)
  have z: "vpn 0 = 0" by (simp add: vpn_def)
  show ?thesis
    unfolding map_identity_minimal_def c
  proof (rule ends_for)
    show "mapped_pages r 0 0 (PTE_W OR PTE_NX) 0 s s" using remap_refl [OF inv] by (simp add: mapped_pages_def)
    fix i t assume "i < (512 :: nat)" "mapped_pages r 0 0 (PTE_W OR PTE_NX) i s t"
    then show "ends (mapped_pages r 0 0 (PTE_W OR PTE_NX) (Suc i) s)
        (map_4k (HIGHER_HALF_MEMORY_OFFSET + r) (of_nat i * PAGE_SIZE) (of_nat i * PAGE_SIZE) (PTE_W OR PTE_NX) t)"
      using mapped_pages_step [of r 0 0 "PTE_W OR PTE_NX" i s t] by (simp add: z PAGE_SIZE_def)
  qed simp
qed

lemma kernel_vpn:
  assumes "HIGHER_HALF_KERNEL_MEMORY_OFFSET \<le> v"
  shows "unat v div 4096 = vpn v + (2 ^ 52 - 2 ^ 36)" and "2 ^ 36 - 2 ^ 19 \<le> vpn v"
proof -
  let ?q = "unat v div 4096"
  have "2 ^ 64 - 2 ^ 31 \<le> unat v"
    using assms by (simp add: word_le_nat_alt HIGHER_HALF_KERNEL_MEMORY_OFFSET_def)
  then have "(2 ^ 64 - 2 ^ 31) div 4096 \<le> ?q" by (rule div_le_mono)
  then have lo: "2 ^ 52 - 2 ^ 19 \<le> ?q" by simp
  have hi: "?q < 2 ^ 52" by (simp add: div_less_iff_less_mult)
  define d where "d = ?q - (2 ^ 52 - 2 ^ 36)"
  have q: "?q = d + (2 ^ 52 - 2 ^ 36)" and d: "d < 2 ^ 36" "2 ^ 36 - 2 ^ 19 \<le> d"
    using lo hi unfolding d_def by simp_all
  have "(2 :: nat) ^ 52 - 2 ^ 36 = 65535 * 2 ^ 36" by simp
  then have "?q mod 2 ^ 36 = d mod 2 ^ 36" unfolding q by (simp only: mod_mult_self1)
  then have "vpn v = d" unfolding vpn_def using d(1) by simp
  with q d show "?q = vpn v + (2 ^ 52 - 2 ^ 36)" "2 ^ 36 - 2 ^ 19 \<le> vpn v" by simp_all
qed

definition section_mapped ::
    "u64 \<Rightarrow> u64 \<times> u64 \<Rightarrow> u64 \<Rightarrow> u64 \<Rightarrow> u64 \<Rightarrow> 'a paging_state_scheme \<Rightarrow> bool" where
  "section_mapped r ka x0 x1 flags t \<longleftrightarrow> (\<forall>v. x0 \<le> v \<and> v < x1 \<longrightarrow>
     tr t r (vpn v) = Some (leaf_4k (virt_to_phys_kernel (ALIGN_DOWN v PAGE_SIZE) (fst ka) (snd ka)) flags, 0))"

lemma map_section_tr:
  assumes inv: "boot_inv s r" and al: "4096 dvd unat x0" "4096 dvd unat x1" and k: "HIGHER_HALF_KERNEL_MEMORY_OFFSET \<le> x0"
  shows "ends (\<lambda>t. remap r (vpn ` {x0 ..< x1}) s t \<and> section_mapped r ka x0 x1 flags t)
    (map_section (HIGHER_HALF_MEMORY_OFFSET + r) ka x0 x1 flags s)"
proof (cases "x1 > x0")
  case False
  then show ?thesis using remap_refl [OF inv] by (auto simp: map_section_def section_mapped_def)
next
  case True
  define n where "n = unat x1 div 4096 - unat x0 div 4096"
  have a: "unat x0 = unat x0 div 4096 * 4096" "unat x1 = unat x1 div 4096 * 4096" using al by simp_all
  have lt: "unat x0 < unat x1" using True by (simp add: word_less_nat_alt)
  then have "unat x0 div 4096 \<le> unat x1 div 4096" by (simp add: div_le_mono)
  then have x1: "unat x1 = unat x0 + n * 4096" using a unfolding n_def by (simp add: diff_mult_distrib)
  have len: "unat (x1 - x0) = n * 4096" using x1 lt by (simp add: unat_sub_if_size)
  have lim: "unat x0 + n * 4096 < 2 ^ 64" using x1 unat_u64_less [of x1] by simp
  have page: "\<exists>i < n. unat v div 4096 = unat x0 div 4096 + i \<and> vpn v = vpn x0 + i" if "x0 \<le> v" "v < x1" for v
  proof -
    have v: "unat x0 \<le> unat v" "unat v < unat x0 + n * 4096"
      using that x1 by (simp_all add: word_le_nat_alt word_less_nat_alt)
    define i where "i = unat v div 4096 - unat x0 div 4096"
    have i: "unat v div 4096 = unat x0 div 4096 + i" using div_le_mono [OF v(1), of 4096] by (simp add: i_def)
    have "unat v div 4096 < unat x0 div 4096 + n" using v(2) a(1) by (simp add: div_less_iff_less_mult algebra_simps)
    then have "i < n" using i by simp
    moreover have "vpn v = vpn x0 + i" using kernel_vpn(1) [OF k] kernel_vpn(1) [of v] k that(1) i by simp
    ultimately show ?thesis using i by blast
  qed
  have vlim: "vpn x0 + n \<le> 2 ^ 36"
  proof -
    have "unat x0 div 4096 + n \<le> 2 ^ 52" using lim a(1) by (simp add: less_imp_le)
    then show ?thesis using kernel_vpn(1) [OF k] by simp
  qed
  have "ends (\<lambda>t. remap r (vpn ` {x0 ..< x1}) s t \<and> section_mapped r ka x0 x1 flags t)
    (map_range_4k (HIGHER_HALF_MEMORY_OFFSET + r) x0 (virt_to_phys_kernel x0 (fst ka) (snd ka)) (x1 - x0) flags s)"
  proof (rule ends_mono [OF map_range_4k_pages [OF inv len lim vlim]])
    fix t assume m: "mapped_pages r x0 (virt_to_phys_kernel x0 (fst ka) (snd ka)) flags n s t"
    have "{vpn x0 ..< vpn x0 + n} \<subseteq> vpn ` {x0 ..< x1}"
    proof
      fix q assume "q \<in> {vpn x0 ..< vpn x0 + n}"
      then obtain i where i: "q = vpn x0 + i" "i < n" by (auto simp: le_iff_add)
      let ?v = "x0 + of_nat (i * 4096)"
      have l: "unat x0 + i * 4096 < 2 ^ 64" "vpn x0 + i < 2 ^ 36" using i lim vlim by simp_all
      have "?v \<in> {x0 ..< x1}"
        using unat_plus_pages [OF l(1)] x1 i(2) by (simp add: word_le_nat_alt word_less_nat_alt)
      moreover have "vpn ?v = q" using vpn_plus_pages [OF l] i(1) by simp
      ultimately show "q \<in> vpn ` {x0 ..< x1}" by blast
    qed
    then have "remap r (vpn ` {x0 ..< x1}) s t" using m by (auto simp: mapped_pages_def intro: remap_mono)
    moreover have "tr t r (vpn v) = Some (leaf_4k (virt_to_phys_kernel (ALIGN_DOWN v PAGE_SIZE) (fst ka) (snd ka)) flags, 0)"
      if v: "x0 \<le> v" "v < x1" for v
    proof -
      obtain i where i: "i < n" "unat v div 4096 = unat x0 div 4096 + i" "vpn v = vpn x0 + i" using page [OF v] by blast
      have l: "unat x0 + i * 4096 < 2 ^ 64" using i lim by simp
      have "unat (ALIGN_DOWN v PAGE_SIZE) = unat x0 + i * 4096"
        using a(1) i(2) unfolding PAGE_SIZE_def unat_ALIGN_DOWN_4096 by (simp add: add_mult_distrib)
      then have "ALIGN_DOWN v PAGE_SIZE = x0 + of_nat (i * 4096)"
        using unat_plus_pages [OF l] by (simp add: word_unat_eq_iff)
      then have "virt_to_phys_kernel (ALIGN_DOWN v PAGE_SIZE) (fst ka) (snd ka) =
          virt_to_phys_kernel x0 (fst ka) (snd ka) + of_nat (i * 4096)"
        by (simp add: virt_to_phys_kernel_def)
      with m i(1,3) show ?thesis by (simp add: mapped_pages_def)
    qed
    ultimately show "remap r (vpn ` {x0 ..< x1}) s t \<and> section_mapped r ka x0 x1 flags t"
      by (simp add: section_mapped_def)
  qed
  with True show ?thesis by (simp add: map_section_def)
qed

text \<open>The layout that \<open>linker.ld\<close> gives the image: sections start on a page, in this order, in
  the top 2 GiB.\<close>

definition kernel_layout :: "boot_info \<Rightarrow> bool" where
  "kernel_layout bi \<longleftrightarrow> HIGHER_HALF_KERNEL_MEMORY_OFFSET \<le> text_start bi \<and>
     4096 dvd unat (text_start bi) \<and> 4096 dvd unat (rodata_start bi) \<and> 4096 dvd unat (data_start bi) \<and>
     text_start bi \<le> text_end bi \<and> text_end bi \<le> rodata_start bi \<and> rodata_start bi \<le> rodata_end bi \<and>
     rodata_end bi \<le> data_start bi \<and> data_start bi \<le> bss_end bi \<and> unat (bss_end bi) + 4095 < 2 ^ 64"

definition image_mapped :: "boot_info \<Rightarrow> u64 \<times> u64 \<Rightarrow> u64 \<Rightarrow> 'a paging_state_scheme \<Rightarrow> bool" where
  "image_mapped bi ka r t \<longleftrightarrow>
     section_mapped r ka (text_start bi) (ALIGN_UP (text_end bi) PAGE_SIZE) 0 t \<and>
     section_mapped r ka (rodata_start bi) (ALIGN_UP (rodata_end bi) PAGE_SIZE) PTE_NX t \<and>
     section_mapped r ka (data_start bi) (ALIGN_UP (bss_end bi) PAGE_SIZE) (PTE_W OR PTE_NX) t"

lemma align_down_id: "4096 dvd unat x \<Longrightarrow> ALIGN_DOWN x PAGE_SIZE = x"
  by (simp add: word_unat_eq_iff PAGE_SIZE_def align_simps)

lemma align_up_le:
  assumes "x \<le> y" and "4096 dvd unat y"
  shows "ALIGN_UP x PAGE_SIZE \<le> y" "4096 dvd unat (ALIGN_UP x PAGE_SIZE)"
proof -
  obtain q where q: "unat y = 4096 * q" using assms(2) by (elim dvdE)
  have "unat y \<le> 2 ^ 64 - 4096"
  proof (rule ccontr)
    assume "\<not> ?thesis"
    then have "2 ^ 52 - 1 < q" using q by simp
    then show False using q unat_u64_less [of y] by simp
  qed
  then have b: "unat x + 4095 < 2 ^ 64" using assms(1) by (simp add: word_le_nat_alt)
  have "(unat x + 4095) div 4096 \<le> q"
  proof -
    have "(unat x + 4095) div 4096 < Suc q"
      using assms(1) q by (intro div_less_iff_less_mult [THEN iffD2]) (simp_all add: word_le_nat_alt)
    then show ?thesis by simp
  qed
  then show "ALIGN_UP x PAGE_SIZE \<le> y" "4096 dvd unat (ALIGN_UP x PAGE_SIZE)"
    using unat_ALIGN_UP_4096 [OF b] q by (simp_all add: word_le_nat_alt PAGE_SIZE_def)
qed

lemma section_keep:
  assumes "remap r A s t" and "A \<inter> vpn ` {x0 ..< x1} = {}" and "section_mapped r ka x0 x1 flags s"
  shows "section_mapped r ka x0 x1 flags t"
  unfolding section_mapped_def
proof (intro allI impI)
  fix v assume v: "x0 \<le> v \<and> v < x1"
  then have "vpn v \<notin> A" using assms(2) by auto
  then have "tr t r (vpn v) = tr s r (vpn v)" by (intro remapD(3) [OF assms(1)]) simp_all
  then show "tr t r (vpn v) = Some (leaf_4k (virt_to_phys_kernel (ALIGN_DOWN v PAGE_SIZE) (fst ka) (snd ka)) flags, 0)"
    using v assms(3) by (simp add: section_mapped_def)
qed

lemma sections_disjoint:
  assumes "HIGHER_HALF_KERNEL_MEMORY_OFFSET \<le> x0" and "x1 \<le> y0" and "4096 dvd unat y0" and "x0 \<le> x1"
  shows "vpn ` {y0 ..< y1} \<inter> vpn ` {x0 ..< x1} = {}"
proof -
  have "vpn v \<noteq> vpn w" if v: "x0 \<le> v" "v < x1" and w: "y0 \<le> w" for v w
  proof
    assume e: "vpn v = vpn w"
    have "HIGHER_HALF_KERNEL_MEMORY_OFFSET \<le> v" "HIGHER_HALF_KERNEL_MEMORY_OFFSET \<le> w"
      using assms v w by (meson order_trans)+
    from kernel_vpn(1) [OF this(1)] kernel_vpn(1) [OF this(2)] e
    have d: "unat v div 4096 = unat w div 4096" by simp
    have "unat v < unat y0" "unat y0 \<le> unat w"
      using v(2) w assms(2) by (simp_all add: word_le_nat_alt word_less_nat_alt)
    moreover obtain q where q: "unat y0 = q * 4096" using assms(3) by (metis dvdE mult.commute)
    ultimately have "unat v div 4096 < q" "q \<le> unat w div 4096"
      by (simp_all add: div_less_iff_less_mult less_eq_div_iff_mult_less_eq)
    with d show False by simp
  qed
  then show ?thesis by fastforce
qed

abbreviation kernel_pages :: "nat set" where "kernel_pages \<equiv> {2 ^ 36 - 2 ^ 19 ..< 2 ^ 36}"

lemma section_in_kernel: "HIGHER_HALF_KERNEL_MEMORY_OFFSET \<le> x0 \<Longrightarrow> vpn ` {x0 ..< x1} \<subseteq> kernel_pages"
  using kernel_vpn(2) by (fastforce dest: order_trans)

lemma image_keep:
  assumes rm: "remap r A s t" and d: "A \<inter> kernel_pages = {}" and lay: "kernel_layout bi" and im: "image_mapped bi ka r s"
  shows "image_mapped bi ka r t"
proof -
  have k: "HIGHER_HALF_KERNEL_MEMORY_OFFSET \<le> text_start bi" "HIGHER_HALF_KERNEL_MEMORY_OFFSET \<le> rodata_start bi"
    "HIGHER_HALF_KERNEL_MEMORY_OFFSET \<le> data_start bi"
    using lay unfolding kernel_layout_def by (meson order_trans)+
  have e: "A \<inter> vpn ` {x0 ..< x1} = {}" if "HIGHER_HALF_KERNEL_MEMORY_OFFSET \<le> x0" for x0 x1
    using d section_in_kernel [OF that] by blast
  show ?thesis
    using im unfolding image_mapped_def by (auto intro: section_keep [OF rm e] k)
qed

lemma map_kernel_image:
  assumes inv: "boot_inv s r" and lay: "kernel_layout bi" and ka: "kernel_address bi = Some ka"
  shows "ends (\<lambda>t. remap r kernel_pages s t \<and> image_mapped bi ka r t)
    (map_kernel_higher_half bi (HIGHER_HALF_MEMORY_OFFSET + r) s)"
proof -
  let ?t0 = "text_start bi" and ?t1 = "ALIGN_UP (text_end bi) PAGE_SIZE"
    and ?r0 = "rodata_start bi" and ?r1 = "ALIGN_UP (rodata_end bi) PAGE_SIZE"
    and ?d0 = "data_start bi" and ?d1 = "ALIGN_UP (bss_end bi) PAGE_SIZE"
  note l = lay [unfolded kernel_layout_def]
  have k: "HIGHER_HALF_KERNEL_MEMORY_OFFSET \<le> ?t0" "HIGHER_HALF_KERNEL_MEMORY_OFFSET \<le> ?r0"
    "HIGHER_HALF_KERNEL_MEMORY_OFFSET \<le> ?d0" using l by (meson order_trans)+
  have al: "4096 dvd unat ?t0" "4096 dvd unat ?r0" "4096 dvd unat ?d0" using l by simp_all
  have t1: "?t1 \<le> ?r0" "4096 dvd unat ?t1" using align_up_le [of "text_end bi" ?r0] l by simp_all
  have r1: "?r1 \<le> ?d0" "4096 dvd unat ?r1" using align_up_le [of "rodata_end bi" ?d0] l by simp_all
  have d1: "4096 dvd unat ?d1" using unat_ALIGN_UP_4096 [of "bss_end bi"] l by (simp add: PAGE_SIZE_def)
  have empty: "vpn ` {b ..< c} \<inter> vpn ` {a ..< b'} = {}"
    if "HIGHER_HALF_KERNEL_MEMORY_OFFSET \<le> a" "b' \<le> b" "4096 dvd unat b" for a b b' c
    using sections_disjoint [OF that(1,2,3)] by (cases "a \<le> b'") auto
  have rt: "?t1 \<le> ?d0" using t1(1) l by (meson order_trans)
  have "ends (\<lambda>t. remap r kernel_pages s t \<and> image_mapped bi ka r t)
    (bind_outcome (map_section (HIGHER_HALF_MEMORY_OFFSET + r) ka ?t0 ?t1 0 s) (\<lambda>s1.
     bind_outcome (map_section (HIGHER_HALF_MEMORY_OFFSET + r) ka ?r0 ?r1 PTE_NX s1) (\<lambda>s2.
     map_section (HIGHER_HALF_MEMORY_OFFSET + r) ka ?d0 ?d1 (PTE_W OR PTE_NX) s2)))"
  proof (rule ends_bind [OF map_section_tr [OF inv al(1) t1(2) k(1)]])
    fix s1 assume 1: "remap r (vpn ` {?t0 ..< ?t1}) s s1 \<and> section_mapped r ka ?t0 ?t1 0 s1"
    show "ends (\<lambda>t. remap r kernel_pages s t \<and> image_mapped bi ka r t)
      (bind_outcome (map_section (HIGHER_HALF_MEMORY_OFFSET + r) ka ?r0 ?r1 PTE_NX s1) (\<lambda>s2.
       map_section (HIGHER_HALF_MEMORY_OFFSET + r) ka ?d0 ?d1 (PTE_W OR PTE_NX) s2))"
    proof (rule ends_bind [OF map_section_tr [OF _ al(2) r1(2) k(2)]])
      show "boot_inv s1 r" using 1 remapD(1) by blast
      fix s2 assume 2: "remap r (vpn ` {?r0 ..< ?r1}) s1 s2 \<and> section_mapped r ka ?r0 ?r1 PTE_NX s2"
      show "ends (\<lambda>t. remap r kernel_pages s t \<and> image_mapped bi ka r t)
        (map_section (HIGHER_HALF_MEMORY_OFFSET + r) ka ?d0 ?d1 (PTE_W OR PTE_NX) s2)"
      proof (rule ends_mono [OF map_section_tr [OF _ al(3) d1 k(3)]])
        show "boot_inv s2 r" using 2 remapD(1) by blast
        fix s3 assume 3: "remap r (vpn ` {?d0 ..< ?d1}) s2 s3 \<and> section_mapped r ka ?d0 ?d1 (PTE_W OR PTE_NX) s3"
        have "section_mapped r ka ?t0 ?t1 0 s2"
          by (rule section_keep [OF conjunct1 [OF 2] empty [OF k(1) t1(1) al(2)] conjunct2 [OF 1]])
        then have "section_mapped r ka ?t0 ?t1 0 s3"
          by (rule section_keep [OF conjunct1 [OF 3] empty [OF k(1) rt al(3)]])
        moreover have "section_mapped r ka ?r0 ?r1 PTE_NX s3"
          by (rule section_keep [OF conjunct1 [OF 3] empty [OF k(2) r1(1) al(3)] conjunct2 [OF 2]])
        moreover have "remap r kernel_pages s s3"
          by (rule remap_trans [OF remap_trans [OF conjunct1 [OF 1] conjunct1 [OF 2] section_in_kernel [OF k(1)]
              section_in_kernel [OF k(2)]] conjunct1 [OF 3] order_refl section_in_kernel [OF k(3)]])
        ultimately show "remap r kernel_pages s s3 \<and> image_mapped bi ka r s3"
          using 3 by (simp add: image_mapped_def)
      qed
    qed
  qed
  then show ?thesis
    using al by (cases ka) (simp add: map_kernel_higher_half_def ka align_down_id Let_def)
qed

section \<open>The whole construction\<close>
lemma frame_is_allocated_cr3 [simp]: "frame_is_allocated (s\<lparr>cr3 := x\<rparr>) = frame_is_allocated s"
  by (simp add: fun_eq_iff frame_is_allocated_def)

lemma supplier_env [simp]:
  "supplier_ok (s\<lparr>cr3 := x\<rparr>) = supplier_ok s" "supplied (s\<lparr>cr3 := x\<rparr>) = supplied s"
  "supplier_ok (s\<lparr>g_hhdm := x\<rparr>) = supplier_ok s" "supply_limit (s\<lparr>cr3 := x\<rparr>) = supply_limit s"
  by (simp_all add: supply_limit_def supplier_ok_def supplied_def early_wf_def early_pages_def frame_wf_def frame_topology_def
      free_frames_def frame_limit_def frame_is_allocated_def split: option.split phys_page_supplier.split)

lemma boot_inv_cr3 [simp]: "boot_inv (s\<lparr>cr3 := x\<rparr>) r = boot_inv s r" "tr (s\<lparr>cr3 := x\<rparr>) r n = tr s r n"
  by (simp_all add: boot_inv_def pt_ok_def table_frames_def tr_def)

lemma direct_cr3 [simp]: "direct (s\<lparr>cr3 := x\<rparr>) r n = direct s r n"
  "section_mapped r ka x0 x1 flags (s\<lparr>cr3 := x\<rparr>) = section_mapped r ka x0 x1 flags s"
  "image_mapped bi ka r (s\<lparr>cr3 := x\<rparr>) = image_mapped bi ka r s"
  by (simp_all add: direct_def section_mapped_def image_mapped_def)

text \<open>The environment in which \<open>memory_bringup\<close> calls \<open>paging_bootstrap\<close>.\<close>

definition boot_env :: "boot_info \<Rightarrow> 'a paging_state_scheme \<Rightarrow> bool" where
  "boot_env bi s \<longleftrightarrow> hhdm_offset bi = Some HIGHER_HALF_MEMORY_OFFSET \<and> kernel_layout bi \<and>
     (case memmap bi of None \<Rightarrow> False | Some es \<Rightarrow> hhdm_fits es) \<and>
     g_boot_phys_page s = Some supply_from_early \<and> supplier_ok s"

definition hhdm_pages :: "boot_info \<Rightarrow> nat set" where
  "hhdm_pages bi = (\<Union>e \<in> {e \<in> set (case memmap bi of None \<Rightarrow> [] | Some es \<Rightarrow> es). hhdm_include (me_type e)}.
     entry_pages e) \<union> {0 ..< 512}"

text \<open>Where the loader put the bytes of the kernel image, and the bytes of the stack: the stack is
  reached through the direct map or lies in the data of the image.\<close>

definition image_phys :: "u64 \<times> u64 \<Rightarrow> u64 \<Rightarrow> u64" where
  "image_phys ka va = (virt_to_phys_kernel (ALIGN_DOWN va PAGE_SIZE) (fst ka) (snd ka) AND ADDR_MASK) OR
     (va AND (PAGE_SIZE - 1))"

definition stack_phys :: "boot_info \<Rightarrow> u64 \<Rightarrow> u64 option" where
  "stack_phys bi rsp =
     (if HIGHER_HALF_MEMORY_OFFSET \<le> rsp \<and> unat (rsp - HIGHER_HALF_MEMORY_OFFSET) < 2 ^ 46
      then Some (rsp - HIGHER_HALF_MEMORY_OFFSET)
      else if data_start bi \<le> rsp \<and> rsp < ALIGN_UP (bss_end bi) PAGE_SIZE
      then map_option (\<lambda>ka. image_phys ka rsp) (kernel_address bi)
      else None)"

lemma section_walk:
  assumes "boot_inv s r" and "section_mapped r ka x0 x1 flags s" and "x0 \<le> v" and "v < x1"
  shows "tr s r (vpn v) = Some (leaf_4k (virt_to_phys_kernel (ALIGN_DOWN v PAGE_SIZE) (fst ka) (snd ka)) flags, 0)"
    and "walk_va_to_pa v (HIGHER_HALF_MEMORY_OFFSET + r) s = Some (image_phys ka v, 1)"
proof -
  show "tr s r (vpn v) = Some (leaf_4k (virt_to_phys_kernel (ALIGN_DOWN v PAGE_SIZE) (fst ka) (snd ka)) flags, 0)"
    using assms(2-4) by (simp add: section_mapped_def)
  with walk_resolve [OF assms(1), of v] show "walk_va_to_pa v (HIGHER_HALF_MEMORY_OFFSET + r) s = Some (image_phys ka v, 1)"
    by (simp add: translate_def level_mask_def level_size_def leaf_4k_simps image_phys_def)
qed

lemma stack_walk:
  assumes inv: "boot_inv s r" and w: "hhdm_window s r" and ka: "kernel_address bi = Some ka"
    and im: "image_mapped bi ka r s" and p: "stack_phys bi rsp = Some p"
    and walk: "walk_va_to_pa rsp (HIGHER_HALF_MEMORY_OFFSET + r) s = Some (q, l)"
  shows "q = p" and "\<exists>e l. tr s r (vpn rsp) = Some (e, l) \<and> bit e 1"
proof -
  let ?H = "HIGHER_HALF_MEMORY_OFFSET"
  have "q = p \<and> (\<exists>e l. tr s r (vpn rsp) = Some (e, l) \<and> bit e 1)"
  proof (cases "?H \<le> rsp \<and> unat (rsp - ?H) < 2 ^ 46")
    case True
    then have at: "rsp = ?H + p" "unat p < 2 ^ 46" using p by (auto simp: stack_phys_def)
    have "walk_va_to_pa (?H + p) (?H + r) s \<noteq> None" using walk at(1) by simp
    from window_walk [OF w inv at(2) this] walk at show ?thesis
      using vpn_window [OF at(2)] by (auto simp: direct_def)
  next
    case False
    then have d: "data_start bi \<le> rsp" "rsp < ALIGN_UP (bss_end bi) PAGE_SIZE" "p = image_phys ka rsp"
      using p ka by (auto simp: stack_phys_def split: if_splits)
    have "section_mapped r ka (data_start bi) (ALIGN_UP (bss_end bi) PAGE_SIZE) (PTE_W OR PTE_NX) s"
      using im by (simp add: image_mapped_def)
    from section_walk [OF inv this d(1,2)] d(3) walk show ?thesis
      by (simp add: leaf_4k_bits bit_or_iff bit_PTE_W)
  qed
  then show "q = p" "\<exists>e l. tr s r (vpn rsp) = Some (e, l) \<and> bit e 1" by simp_all
qed

lemma stack_low_at:
  assumes inv: "boot_inv s r" and w: "hhdm_window s r" and ka: "kernel_address bi = Some ka"
    and im: "image_mapped bi ka r s" and p: "stack_phys bi rsp = Some p" "unat p < 2 ^ 46"
  shows "stack_low bi rsp r s"
proof -
  let ?H = "HIGHER_HALF_MEMORY_OFFSET"
  have "unat (rsp - ?H) < 2 ^ 46 \<or> tr s r (vpn rsp) \<noteq> None"
  proof (cases "?H \<le> rsp \<and> unat (rsp - ?H) < 2 ^ 46")
    case False
    then have d: "data_start bi \<le> rsp" "rsp < ALIGN_UP (bss_end bi) PAGE_SIZE"
      using p(1) by (auto simp: stack_phys_def split: if_splits)
    have "section_mapped r ka (data_start bi) (ALIGN_UP (bss_end bi) PAGE_SIZE) (PTE_W OR PTE_NX) s"
      using im by (simp add: image_mapped_def)
    from section_walk(1) [OF inv this d] show ?thesis by simp
  qed simp
  moreover have "unat q < 2 ^ 46" if "walk_va_to_pa rsp (?H + r) s = Some (q, l)" for q l
    using stack_walk(1) [OF inv w ka im p(1) that] p(2) by simp
  ultimately show ?thesis by (auto simp: stack_low_def)
qed

definition boot_post :: "boot_info \<Rightarrow> u64 \<Rightarrow> u64 \<Rightarrow> 'a paging_state_scheme \<Rightarrow> 'a paging_state_scheme \<Rightarrow> bool" where
  "boot_post bi rsp rip s t \<longleftrightarrow> boot_inv t (g_pml4_phys t) \<and> cr3 t = g_pml4_phys t \<and>
     g_pml4_virt t = HIGHER_HALF_MEMORY_OFFSET + g_pml4_phys t \<and>
     (\<exists>ka. kernel_address bi = Some ka \<and> image_mapped bi ka (g_pml4_phys t) t) \<and>
     (\<forall>n \<in> hhdm_pages bi. n < 2 ^ 34 \<longrightarrow> direct t (g_pml4_phys t) n) \<and>
     reachable_va t (g_pml4_phys t) rsp \<and> reachable_va t (g_pml4_phys t) rip \<and>
     reachable_va t (g_pml4_phys t) (HIGHER_HALF_MEMORY_OFFSET + (cr3 s AND ADDR_MASK)) \<and>
     (\<forall>n < 2 ^ 36. 512 \<le> n \<longrightarrow> n \<notin> kernel_pages \<longrightarrow> n \<notin> (+) (2 ^ 35) ` hhdm_pages bi \<longrightarrow> small_page t (g_pml4_phys t) n) \<and>
     (\<forall>p. unat (cr3 s AND ADDR_MASK) < 2 ^ 46 \<longrightarrow> unat (g_pml4_phys t) < 2 ^ 46 \<longrightarrow> stack_phys bi rsp = Some p \<longrightarrow>
        unat p < 2 ^ 46 \<longrightarrow> hhdm_window t (g_pml4_phys t)) \<and>
     reachable_va t (g_pml4_phys t) (HIGHER_HALF_MEMORY_OFFSET + g_pml4_phys t) \<and>
     g_base t = g_base s \<and> g_end t = g_end s \<and> (g_memlock t \<longrightarrow> g_memlock s)"

lemma hhdm_window_cr3 [simp]: "hhdm_window (s\<lparr>cr3 := x\<rparr>) r = hhdm_window s r"
  by (simp add: hhdm_window_def)

lemma small_page_cr3 [simp]: "small_page (s\<lparr>cr3 := x\<rparr>) r n = small_page s r n"
  by (simp add: small_page_def)

lemma walk_cr3 [simp]: "walk_va_to_pa va p (s\<lparr>cr3 := x\<rparr>) = walk_va_to_pa va p s"
  by (simp add: walk_va_to_pa_def phys_to_virt_def Let_def split: prod.split)

lemma reachable_cr3 [simp]: "reachable_va (s\<lparr>cr3 := x\<rparr>) r va = reachable_va s r va"
  by (simp add: reachable_va_def)

lemma hhdm_pages_below:
  assumes "memmap bi = Some es" and "hhdm_fits es" and "n \<in> hhdm_pages bi"
  shows "n < 2 ^ 34"
proof (cases "n < 512")
  case False
  with assms obtain e where e: "e \<in> set es" "n \<in> entry_pages e" by (auto simp: hhdm_pages_def)
  then have "unat (me_base e) + unat (me_length e) + 4095 < 2 ^ 46" using assms(2) by (fastforce simp: hhdm_fits_def)
  then have "(unat (me_base e) + unat (me_length e) + 4095) div 4096 < 2 ^ 34 + 1" by (simp add: div_less_iff_less_mult)
  with e(2) show ?thesis by (simp add: entry_pages_def)
qed simp

lemma image_keeps:
  assumes k: "keeps r s t" and im: "image_mapped bi ka r s"
  shows "image_mapped bi ka r t"
proof -
  have "section_mapped r ka x0 x1 fl t" if "section_mapped r ka x0 x1 fl s" for x0 x1 fl
    unfolding section_mapped_def
  proof (intro allI impI)
    fix v assume "x0 \<le> v \<and> v < x1"
    with that show "tr t r (vpn v) =
        Some (leaf_4k (virt_to_phys_kernel (ALIGN_DOWN v PAGE_SIZE) (fst ka) (snd ka)) fl, 0)"
      by (intro keepsD [OF k]) (simp_all add: section_mapped_def)
  qed
  with im show ?thesis unfolding image_mapped_def by blast
qed

lemma install_post:
  assumes inv: "boot_inv s r"
  shows "ends (\<lambda>t. \<exists>u. t = u\<lparr>cr3 := r\<rparr> \<and> keeps r s u \<and> reachable_va u r rsp \<and> reachable_va u r rip \<and>
      reachable_va u r (HIGHER_HALF_MEMORY_OFFSET + (cr3 s AND ADDR_MASK)) \<and>
      reachable_va u r (HIGHER_HALF_MEMORY_OFFSET + r) \<and> (low_roots bi rsp r s \<longrightarrow> hhdm_window u r))
    (install_new_cr3 bi rsp rip r (HIGHER_HALF_MEMORY_OFFSET + r) s)"
  unfolding install_new_cr3_def by (rule ends_bind [OF audit_keeps [OF inv]]) auto

lemma bootstrap_run:
  assumes env: "boot_env bi s"
  shows "ends (boot_post bi rsp rip s) (paging_bootstrap bi rsp rip s)"
proof -
  define s0 where "s0 = s\<lparr>g_hhdm := HIGHER_HALF_MEMORY_OFFSET\<rparr>"
  obtain es where es: "memmap bi = Some es" "hhdm_fits es"
    using env by (auto simp: boot_env_def split: option.splits)
  have lay: "kernel_layout bi" using env by (simp add: boot_env_def)
  have pre: "supplier_ok s0" "g_hhdm s0 = HIGHER_HALF_MEMORY_OFFSET" "g_boot_phys_page s0 = Some supply_from_early"
    using env by (simp_all add: s0_def boot_env_def)
  let ?K = "\<lambda>((virt, phys), s1).
    let s2 = s1\<lparr>g_pml4_phys := phys, g_pml4_virt := virt\<rparr> in
    bind_outcome (map_identity_minimal (g_pml4_virt s2) s2) (\<lambda>s3.
    bind_outcome (map_kernel_higher_half bi (g_pml4_virt s3) s3) (\<lambda>s4.
    bind_outcome (map_hhdm bi (g_pml4_virt s4) s4) (\<lambda>s5.
    bind_outcome (scan_hhdm_range 0 (16 * 1024 * 1024) PAGE_2M_SIZE (g_pml4_virt s5) s5) (\<lambda>_.
    install_new_cr3 bi rsp rip (g_pml4_phys s5) (g_pml4_virt s5) s5))))"
  have eq: "paging_bootstrap bi rsp rip s = bind_outcome (alloc_table s0) ?K"
    using env by (simp add: paging_bootstrap_def boot_env_def s0_def Let_def)
  have rest: "ends (boot_post bi rsp rip s) (bind_outcome (map_identity_minimal (g_pml4_virt s2) s2) (\<lambda>s3.
    bind_outcome (map_kernel_higher_half bi (g_pml4_virt s3) s3) (\<lambda>s4.
    bind_outcome (map_hhdm bi (g_pml4_virt s4) s4) (\<lambda>s5.
    bind_outcome (scan_hhdm_range 0 (16 * 1024 * 1024) PAGE_2M_SIZE (g_pml4_virt s5) s5) (\<lambda>_.
    install_new_cr3 bi rsp rip (g_pml4_phys s5) (g_pml4_virt s5) s5)))))"
    if inv2: "boot_inv s2 r" and r2: "g_pml4_phys s2 = r" "g_pml4_virt s2 = HIGHER_HALF_MEMORY_OFFSET + r"
      and c2: "cr3 s2 = cr3 s" "g_base s2 = g_base s" "g_end s2 = g_end s" "g_memlock s2 \<longrightarrow> g_memlock s"
      and empty2: "\<forall>n. tr s2 r n = None" for s2 r
    unfolding r2
  proof (rule ends_bind [OF identity_pages [OF inv2]])
    fix s3 assume "mapped_pages r 0 0 (PTE_W OR PTE_NX) 512 s2 s3"
    then have rm3: "remap r {0 ..< 512} s2 s3" by (simp add: mapped_pages_def vpn_def)
    note 3 = remapD(1,2) [OF rm3]
    note f3 = paging_only_fields [OF 3(2)]
    show "ends (boot_post bi rsp rip s) (bind_outcome (map_kernel_higher_half bi (g_pml4_virt s3) s3) (\<lambda>s4.
      bind_outcome (map_hhdm bi (g_pml4_virt s4) s4) (\<lambda>s5.
      bind_outcome (scan_hhdm_range 0 (16 * 1024 * 1024) PAGE_2M_SIZE (g_pml4_virt s5) s5) (\<lambda>_.
      install_new_cr3 bi rsp rip (g_pml4_phys s5) (g_pml4_virt s5) s5))))"
    proof (cases "kernel_address bi")
      case None
      then show ?thesis by (simp add: map_kernel_higher_half_def)
    next
      case (Some ka)
      show ?thesis
        unfolding f3(3) r2
      proof (rule ends_bind [OF map_kernel_image [OF 3(1) lay Some]])
        fix s4 assume 4: "remap r kernel_pages s3 s4 \<and> image_mapped bi ka r s4"
        note f4 = paging_only_fields [OF remapD(2) [OF conjunct1 [OF 4]]]
        show "ends (boot_post bi rsp rip s) (bind_outcome (map_hhdm bi (g_pml4_virt s4) s4) (\<lambda>s5.
          bind_outcome (scan_hhdm_range 0 (16 * 1024 * 1024) PAGE_2M_SIZE (g_pml4_virt s5) s5) (\<lambda>_.
          install_new_cr3 bi rsp rip (g_pml4_phys s5) (g_pml4_virt s5) s5)))"
          unfolding f4(3) f3(3) r2
        proof (rule ends_bind [OF map_hhdm_direct [OF _ es]])
          show "boot_inv s4 r" using 4 remapD(1) by blast
          fix s5 assume 5: "direct_ext r ((\<Union>e \<in> {e \<in> set es. hhdm_include (me_type e)}. entry_pages e) \<union> {0 ..< 512}) s4 s5"
          then have ext5: "remap r ((+) (2 ^ 35) ` hhdm_pages bi) s4 s5" using es(1) by (simp add: direct_ext_def hhdm_pages_def)
          then have rm5: "remap r {2 ^ 35 ..< 2 ^ 35 + 2 ^ 34} s4 s5"
            by (rule remap_mono) (use hhdm_pages_below [OF es] in auto)
          note f5 = paging_only_fields [OF remapD(2) [OF rm5]]
          have fields: "g_pml4_phys s5 = r" "g_pml4_virt s5 = HIGHER_HALF_MEMORY_OFFSET + r" "cr3 s5 = cr3 s"
            "g_base s5 = g_base s" "g_end s5 = g_end s" "g_memlock s5 \<longrightarrow> g_memlock s"
            using f5 f4 f3 r2 c2 by auto
          have small5: "small_page s5 r n"
            if "n < 2 ^ 36" "512 \<le> n" "n \<notin> kernel_pages" "n \<notin> (+) (2 ^ 35) ` hhdm_pages bi" for n
            using that empty2
            by (intro small_page_remap [OF ext5] small_page_remap [OF conjunct1 [OF 4]] small_page_remap [OF rm3])
               (auto simp: small_page_def)
          have im: "image_mapped bi ka r s5"
            by (rule image_keep [OF rm5 _ lay]) (use 4 in auto)
          have dm: "direct s5 r n" if "n \<in> hhdm_pages bi" "n < 2 ^ 34" for n
            using 5 that es(1) by (auto simp: direct_ext_def hhdm_pages_def)
          have "hhdm_window s2 r" using empty2 by (simp add: hhdm_window_def)
          then have "hhdm_window s3 r" by (rule window_remap [OF _ rm3]) simp
          then have "hhdm_window s4 r" by (rule window_remap [OF _ conjunct1 [OF 4]]) simp
          then have win5: "hhdm_window s5 r" by (rule window_remap [OF _ ext5]) (use dm in auto)
          show "ends (boot_post bi rsp rip s)
              (bind_outcome (scan_hhdm_range 0 (16 * 1024 * 1024) PAGE_2M_SIZE (g_pml4_virt s5) s5) (\<lambda>_.
               install_new_cr3 bi rsp rip (g_pml4_phys s5) (g_pml4_virt s5) s5))"
            unfolding fields
          proof (rule ends_bind [OF runs_ends_True [OF scan_runs]], rule ends_mono [OF install_post [OF direct_ext_inv [OF 5]]])
            fix t assume "\<exists>u. t = u\<lparr>cr3 := r\<rparr> \<and> keeps r s5 u \<and> reachable_va u r rsp \<and> reachable_va u r rip \<and>
              reachable_va u r (HIGHER_HALF_MEMORY_OFFSET + (cr3 s5 AND ADDR_MASK)) \<and>
              reachable_va u r (HIGHER_HALF_MEMORY_OFFSET + r) \<and> (low_roots bi rsp r s5 \<longrightarrow> hhdm_window u r)"
            then obtain u where t: "t = u\<lparr>cr3 := r\<rparr>" and u: "keeps r s5 u" "reachable_va u r rsp" "reachable_va u r rip"
              "reachable_va u r (HIGHER_HALF_MEMORY_OFFSET + (cr3 s5 AND ADDR_MASK))"
              "reachable_va u r (HIGHER_HALF_MEMORY_OFFSET + r)" "low_roots bi rsp r s5 \<longrightarrow> hhdm_window u r" by blast
            note fu = paging_only_fields [OF remapD(2) [OF conjunct1 [OF u(1) [unfolded keeps_def]]]]
            have "g_pml4_phys t = r" "g_pml4_virt t = HIGHER_HALF_MEMORY_OFFSET + r" "cr3 t = r"
              "g_base t = g_base s" "g_end t = g_end s" "g_memlock t \<longrightarrow> g_memlock s"
              using fu fields by (auto simp: t)
            moreover have "small_page t r n"
              if "n < 2 ^ 36" "512 \<le> n" "n \<notin> kernel_pages" "n \<notin> (+) (2 ^ 35) ` hhdm_pages bi" for n
              using small_page_keeps [OF u(1) that(1) small5 [OF that]] by (simp add: t)
            moreover have "image_mapped bi ka r t" using image_keeps [OF u(1) im] by (simp add: t)
            moreover have "direct t r n" if "n \<in> hhdm_pages bi" "n < 2 ^ 34" for n
              using keeps_direct [OF u(1) that(2) dm [OF that]] by (simp add: t)
            moreover have "hhdm_window t r"
              if "unat (cr3 s AND ADDR_MASK) < 2 ^ 46" "unat r < 2 ^ 46" "stack_phys bi rsp = Some p" "unat p < 2 ^ 46" for p
              using u(6) stack_low_at [OF direct_ext_inv [OF 5] win5 Some im that(3,4)] win5 that fields(3)
              by (simp add: t low_roots_def)
            ultimately show "boot_post bi rsp rip s t"
              using Some u(2-5) keeps_inv [OF u(1)] fields(3) by (simp add: boot_post_def) (simp add: t)
          qed
        qed
      qed
    qed
  qed
  show ?thesis
    unfolding eq
    by (rule ends_bind [OF alloc_root [OF pre]], clarify, unfold Let_def, rule rest)
       (auto simp: s0_def dest: paging_only_fields)
qed

lemma get_or_make_next_present:
  assumes "boot_inv s r" and "pte_present (ptab s f k)"
  shows "get_or_make_next (HIGHER_HALF_MEMORY_OFFSET + f) (of_nat k) s =
    (if pte_huge (ptab s f k) then Panic ''paging_bootstrap: attempted descent through huge-page leaf''
     else Done ((HIGHER_HALF_MEMORY_OFFSET + (ptab s f k AND ADDR_MASK), ptab s f k AND ADDR_MASK), s))"
proof -
  have "load64 (mem s) (entry_addr (HIGHER_HALF_MEMORY_OFFSET + f) (of_nat k)) = ptab s f k" by (simp add: tbl_def)
  with assms show ?thesis
    by (simp add: get_or_make_next_def pte_present_def pte_huge_def phys_to_virt_def boot_invD(2) add.commute Let_def)
qed

lemma and_PTE_W: "e AND PTE_W = 0 \<longleftrightarrow> \<not> bit e 1"
proof -
  have "PTE_W = (2 :: u64) ^ 1" by (simp add: PTE_W_def)
  then show ?thesis by (simp add: bit_iff_and_push_bit_not_eq_0)
qed

lemma and_PTE_NX: "e AND PTE_NX = 0 \<longleftrightarrow> \<not> bit e 63"
proof -
  have "PTE_NX = push_bit 63 (1 :: u64)" by (simp add: PTE_NX_def)
  then show ?thesis unfolding bit_iff_and_push_bit_not_eq_0 by simp
qed

lemma leaf_4k_flags:
  "leaf_4k pa flags AND PTE_W = 0 \<longleftrightarrow> \<not> bit flags 1" "leaf_4k pa flags AND PTE_NX = 0 \<longleftrightarrow> \<not> bit flags 63"
  by (simp_all add: and_PTE_W and_PTE_NX leaf_4k_bits)

text \<open>The address the processor forms from the entry that translates and the level it was found at.\<close>

definition hardware_address :: "u64 \<Rightarrow> u64 \<Rightarrow> nat \<Rightarrow> u64" where
  "hardware_address va e l =
     push_bit (12 + 9 * l) (drop_bit (12 + 9 * l) (take_bit 52 e)) OR take_bit (12 + 9 * l) va"

lemma bit_hardware_address:
  "bit (hardware_address va e l) n \<longleftrightarrow> (if n < 12 + 9 * l then bit va n else n < 52 \<and> bit e n)"
  using bit_imp_le_length [of e n] bit_imp_le_length [of va n]
  by (auto simp: hardware_address_def bit_or_iff bit_push_bit_iff bit_drop_bit_eq bit_take_bit_iff)

lemma translate_hardware:
  assumes "l = 0 \<or> l = 1 \<or> l = 2" and "l = 1 \<longrightarrow> drop_bit 13 (take_bit 21 e) = 0"
  shows "translate va (e, l) = (hardware_address va e l, l + 1)"
proof -
  have m: "level_size l - 1 = mask (12 + 9 * l)"
    using assms(1) by (auto simp: level_size_def PAGE_SIZE_def PAGE_2M_SIZE_def PAGE_1G_SIZE_def mask_eq_exp_minus_1)
  have g: "bit ADDR_MASK_1G n \<longleftrightarrow> 30 \<le> n \<and> n < 52" for n
  proof -
    have "ADDR_MASK_1G = push_bit 30 (mask 22)" by (simp add: ADDR_MASK_1G_def mask_eq_exp_minus_1 push_bit_eq_mult)
    then show ?thesis unfolding \<open>ADDR_MASK_1G = _\<close> bit_push_bit_iff bit_mask_iff by auto
  qed
  have r: "\<not> bit e n" if "l = 1" "13 \<le> n" "n < 21" for n
  proof -
    have "\<not> bit (drop_bit 13 (take_bit 21 e)) (n - 13)" using assms(2) that(1) by simp
    with that show ?thesis by (simp add: bit_drop_bit_eq bit_take_bit_iff)
  qed
  have "(e AND level_mask l) OR (va AND (level_size l - 1)) = hardware_address va e l"
    unfolding m
  proof (rule bit_word_eqI)
    fix n assume "n < LENGTH(64)"
    then show "bit ((e AND level_mask l) OR (va AND mask (12 + 9 * l))) n = bit (hardware_address va e l) n"
      using assms(1) r [of n]
      by (auto simp: bit_hardware_address bit_or_iff bit_and_iff bit_mask_iff level_mask_def bit_ADDR_MASK
          bit_ADDR_MASK_2M g)
  qed
  then show ?thesis by (simp add: translate_def)
qed

section \<open>Properties\<close>
lemma wit_pt_inv: "boot_inv wit_pt 0x1000"
proof -
  have z: "ptab wit_pt 0x1000 k = 0" for k by (simp add: tbl_def wit_pt_def load64_zero)
  then have "tr wit_pt 0x1000 n = None" for n by (simp add: tr_def vpath_def pte_present_def)
  moreover have "supplier_ok wit_pt" "0x1000 \<in> table_frames wit_pt"
    using pt_ok_table(1) [OF wit_pt_ok(1), of "[]"] wit_pt_ok(1) by (simp_all add: pt_ok_def path_ok_def)
  then have "table_entries open_entry (ptab wit_pt) 0x1000" using empty_tree(3) z by blast
  ultimately show ?thesis using wit_pt_ok(1) by (simp add: boot_inv_def) (simp add: wit_pt_def)
qed

text \<open>C25: The software walk agrees with the hardware. On a well-formed tree \<open>walk_va_to_pa\<close> fails
  exactly when the address has no translation; otherwise it answers the address the processor
  forms, which takes the bits of the address below the page size and bits 12, 21 or 30 to 51 of
  the entry above it, and the level at which the walk ended. A 2 MiB entry must have its reserved
  bits 13 to 20 clear, since the mask of the code lets them through.\<close>
theorem walk_va_to_pa_correct:
  assumes "boot_inv s r"
    and "\<forall>e. resolve (ptab s) r (va_path va) = Some (e, 1) \<longrightarrow> drop_bit 13 (take_bit 21 e) = 0"
  shows "walk_va_to_pa va (HIGHER_HALF_MEMORY_OFFSET + r) s =
    map_option (\<lambda>(e, l). (hardware_address va e l, l + 1)) (resolve (ptab s) r (va_path va))"
proof (cases "tr s r (vpn va)")
  case (Some x)
  obtain e l where x: "x = (e, l)" by force
  have l: "l = 0 \<or> l = 1 \<or> l = 2" using boot_invD(4) [OF assms(1) _ Some [unfolded x]] by auto
  have "l = 1 \<longrightarrow> drop_bit 13 (take_bit 21 e) = 0" using assms(2) Some by (auto simp: tr_def va_path_vpn x)
  then have "translate va (e, l) = (hardware_address va e l, l + 1)"
    using translate_hardware [OF l] by simp
  then show ?thesis using walk_resolve [OF assms(1), of va] Some by (simp add: tr_def va_path_vpn x)
qed (use walk_resolve [OF assms(1), of va] in \<open>simp add: tr_def va_path_vpn\<close>)

theorem walk_va_to_pa_correct_witness:
  "\<exists>s'. map_2m (HIGHER_HALF_MEMORY_OFFSET + 0x1000) 0x200000 0x400000 0 wit_pt = Done s' \<and>
    walk_va_to_pa 0x201234 (HIGHER_HALF_MEMORY_OFFSET + 0x1000) s' = Some (0x401234, 2)"
proof -
  have left: "frames_left (0 + 2) wit_pt" by (simp add: frames_left_def wit_pt_def)
  obtain s' where s': "map_2m (HIGHER_HALF_MEMORY_OFFSET + 0x1000) 0x200000 0x400000 0 wit_pt = Done s'"
    using map_2m_total [OF wit_pt_inv wit_pt_ok(2) left] by blast
  have "vpn 0x201234 div 512 = vpn 0x200000 div 512" by (simp add: vpn_def)
  with ends_DoneD [OF map_2m_tr [OF wit_pt_inv] s']
  have inv: "boot_inv s' 0x1000" and res: "resolve (ptab s') 0x1000 (va_path 0x201234) = Some (leaf_2m 0x400000 0, 1)"
    using remapD(1) by (auto simp: tr_def va_path_vpn)
  have e: "leaf_2m 0x400000 0 = 0x400083"
    by (simp add: leaf_2m_def ADDR_MASK_2M_def PTE_P_def PTE_W_def PTE_PS_def)
  have "walk_va_to_pa 0x201234 (HIGHER_HALF_MEMORY_OFFSET + 0x1000) s' = Some (hardware_address 0x201234 0x400083 1, 2)"
    using walk_va_to_pa_correct [OF inv, of "0x201234"] res
    by (simp add: e take_bit_eq_mod drop_bit_eq_div)
  moreover have "hardware_address 0x201234 0x400083 1 = 0x401234"
    by (simp add: hardware_address_def take_bit_eq_mod drop_bit_eq_div push_bit_eq_mult)
  ultimately show ?thesis using s' by simp
qed

text \<open>C26: \<open>map_4k\<close> maps one page. With no large page on the path and three early pages left it
  returns, the address then translates to the requested frame with the requested flags, every
  other page translates as before, the tables stay well formed, and only memory of the tables of
  this tree was written.\<close>
theorem map_4k_correct:
  assumes "boot_inv s r" and "small_path (ptab s) r (va_path va)" and "frames_left (n + 3) s"
  shows "\<exists>s'. map_4k (HIGHER_HALF_MEMORY_OFFSET + r) va pa flags s = Done s' \<and> boot_inv s' r \<and> frames_left n s' \<and>
    (\<forall>v. resolve (ptab s') r (va_path v) =
       (if va_path v = va_path va
        then Some ((pa AND ADDR_MASK) OR (flags AND NOT ADDR_MASK) OR PTE_P, 0)
        else resolve (ptab s) r (va_path v))) \<and>
    (\<forall>a. (\<forall>t \<in> tree_tables (ptab s') r. a \<notin> page_bytes (HIGHER_HALF_MEMORY_OFFSET + t)) \<longrightarrow> mem s' a = mem s a)"
proof -
  obtain s' where run: "map_4k (HIGHER_HALF_MEMORY_OFFSET + r) va pa flags s = Done s'" and left: "frames_left n s'"
    by (rule map_4k_total [OF assms])
  have leaf: "leaf_written r (va_path va) (leaf_4k pa flags) s s'"
    by (rule ends_DoneD [OF map_4k_written [OF assms(1)] run])
  have "boot_inv s' r" using ends_DoneD [OF map_4k_tr [OF assms(1)] run] remapD(1) by blast
  moreover have "resolve (ptab s') r (va_path v) =
      (if va_path v = va_path va then Some (leaf_4k pa flags, 0) else resolve (ptab s) r (va_path v))" for v
    using leaf_written4(1) [OF leaf va_path_ok(2) va_path_ok] leaf_4k_simps(2) by simp
  ultimately show ?thesis
    using run left leaf va_path_ok(2) [of va] unfolding leaf_written_def leaf_4k_def by blast
qed

theorem map_4k_correct_witness:
  "\<exists>s'. map_4k (HIGHER_HALF_MEMORY_OFFSET + 0x1000) 0x5000 0x7000 PTE_W wit_pt = Done s' \<and>
    resolve (ptab s') 0x1000 (va_path 0x5000) = Some ((0x7000 AND ADDR_MASK) OR (PTE_W AND NOT ADDR_MASK) OR PTE_P, 0)"
  using map_4k_correct [OF wit_pt_inv wit_pt_ok(2,3), of "0x5000" "0x7000" PTE_W] by metis

text \<open>A large page is never mistaken for a table: if the address is translated by a 2 MiB or
  1 GiB page, \<open>map_4k\<close> panics with the message for that case and changes nothing.\<close>
theorem map_4k_huge_leaf:
  assumes "boot_inv s r" and "resolve (ptab s) r (va_path va) = Some (e, Suc l)"
  shows "map_4k (HIGHER_HALF_MEMORY_OFFSET + r) va pa flags s =
    Panic ''paging_bootstrap: attempted descent through huge-page leaf''"
proof -
  obtain i4 i3 i2 i1 where P: "va_path va = [i4, i3, i2, i1]"
    and v: "vaddr_indices va = (of_nat i4, of_nat i3, of_nat i2, of_nat i1)" by (rule vaddr_indices_path)
  from assms(2) show ?thesis
    unfolding map_4k_def v P
    by (auto simp: Let_def get_or_make_next_present [OF assms(1)] split: if_splits)
qed

theorem map_4k_huge_leaf_witness:
  "\<exists>s'. map_2m (HIGHER_HALF_MEMORY_OFFSET + 0x1000) 0x200000 0 0 wit_pt = Done s' \<and>
    map_4k (HIGHER_HALF_MEMORY_OFFSET + 0x1000) 0x201000 0 0 s' =
      Panic ''paging_bootstrap: attempted descent through huge-page leaf''"
proof -
  have left: "frames_left (0 + 2) wit_pt" by (simp add: frames_left_def wit_pt_def)
  obtain s' where s': "map_2m (HIGHER_HALF_MEMORY_OFFSET + 0x1000) 0x200000 0 0 wit_pt = Done s'"
    using map_2m_total [OF wit_pt_inv wit_pt_ok(2) left] by blast
  have "vpn 0x201000 div 512 = vpn 0x200000 div 512" by (simp add: vpn_def)
  with ends_DoneD [OF map_2m_tr [OF wit_pt_inv] s']
  have "boot_inv s' 0x1000" "resolve (ptab s') 0x1000 (va_path 0x201000) = Some (leaf_2m 0 0, Suc 0)"
    using remapD(1) by (auto simp: tr_def va_path_vpn)
  from map_4k_huge_leaf [OF this] s' show ?thesis by blast
qed

end
