(* ===== verification/Boot_Paging_Total.thy ===== *)
theory Boot_Paging_Total
  imports Boot_Paging_Correct
begin

text \<open>
  When \<open>paging_bootstrap\<close> (\<open>src/src/paging/paging_bootstrap.c\<close>) returns. The routines panic when they run
  out of early pages, when they meet a large page on the way to a small one, and when the audit before
  the switch finds the stack, the code or a root table unmapped. Here the early pages that each routine
  may take are counted and the checks are shown to pass, from what the loader and the linker script
  guarantee. The properties of the finished tables stand at the end.
\<close>

section \<open>Pages\<close>

text \<open>No page at all is translated by a large page.\<close>

definition all_small :: "'a paging_state_scheme \<Rightarrow> u64 \<Rightarrow> bool" where
  "all_small s r \<longleftrightarrow> (\<forall>n < 2 ^ 36. small_page s r n)"

lemma small_path_page: "small_path (ptab s) r (va_path va) \<longleftrightarrow> small_page s r (vpn va)"
  by (simp add: small_path_def small_page_def tr_def va_path_vpn)

lemma frames_left_mono: "boot_inv s r \<Longrightarrow> frames_left n s \<Longrightarrow> m \<le> n \<Longrightarrow> frames_left m s"
  using boot_invD(3) [of s r] by (simp add: frames_left_def)

lemma map_4k_runs:
  assumes "boot_inv s r" and "small_page s r (vpn va)" and "frames_left (n + 3) s"
  shows "runs (\<lambda>t. frames_left n t \<and> remap r {vpn va} s t \<and> tr t r (vpn va) = Some (leaf_4k pa flags, 0))
    (map_4k (HIGHER_HALF_MEMORY_OFFSET + r) va pa flags s)"
proof -
  obtain t where "map_4k (HIGHER_HALF_MEMORY_OFFSET + r) va pa flags s = Done t" "frames_left n t"
    by (rule map_4k_total [OF assms(1) _ assms(3)]) (use assms(2) in \<open>simp_all add: small_path_page\<close>)
  with map_4k_tr [OF assms(1), of va pa flags] show ?thesis by simp
qed

lemma all_small_step:
  assumes "all_small s r" and "remap r {v} s t" and "tr t r v = Some (e, 0)"
  shows "all_small t r"
  unfolding all_small_def
proof (intro allI impI)
  fix n :: nat assume n: "n < 2 ^ 36"
  show "small_page t r n"
  proof (cases "n = v")
    case False
    then show ?thesis using assms(1) n by (intro small_page_remap [OF assms(2) n]) (simp_all add: all_small_def)
  qed (use assms(3) in \<open>simp add: small_page_def\<close>)
qed

text \<open>The state while the identity map and the kernel image are entered: small pages only, and \<open>n\<close>
  early pages left.\<close>

definition stocked :: "u64 \<Rightarrow> nat \<Rightarrow> 'a paging_state_scheme \<Rightarrow> bool" where
  "stocked r n s \<longleftrightarrow> frames_left n s \<and> all_small s r \<and> boot_inv s r"

lemma stocked_mono: "stocked r n s \<Longrightarrow> m \<le> n \<Longrightarrow> stocked r m s"
  unfolding stocked_def using frames_left_mono by blast

lemma map_4k_stocked:
  assumes "stocked r (n + 3) s"
  shows "runs (stocked r n) (map_4k (HIGHER_HALF_MEMORY_OFFSET + r) va pa flags s)"
proof -
  note s = assms [unfolded stocked_def]
  have small: "all_small s r" using s by blast
  show ?thesis
  proof (rule runs_mono [OF map_4k_runs])
    show "small_page s r (vpn va)" using small by (simp add: all_small_def)
  qed (use s all_small_step [OF small] remapD(1) in \<open>unfold stocked_def, blast+\<close>)
qed

lemma map_2m_runs:
  assumes "boot_inv s r" and "small_page s r (vpn va)" and "frames_left (n + 2) s"
  shows "runs (frames_left n) (map_2m (HIGHER_HALF_MEMORY_OFFSET + r) va pa flags s)"
proof -
  obtain t where "map_2m (HIGHER_HALF_MEMORY_OFFSET + r) va pa flags s = Done t" "frames_left n t"
    by (rule map_2m_total [OF assms(1) _ assms(3)]) (use assms(2) in \<open>simp_all add: small_path_page\<close>)
  then show ?thesis by simp
qed

lemma identity_runs:
  assumes "stocked r (k + 3 * 512) s"
  shows "runs (stocked r k) (map_identity_minimal (HIGHER_HALF_MEMORY_OFFSET + r) s)"
proof -
  have c: "unat (PAGE_2M_SIZE div PAGE_SIZE) = 512" by (simp add: PAGE_2M_SIZE_def PAGE_SIZE_def unat_div)
  let ?P = "\<lambda>i. stocked r (k + 3 * (512 - i))"
  have "runs (?P 512) (map_identity_minimal (HIGHER_HALF_MEMORY_OFFSET + r) s)"
    unfolding map_identity_minimal_def c
  proof (rule runs_for [where P = ?P])
    fix i and t :: "'a paging_state_scheme" assume "i < (512 :: nat)" "?P i t"
    then show "runs (?P (Suc i)) (map_4k (HIGHER_HALF_MEMORY_OFFSET + r) (of_nat i * PAGE_SIZE) (of_nat i * PAGE_SIZE) (PTE_W OR PTE_NX) t)"
      by (intro map_4k_stocked) (erule stocked_mono, simp)
  qed (use assms in simp_all)
  then show ?thesis by simp
qed

lemma map_range_4k_runs:
  assumes al: "unat len = n * 4096" and lim: "unat va + n * 4096 < 2 ^ 64" and s: "stocked r (k + 3 * n) s"
  shows "runs (stocked r k) (map_range_4k (HIGHER_HALF_MEMORY_OFFSET + r) va pa len flags s)"
proof -
  define J where "J = (\<lambda>(v, p :: u64, t :: 'a paging_state_scheme). \<exists>i \<le> n. v = va + of_nat (i * 4096) \<and>
    stocked r (k + 3 * (n - i)) t)"
  define f where "f = (\<lambda>(v :: u64, p :: u64, t :: 'a paging_state_scheme). 2 ^ 52 - unat v div 4096)"
  have fin: "unat (va + len) = unat va + n * 4096" using al lim by (simp add: unat_word_ariths)
  have lt: "va + of_nat (i * 4096) < va + len \<longleftrightarrow> i < n" if "i \<le> n" for i
    using unat_plus_pages [of va i] fin that lim by (simp add: word_less_nat_alt)
  have "runs (\<lambda>x. J x \<and> \<not> (case x of (v, p, t) \<Rightarrow> v < va + len))
    (while_outcome PAGES_FUEL (\<lambda>(v, p, t). v < va + len)
      (map_step (\<lambda>v p. map_4k (HIGHER_HALF_MEMORY_OFFSET + r) v p flags) PAGE_SIZE) (va, pa, s))"
  proof (rule runs_while [where f = f])
    show "J (va, pa, s)" using s by (auto simp: J_def intro!: exI [of _ 0])
    show "f (va, pa, s) < PAGES_FUEL" by (simp add: f_def PAGES_FUEL_def)
    fix x assume x: "J x" "case x of (v, p, t) \<Rightarrow> v < va + len"
    then obtain i p t where i: "i \<le> n" "stocked r (k + 3 * (n - i)) t"
      and xe: "x = (va + of_nat (i * 4096), p, t)" by (auto simp: J_def)
    have n: "i < n" using x(2) lt [OF i(1)] by (simp add: xe)
    then have l: "unat (va + of_nat (i * 4096)) + 4096 < 2 ^ 64" using lim unat_plus_pages [of va i] by simp
    have "stocked r (k + 3 * (n - Suc i) + 3) t" by (rule stocked_mono [OF i(2)]) (use n in simp)
    note run = map_4k_stocked [OF this]
    show "runs (\<lambda>y. J y \<and> f y < f x) (map_step (\<lambda>v p. map_4k (HIGHER_HALF_MEMORY_OFFSET + r) v p flags) PAGE_SIZE x)"
      unfolding map_step_def xe prod.case runs_bind
    proof (rule runs_mono [OF run])
      fix u :: "'a paging_state_scheme" assume "stocked r (k + 3 * (n - Suc i)) u"
      then have "J (va + of_nat (i * 4096) + PAGE_SIZE, p + PAGE_SIZE, u)"
        unfolding J_def pages_snoc using n by (auto intro!: exI [of _ "Suc i"])
      then show "runs (\<lambda>y. J y \<and> f y < f (va + of_nat (i * 4096), p, t)) (Done (va + of_nat (i * 4096) + PAGE_SIZE, p + PAGE_SIZE, u))"
        using page_measure [OF l] by (simp add: f_def)
    qed
  qed
  then show ?thesis
    unfolding map_range_4k_def Let_def runs_bind by (rule runs_mono) (use lt in \<open>auto simp: J_def\<close>)
qed

definition section_pages :: "u64 \<Rightarrow> u64 \<Rightarrow> nat" where
  "section_pages x0 x1 = unat x1 div 4096 - unat x0 div 4096"

lemma map_section_runs:
  assumes al: "4096 dvd unat x0" "4096 dvd unat x1" and s: "stocked r (k + 3 * section_pages x0 x1) s"
  shows "runs (stocked r k) (map_section (HIGHER_HALF_MEMORY_OFFSET + r) ka x0 x1 flags s)"
proof (cases "x1 > x0")
  case False
  then show ?thesis using stocked_mono [OF s] by (simp add: map_section_def)
next
  case True
  define n where "n = section_pages x0 x1"
  have a: "unat x0 = unat x0 div 4096 * 4096" "unat x1 = unat x1 div 4096 * 4096" using al by simp_all
  have lt: "unat x0 < unat x1" using True by (simp add: word_less_nat_alt)
  then have "unat x0 div 4096 \<le> unat x1 div 4096" by (simp add: div_le_mono)
  then have x1: "unat x1 = unat x0 + n * 4096" using a unfolding n_def section_pages_def by (simp add: diff_mult_distrib)
  have "unat (x1 - x0) = n * 4096" using x1 lt by (simp add: unat_sub_if_size)
  moreover have "unat x0 + n * 4096 < 2 ^ 64" using x1 unat_u64_less [of x1] by simp
  ultimately show ?thesis using True map_range_4k_runs s by (simp add: map_section_def n_def)
qed

definition image_size :: "boot_info \<Rightarrow> nat" where
  "image_size bi = section_pages (text_start bi) (ALIGN_UP (text_end bi) PAGE_SIZE) +
     section_pages (rodata_start bi) (ALIGN_UP (rodata_end bi) PAGE_SIZE) +
     section_pages (data_start bi) (ALIGN_UP (bss_end bi) PAGE_SIZE)"

lemma map_kernel_runs:
  assumes lay: "kernel_layout bi" and ka: "kernel_address bi = Some ka" and s: "stocked r (k + 3 * image_size bi) s"
  shows "runs (stocked r k) (map_kernel_higher_half bi (HIGHER_HALF_MEMORY_OFFSET + r) s)"
proof -
  let ?t0 = "text_start bi" and ?t1 = "ALIGN_UP (text_end bi) PAGE_SIZE"
    and ?r0 = "rodata_start bi" and ?r1 = "ALIGN_UP (rodata_end bi) PAGE_SIZE"
    and ?d0 = "data_start bi" and ?d1 = "ALIGN_UP (bss_end bi) PAGE_SIZE"
  note l = lay [unfolded kernel_layout_def]
  have al: "4096 dvd unat ?t0" "4096 dvd unat ?r0" "4096 dvd unat ?d0" using l by simp_all
  have up: "4096 dvd unat ?t1" "4096 dvd unat ?r1" "4096 dvd unat ?d1"
    using align_up_le [of "text_end bi" ?r0] align_up_le [of "rodata_end bi" ?d0] unat_ALIGN_UP_4096 [of "bss_end bi"] l
    by (simp_all add: PAGE_SIZE_def)
  have s0: "stocked r (k + 3 * section_pages ?d0 ?d1 + 3 * section_pages ?r0 ?r1 + 3 * section_pages ?t0 ?t1) s"
    using s by (simp add: image_size_def algebra_simps)
  have "runs (stocked r k)
    (bind_outcome (map_section (HIGHER_HALF_MEMORY_OFFSET + r) ka ?t0 ?t1 0 s) (\<lambda>s1.
     bind_outcome (map_section (HIGHER_HALF_MEMORY_OFFSET + r) ka ?r0 ?r1 PTE_NX s1) (\<lambda>s2.
     map_section (HIGHER_HALF_MEMORY_OFFSET + r) ka ?d0 ?d1 (PTE_W OR PTE_NX) s2)))"
    unfolding runs_bind
    by (rule runs_mono [OF map_section_runs [OF al(1) up(1) s0]], rule runs_mono [OF map_section_runs [OF al(2) up(2)]],
        assumption, rule map_section_runs [OF al(3) up(3)])
  then show ?thesis
    using al by (cases ka) (simp add: map_kernel_higher_half_def ka align_down_id Let_def)
qed

section \<open>The direct map\<close>

text \<open>The loop invariant with a budget: \<open>B q\<close> early pages are left when page \<open>q\<close> is next.\<close>

definition direct_paid ::
    "u64 \<Rightarrow> nat \<Rightarrow> nat \<Rightarrow> (nat \<Rightarrow> bool) \<Rightarrow> (nat \<Rightarrow> nat) \<Rightarrow> 'a paging_state_scheme \<Rightarrow> u64 \<times> u64 \<times> 'a paging_state_scheme \<Rightarrow> bool" where
  "direct_paid r lo hi I B s x \<longleftrightarrow> (\<exists>q t. x = hhdm_at q t \<and> lo \<le> q \<and> q \<le> hi \<and> I q \<and> direct_step r lo q s t \<and> frames_left (B q) t)"

lemma direct_paid_stop:
  assumes "direct_paid r lo hi I B s y \<and> \<not> c y"
    and "\<And>q t. lo \<le> q \<Longrightarrow> q \<le> hi \<Longrightarrow> I q \<Longrightarrow> \<not> c (hhdm_at q t) \<Longrightarrow> J q \<and> C q \<le> B q"
  shows "direct_paid r lo hi J C s y"
proof -
  obtain q t where y: "y = hhdm_at q t" "lo \<le> q" "q \<le> hi" "I q" "direct_step r lo q s t" "frames_left (B q) t"
    using assms(1) unfolding direct_paid_def by blast
  have q: "J q" "C q \<le> B q" using assms y(1-4) by blast+
  have "boot_inv t r" using y(5) remapD(1) unfolding direct_step_def by blast
  with y q frames_left_mono show ?thesis unfolding direct_paid_def by blast
qed

lemma direct_loop_runs:
  assumes start: "direct_paid r lo hi I B s x" and hi: "hi \<le> 2 ^ 34" and k: "0 < k"
    and small: "\<And>q. lo \<le> q \<Longrightarrow> q < hi \<Longrightarrow> small_page s r (2 ^ 35 + q)"
    and c: "\<And>q t. lo \<le> q \<Longrightarrow> q \<le> hi \<Longrightarrow> I q \<Longrightarrow> c (hhdm_at q t) \<Longrightarrow> q + k \<le> hi \<and> I (q + k)"
    and body: "\<And>q t. q + k \<le> hi \<Longrightarrow> I q \<Longrightarrow> I (q + k) \<Longrightarrow> boot_inv t r \<Longrightarrow> small_page t r (2 ^ 35 + q) \<Longrightarrow> frames_left (B q) t \<Longrightarrow>
      runs (\<lambda>u. frames_left (B (q + k)) u \<and> direct_step r q (q + k) t u)
        (F (HIGHER_HALF_MEMORY_OFFSET + of_nat (q * 4096)) (of_nat (q * 4096)) t)"
    and stop: "\<And>q t. lo \<le> q \<Longrightarrow> q \<le> hi \<Longrightarrow> I q \<Longrightarrow> \<not> c (hhdm_at q t) \<Longrightarrow> J q \<and> C q \<le> B q"
  shows "runs (direct_paid r lo hi J C s) (while_outcome PAGES_FUEL c (map_step F (of_nat (k * 4096))) x)"
proof -
  define f where "f = (\<lambda>(v :: u64, p :: u64, t :: 'a paging_state_scheme). 2 ^ 52 - unat p div 4096)"
  have "runs (\<lambda>y. direct_paid r lo hi I B s y \<and> \<not> c y) (while_outcome PAGES_FUEL c (map_step F (of_nat (k * 4096))) x)"
  proof (rule runs_while [where f = f])
    show "direct_paid r lo hi I B s x" by (rule start)
    show "f x < PAGES_FUEL" by (cases x) (simp add: f_def PAGES_FUEL_def)
    fix y assume "direct_paid r lo hi I B s y" and cy: "c y"
    then obtain q t where y: "y = hhdm_at q t" and q: "lo \<le> q" "q \<le> hi" "I q" "direct_step r lo q s t" "frames_left (B q) t"
      by (auto simp: direct_paid_def)
    have n: "q + k \<le> hi" "I (q + k)" using c [OF q(1,2,3)] cy y by simp_all
    have rm: "remap r {2 ^ 35 + lo ..< 2 ^ 35 + q} s t" using q(4) by (simp add: direct_step_def)
    have "small_page s r (2 ^ 35 + q)" by (rule small) (use q n k in simp_all)
    then have sm: "small_page t r (2 ^ 35 + q)" by (rule small_page_remap [OF rm, rotated 2]) (use n k hi in simp_all)
    show "runs (\<lambda>z. direct_paid r lo hi I B s z \<and> f z < f y) (map_step F (of_nat (k * 4096)) y)"
      unfolding map_step_def y prod.case runs_bind
    proof (rule runs_mono [OF body [OF n(1) q(3) n(2) remapD(1) [OF rm] sm q(5)]])
      fix u assume u: "frames_left (B (q + k)) u \<and> direct_step r q (q + k) t u"
      have st: "direct_step r lo (q + k) s u" by (rule direct_step_trans [OF q(4) conjunct2 [OF u]]) (use q n hi in simp_all)
      have adv: "(of_nat (q * 4096) :: u64) + of_nat (k * 4096) = of_nat ((q + k) * 4096)"
        by (simp add: algebra_simps)
      have un: "unat (of_nat (q * 4096) :: u64) = q * 4096" "unat (of_nat ((q + k) * 4096) :: u64) = (q + k) * 4096"
        using n(1) hi by (intro unat_page; simp)+
      have "f (hhdm_at (q + k) u) < f (hhdm_at q t)" using k n(1) hi unfolding f_def prod.case un by simp
      moreover have "direct_paid r lo hi I B s (hhdm_at (q + k) u)"
        unfolding direct_paid_def by (intro exI conjI, rule refl) (use st q(1) n u in simp_all)
      ultimately show "runs (\<lambda>z. direct_paid r lo hi I B s z \<and> f z < f (hhdm_at q t))
        (Done (HIGHER_HALF_MEMORY_OFFSET + of_nat (q * 4096) + of_nat (k * 4096), of_nat (q * 4096) + of_nat (k * 4096), u))"
        unfolding add.assoc adv runs.simps by blast
    qed
  qed
  then show ?thesis by (rule runs_mono) (rule direct_paid_stop [OF _ stop])
qed

lemma direct_4k_runs:
  assumes "boot_inv t r" and "small_page t r (2 ^ 35 + q)" and "q < 2 ^ 34" and "frames_left (n + 3) t"
  shows "runs (\<lambda>u. frames_left n u \<and> direct_step r q (q + 1) t u)
    (map_4k (HIGHER_HALF_MEMORY_OFFSET + r) (HIGHER_HALF_MEMORY_OFFSET + of_nat (q * 4096)) (of_nat (q * 4096)) (0 OR PTE_W OR PTE_NX) t)"
proof -
  have v: "vpn (HIGHER_HALF_MEMORY_OFFSET + of_nat (q * 4096)) = 2 ^ 35 + q" using assms(3) by (intro vpn_direct) simp
  have "small_page t r (vpn (HIGHER_HALF_MEMORY_OFFSET + of_nat (q * 4096)))" using assms(2) v by simp
  note run = map_4k_runs [OF assms(1) this assms(4)]
  show ?thesis by (rule runs_mono [OF runs_ends [OF run map_4k_direct [OF assms(1,3)]]]) simp
qed

lemma direct_2m_runs:
  assumes "boot_inv t r" and "small_page t r (2 ^ 35 + q)" and "q + 512 \<le> 2 ^ 34" and "512 dvd q" and "bit flags 63"
    and "frames_left (n + 2) t"
  shows "runs (\<lambda>u. frames_left n u \<and> direct_step r q (q + 512) t u)
    (map_2m (HIGHER_HALF_MEMORY_OFFSET + r) (HIGHER_HALF_MEMORY_OFFSET + of_nat (q * 4096)) (of_nat (q * 4096)) flags t)"
proof -
  have v: "vpn (HIGHER_HALF_MEMORY_OFFSET + of_nat (q * 4096)) = 2 ^ 35 + q" using assms(3) by (intro vpn_direct) simp
  show ?thesis
    by (rule runs_ends [OF map_2m_runs [OF assms(1) _ assms(6)] map_2m_direct [OF assms(1,3,4,5)]]) (use assms(2) v in simp)
qed


text \<open>What a range of \<open>n\<close> pages costs at most: up to 511 small pages before the first 2 MiB boundary, as
  many after the last one, and the 2 MiB pages between.\<close>

definition range_cost :: "nat \<Rightarrow> nat" where
  "range_cost n = 3 * 511 + 2 * (n div 512) + 3 * 511"

lemma range_costs:
  assumes "lo \<le> (hi :: nat)"
  defines "up \<equiv> (lo + 511) div 512 * 512"
  shows "lo \<le> up" "up - lo \<le> 511" "512 dvd up" "q \<le> up \<Longrightarrow> lo \<le> q \<Longrightarrow> \<not> 512 dvd q \<Longrightarrow> q < up"
proof -
  have m: "lo + 511 = up + (lo + 511) mod 512" unfolding up_def using div_mult_mod_eq [of "lo + 511" 512] by simp
  moreover have "(lo + 511) mod 512 < 512" by simp
  ultimately show "lo \<le> up" "up - lo \<le> 511" by linarith+
  show d: "512 dvd up" by (simp add: up_def)
  show "q \<le> up \<Longrightarrow> lo \<le> q \<Longrightarrow> \<not> 512 dvd q \<Longrightarrow> q < up" using d by (cases "q = up") auto
qed

lemma frames_left_cost: "frames_left n t \<Longrightarrow> boot_inv t r \<Longrightarrow> m \<le> n \<Longrightarrow> frames_left m t"
  using frames_left_mono by blast

lemma direct_head_runs:
  assumes inv: "boot_inv s r" and lh: "lo \<le> hi" "hi \<le> 2 ^ 34"
    and small: "\<And>q. lo \<le> q \<Longrightarrow> q < hi \<Longrightarrow> small_page s r (2 ^ 35 + q)" and left: "frames_left (k + 3 * 511) s"
  shows "runs (direct_paid r lo hi (\<lambda>q. q = hi \<or> 512 dvd q) (\<lambda>_. k) s) (while_outcome PAGES_FUEL
    (\<lambda>(va, pa, s). pa < of_nat (hi * 4096) \<and> (pa OR va) AND (PAGE_2M_SIZE - 1) \<noteq> 0)
    (map_step (\<lambda>va pa. map_4k (HIGHER_HALF_MEMORY_OFFSET + r) va pa (0 OR PTE_W OR PTE_NX)) PAGE_SIZE) (hhdm_at lo s))"
proof -
  define up where "up = (lo + 511) div 512 * 512"
  note u = range_costs [OF lh(1), folded up_def] and bounds = direct_bounds [OF lh(2)]
  let ?B = "\<lambda>q. k + 3 * (up - q)"
  have start: "direct_paid r lo hi (\<lambda>q. q \<le> up) ?B s (hhdm_at lo s)"
    unfolding direct_paid_def
  proof (intro exI conjI)
    show "frames_left (?B lo) s" by (rule frames_left_cost [OF left inv]) (use u in simp)
  qed (use direct_step_refl [OF inv] lh u in simp_all)
  show ?thesis
    unfolding page_strides(1)
  proof (rule direct_loop_runs [OF start lh(2) _ small])
    fix q t assume q: "lo \<le> q" "q \<le> hi" "q \<le> up" "\<not> (case hhdm_at q t of (va, pa, s) \<Rightarrow>
        pa < of_nat (hi * 4096) \<and> (pa OR va) AND (PAGE_2M_SIZE - 1) \<noteq> 0)"
    then show "(q = hi \<or> 512 dvd q) \<and> k \<le> ?B q" using bounds(1,3) [OF q(2)] unfolding prod.case by linarith
  next
    fix q t assume q: "lo \<le> q" "q \<le> hi" "q \<le> up" "case hhdm_at q t of (va, pa, s) \<Rightarrow>
        pa < of_nat (hi * 4096) \<and> (pa OR va) AND (PAGE_2M_SIZE - 1) \<noteq> 0"
    then show "q + 1 \<le> hi \<and> q + 1 \<le> up" using bounds(1,3) [OF q(2)] u(4) [OF q(3,1)] unfolding prod.case by linarith
  next
    fix q and t :: "'a paging_state_scheme"
    assume q: "q + 1 \<le> hi" "q + 1 \<le> up" "boot_inv t r" "small_page t r (2 ^ 35 + q)" "frames_left (?B q) t"
    have "frames_left (?B (q + 1) + 3) t" by (rule frames_left_cost [OF q(5,3)]) (use q(2) in simp)
    then show "runs (\<lambda>u. frames_left (?B (q + 1)) u \<and> direct_step r q (q + 1) t u) (map_4k (HIGHER_HALF_MEMORY_OFFSET + r)
        (HIGHER_HALF_MEMORY_OFFSET + of_nat (q * 4096)) (of_nat (q * 4096)) (0 OR PTE_W OR PTE_NX) t)"
      using q lh(2) by (intro direct_4k_runs) simp_all
  qed simp_all
qed

lemma direct_middle_runs:
  assumes hi: "hi \<le> 2 ^ 34" and small: "\<And>q. lo \<le> q \<Longrightarrow> q < hi \<Longrightarrow> small_page s r (2 ^ 35 + q)"
    and x: "direct_paid r lo hi (\<lambda>q. q = hi \<or> 512 dvd q) (\<lambda>_. k + 2 * ((hi - lo) div 512)) s x"
  shows "runs (direct_paid r lo hi (\<lambda>q. hi < q + 512) (\<lambda>_. k) s) (while_outcome PAGES_FUEL
    (\<lambda>(va, pa, s). pa + PAGE_2M_SIZE \<le> of_nat (hi * 4096))
    (map_step (\<lambda>va pa. map_2m (HIGHER_HALF_MEMORY_OFFSET + r) va pa (0 OR PTE_NX)) PAGE_2M_SIZE) x)"
proof -
  let ?I = "\<lambda>q. q = hi \<or> 512 dvd q" and ?B = "\<lambda>q. k + 2 * ((hi - q) div 512)"
  note bounds = direct_bounds(2) [OF hi, unfolded page_strides(2)]
  have start: "direct_paid r lo hi ?I ?B s x"
    by (rule direct_paid_stop [where c = "\<lambda>_. False", OF conjI [OF x]]) (simp_all add: div_le_mono)
  show ?thesis
    unfolding page_strides(2)
  proof (rule direct_loop_runs [OF start hi _ small])
    fix q t assume "q \<le> hi" "\<not> (case hhdm_at q t of (va, pa, s) \<Rightarrow> pa + of_nat (512 * 4096) \<le> of_nat (hi * 4096))"
    then show "hi < q + 512 \<and> k \<le> ?B q" using bounds unfolding prod.case by auto
  next
    fix q t assume "q \<le> hi" "?I q" "case hhdm_at q t of (va, pa, s) \<Rightarrow> pa + of_nat (512 * 4096) \<le> of_nat (hi * 4096)"
    then show "q + 512 \<le> hi \<and> ?I (q + 512)" using bounds unfolding prod.case by auto
  next
    fix q and t :: "'a paging_state_scheme"
    assume q: "q + 512 \<le> hi" "?I q" "boot_inv t r" "small_page t r (2 ^ 35 + q)" "frames_left (?B q) t"
    have "hi - q = (hi - (q + 512)) + 512" using q(1) by simp
    then have "(hi - q) div 512 = (hi - (q + 512)) div 512 + 1" by (metis div_add_self2 zero_neq_numeral)
    then have "frames_left (?B (q + 512) + 2) t" by (intro frames_left_cost [OF q(5,3)]) simp
    then show "runs (\<lambda>u. frames_left (?B (q + 512)) u \<and> direct_step r q (q + 512) t u) (map_2m (HIGHER_HALF_MEMORY_OFFSET + r)
        (HIGHER_HALF_MEMORY_OFFSET + of_nat (q * 4096)) (of_nat (q * 4096)) (0 OR PTE_NX) t)"
      using q hi by (intro direct_2m_runs) (auto simp: bit_or_iff bit_PTE_NX)
  qed simp_all
qed

lemma direct_tail_runs:
  assumes hi: "hi \<le> 2 ^ 34" and small: "\<And>q. lo \<le> q \<Longrightarrow> q < hi \<Longrightarrow> small_page s r (2 ^ 35 + q)"
    and x: "direct_paid r lo hi (\<lambda>q. hi < q + 512) (\<lambda>_. k + 3 * 511) s x"
  shows "runs (direct_paid r lo hi (\<lambda>q. q = hi) (\<lambda>_. k) s) (while_outcome PAGES_FUEL
    (\<lambda>(va, pa, s). pa < of_nat (hi * 4096))
    (map_step (\<lambda>va pa. map_4k (HIGHER_HALF_MEMORY_OFFSET + r) va pa (0 OR PTE_W OR PTE_NX)) PAGE_SIZE) x)"
proof -
  let ?B = "\<lambda>q. k + 3 * (hi - q)"
  note bounds = direct_bounds(1) [OF hi]
  have start: "direct_paid r lo hi (\<lambda>_. True) ?B s x"
    by (rule direct_paid_stop [where c = "\<lambda>_. False", OF conjI [OF x]]) simp_all
  show ?thesis
    unfolding page_strides(1)
  proof (rule direct_loop_runs [OF start hi _ small])
    fix q t assume q: "q \<le> hi" "\<not> (case hhdm_at q t of (va, pa, s) \<Rightarrow> pa < of_nat (hi * 4096))"
    then show "q = hi \<and> k \<le> ?B q" using bounds [OF q(1)] unfolding prod.case by linarith
  next
    fix q t assume q: "q \<le> hi" "case hhdm_at q t of (va, pa, s) \<Rightarrow> pa < of_nat (hi * 4096)"
    then have "q < hi" using bounds [OF q(1)] unfolding prod.case by blast
    then show "q + 1 \<le> hi \<and> True" by simp
  next
    fix q and t :: "'a paging_state_scheme"
    assume q: "q + 1 \<le> hi" "boot_inv t r" "small_page t r (2 ^ 35 + q)" "frames_left (?B q) t"
    have "frames_left (?B (q + 1) + 3) t" by (rule frames_left_cost [OF q(4,2)]) (use q(1) in simp)
    then show "runs (\<lambda>u. frames_left (?B (q + 1)) u \<and> direct_step r q (q + 1) t u) (map_4k (HIGHER_HALF_MEMORY_OFFSET + r)
        (HIGHER_HALF_MEMORY_OFFSET + of_nat (q * 4096)) (of_nat (q * 4096)) (0 OR PTE_W OR PTE_NX) t)"
      using q hi by (intro direct_4k_runs) simp_all
  qed simp_all
qed

lemma map_range_huge_first_runs:
  assumes inv: "boot_inv s r" and lh: "lo \<le> hi" "hi \<le> 2 ^ 34"
    and small: "\<And>q. lo \<le> q \<Longrightarrow> q < hi \<Longrightarrow> small_page s r (2 ^ 35 + q)"
    and left: "frames_left (k + range_cost (hi - lo)) s"
  shows "runs (\<lambda>t. frames_left k t \<and> direct_step r lo hi s t)
    (map_range_huge_first (HIGHER_HALF_MEMORY_OFFSET + r) (HIGHER_HALF_MEMORY_OFFSET + of_nat (lo * 4096))
       (of_nat (lo * 4096)) (of_nat ((hi - lo) * 4096)) 0 s)"
proof -
  have fin: "(of_nat (lo * 4096) :: u64) + of_nat ((hi - lo) * 4096) = of_nat (hi * 4096)"
    using lh(1) by (simp add: of_nat_diff algebra_simps)
  have "frames_left (k + 3 * 511 + 2 * ((hi - lo) div 512) + 3 * 511) s" using left by (simp add: range_cost_def algebra_simps)
  note head = direct_head_runs [OF inv lh _ this]
  show ?thesis
    unfolding map_range_huge_first_def Let_def fin runs_bind
  proof (rule runs_mono, rule head, erule (1) small, rule runs_mono, rule direct_middle_runs [OF lh(2)], erule (1) small, assumption,
      rule runs_mono, rule direct_tail_runs [OF lh(2)], erule (1) small, assumption)
    fix x assume "direct_paid r lo hi (\<lambda>q. q = hi) (\<lambda>_. k) s x"
    then show "runs (\<lambda>t. frames_left k t \<and> direct_step r lo hi s t) (case x of (_, _, s') \<Rightarrow> Done s')"
      by (auto simp: direct_paid_def)
  qed
qed

abbreviation included :: "memmap_entry list \<Rightarrow> memmap_entry list" where
  "included es \<equiv> filter (\<lambda>e. hhdm_include (me_type e)) es"

text \<open>The loader reports each page in one entry only.\<close>

definition entries_apart :: "memmap_entry list \<Rightarrow> bool" where
  "entries_apart es \<longleftrightarrow> sorted_wrt (\<lambda>d e. disjnt (entry_pages d) (entry_pages e)) (included es)"

definition direct_cost :: "memmap_entry list \<Rightarrow> nat" where
  "direct_cost es = (\<Sum>e\<leftarrow>included es. range_cost (past_page e - first_page e))"

lemma map_hhdm_entry_runs:
  assumes inv: "boot_inv s r" and fits: "unat (me_base e) + unat (me_length e) + 4096 \<le> 2 ^ 46"
    and ne: "first_page e \<le> past_page e" and small: "\<And>q. q \<in> entry_pages e \<Longrightarrow> small_page s r (2 ^ 35 + q)"
    and left: "frames_left (k + range_cost (past_page e - first_page e)) s"
  shows "runs (\<lambda>t. frames_left k t \<and> direct_ext r (entry_pages e) s t) (map_range_huge_first (HIGHER_HALF_MEMORY_OFFSET + r)
    (HIGHER_HALF_MEMORY_OFFSET + ALIGN_DOWN (me_base e) PAGE_SIZE) (ALIGN_DOWN (me_base e) PAGE_SIZE)
    (ALIGN_UP (me_base e + me_length e) PAGE_SIZE - ALIGN_DOWN (me_base e) PAGE_SIZE) 0 s)"
  unfolding entry_bounds(5) [OF fits ne] unfolding entry_bounds(1) [OF fits] entry_pages_def
  by (rule runs_mono [OF map_range_huge_first_runs [OF inv ne entry_bounds(3) [OF fits] small left]])
     (simp_all add: entry_pages_def direct_step_ext [OF _ entry_bounds(3) [OF fits]])

lemma map_hhdm_entries_runs:
  assumes "boot_inv s r" and "hhdm_fits es" and "entries_apart es"
    and "\<And>e q. e \<in> set (included es) \<Longrightarrow> q \<in> entry_pages e \<Longrightarrow> small_page s r (2 ^ 35 + q)"
    and "frames_left (k + direct_cost es) s"
  shows "runs (frames_left k) (map_hhdm_entries (HIGHER_HALF_MEMORY_OFFSET + r) es s)"
  using assms
proof (induction es arbitrary: s)
  case (Cons e es)
  have fits: "unat (me_base e) + unat (me_length e) + 4096 \<le> 2 ^ 46" "hhdm_fits es"
    using Cons.prems(2) by (simp_all add: hhdm_fits_def)
  note b = entry_bounds [OF fits(1)] and inv = Cons.prems(1)
  have apart: "entries_apart es" using Cons.prems(3) by (simp add: entries_apart_def split: if_splits)
  show ?case
  proof (cases "hhdm_include (me_type e)")
    case False
    with Cons.prems have "runs (frames_left k) (map_hhdm_entries (HIGHER_HALF_MEMORY_OFFSET + r) es s)"
      by (intro Cons.IH inv fits apart) (simp_all add: direct_cost_def)
    with False show ?thesis by simp
  next
    case True
    have left: "frames_left (k + direct_cost es + range_cost (past_page e - first_page e)) s"
      using Cons.prems(5) True by (simp add: direct_cost_def algebra_simps)
    have rest: "runs (frames_left k) (map_hhdm_entries (HIGHER_HALF_MEMORY_OFFSET + r) es t)"
      if t: "frames_left (k + direct_cost es) t" "direct_ext r (entry_pages e) s t" for t
    proof (rule Cons.IH [OF direct_ext_inv [OF t(2)] fits(2) apart _ t(1)])
      fix d q assume d: "d \<in> set (included es)" "q \<in> entry_pages d"
      then have "q \<notin> entry_pages e" using Cons.prems(3) True by (auto simp: entries_apart_def disjnt_iff)
      moreover have "q < 2 ^ 34"
        using entry_bounds(3) [of d] fits(2) d by (auto simp: hhdm_fits_def entry_pages_def)
      ultimately show "small_page t r (2 ^ 35 + q)"
        using t(2) d Cons.prems(4) [of d q] unfolding direct_ext_def by (auto intro: small_page_remap)
    qed
    show ?thesis
    proof (cases "past_page e \<le> first_page e")
      case le: True
      then have "entry_pages e = {}" by (simp add: entry_pages_def)
      then have "direct_ext r (entry_pages e) s s" using direct_ext_refl [OF inv] by simp
      from rest [OF frames_left_cost [OF left inv] this] True le b(4) show ?thesis by simp
    next
      case False
      then have "first_page e \<le> past_page e" by simp
      note run = map_hhdm_entry_runs [OF inv fits(1) this _ left]
      have "runs (frames_left k) (bind_outcome (map_range_huge_first (HIGHER_HALF_MEMORY_OFFSET + r)
          (HIGHER_HALF_MEMORY_OFFSET + ALIGN_DOWN (me_base e) PAGE_SIZE) (ALIGN_DOWN (me_base e) PAGE_SIZE)
          (ALIGN_UP (me_base e + me_length e) PAGE_SIZE - ALIGN_DOWN (me_base e) PAGE_SIZE) 0 s) (map_hhdm_entries (HIGHER_HALF_MEMORY_OFFSET + r) es))"
        unfolding runs_bind by (rule runs_mono, rule run) (use True Cons.prems(4) rest in auto)
      with True False b(4) boot_invD(2) [OF inv] show ?thesis by (simp add: Let_def)
    qed
  qed
qed (simp add: direct_cost_def)

lemma map_hhdm_runs:
  assumes s: "stocked r (k + 2 + direct_cost es) s" and es: "memmap bi = Some es" "es \<noteq> []" "hhdm_fits es" "entries_apart es"
    and low: "\<And>e. e \<in> set (included es) \<Longrightarrow> 0 < first_page e"
  shows "runs (frames_left k) (map_hhdm bi (HIGHER_HALF_MEMORY_OFFSET + r) s)"
proof -
  have inv: "boot_inv s r" and small: "all_small s r" and left: "frames_left (k + 2 + direct_cost es) s"
    using s by (simp_all add: stocked_def)
  have sm: "small_page s r (2 ^ 35 + q)" if "e \<in> set (included es)" "q \<in> entry_pages e" for e q
  proof -
    have "past_page e \<le> 2 ^ 34" by (rule entry_bounds(3)) (use es(3) that(1) in \<open>simp add: hhdm_fits_def\<close>)
    with that(2) small show ?thesis by (simp add: all_small_def entry_pages_def)
  qed
  have eq: "map_hhdm bi (HIGHER_HALF_MEMORY_OFFSET + r) s =
      bind_outcome (map_hhdm_entries (HIGHER_HALF_MEMORY_OFFSET + r) es s)
        (\<lambda>t. map_2m (HIGHER_HALF_MEMORY_OFFSET + r) (g_hhdm t) 0 PTE_NX t)"
    using es(1,2) boot_invD(2) [OF inv] by (simp add: map_hhdm_def)
  note run = runs_ends [OF map_hhdm_entries_runs [OF inv es(3,4) sm left] map_hhdm_entries_direct [OF inv es(3)]]
  show ?thesis
    unfolding eq runs_bind
  proof (rule runs_mono, rule run)
    fix t assume t: "frames_left (k + 2) t \<and> direct_ext r (\<Union>e \<in> {e \<in> set es. hhdm_include (me_type e)}. entry_pages e) s t"
    then have inv': "boot_inv t r" using direct_ext_inv by blast
    have "small_page t r (2 ^ 35)"
    proof (rule small_page_remap)
      show "remap r ((+) (2 ^ 35) ` (\<Union>e \<in> {e \<in> set es. hhdm_include (me_type e)}. entry_pages e)) s t"
        using t by (simp add: direct_ext_def)
      show "2 ^ 35 \<notin> (+) (2 ^ 35 :: nat) ` (\<Union>e \<in> {e \<in> set es. hhdm_include (me_type e)}. entry_pages e)"
        using low by (force simp: entry_pages_def)
    qed (use small in \<open>simp_all add: all_small_def\<close>)
    moreover have "vpn HIGHER_HALF_MEMORY_OFFSET = 2 ^ 35" by (simp add: vpn_def HIGHER_HALF_MEMORY_OFFSET_def)
    ultimately show "runs (frames_left k) (map_2m (HIGHER_HALF_MEMORY_OFFSET + r) (g_hhdm t) 0 PTE_NX t)"
      using map_2m_runs [OF inv', of HIGHER_HALF_MEMORY_OFFSET k 0 PTE_NX] t boot_invD(2) [OF inv'] by simp
  qed
qed

section \<open>Coverage and the switch\<close>
lemma ensure_page_runs:
  assumes inv: "boot_inv s r" and left: "frames_left (n + 3) s"
  shows "runs (\<lambda>t. frames_left n t \<and> keeps r s t \<and> tr t r (vpn (HIGHER_HALF_MEMORY_OFFSET + phys)) \<noteq> None)
    (ensure_hhdm_cover_phys_page (HIGHER_HALF_MEMORY_OFFSET + r) phys s)"
proof -
  let ?va = "HIGHER_HALF_MEMORY_OFFSET + ALIGN_DOWN phys PAGE_SIZE"
  have "runs (\<lambda>t. frames_left n t \<and> tr t r (vpn ?va) \<noteq> None)
    (ensure_hhdm_cover_phys_page (HIGHER_HALF_MEMORY_OFFSET + r) phys s)"
  proof (cases "walk_va_to_pa ?va (HIGHER_HALF_MEMORY_OFFSET + r) s")
    case None
    then have "tr s r (vpn ?va) = None" using walk_None [OF inv] by simp
    then have "small_page s r (vpn ?va)" by (simp add: small_page_def)
    from map_4k_runs [OF inv this left]
    have "runs (\<lambda>t. frames_left n t \<and> tr t r (vpn ?va) \<noteq> None)
        (map_4k (HIGHER_HALF_MEMORY_OFFSET + r) ?va (ALIGN_DOWN phys PAGE_SIZE) (PTE_W OR PTE_NX) s)"
      by (rule runs_mono) simp
    with None boot_invD(2) [OF inv] show ?thesis by (simp add: ensure_hhdm_cover_phys_page_def Let_def)
  next
    case (Some x)
    then have "tr s r (vpn ?va) \<noteq> None" using walk_None [OF inv, of ?va] by simp
    with Some boot_invD(2) [OF inv] frames_left_cost [OF left inv, of n] show ?thesis
      by (simp add: ensure_hhdm_cover_phys_page_def Let_def)
  qed
  from runs_ends [OF this ensure_page_keeps [OF inv]] show ?thesis unfolding vpn_page by (rule runs_mono) simp
qed

lemma ensure_range_runs:
  assumes inv: "boot_inv s r" and left: "frames_left (k + 3 * 512) s"
  shows "runs (frames_left k) (ensure_hhdm_cover_phys_range (HIGHER_HALF_MEMORY_OFFSET + r) 0 PAGE_2M_SIZE s)"
proof -
  have fin: "ALIGN_UP (0 + PAGE_2M_SIZE) PAGE_SIZE = 0x200000" "ALIGN_DOWN 0 PAGE_SIZE = 0" "PAGE_2M_SIZE \<noteq> 0"
    by (simp_all add: ALIGN_UP_def ALIGN_DOWN_def PAGE_2M_SIZE_def PAGE_SIZE_def)
  define J where "J = (\<lambda>(p :: u64, t :: 'a paging_state_scheme). \<exists>i \<le> 512. unat p = i * 4096 \<and>
    frames_left (k + 3 * (512 - i)) t \<and> boot_inv t r)"
  define f where "f = (\<lambda>(p :: u64, t :: 'a paging_state_scheme). 512 - unat p div 4096)"
  have "runs (\<lambda>x. J x \<and> \<not> (case x of (p, t) \<Rightarrow> p < 0x200000))
    (while_outcome PAGES_FUEL (\<lambda>(page, s). page < 0x200000)
      (\<lambda>(page, s). bind_outcome (ensure_hhdm_cover_phys_page (HIGHER_HALF_MEMORY_OFFSET + r) page s)
         (\<lambda>s'. Done (page + PAGE_SIZE, s'))) (0, s))"
  proof (rule runs_while [where f = f])
    show "J (0, s)" using assms by (auto simp: J_def intro!: exI [of _ 0])
    show "f (0, s) < PAGES_FUEL" by (simp add: f_def PAGES_FUEL_def)
    fix x assume x: "J x" "case x of (page, s) \<Rightarrow> page < 0x200000"
    then obtain p t i where xe: "x = (p, t)" and i: "unat p = i * 4096" "i < 512"
      and t: "frames_left (k + 3 * (512 - i)) t" "boot_inv t r" by (auto simp: J_def word_less_nat_alt)
    have up: "unat (p + PAGE_SIZE) = Suc i * 4096" using i by (simp add: PAGE_SIZE_def unat_word_ariths)
    have "frames_left (k + 3 * (512 - Suc i) + 3) t" by (rule frames_left_cost [OF t]) (use i in simp)
    note run = ensure_page_runs [OF t(2) this, of p]
    show "runs (\<lambda>y. J y \<and> f y < f x)
      (case x of (page, s) \<Rightarrow> bind_outcome (ensure_hhdm_cover_phys_page (HIGHER_HALF_MEMORY_OFFSET + r) page s)
         (\<lambda>s'. Done (page + PAGE_SIZE, s')))"
      unfolding xe prod.case runs_bind
    proof (rule runs_mono [OF run])
      fix u assume u: "frames_left (k + 3 * (512 - Suc i)) u \<and> keeps r t u \<and> tr u r (vpn (HIGHER_HALF_MEMORY_OFFSET + p)) \<noteq> None"
      then have "J (p + PAGE_SIZE, u)" using i(2) keeps_inv up unfolding J_def prod.case by (intro exI [of _ "Suc i"]) auto
      moreover have "f (p + PAGE_SIZE, u) < f (p, t)" using i up by (simp add: f_def)
      ultimately show "runs (\<lambda>y. J y \<and> f y < f (p, t)) (Done (p + PAGE_SIZE, u))" by simp
    qed
  qed
  then show ?thesis
    unfolding ensure_hhdm_cover_phys_range_def fin(1,2) if_not_P [OF fin(3)] Let_def runs_bind
    by (rule runs_mono) (clarsimp simp: J_def, erule (1) frames_left_cost, simp)
qed

lemma ensure_range_keeps:
  "boot_inv s r \<Longrightarrow> ends (keeps r s) (ensure_hhdm_cover_phys_range (HIGHER_HALF_MEMORY_OFFSET + r) 0 PAGE_2M_SIZE s)"
  by (rule ends_mono [OF ensure_range_patched]) (simp_all add: patched_def)

lemma reachable_keeps:
  assumes "keeps r s t" and "tr s r (vpn va) \<noteq> None"
  shows "tr t r (vpn va) \<noteq> None"
  using keepsD [OF assms(1), of "vpn va"] assms(2) by auto

lemma audit_runs:
  assumes inv: "boot_inv s r" and left: "frames_left (k + 3 * 512 + 9) s" and low: "direct s r 0"
    and rsp: "HIGHER_HALF_MEMORY_OFFSET \<le> rsp \<and> rsp < HIGHER_HALF_MEMORY_OFFSET + get_max_phys bi \<or> tr s r (vpn rsp) \<noteq> None"
    and rip: "tr s r (vpn rip) \<noteq> None"
  shows "runs (frames_left k) (pre_switch_audit_and_patch bi rsp rip (HIGHER_HALF_MEMORY_OFFSET + r) r s)"
proof -
  let ?hh = HIGHER_HALF_MEMORY_OFFSET and ?old = "cr3 s AND ADDR_MASK"
  note hh = boot_invD(2) [OF inv]
  let ?stack = "if rsp \<ge> ?hh \<and> rsp < ?hh + get_max_phys bi then Done (rsp - ?hh)
    else case walk_va_to_pa rsp (?hh + r) s of None \<Rightarrow> Panic ''paging_bootstrap: stack VA missing before CR3 switch''
      | Some (rsp_phys, _) \<Rightarrow> Done rsp_phys"
  have stack: "runs (\<lambda>p. rsp = ?hh + p \<or> tr s r (vpn rsp) \<noteq> None) ?stack"
    using rsp walk_None [OF inv, of rsp] by (auto split: option.splits)
  have zero: "tr s r (vpn ?hh) \<noteq> None"
    using low by (auto simp: direct_def vpn_def HIGHER_HALF_MEMORY_OFFSET_def)
  have left': "frames_left ((k + 3 + 3 + 3) + 3 * 512) s" using left by (simp add: algebra_simps)
  show ?thesis
    unfolding pre_switch_audit_and_patch_def Let_def hh runs_bind
  proof (rule runs_mono [OF stack], rule runs_mono [OF runs_ends [OF ensure_range_runs [OF inv left'] ensure_range_keeps [OF inv]]],
      elim conjE, rule runs_mono, rule ensure_page_runs [OF keeps_inv], assumption+, elim conjE,
      rule runs_mono, rule ensure_page_runs [OF keeps_inv], assumption+, elim conjE,
      rule runs_mono, rule ensure_page_runs [OF keeps_inv], assumption+, elim conjE)
    fix p and s1 s2 s3 s4 :: "'a paging_state_scheme"
    assume p: "rsp = ?hh + p \<or> tr s r (vpn rsp) \<noteq> None" and k: "keeps r s s1" "keeps r s1 s2" "keeps r s2 s3" "keeps r s3 s4"
      and new: "tr s2 r (vpn (?hh + p)) \<noteq> None" "tr s3 r (vpn (?hh + ?old)) \<noteq> None" "tr s4 r (vpn (?hh + r)) \<noteq> None" and left: "frames_left k s4"
    have i4: "boot_inv s4 r" "g_hhdm s4 = ?hh" using keeps_inv [OF k(4)] boot_invD(2) by blast+
    have k4: "keeps r s s4" "keeps r s2 s4" using k keeps_trans by blast+
    have "tr s4 r (vpn rsp) \<noteq> None" using p new(1) reachable_keeps [OF k4(1)] reachable_keeps [OF k4(2)] by auto
    moreover note reachable_keeps [OF k4(1) rip] reachable_keeps [OF k4(1) zero] reachable_keeps [OF k(4) new(2)] new(3)
    ultimately show "runs (frames_left k)
      (if walk_va_to_pa rsp (?hh + r) s4 = None then Panic ''paging_bootstrap: stack missing after patching''
       else if walk_va_to_pa rip (?hh + r) s4 = None then Panic ''paging_bootstrap: kernel RIP missing after patching''
       else if walk_va_to_pa (g_hhdm s4) (?hh + r) s4 = None then Panic ''paging_bootstrap: HHDM+0 missing after patching''
       else if walk_va_to_pa (g_hhdm s4 + ?old) (?hh + r) s4 = None then Panic ''paging_bootstrap: old CR3 page missing from HHDM''
       else if walk_va_to_pa (g_hhdm s4 + r) (?hh + r) s4 = None then Panic ''paging_bootstrap: new CR3 page missing from HHDM''
       else Done s4)"
      using left by (simp add: walk_None [OF i4(1)] i4(2))
  qed
qed

section \<open>The whole construction\<close>

text \<open>What the loader and the linker provide so that no check of \<open>paging_bootstrap\<close> fails: entries of the
  memory map that share no page and leave out page 0, the load address, code that runs in the text
  section, and a stack in the direct map or in the data section.\<close>

definition bootable :: "boot_info \<Rightarrow> u64 \<Rightarrow> u64 \<Rightarrow> bool" where
  "bootable bi rsp rip \<longleftrightarrow>
     (case memmap bi of None \<Rightarrow> False
      | Some es \<Rightarrow> es \<noteq> [] \<and> entries_apart es \<and> (\<forall>e \<in> set es. hhdm_include (me_type e) \<longrightarrow> PAGE_SIZE \<le> me_base e)) \<and>
     kernel_address bi \<noteq> None \<and>
     text_start bi \<le> rip \<and> rip < ALIGN_UP (text_end bi) PAGE_SIZE \<and>
     (HIGHER_HALF_MEMORY_OFFSET \<le> rsp \<and> rsp < HIGHER_HALF_MEMORY_OFFSET + get_max_phys bi \<or>
      data_start bi \<le> rsp \<and> rsp < ALIGN_UP (bss_end bi) PAGE_SIZE)"

definition bootstrap_cost :: "boot_info \<Rightarrow> nat" where
  "bootstrap_cost bi = 1 + 3 * 512 + 3 * image_size bi + 2 + direct_cost (case memmap bi of None \<Rightarrow> [] | Some es \<Rightarrow> es) + 3 * 512 + 9"

lemma frames_left_fields [simp]:
  "frames_left n (s\<lparr>cr3 := x\<rparr>) = frames_left n s" "frames_left n (s\<lparr>g_pml4_phys := p, g_pml4_virt := v\<rparr>) = frames_left n s"
  "frames_left n (s\<lparr>g_hhdm := h\<rparr>) = frames_left n s"
  by (simp_all add: frames_left_def split: option.split phys_page_supplier.split)

lemma first_page_pos: "PAGE_SIZE \<le> me_base e \<Longrightarrow> 0 < first_page e"
  by (simp add: word_le_nat_alt PAGE_SIZE_def div_greater_zero_iff)

lemma bootstrap_direct_runs:
  assumes s: "stocked r (k + 3 * 512 + 9 + 2 + direct_cost es) s" and im: "image_mapped bi ka r s"
    and lay: "kernel_layout bi" and es: "memmap bi = Some es" "hhdm_fits es" and b: "bootable bi rsp rip"
    and r: "g_pml4_phys s = r" "g_pml4_virt s = HIGHER_HALF_MEMORY_OFFSET + r"
  shows "runs (frames_left k) (bind_outcome (map_hhdm bi (g_pml4_virt s) s) (\<lambda>t.
    bind_outcome (scan_hhdm_range 0 (16 * 1024 * 1024) PAGE_2M_SIZE (g_pml4_virt t) t) (\<lambda>_.
    install_new_cr3 bi rsp rip (g_pml4_phys t) (g_pml4_virt t) t)))"
proof -
  have inv: "boot_inv s r" using s by (simp add: stocked_def)
  have low: "0 < first_page e" if "e \<in> set (included es)" for e
    using b that es(1) by (intro first_page_pos) (simp add: bootable_def)
  note run = map_hhdm_runs [OF s es(1) _ es(2) _ low]
  show ?thesis
    unfolding runs_bind r(2)
  proof (rule runs_mono [OF runs_ends [OF run map_hhdm_direct [OF inv es]]])
    show "es \<noteq> []" "entries_apart es" using b es(1) by (simp_all add: bootable_def)
    fix t assume t: "frames_left (k + 3 * 512 + 9) t \<and>
      direct_ext r ((\<Union>e \<in> {e \<in> set es. hhdm_include (me_type e)}. entry_pages e) \<union> {0 ..< 512}) s t"
    then have ext: "direct_ext r (hhdm_pages bi) s t" using es(1) by (simp add: hhdm_pages_def)
    then have rm: "remap r {2 ^ 35 ..< 2 ^ 35 + 2 ^ 34} s t"
      unfolding direct_ext_def by (elim conjE remap_mono) (use hhdm_pages_below [OF es] in auto)
    note inv' = remapD(1) [OF rm] and f = paging_only_fields [OF remapD(2) [OF rm]]
    have im': "image_mapped bi ka r t" by (rule image_keep [OF rm _ lay im]) auto
    have low: "direct t r 0" using ext by (simp add: direct_ext_def hhdm_pages_def)
    have rip: "tr t r (vpn rip) \<noteq> None" using im' b by (simp add: image_mapped_def section_mapped_def bootable_def)
    have rsp: "HIGHER_HALF_MEMORY_OFFSET \<le> rsp \<and> rsp < HIGHER_HALF_MEMORY_OFFSET + get_max_phys bi \<or> tr t r (vpn rsp) \<noteq> None"
      using im' b by (auto simp: image_mapped_def section_mapped_def bootable_def)
    have audit: "runs (frames_left k) (pre_switch_audit_and_patch bi rsp rip (HIGHER_HALF_MEMORY_OFFSET + r) r t)"
      by (rule audit_runs [OF inv' conjunct1 [OF t] low rsp rip])
    then have "runs (frames_left k) (install_new_cr3 bi rsp rip r (HIGHER_HALF_MEMORY_OFFSET + r) t)"
      unfolding install_new_cr3_def runs_bind by (rule runs_mono) simp
    then show "runs (\<lambda>a. runs (frames_left k) (install_new_cr3 bi rsp rip (g_pml4_phys t) (g_pml4_virt t) t))
        (scan_hhdm_range 0 (16 * 1024 * 1024) PAGE_2M_SIZE (g_pml4_virt t) t)"
      unfolding f r by (intro runs_mono [OF scan_runs])
  qed
qed

lemma alloc_root_runs:
  assumes ok: "supplier_ok s" and hh: "g_hhdm s = HIGHER_HALF_MEMORY_OFFSET"
    and early: "g_boot_phys_page s = Some supply_from_early" and left: "frames_left (Suc n) s"
  shows "runs (\<lambda>((virt, phys), s1). virt = HIGHER_HALF_MEMORY_OFFSET + phys \<and>
      stocked phys n (s1\<lparr>g_pml4_phys := phys, g_pml4_virt := virt\<rparr>)) (alloc_table s)"
proof -
  obtain p s1 where p: "PagingGetFreeFrame s = Done (p, s1)" "frames_left n s1" by (rule get_free_frame_total [OF ok left])
  then have "early_alloc_page s = Done (p, s1)" using early by (simp add: PagingGetFreeFrame_def)
  then have "runs (\<lambda>(x, t). frames_left n t) (alloc_table s)" 
    using p(2) paging_only_fields(1) [OF get_free_frame_same(1) [OF ok p(1)]] hh by (simp add: alloc_table_def Let_def)
  from runs_ends [OF this alloc_root [OF ok hh early]] show ?thesis
    by (rule runs_mono) (auto simp: stocked_def all_small_def small_page_def)
qed

lemma bootstrap_runs:
  assumes env: "boot_env bi s" and b: "bootable bi rsp rip" and left: "frames_left (k + bootstrap_cost bi) s"
  shows "runs (frames_left k) (paging_bootstrap bi rsp rip s)"
proof -
  define s0 where "s0 = s\<lparr>g_hhdm := HIGHER_HALF_MEMORY_OFFSET\<rparr>"
  obtain es ka where es: "memmap bi = Some es" "hhdm_fits es" and ka: "kernel_address bi = Some ka"
    using env b by (auto simp: boot_env_def bootable_def split: option.splits)
  have lay: "kernel_layout bi" using env by (simp add: boot_env_def)
  define m where "m = k + 3 * 512 + 9 + 2 + direct_cost es"
  have pre: "supplier_ok s0" "g_hhdm s0 = HIGHER_HALF_MEMORY_OFFSET" "g_boot_phys_page s0 = Some supply_from_early"
    "frames_left (Suc (m + 3 * image_size bi + 3 * 512)) s0"
    using env left es(1) by (simp_all add: s0_def boot_env_def bootstrap_cost_def m_def algebra_simps)
  have rest: "runs (frames_left k) (bind_outcome (map_identity_minimal (g_pml4_virt s2) s2) (\<lambda>s3.
    bind_outcome (map_kernel_higher_half bi (g_pml4_virt s3) s3) (\<lambda>s4.
    bind_outcome (map_hhdm bi (g_pml4_virt s4) s4) (\<lambda>s5.
    bind_outcome (scan_hhdm_range 0 (16 * 1024 * 1024) PAGE_2M_SIZE (g_pml4_virt s5) s5) (\<lambda>_.
    install_new_cr3 bi rsp rip (g_pml4_phys s5) (g_pml4_virt s5) s5)))))"
    if s2: "stocked r (m + 3 * image_size bi + 3 * 512) s2" "g_pml4_phys s2 = r" "g_pml4_virt s2 = HIGHER_HALF_MEMORY_OFFSET + r"
    for s2 r
    unfolding runs_bind [of _ "map_identity_minimal _ _"] runs_bind [of _ "map_kernel_higher_half _ _ _"] s2(3)
  proof (rule runs_mono [OF runs_ends [OF identity_runs [OF s2(1)] identity_pages]])
    show "boot_inv s2 r" using s2(1) by (simp add: stocked_def)
    fix s3 assume 3: "stocked r (m + 3 * image_size bi) s3 \<and> mapped_pages r 0 0 (PTE_W OR PTE_NX) 512 s2 s3"
    then have "remap r {0 ..< 512} s2 s3" by (simp add: mapped_pages_def vpn_def)
    note f3 = paging_only_fields [OF remapD(2) [OF this]]
    show "runs (\<lambda>s4. runs (frames_left k) (bind_outcome (map_hhdm bi (g_pml4_virt s4) s4) (\<lambda>s5.
      bind_outcome (scan_hhdm_range 0 (16 * 1024 * 1024) PAGE_2M_SIZE (g_pml4_virt s5) s5) (\<lambda>_.
      install_new_cr3 bi rsp rip (g_pml4_phys s5) (g_pml4_virt s5) s5)))) (map_kernel_higher_half bi (g_pml4_virt s3) s3)"
      unfolding f3(3) s2(3)
    proof (rule runs_mono [OF runs_ends [OF map_kernel_runs [OF lay ka conjunct1 [OF 3]] map_kernel_image [OF _ lay ka]]])
      show "boot_inv s3 r" using 3 by (simp add: stocked_def)
      fix s4 assume 4: "stocked r m s4 \<and> remap r kernel_pages s3 s4 \<and> image_mapped bi ka r s4"
      note f4 = paging_only_fields [OF remapD(2) [OF conjunct1 [OF conjunct2 [OF 4]]]]
      show "runs (frames_left k) (bind_outcome (map_hhdm bi (g_pml4_virt s4) s4) (\<lambda>s5.
        bind_outcome (scan_hhdm_range 0 (16 * 1024 * 1024) PAGE_2M_SIZE (g_pml4_virt s5) s5) (\<lambda>_.
        install_new_cr3 bi rsp rip (g_pml4_phys s5) (g_pml4_virt s5) s5)))"
        by (rule bootstrap_direct_runs [OF _ conjunct2 [OF conjunct2 [OF 4]] lay es b]) (use 4 f4 f3 s2 in \<open>simp_all add: m_def\<close>)
    qed
  qed
  have eq: "paging_bootstrap bi rsp rip s = bind_outcome (alloc_table s0) (\<lambda>((virt, phys), s1).
    let s2 = s1\<lparr>g_pml4_phys := phys, g_pml4_virt := virt\<rparr> in
    bind_outcome (map_identity_minimal (g_pml4_virt s2) s2) (\<lambda>s3.
    bind_outcome (map_kernel_higher_half bi (g_pml4_virt s3) s3) (\<lambda>s4.
    bind_outcome (map_hhdm bi (g_pml4_virt s4) s4) (\<lambda>s5.
    bind_outcome (scan_hhdm_range 0 (16 * 1024 * 1024) PAGE_2M_SIZE (g_pml4_virt s5) s5) (\<lambda>_.
    install_new_cr3 bi rsp rip (g_pml4_phys s5) (g_pml4_virt s5) s5)))))"
    using env by (simp add: paging_bootstrap_def boot_env_def s0_def Let_def)
  show ?thesis
    unfolding eq runs_bind [of _ "alloc_table s0"]
    by (rule runs_mono [OF alloc_root_runs [OF pre]], clarify, unfold Let_def, rule rest) simp_all
qed

section \<open>A machine that boots\<close>

text \<open>128 MiB of memory: the kernel is loaded at 1 MiB, and everything from 2 MiB on is early pages.\<close>

definition wit_large_map :: "memmap_entry list" where
  "wit_large_map =
     [\<lparr>me_base = 0, me_length = 0x9FC00, me_type = LIMINE_MEMMAP_RESERVED\<rparr>,
      \<lparr>me_base = 0x100000, me_length = 0x3000, me_type = LIMINE_MEMMAP_KERNEL_AND_MODULES\<rparr>,
      \<lparr>me_base = 0x200000, me_length = 0x7E00000, me_type = LIMINE_MEMMAP_USABLE\<rparr>]"

definition wit_large_boot :: boot_info where
  "wit_large_boot = wit_boot\<lparr>memmap := Some wit_large_map\<rparr>"

definition wit_large_pt :: paging_state where
  "wit_large_pt = wit_pt\<lparr>g_base := 0x200000, g_cursor := 0x200000, g_end := 0x8000000\<rparr>"

lemma wit_large_env: "boot_env wit_large_boot wit_large_pt"
  by (simp add: boot_env_def wit_large_boot_def wit_boot_def wit_large_pt_def wit_pt_def HIGHER_HALF_MEMORY_OFFSET_def kernel_layout_def
      HIGHER_HALF_KERNEL_MEMORY_OFFSET_def hhdm_fits_def wit_large_map_def supplier_ok_def early_wf_def)

lemma wit_large_cost: "bootstrap_cost wit_large_boot \<le> 12000"
  by (simp add: bootstrap_cost_def image_size_def section_pages_def direct_cost_def range_cost_def wit_large_boot_def wit_boot_def
      wit_large_map_def hhdm_include_def memmap_type_defs ALIGN_UP_def PAGE_SIZE_def)

lemma wit_large_bootable: "bootable wit_large_boot 0xFFFFFFFF80002800 0xFFFFFFFF80000400"
  by (simp add: bootable_def entries_apart_def wit_large_boot_def wit_boot_def wit_large_map_def hhdm_include_def memmap_type_defs
      ALIGN_UP_def PAGE_SIZE_def entry_pages_def disjnt_iff)

lemma wit_large_run:
  obtains t where "paging_bootstrap wit_large_boot 0xFFFFFFFF80002800 0xFFFFFFFF80000400 wit_large_pt = Done t"
proof -
  have "frames_left (0 + bootstrap_cost wit_large_boot) wit_large_pt"
    using wit_large_cost by (simp add: frames_left_def wit_large_pt_def wit_pt_def)
  from bootstrap_runs [OF wit_large_env wit_large_bootable this] show thesis by (auto simp: runs_iff intro: that)
qed

section \<open>Properties\<close>
lemma boot_rights:
  assumes "boot_inv t r" and "tr t r (vpn v) = Some (e, l)"
  shows "resolve (ptab t) r (va_path v) = Some (e, l)" and "writable (ptab t) r (va_path v) \<longleftrightarrow> bit e 1"
    and "executable (ptab t) r (va_path v) \<longleftrightarrow> \<not> bit e 63"
proof -
  show res: "resolve (ptab t) r (va_path v) = Some (e, l)" using assms(2) by (simp add: tr_def va_path_vpn)
  show "writable (ptab t) r (va_path v) \<longleftrightarrow> bit e 1" "executable (ptab t) r (va_path v) \<longleftrightarrow> \<not> bit e 63"
    using open_rights [OF boot_invD(5) [OF assms(1)] va_path_ok(1) res va_path_ok(2)] by simp_all
qed

lemma section_rights:
  assumes "boot_inv t r" and "section_mapped r ka x0 x1 flags t" and "x0 \<le> v" and "v < x1"
  shows "writable (ptab t) r (va_path v) \<longleftrightarrow> bit flags 1" and "executable (ptab t) r (va_path v) \<longleftrightarrow> \<not> bit flags 63"
  using boot_rights(2,3) [OF assms(1) section_walk(1) [OF assms]] by (simp_all add: leaf_4k_bits)

text \<open>C3: Write xor execute for the kernel image. When \<open>paging_bootstrap\<close> returns, walking any address
  of the image through the new tables ends at the byte the loader put there, and the rights the
  processor grants, with the entries of every level of the walk taken together, are these: the
  text can be executed and not written, the read-only data neither written nor executed, and
  everything from the data section to the end of the bss written and not executed.
  The construction never runs for ever.\<close>
theorem paging_bootstrap_wx:
  assumes "boot_env bi s"
  shows "ends (\<lambda>t. \<exists>ka. kernel_address bi = Some ka \<and> (\<forall>v.
      (text_start bi \<le> v \<and> v < ALIGN_UP (text_end bi) PAGE_SIZE \<longrightarrow>
        walk_va_to_pa v (g_pml4_virt t) t = Some (image_phys ka v, 1) \<and>
        \<not> writable (ptab t) (cr3 t) (va_path v) \<and> executable (ptab t) (cr3 t) (va_path v)) \<and>
      (rodata_start bi \<le> v \<and> v < ALIGN_UP (rodata_end bi) PAGE_SIZE \<longrightarrow>
        walk_va_to_pa v (g_pml4_virt t) t = Some (image_phys ka v, 1) \<and>
        \<not> writable (ptab t) (cr3 t) (va_path v) \<and> \<not> executable (ptab t) (cr3 t) (va_path v)) \<and>
      (data_start bi \<le> v \<and> v < ALIGN_UP (bss_end bi) PAGE_SIZE \<longrightarrow>
        walk_va_to_pa v (g_pml4_virt t) t = Some (image_phys ka v, 1) \<and>
        writable (ptab t) (cr3 t) (va_path v) \<and> \<not> executable (ptab t) (cr3 t) (va_path v))))
    (paging_bootstrap bi rsp rip s)"
proof (rule ends_mono [OF bootstrap_run [OF assms]], goal_cases)
  case (1 t)
  then obtain ka where ka: "kernel_address bi = Some ka" and im: "image_mapped bi ka (g_pml4_phys t) t"
    and inv: "boot_inv t (g_pml4_phys t)" and cr3: "cr3 t = g_pml4_phys t"
    and virt: "g_pml4_virt t = HIGHER_HALF_MEMORY_OFFSET + g_pml4_phys t" by (auto simp: boot_post_def)
  have b: "\<not> bit (0 :: u64) 1" "\<not> bit (0 :: u64) 63" "\<not> bit PTE_NX 1" "bit PTE_NX 63"
    "bit (PTE_W OR PTE_NX) 1" "bit (PTE_W OR PTE_NX) 63"
    by (simp_all add: bit_PTE_NX bit_or_iff bit_PTE_W)
  show ?case
    unfolding cr3 virt
    using ka im section_walk(2) [OF inv] section_rights [OF inv] b
    unfolding image_mapped_def by blast
qed

theorem paging_bootstrap_wx_witness:
  "\<exists>t. paging_bootstrap wit_large_boot 0xFFFFFFFF80002800 0xFFFFFFFF80000400 wit_large_pt = Done t \<and>
    executable (ptab t) (cr3 t) (va_path 0xFFFFFFFF80000400) \<and> \<not> writable (ptab t) (cr3 t) (va_path 0xFFFFFFFF80000400)"
proof -
  obtain t where t: "paging_bootstrap wit_large_boot 0xFFFFFFFF80002800 0xFFFFFFFF80000400 wit_large_pt = Done t"
    by (rule wit_large_run)
  have "text_start wit_large_boot \<le> 0xFFFFFFFF80000400 \<and> 0xFFFFFFFF80000400 < ALIGN_UP (text_end wit_large_boot) PAGE_SIZE"
    by (simp add: wit_large_boot_def wit_boot_def ALIGN_UP_def PAGE_SIZE_def)
  with ends_DoneD [OF paging_bootstrap_wx [OF wit_large_env] t] t show ?thesis by blast
qed



text \<open>C17: The switch of CR3 is safe. When \<open>paging_bootstrap\<close> returns, CR3 holds the new root and the
  tables below it form a tree whose table frames are distinct pages taken from the early allocator.
  The processor goes on fetching the bytes of the running code and can execute them, the stack
  pointer still stands for the byte of the stack it stood for and the stack can be written, and
  physical address 0, the old root and the new root are found at their own addresses in the direct
  map. The early pages, the old root and the stack must lie below 64 TiB, where the direct map ends.\<close>
theorem paging_bootstrap_switch:
  assumes "boot_env bi s" and "unat (g_end s) \<le> 2 ^ 46" and "unat (cr3 s AND ADDR_MASK) < 2 ^ 46"
    and "stack_phys bi rsp = Some p" and "unat p < 2 ^ 46"
    and "text_start bi \<le> rip" and "rip < ALIGN_UP (text_end bi) PAGE_SIZE"
  shows "ends (\<lambda>t. cr3 t = g_pml4_phys t \<and> pt_ok t (cr3 t) \<and>
      (\<exists>ka. kernel_address bi = Some ka \<and> walk_va_to_pa rip (g_pml4_virt t) t = Some (image_phys ka rip, 1)) \<and>
      executable (ptab t) (cr3 t) (va_path rip) \<and>
      (\<exists>l. walk_va_to_pa rsp (g_pml4_virt t) t = Some (p, l)) \<and> writable (ptab t) (cr3 t) (va_path rsp) \<and>
      (\<forall>q \<in> {0, cr3 s AND ADDR_MASK, cr3 t}.
         \<exists>l. walk_va_to_pa (HIGHER_HALF_MEMORY_OFFSET + q) (g_pml4_virt t) t = Some (q, l)))
    (paging_bootstrap bi rsp rip s)"
proof (rule ends_mono [OF bootstrap_run [OF assms(1)]], goal_cases)
  case (1 t)
  let ?r = "g_pml4_phys t" and ?H = HIGHER_HALF_MEMORY_OFFSET
  obtain ka where ka: "kernel_address bi = Some ka" and im: "image_mapped bi ka ?r t"
    using 1 by (auto simp: boot_post_def)
  have inv: "boot_inv t ?r" and cr3: "cr3 t = ?r" and virt: "g_pml4_virt t = ?H + ?r" and e: "g_end t = g_end s"
    using 1 by (simp_all add: boot_post_def)
  have "?r \<in> table_frames t" using pt_ok_table(1) [OF boot_invD(1) [OF inv], of "[]"] by (simp add: path_ok_def)
  then have r: "unat ?r < 2 ^ 46"
    using boot_invD(3) [OF inv] e assms(2) by (simp add: table_frames_def supply_limit_def)
  have win: "hhdm_window t ?r" using 1 r assms(3-5) by (simp add: boot_post_def)
  have "0 \<in> hhdm_pages bi" by (simp add: hhdm_pages_def)
  then have "direct t ?r (unat (0 :: u64) div 4096)" using 1 by (simp add: boot_post_def)
  then have "\<exists>l. walk_va_to_pa (?H + 0) (?H + ?r) t = Some (0, l)" by (rule direct_walk [OF inv]) simp
  moreover have "\<exists>l. walk_va_to_pa (?H + q) (?H + ?r) t = Some (q, l)" if "q = cr3 s AND ADDR_MASK \<or> q = ?r" for q
    using 1 that r assms(3) by (intro window_walk(2) [OF win inv]) (auto simp: boot_post_def reachable_va_def)
  moreover obtain q l where walk: "walk_va_to_pa rsp (?H + ?r) t = Some (q, l)"
    using 1 by (auto simp: boot_post_def reachable_va_def)
  note stack = stack_walk [OF inv win ka im assms(4) walk]
  have "writable (ptab t) ?r (va_path rsp)" using stack(2) boot_rights(2) [OF inv] by blast
  moreover have code: "section_mapped ?r ka (text_start bi) (ALIGN_UP (text_end bi) PAGE_SIZE) 0 t"
    using im by (simp add: image_mapped_def)
  moreover have "executable (ptab t) ?r (va_path rip)" using section_rights(2) [OF inv code assms(6,7)] by simp
  ultimately show ?case
    using section_walk(2) [OF inv code assms(6,7)] ka walk stack(1) boot_invD(1) [OF inv] unfolding cr3 virt by auto
qed

theorem paging_bootstrap_switch_witness:
  "\<exists>t l. paging_bootstrap wit_large_boot 0xFFFFFFFF80002800 0xFFFFFFFF80000400 wit_large_pt = Done t \<and>
    walk_va_to_pa 0xFFFFFFFF80002800 (g_pml4_virt t) t = Some (0x102800, l)"
proof -
  obtain t where t: "paging_bootstrap wit_large_boot 0xFFFFFFFF80002800 0xFFFFFFFF80000400 wit_large_pt = Done t"
    by (rule wit_large_run)
  have "stack_phys wit_large_boot 0xFFFFFFFF80002800 = Some 0x102800"
    by (simp add: stack_phys_def image_phys_def wit_large_boot_def wit_boot_def HIGHER_HALF_MEMORY_OFFSET_def
        ALIGN_UP_def ALIGN_DOWN_def PAGE_SIZE_def ADDR_MASK_def virt_to_phys_kernel_def)
  note sw = paging_bootstrap_switch [OF wit_large_env _ _ this, of "0xFFFFFFFF80000400"]
  have "unat (g_end wit_large_pt) \<le> 2 ^ 46" "unat (cr3 wit_large_pt AND ADDR_MASK) < 2 ^ 46"
    "text_start wit_large_boot \<le> 0xFFFFFFFF80000400" "0xFFFFFFFF80000400 < ALIGN_UP (text_end wit_large_boot) PAGE_SIZE"
    by (simp_all add: wit_large_pt_def wit_pt_def ADDR_MASK_def wit_large_boot_def wit_boot_def ALIGN_UP_def PAGE_SIZE_def)
  from ends_DoneD [OF sw [OF this(1,2) _ this(3,4)] t] t show ?thesis by auto
qed

text \<open>C40: \<open>paging_bootstrap\<close> returns. Where the loader and the linker script provide what they promise,
  \<open>bootstrap_cost\<close> early pages are enough for every table: the routine neither panics nor loops, switches
  to the new root, and whatever early pages there were beyond the cost are still there.\<close>
theorem paging_bootstrap_returns:
  assumes "boot_env bi s" and "bootable bi rsp rip" and "frames_left (k + bootstrap_cost bi) s"
  shows "\<exists>t. paging_bootstrap bi rsp rip s = Done t \<and> frames_left k t \<and> cr3 t = g_pml4_phys t \<and> pt_ok t (cr3 t)"
  using runs_ends [OF bootstrap_runs [OF assms] bootstrap_run [OF assms(1)]]
  by (auto simp: runs_iff boot_post_def boot_invD(1))

theorem paging_bootstrap_returns_witness:
  "\<exists>t. paging_bootstrap wit_large_boot 0xFFFFFFFF80002800 0xFFFFFFFF80000400 wit_large_pt = Done t \<and> frames_left 20256 t \<and> pt_ok t (cr3 t)"
proof -
  have "frames_left (20256 + bootstrap_cost wit_large_boot) wit_large_pt"
    using wit_large_cost by (simp add: frames_left_def wit_large_pt_def wit_pt_def)
  with paging_bootstrap_returns [OF wit_large_env wit_large_bootable] show ?thesis by blast
qed

end
