(* ===== verification/Kmalloc.thy ===== *)
theory Kmalloc
  imports Paging
begin

text \<open>
  The kernel heap, \<open>src/src/mm/kmalloc.c\<close>: boundary-tagged blocks with an explicit free list,
  grown page by page through the frame allocator and the page tables. A block pointer is a
  virtual address; header fields and footers are 64-bit words of memory at their offsets.
  NULL is 0. \<open>fl_find_fit\<close> follows pointers, so its fuel is one more than the number of
  pointer values: a search that runs longer goes round in a circle.
\<close>

section \<open>Constants and block layout\<close>

definition HEAP_BASE :: u64 where "HEAP_BASE = 0xFFFF900000000000"
definition HEAP_LIMIT :: u64 where "HEAP_LIMIT = HEAP_BASE + 256 * 1024 * 1024"
definition ALIGNMENT :: u64 where "ALIGNMENT = 16"
definition MIN_SPLIT_SIZE :: u64 where "MIN_SPLIT_SIZE = 32"
definition ALLOC_FLAG :: u64 where "ALLOC_FLAG = 1"

text \<open>\<open>sizeof(block_t)\<close> is 24 and \<open>sizeof(footer_t)\<close> is 8.\<close>

definition HDR_SIZE :: u64 where "HDR_SIZE = ALIGN_UP 24 ALIGNMENT"
definition FTR_SIZE :: u64 where "FTR_SIZE = 8"
definition OVERHEAD :: u64 where "OVERHEAD = HDR_SIZE + FTR_SIZE"

definition size_and_flags :: "memory \<Rightarrow> u64 \<Rightarrow> u64" where "size_and_flags m h = load64 m h"
definition prev_free :: "memory \<Rightarrow> u64 \<Rightarrow> u64" where "prev_free m h = load64 m (h + 8)"
definition next_free :: "memory \<Rightarrow> u64 \<Rightarrow> u64" where "next_free m h = load64 m (h + 16)"

definition set_prev_free :: "u64 \<Rightarrow> u64 \<Rightarrow> memory \<Rightarrow> memory" where
  "set_prev_free h v m = store64 m (h + 8) v"
definition set_next_free :: "u64 \<Rightarrow> u64 \<Rightarrow> memory \<Rightarrow> memory" where
  "set_next_free h v m = store64 m (h + 16) v"

definition IS_ALLOC :: "memory \<Rightarrow> u64 \<Rightarrow> bool" where
  "IS_ALLOC m h \<longleftrightarrow> size_and_flags m h AND ALLOC_FLAG \<noteq> 0"
definition SET_ALLOC :: "u64 \<Rightarrow> memory \<Rightarrow> memory" where
  "SET_ALLOC h m = store64 m h (size_and_flags m h OR ALLOC_FLAG)"
definition CLR_ALLOC :: "u64 \<Rightarrow> memory \<Rightarrow> memory" where
  "CLR_ALLOC h m = store64 m h (size_and_flags m h AND NOT ALLOC_FLAG)"
definition BLK_SIZE :: "memory \<Rightarrow> u64 \<Rightarrow> u64" where
  "BLK_SIZE m h = size_and_flags m h AND NOT ALLOC_FLAG"
definition SET_SIZE :: "u64 \<Rightarrow> u64 \<Rightarrow> memory \<Rightarrow> memory" where
  "SET_SIZE h sz m = store64 m h (sz OR (size_and_flags m h AND ALLOC_FLAG))"
definition USABLE :: "memory \<Rightarrow> u64 \<Rightarrow> u64" where
  "USABLE m h = BLK_SIZE m h - OVERHEAD"

definition total_size_for_payload :: "u64 \<Rightarrow> u64" where
  "total_size_for_payload payload =
     (let aligned_payload = ALIGN_UP payload ALIGNMENT
      in ALIGN_UP (aligned_payload + OVERHEAD) ALIGNMENT)"

definition FOOTER_OF :: "memory \<Rightarrow> u64 \<Rightarrow> u64" where
  "FOOTER_OF m h = h + BLK_SIZE m h - FTR_SIZE"
definition NEXT_BLOCK :: "memory \<Rightarrow> u64 \<Rightarrow> u64" where
  "NEXT_BLOCK m h = h + BLK_SIZE m h"
definition PREV_BLOCK :: "memory \<Rightarrow> u64 \<Rightarrow> u64" where
  "PREV_BLOCK m h = (let prev_sz = load64 m (h - FTR_SIZE) AND NOT ALLOC_FLAG in h - prev_sz)"

text \<open>\<open>FOOTER_OF(h)->size_and_flags = h->size_and_flags\<close>\<close>

definition mirror_footer :: "u64 \<Rightarrow> memory \<Rightarrow> memory" where
  "mirror_footer h m = store64 m (FOOTER_OF m h) (size_and_flags m h)"

section \<open>State and free list\<close>

record heap_state = paging_state +
  g_heap_curr :: u64
  g_heap_lock :: bool
  g_free_list :: u64

definition current_pml4_phys :: "'a paging_state_scheme \<Rightarrow> u64" where
  "current_pml4_phys s = cr3 s AND NOT 0xFFF"

definition fl_push :: "u64 \<Rightarrow> 'a heap_state_scheme \<Rightarrow> 'a heap_state_scheme" where
  "fl_push b s =
     (let m1 = set_prev_free b 0 (mem s);
          m2 = set_next_free b (g_free_list s) m1;
          m3 = (if g_free_list s \<noteq> 0 then set_prev_free (g_free_list s) b m2 else m2)
      in s\<lparr>mem := m3, g_free_list := b\<rparr>)"

definition fl_remove :: "u64 \<Rightarrow> 'a heap_state_scheme \<Rightarrow> 'a heap_state_scheme" where
  "fl_remove b s =
     (let s1 = (if prev_free (mem s) b \<noteq> 0
                then s\<lparr>mem := set_next_free (prev_free (mem s) b) (next_free (mem s) b) (mem s)\<rparr>
                else s\<lparr>g_free_list := next_free (mem s) b\<rparr>);
          s2 = (if next_free (mem s1) b \<noteq> 0
                then s1\<lparr>mem := set_prev_free (next_free (mem s1) b) (prev_free (mem s1) b) (mem s1)\<rparr>
                else s1)
      in s2\<lparr>mem := set_prev_free b 0 (set_next_free b 0 (mem s2))\<rparr>)"

section \<open>Growing, searching, splitting, merging\<close>

definition map_heap_page :: "u64 \<Rightarrow> u64 \<times> 'a heap_state_scheme \<Rightarrow> (u64 \<times> 'a heap_state_scheme) outcome" where
  "map_heap_page p4 = (\<lambda>(va, s).
     bind_outcome (frame_alloc s) (\<lambda>(phys, s1).
     bind_outcome (PagingMapMemory p4 va phys
        (PAGING_FLAG_PRESENT OR PAGING_FLAG_WRITABLE OR PAGING_FLAG_NO_EXECUTE) s1) (\<lambda>s2.
     Done (va + PAGE_SIZE, s2))))"

definition heap_map_more :: "u64 \<Rightarrow> 'a heap_state_scheme \<Rightarrow> 'a heap_state_scheme outcome" where
  "heap_map_more bytes s =
     (let need = ALIGN_UP bytes PAGE_SIZE;
          start = ALIGN_UP (g_heap_curr s) PAGE_SIZE;
          fin = start + need
      in if fin > HEAP_LIMIT then Panic ''kmalloc: VA heap exhausted''
         else
           let p4 = current_pml4_phys s in
           bind_outcome (while_outcome (2 ^ 52 + 1) (\<lambda>(va, s). va < fin) (map_heap_page p4) (start, s)) (\<lambda>(_, s1).
           let h = start;
               blk_sz = fin - start;
               m1 = store64 (mem s1) h blk_sz;
               m2 = set_prev_free h 0 (set_next_free h 0 m1);
               m3 = store64 m2 (FOOTER_OF m2 h) blk_sz;
               s2 = fl_push h (s1\<lparr>mem := m3\<rparr>)
           in Done (s2\<lparr>g_heap_curr := fin\<rparr>)))"

definition fl_find_fit :: "u64 \<Rightarrow> 'a heap_state_scheme \<Rightarrow> u64 outcome" where
  "fl_find_fit need_payload s =
     (let need_total = total_size_for_payload need_payload
      in while_outcome (2 ^ 64 + 1) (\<lambda>it. it \<noteq> 0 \<and> \<not> BLK_SIZE (mem s) it \<ge> need_total)
           (\<lambda>it. Done (next_free (mem s) it)) (g_free_list s))"

definition allocate_from_block :: "u64 \<Rightarrow> u64 \<Rightarrow> 'a heap_state_scheme \<Rightarrow> u64 \<times> 'a heap_state_scheme" where
  "allocate_from_block h need_payload s =
     (let need_total = total_size_for_payload need_payload;
          old_sz = BLK_SIZE (mem s) h;
          s1 = fl_remove h s
      in if old_sz \<ge> need_total + total_size_for_payload MIN_SPLIT_SIZE
         then
           let alloc_sz = need_total;
               tail_sz = old_sz - alloc_sz;
               m1 = SET_ALLOC h (SET_SIZE h alloc_sz (mem s1));
               m2 = mirror_footer h m1;
               t = h + alloc_sz;
               m3 = store64 m2 t tail_sz;
               m4 = set_prev_free t 0 (set_next_free t 0 m3);
               m5 = store64 m4 (FOOTER_OF m4 t) tail_sz
           in (h, fl_push t (s1\<lparr>mem := m5\<rparr>))
         else
           let m1 = SET_ALLOC h (mem s1)
           in (h, s1\<lparr>mem := mirror_footer h m1\<rparr>))"

definition coalesce :: "u64 \<Rightarrow> 'a heap_state_scheme \<Rightarrow> u64 \<times> 'a heap_state_scheme" where
  "coalesce h s =
     (let n = NEXT_BLOCK (mem s) h;
          s1 = (if n < g_heap_curr s \<and> \<not> IS_ALLOC (mem s) n
                then
                  let t = fl_remove n s;
                      new_sz = BLK_SIZE (mem t) h + BLK_SIZE (mem t) n
                  in t\<lparr>mem := mirror_footer h (SET_SIZE h new_sz (mem t))\<rparr>
                else s)
      in if h > HEAP_BASE
         then
           let psz = load64 (mem s1) (h - FTR_SIZE) AND NOT ALLOC_FLAG;
               p = h - psz
           in if \<not> IS_ALLOC (mem s1) p
              then
                let t = fl_remove p s1;
                    new_sz = BLK_SIZE (mem t) p + BLK_SIZE (mem t) h
                in (p, t\<lparr>mem := mirror_footer p (SET_SIZE p new_sz (mem t))\<rparr>)
              else (h, s1)
         else (h, s1))"

section \<open>Public interface\<close>

definition kmalloc_init :: "'a heap_state_scheme \<Rightarrow> 'a heap_state_scheme outcome" where
  "kmalloc_init s = heap_map_more (64 * PAGE_SIZE) (s\<lparr>g_heap_curr := HEAP_BASE, g_free_list := 0\<rparr>)"

definition kmalloc :: "u64 \<Rightarrow> 'a heap_state_scheme \<Rightarrow> (u64 \<times> 'a heap_state_scheme) outcome" where
  "kmalloc sz s0 =
     (if sz = 0 then Done (0, s0)
      else
        bind_outcome (spinlock_acquire (g_heap_lock s0)) (\<lambda>l.
        let s = s0\<lparr>g_heap_lock := l\<rparr> in
        bind_outcome (fl_find_fit sz s) (\<lambda>h.
        bind_outcome
          (if h = 0
           then
             let grow0 = total_size_for_payload sz;
                 grow = (if grow0 < 128 * PAGE_SIZE then 128 * PAGE_SIZE else grow0)
             in bind_outcome (heap_map_more grow s) (\<lambda>s1.
                bind_outcome (fl_find_fit sz s1) (\<lambda>h1. Done (h1, s1)))
           else Done (h, s)) (\<lambda>(h, s1).
        if h = 0 then Done (0, s1\<lparr>g_heap_lock := spinlock_release (g_heap_lock s1)\<rparr>)
        else
          case allocate_from_block h sz s1 of (a, s2) \<Rightarrow>
            Done (a + HDR_SIZE, s2\<lparr>g_heap_lock := spinlock_release (g_heap_lock s2)\<rparr>)))))"

definition kfree :: "u64 \<Rightarrow> 'a heap_state_scheme \<Rightarrow> 'a heap_state_scheme outcome" where
  "kfree ptr s0 =
     (if ptr = 0 then Done s0
      else
        bind_outcome (spinlock_acquire (g_heap_lock s0)) (\<lambda>l.
        let s = s0\<lparr>g_heap_lock := l\<rparr>;
            h = ptr - HDR_SIZE
        in if \<not> IS_ALLOC (mem s) h then Panic ''kfree: double free %p''
           else
             let s1 = s\<lparr>mem := mirror_footer h (CLR_ALLOC h (mem s))\<rparr>
             in case coalesce h s1 of (c, s2) \<Rightarrow>
                  let s3 = fl_push c s2
                  in Done (s3\<lparr>g_heap_lock := spinlock_release (g_heap_lock s3)\<rparr>)))"

definition krealloc :: "u64 \<Rightarrow> u64 \<Rightarrow> 'a heap_state_scheme \<Rightarrow> (u64 \<times> 'a heap_state_scheme) outcome" where
  "krealloc ptr newsize s0 =
     (if ptr = 0 then kmalloc newsize s0
      else if newsize = 0 then bind_outcome (kfree ptr s0) (\<lambda>s1. Done (0, s1))
      else
        bind_outcome (spinlock_acquire (g_heap_lock s0)) (\<lambda>l.
        let s = s0\<lparr>g_heap_lock := l\<rparr>;
            h = ptr - HDR_SIZE;
            cur = USABLE (mem s) h
        in if cur \<ge> newsize then Done (ptr, s\<lparr>g_heap_lock := spinlock_release (g_heap_lock s)\<rparr>)
           else
             let n = NEXT_BLOCK (mem s) h
             in if n < g_heap_curr s \<and> \<not> IS_ALLOC (mem s) n \<and> cur + OVERHEAD + USABLE (mem s) n \<ge> newsize
                then
                  let s1 = fl_remove n s;
                      new_sz = BLK_SIZE (mem s1) h + BLK_SIZE (mem s1) n;
                      m1 = SET_ALLOC h (SET_SIZE h new_sz (mem s1));
                      s2 = s1\<lparr>mem := mirror_footer h m1\<rparr>
                  in Done (ptr, s2\<lparr>g_heap_lock := spinlock_release (g_heap_lock s2)\<rparr>)
                else
                  let s1 = s\<lparr>g_heap_lock := spinlock_release (g_heap_lock s)\<rparr> in
                  bind_outcome (kmalloc newsize s1) (\<lambda>(np, s2).
                  if np = 0 then Done (0, s2)
                  else
                    let s3 = s2\<lparr>mem := memcpy (mem s2) np ptr cur\<rparr> in
                    bind_outcome (kfree ptr s3) (\<lambda>s4. Done (np, s4)))))"

definition kmalloc_usable_size :: "u64 \<Rightarrow> 'a heap_state_scheme \<Rightarrow> u64" where
  "kmalloc_usable_size ptr s = (if ptr = 0 then 0 else USABLE (mem s) (ptr - HDR_SIZE))"

end
