(* ===== verification/Heap_Blocks.thy ===== *)
theory Heap_Blocks
  imports Kmalloc
begin

text \<open>
  The structure of the kernel heap: the window as an array of 64-bit cells (an instance of
  \<open>word_store\<close>), the blocks that tile it, the doubly linked free list, and which cells an
  operation may change.
\<close>

section \<open>Cells\<close>

abbreviation HEAP_CELLS :: nat where "HEAP_CELLS \<equiv> 0x2000000"

definition haddr :: "nat \<Rightarrow> u64" where "haddr i = HEAP_BASE + of_nat (8 * i)"

definition hcell :: "memory \<Rightarrow> nat \<Rightarrow> u64" where "hcell m i = load64 m (haddr i)"

lemma unat_haddr: "i \<le> HEAP_CELLS \<Longrightarrow> unat (haddr i) = 0xFFFF900000000000 + 8 * i"
  by (simp add: haddr_def HEAP_BASE_def unat_word_ariths unat_of_nat)

lemma haddr_less: "i \<le> HEAP_CELLS \<Longrightarrow> j \<le> HEAP_CELLS \<Longrightarrow> haddr i < haddr j \<longleftrightarrow> i < j"
  by (simp add: word_less_nat_alt unat_haddr)

lemma haddr_inj: "i \<le> HEAP_CELLS \<Longrightarrow> j \<le> HEAP_CELLS \<Longrightarrow> haddr i = haddr j \<longleftrightarrow> i = j"
  by (simp add: word_unat_eq_iff unat_haddr)

lemma haddr_nonzero: "i \<le> HEAP_CELLS \<Longrightarrow> haddr i \<noteq> 0"
  by (simp add: unat_haddr flip: unat_eq_zero)

lemma haddr_plus: "haddr i + of_nat (8 * n) = haddr (i + n)"
  by (simp add: haddr_def algebra_simps)

lemma haddr_offset: "haddr i + 8 = haddr (i + 1)" "haddr i + 16 = haddr (i + 2)" "haddr i + 32 = haddr (i + 4)"
  using haddr_plus [of i 1] haddr_plus [of i 2] haddr_plus [of i 4] by simp_all

lemma haddr_minus: "n \<le> i \<Longrightarrow> haddr i - of_nat (8 * n) = haddr (i - n)"
  using haddr_plus [of "i - n" n] by (metis add_diff_cancel_right' le_add_diff_inverse2)

lemma haddr_0: "haddr 0 = HEAP_BASE"
  by (simp add: haddr_def)

lemma aligned8_haddr: "aligned8 (haddr i)"
  unfolding haddr_def by (rule aligned8_add) (use aligned8_mult8 [of "of_nat i"] in \<open>simp_all add: aligned8_def HEAP_BASE_def\<close>)

interpretation heapmem: word_store hcell "\<lambda>m i. store64 m (haddr i)" "{..<HEAP_CELLS}"
proof unfold_locales
  fix a b :: nat and m v
  assume "a \<in> {..<HEAP_CELLS}" and "b \<in> {..<HEAP_CELLS}"
  then show "hcell (store64 m (haddr a) v) b = (if a = b then v else hcell m b)"
    using haddr_inj [of a b] load64_store64_other [OF aligned8_haddr aligned8_haddr, of a b]
    by (auto simp: hcell_def)
qed

text \<open>Only bytes of the cells \<open>C\<close> differ.\<close>

definition modifies :: "nat set \<Rightarrow> memory \<Rightarrow> memory \<Rightarrow> bool" where
  "modifies C m m' \<longleftrightarrow> (\<forall>a. (\<forall>c \<in> C. \<not> a - haddr c < 8) \<longrightarrow> m' a = m a)"

lemma modifies_refl [simp]: "modifies C m m"
  by (simp add: modifies_def)

lemma modifies_trans: "modifies C m m' \<Longrightarrow> modifies D m' m'' \<Longrightarrow> C \<subseteq> E \<Longrightarrow> D \<subseteq> E \<Longrightarrow> modifies E m m''"
  unfolding modifies_def by (metis subset_eq)

lemma modifies_mono: "modifies C m m' \<Longrightarrow> C \<subseteq> D \<Longrightarrow> modifies D m m'"
  by (auto simp: modifies_def)

lemma modifies_store: "i \<in> C \<Longrightarrow> modifies C m (store64 m (haddr i) v)"
  unfolding modifies_def by (auto intro!: store64_other)

lemma modifies_cell:
  assumes "modifies C m m'" and "C \<subseteq> {..<HEAP_CELLS}" and "j < HEAP_CELLS" and "j \<notin> C"
  shows "hcell m' j = hcell m j"
  unfolding hcell_def
proof (rule load64_cong)
  fix i :: u64 assume "i < 8"
  have "\<not> (haddr j + i) - haddr c < 8" if "c \<in> C" for c
  proof -
    have "c < HEAP_CELLS" "c \<noteq> j" using that assms by auto
    then have "haddr c \<noteq> haddr j" using haddr_inj [of c j] assms(3) by simp
    from aligned8_separate [OF aligned8_haddr aligned8_haddr this \<open>i < 8\<close>] show ?thesis .
  qed
  then show "m' (haddr j + i) = m (haddr j + i)" using assms(1) by (simp add: modifies_def)
qed

section \<open>Blocks\<close>

text \<open>A block is its first cell, its length in cells and whether it is allocated.\<close>

type_synonym block = "nat \<times> nat \<times> bool"

definition tag :: "nat \<Rightarrow> bool \<Rightarrow> u64" where
  "tag n a = of_nat (8 * n) OR (if a then 1 else 0)"

lemma of_nat_8_bits: "\<not> bit (of_nat (8 * n) :: u64) 0"
  by (simp add: bit_0)

lemma tag_simps:
  "tag n a AND ALLOC_FLAG \<noteq> 0 \<longleftrightarrow> a" "tag n a AND NOT ALLOC_FLAG = of_nat (8 * n)"
  "tag n a OR ALLOC_FLAG = tag n True" "tag n a AND ALLOC_FLAG = (if a then 1 else 0)"
  "of_nat (8 * n) = tag n False"
proof -
  have b: "bit (tag n a) k \<longleftrightarrow> (if k = 0 then a else bit (of_nat (8 * n) :: u64) k)" for k a
    using of_nat_8_bits [of n] by (auto simp: tag_def bit_or_iff bit_1_iff)
  have f: "bit ALLOC_FLAG k \<longleftrightarrow> k = 0" for k by (auto simp: ALLOC_FLAG_def bit_1_iff)
  show c: "tag n a AND ALLOC_FLAG = (if a then 1 else 0)"
    by (rule bit_word_eqI) (auto simp: bit_and_iff b f bit_1_iff)
  then show "tag n a AND ALLOC_FLAG \<noteq> 0 \<longleftrightarrow> a" by simp
  show "tag n a AND NOT ALLOC_FLAG = of_nat (8 * n)"
  proof (rule bit_word_eqI)
    fix k assume "k < LENGTH(64)"
    then show "bit (tag n a AND NOT ALLOC_FLAG) k = bit (of_nat (8 * n) :: u64) k"
      using of_nat_8_bits [of n] by (cases "k = 0") (simp_all add: bit_and_iff bit_not_iff b f del: of_nat_mult)
  qed
  show "tag n a OR ALLOC_FLAG = tag n True"
    by (rule bit_word_eqI) (auto simp: bit_or_iff b f)
  show "of_nat (8 * n) = tag n False" by (simp add: tag_def)
qed

primrec chain :: "nat \<Rightarrow> block list \<Rightarrow> nat \<Rightarrow> bool" where
  "chain lo [] hi \<longleftrightarrow> lo = hi"
| "chain lo (b # bs) hi \<longleftrightarrow> (case b of (i, n, a) \<Rightarrow> i = lo \<and> 6 \<le> n \<and> even n \<and> chain (i + n) bs hi)"

lemma chain_append: "chain lo (as @ bs) hi \<longleftrightarrow> (\<exists>mid. chain lo as mid \<and> chain mid bs hi)"
  by (induction as arbitrary: lo) (auto split: prod.split)

lemma chain_le: "chain lo bs hi \<Longrightarrow> lo \<le> hi"
  by (induction bs arbitrary: lo) (fastforce split: prod.splits)+

lemma chain_mem: "chain lo bs hi \<Longrightarrow> (i, n, a) \<in> set bs \<Longrightarrow> lo \<le> i \<and> i + n \<le> hi \<and> 6 \<le> n \<and> even n"
proof (induction bs arbitrary: lo)
  case (Cons b bs)
  obtain j k c where b: "b = (j, k, c)" by (cases b)
  from Cons.prems(1) have j: "j = lo" "6 \<le> k" "even k" "chain (j + k) bs hi" by (auto simp: b)
  show ?case
  proof (cases "(i, n, a) = b")
    case True
    then show ?thesis using j chain_le [OF j(4)] by (simp add: b)
  next
    case False
    then have "(i, n, a) \<in> set bs" using Cons.prems(2) by simp
    from Cons.IH [OF j(4) this] show ?thesis using j by simp
  qed
qed simp

text \<open>Two different blocks have no cell in common.\<close>
lemma chain_disjoint:
  assumes "chain lo bs hi" and "(i, n, a) \<in> set bs" and "(j, k, b) \<in> set bs"
  shows "(i, n, a) = (j, k, b) \<or> i + n \<le> j \<or> j + k \<le> i"
  using assms
proof (induction bs arbitrary: lo)
  case (Cons c bs)
  obtain u v w where c: "c = (u, v, w)" by (cases c)
  from Cons.prems(1) have ch: "u = lo" "chain (u + v) bs hi" by (auto simp: c)
  have "u + v \<le> x" if "(x, y, z) \<in> set bs" for x y z using chain_mem [OF ch(2) that] by simp
  then show ?case using Cons.prems(2,3) Cons.IH [OF ch(2)] by (auto simp: c)
qed simp

lemma chain_start_unique:
  assumes "chain lo bs hi" and "(i, n, a) \<in> set bs" and "(i, k, b) \<in> set bs"
  shows "k = n \<and> b = a"
  using chain_disjoint [OF assms] chain_mem [OF assms(1,2)] chain_mem [OF assms(1,3)] by auto

section \<open>The free list\<close>

primrec dll :: "(nat \<Rightarrow> u64) \<Rightarrow> (nat \<Rightarrow> u64) \<Rightarrow> u64 \<Rightarrow> nat list \<Rightarrow> u64 \<Rightarrow> bool" where
  "dll pr nx p [] h \<longleftrightarrow> h = 0"
| "dll pr nx p (x # xs) h \<longleftrightarrow> h = haddr x \<and> pr x = p \<and> dll pr nx (haddr x) xs (nx x)"

lemma dll_cong:
  "(\<And>x. x \<in> set xs \<Longrightarrow> pr' x = pr x \<and> nx' x = nx x) \<Longrightarrow> dll pr' nx' p xs h = dll pr nx p xs h"
  by (induction xs arbitrary: p h) auto

definition first_ptr :: "nat list \<Rightarrow> u64" where
  "first_ptr xs = (case xs of [] \<Rightarrow> 0 | x # _ \<Rightarrow> haddr x)"

definition last_ptr :: "u64 \<Rightarrow> nat list \<Rightarrow> u64" where
  "last_ptr p xs = (if xs = [] then p else haddr (last xs))"

lemma ptr_simps [simp]: "last_ptr p [] = p" "first_ptr [] = 0" "first_ptr (x # xs) = haddr x"
  by (simp_all add: last_ptr_def first_ptr_def)

lemma dll_first: "dll pr nx p xs h \<Longrightarrow> h = first_ptr xs"
  by (cases xs) (simp_all add: first_ptr_def)


lemma dll_links: "dll pr nx p (ys @ x # zs) h \<Longrightarrow> pr x = last_ptr p ys \<and> nx x = first_ptr zs"
proof (induction ys arbitrary: p h)
  case Nil
  then show ?case using dll_first by (auto simp: last_ptr_def)
next
  case (Cons y ys)
  then have "dll pr nx (haddr y) (ys @ x # zs) (nx y)" by simp
  from Cons.IH [OF this] show ?case by (simp add: last_ptr_def)
qed

lemma dll_push:
  assumes "dll pr nx 0 xs h" and "y \<notin> set xs" and "distinct xs"
  shows "dll (\<lambda>x. if x = y then 0 else if xs \<noteq> [] \<and> x = hd xs then haddr y else pr x)
    (\<lambda>x. if x = y then h else nx x) 0 (y # xs) (haddr y)"
proof (cases xs)
  case (Cons z zs)
  have "dll (\<lambda>x. if x = y then 0 else if xs \<noteq> [] \<and> x = hd xs then haddr y else pr x)
      (\<lambda>x. if x = y then h else nx x) (haddr z) zs (nx z) = dll pr nx (haddr z) zs (nx z)"
    using assms Cons by (intro dll_cong) auto
  with assms Cons show ?thesis by auto
qed (use assms in simp)

lemma dll_remove:
  assumes "dll pr nx p (ys @ x # zs) h" and "distinct (ys @ x # zs)"
  shows "dll (\<lambda>y. if zs \<noteq> [] \<and> y = hd zs then last_ptr p ys else pr y)
    (\<lambda>y. if ys \<noteq> [] \<and> y = last ys then first_ptr zs else nx y) p (ys @ zs) (if ys = [] then first_ptr zs else h)"
  using assms
proof (induction ys arbitrary: p h)
  case Nil
  show ?case
  proof (cases zs)
    case (Cons z zs')
    have "dll (\<lambda>y. if y = z then p else pr y) nx (haddr z) zs' (nx z) = dll pr nx (haddr z) zs' (nx z)"
      using Nil.prems(2) Cons by (intro dll_cong) auto
    with Nil Cons show ?thesis by (simp cong: if_cong)
  qed (simp add: first_ptr_def)
next
  case (Cons y ys)
  let ?pr = "\<lambda>q. \<lambda>w. if zs \<noteq> [] \<and> w = hd zs then last_ptr q ys else pr w"
  let ?nx = "\<lambda>w. if ys \<noteq> [] \<and> w = last ys then first_ptr zs else nx w"
  let ?nx' = "\<lambda>w. if w = last (y # ys) then first_ptr zs else nx w"
  have d: "dll pr nx (haddr y) (ys @ x # zs) (nx y)" "h = haddr y" "pr y = p" using Cons.prems(1) by simp_all
  have dis: "distinct (ys @ x # zs)" "y \<notin> set ys" "y \<notin> set zs" using Cons.prems(2) by simp_all
  have IH: "dll (?pr (haddr y)) ?nx (haddr y) (ys @ zs) (if ys = [] then first_ptr zs else nx y)"
    by (rule Cons.IH [OF d(1) dis(1)])
  have last: "last_ptr p (y # ys) = last_ptr (haddr y) ys" by (simp add: last_ptr_def)
  have "dll (?pr (haddr y)) ?nx' (haddr y) (ys @ zs) (?nx' y) = dll (?pr (haddr y)) ?nx (haddr y) (ys @ zs) (?nx' y)"
    using dis by (intro dll_cong) auto
  moreover have "?nx' y = (if ys = [] then first_ptr zs else nx y)" using dis by auto
  moreover have "zs \<noteq> [] \<Longrightarrow> y \<noteq> hd zs" using dis by auto
  ultimately show ?case unfolding last using IH d by auto
qed

section \<open>The invariant\<close>

text \<open>The mapped part of the window is tiled by blocks with equal tags at both ends, and the free
  list holds exactly the free blocks, except those of \<open>X\<close> (a block between two steps).\<close>

definition heap_inv :: "nat set \<Rightarrow> 'a heap_state_scheme \<Rightarrow> block list \<Rightarrow> nat list \<Rightarrow> bool" where
  "heap_inv X s bs fs \<longleftrightarrow>
     (\<exists>L. chain 0 bs L \<and> L \<le> HEAP_CELLS \<and> 512 dvd L \<and> g_heap_curr s = haddr L) \<and>
     (\<forall>i n a. (i, n, a) \<in> set bs \<longrightarrow> hcell (mem s) i = tag n a \<and> hcell (mem s) (i + n - 1) = tag n a) \<and>
     distinct fs \<and> set fs = {i. \<exists>n. (i, n, False) \<in> set bs} - X \<and>
     dll (\<lambda>x. hcell (mem s) (x + 1)) (\<lambda>x. hcell (mem s) (x + 2)) 0 fs (g_free_list s)"

definition links :: "nat set \<Rightarrow> nat set" where
  "links F = {x + 1 | x. x \<in> F} \<union> {x + 2 | x. x \<in> F}"

definition free_starts :: "block list \<Rightarrow> nat set" where
  "free_starts bs = {i. \<exists>n. (i, n, False) \<in> set bs}"

lemma chain_even: "chain lo bs hi \<Longrightarrow> even lo \<Longrightarrow> (i, n, a) \<in> set bs \<Longrightarrow> even i"
proof (induction bs arbitrary: lo)
  case (Cons b bs)
  obtain j k c where b: "b = (j, k, c)" by (cases b)
  with Cons.prems(1,2) have "even j" "chain (j + k) bs hi" "even (j + k)" by auto
  with Cons.IH [of "j + k"] Cons.prems(3) show ?case by (auto simp: b)
qed simp

lemma heap_invD:
  assumes "heap_inv X s bs fs"
  obtains L where "chain 0 bs L" "L \<le> HEAP_CELLS" "512 dvd L" "g_heap_curr s = haddr L"
  using assms by (auto simp: heap_inv_def)

lemma heap_block:
  assumes "heap_inv X s bs fs" and "(i, n, a) \<in> set bs"
  shows "i + n \<le> HEAP_CELLS" "6 \<le> n" "even n" "even i"
    "hcell (mem s) i = tag n a" "hcell (mem s) (i + n - 1) = tag n a"
proof -
  obtain L where L: "chain 0 bs L" "L \<le> HEAP_CELLS" by (rule heap_invD [OF assms(1)])
  from chain_mem [OF L(1) assms(2)] L(2) show "i + n \<le> HEAP_CELLS" "6 \<le> n" "even n" by simp_all
  show "even i" using chain_even [OF L(1) _ assms(2)] by simp
  show "hcell (mem s) i = tag n a" "hcell (mem s) (i + n - 1) = tag n a"
    using assms by (auto simp: heap_inv_def)
qed

lemma free_block:
  assumes "heap_inv X s bs fs" and "x \<in> set fs"
  obtains n where "(x, n, False) \<in> set bs" "x + n \<le> HEAP_CELLS" "6 \<le> n" "even x" "x + 2 < HEAP_CELLS"
proof -
  from assms obtain n where n: "(x, n, False) \<in> set bs" by (auto simp: heap_inv_def)
  from heap_block [OF assms(1) n] n show thesis by (intro that) simp_all
qed

lemma links_bound:
  assumes "heap_inv X s bs fs" and "F \<subseteq> free_starts bs" shows "links F \<subseteq> {..<HEAP_CELLS}"
proof -
  have "x + 2 < HEAP_CELLS" if x: "x \<in> F" for x
  proof -
    from x assms(2) obtain n where "(x, n, False) \<in> set bs" by (auto simp: free_starts_def)
    from heap_block(1,2) [OF assms(1) this] show ?thesis by simp
  qed
  then show ?thesis by (fastforce simp: links_def)
qed

text \<open>Link cells are never header or footer cells.\<close>
lemma link_not_tag:
  assumes "heap_inv X s bs fs" and "F \<subseteq> free_starts bs" and "(i, n, a) \<in> set bs"
  shows "i \<notin> links F" "i + n - 1 \<notin> links F"
proof -
  obtain L where L: "chain 0 bs L" by (rule heap_invD [OF assms(1)])
  have apart: "x + 1 \<noteq> i \<and> x + 2 \<noteq> i \<and> x + 1 \<noteq> i + n - 1 \<and> x + 2 \<noteq> i + n - 1" if x: "x \<in> F" for x
  proof -
    from x assms(2) obtain m where m: "(x, m, False) \<in> set bs" by (auto simp: free_starts_def)
    have "6 \<le> m" "6 \<le> n" using heap_block [OF assms(1) m] heap_block [OF assms(1,3)] by simp_all
    then show ?thesis using chain_disjoint [OF L m assms(3)] by auto
  qed
  show "i \<notin> links F" "i + n - 1 \<notin> links F"
    unfolding links_def using apart by (blast dest: sym)+
qed

section \<open>Free-list operations\<close>
lemma set_free_cell:
  "set_prev_free (haddr i) v m = store64 m (haddr (i + 1)) v" "set_next_free (haddr i) v m = store64 m (haddr (i + 2)) v"
  "prev_free m (haddr i) = hcell m (i + 1)" "next_free m (haddr i) = hcell m (i + 2)"
  "size_and_flags m (haddr i) = hcell m i"
  by (simp_all add: set_prev_free_def set_next_free_def prev_free_def next_free_def size_and_flags_def hcell_def
      haddr_offset)

lemma hcell_store:
  "i < HEAP_CELLS \<Longrightarrow> j < HEAP_CELLS \<Longrightarrow> hcell (store64 m (haddr i) v) j = (if i = j then v else hcell m j)"
  using heapmem.rd_wr [of i j m v] by simp

lemma odd_even_apart: "even (x::nat) \<Longrightarrow> even y \<Longrightarrow> x + 1 \<noteq> y + 2" "even (x::nat) \<Longrightarrow> even y \<Longrightarrow> y + 2 \<noteq> x + 1"
  by presburger+

lemma fl_remove_run:
  assumes inv: "heap_inv X s bs (ys @ x # zs)"
  obtains m where "fl_remove (haddr x) s = s\<lparr>mem := m, g_free_list := (if ys = [] then first_ptr zs else g_free_list s)\<rparr>"
    "modifies (links (set (ys @ x # zs))) (mem s) m"
    "\<forall>c < HEAP_CELLS. hcell m c = (if c = x + 1 \<or> c = x + 2 then 0
       else if zs \<noteq> [] \<and> c = hd zs + 1 then last_ptr 0 ys
       else if ys \<noteq> [] \<and> c = last ys + 2 then first_ptr zs else hcell (mem s) c)"
proof -
  let ?fs = "ys @ x # zs" and ?m = "mem s"
  have d: "dll (\<lambda>x. hcell ?m (x + 1)) (\<lambda>x. hcell ?m (x + 2)) 0 ?fs (g_free_list s)" "distinct ?fs"
    using inv by (simp_all add: heap_inv_def)
  have pn: "hcell ?m (x + 1) = last_ptr 0 ys" "hcell ?m (x + 2) = first_ptr zs" using dll_links [OF d(1)] by simp_all
  have bnd: "w + 2 < HEAP_CELLS" "even w" if "w \<in> set ?fs" for w using free_block [OF inv that] by metis+
  define m1 where "m1 = (if ys \<noteq> [] then store64 ?m (haddr (last ys + 2)) (first_ptr zs) else ?m)"
  define m2 where "m2 = (if zs \<noteq> [] then store64 m1 (haddr (hd zs + 1)) (last_ptr 0 ys) else m1)"
  define m3 where "m3 = store64 (store64 m2 (haddr (x + 2)) 0) (haddr (x + 1)) 0"
  have ly: "last ys \<in> set ?fs" "x \<noteq> last ys" if "ys \<noteq> []" using that d(2) by auto
  have hz: "hd zs \<in> set ?fs" "x \<noteq> hd zs" if "zs \<noteq> []" using that d(2) by auto
  have x: "x \<in> set ?fs" by simp
  have ny: "haddr (last ys) \<noteq> 0" if "ys \<noteq> []" using bnd(1) [OF ly(1) [OF that]] by (intro haddr_nonzero) simp
  have nz: "haddr (hd zs) \<noteq> 0" if "zs \<noteq> []" using bnd(1) [OF hz(1) [OF that]] by (intro haddr_nonzero) simp
  have lp: "last_ptr 0 ys \<noteq> 0 \<longleftrightarrow> ys \<noteq> []" "ys \<noteq> [] \<Longrightarrow> last_ptr 0 ys = haddr (last ys)"
    using ny by (auto simp: last_ptr_def)
  have fp: "first_ptr zs \<noteq> 0 \<longleftrightarrow> zs \<noteq> []" "zs \<noteq> [] \<Longrightarrow> first_ptr zs = haddr (hd zs)"
    using nz by (cases zs; simp)+
  have m1x: "hcell m1 (x + 1) = last_ptr 0 ys \<and> hcell m1 (x + 2) = first_ptr zs"
  proof (cases "ys = []")
    case False
    note l = bnd [OF ly(1) [OF False]] and bx = bnd [OF x]
    have "last ys + 2 \<noteq> x + 1" "last ys + 2 \<noteq> x + 2" using odd_even_apart(2) [OF bx(2) l(2)] ly(2) [OF False] by simp_all
    then show ?thesis using False pn l(1) bx(1) by (simp add: m1_def hcell_store)
  qed (use pn in \<open>simp add: m1_def\<close>)
  have run: "fl_remove (haddr x) s = s\<lparr>mem := m3, g_free_list := (if ys = [] then first_ptr zs else g_free_list s)\<rparr>"
    using lp fp pn m1x
    by (cases "ys = []"; cases "zs = []")
      (simp_all add: fl_remove_def set_free_cell Let_def m1_def m2_def m3_def)
  have mod: "modifies (links (set ?fs)) ?m m3"
  proof -
    have l: "w + 1 \<in> links (set ?fs)" "w + 2 \<in> links (set ?fs)" if "w \<in> set ?fs" for w
      using that by (auto simp: links_def)
    have "modifies (links (set ?fs)) ?m m1"
      unfolding m1_def by (split if_split) (intro conjI impI modifies_refl modifies_store [OF l(2) [OF ly(1)]])
    moreover have "modifies (links (set ?fs)) m1 m2"
      unfolding m2_def by (split if_split) (intro conjI impI modifies_refl modifies_store [OF l(1) [OF hz(1)]])
    moreover have "modifies (links (set ?fs)) m2 (store64 m2 (haddr (x + 2)) 0)"
      by (rule modifies_store [OF l(2) [OF x]])
    moreover have "modifies (links (set ?fs)) (store64 m2 (haddr (x + 2)) 0) m3"
      unfolding m3_def by (rule modifies_store [OF l(1) [OF x]])
    ultimately show ?thesis by (meson modifies_trans order_refl)
  qed
  have "hcell m3 c = (if c = x + 1 \<or> c = x + 2 then 0
       else if zs \<noteq> [] \<and> c = hd zs + 1 then last_ptr 0 ys
       else if ys \<noteq> [] \<and> c = last ys + 2 then first_ptr zs else hcell ?m c)" if "c < HEAP_CELLS" for c
  proof -
    have b: "x + 2 < HEAP_CELLS" "zs \<noteq> [] \<Longrightarrow> hd zs + 2 < HEAP_CELLS" "ys \<noteq> [] \<Longrightarrow> last ys + 2 < HEAP_CELLS"
      using bnd x hz(1) ly(1) by blast+
    show ?thesis using that b by (auto simp: m3_def m2_def m1_def hcell_store)
  qed
  then show thesis by (intro that [OF run mod] allI impI)
qed

definition heap_only :: "'a heap_state_scheme \<Rightarrow> 'a heap_state_scheme \<Rightarrow> bool" where
  "heap_only s s' \<longleftrightarrow> (\<exists>m f. s' = s\<lparr>mem := m, g_free_list := f\<rparr>)"

lemma heap_only_refl [simp]: "heap_only s s"
  unfolding heap_only_def by (rule exI [of _ "mem s"], rule exI [of _ "g_free_list s"]) simp

lemma heap_only_trans: "heap_only s t \<Longrightarrow> heap_only t u \<Longrightarrow> heap_only s u"
  by (auto simp: heap_only_def) blast

lemma heap_only_upd: "heap_only s (s\<lparr>mem := m, g_free_list := f\<rparr>)" "heap_only s (s\<lparr>mem := m\<rparr>)"
  unfolding heap_only_def by blast (rule exI [of _ m], rule exI [of _ "g_free_list s"], simp)

lemma heap_only_fields:
  assumes "heap_only s s'"
  shows "g_heap_curr s' = g_heap_curr s" "g_heap_lock s' = g_heap_lock s"
  using assms by (auto simp: heap_only_def)

lemma set_fs: "heap_inv X s bs fs \<Longrightarrow> set fs = free_starts bs - X"
  by (simp add: heap_inv_def free_starts_def)

lemma links_mono: "F \<subseteq> G \<Longrightarrow> links F \<subseteq> links G"
  by (auto simp: links_def)

text \<open>A change confined to link cells keeps every tag.\<close>
lemma heap_inv_relink:
  assumes inv: "heap_inv X s bs fs" and m: "modifies (links F) (mem s) m" and F: "F \<subseteq> free_starts bs"
    and fs': "distinct fs'" "set fs' = free_starts bs - X'"
      "dll (\<lambda>x. hcell m (x + 1)) (\<lambda>x. hcell m (x + 2)) 0 fs' f"
  shows "heap_inv X' (s\<lparr>mem := m, g_free_list := f\<rparr>) bs fs'"
proof -
  have "hcell m i = tag n a \<and> hcell m (i + n - 1) = tag n a" if b: "(i, n, a) \<in> set bs" for i n a
  proof -
    note hb = heap_block [OF inv b] and nl = link_not_tag [OF inv F b]
    have "hcell m i = hcell (mem s) i" "hcell m (i + n - 1) = hcell (mem s) (i + n - 1)"
      using hb by (intro modifies_cell [OF m links_bound [OF inv F]] nl; simp)+
    with hb show ?thesis by simp
  qed
  with inv fs' show ?thesis by (simp add: heap_inv_def free_starts_def)
qed

lemma fl_remove_inv:
  assumes inv: "heap_inv X s bs fs" and x: "x \<in> set fs"
  shows "\<exists>fs'. heap_inv (insert x X) (fl_remove (haddr x) s) bs fs'"
    and "modifies (links (free_starts bs)) (mem s) (mem (fl_remove (haddr x) s))"
    and "heap_only s (fl_remove (haddr x) s)"
proof -
  from x obtain ys zs where fs: "fs = ys @ x # zs" by (auto simp: in_set_conv_decomp)
  note inv' = inv [unfolded fs]
  obtain m where run: "fl_remove (haddr x) s = s\<lparr>mem := m, g_free_list := (if ys = [] then first_ptr zs else g_free_list s)\<rparr>"
    and mod: "modifies (links (set (ys @ x # zs))) (mem s) m"
    and cells: "\<forall>c < HEAP_CELLS. hcell m c = (if c = x + 1 \<or> c = x + 2 then 0
       else if zs \<noteq> [] \<and> c = hd zs + 1 then last_ptr 0 ys
       else if ys \<noteq> [] \<and> c = last ys + 2 then first_ptr zs else hcell (mem s) c)"
    by (rule fl_remove_run [OF inv'])
  have sub: "set (ys @ x # zs) \<subseteq> free_starts bs" using set_fs [OF inv'] by blast
  have dis: "distinct (ys @ x # zs)" using inv' by (simp add: heap_inv_def)
  let ?pr = "\<lambda>y. if zs \<noteq> [] \<and> y = hd zs then last_ptr 0 ys else hcell (mem s) (y + 1)"
  let ?nx = "\<lambda>y. if ys \<noteq> [] \<and> y = last ys then first_ptr zs else hcell (mem s) (y + 2)"
  have d: "dll ?pr ?nx 0 (ys @ zs) (if ys = [] then first_ptr zs else g_free_list s)"
    using dll_remove [OF _ dis] inv' by (simp add: heap_inv_def)
  have "dll (\<lambda>x. hcell m (x + 1)) (\<lambda>x. hcell m (x + 2)) 0 (ys @ zs) h = dll ?pr ?nx 0 (ys @ zs) h" for h
  proof (rule dll_cong)
    fix y assume y: "y \<in> set (ys @ zs)"
    then have yx: "y \<noteq> x" "y \<in> set (ys @ x # zs)" using dis by auto
    have e: "even w \<and> w + 2 < HEAP_CELLS" if "w \<in> set (ys @ x # zs)" for w
      using free_block [OF inv' that] by metis
    have p: "even y" "y + 2 < HEAP_CELLS" "even x" "x + 2 < HEAP_CELLS" using e [OF yx(2)] e [of x] by auto
    have l: "even (last ys)" if "ys \<noteq> []" using e that by simp
    have h: "even (hd zs)" if "zs \<noteq> []" using e that by simp
    have "hcell m (y + 1) = ?pr y"
      using cells [rule_format, of "y + 1"] p yx(1) odd_even_apart(1) [OF p(1) p(3)] odd_even_apart(1) [OF p(1) l] by auto
    moreover have "hcell m (y + 2) = ?nx y"
      using cells [rule_format, of "y + 2"] p yx(1) odd_even_apart(2) [OF p(3) p(1)] odd_even_apart(2) [OF h p(1)] by auto
    ultimately show "hcell m (y + 1) = ?pr y \<and> hcell m (y + 2) = ?nx y" by blast
  qed
  with d have d': "dll (\<lambda>x. hcell m (x + 1)) (\<lambda>x. hcell m (x + 2)) 0 (ys @ zs) (if ys = [] then first_ptr zs else g_free_list s)"
    by blast
  have "heap_inv (insert x X) (s\<lparr>mem := m, g_free_list := (if ys = [] then first_ptr zs else g_free_list s)\<rparr>) bs (ys @ zs)"
    by (rule heap_inv_relink [OF inv' mod sub _ _ d']) (use dis set_fs [OF inv'] in auto)
  then show "\<exists>fs'. heap_inv (insert x X) (fl_remove (haddr x) s) bs fs'" unfolding run by blast
  show "modifies (links (free_starts bs)) (mem s) (mem (fl_remove (haddr x) s))"
    using modifies_mono [OF mod links_mono [OF sub]] by (simp add: run)
  show "heap_only s (fl_remove (haddr x) s)" unfolding run by (rule heap_only_upd)
qed

lemma fl_push_inv:
  assumes inv: "heap_inv X s bs fs" and x: "(x, n, False) \<in> set bs" "x \<in> X"
  shows "heap_inv (X - {x}) (fl_push (haddr x) s) bs (x # fs)"
    and "modifies (links (free_starts bs)) (mem s) (mem (fl_push (haddr x) s))"
    and "heap_only s (fl_push (haddr x) s)"
proof -
  have d: "dll (\<lambda>x. hcell (mem s) (x + 1)) (\<lambda>x. hcell (mem s) (x + 2)) 0 fs (g_free_list s)" and dis: "distinct fs"
    using inv by (simp_all add: heap_inv_def)
  have g: "g_free_list s = first_ptr fs" by (rule dll_first [OF d])
  have xf: "x \<in> free_starts bs" using x by (auto simp: free_starts_def)
  have xn: "x \<notin> set fs" using x(2) set_fs [OF inv] by blast
  have sub: "insert x (set fs) \<subseteq> free_starts bs" using xf set_fs [OF inv] by blast
  have e: "even w \<and> w + 2 < HEAP_CELLS" if "w \<in> insert x (set fs)" for w
  proof -
    from that sub obtain k where "(w, k, False) \<in> set bs" by (auto simp: free_starts_def)
    from heap_block [OF inv this] show ?thesis by simp
  qed
  define m1 where "m1 = store64 (store64 (mem s) (haddr (x + 1)) 0) (haddr (x + 2)) (g_free_list s)"
  define m2 where "m2 = (if fs \<noteq> [] then store64 m1 (haddr (hd fs + 1)) (haddr x) else m1)"
  have nz: "g_free_list s \<noteq> 0 \<longleftrightarrow> fs \<noteq> []" "fs \<noteq> [] \<Longrightarrow> g_free_list s = haddr (hd fs)"
  proof -
    show "fs \<noteq> [] \<Longrightarrow> g_free_list s = haddr (hd fs)" using g by (cases fs) simp_all
    moreover have "haddr (hd fs) \<noteq> 0" if "fs \<noteq> []" using e [of "hd fs"] that by (intro haddr_nonzero) simp
    ultimately show "g_free_list s \<noteq> 0 \<longleftrightarrow> fs \<noteq> []" using g by (cases "fs = []") simp_all
  qed
  have run: "fl_push (haddr x) s = s\<lparr>mem := m2, g_free_list := haddr x\<rparr>"
    using nz by (cases "fs = []") (simp_all add: fl_push_def set_free_cell Let_def m1_def m2_def)
  have l: "w + 1 \<in> links (insert x (set fs))" "w + 2 \<in> links (insert x (set fs))" if "w \<in> insert x (set fs)" for w
    using that by (auto simp: links_def)
  have mod: "modifies (links (insert x (set fs))) (mem s) m2"
  proof -
    have "modifies (links (insert x (set fs))) (mem s) m1"
      unfolding m1_def by (rule modifies_trans [OF modifies_store modifies_store order_refl order_refl]) (rule l, simp)+
    moreover have "hd fs \<in> insert x (set fs)" if "fs \<noteq> []" using that by simp
    then have "modifies (links (insert x (set fs))) m1 m2"
      unfolding m2_def by (split if_split) (intro conjI impI modifies_refl modifies_store [OF l(1)])
    ultimately show ?thesis by (rule modifies_trans) simp_all
  qed
  have cells: "hcell m2 c = (if fs \<noteq> [] \<and> c = hd fs + 1 then haddr x else if c = x + 2 then g_free_list s
      else if c = x + 1 then 0 else hcell (mem s) c)" if "c < HEAP_CELLS" for c
  proof -
    have "x + 2 < HEAP_CELLS" "fs \<noteq> [] \<Longrightarrow> hd fs + 2 < HEAP_CELLS" using e [of x] e [of "hd fs"] by simp_all
    then show ?thesis using that by (auto simp: m2_def m1_def hcell_store)
  qed
  let ?pr = "\<lambda>w. if w = x then 0 else if fs \<noteq> [] \<and> w = hd fs then haddr x else hcell (mem s) (w + 1)"
  let ?nx = "\<lambda>w. if w = x then g_free_list s else hcell (mem s) (w + 2)"
  have "dll (\<lambda>x. hcell m2 (x + 1)) (\<lambda>x. hcell m2 (x + 2)) 0 (x # fs) (haddr x) = dll ?pr ?nx 0 (x # fs) (haddr x)"
  proof (rule dll_cong)
    fix w assume w: "w \<in> set (x # fs)"
    then have p: "even w" "w + 2 < HEAP_CELLS" "even x" using e [of w] e [of x] by auto
    have h: "even (hd fs)" "hd fs \<noteq> x" if "fs \<noteq> []" using e [of "hd fs"] that xn by auto
    have "hcell m2 (w + 1) = ?pr w"
      using cells [of "w + 1"] p odd_even_apart(1) [OF p(1) p(3)] h by auto
    moreover have "hcell m2 (w + 2) = ?nx w"
      using cells [of "w + 2"] p odd_even_apart(2) [OF p(3) p(1)] odd_even_apart(2) [OF h(1) p(1)] by auto
    ultimately show "hcell m2 (w + 1) = ?pr w \<and> hcell m2 (w + 2) = ?nx w" by blast
  qed
  then have d': "dll (\<lambda>x. hcell m2 (x + 1)) (\<lambda>x. hcell m2 (x + 2)) 0 (x # fs) (haddr x)"
    using dll_push [OF d xn dis] by blast
  show "heap_inv (X - {x}) (fl_push (haddr x) s) bs (x # fs)"
    unfolding run
    by (rule heap_inv_relink [OF inv mod sub _ _ d']) (use dis xn xf x(2) set_fs [OF inv] in auto)
  show "modifies (links (free_starts bs)) (mem s) (mem (fl_push (haddr x) s))"
    using modifies_mono [OF mod links_mono [OF sub]] by (simp add: run)
  show "heap_only s (fl_push (haddr x) s)" unfolding run by (rule heap_only_upd)
qed

section \<open>Reading and writing tags\<close>
lemma tag_block:
  assumes "hcell m i = tag n a"
  shows "BLK_SIZE m (haddr i) = of_nat (8 * n)" "IS_ALLOC m (haddr i) = a"
    "NEXT_BLOCK m (haddr i) = haddr (i + n)" "1 \<le> n \<Longrightarrow> FOOTER_OF m (haddr i) = haddr (i + n - 1)"
    "SET_SIZE (haddr i) (of_nat (8 * k)) m = store64 m (haddr i) (tag k a)"
    "SET_ALLOC (haddr i) m = store64 m (haddr i) (tag n True)"
    "CLR_ALLOC (haddr i) m = store64 m (haddr i) (tag n False)"
    "1 \<le> n \<Longrightarrow> mirror_footer (haddr i) m = store64 m (haddr (i + n - 1)) (tag n a)"
proof -
  show blk: "BLK_SIZE m (haddr i) = of_nat (8 * n)"
    by (simp only: BLK_SIZE_def set_free_cell assms tag_simps(2))
  show "IS_ALLOC m (haddr i) = a"
    by (simp only: IS_ALLOC_def set_free_cell assms tag_simps(1))
  show "NEXT_BLOCK m (haddr i) = haddr (i + n)" by (simp only: NEXT_BLOCK_def blk haddr_plus)
  show ftr: "FOOTER_OF m (haddr i) = haddr (i + n - 1)" if "1 \<le> n"
    using haddr_minus [of 1 "i + n"] that unfolding FOOTER_OF_def blk haddr_plus FTR_SIZE_def by simp
  show "SET_SIZE (haddr i) (of_nat (8 * k)) m = store64 m (haddr i) (tag k a)"
    unfolding SET_SIZE_def set_free_cell assms tag_simps(4) by (simp only: tag_def)
  show "SET_ALLOC (haddr i) m = store64 m (haddr i) (tag n True)"
    unfolding SET_ALLOC_def set_free_cell assms tag_simps(3) ..
  show "CLR_ALLOC (haddr i) m = store64 m (haddr i) (tag n False)"
    unfolding CLR_ALLOC_def set_free_cell assms tag_simps(2) tag_simps(5) [of n, symmetric] ..
  show "mirror_footer (haddr i) m = store64 m (haddr (i + n - 1)) (tag n a)" if "1 \<le> n"
    unfolding mirror_footer_def ftr [OF that] set_free_cell assms ..
qed

text \<open>Replacing the blocks \<open>old\<close> of a stretch of cells by the blocks \<open>new\<close>, while none of them is on
  the free list.\<close>
lemma heap_inv_retag:
  assumes inv: "heap_inv X s (as @ old @ cs) fs" and as: "chain 0 as lo" and old: "chain lo old hi"
    and new: "chain lo new hi" and m: "modifies C (mem s) m" and C: "C \<subseteq> {lo ..< hi}"
    and out: "set fs \<inter> {lo ..< hi} = {}" and starts: "set fs = free_starts (as @ new @ cs) - X'"
    and tags: "\<And>i n a. (i, n, a) \<in> set new \<Longrightarrow> hcell m i = tag n a \<and> hcell m (i + n - 1) = tag n a"
  shows "heap_inv X' (s\<lparr>mem := m\<rparr>) (as @ new @ cs) fs"
proof -
  obtain L where L: "chain 0 (as @ old @ cs) L" "L \<le> HEAP_CELLS" "512 dvd L" "g_heap_curr s = haddr L"
    by (rule heap_invD [OF inv])
  have cs: "chain hi cs L"
  proof -
    have uniq: "chain a ys b \<Longrightarrow> chain a ys c \<Longrightarrow> b = c" for a ys b c
      by (induction ys arbitrary: a) (auto split: prod.splits)
    from L(1) obtain u v where "chain 0 as u" "chain u old v" "chain v cs L" by (auto simp: chain_append)
    with uniq as old show ?thesis by metis
  qed
  have hi: "hi \<le> HEAP_CELLS" using chain_le [OF cs] L(2) by simp
  then have Cb: "C \<subseteq> {..<HEAP_CELLS}" using C by auto
  have outer: "i + n \<le> lo \<or> hi \<le> i" "i + n \<le> HEAP_CELLS" "6 \<le> n" if "(i, n, a) \<in> set as \<union> set cs" for i n a
    using that chain_mem [OF as] chain_mem [OF cs] chain_le [OF old] hi L(2) by force+
  have same: "hcell m j = hcell (mem s) j" if "j < HEAP_CELLS" "j < lo \<or> hi \<le> j" for j
    using that C by (intro modifies_cell [OF m Cb]) auto
  have "hcell m i = tag n a \<and> hcell m (i + n - 1) = tag n a" if b: "(i, n, a) \<in> set (as @ new @ cs)" for i n a
  proof (cases "(i, n, a) \<in> set new")
    case False
    with b have b': "(i, n, a) \<in> set as \<union> set cs" by auto
    note o = outer [OF this]
    have "hcell m i = hcell (mem s) i" "hcell m (i + n - 1) = hcell (mem s) (i + n - 1)"
      using o by (intro same; auto)+
    moreover have "(i, n, a) \<in> set (as @ old @ cs)" using b' by auto
    ultimately show ?thesis using heap_block(5,6) [OF inv] by simp
  qed (rule tags)
  moreover have "dll (\<lambda>x. hcell m (x + 1)) (\<lambda>x. hcell m (x + 2)) 0 fs (g_free_list s) =
      dll (\<lambda>x. hcell (mem s) (x + 1)) (\<lambda>x. hcell (mem s) (x + 2)) 0 fs (g_free_list s)"
  proof (rule dll_cong)
    fix x assume x: "x \<in> set fs"
    then obtain n where n: "(x, n, False) \<in> set (as @ old @ cs)" "x + 2 < HEAP_CELLS" using free_block [OF inv] by metis
    have "x \<notin> {lo ..< hi}" using x out by blast
    moreover have "(x, n, False) \<in> set old \<Longrightarrow> x \<in> {lo ..< hi}" using chain_mem [OF old] by fastforce
    ultimately have "(x, n, False) \<in> set as \<union> set cs" using n(1) by auto
    note o = outer [OF this]
    show "hcell m (x + 1) = hcell (mem s) (x + 1) \<and> hcell m (x + 2) = hcell (mem s) (x + 2)"
      using o n(2) by (intro conjI same) auto
  qed
  moreover have "chain 0 (as @ new @ cs) L" using as new cs by (auto simp: chain_append)
  ultimately show ?thesis
    using inv L(2-4) starts by (auto simp: heap_inv_def free_starts_def)
qed

lemma free_starts_append: "free_starts (as @ bs) = free_starts as \<union> free_starts bs"
  by (auto simp: free_starts_def)

lemma free_starts_Cons: "free_starts ((i, n, a) # bs) = (if a then free_starts bs else insert i (free_starts bs))"
  by (auto simp: free_starts_def)

lemma free_starts_Nil [simp]: "free_starts [] = {}"
  by (simp add: free_starts_def)

lemma free_starts_chain: "chain lo bs hi \<Longrightarrow> x \<in> free_starts bs \<Longrightarrow> lo \<le> x \<and> x < hi"
  using chain_mem by (fastforce simp: free_starts_def)

definition free_cells :: "block list \<Rightarrow> nat set" where
  "free_cells bs = {c. \<exists>i n. (i, n, False) \<in> set bs \<and> i \<le> c \<and> c < i + n}"

lemma free_cells_append: "free_cells (as @ bs) = free_cells as \<union> free_cells bs"
  unfolding free_cells_def by auto

lemma free_cells_Cons: "free_cells ((i, n, a) # bs) = (if a then {} else {i ..< i + n}) \<union> free_cells bs"
  by (rule set_eqI) (cases a; simp add: free_cells_def; blast)

lemma free_cells_Nil [simp]: "free_cells [] = {}"
  by (simp add: free_cells_def)

lemma free_cellsI: "(i, n, False) \<in> set bs \<Longrightarrow> i \<le> c \<Longrightarrow> c < i + n \<Longrightarrow> c \<in> free_cells bs"
  by (auto simp: free_cells_def)

lemma links_free_cells: "heap_inv X s bs fs \<Longrightarrow> links (free_starts bs) \<subseteq> free_cells bs"
  by (auto simp: links_def free_starts_def dest: heap_block(2) intro!: free_cellsI)

text \<open>The decomposition of the block list at a given block.\<close>
lemma heap_split:
  assumes inv: "heap_inv X s bs fs" and b: "(i, n, a) \<in> set bs"
  obtains as cs L where "bs = as @ [(i, n, a)] @ cs" "chain 0 as i" "chain (i + n) cs L" "L \<le> HEAP_CELLS"
    "g_heap_curr s = haddr L"
proof -
  obtain L where L: "chain 0 bs L" "L \<le> HEAP_CELLS" "g_heap_curr s = haddr L" by (rule heap_invD [OF inv])
  from b obtain as cs where bs: "bs = as @ (i, n, a) # cs" by (auto simp: in_set_conv_decomp)
  with L(1) have "chain 0 as i" "chain (i + n) cs L" by (auto simp: chain_append)
  with that bs L show thesis by simp
qed

lemma chain_single: "6 \<le> n \<Longrightarrow> even n \<Longrightarrow> chain i [(i, n, a)] (i + n)"
  by simp

lemma starts_outside:
  assumes inv: "heap_inv X s (as @ old @ cs) fs" and as: "chain 0 as lo" and old: "chain lo old hi"
    and cs: "chain hi cs L" and X: "free_starts old \<subseteq> X"
  shows "set fs \<inter> {lo ..< hi} = {}"
proof -
  have "x \<notin> {lo ..< hi}" if "x \<in> set fs" for x
    using that set_fs [OF inv] X free_starts_chain [OF as, of x] free_starts_chain [OF cs, of x]
    by (auto simp: free_starts_append)
  then show ?thesis by blast
qed

end
