(* ===== verification/Kmalloc_Correct.thy ===== *)
theory Kmalloc_Correct
  imports Heap_Blocks Paging_Correct
begin

text \<open>
  Correctness of the kernel heap: splitting, merging, the search of the free list, growth of
  the mapped window, and from them \<open>kmalloc\<close>, \<open>kfree\<close> and \<open>krealloc\<close>. What each operation may
  write is stated by cells: an allocation writes only into free blocks, freeing only into free
  blocks and the block given back.
\<close>

section \<open>Splitting a block\<close>
lemma of_nat_8_le: "i < 2 ^ 61 \<Longrightarrow> j < 2 ^ 61 \<Longrightarrow> (of_nat (8 * i) :: u64) \<le> of_nat (8 * j) \<longleftrightarrow> i \<le> j"
  unfolding word_le_nat_alt unsigned_of_nat take_bit_eq_mod by simp

lemma of_nat_8_add: "(of_nat (8 * i) :: u64) + of_nat (8 * j) = of_nat (8 * (i + j))"
  by (simp add: algebra_simps)

lemma of_nat_8_diff: "j \<le> i \<Longrightarrow> (of_nat (8 * i) :: u64) - of_nat (8 * j) = of_nat (8 * (i - j))"
  by (simp add: of_nat_diff algebra_simps)

lemma min_split: "total_size_for_payload MIN_SPLIT_SIZE = of_nat (8 * 10)"
  by (simp add: total_size_for_payload_def MIN_SPLIT_SIZE_def ALIGNMENT_def OVERHEAD_def HDR_SIZE_def FTR_SIZE_def
      ALIGN_UP_def)

lemma store_tags:
  assumes "c < HEAP_CELLS" "hcell m i = tag n a" "i < HEAP_CELLS"
  shows "hcell (store64 m (haddr c) v) i = (if c = i then v else tag n a)"
  using assms by (simp add: hcell_store)

definition carve :: "nat \<Rightarrow> nat \<Rightarrow> nat \<Rightarrow> block list" where
  "carve i n k = (if k + 10 \<le> n then [(i, k, True), (i + k, n - k, False)] else [(i, n, True)])"

lemma allocate_split:
  assumes b: "i + n \<le> HEAP_CELLS" "6 \<le> k" "k + 10 \<le> n" and h: "hcell (mem s1) i = tag n False"
    and s1: "s1 = fl_remove (haddr i) s" "hcell (mem s) i = tag n False"
    and need: "total_size_for_payload need = of_nat (8 * k)"
  obtains m where "allocate_from_block (haddr i) need s = (haddr i, fl_push (haddr (i + k)) (s1\<lparr>mem := m\<rparr>))"
    "modifies {i ..< i + n} (mem s1) m" "hcell m i = tag k True" "hcell m (i + k - 1) = tag k True"
    "hcell m (i + k) = tag (n - k) False" "hcell m (i + n - 1) = tag (n - k) False"
proof -
  define m1 where "m1 = store64 (mem s1) (haddr i) (tag k False)"
  define m2 where "m2 = store64 m1 (haddr i) (tag k True)"
  define m3 where "m3 = store64 m2 (haddr (i + k - 1)) (tag k True)"
  define m4 where "m4 = store64 m3 (haddr (i + k)) (tag (n - k) False)"
  define m5 where "m5 = store64 (store64 m4 (haddr (i + k + 2)) 0) (haddr (i + k + 1)) 0"
  define m6 where "m6 = store64 m5 (haddr (i + n - 1)) (tag (n - k) False)"
  have idx: "i < HEAP_CELLS" "i + k - 1 < HEAP_CELLS" "i + k < HEAP_CELLS" "i + k + 2 < HEAP_CELLS"
    "i + k + 1 < HEAP_CELLS" "i + n - 1 < HEAP_CELLS" using b by simp_all
  have ne: "i \<noteq> i + k - 1" "i + k - 1 \<noteq> i + k" "i \<noteq> i + k" "i + n - 1 \<noteq> i" "i + n - 1 \<noteq> i + k - 1"
    "i + n - 1 \<noteq> i + k" "i + k + 2 \<noteq> i" "i + k + 1 \<noteq> i" "i + k + 2 \<noteq> i + k - 1" "i + k + 1 \<noteq> i + k - 1"
    "i + k + 2 \<noteq> i + k" "i + k + 1 \<noteq> i + k"
    using b by auto
  have c1: "SET_SIZE (haddr i) (of_nat (8 * k)) (mem s1) = m1" unfolding m1_def by (rule tag_block(5) [OF h])
  have h1: "hcell m1 i = tag k False" using idx by (simp add: m1_def hcell_store)
  have c2: "SET_ALLOC (haddr i) m1 = m2" unfolding m2_def by (rule tag_block(6) [OF h1])
  have h2: "hcell m2 i = tag k True" using idx by (simp add: m2_def hcell_store)
  have c3: "mirror_footer (haddr i) m2 = m3" unfolding m3_def using b(2) by (intro tag_block(8) [OF h2]) simp
  have c4: "set_prev_free (haddr (i + k)) 0 (set_next_free (haddr (i + k)) 0 (store64 m3 (haddr (i + k)) (tag (n - k) False))) = m5"
    unfolding set_free_cell m5_def m4_def ..
  have h5: "hcell m5 (i + k) = tag (n - k) False" using idx by (simp add: m5_def m4_def hcell_store)
  have f5: "FOOTER_OF m5 (haddr (i + k)) = haddr (i + n - 1)" using tag_block(4) [OF h5] b by simp
  have big: "of_nat (8 * k) + of_nat (8 * 10) \<le> (of_nat (8 * n) :: u64)"
    unfolding of_nat_8_add using b by (subst of_nat_8_le) simp_all
  have kn: "k \<le> n" using b by simp
  show thesis
  proof (rule that [of m6])
    show "allocate_from_block (haddr i) need s = (haddr i, fl_push (haddr (i + k)) (s1\<lparr>mem := m6\<rparr>))"
      unfolding allocate_from_block_def Let_def need min_split tag_block(1) [OF s1(2)] s1(1) [symmetric]
        if_P [OF big] c1 c2 c3 of_nat_8_diff [OF kn] haddr_plus tag_simps(5) [of "n - k"] c4 f5 m6_def ..
    have "modifies {i ..< i + n} (mem s1) m1" "modifies {i ..< i + n} m1 m2" "modifies {i ..< i + n} m2 m3"
      "modifies {i ..< i + n} m3 m4" "modifies {i ..< i + n} m4 (store64 m4 (haddr (i + k + 2)) 0)"
      "modifies {i ..< i + n} (store64 m4 (haddr (i + k + 2)) 0) m5" "modifies {i ..< i + n} m5 m6"
      unfolding m1_def m2_def m3_def m4_def m5_def m6_def by (rule modifies_store, use b in force)+
    then show "modifies {i ..< i + n} (mem s1) m6" by (meson modifies_trans order_refl)
    show "hcell m6 i = tag k True" "hcell m6 (i + k - 1) = tag k True" "hcell m6 (i + k) = tag (n - k) False"
      "hcell m6 (i + n - 1) = tag (n - k) False"
      unfolding m6_def m5_def m4_def m3_def m2_def
      using idx ne ne [symmetric] by (simp_all only: hcell_store if_True if_False simp_thms)
  qed
qed

lemma allocate_whole:
  assumes b: "i + n \<le> HEAP_CELLS" "6 \<le> n" "k \<le> n" "\<not> k + 10 \<le> n" and h: "hcell (mem s1) i = tag n False"
    and s1: "s1 = fl_remove (haddr i) s" "hcell (mem s) i = tag n False"
    and need: "total_size_for_payload need = of_nat (8 * k)"
  obtains m where "allocate_from_block (haddr i) need s = (haddr i, s1\<lparr>mem := m\<rparr>)"
    "modifies {i ..< i + n} (mem s1) m" "hcell m i = tag n True" "hcell m (i + n - 1) = tag n True"
proof -
  define m1 where "m1 = store64 (mem s1) (haddr i) (tag n True)"
  define m2 where "m2 = store64 m1 (haddr (i + n - 1)) (tag n True)"
  have h1: "hcell m1 i = tag n True" using b by (simp add: m1_def hcell_store)
  have c1: "SET_ALLOC (haddr i) (mem s1) = m1" unfolding m1_def by (rule tag_block(6) [OF h])
  have c2: "mirror_footer (haddr i) m1 = m2" unfolding m2_def using b(2) by (intro tag_block(8) [OF h1]) simp
  have small: "\<not> of_nat (8 * k) + of_nat (8 * 10) \<le> (of_nat (8 * n) :: u64)"
    unfolding of_nat_8_add using b by (subst of_nat_8_le) simp_all
  show thesis
  proof (rule that [of m2])
    show "allocate_from_block (haddr i) need s = (haddr i, s1\<lparr>mem := m2\<rparr>)"
      unfolding allocate_from_block_def Let_def need min_split tag_block(1) [OF s1(2)] s1(1) [symmetric]
        if_not_P [OF small] c1 c2 ..
    have "modifies {i ..< i + n} (mem s1) m1" "modifies {i ..< i + n} m1 m2"
      unfolding m1_def m2_def by (rule modifies_store, use b in force)+
    then show "modifies {i ..< i + n} (mem s1) m2" by (meson modifies_trans order_refl)
    show "hcell m2 i = tag n True" "hcell m2 (i + n - 1) = tag n True"
      using b h1 by (auto simp: m2_def hcell_store)
  qed
qed

lemma allocate_from_block_inv:
  assumes inv: "heap_inv {} s bs fs" and b: "(i, n, False) \<in> set bs"
    and need: "total_size_for_payload need = of_nat (8 * k)" "6 \<le> k" "even k" "k \<le> n"
  obtains as cs s' where "allocate_from_block (haddr i) need s = (haddr i, s')"
    "bs = as @ [(i, n, False)] @ cs" "\<exists>fs'. heap_inv {} s' (as @ carve i n k @ cs) fs'"
    "modifies (free_cells bs) (mem s) (mem s')" "heap_only s s'"
proof -
  obtain as cs L where bs: "bs = as @ [(i, n, False)] @ cs" and as: "chain 0 as i" and cs: "chain (i + n) cs L"
    and L: "L \<le> HEAP_CELLS" by (rule heap_split [OF inv b])
  note hb = heap_block [OF inv b]
  define s1 where "s1 = fl_remove (haddr i) s"
  have i: "i \<in> set fs" using set_fs [OF inv] b by (auto simp: free_starts_def)
  obtain fs1 where inv1: "heap_inv {i} s1 bs fs1" using fl_remove_inv(1) [OF inv i] by (auto simp: s1_def)
  have mod1: "modifies (free_cells bs) (mem s) (mem s1)"
    using fl_remove_inv(2) [OF inv i] links_free_cells [OF inv] by (auto simp: s1_def intro: modifies_mono)
  have ho1: "heap_only s s1" using fl_remove_inv(3) [OF inv i] by (simp add: s1_def)
  have own: "{i ..< i + n} \<subseteq> free_cells bs" using b by (auto intro: free_cellsI)
  have old: "chain i [(i, n, False)] (i + n)" using hb by simp
  have out: "set fs1 \<inter> {i ..< i + n} = {}"
    by (rule starts_outside [OF inv1 [unfolded bs] as old cs]) (simp add: free_starts_Cons)
  have notin: "i \<notin> free_starts as" "i \<notin> free_starts cs" "i + k \<notin> free_starts as"
    using free_starts_chain [OF as] free_starts_chain [OF cs] hb by force+
  have fs1: "set fs1 = free_starts as \<union> free_starts cs"
    using set_fs [OF inv1] notin by (auto simp: bs free_starts_append free_starts_Cons)
  note s1i = heap_block(5) [OF inv1 b]
  show thesis
  proof (cases "k + 10 \<le> n")
    case True
    obtain m where run: "allocate_from_block (haddr i) need s = (haddr i, fl_push (haddr (i + k)) (s1\<lparr>mem := m\<rparr>))"
      and m: "modifies {i ..< i + n} (mem s1) m" "hcell m i = tag k True" "hcell m (i + k - 1) = tag k True"
        "hcell m (i + k) = tag (n - k) False" "hcell m (i + n - 1) = tag (n - k) False"
      by (rule allocate_split [OF hb(1) need(2) True s1i s1_def hb(5) need(1)])
    have ik: "i + k \<notin> free_starts cs" using free_starts_chain [OF cs, of "i + k"] True by auto
    let ?bs = "as @ [(i, k, True), (i + k, n - k, False)] @ cs"
    have inv2: "heap_inv {i + k} (s1\<lparr>mem := m\<rparr>) ?bs fs1"
    proof (rule heap_inv_retag [OF inv1 [unfolded bs] as old _ m(1) order_refl out])
      show "chain i [(i, k, True), (i + k, n - k, False)] (i + n)" using need True hb by simp
      show "set fs1 = free_starts ?bs - {i + k}"
        using fs1 notin ik by (auto simp: free_starts_append free_starts_Cons)
    qed (use m True in auto)
    have "(i + k, n - k, False) \<in> set ?bs" by simp
    note push = fl_push_inv [OF inv2 this]
    let ?s = "fl_push (haddr (i + k)) (s1\<lparr>mem := m\<rparr>)"
    have "links (free_starts ?bs) \<subseteq> free_cells ?bs" by (rule links_free_cells [OF inv2])
    also have "\<dots> \<subseteq> free_cells bs" using True by (auto simp: free_cells_append free_cells_Cons bs)
    finally have "modifies (free_cells bs) m (mem ?s)" using push(2) by (auto intro: modifies_mono)
    moreover have "modifies (free_cells bs) (mem s1) m" using m(1) own by (rule modifies_mono)
    ultimately have "modifies (free_cells bs) (mem s) (mem ?s)" using mod1 by (meson modifies_trans order_refl)
    moreover have "heap_only s ?s" using heap_only_trans [OF ho1 heap_only_trans [OF heap_only_upd(2) push(3)]] by simp
    ultimately show thesis using that [OF run bs] push(1) True by (auto simp: carve_def)
  next
    case False
    obtain m where run: "allocate_from_block (haddr i) need s = (haddr i, s1\<lparr>mem := m\<rparr>)"
      and m: "modifies {i ..< i + n} (mem s1) m" "hcell m i = tag n True" "hcell m (i + n - 1) = tag n True"
      by (rule allocate_whole [OF hb(1,2) need(4) False s1i s1_def hb(5) need(1)])
    have "heap_inv {} (s1\<lparr>mem := m\<rparr>) (as @ [(i, n, True)] @ cs) fs1"
      by (rule heap_inv_retag [OF inv1 [unfolded bs] as old _ m(1) order_refl out])
        (use hb fs1 m in \<open>auto simp: free_starts_append free_starts_Cons\<close>)
    moreover have "modifies (free_cells bs) (mem s) m"
      using mod1 modifies_mono [OF m(1) own] by (rule modifies_trans) simp_all
    ultimately show thesis
      using that [OF run bs] False heap_only_trans [OF ho1 heap_only_upd(2)] by (auto simp: carve_def)
  qed
qed

section \<open>Merging blocks\<close>
lemma merge_mem:
  assumes h: "hcell m i = tag n a" "hcell m (i + n) = tag k b" and b: "i + (n + k) \<le> HEAP_CELLS" "6 \<le> n"
  obtains m' where "mirror_footer (haddr i) (SET_SIZE (haddr i) (BLK_SIZE m (haddr i) + BLK_SIZE m (haddr (i + n))) m) = m'"
    "modifies {i, i + (n + k) - 1} m m'" "hcell m' i = tag (n + k) a" "hcell m' (i + (n + k) - 1) = tag (n + k) a"
proof -
  define m1 where "m1 = store64 m (haddr i) (tag (n + k) a)"
  define m2 where "m2 = store64 m1 (haddr (i + (n + k) - 1)) (tag (n + k) a)"
  have h1: "hcell m1 i = tag (n + k) a" using b by (simp add: m1_def hcell_store)
  have c1: "SET_SIZE (haddr i) (of_nat (8 * (n + k))) m = m1" unfolding m1_def by (rule tag_block(5) [OF h(1)])
  have c2: "mirror_footer (haddr i) m1 = m2" unfolding m2_def using b(2) by (intro tag_block(8) [OF h1]) simp
  show thesis
  proof (rule that [of m2])
    show "mirror_footer (haddr i) (SET_SIZE (haddr i) (BLK_SIZE m (haddr i) + BLK_SIZE m (haddr (i + n))) m) = m2"
      unfolding tag_block(1) [OF h(1)] tag_block(1) [OF h(2)] of_nat_8_add c1 c2 ..
    have "modifies {i, i + (n + k) - 1} m m1" "modifies {i, i + (n + k) - 1} m1 m2"
      unfolding m1_def m2_def by (rule modifies_store, simp)+
    then show "modifies {i, i + (n + k) - 1} m m2" by (meson modifies_trans order_refl)
    show "hcell m2 i = tag (n + k) a" "hcell m2 (i + (n + k) - 1) = tag (n + k) a"
      using b h1 by (simp_all add: m2_def hcell_store)
  qed
qed

lemma merge_inv:
  assumes inv: "heap_inv X s (as @ [(i, n, a), (i + n, k, False)] @ cs) fs" and as: "chain 0 as i"
    and X: "i + n \<in> X" "\<not> a \<Longrightarrow> i \<in> X"
    and m: "modifies {i, i + (n + k) - 1} (mem s) m" "hcell m i = tag (n + k) a" "hcell m (i + (n + k) - 1) = tag (n + k) a"
  shows "heap_inv (X - {i + n}) (s\<lparr>mem := m\<rparr>) (as @ [(i, n + k, a)] @ cs) fs"
proof -
  let ?bs = "as @ [(i, n, a), (i + n, k, False)] @ cs"
  have bl: "(i, n, a) \<in> set ?bs" "(i + n, k, False) \<in> set ?bs" by simp_all
  note b1 = heap_block [OF inv bl(1)] and b2 = heap_block [OF inv bl(2)]
  have old: "chain i [(i, n, a), (i + n, k, False)] (i + (n + k))" using b1 b2 by simp
  obtain L where L: "chain 0 ?bs L" by (rule heap_invD [OF inv])
  then have cs: "chain (i + (n + k)) cs L"
  proof -
    from L obtain u where "chain 0 as u" "chain u ([(i, n, a), (i + n, k, False)] @ cs) L" by (auto simp: chain_append)
    then show ?thesis by (auto simp: add.assoc)
  qed
  have out: "set fs \<inter> {i ..< i + (n + k)} = {}"
    by (rule starts_outside [OF inv as old cs]) (use X in \<open>auto simp: free_starts_Cons\<close>)
  have notin: "i + n \<notin> free_starts as" "i + n \<notin> free_starts cs" "i \<notin> free_starts as" "i \<notin> free_starts cs"
    using free_starts_chain [OF as] free_starts_chain [OF cs] b1 b2 by force+
  have fsx: "set fs = (free_starts as \<union> free_starts cs) - X"
    using set_fs [OF inv] X by (cases a) (simp_all add: free_starts_append free_starts_Cons insert_Diff_if Un_Diff)
  show ?thesis
  proof (rule heap_inv_retag [OF inv as old _ m(1) _ out])
    show "chain i [(i, n + k, a)] (i + (n + k))" using b1 b2 by simp
    show "{i, i + (n + k) - 1} \<subseteq> {i ..< i + (n + k)}" using b1 by auto
    show "set fs = free_starts (as @ [(i, n + k, a)] @ cs) - (X - {i + n})"
    proof (cases a)
      case False
      then have "i \<in> X - {i + n}" using X b1(2) by simp
      then show ?thesis using False fsx notin by (simp add: free_starts_append free_starts_Cons) blast
    qed (use fsx notin in \<open>simp add: free_starts_append free_starts_Cons, blast\<close>)
  qed (use m in auto)
qed

definition allocs :: "block list \<Rightarrow> (nat \<times> nat) set" where
  "allocs bs = {(i, n). (i, n, True) \<in> set bs}"

lemma allocs_simps [simp]:
  "allocs [] = {}" "allocs ((i, n, a) # bs) = (if a then insert (i, n) (allocs bs) else allocs bs)"
  "allocs (as @ bs) = allocs as \<union> allocs bs"
  by (auto simp: allocs_def)

text \<open>A block \<open>c\<close> that is free but not on the free list now covers the stretch of \<open>n\<close> cells from \<open>i\<close>; the
  allocated blocks are the same, only free blocks were written.\<close>

definition free_pending :: "block list \<Rightarrow> nat \<Rightarrow> nat \<Rightarrow> nat \<Rightarrow> 'a heap_state_scheme \<Rightarrow> 'a heap_state_scheme \<Rightarrow> bool" where
  "free_pending bs i n c s s' \<longleftrightarrow> (\<exists>bs' fs' w. heap_inv {c} s' bs' fs' \<and> (c, w, False) \<in> set bs' \<and>
     (i = c \<or> c + 6 \<le> i) \<and> i + n \<le> c + w \<and> allocs bs' = allocs bs \<and> free_cells bs' = free_cells bs) \<and>
     \<not> IS_ALLOC (mem s') (haddr i) \<and> modifies (free_cells bs) (mem s) (mem s') \<and> heap_only s s'"

lemma coalesce_next:
  assumes inv: "heap_inv {i} s bs fs" and b: "(i, n, False) \<in> set bs"
  shows "free_pending bs i n i s
     (if NEXT_BLOCK (mem s) (haddr i) < g_heap_curr s \<and> \<not> IS_ALLOC (mem s) (NEXT_BLOCK (mem s) (haddr i))
      then let t = fl_remove (NEXT_BLOCK (mem s) (haddr i)) s;
               new_sz = BLK_SIZE (mem t) (haddr i) + BLK_SIZE (mem t) (NEXT_BLOCK (mem s) (haddr i))
        in t\<lparr>mem := mirror_footer (haddr i) (SET_SIZE (haddr i) new_sz (mem t))\<rparr>
      else s)"
proof -
  obtain as cs L where bs: "bs = as @ [(i, n, False)] @ cs" and as: "chain 0 as i" and cs: "chain (i + n) cs L"
    and L: "L \<le> HEAP_CELLS" "g_heap_curr s = haddr L" by (rule heap_split [OF inv b])
  note hb = heap_block [OF inv b]
  have nx: "NEXT_BLOCK (mem s) (haddr i) = haddr (i + n)" by (rule tag_block(3) [OF hb(5)])
  show ?thesis
  proof (cases "haddr (i + n) < g_heap_curr s \<and> \<not> IS_ALLOC (mem s) (haddr (i + n))")
    case False
    have "free_pending bs i n i s s" unfolding free_pending_def using inv b tag_block(2) [OF hb(5)] by auto
    then show ?thesis unfolding nx if_not_P [OF False] .
  next
    case True
    then have "i + n < L" using L hb haddr_less [of "i + n" L] by simp
    with cs obtain d cs' where d: "cs = d # cs'" by (cases cs) auto
    obtain k f where de: "d = (i + n, k, f)" using cs d by (cases d) auto
    have bl: "(i + n, k, f) \<in> set bs" by (simp add: bs d de)
    note b2 = heap_block [OF inv bl]
    have f: "f = False" using True tag_block(2) [OF b2(5)] by simp
    have bs2: "bs = as @ [(i, n, False), (i + n, k, False)] @ cs'" by (simp add: bs d de f)
    have mem_fs: "i + n \<in> set fs" using set_fs [OF inv] bl hb(2) f by (auto simp: free_starts_def)
    let ?t = "fl_remove (haddr (i + n)) s"
    obtain fs1 where inv1: "heap_inv {i + n, i} ?t bs fs1" using fl_remove_inv(1) [OF inv mem_fs] by blast
    note h = heap_block(5) [OF inv1 b] heap_block(5) [OF inv1 bl]
    obtain m where run: "mirror_footer (haddr i) (SET_SIZE (haddr i)
        (BLK_SIZE (mem ?t) (haddr i) + BLK_SIZE (mem ?t) (haddr (i + n))) (mem ?t)) = m"
      and m: "modifies {i, i + (n + k) - 1} (mem ?t) m" "hcell m i = tag (n + k) False"
        "hcell m (i + (n + k) - 1) = tag (n + k) False"
      by (rule merge_mem [OF h]) (use b2 hb in simp_all)
    have "heap_inv ({i + n, i} - {i + n}) (?t\<lparr>mem := m\<rparr>) (as @ [(i, n + k, False)] @ cs') fs1"
      by (rule merge_inv [OF inv1 [unfolded bs2] as _ _ m]) simp_all
    moreover have "{i + n, i} - {i + n} = {i}" using hb(2) by auto
    ultimately have inv2: "heap_inv {i} (?t\<lparr>mem := m\<rparr>) (as @ [(i, n + k, False)] @ cs') fs1" by simp
    have fc: "free_cells (as @ [(i, n + k, False)] @ cs') = free_cells bs"
      by (auto simp: bs2 free_cells_append free_cells_Cons)
    have "{i, i + (n + k) - 1} \<subseteq> free_cells bs" using hb(2) b2(2) by (auto simp: bs2 free_cells_append free_cells_Cons)
    then have "modifies (free_cells bs) (mem s) m"
      using fl_remove_inv(2) [OF inv mem_fs] m(1) links_free_cells [OF inv] by (meson modifies_trans)
    moreover have "heap_only s (?t\<lparr>mem := m\<rparr>)"
      by (rule heap_only_trans [OF fl_remove_inv(3) [OF inv mem_fs] heap_only_upd(2)])
    moreover have "allocs (as @ [(i, n + k, False)] @ cs') = allocs bs" by (simp add: bs2)
    moreover have "(i, n + k, False) \<in> set (as @ [(i, n + k, False)] @ cs')" by simp
    ultimately have "free_pending bs i n i s (?t\<lparr>mem := m\<rparr>)"
      unfolding free_pending_def using inv2 fc tag_block(2) [OF m(2)] by (intro conjI exI) (assumption | simp)+
    then show ?thesis unfolding nx if_P [OF True] Let_def run .
  qed
qed

lemma coalesce_prev:
  assumes inv: "heap_inv {i} s bs fs" and b: "(i, n, False) \<in> set bs"
  shows "\<exists>c s'. (if haddr i > HEAP_BASE
      then let psz = load64 (mem s) (haddr i - FTR_SIZE) AND NOT ALLOC_FLAG; p = haddr i - psz
        in if \<not> IS_ALLOC (mem s) p
           then let t = fl_remove p s; new_sz = BLK_SIZE (mem t) p + BLK_SIZE (mem t) (haddr i)
                in (p, t\<lparr>mem := mirror_footer p (SET_SIZE p new_sz (mem t))\<rparr>)
           else (haddr i, s)
      else (haddr i, s)) = (haddr c, s') \<and> free_pending bs i n c s s'"
proof -
  have stay: "free_pending bs i n i s s"
    unfolding free_pending_def using inv b tag_block(2) [OF heap_block(5) [OF inv b]] by auto
  obtain as cs L where bs: "bs = as @ [(i, n, False)] @ cs" and as: "chain 0 as i" by (rule heap_split [OF inv b])
  note hb = heap_block [OF inv b]
  have pos: "haddr i > HEAP_BASE \<longleftrightarrow> 0 < i" using haddr_less [of 0 i] hb(1) by (simp add: haddr_0)
  show ?thesis
  proof (cases "haddr i > HEAP_BASE")
    case False
    then show ?thesis using stay by (intro exI conjI) (simp, assumption)
  next
    case True
    with pos have "as \<noteq> []" using as by auto
    then obtain as' d where d: "as = as' @ [d]" by (cases as rule: rev_cases) auto
    obtain p k f where de: "d = (p, k, f)" by (cases d) auto
    with as d have pk: "chain 0 as' p" "p + k = i" by (auto simp: chain_append)
    have bl: "(p, k, f) \<in> set bs" by (simp add: bs d de)
    note b2 = heap_block [OF inv bl]
    have "haddr i - FTR_SIZE = haddr (i - 1)" using haddr_minus [of 1 i] pk(2) b2(2) by (simp add: FTR_SIZE_def)
    moreover have "hcell (mem s) (i - 1) = tag k f" using b2(6) pk(2) by simp
    ultimately have psz: "load64 (mem s) (haddr i - FTR_SIZE) AND NOT ALLOC_FLAG = of_nat (8 * k)"
      by (simp only: hcell_def [symmetric] tag_simps(2))
    have pp: "haddr i - of_nat (8 * k) = haddr p" using haddr_minus [of k i] pk(2) by force
    show ?thesis
    proof (cases "IS_ALLOC (mem s) (haddr p)")
      case True': True
      show ?thesis
        unfolding psz Let_def pp if_P [OF True] using True' stay by (intro exI conjI) (simp, assumption)
    next
      case False
      then have f: "f = False" using tag_block(2) [OF b2(5)] by simp
      have bs2: "bs = as' @ [(p, k, False), (p + k, n, False)] @ cs" by (simp add: bs d de f pk(2))
      have pne: "p \<noteq> i" using pk(2) b2(2) by simp
      have mem_fs: "p \<in> set fs" using set_fs [OF inv] bl f pne by (auto simp: free_starts_def)
      let ?t = "fl_remove (haddr p) s"
      obtain fs1 where inv1: "heap_inv {p, i} ?t bs fs1" using fl_remove_inv(1) [OF inv mem_fs] by blast
      have h: "hcell (mem ?t) p = tag k False" "hcell (mem ?t) (p + k) = tag n False"
        using heap_block(5) [OF inv1 bl] heap_block(5) [OF inv1 b] f pk(2) by simp_all
      obtain m where run: "mirror_footer (haddr p) (SET_SIZE (haddr p)
          (BLK_SIZE (mem ?t) (haddr p) + BLK_SIZE (mem ?t) (haddr (p + k))) (mem ?t)) = m"
        and m: "modifies {p, p + (k + n) - 1} (mem ?t) m" "hcell m p = tag (k + n) False"
          "hcell m (p + (k + n) - 1) = tag (k + n) False"
        by (rule merge_mem [OF h]) (use b2 hb pk in simp_all)
      have "heap_inv ({p, i} - {p + k}) (?t\<lparr>mem := m\<rparr>) (as' @ [(p, k + n, False)] @ cs) fs1"
        by (rule merge_inv [OF inv1 [unfolded bs2] pk(1) _ _ m]) (use pk(2) in simp_all)
      moreover have "{p, i} - {p + k} = {p}" using pk(2) pne by auto
      ultimately have inv2: "heap_inv {p} (?t\<lparr>mem := m\<rparr>) (as' @ [(p, k + n, False)] @ cs) fs1" by simp
      have fc: "free_cells (as' @ [(p, k + n, False)] @ cs) = free_cells bs"
        by (auto simp: bs2 free_cells_append free_cells_Cons)
      have "{p, p + (k + n) - 1} \<subseteq> free_cells bs" using hb(2) b2(2) by (auto simp: bs2 free_cells_append free_cells_Cons)
      then have "modifies (free_cells bs) (mem s) m"
        using fl_remove_inv(2) [OF inv mem_fs] m(1) links_free_cells [OF inv] by (meson modifies_trans)
      moreover have "heap_only s (?t\<lparr>mem := m\<rparr>)"
        by (rule heap_only_trans [OF fl_remove_inv(3) [OF inv mem_fs] heap_only_upd(2)])
      moreover have "allocs (as' @ [(p, k + n, False)] @ cs) = allocs bs" by (simp add: bs2)
      moreover have "(p, k + n, False) \<in> set (as' @ [(p, k + n, False)] @ cs)" "p + 6 \<le> i" "i + n \<le> p + (k + n)"
        using pk(2) b2(2) by auto
      moreover have "\<not> IS_ALLOC m (haddr i)"
      proof -
        have "hcell m i = hcell (mem ?t) i"
          by (rule modifies_cell [OF m(1)]) (use pk(2) b2 hb in auto)
        then show ?thesis using tag_block(2) [of m i n False] h(2) pk(2) by simp
      qed
      ultimately have "free_pending bs i n p s (?t\<lparr>mem := m\<rparr>)"
        unfolding free_pending_def using inv2 fc by (intro conjI exI) (assumption | simp)+
      then show ?thesis
        unfolding psz Let_def pp if_P [OF True] using False run pk(2) by (intro exI conjI) (simp, assumption)
    qed
  qed
qed

lemma coalesce_run:
  assumes inv: "heap_inv {i} s bs fs" and b: "(i, n, False) \<in> set bs"
  obtains c s' where "coalesce (haddr i) s = (haddr c, s')" "free_pending bs i n c s s'"
proof -
  let ?s1 = "if NEXT_BLOCK (mem s) (haddr i) < g_heap_curr s \<and> \<not> IS_ALLOC (mem s) (NEXT_BLOCK (mem s) (haddr i))
      then let t = fl_remove (NEXT_BLOCK (mem s) (haddr i)) s;
               new_sz = BLK_SIZE (mem t) (haddr i) + BLK_SIZE (mem t) (NEXT_BLOCK (mem s) (haddr i))
        in t\<lparr>mem := mirror_footer (haddr i) (SET_SIZE (haddr i) new_sz (mem t))\<rparr>
      else s"
  define s1 where "s1 = ?s1"
  have "free_pending bs i n i s s1" unfolding s1_def by (rule coalesce_next [OF inv b])
  then obtain bs1 fs1 w where 1: "heap_inv {i} s1 bs1 fs1" "(i, w, False) \<in> set bs1" "n \<le> w"
    "allocs bs1 = allocs bs" "free_cells bs1 = free_cells bs" "modifies (free_cells bs) (mem s) (mem s1)" "heap_only s s1"
    by (auto simp: free_pending_def)
  from coalesce_prev [OF 1(1,2)] obtain c s' where
    run: "(if haddr i > HEAP_BASE
      then let psz = load64 (mem s1) (haddr i - FTR_SIZE) AND NOT ALLOC_FLAG; p = haddr i - psz
        in if \<not> IS_ALLOC (mem s1) p
           then let t = fl_remove p s1; new_sz = BLK_SIZE (mem t) p + BLK_SIZE (mem t) (haddr i)
                in (p, t\<lparr>mem := mirror_footer p (SET_SIZE p new_sz (mem t))\<rparr>)
           else (haddr i, s1)
      else (haddr i, s1)) = (haddr c, s')" and fp: "free_pending bs1 i w c s1 s'" by blast
  from fp obtain bs2 fs2 w2 where 2: "heap_inv {c} s' bs2 fs2" "(c, w2, False) \<in> set bs2" "i = c \<or> c + 6 \<le> i" "i + w \<le> c + w2"
    "allocs bs2 = allocs bs1" "free_cells bs2 = free_cells bs1" "modifies (free_cells bs1) (mem s1) (mem s')" "heap_only s1 s'" "\<not> IS_ALLOC (mem s') (haddr i)"
    unfolding free_pending_def by blast
  have "free_pending bs i n c s s'"
    unfolding free_pending_def
  proof (intro conjI exI)
    show "heap_inv {c} s' bs2 fs2" "(c, w2, False) \<in> set bs2" "i = c \<or> c + 6 \<le> i" "i + n \<le> c + w2" "\<not> IS_ALLOC (mem s') (haddr i)" "allocs bs2 = allocs bs"
      "free_cells bs2 = free_cells bs" using 1 2 by simp_all
    show "modifies (free_cells bs) (mem s) (mem s')" using 1(5,6) 2(7) by (metis modifies_trans order_refl)
    show "heap_only s s'" by (rule heap_only_trans [OF 1(7) 2(8)])
  qed
  moreover have "coalesce (haddr i) s = (haddr c, s')"
    using run unfolding coalesce_def Let_def s1_def .
  ultimately show thesis by (intro that)
qed

section \<open>Freeing\<close>
lemma heap_inv_lock [simp]: "heap_inv X (s\<lparr>g_heap_lock := l\<rparr>) bs fs = heap_inv X s bs fs"
  by (simp add: heap_inv_def)

lemma HDR_SIZE_32: "HDR_SIZE = 32"
  by (simp add: HDR_SIZE_def ALIGNMENT_def ALIGN_UP_def)

lemma payload_ptr: "haddr i + HDR_SIZE = haddr (i + 4)" "haddr (i + 4) - HDR_SIZE = haddr i"
  using haddr_offset(3) [of i] by (simp_all add: HDR_SIZE_32 flip: haddr_offset(3))

lemma interior_not_link:
  assumes inv: "heap_inv X s bs fs" and c: "(c, w, False) \<in> set bs" and j: "j = c \<or> c + 6 \<le> j" "j < c + w"
  shows "j \<notin> links (free_starts bs)"
proof -
  obtain L where L: "chain 0 bs L" by (rule heap_invD [OF inv])
  have "j \<noteq> x + 1 \<and> j \<noteq> x + 2" if x: "(x, k, False) \<in> set bs" for x k
    using chain_disjoint [OF L x c] heap_block(2) [OF inv x] j by auto
  then show ?thesis unfolding links_def free_starts_def by blast
qed

text \<open>The state of the heap after a block of \<open>n\<close> cells at \<open>i\<close> was given back.\<close>

definition freed :: "block list \<Rightarrow> nat \<Rightarrow> nat \<Rightarrow> 'a heap_state_scheme \<Rightarrow> 'a heap_state_scheme \<Rightarrow> bool" where
  "freed bs i n s s' \<longleftrightarrow> (\<exists>bs' fs'. heap_inv {} s' bs' fs' \<and> allocs bs' = allocs bs - {(i, n)} \<and>
     free_cells bs' = free_cells bs \<union> {i ..< i + n}) \<and> \<not> IS_ALLOC (mem s') (haddr i) \<and>
     modifies (free_cells bs \<union> {i ..< i + n}) (mem s) (mem s') \<and>
     (\<exists>m f. s' = s\<lparr>mem := m, g_free_list := f, g_heap_lock := False\<rparr>)"

lemma clear_alloc:
  assumes inv: "heap_inv {} s bs fs" and b: "(i, n, True) \<in> set bs"
  obtains m bs1 where "mirror_footer (haddr i) (CLR_ALLOC (haddr i) (mem s)) = m"
    "heap_inv {i} (s\<lparr>mem := m\<rparr>) bs1 fs" "(i, n, False) \<in> set bs1" "allocs bs1 = allocs bs - {(i, n)}"
    "free_cells bs1 = free_cells bs \<union> {i ..< i + n}" "modifies {i ..< i + n} (mem s) m"
proof -
  obtain as cs L where bs: "bs = as @ [(i, n, True)] @ cs" and as: "chain 0 as i" and cs: "chain (i + n) cs L"
    by (rule heap_split [OF inv b])
  note hb = heap_block [OF inv b]
  define m1 where "m1 = store64 (mem s) (haddr i) (tag n False)"
  define m2 where "m2 = store64 m1 (haddr (i + n - 1)) (tag n False)"
  have h1: "hcell m1 i = tag n False" using hb by (simp add: m1_def hcell_store)
  have c1: "CLR_ALLOC (haddr i) (mem s) = m1" unfolding m1_def by (rule tag_block(7) [OF hb(5)])
  have c2: "mirror_footer (haddr i) m1 = m2" unfolding m2_def using hb(2) by (intro tag_block(8) [OF h1]) simp
  have mod: "modifies {i ..< i + n} (mem s) m2"
  proof -
    have "modifies {i ..< i + n} (mem s) m1" "modifies {i ..< i + n} m1 m2"
      unfolding m1_def m2_def by (rule modifies_store, use hb in force)+
    then show ?thesis by (meson modifies_trans order_refl)
  qed
  have t: "hcell m2 i = tag n False" "hcell m2 (i + n - 1) = tag n False"
    using hb h1 by (auto simp: m2_def hcell_store)
  have old: "chain i [(i, n, True)] (i + n)" using hb by simp
  have out: "set fs \<inter> {i ..< i + n} = {}"
    by (rule starts_outside [OF inv [unfolded bs] as old cs]) (simp add: free_starts_Cons)
  have notin: "i \<notin> free_starts as" "i \<notin> free_starts cs"
    using free_starts_chain [OF as] free_starts_chain [OF cs] hb by force+
  have inv1: "heap_inv {i} (s\<lparr>mem := m2\<rparr>) (as @ [(i, n, False)] @ cs) fs"
  proof (rule heap_inv_retag [OF inv [unfolded bs] as old _ mod order_refl out])
    show "set fs = free_starts (as @ [(i, n, False)] @ cs) - {i}"
      using set_fs [OF inv] notin by (auto simp: bs free_starts_append free_starts_Cons)
  qed (use hb t in auto)
  have ia: "(i, n) \<notin> allocs as" "(i, n) \<notin> allocs cs"
    using chain_mem [OF as, of i n True] chain_mem [OF cs, of i n True] by (auto simp: allocs_def)
  show thesis
  proof (rule that [OF _ inv1])
    show "mirror_footer (haddr i) (CLR_ALLOC (haddr i) (mem s)) = m2" unfolding c1 c2 ..
    show "allocs (as @ [(i, n, False)] @ cs) = allocs bs - {(i, n)}" using ia by (simp add: bs)
    show "free_cells (as @ [(i, n, False)] @ cs) = free_cells bs \<union> {i ..< i + n}"
      by (auto simp: bs free_cells_append free_cells_Cons)
  qed (use mod in simp_all)
qed

lemma kfree_run:
  assumes inv: "heap_inv {} s bs fs" and b: "(i, n, True) \<in> set bs" and lock: "\<not> g_heap_lock s"
  shows "\<exists>s'. kfree (haddr (i + 4)) s = Done s' \<and> freed bs i n s s'"
proof -
  note hb = heap_block [OF inv b]
  define s0 where "s0 = s\<lparr>g_heap_lock := True\<rparr>"
  have inv0: "heap_inv {} s0 bs fs" using inv by (simp add: s0_def)
  obtain m bs1 where m: "mirror_footer (haddr i) (CLR_ALLOC (haddr i) (mem s0)) = m"
    and inv1: "heap_inv {i} (s0\<lparr>mem := m\<rparr>) bs1 fs" "(i, n, False) \<in> set bs1" and b1: "allocs bs1 = allocs bs - {(i, n)}"
      "free_cells bs1 = free_cells bs \<union> {i ..< i + n}" and mod1: "modifies {i ..< i + n} (mem s0) m"
    by (rule clear_alloc [OF inv0 b])
  obtain c s2 where co: "coalesce (haddr i) (s0\<lparr>mem := m\<rparr>) = (haddr c, s2)"
    and fp: "free_pending bs1 i n c (s0\<lparr>mem := m\<rparr>) s2" by (rule coalesce_run [OF inv1])
  from fp obtain bs2 fs2 w where 2: "heap_inv {c} s2 bs2 fs2" "(c, w, False) \<in> set bs2" "i = c \<or> c + 6 \<le> i" "i + n \<le> c + w"
    "allocs bs2 = allocs bs1" "free_cells bs2 = free_cells bs1" "modifies (free_cells bs1) m (mem s2)"
    "heap_only (s0\<lparr>mem := m\<rparr>) s2" "\<not> IS_ALLOC (mem s2) (haddr i)"
    unfolding free_pending_def by auto
  note push = fl_push_inv [OF 2(1,2), simplified]
  let ?s3 = "fl_push (haddr c) s2" and ?C = "free_cells bs \<union> {i ..< i + n}"
  have alloc: "IS_ALLOC (mem s0) (haddr i)" using tag_block(2) [OF hb(5)] by (simp add: s0_def)
  have nz: "haddr (i + 4) \<noteq> 0" using hb(1,2) by (intro haddr_nonzero) simp
  have run: "kfree (haddr (i + 4)) s = Done (?s3\<lparr>g_heap_lock := False\<rparr>)"
    using nz lock alloc m co unfolding kfree_def s0_def
    by (simp add: payload_ptr(2) spinlock_acquire_def Let_def)
  have mod: "modifies ?C (mem s) (mem ?s3)"
  proof -
    have "links (free_starts bs2) \<subseteq> ?C" using links_free_cells [OF 2(1)] 2(6) b1(2) by simp
    then have "modifies ?C (mem s2) (mem ?s3)" using push(2) by (rule modifies_mono [rotated])
    moreover have "modifies ?C m (mem s2)" using 2(7) b1(2) by simp
    moreover have "modifies ?C (mem s) m" using modifies_mono [OF mod1, of ?C] by (simp add: s0_def)
    ultimately show ?thesis by (meson modifies_trans order_refl)
  qed
  have na: "\<not> IS_ALLOC (mem ?s3) (haddr i)"
  proof -
    have "i \<notin> links (free_starts bs2)" using 2(4) hb(2) by (intro interior_not_link [OF 2(1,2,3)]) simp
    then have "hcell (mem ?s3) i = hcell (mem s2) i"
      using push(2) links_bound [OF 2(1) order_refl] hb(1,2) by (intro modifies_cell) simp_all
    then show ?thesis using 2(9) by (simp add: IS_ALLOC_def set_free_cell)
  qed
  obtain m' f where "?s3 = s0\<lparr>mem := m', g_free_list := f\<rparr>"
    using heap_only_trans [OF 2(8) push(3)] by (auto simp: heap_only_def)
  then have "?s3\<lparr>g_heap_lock := False\<rparr> = s\<lparr>mem := m', g_free_list := f, g_heap_lock := False\<rparr>"
    by (simp add: s0_def)
  then have "\<exists>m' f. ?s3\<lparr>g_heap_lock := False\<rparr> = s\<lparr>mem := m', g_free_list := f, g_heap_lock := False\<rparr>" by blast
  moreover have "allocs bs2 = allocs bs - {(i, n)}" "free_cells bs2 = ?C" using 2(5,6) b1 by simp_all
  ultimately have "freed bs i n s (?s3\<lparr>g_heap_lock := False\<rparr>)"
    unfolding freed_def using push(1) mod na by (auto intro!: exI [of _ bs2])
  with run show ?thesis by blast
qed

section \<open>Searching\<close>
lemma search_list:
  assumes "dll pr (\<lambda>x. hcell m (x + 2)) p xs h" and "length xs < fuel" and "set xs \<subseteq> {..<HEAP_CELLS}"
  shows "while_outcome fuel (\<lambda>it. it \<noteq> 0 \<and> \<not> BLK_SIZE m it \<ge> need) (\<lambda>it. Done (next_free m it)) h =
    Done (case List.find (\<lambda>x. BLK_SIZE m (haddr x) \<ge> need) xs of None \<Rightarrow> 0 | Some x \<Rightarrow> haddr x)"
  using assms
proof (induction xs arbitrary: fuel p h)
  case Nil
  then show ?case by (simp add: while_outcome_step)
next
  case (Cons x xs)
  then obtain f where f: "fuel = Suc f" "length xs < f" by (cases fuel) auto
  have h: "h = haddr x" "dll pr (\<lambda>x. hcell m (x + 2)) (haddr x) xs (hcell m (x + 2))" using Cons.prems(1) by simp_all
  have "haddr x \<noteq> 0" using Cons.prems(3) by (intro haddr_nonzero) simp
  then show ?case using Cons.IH [OF h(2) f(2)] Cons.prems(3) by (simp add: f h(1) set_free_cell)
qed

lemma fl_find_fit_run:
  assumes inv: "heap_inv X s bs fs" and need: "total_size_for_payload need = of_nat (8 * k)" "k < 2 ^ 61"
  obtains r where "fl_find_fit need s = Done r"
    "r = 0 \<and> (\<forall>i n. (i, n, False) \<in> set bs \<longrightarrow> i \<notin> X \<longrightarrow> n < k) \<or>
     (\<exists>i n. r = haddr i \<and> r \<noteq> 0 \<and> (i, n, False) \<in> set bs \<and> i \<notin> X \<and> k \<le> n)"
proof -
  have d: "dll (\<lambda>x. hcell (mem s) (x + 1)) (\<lambda>x. hcell (mem s) (x + 2)) 0 fs (g_free_list s)" "distinct fs"
    using inv by (simp_all add: heap_inv_def)
  have sub: "set fs \<subseteq> {..<HEAP_CELLS}" using free_block [OF inv] by (meson add_lessD1 lessThan_iff subsetI)
  have "length fs = card (set fs)" using d(2) by (simp add: distinct_card)
  also have "\<dots> \<le> HEAP_CELLS" using card_mono [OF _ sub] by simp
  finally have len: "length fs < 2 ^ 64 + 1" by simp
  have sz: "BLK_SIZE (mem s) (haddr x) \<ge> of_nat (8 * k) \<longleftrightarrow> k \<le> n" if "(x, n, False) \<in> set bs" for x n
    using tag_block(1) [OF heap_block(5) [OF inv that]] heap_block(1) [OF inv that] need(2) of_nat_8_le [of k n] by simp
  let ?P = "\<lambda>x. BLK_SIZE (mem s) (haddr x) \<ge> of_nat (8 * k)"
  have run: "fl_find_fit need s = Done (case List.find ?P fs of None \<Rightarrow> 0 | Some x \<Rightarrow> haddr x)"
    unfolding fl_find_fit_def Let_def need(1) by (rule search_list [OF d(1) len sub])
  show thesis
  proof (cases "List.find ?P fs")
    case None
    have "n < k" if "(i, n, False) \<in> set bs" "i \<notin> X" for i n
    proof -
      have "i \<in> set fs" using set_fs [OF inv] that by (auto simp: free_starts_def)
      then have "\<not> ?P i" using None by (auto simp: find_None_iff)
      then show ?thesis using sz [OF that(1)] by simp
    qed
    with None show thesis by (intro that [OF run]) simp
  next
    case (Some x)
    then have x: "x \<in> set fs" "?P x" by (auto simp: find_Some_iff)
    obtain n where n: "(x, n, False) \<in> set bs" using free_block [OF inv x(1)] by metis
    have "haddr x \<noteq> 0" using sub x(1) by (intro haddr_nonzero) auto
    moreover have "x \<notin> X" using x(1) set_fs [OF inv] by blast
    ultimately show thesis using Some n sz [OF n] x(2) by (intro that [OF run]) auto
  qed
qed

lemma total_size_cells:
  assumes "unat sz + 80 < 2 ^ 64"
  obtains k where "total_size_for_payload sz = of_nat (8 * k)" "even k" "unat sz + 40 \<le> 8 * k" "8 * k < unat sz + 64"
    "6 \<le> k" "k < 2 ^ 61"
proof -
  let ?q = "(unat sz + 15) div 16"
  have q: "16 * ?q < unat sz + 16" "unat sz \<le> 16 * ?q"
    using div_mult_mod_eq [of "unat sz + 15" 16] mod_less_divisor [of 16 "unat sz + 15"] by linarith+
  have a: "unat (ALIGN_UP sz ALIGNMENT) = 16 * ?q"
    using unat_ALIGN_UP_16 [of sz] assms by (simp add: ALIGNMENT_def)
  have ov: "OVERHEAD = 40" by (simp add: OVERHEAD_def HDR_SIZE_32 FTR_SIZE_def)
  have b: "unat (ALIGN_UP sz ALIGNMENT + OVERHEAD) = 16 * ?q + 40"
    using a q assms by (simp add: ov unat_word_ariths)
  have "unat (total_size_for_payload sz) = (16 * ?q + 40 + 15) div 16 * 16"
    using unat_ALIGN_UP_16 [of "ALIGN_UP sz ALIGNMENT + OVERHEAD"] b q assms
    by (simp add: total_size_for_payload_def Let_def ALIGNMENT_def)
  also have "(16 * ?q + 40 + 15) div 16 = ?q + 3" by simp
  finally have t: "unat (total_size_for_payload sz) = 8 * (2 * ?q + 6)" by simp
  have "total_size_for_payload sz = of_nat (unat (total_size_for_payload sz))" by simp
  then have "total_size_for_payload sz = of_nat (8 * (2 * ?q + 6))" unfolding t .
  then show thesis
    by (rule that) (use q assms in simp_all)
qed

end
