(* ===== verification/Heap_Growth.thy ===== *)
theory Heap_Growth
  imports Kmalloc_Correct Boot_Paging_Correct
begin

text \<open>
  Growth of the heap: \<open>heap_map_more\<close> of \<open>kmalloc.c\<close> takes frames, maps them at the end of the heap
  and adds the new range as one free block. The page tables are written through the direct map,
  which ends below the heap window as long as physical memory ends below \<open>2 ^ 44\<close>.
\<close>

section \<open>The window and the page tables\<close>

definition hpage :: "nat \<Rightarrow> u64" where "hpage j = haddr (512 * j)"

abbreviation HEAP_PAGES :: nat where "HEAP_PAGES \<equiv> 0x10000"

lemma unat_hpage: "j \<le> HEAP_PAGES \<Longrightarrow> unat (hpage j) = 0xFFFF900000000000 + 4096 * j"
  by (simp add: hpage_def unat_haddr)

lemma hpage_Suc: "hpage j + PAGE_SIZE = hpage (Suc j)"
  using haddr_plus [of "512 * j" 512] by (simp add: hpage_def PAGE_SIZE_def algebra_simps)

lemma hpage_less: "i \<le> HEAP_PAGES \<Longrightarrow> j \<le> HEAP_PAGES \<Longrightarrow> hpage i < hpage j \<longleftrightarrow> i < j"
  by (simp add: hpage_def haddr_less)

lemma hpage_path:
  assumes "i < HEAP_PAGES" "j < HEAP_PAGES"
  shows "va_path (hpage i) = va_path (hpage j) \<longleftrightarrow> i = j"
proof -
  have v: "vpn (hpage k) = 0xFFFF900000000 mod 2 ^ 36 + k" if "k < HEAP_PAGES" for k
  proof -
    have "unat (hpage k) div 4096 = 0xFFFF900000000 + k"
      using that by (simp add: unat_hpage)
    then show ?thesis
      using that mod_mult_self3 [of 65535 "2 ^ 36" "38654705664 + k"] by (simp add: vpn_def)
  qed
  show ?thesis
    using vpath_inj [of "vpn (hpage i)" "vpn (hpage j)"] v [OF assms(1)] v [OF assms(2)] assms
    by (simp add: va_path_vpn)
qed

lemma tree_ok_mono: "tree_ok E r V \<Longrightarrow> V \<subseteq> W \<Longrightarrow> tree_ok E r W"
  unfolding tree_ok_def by blast

text \<open>The bytes of the heap window outside the cells of \<open>C\<close> are unchanged.\<close>

definition kept :: "nat set \<Rightarrow> memory \<Rightarrow> memory \<Rightarrow> bool" where
  "kept C m m' \<longleftrightarrow> (\<forall>c a. c < HEAP_CELLS \<longrightarrow> c \<notin> C \<longrightarrow> a - haddr c < 8 \<longrightarrow> m' a = m a)"

lemma kept_trans: "kept C m m' \<Longrightarrow> kept D m' m'' \<Longrightarrow> C \<subseteq> E \<Longrightarrow> D \<subseteq> E \<Longrightarrow> kept E m m''"
  unfolding kept_def by (metis subsetD)

lemma kept_mono: "kept C m m' \<Longrightarrow> C \<subseteq> D \<Longrightarrow> kept D m m'"
  by (auto simp: kept_def)

lemma kept_cell: "kept C m m' \<Longrightarrow> c < HEAP_CELLS \<Longrightarrow> c \<notin> C \<Longrightarrow> hcell m' c = hcell m c"
  unfolding hcell_def by (rule load64_cong) (simp add: kept_def)

lemma unat_in_cell:
  assumes "c < HEAP_CELLS" and "a - haddr c < 8"
  shows "0xFFFF900000000000 + 8 * c \<le> unat a \<and> unat a < 0xFFFF900000000000 + 8 * c + 8"
proof -
  define e where "e = a - haddr c"
  have e: "unat e < 8" using assms(2) by (simp add: e_def word_less_nat_alt)
  have "a = haddr c + e" by (simp add: e_def)
  then have "unat a = unat (haddr c) + unat e"
    using e assms(1) unat_haddr [of c] by (simp add: unat_word_ariths)
  with e unat_haddr [of c] assms(1) show ?thesis by simp
qed

lemma modifies_kept: "modifies C m m' \<Longrightarrow> C \<subseteq> {..<HEAP_CELLS} \<Longrightarrow> kept C m m'"
  unfolding kept_def
proof (intro allI impI)
  fix c a assume m: "modifies C m m'" "C \<subseteq> {..<HEAP_CELLS}" and c: "c < HEAP_CELLS" "c \<notin> C" "a - haddr c < 8"
  have "\<not> a - haddr d < 8" if d: "d \<in> C" for d
  proof
    assume "a - haddr d < 8"
    moreover have "d < HEAP_CELLS" "d \<noteq> c" using d m(2) c(2) by auto
    ultimately show False using unat_in_cell [OF c(1,3)] unat_in_cell [of d a] by linarith
  qed
  then show "m' a = m a" using m(1) by (simp add: modifies_def)
qed

text \<open>The direct-map view of a frame below \<open>2 ^ 44\<close> does not reach the heap window.\<close>
lemma heap_not_table:
  assumes "c < HEAP_CELLS" and "a - haddr c < 8" and "unat t + 4096 \<le> 2 ^ 44"
  shows "a \<notin> page_bytes (HIGHER_HALF_MEMORY_OFFSET + t)"
proof
  assume "a \<in> page_bytes (HIGHER_HALF_MEMORY_OFFSET + t)"
  then have "a - (HIGHER_HALF_MEMORY_OFFSET + t) < 4096" by (simp add: page_bytes_def)
  moreover define d where "d = a - (HIGHER_HALF_MEMORY_OFFSET + t)"
  ultimately have d: "unat d < 4096" by (simp add: word_less_nat_alt)
  have a: "a = HIGHER_HALF_MEMORY_OFFSET + (t + d)" by (simp add: d_def)
  have td: "unat (t + d) = unat t + unat d" using d assms(3) by (simp add: unat_word_ariths)
  have "unat a = 0xFFFF800000000000 + (unat t + unat d)"
    using d assms(3) td unfolding a HIGHER_HALF_MEMORY_OFFSET_def by (simp add: unat_word_ariths)
  with unat_in_cell [OF assms(1,2)] d assms(3) show False by simp
qed

definition heap_env :: "'a paging_state_scheme \<Rightarrow> bool" where
  "heap_env s \<longleftrightarrow> pt_ok s (current_pml4_phys s) \<and> g_boot_phys_page s = Some supply_from_frame \<and>
     frame_limit s \<le> 2 ^ 44 \<and>
     (\<forall>j < HEAP_PAGES. small_path (ptab s) (current_pml4_phys s) (va_path (hpage j)))"

definition leaf_entry :: "u64 \<Rightarrow> u64" where
  "leaf_entry p = p OR (PAGING_FLAG_PRESENT OR PAGING_FLAG_WRITABLE OR PAGING_FLAG_NO_EXECUTE) OR PTE_P"

section \<open>One page\<close>
lemma frame_taken:
  assumes env: "heap_env s" and left: "frames_left (Suc n) s"
  obtains p s1 where "frame_alloc s = Done (p, s1)" "heap_env s1" "frames_left n s1" "mem s1 = mem s" "paging_only s s1"
    "supplied s1 = insert p (supplied s)" "p \<notin> supplied s" "valid_frame p"
proof -
  let ?r = "current_pml4_phys s"
  have ok: "pt_ok s ?r" and boot: "g_boot_phys_page s = Some supply_from_frame" using env by (simp_all add: heap_env_def)
  obtain p s1 where get: "PagingGetFreeFrame s = Done (p, s1)" and l: "frames_left n s1"
    by (rule get_free_frame_total [OF pt_okD(1) [OF ok] left])
  note same = get_free_frame_same [OF pt_okD(1) [OF ok] get] and facts = supplier.get_facts [OF pt_okD(1) [OF ok] get]
  note f = paging_only_fields [OF same(1)]
  have r: "current_pml4_phys s1 = ?r" by (simp add: current_pml4_phys_def f)
  have "table_frames s \<subseteq> table_frames s1"
    using facts(3) paging_only_limit [OF same(1)] by (auto simp: table_frames_def)
  then have "tree_ok (ptab s1) ?r (table_frames s1)" using pt_okD(2) [OF ok] same(2) by (simp add: tree_ok_mono)
  then have "pt_ok s1 ?r" using ok same(2) facts(1) by (simp add: pt_ok_def)
  then have "heap_env s1" using env same(2) f by (simp add: heap_env_def r frame_limit_def)
  moreover have "frame_alloc s = Done (p, s1)" using get boot by (simp add: PagingGetFreeFrame_def)
  ultimately show thesis using l same facts get_free_frame_valid [OF pt_okD(1) [OF ok] get] by (intro that) simp_all
qed

lemma leaf_written_env:
  assumes env: "heap_env s" and leaf: "leaf_written (current_pml4_phys s) (va_path va) e s s'"
  shows "heap_env s'" and "kept {} (mem s) (mem s')"
proof -
  let ?r = "current_pml4_phys s"
  have l: "pt_ok s' ?r" "paging_only s s'"
    and m: "\<And>a. \<forall>t \<in> table_frames s'. a \<notin> page_bytes (HIGHER_HALF_MEMORY_OFFSET + t) \<Longrightarrow> mem s' a = mem s a"
    using leaf by (simp_all add: leaf_written_def)
  note f = paging_only_fields [OF l(2)]
  have r: "current_pml4_phys s' = ?r" by (simp add: current_pml4_phys_def f)
  have "small_path (ptab s') ?r (va_path (hpage j))" if "j < HEAP_PAGES" for j
    using leaf_written4(1) [OF leaf va_path_ok(2) va_path_ok, of "hpage j"] env that
    by (auto simp: small_path_def heap_env_def split: if_splits)
  then show "heap_env s'" using env l f by (simp add: heap_env_def r frame_limit_def)
  have "unat t + 4096 \<le> 2 ^ 44" if "t \<in> table_frames s'" for t
    using that env f by (simp add: table_frames_def supply_limit_def heap_env_def frame_limit_def)
  then show "kept {} (mem s) (mem s')"
    unfolding kept_def by (intro allI impI m ballI heap_not_table) simp_all
qed

lemma map_heap_page_run:
  assumes env: "heap_env s" and left: "frames_left (4 + n) s" and r: "r = current_pml4_phys s" and j: "j < HEAP_PAGES"
  obtains p s' where "map_heap_page r (hpage j, s) = Done (hpage (Suc j), s')" "heap_env s'" "frames_left n s'"
    "paging_only s s'" "kept {} (mem s) (mem s')" "p \<notin> supplied s" "p \<in> supplied s'" "supplied s \<subseteq> supplied s'" "valid_frame p"
    "resolve (ptab s') r (va_path (hpage j)) = Some (leaf_entry p, 0)"
    "\<forall>va. va_path va \<noteq> va_path (hpage j) \<longrightarrow> resolve (ptab s') r (va_path va) = resolve (ptab s) r (va_path va)"
proof -
  have left': "frames_left (Suc (n + 3)) s" using left by (simp add: eval_nat_numeral)
  obtain p s1 where a: "frame_alloc s = Done (p, s1)" "heap_env s1" "frames_left (n + 3) s1" "mem s1 = mem s"
    "paging_only s s1" "supplied s1 = insert p (supplied s)" "p \<notin> supplied s" "valid_frame p"
    by (rule frame_taken [OF env left'])
  have r1: "current_pml4_phys s1 = r" using paging_only_fields(4) [OF a(5)] by (simp add: r current_pml4_phys_def)
  have ok: "pt_ok s1 r" "small_path (ptab s1) r (va_path (hpage j))" using a(2) j by (auto simp: heap_env_def r1)
  obtain s' where run: "PagingMapMemory r (hpage j) p
        (PAGING_FLAG_PRESENT OR PAGING_FLAG_WRITABLE OR PAGING_FLAG_NO_EXECUTE) s1 = Done s'"
    and leaf: "leaf_written r (va_path (hpage j)) (leaf_entry p) s1 s'" and l: "frames_left n s'"
    unfolding leaf_entry_def by (rule PagingMapMemory_run [OF ok a(3)])
  note env' = leaf_written_env [OF a(2), unfolded r1, OF leaf]
  have pres: "pte_present (leaf_entry p)" unfolding leaf_entry_def or.assoc [symmetric] by (rule pte_present_or)
  note lw = leaf_written4(1) [OF leaf va_path_ok(2) va_path_ok]
  show thesis
  proof (rule that [of s' p])
    show "map_heap_page r (hpage j, s) = Done (hpage (Suc j), s')"
      using a(1) run by (simp add: map_heap_page_def hpage_Suc)
    show "paging_only s s'" using a(5) leaf paging_only_trans by (auto simp: leaf_written_def)
    show "kept {} (mem s) (mem s')" using env'(2) a(4) by simp
    show "p \<in> supplied s'" "supplied s \<subseteq> supplied s'" using leaf a(6) by (auto simp: leaf_written_def)
    show "resolve (ptab s') r (va_path (hpage j)) = Some (leaf_entry p, 0)" using lw [of "hpage j"] pres by simp
    show "\<forall>va. va_path va \<noteq> va_path (hpage j) \<longrightarrow> resolve (ptab s') r (va_path va) = resolve (ptab s) r (va_path va)"
      using lw a(4) by simp
  qed (use env' l a in simp_all)
qed

section \<open>All pages\<close>

text \<open>The heap pages \<open>j ..< j + n\<close> are mapped to distinct frames that were free before, writable and not
  executable, and every other address translates as before.\<close>

definition backed :: "u64 \<Rightarrow> nat \<Rightarrow> nat \<Rightarrow> 'a paging_state_scheme \<Rightarrow> 'a paging_state_scheme \<Rightarrow> bool" where
  "backed r j n s s' \<longleftrightarrow> supplied s \<subseteq> supplied s' \<and>
     (\<exists>ps. length ps = n \<and> distinct ps \<and> set ps \<subseteq> supplied s' - supplied s \<and>
        (\<forall>i < n. valid_frame (ps ! i) \<and> resolve (ptab s') r (va_path (hpage (j + i))) = Some (leaf_entry (ps ! i), 0))) \<and>
     (\<forall>va. (\<forall>i < n. va_path va \<noteq> va_path (hpage (j + i))) \<longrightarrow>
        resolve (ptab s') r (va_path va) = resolve (ptab s) r (va_path va))"

lemma backed_Cons:
  assumes rest: "backed r (Suc j) n t s'" and p: "p \<notin> supplied s" "p \<in> supplied t" "supplied s \<subseteq> supplied t" "valid_frame p"
    and res: "resolve (ptab t) r (va_path (hpage j)) = Some (leaf_entry p, 0)"
    and other: "\<forall>va. va_path va \<noteq> va_path (hpage j) \<longrightarrow> resolve (ptab t) r (va_path va) = resolve (ptab s) r (va_path va)"
    and j: "j + Suc n \<le> HEAP_PAGES"
  shows "backed r j (Suc n) s s'"
proof -
  from rest obtain ps where sub: "supplied t \<subseteq> supplied s'"
    and ps: "length ps = n" "distinct ps" "set ps \<subseteq> supplied s' - supplied t"
      "\<forall>i < n. valid_frame (ps ! i) \<and> resolve (ptab s') r (va_path (hpage (Suc j + i))) = Some (leaf_entry (ps ! i), 0)"
    and keep: "\<And>va. \<forall>i < n. va_path va \<noteq> va_path (hpage (Suc j + i)) \<Longrightarrow>
        resolve (ptab s') r (va_path va) = resolve (ptab t) r (va_path va)"
    by (auto simp: backed_def)
  have "va_path (hpage j) \<noteq> va_path (hpage (Suc j + i))" if "i < n" for i
    using hpage_path [of j "Suc j + i"] that j by simp
  with keep res have head: "resolve (ptab s') r (va_path (hpage j)) = Some (leaf_entry p, 0)" by simp
  have pages: "\<forall>i < Suc n. valid_frame ((p # ps) ! i) \<and>
      resolve (ptab s') r (va_path (hpage (j + i))) = Some (leaf_entry ((p # ps) ! i), 0)"
  proof (intro allI impI)
    fix i assume "i < Suc n"
    then show "valid_frame ((p # ps) ! i) \<and>
        resolve (ptab s') r (va_path (hpage (j + i))) = Some (leaf_entry ((p # ps) ! i), 0)"
      using ps(4) head p(4) by (cases i) simp_all
  qed
  have "resolve (ptab s') r (va_path va) = resolve (ptab s) r (va_path va)"
    if n: "\<forall>i < Suc n. va_path va \<noteq> va_path (hpage (j + i))" for va
  proof -
    have "va_path va \<noteq> va_path (hpage j)" using n [rule_format, of 0] by simp
    moreover have "va_path va \<noteq> va_path (hpage (Suc j + i))" if "i < n" for i using n [rule_format, of "Suc i"] that by simp
    ultimately show ?thesis using keep [of va] other by simp
  qed
  moreover have "distinct (p # ps)" "set (p # ps) \<subseteq> supplied s' - supplied s"
    using ps(2,3) p sub by auto
  ultimately show ?thesis
    unfolding backed_def using pages sub p(3) ps(1) by (intro conjI exI [of _ "p # ps"]) auto
qed

lemma map_pages:
  assumes "heap_env s" and "frames_left (4 * n + k) s" and "r = current_pml4_phys s" and "j + n \<le> HEAP_PAGES" and "n < fuel"
  shows "\<exists>s'. while_outcome fuel (\<lambda>(va, s). va < hpage (j + n)) (map_heap_page r) (hpage j, s) = Done (hpage (j + n), s') \<and>
    heap_env s' \<and> frames_left k s' \<and> paging_only s s' \<and> kept {} (mem s) (mem s') \<and> backed r j n s s'"
  using assms
proof (induction n arbitrary: j s fuel)
  case 0
  then show ?case
    by (intro exI [of _ s]) (simp add: while_outcome_step backed_def kept_def)
next
  case (Suc n)
  from Suc.prems(5) obtain f where f: "fuel = Suc f" "n < f" by (cases fuel) auto
  have left: "frames_left (4 + (4 * n + k)) s" using Suc.prems(2) by (simp add: add_ac)
  have j: "j < HEAP_PAGES" using Suc.prems(4) by simp
  obtain p t where t: "map_heap_page r (hpage j, s) = Done (hpage (Suc j), t)" "heap_env t" "frames_left (4 * n + k) t"
    "paging_only s t" "kept {} (mem s) (mem t)"
    and b: "p \<notin> supplied s" "p \<in> supplied t" "supplied s \<subseteq> supplied t" "valid_frame p"
      "resolve (ptab t) r (va_path (hpage j)) = Some (leaf_entry p, 0)"
      "\<forall>va. va_path va \<noteq> va_path (hpage j) \<longrightarrow> resolve (ptab t) r (va_path va) = resolve (ptab s) r (va_path va)"
    by (rule map_heap_page_run [OF Suc.prems(1) left Suc.prems(3) j])
  have r: "r = current_pml4_phys t" using paging_only_fields(4) [OF t(4)] Suc.prems(3) by (simp add: current_pml4_phys_def)
  have jn: "Suc j + n \<le> HEAP_PAGES" using Suc.prems(4) by simp
  from Suc.IH [OF t(2,3) r jn f(2)] obtain s' where
    w: "while_outcome f (\<lambda>(va, s). va < hpage (Suc j + n)) (map_heap_page r) (hpage (Suc j), t) = Done (hpage (Suc j + n), s')"
    and s': "heap_env s'" "frames_left k s'" "paging_only t s'" "kept {} (mem t) (mem s')" "backed r (Suc j) n t s'"
    by blast
  have "hpage j < hpage (j + Suc n)" using Suc.prems(4) by (simp add: hpage_less)
  then have "while_outcome fuel (\<lambda>(va, s). va < hpage (j + Suc n)) (map_heap_page r) (hpage j, s) = Done (hpage (j + Suc n), s')"
    using w t(1) f(1) by simp
  moreover have "backed r j (Suc n) s s'" by (rule backed_Cons [OF s'(5) b Suc.prems(4)])
  ultimately show ?case
    using s' paging_only_trans [OF t(4) s'(3)] kept_trans [OF t(5) s'(4) subset_refl subset_refl] by blast
qed

section \<open>Heap writes and the page tables\<close>
lemma pt_ok_elsewhere:
  assumes ok: "pt_ok s r" and m: "\<And>t a. t \<in> table_frames s \<Longrightarrow> a \<in> page_bytes (HIGHER_HALF_MEMORY_OFFSET + t) \<Longrightarrow> m a = mem s a"
  shows "pt_ok (s\<lparr>mem := m\<rparr>) r"
    and "path_ok 4 qs \<Longrightarrow> resolve (tbl HIGHER_HALF_MEMORY_OFFSET m) r qs = resolve (ptab s) r qs"
proof -
  let ?E = "ptab s" and ?E' = "tbl HIGHER_HALF_MEMORY_OFFSET m" and ?V = "table_frames s"
  note tree = pt_okD(2) [OF ok]
  have same: "?E' t j = ?E t j" if "t \<in> ?V" "j < 512" for t j
    unfolding tbl_def by (rule load64_cong) (use m [OF that(1)] page_bytes_entry [OF that(2)] in blast)
  then have only: "only_entry ?E ?E' ?V r 512" by (simp add: only_entry_def)
  have np: "\<not> prefix ([] @ [512]) qs" if "path_ok 4 qs" for qs
    using that by (auto simp: path_ok_def elim!: prefixE)
  have r: "desc ?E r [] = Some r" "path_ok 3 []" by (simp_all add: path_ok_def)
  note other = desc_elsewhere [OF tree r only _ np]
  have d: "desc ?E' r qs = desc ?E r qs" if "path_ok 3 qs" for qs
  proof -
    have "path_ok 4 qs" "length qs \<le> 3" using that by (simp_all add: path_ok_def)
    then show ?thesis by (intro other(1))
  qed
  show "resolve ?E' r qs = resolve ?E r qs" if "path_ok 4 qs" using other(2) [OF that that] .
  have "tree_ok ?E' r ?V" using tree d unfolding tree_ok_def by metis
  moreover have "plain_entries ?E' r"
    unfolding plain_entries_def
  proof (intro allI impI)
    fix ks f k g
    assume q: "path_ok 2 ks" "k < 512" "desc ?E' r ks = Some f" "child (?E' f k) = Some g"
    then have ks: "path_ok 3 ks" by (simp add: path_ok_def)
    have f: "desc ?E r ks = Some f" using q(3) d [OF ks] by simp
    have e: "?E' f k = ?E f k" by (rule same [OF tree_okD(1) [OF tree ks f] q(2)])
    show "?E' f k AND PAGE_ADDRESS_MASK = g"
      using pt_okD(3) [OF ok] q f e by (simp add: plain_entries_def)
  qed
  moreover have "table_frames (s\<lparr>mem := m\<rparr>) = ?V" by (simp add: table_frames_def)
  ultimately show "pt_ok (s\<lparr>mem := m\<rparr>) r" using pt_okD(1) [OF ok] by (simp add: pt_ok_def)
qed

lemma heap_env_mem:
  assumes env: "heap_env s" and m: "modifies C (mem s) m" "C \<subseteq> {..<HEAP_CELLS}"
  shows "heap_env (s\<lparr>mem := m\<rparr>)"
    and "resolve (tbl HIGHER_HALF_MEMORY_OFFSET m) (current_pml4_phys s) (va_path va) =
      resolve (ptab s) (current_pml4_phys s) (va_path va)"
proof -
  let ?r = "current_pml4_phys s"
  have ok: "pt_ok s ?r" using env by (simp add: heap_env_def)
  have same: "m a = mem s a" if t: "t \<in> table_frames s" "a \<in> page_bytes (HIGHER_HALF_MEMORY_OFFSET + t)" for t a
  proof -
    have "unat t + 4096 \<le> 2 ^ 44" using t(1) env by (simp add: table_frames_def supply_limit_def heap_env_def)
    then have "\<not> a - haddr c < 8" if "c \<in> C" for c using heap_not_table [of c a t] that m(2) t(2) by auto
    then show ?thesis using m(1) by (simp add: modifies_def)
  qed
  note p = pt_ok_elsewhere [OF ok same]
  show r: "resolve (tbl HIGHER_HALF_MEMORY_OFFSET m) ?r (va_path va) = resolve (ptab s) ?r (va_path va)" for va
    by (rule p(2) [OF _ _ va_path_ok(1)])
  show "heap_env (s\<lparr>mem := m\<rparr>)"
    using env p(1) r by (simp add: heap_env_def small_path_def current_pml4_phys_def frame_limit_def)
qed

lemma frame_is_allocated_heap [simp]:
  "frame_is_allocated (s\<lparr>g_free_list := f\<rparr>) = frame_is_allocated s"
  "frame_is_allocated (s\<lparr>g_heap_curr := c\<rparr>) = frame_is_allocated s"
  "frame_is_allocated (s\<lparr>g_heap_lock := l\<rparr>) = frame_is_allocated s"
  by (simp_all add: fun_eq_iff frame_is_allocated_def)

lemma supplier_heap [simp]:
  "supplier_ok (s\<lparr>g_free_list := f\<rparr>) = supplier_ok s" "supplied (s\<lparr>g_free_list := f\<rparr>) = supplied s"
  "supplier_ok (s\<lparr>g_heap_curr := c\<rparr>) = supplier_ok s" "supplied (s\<lparr>g_heap_curr := c\<rparr>) = supplied s"
  "supplier_ok (s\<lparr>g_heap_lock := l\<rparr>) = supplier_ok s" "supplied (s\<lparr>g_heap_lock := l\<rparr>) = supplied s"
  "supply_limit (s\<lparr>g_free_list := f\<rparr>) = supply_limit s" "supply_limit (s\<lparr>g_heap_curr := c\<rparr>) = supply_limit s"
  "supply_limit (s\<lparr>g_heap_lock := l\<rparr>) = supply_limit s"
  "frames_left n (s\<lparr>g_free_list := f\<rparr>) = frames_left n s" "frames_left n (s\<lparr>g_heap_curr := c\<rparr>) = frames_left n s"
  "frames_left n (s\<lparr>g_heap_lock := l\<rparr>) = frames_left n s"
  by (simp_all add: supply_limit_def supplier_ok_def supplied_def early_wf_def early_pages_def frame_wf_def frame_topology_def
      free_frames_def frame_limit_def frame_is_allocated_def frames_left_def split: option.split phys_page_supplier.split)

lemma heap_env_heap [simp]:
  "heap_env (s\<lparr>g_free_list := f\<rparr>) = heap_env s" "heap_env (s\<lparr>g_heap_curr := c\<rparr>) = heap_env s"
  "heap_env (s\<lparr>g_heap_lock := l\<rparr>) = heap_env s"
  by (simp_all add: heap_env_def pt_ok_def table_frames_def frame_limit_def current_pml4_phys_def)

section \<open>The new free block\<close>
lemma heap_inv_kept:
  assumes inv: "heap_inv X s bs fs" and m: "kept {} (mem s) (mem s')"
    and f: "g_heap_curr s' = g_heap_curr s" "g_free_list s' = g_free_list s"
  shows "heap_inv X s' bs fs"
proof -
  have c: "hcell (mem s') c = hcell (mem s) c" if "c < HEAP_CELLS" for c using kept_cell [OF m that] by simp
  have t: "hcell (mem s') i = tag n a \<and> hcell (mem s') (i + n - 1) = tag n a" if "(i, n, a) \<in> set bs" for i n a
    using heap_block [OF inv that] c [of i] c [of "i + n - 1"] by simp
  have "dll (\<lambda>x. hcell (mem s') (x + 1)) (\<lambda>x. hcell (mem s') (x + 2)) 0 fs (g_free_list s) =
      dll (\<lambda>x. hcell (mem s) (x + 1)) (\<lambda>x. hcell (mem s) (x + 2)) 0 fs (g_free_list s)"
  proof (rule dll_cong)
    fix x assume "x \<in> set fs"
    then obtain n where "x + 2 < HEAP_CELLS" using free_block [OF inv] by metis
    then show "hcell (mem s') (x + 1) = hcell (mem s) (x + 1) \<and> hcell (mem s') (x + 2) = hcell (mem s) (x + 2)"
      using c [of "x + 1"] c [of "x + 2"] by simp
  qed
  then show ?thesis using inv t f by (simp add: heap_inv_def)
qed

lemma heap_inv_append:
  assumes inv: "heap_inv {} s bs fs" and L: "chain 0 bs L" "512 dvd L" and n: "L + n \<le> HEAP_CELLS" "6 \<le> n" "512 dvd n"
    and m: "modifies {L ..< L + n} (mem s) m" "hcell m L = tag n False" "hcell m (L + n - 1) = tag n False"
  shows "heap_inv {L} (s\<lparr>mem := m, g_heap_curr := haddr (L + n)\<rparr>) (bs @ [(L, n, False)]) fs"
proof -
  have ev: "even n" using n(3) by (meson dvd_trans even_numeral)
  have same: "hcell m c = hcell (mem s) c" if "c < L" for c
    using modifies_cell [OF m(1)] that n(1) by (simp add: subset_iff)
  have t: "hcell m i = tag k a \<and> hcell m (i + k - 1) = tag k a" if "(i, k, a) \<in> set bs" for i k a
  proof -
    have "i < L" "i + k - 1 < L" using chain_mem [OF L(1) that] by linarith+
    with heap_block [OF inv that] same show ?thesis by simp
  qed
  have low: "x + 2 < L" if "x \<in> set fs" for x
  proof -
    have "x \<in> free_starts bs" using set_fs [OF inv] that by simp
    then obtain k where "(x, k, False) \<in> set bs" by (auto simp: free_starts_def)
    from chain_mem [OF L(1) this] show ?thesis by simp
  qed
  have d: "dll (\<lambda>x. hcell m (x + 1)) (\<lambda>x. hcell m (x + 2)) 0 fs (g_free_list s) =
      dll (\<lambda>x. hcell (mem s) (x + 1)) (\<lambda>x. hcell (mem s) (x + 2)) 0 fs (g_free_list s)"
  proof (rule dll_cong)
    fix x assume "x \<in> set fs"
    from low [OF this] show "hcell m (x + 1) = hcell (mem s) (x + 1) \<and> hcell m (x + 2) = hcell (mem s) (x + 2)"
      using same [of "x + 1"] same [of "x + 2"] by simp
  qed
  have "L \<notin> free_starts bs" using free_starts_chain [OF L(1)] by blast
  then have st: "set fs = free_starts (bs @ [(L, n, False)]) - {L}"
    using set_fs [OF inv] by (auto simp: free_starts_append free_starts_Cons)
  have ch: "chain 0 (bs @ [(L, n, False)]) (L + n)" using L(1) n(2) ev by (auto simp: chain_append)
  have dv: "512 dvd L + n" using L(2) n(3) by simp
  show ?thesis
    unfolding heap_inv_def free_starts_def [symmetric]
  proof (intro conjI)
    show "\<exists>La. chain 0 (bs @ [(L, n, False)]) La \<and> La \<le> HEAP_CELLS \<and> 512 dvd La \<and>
        g_heap_curr (s\<lparr>mem := m, g_heap_curr := haddr (L + n)\<rparr>) = haddr La"
      using ch n(1) dv by auto
    show "distinct fs" using inv by (simp add: heap_inv_def)
    show "dll (\<lambda>x. hcell (mem (s\<lparr>mem := m, g_heap_curr := haddr (L + n)\<rparr>)) (x + 1))
        (\<lambda>x. hcell (mem (s\<lparr>mem := m, g_heap_curr := haddr (L + n)\<rparr>)) (x + 2)) 0 fs
        (g_free_list (s\<lparr>mem := m, g_heap_curr := haddr (L + n)\<rparr>))"
      using inv d by (simp add: heap_inv_def)
  qed (use t m(2,3) st in auto)
qed

lemma fl_push_curr: "(fl_push b s)\<lparr>g_heap_curr := c\<rparr> = fl_push b (s\<lparr>g_heap_curr := c\<rparr>)"
  by (simp add: fl_push_def Let_def)

lemma new_block_mem:
  fixes m :: memory
  assumes n: "L + n \<le> HEAP_CELLS" "6 \<le> n"
  defines "m2 \<equiv> set_prev_free (haddr L) 0 (set_next_free (haddr L) 0 (store64 m (haddr L) (of_nat (8 * n))))"
  defines "m3 \<equiv> store64 m2 (FOOTER_OF m2 (haddr L)) (of_nat (8 * n))"
  shows "modifies {L ..< L + n} m m3" "hcell m3 L = tag n False" "hcell m3 (L + n - 1) = tag n False"
proof -
  define m1 where "m1 = store64 m (haddr L) (tag n False)"
  have m2: "m2 = store64 (store64 m1 (haddr (L + 2)) 0) (haddr (L + 1)) 0"
    unfolding m2_def m1_def tag_simps(5) set_free_cell by (rule refl)
  have c: "hcell m2 L = tag n False"
    using n by (simp add: m2 m1_def hcell_store)
  have f: "FOOTER_OF m2 (haddr L) = haddr (L + n - 1)" using tag_block(4) [OF c] n(2) by simp
  have m3: "m3 = store64 m2 (haddr (L + n - 1)) (tag n False)" unfolding m3_def f tag_simps(5) by (rule refl)
  show "hcell m3 L = tag n False" "hcell m3 (L + n - 1) = tag n False"
    using n c by (simp_all add: m3 hcell_store)
  have a: "modifies {L ..< L + n} m m1" unfolding m1_def by (rule modifies_store) (use n in simp)
  have b: "modifies {L ..< L + n} m1 (store64 m1 (haddr (L + 2)) 0)" by (rule modifies_store) (use n in simp)
  have d: "modifies {L ..< L + n} (store64 m1 (haddr (L + 2)) 0) m2" unfolding m2 by (rule modifies_store) (use n in simp)
  have e: "modifies {L ..< L + n} m2 m3" unfolding m3 by (rule modifies_store) (use n in simp)
  show "modifies {L ..< L + n} m m3"
    using modifies_trans [OF modifies_trans [OF modifies_trans [OF a b subset_refl subset_refl] d subset_refl subset_refl]
      e subset_refl subset_refl] .
qed

text \<open>What growing by \<open>n\<close> pages does to a heap of \<open>j\<close> pages.\<close>

definition grown :: "nat \<Rightarrow> nat \<Rightarrow> block list \<Rightarrow> nat list \<Rightarrow> 'a heap_state_scheme \<Rightarrow> 'a heap_state_scheme \<Rightarrow> bool" where
  "grown j n bs fs s s' \<longleftrightarrow>
     heap_inv {} s' (bs @ [(512 * j, 512 * n, False)]) (512 * j # fs) \<and> heap_env s' \<and>
     kept (free_cells bs \<union> {512 * j ..< 512 * (j + n)}) (mem s) (mem s') \<and>
     backed (current_pml4_phys s) j n s s' \<and> g_heap_lock s' = g_heap_lock s \<and> cr3 s' = cr3 s"

lemma fl_push_fields:
  "cr3 (fl_push b s) = cr3 s" "g_heap_lock (fl_push b s) = g_heap_lock s" "g_heap_curr (fl_push b s) = g_heap_curr s"
  "fl_push b s = s\<lparr>mem := mem (fl_push b s), g_free_list := b\<rparr>"
  by (simp_all add: fl_push_def Let_def)

lemma backed_same:
  assumes "backed r j n s t" and "supplied t' = supplied t"
    and "\<And>va. resolve (ptab t') r (va_path va) = resolve (ptab t) r (va_path va)"
  shows "backed r j n s t'"
  using assms by (simp add: backed_def)

lemma free_cells_bound: "heap_inv X s bs fs \<Longrightarrow> free_cells bs \<subseteq> {..<HEAP_CELLS}"
  by (auto simp: free_cells_def dest!: heap_block(1))

text \<open>Turning \<open>n\<close> cells at the end of the heap into a free block.\<close>
lemma add_block:
  assumes inv: "heap_inv {} s bs fs" and env: "heap_env s" and L: "g_heap_curr s = haddr L" "L + n \<le> HEAP_CELLS"
    and n: "6 \<le> n" "512 dvd n"
  defines "m2 \<equiv> set_prev_free (haddr L) 0 (set_next_free (haddr L) 0 (store64 (mem s) (haddr L) (of_nat (8 * n))))"
  defines "m3 \<equiv> store64 m2 (FOOTER_OF m2 (haddr L)) (of_nat (8 * n))"
  defines "s' \<equiv> fl_push (haddr L) (s\<lparr>mem := m3, g_heap_curr := haddr (L + n)\<rparr>)"
  shows "heap_inv {} s' (bs @ [(L, n, False)]) (L # fs)" and "heap_env s'"
    and "kept (free_cells bs \<union> {L ..< L + n}) (mem s) (mem s')"
    and "resolve (ptab s') (current_pml4_phys s) (va_path va) = resolve (ptab s) (current_pml4_phys s) (va_path va)"
    and "s' = s\<lparr>mem := mem s', g_heap_curr := haddr (L + n), g_free_list := haddr L\<rparr>"
proof -
  let ?bs = "bs @ [(L, n, False)]" and ?C = "free_cells bs \<union> {L ..< L + n}"
  obtain M where M: "chain 0 bs M" "M \<le> HEAP_CELLS" "512 dvd M" "g_heap_curr s = haddr M" by (rule heap_invD [OF inv])
  have LM: "M = L" using haddr_inj [OF M(2), of L] M(4) L by simp
  note nb = new_block_mem [OF L(2) n(1), where m = "mem s", folded m2_def, folded m3_def]
  define s2 where "s2 = s\<lparr>mem := m3, g_heap_curr := haddr (L + n)\<rparr>"
  have inv2: "heap_inv {L} s2 ?bs fs"
    unfolding s2_def by (rule heap_inv_append [OF inv M(1,3) [unfolded LM] L(2) n nb])
  have b: "(L, n, False) \<in> set ?bs" "L \<in> {L}" by simp_all
  note push = fl_push_inv [OF inv2 b]
  show inv': "heap_inv {} s' ?bs (L # fs)" using push(1) by (simp add: s'_def s2_def)
  have fc: "free_cells ?bs = ?C" by (simp add: free_cells_append free_cells_Cons)
  have mod: "modifies ?C (mem s) (mem s')"
  proof (rule modifies_trans [OF nb(1)])
    show "modifies (links (free_starts ?bs)) m3 (mem s')" using push(2) by (simp add: s'_def s2_def)
    show "links (free_starts ?bs) \<subseteq> ?C" using links_free_cells [OF inv2] fc by simp
  qed simp
  have sub: "?C \<subseteq> {..<HEAP_CELLS}" using free_cells_bound [OF inv'] fc by simp
  show s': "s' = s\<lparr>mem := mem s', g_heap_curr := haddr (L + n), g_free_list := haddr L\<rparr>"
    unfolding s'_def by (simp add: fl_push_def Let_def)
  note env' = heap_env_mem [OF env mod sub]
  show "heap_env s'" using env'(1) by (subst s') simp
  show "kept ?C (mem s) (mem s')" by (rule modifies_kept [OF mod sub])
  show "resolve (ptab s') (current_pml4_phys s) (va_path va) = resolve (ptab s) (current_pml4_phys s) (va_path va)"
    by (rule env'(2))
qed

lemma hpage_align:
  assumes "j \<le> HEAP_PAGES" shows "ALIGN_UP (hpage j) PAGE_SIZE = hpage j"
proof -
  have "unat (ALIGN_UP (hpage j) 4096) = unat (hpage j)"
    using unat_hpage [OF assms] assms unat_ALIGN_UP_4096 [of "hpage j"] by simp
  then show ?thesis by (simp add: PAGE_SIZE_def word_unat_eq_iff)
qed

lemma hpage_limit: "j \<le> HEAP_PAGES \<Longrightarrow> \<not> HEAP_LIMIT < hpage j"
  using unat_hpage [of j] by (simp add: HEAP_LIMIT_def HEAP_BASE_def word_less_nat_alt)

lemma heap_map_more_run:
  assumes inv: "heap_inv {} s bs fs" and env: "heap_env s" and j: "g_heap_curr s = hpage j" "j + n \<le> HEAP_PAGES" "0 < n"
    and need: "ALIGN_UP bytes PAGE_SIZE = of_nat (8 * (512 * n))" and left: "frames_left (4 * n + k) s"
  shows "\<exists>s'. heap_map_more bytes s = Done s' \<and> grown j n bs fs s s' \<and> frames_left k s'"
proof -
  let ?r = "current_pml4_phys s" and ?L = "512 * j" and ?n = "512 * n"
  have start: "ALIGN_UP (g_heap_curr s) PAGE_SIZE = haddr ?L"
    using hpage_align [of j] j(1,2) by (simp add: hpage_def)
  have fin: "haddr ?L + of_nat (8 * ?n) = haddr (?L + ?n)" by (rule haddr_plus)
  have hp: "hpage j = haddr ?L" "hpage (j + n) = haddr (?L + ?n)" by (simp_all add: hpage_def algebra_simps)
  have lim: "\<not> haddr (?L + ?n) > HEAP_LIMIT" using hpage_limit [OF j(2)] hp by simp
  have fuel: "n < 2 ^ 52 + 1" using j(2) by simp
  from map_pages [OF env left refl j(2) fuel] obtain s1 where
    w: "while_outcome (2 ^ 52 + 1) (\<lambda>(va, s). va < haddr (?L + ?n)) (map_heap_page ?r) (haddr ?L, s) = Done (haddr (?L + ?n), s1)"
    and s1: "heap_env s1" "frames_left k s1" "paging_only s s1" "kept {} (mem s) (mem s1)" "backed ?r j n s s1"
    unfolding hp by blast
  have f: "g_heap_curr s1 = g_heap_curr s" "g_free_list s1 = g_free_list s" "g_heap_lock s1 = g_heap_lock s" "cr3 s1 = cr3 s"
    using s1(3) by (auto simp: paging_only_def)
  have inv1: "heap_inv {} s1 bs fs" by (rule heap_inv_kept [OF inv s1(4) f(1,2)])
  have bnd: "g_heap_curr s1 = haddr ?L" "?L + ?n \<le> HEAP_CELLS" "6 \<le> ?n" "512 dvd ?n" using j f hp by simp_all
  define m2 where "m2 = set_prev_free (haddr ?L) 0 (set_next_free (haddr ?L) 0 (store64 (mem s1) (haddr ?L) (of_nat (8 * ?n))))"
  define m3 where "m3 = store64 m2 (FOOTER_OF m2 (haddr ?L)) (of_nat (8 * ?n))"
  define s3 where "s3 = fl_push (haddr ?L) (s1\<lparr>mem := m3, g_heap_curr := haddr (?L + ?n)\<rparr>)"
  note ab = add_block [OF inv1 s1(1) bnd, folded m2_def, folded m3_def, folded s3_def]
  have d: "haddr (?L + ?n) - haddr ?L = of_nat (8 * ?n)" unfolding fin [symmetric] by simp
  have run: "heap_map_more bytes s = Done s3"
    unfolding heap_map_more_def Let_def start need fin w bind_outcome.simps d prod.case fl_push_curr
    using lim by (simp add: s3_def m3_def m2_def del: of_nat_mult)
  have r1: "current_pml4_phys s1 = ?r" using f(4) by (simp add: current_pml4_phys_def)
  have "kept (free_cells bs \<union> {?L ..< ?L + ?n}) (mem s) (mem s3)" by (rule kept_trans [OF s1(4) ab(3)]) simp_all
  moreover have "supplied s3 = supplied s1" "frames_left k s3" using s1(2) by (subst ab(5), simp)+
  moreover have "backed ?r j n s s3" by (rule backed_same [OF s1(5) calculation(2)]) (use ab(4) r1 in simp)
  moreover have "g_heap_lock s3 = g_heap_lock s" "cr3 s3 = cr3 s" using f by (simp_all add: s3_def fl_push_fields(1-3))
  ultimately show ?thesis using run ab(1,2) unfolding grown_def add_mult_distrib2 by blast
qed

end
