(* ===== verification/Heap_Ops.thy ===== *)
theory Heap_Ops
  imports Heap_Growth
begin

text \<open>
  The public operations of \<open>kmalloc.c\<close> on a well-formed heap: \<open>kmalloc_init\<close>, \<open>kmalloc\<close>, \<open>kfree\<close> and
  \<open>krealloc\<close>, with the contract they give to their callers as a locale and the properties of the
  allocator.
\<close>

section \<open>A well-formed heap\<close>

definition heap_mapped :: "'a heap_state_scheme \<Rightarrow> bool" where
  "heap_mapped s \<longleftrightarrow> (\<forall>j < HEAP_PAGES. hpage j < g_heap_curr s \<longrightarrow>
     (\<exists>p. valid_frame p \<and> resolve (ptab s) (current_pml4_phys s) (va_path (hpage j)) = Some (leaf_entry p, 0)))"

definition heap_ok :: "'a heap_state_scheme \<Rightarrow> block list \<Rightarrow> bool" where
  "heap_ok s bs \<longleftrightarrow> (\<exists>fs. heap_inv {} s bs fs) \<and> heap_env s \<and> heap_mapped s \<and> \<not> g_heap_lock s"

definition alloc_cells :: "block list \<Rightarrow> nat set" where
  "alloc_cells bs = {c. \<exists>i n. (i, n, True) \<in> set bs \<and> i \<le> c \<and> c < i + n}"

lemma free_alloc_cells:
  assumes "heap_inv X s bs fs" shows "free_cells bs \<inter> alloc_cells bs = {}"
proof -
  obtain L where L: "chain 0 bs L" by (rule heap_invD [OF assms])
  have "False" if "(i, n, False) \<in> set bs" "(j, k, True) \<in> set bs" "i \<le> c" "c < i + n" "j \<le> c" "c < j + k" for i n j k c
    using chain_disjoint [OF L that(1,2)] that by auto
  then show ?thesis unfolding free_cells_def alloc_cells_def by blast
qed

lemma heap_mapped_mem:
  assumes env: "heap_env s" and map: "heap_mapped s" and m: "modifies C (mem s) m" "C \<subseteq> {..<HEAP_CELLS}"
  shows "heap_mapped (s\<lparr>mem := m\<rparr>)"
  using map heap_env_mem(2) [OF env m] by (simp add: heap_mapped_def current_pml4_phys_def)

lemma heap_mapped_heap [simp]:
  "heap_mapped (s\<lparr>g_free_list := f\<rparr>) = heap_mapped s" "heap_mapped (s\<lparr>g_heap_lock := l\<rparr>) = heap_mapped s"
  by (simp_all add: heap_mapped_def current_pml4_phys_def)

text \<open>An operation that writes heap cells only, and moves the list head, keeps everything but the block list.\<close>
lemma heap_ok_step:
  assumes env: "heap_env s" "heap_mapped s" and inv: "heap_inv {} s' bs' fs'"
    and s': "s' = s\<lparr>mem := m, g_free_list := f, g_heap_lock := False\<rparr>"
    and m: "modifies C (mem s) m" "C \<subseteq> {..<HEAP_CELLS}"
  shows "heap_ok s' bs'"
proof -
  have "heap_env s'" "heap_mapped s'"
    using heap_env_mem(1) [OF env(1) m] heap_mapped_mem [OF env m] by (simp_all add: s')
  then show ?thesis unfolding heap_ok_def using inv by (auto simp: s')
qed

lemma grown_mapped:
  assumes "grown j n bs fs s s'" and "heap_mapped s" and "g_heap_curr s = hpage j" and "j + n \<le> HEAP_PAGES"
  shows "heap_mapped s'"
proof -
  let ?r = "current_pml4_phys s"
  have r: "current_pml4_phys s' = ?r" using assms(1) by (simp add: grown_def current_pml4_phys_def)
  have b: "backed ?r j n s s'" and inv: "heap_inv {} s' (bs @ [(512 * j, 512 * n, False)]) (512 * j # fs)"
    using assms(1) by (simp_all add: grown_def)
  obtain L where "chain 0 (bs @ [(512 * j, 512 * n, False)]) L" "g_heap_curr s' = haddr L" by (rule heap_invD [OF inv])
  then have curr: "g_heap_curr s' = hpage (j + n)" by (auto simp: chain_append hpage_def algebra_simps)
  have "\<exists>p. valid_frame p \<and> resolve (ptab s') ?r (va_path (hpage i)) = Some (leaf_entry p, 0)" if i: "i < j + n" for i
  proof (cases "i < j")
    case True
    have "va_path (hpage i) \<noteq> va_path (hpage (j + k))" if "k < n" for k
      using hpage_path [of i "j + k"] True that assms(4) by simp
    then have "resolve (ptab s') ?r (va_path (hpage i)) = resolve (ptab s) ?r (va_path (hpage i))"
      using b by (simp add: backed_def)
    then show ?thesis using assms(2,3,4) True hpage_less [of i j] by (simp add: heap_mapped_def)
  next
    case False
    then obtain k where "i = j + k" "k < n" using i by (metis less_add_eq_less nat_le_iff_add not_less add.commute add_less_cancel_left)
    then show ?thesis using b by (auto simp: backed_def)
  qed
  then show ?thesis using assms(4) hpage_less [of _ "j + n"] by (simp add: heap_mapped_def r curr)
qed

section \<open>kmalloc\<close>

definition grow_pages :: "u64 \<Rightarrow> nat" where
  "grow_pages sz = max 128 ((unat (total_size_for_payload sz) + 4095) div 4096)"

text \<open>A request can be served: it is not absurdly large, and either the free list has a block for it or
  the heap window and the frame allocator have the pages to grow by.\<close>

definition heap_room :: "u64 \<Rightarrow> 'a heap_state_scheme \<Rightarrow> bool" where
  "heap_room sz s \<longleftrightarrow> unat sz + 80 < 2 ^ 64 \<and>
     (fl_find_fit sz s \<noteq> Done 0 \<or>
      unat (g_heap_curr s) + grow_pages sz * 4096 \<le> unat HEAP_LIMIT \<and> 4 * grow_pages sz \<le> g_free_count s)"

definition new_block :: "u64 \<Rightarrow> block list \<Rightarrow> nat \<Rightarrow> 'a heap_state_scheme \<Rightarrow> 'a heap_state_scheme \<Rightarrow> bool" where
  "new_block sz bs i s s' \<longleftrightarrow> (\<exists>n bs'. heap_ok s' bs' \<and> allocs bs' = insert (i, n) (allocs bs) \<and>
     (\<forall>k. (i, k) \<notin> allocs bs) \<and> unat sz + 40 \<le> 8 * n \<and> kept (- alloc_cells bs) (mem s) (mem s'))"

lemma allocs_carve: "k \<le> n \<Longrightarrow> \<exists>w. k \<le> w \<and> allocs (as @ carve i n k @ cs) = insert (i, w) (allocs (as @ [(i, n, False)] @ cs))"
  by (cases "k + 10 \<le> n") (auto simp: carve_def)

lemma take_block:
  assumes inv: "heap_inv {} s bs fs" and env: "heap_env s" "heap_mapped s" and b: "(i, n, False) \<in> set bs"
    and need: "total_size_for_payload sz = of_nat (8 * k)" "even k" "6 \<le> k" "k \<le> n" "unat sz + 40 \<le> 8 * k"
  obtains s' where "allocate_from_block (haddr i) sz s = (haddr i, s')"
    "new_block sz bs i s (s'\<lparr>g_heap_lock := False\<rparr>)"
proof -
  obtain as cs s' where run: "allocate_from_block (haddr i) sz s = (haddr i, s')" and bs: "bs = as @ [(i, n, False)] @ cs"
    and inv': "\<exists>fs'. heap_inv {} s' (as @ carve i n k @ cs) fs'"
    and mod: "modifies (free_cells bs) (mem s) (mem s')" and only: "heap_only s s'"
    by (rule allocate_from_block_inv [OF inv b need(1,3,2,4)])
  obtain fs' where fs': "heap_inv {} (s'\<lparr>g_heap_lock := False\<rparr>) (as @ carve i n k @ cs) fs'" using inv' by auto
  obtain f where s': "s'\<lparr>g_heap_lock := False\<rparr> = s\<lparr>mem := mem s', g_free_list := f, g_heap_lock := False\<rparr>"
    using only by (auto simp: heap_only_def)
  have ok: "heap_ok (s'\<lparr>g_heap_lock := False\<rparr>) (as @ carve i n k @ cs)"
    by (rule heap_ok_step [OF env fs' s' mod free_cells_bound [OF inv]])
  obtain w where w: "k \<le> w" "allocs (as @ carve i n k @ cs) = insert (i, w) (allocs bs)"
    using allocs_carve [OF need(4), of as i cs] bs by auto
  obtain L where L: "chain 0 bs L" by (rule heap_invD [OF inv])
  have fresh: "(i, v) \<notin> allocs bs" for v using chain_start_unique [OF L b, of v True] by (auto simp: allocs_def)
  have "kept (- alloc_cells bs) (mem s) (mem s')"
    by (rule kept_mono [OF modifies_kept [OF mod free_cells_bound [OF inv]]]) (use free_alloc_cells [OF inv] in blast)
  then have "new_block sz bs i s (s'\<lparr>g_heap_lock := False\<rparr>)"
    unfolding new_block_def using ok w fresh need(5) by (intro exI [of _ w] exI [of _ "as @ carve i n k @ cs"]) auto
  then show thesis using that run by blast
qed

lemma grow_amount:
  assumes k: "total_size_for_payload sz = of_nat (8 * k)" "8 * k + 4096 < 2 ^ 64"
  defines "grow \<equiv> (if total_size_for_payload sz < 128 * PAGE_SIZE then 128 * PAGE_SIZE else total_size_for_payload sz)"
  shows "ALIGN_UP grow PAGE_SIZE = of_nat (8 * (512 * grow_pages sz))" and "k \<le> 512 * grow_pages sz" and "0 < grow_pages sz"
proof -
  have t: "unat (total_size_for_payload sz) = 8 * k"
    using k(2) unfolding k(1) unsigned_of_nat take_bit_eq_mod by simp
  define q where "q = (8 * k + 4095) div 4096"
  have q: "8 * k \<le> 4096 * q" "4096 * q \<le> 8 * k + 4095"
    using div_mult_mod_eq [of "8 * k + 4095" 4096] mod_less_divisor [of 4096 "8 * k + 4095"] by (simp_all add: q_def)
  have gp: "grow_pages sz = max 128 q" by (simp add: grow_pages_def t q_def)
  show "k \<le> 512 * grow_pages sz" "0 < grow_pages sz" using q by (simp_all add: gp)
  have "unat grow + 4095 < 2 ^ 64 \<and> (unat grow + 4095) div 4096 = max 128 q"
  proof (cases "total_size_for_payload sz < 128 * PAGE_SIZE")
    case True
    then have "8 * k < 524288" using t by (simp add: word_less_nat_alt PAGE_SIZE_def)
    then have "q < 129" by (simp add: q_def div_less_iff_less_mult)
    with True show ?thesis by (simp add: grow_def PAGE_SIZE_def)
  next
    case False
    then have "524288 \<le> 8 * k" using t by (simp add: word_less_nat_alt PAGE_SIZE_def)
    then have "128 \<le> q" using q by simp
    with False show ?thesis using t k(2) by (simp add: grow_def q_def)
  qed
  then have "unat (ALIGN_UP grow PAGE_SIZE) = 4096 * grow_pages sz"
    using unat_ALIGN_UP_4096 [of grow] by (simp add: PAGE_SIZE_def gp)
  moreover have "ALIGN_UP grow PAGE_SIZE = of_nat (unat (ALIGN_UP grow PAGE_SIZE))" by simp
  ultimately have "ALIGN_UP grow PAGE_SIZE = of_nat (4096 * grow_pages sz)" by metis
  then show "ALIGN_UP grow PAGE_SIZE = of_nat (8 * (512 * grow_pages sz))" by (simp add: mult.assoc [symmetric])
qed

lemma new_block_trans:
  assumes "new_block sz (bs @ [(L, n, False)]) i t u" and "kept C (mem s) (mem t)" and "C \<inter> alloc_cells bs = {}"
  shows "new_block sz bs i s u"
proof -
  have "allocs (bs @ [(L, n, False)]) = allocs bs" "alloc_cells (bs @ [(L, n, False)]) = alloc_cells bs"
    by (auto simp: alloc_cells_def)
  moreover have "kept (- alloc_cells bs) (mem s) (mem u)" if "kept (- alloc_cells bs) (mem t) (mem u)"
    by (rule kept_trans [OF assms(2) that]) (use assms(3) in blast)+
  ultimately show ?thesis using assms(1) by (auto simp: new_block_def)
qed

lemma kmalloc_grow:
  assumes inv: "heap_inv {} s bs fs" and env: "heap_env s" "heap_mapped s" and size: "unat sz + 80 < 2 ^ 64"
    and room: "unat (g_heap_curr s) + grow_pages sz * 4096 \<le> unat HEAP_LIMIT" "4 * grow_pages sz \<le> g_free_count s"
  defines "grow \<equiv> (if total_size_for_payload sz < 128 * PAGE_SIZE then 128 * PAGE_SIZE else total_size_for_payload sz)"
  obtains t i u where "heap_map_more grow s = Done t" "fl_find_fit sz t = Done (haddr i)" "haddr i \<noteq> 0"
    "allocate_from_block (haddr i) sz t = (haddr i, u)" "new_block sz bs i s (u\<lparr>g_heap_lock := False\<rparr>)"
proof -
  obtain k where k: "total_size_for_payload sz = of_nat (8 * k)" "even k" "unat sz + 40 \<le> 8 * k" "8 * k < unat sz + 64" "6 \<le> k" "k < 2 ^ 61"
    by (rule total_size_cells [OF size])
  obtain L where L: "chain 0 bs L" "L \<le> HEAP_CELLS" "512 dvd L" "g_heap_curr s = haddr L" by (rule heap_invD [OF inv])
  then obtain j where j: "L = 512 * j" by (auto elim: dvdE)
  let ?n = "grow_pages sz"
  have curr: "g_heap_curr s = hpage j" using L(4) j by (simp add: hpage_def)
  have jn: "j + ?n \<le> HEAP_PAGES"
    using room(1) unat_haddr [OF L(2)] L(4) j by (simp add: HEAP_LIMIT_def HEAP_BASE_def)
  have "8 * k + 4096 < 2 ^ 64"
  proof -
    have t: "unat (total_size_for_payload sz) = 8 * k"
      using k(6) unfolding k(1) unsigned_of_nat take_bit_eq_mod by simp
    have "(8 * k + 4095) div 4096 < HEAP_PAGES + 1" using jn by (simp add: grow_pages_def t)
    then show ?thesis by (simp add: div_less_iff_less_mult)
  qed
  note ga = grow_amount [OF k(1) this, folded grow_def]
  have left: "frames_left (4 * ?n + 0) s" using room(2) env(1) by (simp add: frames_left_def heap_env_def)
  from heap_map_more_run [OF inv env(1) curr jn ga(3,1) left] obtain t where
    t: "heap_map_more grow s = Done t" and g: "grown j ?n bs fs s t" by blast
  let ?bs = "bs @ [(512 * j, 512 * ?n, False)]"
  have invt: "heap_inv {} t ?bs (512 * j # fs)" and envt: "heap_env t" using g by (simp_all add: grown_def)
  have mapt: "heap_mapped t" by (rule grown_mapped [OF g env(2) curr jn])
  obtain r where r: "fl_find_fit sz t = Done r"
    "r = 0 \<and> (\<forall>i n. (i, n, False) \<in> set ?bs \<longrightarrow> i \<notin> {} \<longrightarrow> n < k) \<or>
     (\<exists>i n. r = haddr i \<and> r \<noteq> 0 \<and> (i, n, False) \<in> set ?bs \<and> i \<notin> {} \<and> k \<le> n)"
    by (rule fl_find_fit_run [OF invt k(1,6)])
  have "\<not> 512 * ?n < k" using ga(2) by simp
  with r(2) obtain i n where i: "r = haddr i" "r \<noteq> 0" "(i, n, False) \<in> set ?bs" "k \<le> n" by auto
  obtain u where u: "allocate_from_block (haddr i) sz t = (haddr i, u)" "new_block sz ?bs i t (u\<lparr>g_heap_lock := False\<rparr>)"
    by (rule take_block [OF invt envt mapt i(3) k(1,2,5) i(4) k(3)])
  have kp: "kept (free_cells bs \<union> {512 * j ..< 512 * (j + ?n)}) (mem s) (mem t)" using g by (simp add: grown_def)
  have "(free_cells bs \<union> {512 * j ..< 512 * (j + ?n)}) \<inter> alloc_cells bs = {}"
    using free_alloc_cells [OF inv] chain_mem [OF L(1)] j by (fastforce simp: alloc_cells_def)
  with new_block_trans [OF u(2) kp] have "new_block sz bs i s (u\<lparr>g_heap_lock := False\<rparr>)" by simp
  with t r(1) i u(1) show thesis by (intro that) simp_all
qed

lemma fl_find_fit_lock: "fl_find_fit sz (s\<lparr>g_heap_lock := l\<rparr>) = fl_find_fit sz s"
  by (simp add: fl_find_fit_def Let_def)

lemma new_block_lock: "new_block sz bs i (s\<lparr>g_heap_lock := l\<rparr>) s' = new_block sz bs i s s'"
  by (simp add: new_block_def)

lemma kmalloc_run:
  assumes ok: "heap_ok s bs" and sz: "sz \<noteq> 0" and room: "heap_room sz s"
  shows "\<exists>i s'. kmalloc sz s = Done (haddr (i + 4), s') \<and> new_block sz bs i s s'"
proof -
  define t where "t = s\<lparr>g_heap_lock := True\<rparr>"
  from ok obtain fs where inv: "heap_inv {} t bs fs" and env: "heap_env t" "heap_mapped t" and lock: "\<not> g_heap_lock s"
    by (auto simp: heap_ok_def t_def)
  have size: "unat sz + 80 < 2 ^ 64" using room by (simp add: heap_room_def)
  have fit: "fl_find_fit sz t = fl_find_fit sz s" by (simp add: t_def fl_find_fit_lock)
  show ?thesis
  proof (cases "fl_find_fit sz s = Done 0")
    case True
    have rm: "unat (g_heap_curr t) + grow_pages sz * 4096 \<le> unat HEAP_LIMIT" "4 * grow_pages sz \<le> g_free_count t"
      using room True by (simp_all add: heap_room_def t_def)
    obtain t1 i u where
      "heap_map_more (if total_size_for_payload sz < 128 * PAGE_SIZE then 128 * PAGE_SIZE else total_size_for_payload sz) t = Done t1"
      "fl_find_fit sz t1 = Done (haddr i)" "haddr i \<noteq> 0" "allocate_from_block (haddr i) sz t1 = (haddr i, u)"
      and nb: "new_block sz bs i t (u\<lparr>g_heap_lock := False\<rparr>)"
      by (rule kmalloc_grow [OF inv env size rm])
    then have "kmalloc sz s = Done (haddr (i + 4), u\<lparr>g_heap_lock := False\<rparr>)"
      using sz lock True fit by (simp add: kmalloc_def spinlock_acquire_def Let_def t_def [symmetric] payload_ptr)
    moreover have "new_block sz bs i s (u\<lparr>g_heap_lock := False\<rparr>)" using nb by (simp add: t_def new_block_lock)
    ultimately show ?thesis by blast
  next
    case False
    obtain k where k: "total_size_for_payload sz = of_nat (8 * k)" "even k" "unat sz + 40 \<le> 8 * k" "8 * k < unat sz + 64" "6 \<le> k" "k < 2 ^ 61"
      by (rule total_size_cells [OF size])
    obtain r where r: "fl_find_fit sz t = Done r"
      "r = 0 \<and> (\<forall>i n. (i, n, False) \<in> set bs \<longrightarrow> i \<notin> {} \<longrightarrow> n < k) \<or>
       (\<exists>i n. r = haddr i \<and> r \<noteq> 0 \<and> (i, n, False) \<in> set bs \<and> i \<notin> {} \<and> k \<le> n)"
      by (rule fl_find_fit_run [OF inv k(1,6)])
    with False fit obtain i n where i: "r = haddr i" "r \<noteq> 0" "(i, n, False) \<in> set bs" "k \<le> n" by auto
    obtain u where u: "allocate_from_block (haddr i) sz t = (haddr i, u)" "new_block sz bs i t (u\<lparr>g_heap_lock := False\<rparr>)"
      by (rule take_block [OF inv env i(3) k(1,2,5) i(4) k(3)])
    then have "kmalloc sz s = Done (haddr (i + 4), u\<lparr>g_heap_lock := False\<rparr>)"
      using sz lock r(1) i by (simp add: kmalloc_def spinlock_acquire_def Let_def t_def [symmetric] payload_ptr)
    moreover have "new_block sz bs i s (u\<lparr>g_heap_lock := False\<rparr>)" using u(2) by (simp add: t_def new_block_lock)
    ultimately show ?thesis by blast
  qed
qed

section \<open>The contract of a memory allocator\<close>

definition in_block :: "u64 \<Rightarrow> nat \<Rightarrow> u64 \<Rightarrow> bool" where
  "in_block p n a \<longleftrightarrow> unat (a - p) < n"

text \<open>\<open>owns s B\<close>: in state \<open>s\<close> exactly the blocks \<open>B\<close> are handed out, each given by its address and
  its capacity. A caller may write anything into a block it owns.\<close>

locale block_service =
  fixes alloc :: "u64 \<Rightarrow> 's \<Rightarrow> (u64 \<times> 's) outcome" and release :: "u64 \<Rightarrow> 's \<Rightarrow> 's outcome"
    and owns :: "'s \<Rightarrow> (u64 \<times> nat) set \<Rightarrow> bool" and room :: "u64 \<Rightarrow> 's \<Rightarrow> bool"
    and get :: "'s \<Rightarrow> memory" and put :: "memory \<Rightarrow> 's \<Rightarrow> 's"
  assumes get_put: "get (put m s) = m" and put_put: "put m (put m' s) = put m s"
    and extent: "owns s B \<Longrightarrow> (p, n) \<in> B \<Longrightarrow> p \<noteq> 0 \<and> unat p + n < 2 ^ 64"
    and apart: "owns s B \<Longrightarrow> (p, n) \<in> B \<Longrightarrow> (q, k) \<in> B \<Longrightarrow> (p, n) \<noteq> (q, k) \<Longrightarrow> in_block p n a \<Longrightarrow> \<not> in_block q k a"
    and alloc_ok: "owns s B \<Longrightarrow> sz \<noteq> 0 \<Longrightarrow> room sz s \<Longrightarrow>
      \<exists>p n s'. alloc sz s = Done (p, s') \<and> owns s' (insert (p, n) B) \<and> (\<forall>k. (p, k) \<notin> B) \<and> unat sz \<le> n \<and>
        (\<forall>q k a. (q, k) \<in> B \<longrightarrow> in_block q k a \<longrightarrow> get s' a = get s a)"
    and release_ok: "owns s B \<Longrightarrow> (p, n) \<in> B \<Longrightarrow>
      \<exists>s'. release p s = Done s' \<and> owns s' (B - {(p, n)}) \<and>
        (\<forall>q k a. (q, k) \<in> B - {(p, n)} \<longrightarrow> in_block q k a \<longrightarrow> get s' a = get s a)"
    and write_ok: "owns s B \<Longrightarrow> (p, n) \<in> B \<Longrightarrow> (\<And>a. \<not> in_block p n a \<Longrightarrow> m a = get s a) \<Longrightarrow> owns (put m s) B"
begin

text \<open>Taking a block and giving it back leaves the other owners with what they had.\<close>
lemma alloc_release:
  assumes "owns s B" and "sz \<noteq> 0" and "room sz s"
  shows "\<exists>p s1 s2. alloc sz s = Done (p, s1) \<and> release p s1 = Done s2 \<and> owns s2 B \<and>
    (\<forall>q k a. (q, k) \<in> B \<longrightarrow> in_block q k a \<longrightarrow> get s2 a = get s a)"
proof -
  from alloc_ok [OF assms] obtain p n s1 where 1: "alloc sz s = Done (p, s1)" "owns s1 (insert (p, n) B)"
    "\<forall>k. (p, k) \<notin> B" "\<forall>q k a. (q, k) \<in> B \<longrightarrow> in_block q k a \<longrightarrow> get s1 a = get s a" by blast
  have B: "insert (p, n) B - {(p, n)} = B" using 1(3) by simp
  from release_ok [OF 1(2), of p n] B obtain s2 where "release p s1 = Done s2" "owns s2 B"
    "\<forall>q k a. (q, k) \<in> B \<longrightarrow> in_block q k a \<longrightarrow> get s2 a = get s1 a" by auto
  with 1 show ?thesis by auto
qed

text \<open>Writing into two owned blocks.\<close>
lemma write_two:
  assumes own: "owns s B" and b: "(p, n) \<in> B" "(q, k) \<in> B"
    and out: "\<And>a. \<not> in_block p n a \<Longrightarrow> \<not> in_block q k a \<Longrightarrow> m a = get s a"
  shows "owns (put m s) B"
proof -
  define m' where "m' = (\<lambda>a. if in_block p n a then m a else get s a)"
  have "owns (put m' s) B" by (rule write_ok [OF own b(1)]) (simp add: m'_def)
  then have "owns (put m (put m' s)) B" by (rule write_ok [OF _ b(2)]) (auto simp: get_put m'_def out)
  then show ?thesis by (simp add: put_put)
qed

text \<open>A block copied into an owned block that does not overlap it.\<close>
lemma copy_block:
  assumes own: "owns s B" and B: "(p, n) \<in> B" "(q, k) \<in> B" "(p, n) \<noteq> (q, k)" and n: "n \<le> k"
  shows "owns (put (memcpy (get s) q p (of_nat n)) s) B"
    and "d < n \<Longrightarrow> memcpy (get s) q p (of_nat n) (q + of_nat d) = get s (p + of_nat d)"
    and "\<not> in_block q k a \<Longrightarrow> memcpy (get s) q p (of_nat n) a = get s a"
proof -
  have un: "unat (of_nat n :: u64) = n"
    using extent [OF own B(1)] unfolding unsigned_of_nat take_bit_eq_mod by simp
  have small: "unat (of_nat i :: u64) = i" if "i < n" for i
    using extent [OF own B(1)] that unfolding unsigned_of_nat take_bit_eq_mod by simp
  have ne: "p + of_nat i \<noteq> q + of_nat j" if "i < unat (of_nat n :: u64)" "j < unat (of_nat n :: u64)" for i j
  proof
    assume e: "p + of_nat i = q + of_nat j"
    have "in_block p n (p + of_nat i)" "in_block q k (q + of_nat j)"
      using that n small by (simp_all add: in_block_def un)
    with apart [OF own B] e show False by simp
  qed
  have mc: "memcpy (get s) q p (of_nat n) x = (if x - q < of_nat n then get s (p + (x - q)) else get s x)" for x
    by (rule memcpy_apply [OF ne])
  show out: "memcpy (get s) q p (of_nat n) a = get s a" if "\<not> in_block q k a" for a
    using that n by (simp add: mc in_block_def word_less_nat_alt un)
  show "owns (put (memcpy (get s) q p (of_nat n)) s) B" by (rule write_ok [OF own B(2) out])
  show "memcpy (get s) q p (of_nat n) (q + of_nat d) = get s (p + of_nat d)" if "d < n"
    using that small by (simp add: mc word_less_nat_alt un)
qed

text \<open>Moving a block: allocate, copy, release. The bytes arrive, nobody else is touched.\<close>
lemma move_block:
  assumes own: "owns s B" and B: "(p, n) \<in> B" and sz: "sz \<noteq> 0" "room sz s" "n \<le> unat sz"
  shows "\<exists>q k s1 s2. alloc sz s = Done (q, s1) \<and> q \<noteq> 0 \<and> release p (put (memcpy (get s1) q p (of_nat n)) s1) = Done s2 \<and>
    owns s2 (insert (q, k) (B - {(p, n)})) \<and> unat sz \<le> k \<and> (\<forall>d < n. get s2 (q + of_nat d) = get s (p + of_nat d)) \<and>
    (\<forall>x y a. (x, y) \<in> B - {(p, n)} \<longrightarrow> in_block x y a \<longrightarrow> get s2 a = get s a)"
proof -
  from alloc_ok [OF own sz(1,2)] obtain q k s1 where 1: "alloc sz s = Done (q, s1)" "owns s1 (insert (q, k) B)"
    "\<forall>j. (q, j) \<notin> B" "unat sz \<le> k" "\<forall>x y a. (x, y) \<in> B \<longrightarrow> in_block x y a \<longrightarrow> get s1 a = get s a" by blast
  let ?m = "memcpy (get s1) q p (of_nat n)" and ?B = "insert (q, k) B"
  have in1: "(p, n) \<in> ?B" "(q, k) \<in> ?B" "(p, n) \<noteq> (q, k)" "n \<le> k" using B 1(3,4) sz(3) by auto
  note cp = copy_block [OF 1(2) in1]
  from release_ok [OF cp(1) in1(1)] obtain s2 where 2: "release p (put ?m s1) = Done s2" "owns s2 (?B - {(p, n)})"
    and k2: "\<And>x y a. (x, y) \<in> ?B - {(p, n)} \<Longrightarrow> in_block x y a \<Longrightarrow> get s2 a = ?m a" by (auto simp: get_put)
  have B2: "?B - {(p, n)} = insert (q, k) (B - {(p, n)})" using in1(3) by auto
  have "get s2 (q + of_nat d) = get s (p + of_nat d)" if d: "d < n" for d
  proof -
    have u: "unat (of_nat d :: u64) = d"
      using extent [OF own B] d unfolding unsigned_of_nat take_bit_eq_mod by simp
    have "in_block q k (q + of_nat d)" "in_block p n (p + of_nat d)" using d in1(4) u by (simp_all add: in_block_def)
    then show ?thesis using k2 [of q k] in1(3) cp(2) [OF d] 1(5) B by auto
  qed
  moreover have "get s2 a = get s a" if "(x, y) \<in> B - {(p, n)}" "in_block x y a" for x y a
  proof -
    have "(x, y) \<noteq> (q, k)" using that 1(3) by auto
    then have "\<not> in_block q k a" using apart [OF 1(2), of x y q k a] that by auto
    then show ?thesis using k2 [of x y a] cp(3) that 1(5) by auto
  qed
  ultimately show ?thesis using 1(1,4) 2 B2 extent [OF 1(2) in1(2)] by auto
qed

end

section \<open>The kernel heap gives this contract\<close>

definition payloads :: "block list \<Rightarrow> (u64 \<times> nat) set" where
  "payloads bs = (\<lambda>(i, n). (haddr (i + 4), 8 * (n - 5))) ` allocs bs"

definition heap_owns :: "'a heap_state_scheme \<Rightarrow> (u64 \<times> nat) set \<Rightarrow> bool" where
  "heap_owns s B \<longleftrightarrow> (\<exists>bs. heap_ok s bs \<and> B = payloads bs)"

lemma payload_cell:
  assumes "in_block (haddr (i + 4)) (8 * (n - 5)) a"
  obtains c where "i + 4 \<le> c" "c < i + n - 1" "a - haddr c < 8"
proof -
  define d where "d = unat (a - haddr (i + 4))"
  have d: "d < 8 * (n - 5)" using assms by (simp add: in_block_def d_def)
  define e where "e = d mod 8"
  have a: "a = haddr (i + 4) + of_nat d" by (simp add: d_def)
  have "of_nat d = (of_nat (8 * (d div 8)) + of_nat e :: u64)"
    unfolding of_nat_add [symmetric] e_def mult_div_mod_eq ..
  then have "a = haddr (i + 4 + d div 8) + of_nat e"
    unfolding haddr_plus [symmetric] a by (simp only: add.assoc)
  then have "a - haddr (i + 4 + d div 8) = of_nat e" by simp
  moreover have "(of_nat e :: u64) < 8"
  proof -
    have "e < 8" by (simp add: e_def)
    then show ?thesis unfolding word_less_nat_alt unsigned_of_nat take_bit_eq_mod by simp
  qed
  moreover have "i + 4 + d div 8 < i + n - 1"
  proof -
    have "d div 8 < n - 5" using d by (simp add: div_less_iff_less_mult mult.commute)
    then show ?thesis by simp
  qed
  ultimately show thesis by (intro that [of "i + 4 + d div 8"]) simp_all
qed

lemma payloadE:
  assumes "heap_ok s bs" and "(p, n) \<in> payloads bs"
  obtains i k where "p = haddr (i + 4)" "n = 8 * (k - 5)" "(i, k, True) \<in> set bs" "i + k \<le> HEAP_CELLS" "6 \<le> k" "even i"
proof -
  from assms(1) obtain fs where inv: "heap_inv {} s bs fs" by (auto simp: heap_ok_def)
  from assms(2) obtain i k where "(i, k, True) \<in> set bs" "p = haddr (i + 4)" "n = 8 * (k - 5)"
    by (auto simp: payloads_def allocs_def)
  with heap_block [OF inv this(1)] show thesis by (intro that [of i k]) simp_all
qed

lemma heap_chain: "heap_ok s bs \<Longrightarrow> \<exists>L. chain 0 bs L"
  by (auto simp: heap_ok_def heap_inv_def)

lemma payload_inj:
  assumes "heap_ok s bs" and "(i, n) \<in> allocs bs" "(j, k) \<in> allocs bs"
  shows "(haddr (i + 4), 8 * (n - 5)) = (haddr (j + 4), 8 * (k - 5)) \<longleftrightarrow> (i, n) = (j, k)"
proof -
  from assms(1) obtain fs where inv: "heap_inv {} s bs fs" by (auto simp: heap_ok_def)
  have b: "(i, n, True) \<in> set bs" "(j, k, True) \<in> set bs" using assms(2,3) by (simp_all add: allocs_def)
  note hb = heap_block [OF inv b(1)] heap_block [OF inv b(2)]
  have "haddr (i + 4) = haddr (j + 4) \<longleftrightarrow> i = j" using haddr_inj [of "i + 4" "j + 4"] hb by simp
  then show ?thesis using hb by auto
qed

lemma payload_apart:
  assumes ok: "heap_ok s bs" and B: "(p, n) \<in> payloads bs" "(q, k) \<in> payloads bs" "(p, n) \<noteq> (q, k)" and a: "in_block p n a"
  shows "\<not> in_block q k a"
proof
  assume b: "in_block q k a"
  obtain i u where i: "p = haddr (i + 4)" "n = 8 * (u - 5)" "(i, u, True) \<in> set bs" "i + u \<le> HEAP_CELLS" "6 \<le> u"
    by (rule payloadE [OF ok B(1)])
  obtain j v where j: "q = haddr (j + 4)" "k = 8 * (v - 5)" "(j, v, True) \<in> set bs" "j + v \<le> HEAP_CELLS" "6 \<le> v"
    by (rule payloadE [OF ok B(2)])
  obtain c where c: "i + 4 \<le> c" "c < i + u - 1" "a - haddr c < 8" by (rule payload_cell [OF a [unfolded i(1,2)]])
  obtain d where d: "j + 4 \<le> d" "d < j + v - 1" "a - haddr d < 8" by (rule payload_cell [OF b [unfolded j(1,2)]])
  have cc: "c < HEAP_CELLS" "d < HEAP_CELLS" using c d i(4) j(4) by linarith+
  have cd: "c = d" using unat_in_cell [OF cc(1) c(3)] unat_in_cell [OF cc(2) d(3)] by linarith
  obtain L where L: "chain 0 bs L" using heap_chain [OF ok] by blast
  from chain_disjoint [OF L i(3) j(3)] B(3) i j have "i + u \<le> j \<or> j + v \<le> i" by auto
  with c d cd show False by linarith
qed

lemma kept_payload:
  assumes ok: "heap_ok s bs" and B: "(p, n) \<in> payloads bs" and k: "kept C (mem s) m"
    and C: "\<And>i v. p = haddr (i + 4) \<Longrightarrow> (i, v, True) \<in> set bs \<Longrightarrow> n = 8 * (v - 5) \<Longrightarrow> C \<inter> {i ..< i + v} = {}" and a: "in_block p n a"
  shows "m a = mem s a"
proof -
  obtain i v where i: "p = haddr (i + 4)" "n = 8 * (v - 5)" "(i, v, True) \<in> set bs" "i + v \<le> HEAP_CELLS"
    by (rule payloadE [OF ok B])
  obtain c where c: "i + 4 \<le> c" "c < i + v - 1" "a - haddr c < 8" by (rule payload_cell [OF a [unfolded i(1,2)]])
  have "c \<notin> C" using C [OF i(1,3,2)] c by auto
  moreover have "c < HEAP_CELLS" using c i(4) by linarith
  ultimately show ?thesis using k c(3) by (simp add: kept_def)
qed

lemma payload_write:
  assumes ok: "heap_ok s bs" and B: "(p, n) \<in> payloads bs" and m: "\<And>a. \<not> in_block p n a \<Longrightarrow> m a = mem s a"
  shows "heap_ok (s\<lparr>mem := m\<rparr>) bs"
proof -
  from ok obtain fs where inv: "heap_inv {} s bs fs" and env: "heap_env s" "heap_mapped s" "\<not> g_heap_lock s"
    by (auto simp: heap_ok_def)
  obtain i v where i: "p = haddr (i + 4)" "n = 8 * (v - 5)" "(i, v, True) \<in> set bs" "i + v \<le> HEAP_CELLS"
    by (rule payloadE [OF ok B])
  let ?C = "{i + 4 ..< i + v - 1}"
  have mod: "modifies ?C (mem s) m"
    unfolding modifies_def
  proof (intro allI impI m notI)
    fix a assume no: "\<forall>c \<in> ?C. \<not> a - haddr c < 8" and a: "in_block p n a"
    obtain c where "i + 4 \<le> c" "c < i + v - 1" "a - haddr c < 8" by (rule payload_cell [OF a [unfolded i(1,2)]])
    with no show False by simp
  qed
  have sub: "?C \<subseteq> {..<HEAP_CELLS}" using i(4) by auto
  obtain as cs L where bs: "bs = as @ [(i, v, True)] @ cs" and as: "chain 0 as i" and cs: "chain (i + v) cs L"
    by (rule heap_split [OF inv i(3)])
  note hb = heap_block [OF inv i(3)]
  have one: "chain i [(i, v, True)] (i + v)" using hb by simp
  have out: "set fs \<inter> {i ..< i + v} = {}"
    by (rule starts_outside [OF inv [unfolded bs] as one cs]) (simp add: free_starts_Cons)
  have "hcell m i = tag v True" "hcell m (i + v - 1) = tag v True"
    using hb modifies_cell [OF mod sub] by simp_all
  then have "heap_inv {} (s\<lparr>mem := m\<rparr>) (as @ [(i, v, True)] @ cs) fs"
    by (intro heap_inv_retag [OF inv [unfolded bs] as one one mod _ out]) (use set_fs [OF inv] bs in auto)
  then show ?thesis
    unfolding heap_ok_def bs [symmetric] using env heap_env_mem(1) [OF env(1) mod sub] heap_mapped_mem [OF env(1,2) mod sub] by auto
qed

lemma alloc_cells_block: "(i, v, True) \<in> set bs \<Longrightarrow> {i ..< i + v} \<subseteq> alloc_cells bs"
  unfolding alloc_cells_def by (simp add: subset_iff) blast

lemma kmalloc_service:
  assumes ok: "heap_ok s bs" and sz: "sz \<noteq> 0" "heap_room sz s"
  shows "\<exists>p n s'. kmalloc sz s = Done (p, s') \<and> heap_owns s' (insert (p, n) (payloads bs)) \<and>
    (\<forall>k. (p, k) \<notin> payloads bs) \<and> unat sz \<le> n \<and>
    (\<forall>q k a. (q, k) \<in> payloads bs \<longrightarrow> in_block q k a \<longrightarrow> mem s' a = mem s a)"
proof -
  from kmalloc_run [OF assms] obtain i s' where run: "kmalloc sz s = Done (haddr (i + 4), s')" and nb: "new_block sz bs i s s'"
    by blast
  from nb obtain n bs' where ok': "heap_ok s' bs'" and al: "allocs bs' = insert (i, n) (allocs bs)"
    and fresh: "\<And>k. (i, k) \<notin> allocs bs" and n: "unat sz + 40 \<le> 8 * n" and kp: "kept (- alloc_cells bs) (mem s) (mem s')"
    unfolding new_block_def by blast
  from ok' obtain fs where inv': "heap_inv {} s' bs' fs" by (auto simp: heap_ok_def)
  have "(i, n, True) \<in> set bs'" using al by (auto simp: allocs_def)
  note hb = heap_block [OF inv' this]
  have "(haddr (i + 4), k) \<notin> payloads bs" for k
  proof
    assume "(haddr (i + 4), k) \<in> payloads bs"
    then obtain j v where j: "haddr (i + 4) = haddr (j + 4)" "(j, v, True) \<in> set bs" "j + v \<le> HEAP_CELLS" "6 \<le> v"
      by (rule payloadE [OF ok])
    then have "i = j" using haddr_inj [of "i + 4" "j + 4"] hb by simp
    with j(2) fresh show False by (auto simp: allocs_def)
  qed
  moreover have "heap_owns s' (insert (haddr (i + 4), 8 * (n - 5)) (payloads bs))"
    unfolding heap_owns_def using ok' by (intro exI [of _ bs']) (simp add: payloads_def al)
  moreover have "unat sz \<le> 8 * (n - 5)" using n by simp
  moreover have "mem s' a = mem s a" if "(q, k) \<in> payloads bs" "in_block q k a" for q k a
    by (rule kept_payload [OF ok that(1) kp _ that(2)]) (use alloc_cells_block in blast)
  ultimately show ?thesis using run by blast
qed

lemma kfree_service:
  assumes ok: "heap_ok s bs" and B: "(p, n) \<in> payloads bs"
  shows "\<exists>s'. kfree p s = Done s' \<and> heap_owns s' (payloads bs - {(p, n)}) \<and> \<not> IS_ALLOC (mem s') (p - HDR_SIZE) \<and>
    \<not> g_heap_lock s' \<and> (\<forall>q k a. (q, k) \<in> payloads bs - {(p, n)} \<longrightarrow> in_block q k a \<longrightarrow> mem s' a = mem s a)"
proof -
  obtain i v where i: "p = haddr (i + 4)" "n = 8 * (v - 5)" "(i, v, True) \<in> set bs" "i + v \<le> HEAP_CELLS"
    by (rule payloadE [OF ok B])
  from ok obtain fs where inv: "heap_inv {} s bs fs" and env: "heap_env s" "heap_mapped s" "\<not> g_heap_lock s"
    by (auto simp: heap_ok_def)
  from kfree_run [OF inv i(3) env(3)] obtain s' where run: "kfree p s = Done s'" and fr: "freed bs i v s s'"
    by (auto simp: i(1))
  let ?C = "free_cells bs \<union> {i ..< i + v}"
  from fr obtain bs' fs' m f where inv': "heap_inv {} s' bs' fs'" and al: "allocs bs' = allocs bs - {(i, v)}"
    and na: "\<not> IS_ALLOC (mem s') (haddr i)" and mod: "modifies ?C (mem s) (mem s')"
    and s': "s' = s\<lparr>mem := m, g_free_list := f, g_heap_lock := False\<rparr>" by (auto simp: freed_def)
  have sub: "?C \<subseteq> {..<HEAP_CELLS}" using free_cells_bound [OF inv] i(4) by auto
  have mod': "modifies ?C (mem s) m" using mod s' by simp
  have ok': "heap_ok s' bs'" by (rule heap_ok_step [OF env(1,2) inv' s' mod' sub])
  have "(i, v) \<in> allocs bs" using i(3) by (simp add: allocs_def)
  then have pl: "payloads bs' = payloads bs - {(p, n)}"
    using payload_inj [OF ok] unfolding payloads_def al i(1,2) by fastforce
  have "mem s' a = mem s a" if q: "(q, k) \<in> payloads bs - {(p, n)}" "in_block q k a" for q k a
  proof (rule kept_payload [OF ok _ modifies_kept [OF mod sub] _ q(2)])
    fix j w assume j: "q = haddr (j + 4)" "(j, w, True) \<in> set bs" "k = 8 * (w - 5)"
    obtain L where L: "chain 0 bs L" using heap_chain [OF ok] by blast
    have "(j, w) \<noteq> (i, v)" using q(1) i j by auto
    then have "i + v \<le> j \<or> j + w \<le> i" using chain_disjoint [OF L i(3) j(2)] by auto
    then have "{i ..< i + v} \<inter> {j ..< j + w} = {}" by auto
    moreover have "{j ..< j + w} \<subseteq> alloc_cells bs" by (rule alloc_cells_block [OF j(2)])
    ultimately show "?C \<inter> {j ..< j + w} = {}" using free_alloc_cells [OF inv] by blast
  qed (use q in simp)
  moreover have "heap_owns s' (payloads bs - {(p, n)})" unfolding heap_owns_def using ok' pl by metis
  moreover have "\<not> IS_ALLOC (mem s') (p - HDR_SIZE)" using na by (simp add: i(1) payload_ptr)
  ultimately show ?thesis using run s' by simp
qed

interpretation kheap: block_service kmalloc kfree heap_owns heap_room mem "\<lambda>m s. s\<lparr>mem := m\<rparr>"
proof unfold_locales
  fix m m' and s :: "'a heap_state_scheme"
  show "mem (s\<lparr>mem := m\<rparr>) = m" "s\<lparr>mem := m'\<rparr>\<lparr>mem := m\<rparr> = s\<lparr>mem := m\<rparr>" by simp_all
next
  fix s :: "'a heap_state_scheme" and B p n
  assume "heap_owns s B" "(p, n) \<in> B"
  then obtain bs where ok: "heap_ok s bs" and B: "(p, n) \<in> payloads bs" by (auto simp: heap_owns_def)
  obtain i k where i: "p = haddr (i + 4)" "n = 8 * (k - 5)" "i + k \<le> HEAP_CELLS" "6 \<le> k" by (rule payloadE [OF ok B])
  then show "p \<noteq> 0 \<and> unat p + n < 2 ^ 64" using haddr_nonzero [of "i + 4"] unat_haddr [of "i + 4"] by simp
next
  fix s :: "'a heap_state_scheme" and B p n q k a
  assume o: "heap_owns s B" and b: "(p, n) \<in> B" "(q, k) \<in> B" "(p, n) \<noteq> (q, k)" "in_block p n a"
  from o obtain bs where "heap_ok s bs" "B = payloads bs" by (auto simp: heap_owns_def)
  with b show "\<not> in_block q k a" by (intro payload_apart [of s bs p n q k a]) simp_all
next
  fix s :: "'a heap_state_scheme" and B sz
  assume o: "heap_owns s B" and z: "sz \<noteq> 0" "heap_room sz s"
  from o obtain bs where "heap_ok s bs" "B = payloads bs" by (auto simp: heap_owns_def)
  with z kmalloc_service [of s bs sz] show "\<exists>p n s'. kmalloc sz s = Done (p, s') \<and> heap_owns s' (insert (p, n) B) \<and> (\<forall>k. (p, k) \<notin> B) \<and> unat sz \<le> n \<and>
      (\<forall>q k a. (q, k) \<in> B \<longrightarrow> in_block q k a \<longrightarrow> mem s' a = mem s a)" by simp
next
  fix s :: "'a heap_state_scheme" and B p n
  assume "heap_owns s B" "(p, n) \<in> B"
  then obtain bs where "heap_ok s bs" "(p, n) \<in> payloads bs" "B = payloads bs" by (auto simp: heap_owns_def)
  from kfree_service [OF this(1,2)] this(3) show "\<exists>s'. kfree p s = Done s' \<and> heap_owns s' (B - {(p, n)}) \<and>
      (\<forall>q k a. (q, k) \<in> B - {(p, n)} \<longrightarrow> in_block q k a \<longrightarrow> mem s' a = mem s a)" by blast
next
  fix s :: "'a heap_state_scheme" and B p n m
  assume o: "heap_owns s B" and w: "(p, n) \<in> B" "\<And>a. \<not> in_block p n a \<Longrightarrow> m a = mem s a"
  from o obtain bs where bs: "heap_ok s bs" "B = payloads bs" by (auto simp: heap_owns_def)
  have "heap_ok (s\<lparr>mem := m\<rparr>) bs" by (rule payload_write [OF bs(1) w(1) [unfolded bs(2)] w(2)])
  with bs(2) show "heap_owns (s\<lparr>mem := m\<rparr>) B" unfolding heap_owns_def by blast
qed

section \<open>krealloc\<close>
lemma lock_free_id: "\<not> g_heap_lock s \<Longrightarrow> s\<lparr>g_heap_lock := False\<rparr> = s"
  by (cases s) simp

lemma OVERHEAD_40: "OVERHEAD = 40"
  by (simp add: OVERHEAD_def HDR_SIZE_32 FTR_SIZE_def)

lemma USABLE_tag: "hcell m i = tag n a \<Longrightarrow> 5 \<le> n \<Longrightarrow> USABLE m (haddr i) = of_nat (8 * (n - 5))"
  unfolding USABLE_def OVERHEAD_40 using tag_block(1) [of m i n a] of_nat_8_diff [of 5 n] by simp

text \<open>What \<open>krealloc\<close> owes its caller: a block large enough with the old contents, nobody else touched.\<close>

definition resized :: "(u64 \<times> nat) set \<Rightarrow> u64 \<Rightarrow> nat \<Rightarrow> u64 \<Rightarrow> 'a heap_state_scheme \<Rightarrow> u64 \<Rightarrow> 'a heap_state_scheme \<Rightarrow> bool" where
  "resized B p n sz s q s' \<longleftrightarrow> (\<exists>k. heap_owns s' (insert (q, k) (B - {(p, n)})) \<and> unat sz \<le> k \<and>
     (\<forall>d < n. mem s' (q + of_nat d) = mem s (p + of_nat d)) \<and>
     (\<forall>x y a. (x, y) \<in> B - {(p, n)} \<longrightarrow> in_block x y a \<longrightarrow> mem s' a = mem s a))"

lemma store64_twice: "store64 (store64 m a v) a v = store64 m a v"
  by (simp add: store64_def fun_eq_iff)

lemma merge_alloc_mem:
  assumes h: "hcell m i = tag n True" "hcell m (i + n) = tag k b" and b: "i + (n + k) \<le> HEAP_CELLS" "6 \<le> n"
  obtains m' where "mirror_footer (haddr i) (SET_ALLOC (haddr i)
      (SET_SIZE (haddr i) (BLK_SIZE m (haddr i) + BLK_SIZE m (haddr (i + n))) m)) = m'"
    "modifies {i, i + (n + k) - 1} m m'" "hcell m' i = tag (n + k) True" "hcell m' (i + (n + k) - 1) = tag (n + k) True"
proof -
  let ?sz = "BLK_SIZE m (haddr i) + BLK_SIZE m (haddr (i + n))"
  obtain m' where m': "mirror_footer (haddr i) (SET_SIZE (haddr i) ?sz m) = m'"
    "modifies {i, i + (n + k) - 1} m m'" "hcell m' i = tag (n + k) True" "hcell m' (i + (n + k) - 1) = tag (n + k) True"
    by (rule merge_mem [OF h b])
  have sz: "?sz = of_nat (8 * (n + k))"
    using tag_block(1) [OF h(1)] tag_block(1) [OF h(2)] of_nat_8_add [of n k] by simp
  define m1 where "m1 = store64 m (haddr i) (tag (n + k) True)"
  have c1: "SET_SIZE (haddr i) ?sz m = m1" unfolding m1_def sz by (rule tag_block(5) [OF h(1)])
  have h1: "hcell m1 i = tag (n + k) True" using b by (simp add: m1_def hcell_store)
  have "SET_ALLOC (haddr i) m1 = m1" by (subst tag_block(6) [OF h1]) (simp add: m1_def store64_twice)
  with c1 m' show thesis by (intro that [of m']) simp_all
qed

lemma extend_block:
  assumes ok: "heap_ok s bs" and b: "(i, n, True) \<in> set bs"
    and nx: "NEXT_BLOCK (mem s) (haddr i) < g_heap_curr s" "\<not> IS_ALLOC (mem s) (NEXT_BLOCK (mem s) (haddr i))"
  defines "t \<equiv> s\<lparr>g_heap_lock := True\<rparr>"
  defines "s1 \<equiv> fl_remove (NEXT_BLOCK (mem s) (haddr i)) t"
  defines "m \<equiv> mirror_footer (haddr i) (SET_ALLOC (haddr i)
      (SET_SIZE (haddr i) (BLK_SIZE (mem s1) (haddr i) + BLK_SIZE (mem s1) (NEXT_BLOCK (mem s) (haddr i))) (mem s1)))"
  obtains k as cs where "NEXT_BLOCK (mem s) (haddr i) = haddr (i + n)" "hcell (mem s) (i + n) = tag k False" "6 \<le> k"
    "bs = as @ [(i, n, True), (i + n, k, False)] @ cs"
    "heap_ok (s1\<lparr>mem := m, g_heap_lock := False\<rparr>) (as @ [(i, n + k, True)] @ cs)"
    "modifies (free_cells bs \<union> {i, i + (n + k) - 1}) (mem s) m"
proof -
  from ok obtain fs where inv: "heap_inv {} t bs fs" and env: "heap_env t" "heap_mapped t"
    by (auto simp: heap_ok_def t_def)
  obtain as ds L where bs: "bs = as @ [(i, n, True)] @ ds" and as: "chain 0 as i" and ds: "chain (i + n) ds L"
    and L: "L \<le> HEAP_CELLS" "g_heap_curr t = haddr L" by (rule heap_split [OF inv b])
  note hb = heap_block [OF inv b]
  have nb: "NEXT_BLOCK (mem s) (haddr i) = haddr (i + n)" using tag_block(3) [OF hb(5)] by (simp add: t_def)
  have "i + n < L" using nx(1) nb L haddr_less [of "i + n" L] hb(1) by (simp add: t_def)
  then obtain k c cs where ds': "ds = (i + n, k, c) # cs" using ds by (cases ds) auto
  have bn: "(i + n, k, c) \<in> set bs" by (simp add: bs ds')
  note hn = heap_block [OF inv bn]
  have c: "c = False" using nx(2) nb tag_block(2) [OF hn(5)] by (simp add: t_def)
  have mf: "(i + n, k, False) \<in> set bs" using bn c by simp
  have inf: "i + n \<in> set fs" using set_fs [OF inv] mf by (auto simp: free_starts_def)
  note rm = fl_remove_inv [OF inv inf]
  have s1: "s1 = fl_remove (haddr (i + n)) t" by (simp add: s1_def nb)
  obtain fs1 where inv1: "heap_inv {i + n} s1 bs fs1" using rm(1) by (auto simp: s1)
  note h1 = heap_block [OF inv1 b] and h2 = heap_block [OF inv1 mf]
  have bnd: "i + (n + k) \<le> HEAP_CELLS" using h2(1) by simp
  have mm: "modifies {i, i + (n + k) - 1} (mem s1) m" "hcell m i = tag (n + k) True" "hcell m (i + (n + k) - 1) = tag (n + k) True"
    unfolding m_def nb using merge_alloc_mem [OF h1(5) h2(5) bnd h1(2)] by metis+
  have bs2: "bs = as @ [(i, n, True), (i + n, k, False)] @ cs" by (simp add: bs ds' c)
  have inv2: "heap_inv {} (s1\<lparr>mem := m\<rparr>) (as @ [(i, n + k, True)] @ cs) fs1"
    using merge_inv [OF inv1 [unfolded bs2] as _ _ mm] by simp
  have mod: "modifies (free_cells bs \<union> {i, i + (n + k) - 1}) (mem s) m"
  proof (rule modifies_trans [OF _ mm(1)])
    show "modifies (links (free_starts bs)) (mem s) (mem s1)" using rm(2) by (simp add: s1 t_def)
  qed (use links_free_cells [OF inv] in auto)
  have sub: "free_cells bs \<union> {i, i + (n + k) - 1} \<subseteq> {..<HEAP_CELLS}" using free_cells_bound [OF inv] bnd h1(2) by auto
  obtain m0 f where "s1 = t\<lparr>mem := m0, g_free_list := f\<rparr>" using rm(3) by (auto simp: s1 heap_only_def)
  then have st: "s1\<lparr>mem := m, g_heap_lock := False\<rparr> = t\<lparr>mem := m, g_free_list := f, g_heap_lock := False\<rparr>"
    by simp
  have "heap_ok (s1\<lparr>mem := m, g_heap_lock := False\<rparr>) (as @ [(i, n + k, True)] @ cs)"
    by (rule heap_ok_step [OF env _ st _ sub]) (use inv2 mod in \<open>simp_all add: t_def\<close>)
  with nb hn(2,5) bs2 mod c show thesis by (intro that [of k as cs]) (simp_all add: t_def)
qed

lemma payloads_diff:
  assumes "heap_ok s bs" and "(i, v) \<in> allocs bs"
  shows "(\<lambda>(i, n). (haddr (i + 4), 8 * (n - 5))) ` (allocs bs - {(i, v)}) = payloads bs - {(haddr (i + 4), 8 * (v - 5))}"
  using payload_inj [OF assms(1) _ assms(2)] assms(2) unfolding payloads_def by fastforce

lemma merged_payloads:
  assumes ok: "heap_ok s bs" and bs: "bs = as @ [(i, n, True), (i + n, k, False)] @ cs"
  shows "payloads (as @ [(i, n + k, True)] @ cs) =
    insert (haddr (i + 4), 8 * (n + k - 5)) (payloads bs - {(haddr (i + 4), 8 * (n - 5))})"
proof -
  obtain L where L: "chain 0 bs L" using heap_chain [OF ok] by blast
  have i: "(i, n) \<in> allocs bs" by (simp add: bs)
  have "(i, n) \<notin> allocs as" "(i, n) \<notin> allocs cs"
  proof -
    from L obtain u where u: "chain 0 as u" "u = i" "chain (i + n + k) cs L" "6 \<le> n" by (auto simp: bs chain_append)
    show "(i, n) \<notin> allocs as" "(i, n) \<notin> allocs cs"
      using chain_mem [OF u(1), of i n True] chain_mem [OF u(3), of i n True] u(2,4) by (auto simp: allocs_def)
  qed
  then have "allocs (as @ [(i, n + k, True)] @ cs) = insert (i, n + k) (allocs bs - {(i, n)})" by (auto simp: bs)
  then show ?thesis using payloads_diff [OF ok i] by (simp add: payloads_def)
qed

lemma krealloc_in_place:
  assumes ok: "heap_ok s bs" and b: "(i, n, True) \<in> set bs"
    and bs: "bs = as @ [(i, n, True), (i + n, k, False)] @ cs"
    and ok': "heap_ok s' (as @ [(i, n + k, True)] @ cs)" and sz: "unat sz \<le> 8 * (n + k - 5)"
    and mod: "modifies (free_cells bs \<union> {i, i + (n + k) - 1}) (mem s) (mem s')"
  shows "resized (payloads bs) (haddr (i + 4)) (8 * (n - 5)) sz s (haddr (i + 4)) s'"
proof -
  let ?C = "free_cells bs \<union> {i, i + (n + k) - 1}" and ?p = "(haddr (i + 4), 8 * (n - 5))"
  from ok obtain fs where inv: "heap_inv {} s bs fs" by (auto simp: heap_ok_def)
  obtain L where L: "chain 0 bs L" using heap_chain [OF ok] by blast
  have bn: "(i + n, k, False) \<in> set bs" by (simp add: bs)
  note hb = heap_block [OF inv b] and hn = heap_block [OF inv bn]
  have last: "i + (n + k) - 1 \<in> free_cells bs" by (rule free_cellsI [OF bn]) (use hn in auto)
  then have C: "?C = insert i (free_cells bs)" by auto
  have sub: "?C \<subseteq> {..<HEAP_CELLS}" using free_cells_bound [OF inv] hb unfolding C by simp
  note kp = modifies_kept [OF mod sub]
  have "mem s' (haddr (i + 4) + of_nat d) = mem s (haddr (i + 4) + of_nat d)" if d: "d < 8 * (n - 5)" for d
  proof -
    have "d < 2 ^ 64" using d hb(1) by simp
    then have "unat (of_nat d :: u64) = d" unfolding unsigned_of_nat take_bit_eq_mod by simp
    then have "in_block (haddr (i + 4)) (8 * (n - 5)) (haddr (i + 4) + of_nat d)" using d by (simp add: in_block_def)
    then obtain c where c: "i + 4 \<le> c" "c < i + n - 1" "haddr (i + 4) + of_nat d - haddr c < 8" by (rule payload_cell)
    have "c \<in> alloc_cells bs" using alloc_cells_block [OF b] c by auto
    then have "c \<notin> ?C" using c free_alloc_cells [OF inv] unfolding C by auto
    moreover have "c < HEAP_CELLS" using c hb(1) by linarith
    ultimately show ?thesis using kp c(3) by (simp add: kept_def)
  qed
  moreover have "mem s' a = mem s a" if q: "(x, y) \<in> payloads bs - {?p}" "in_block x y a" for x y a
  proof (rule kept_payload [OF ok _ kp _ q(2)])
    fix j w assume j: "x = haddr (j + 4)" "(j, w, True) \<in> set bs" "y = 8 * (w - 5)"
    have "(j, w) \<noteq> (i, n)" using q(1) j by auto
    then have "i \<notin> {j ..< j + w}" using chain_disjoint [OF L b j(2)] hb(2) by auto
    then show "?C \<inter> {j ..< j + w} = {}" unfolding C using alloc_cells_block [OF j(2)] free_alloc_cells [OF inv] by blast
  qed (use q in simp)
  moreover have "heap_owns s' (insert (haddr (i + 4), 8 * (n + k - 5)) (payloads bs - {?p}))"
    unfolding heap_owns_def using ok' merged_payloads [OF ok bs] by metis
  ultimately show ?thesis unfolding resized_def using sz by blast
qed

lemma of_nat_le_unat: "n < 2 ^ 64 \<Longrightarrow> (sz :: u64) \<le> of_nat n \<longleftrightarrow> unat sz \<le> n"
  unfolding word_le_nat_alt unsigned_of_nat take_bit_eq_mod by simp

lemma krealloc_run:
  assumes ok: "heap_ok s bs" and B: "(p, n) \<in> payloads bs" and sz: "sz \<noteq> 0" "unat sz \<le> n \<or> heap_room sz s"
  shows "\<exists>q s'. krealloc p sz s = Done (q, s') \<and> resized (payloads bs) p n sz s q s'"
proof -
  obtain i v where i: "p = haddr (i + 4)" "n = 8 * (v - 5)" "(i, v, True) \<in> set bs" "i + v \<le> HEAP_CELLS" "6 \<le> v"
    by (rule payloadE [OF ok B])
  from ok obtain fs where inv: "heap_inv {} s bs fs" and lock: "\<not> g_heap_lock s" by (auto simp: heap_ok_def)
  have own: "heap_owns s (payloads bs)" using ok by (auto simp: heap_owns_def)
  have p: "p \<noteq> 0" "unat p + n < 2 ^ 64" using kheap.extent [OF own B] by simp_all
  have h: "p - HDR_SIZE = haddr i" by (simp add: i(1) payload_ptr)
  have cur: "USABLE (mem s) (haddr i) = of_nat n"
    using USABLE_tag [OF heap_block(5) [OF inv i(3)]] i(2,5) by simp
  have le: "sz \<le> of_nat n \<longleftrightarrow> unat sz \<le> n" using of_nat_le_unat p(2) by simp
  let ?nx = "NEXT_BLOCK (mem s) (haddr i)"
  let ?fits = "?nx < g_heap_curr s \<and> \<not> IS_ALLOC (mem s) ?nx \<and> sz \<le> of_nat n + OVERHEAD + USABLE (mem s) ?nx"
  consider (stay) "unat sz \<le> n" | (extend) "\<not> unat sz \<le> n" ?fits | (move) "\<not> unat sz \<le> n" "\<not> ?fits" by blast
  then show ?thesis
  proof cases
    case stay
    then have "krealloc p sz s = Done (p, s)"
      using p sz(1) lock cur le lock_free_id [OF lock] by (simp add: krealloc_def spinlock_acquire_def Let_def h)
    moreover have "resized (payloads bs) p n sz s p s"
      unfolding resized_def using own B stay by (intro exI [of _ n]) (simp add: insert_absorb)
    ultimately show ?thesis by blast
  next
    case extend
    define s1 where "s1 = fl_remove ?nx (s\<lparr>g_heap_lock := True\<rparr>)"
    define m where "m = mirror_footer (haddr i) (SET_ALLOC (haddr i)
      (SET_SIZE (haddr i) (BLK_SIZE (mem s1) (haddr i) + BLK_SIZE (mem s1) ?nx) (mem s1)))"
    obtain k as cs where e: "?nx = haddr (i + v)" "hcell (mem s) (i + v) = tag k False" "6 \<le> k"
      "bs = as @ [(i, v, True), (i + v, k, False)] @ cs"
      "heap_ok (s1\<lparr>mem := m, g_heap_lock := False\<rparr>) (as @ [(i, v + k, True)] @ cs)"
      "modifies (free_cells bs \<union> {i, i + (v + k) - 1}) (mem s) m"
      by (rule extend_block [OF ok i(3), folded s1_def, folded m_def]) (use extend in auto)
    have "of_nat n + OVERHEAD + USABLE (mem s) ?nx = of_nat (8 * (v + k - 5))"
      using USABLE_tag [OF e(2)] e(1,3) i(2,5) of_nat_8_add [of "v - 5" 5] of_nat_8_add [of v "k - 5"]
      by (simp add: OVERHEAD_40)
    moreover have "v + k \<le> HEAP_CELLS" using heap_block(1) [OF inv, of "i + v" k False] e(4) by simp
    ultimately have room: "unat sz \<le> 8 * (v + k - 5)" using extend(2) of_nat_le_unat [of "8 * (v + k - 5)" sz] by simp
    have "krealloc p sz s = Done (p, s1\<lparr>mem := m, g_heap_lock := False\<rparr>)"
      using p sz(1) lock cur le extend
      by (simp add: krealloc_def spinlock_acquire_def Let_def h s1_def [symmetric] m_def [symmetric])
    moreover have "resized (payloads bs) p n sz s p (s1\<lparr>mem := m, g_heap_lock := False\<rparr>)"
      unfolding i(1,2) by (rule krealloc_in_place [OF ok i(3) e(4,5) room]) (use e(6) in simp)
    ultimately show ?thesis by blast
  next
    case move
    from kheap.move_block [OF own B sz(1)] sz(2) move(1) obtain q k s1 s2 where
      run: "kmalloc sz s = Done (q, s1)" "q \<noteq> 0" "kfree p (s1\<lparr>mem := memcpy (mem s1) q p (of_nat n)\<rparr>) = Done s2"
      and "heap_owns s2 (insert (q, k) (payloads bs - {(p, n)}))" "unat sz \<le> k"
        "\<forall>d < n. mem s2 (q + of_nat d) = mem s (p + of_nat d)"
        "\<forall>x y a. (x, y) \<in> payloads bs - {(p, n)} \<longrightarrow> in_block x y a \<longrightarrow> mem s2 a = mem s a" by auto
    then have "resized (payloads bs) p n sz s q s2" unfolding resized_def by blast
    moreover have "kmalloc sz (s\<lparr>g_heap_lock := False\<rparr>) = Done (q, s1)" using run(1) lock_free_id [OF lock] by metis
    then have "krealloc p sz s = Done (q, s2)"
      using p sz(1) lock cur le move run(2,3)
      by (simp add: krealloc_def spinlock_acquire_def Let_def h cong: if_cong) blast
    ultimately show ?thesis by blast
  qed
qed

section \<open>Initialisation and exhaustion\<close>
lemma kmalloc_init_run:
  assumes env: "heap_env s" and lock: "\<not> g_heap_lock s" and left: "256 \<le> g_free_count s"
  shows "\<exists>s'. kmalloc_init s = Done s' \<and> heap_ok s' [(0, 512 * 64, False)]"
proof -
  define t where "t = s\<lparr>g_heap_curr := HEAP_BASE, g_free_list := 0\<rparr>"
  have inv: "heap_inv {} t [] []" by (simp add: heap_inv_def t_def haddr_0)
  have envt: "heap_env t" using env by (simp add: t_def)
  have curr: "g_heap_curr t = hpage 0" by (simp add: t_def hpage_def haddr_0)
  have mapt: "heap_mapped t" using hpage_less [of _ 0] by (simp add: heap_mapped_def curr)
  have fr: "frames_left (4 * 64 + 0) t" using left env by (simp add: t_def frames_left_def heap_env_def)
  have need: "ALIGN_UP (64 * PAGE_SIZE) PAGE_SIZE = of_nat (8 * (512 * 64))" by (simp add: ALIGN_UP_def PAGE_SIZE_def)
  have n: "0 + 64 \<le> HEAP_PAGES" "(0::nat) < 64" by simp_all
  from heap_map_more_run [OF inv envt curr n need fr] obtain s' where
    run: "kmalloc_init s = Done s'" and g: "grown 0 64 [] [] t s'" by (auto simp: kmalloc_init_def t_def)
  have "heap_mapped s'" by (rule grown_mapped [OF g mapt curr n(1)])
  moreover have "heap_inv {} s' [(0, 512 * 64, False)] [0]" "heap_env s'" "\<not> g_heap_lock s'"
    using g lock by (simp_all add: grown_def t_def)
  ultimately show ?thesis using run by (auto simp: heap_ok_def)
qed

text \<open>A request for which a free block is large enough finds room.\<close>
lemma heap_room_fit:
  assumes ok: "heap_ok s bs" and b: "(i, n, False) \<in> set bs" and sz: "unat sz + 64 \<le> 8 * n"
  shows "heap_room sz s"
proof -
  from ok obtain fs where inv: "heap_inv {} s bs fs" by (auto simp: heap_ok_def)
  have n: "n \<le> HEAP_CELLS" using heap_block(1) [OF inv b] by simp
  then have size: "unat sz + 80 < 2 ^ 64" using sz by simp
  obtain k where k: "total_size_for_payload sz = of_nat (8 * k)" "8 * k < unat sz + 64" "k < 2 ^ 61"
    by (rule total_size_cells [OF size])
  obtain r where "fl_find_fit sz s = Done r"
    "r = 0 \<and> (\<forall>i n. (i, n, False) \<in> set bs \<longrightarrow> i \<notin> {} \<longrightarrow> n < k) \<or>
     (\<exists>i n. r = haddr i \<and> r \<noteq> 0 \<and> (i, n, False) \<in> set bs \<and> i \<notin> {} \<and> k \<le> n)"
    by (rule fl_find_fit_run [OF inv k(1,3)])
  moreover have "\<not> n < k" using k(2) sz by simp
  ultimately have "fl_find_fit sz s \<noteq> Done 0" using b by auto
  with size show ?thesis by (simp add: heap_room_def)
qed

lemma heap_exhausted:
  assumes ok: "heap_ok s bs" and sz: "sz \<noteq> 0" "unat sz < 2 ^ 46" and none: "fl_find_fit sz s = Done 0"
    and full: "unat HEAP_LIMIT < unat (g_heap_curr s) + grow_pages sz * 4096"
  shows "kmalloc sz s = Panic ''kmalloc: VA heap exhausted''"
proof -
  have size: "unat sz + 80 < 2 ^ 64" using sz(2) by simp
  obtain k where k: "total_size_for_payload sz = of_nat (8 * k)" "8 * k < unat sz + 64" "k < 2 ^ 61"
    by (rule total_size_cells [OF size])
  let ?n = "grow_pages sz" and ?t = "s\<lparr>g_heap_lock := True\<rparr>"
  let ?grow = "if total_size_for_payload sz < 128 * PAGE_SIZE then 128 * PAGE_SIZE else total_size_for_payload sz"
  have k2: "8 * k + 4096 < 2 ^ 64" using k(2) sz(2) by simp
  note ga = grow_amount [OF k(1) k2]
  have lock: "\<not> g_heap_lock s" using ok by (simp add: heap_ok_def)
  from ok obtain fs where inv: "heap_inv {} s bs fs" by (auto simp: heap_ok_def)
  obtain L where L: "L \<le> HEAP_CELLS" "512 dvd L" "g_heap_curr s = haddr L" by (rule heap_invD [OF inv])
  then obtain j where j: "L = 512 * j" by (auto elim: dvdE)
  have curr: "g_heap_curr s = hpage j" "j \<le> HEAP_PAGES" using L j by (simp_all add: hpage_def)
  have n: "?n * 4096 \<le> 2 ^ 46 + 524288"
  proof -
    have "unat (total_size_for_payload sz) = 8 * k"
      using k(3) unfolding k(1) unsigned_of_nat take_bit_eq_mod by simp
    moreover define q where "q = (8 * k + 4095) div 4096"
    ultimately have "?n = max 128 q" by (simp add: grow_pages_def)
    moreover have "q * 4096 \<le> 8 * k + 4095" by (simp add: q_def)
    ultimately show ?thesis using k(2) sz(2) by (simp add: max_def)
  qed
  have "unat (hpage j + of_nat (8 * (512 * ?n))) = unat (hpage j) + ?n * 4096"
    using n unat_hpage [OF curr(2)] curr(2) unfolding unat_word_ariths unsigned_of_nat take_bit_eq_mod by simp
  then have "HEAP_LIMIT < hpage j + of_nat (8 * (512 * ?n))" using full curr(1) by (simp add: word_less_nat_alt)
  then have "heap_map_more ?grow ?t = Panic ''kmalloc: VA heap exhausted''"
    unfolding heap_map_more_def Let_def ga(1) using hpage_align [OF curr(2)] curr(1) by simp
  then show ?thesis
    using sz(1) lock none by (simp add: kmalloc_def spinlock_acquire_def Let_def fl_find_fit_lock)
qed

section \<open>A concrete machine\<close>

text \<open>A machine with 16 MiB of memory whose frames 0 and 1 are taken, frame 1 by an empty root table.\<close>

definition wit_machine :: "'a \<Rightarrow> 'a heap_state_scheme" where
  "wit_machine x = \<lparr>g_base = 0, g_cursor = 0, g_end = 0, g_region_forced = False,
     g_alloc_bm = 3 # replicate 511 0, g_usable_bm = replicate 512 0xFF, g_alloc_at = 0, g_usable_at = 0,
     g_frame_count = 4096, g_max_phys = 0x1000000, g_free_count = 4094, g_hint = 0, g_memlock = False,
     mem = (\<lambda>_. 0), g_hhdm = HIGHER_HALF_MEMORY_OFFSET, g_pml4_phys = 0x1000, g_pml4_virt = 0,
     cr3 = 0x1000, g_boot_phys_page = Some supply_from_frame,
     g_heap_curr = 0, g_heap_lock = False, g_free_list = 0, \<dots> = x\<rparr>"

lemma wit_machine_bits:
  assumes "i < 4096"
  shows "bm_test (g_alloc_bm (wit_machine x)) i \<longleftrightarrow> i < 2" and "bm_test (g_usable_bm (wit_machine x)) i"
proof -
  have "i div 8 < 512" using assms by (simp add: div_less_iff_less_mult)
  have small: "\<forall>k \<in> set [0..<8]. (drop_bit k (0xFF :: u8) AND 1 \<noteq> 0) \<and> ((drop_bit k (3 :: u8) AND 1 \<noteq> 0) = (k < 2))"
    by code_simp
  have m: "i mod 8 \<in> set [0..<8]" by simp
  show "bm_test (g_usable_bm (wit_machine x)) i"
    using small m \<open>i div 8 < 512\<close> by (simp add: bm_test_def wit_machine_def del: set_upt)
  show "bm_test (g_alloc_bm (wit_machine x)) i \<longleftrightarrow> i < 2"
  proof (cases "i < 8")
    case True
    then have "i \<in> set [0..<8]" by simp
    from bspec [OF small this] show ?thesis using True by (simp add: bm_test_def wit_machine_def)
  next
    case False
    then obtain d where d: "i div 8 = Suc d" by (cases "i div 8") auto
    have "d < 511" using d \<open>i div 8 < 512\<close> by simp
    then show ?thesis using False d by (simp add: bm_test_def wit_machine_def)
  qed
qed

lemma wit_machine_env: "heap_env (wit_machine x)" "\<not> g_heap_lock (wit_machine x)" "4094 \<le> g_free_count (wit_machine x)"
proof -
  have "free_frames (wit_machine x) = {2..<4096}"
    using wit_machine_bits(1) by (auto simp: free_frames_def) (simp_all add: wit_machine_def)
  then have "g_free_count (wit_machine x) = card (free_frames (wit_machine x))" by (simp add: wit_machine_def)
  moreover have "frame_topology (wit_machine x)" by (simp add: frame_topology_def wit_machine_def)
  moreover have "\<forall>i < g_frame_count (wit_machine x). \<not> bm_test (g_alloc_bm (wit_machine x)) i \<longrightarrow> bm_test (g_usable_bm (wit_machine x)) i"
    using wit_machine_bits(2) by (simp add: wit_machine_def)
  ultimately have wf: "frame_wf (wit_machine x)" by (simp add: frame_wf_def) (simp add: wit_machine_def)
  have b: "bm_test (g_alloc_bm (wit_machine x)) 0" "bm_test (g_alloc_bm (wit_machine x)) 1" using wit_machine_bits(1) [of 0 x] wit_machine_bits(1) [of 1 x] by simp_all
  have lim: "frame_limit (wit_machine x) = 0x1000000" by (simp add: frame_limit_def wit_machine_def)
  have boot: "g_boot_phys_page (wit_machine x) = Some supply_from_frame" by (simp add: wit_machine_def)
  have al: "frame_is_allocated (wit_machine x) 0" "frame_is_allocated (wit_machine x) 0x1000"
    using b by (simp_all add: frame_is_allocated_def frame_index_of_def PAGE_SIZE_def)
  have sok: "supplier_ok (wit_machine x)" by (simp add: supplier_ok_def boot wf lim al)
  have r: "0x1000 \<in> table_frames (wit_machine x)"
    by (simp add: table_frames_def valid_frame_def supplied_def supply_limit_def boot lim al)
  have z: "\<forall>k < 512. ptab (wit_machine x) 0x1000 k = 0" by (simp add: tbl_def wit_machine_def load64_zero)
  have cr: "current_pml4_phys (wit_machine x) = 0x1000" by (simp add: current_pml4_phys_def wit_machine_def)
  show "heap_env (wit_machine x)"
    unfolding heap_env_def cr using empty_tree(1) [OF sok r z] empty_tree(2) [OF sok r z va_path_ok(1)] boot lim by simp
  show "\<not> g_heap_lock (wit_machine x)" "4094 \<le> g_free_count (wit_machine x)" by (simp_all add: wit_machine_def)
qed

abbreviation wit_heap :: heap_state where "wit_heap \<equiv> wit_machine ()"

lemmas wit_heap_def = wit_machine_def [of "()"]

lemma wit_heap_env: "heap_env wit_heap" "\<not> g_heap_lock wit_heap" "256 \<le> g_free_count wit_heap"
  using wit_machine_env [of "()"] by simp_all

text \<open>Its heap after \<open>kmalloc_init\<close>, and with one block handed out.\<close>
lemma wit_heap_init:
  obtains s where "kmalloc_init wit_heap = Done s" "heap_owns s {}" "heap_room 100 s"
proof -
  from kmalloc_init_run [OF wit_heap_env] obtain s where
    s: "kmalloc_init wit_heap = Done s" "heap_ok s [(0, 512 * 64, False)]" by blast
  have "heap_owns s {}" unfolding heap_owns_def using s(2) by (auto simp: payloads_def)
  moreover have "heap_room 100 s" by (rule heap_room_fit [OF s(2), of 0 "512 * 64"]) simp_all
  ultimately show thesis using that s(1) by blast
qed

lemma heap_owns_aligned: "heap_owns s B \<Longrightarrow> (p, n) \<in> B \<Longrightarrow> 16 dvd unat p"
proof -
  assume "heap_owns s B" "(p, n) \<in> B"
  then obtain bs where ok: "heap_ok s bs" and B: "(p, n) \<in> payloads bs" by (auto simp: heap_owns_def)
  obtain i k where i: "p = haddr (i + 4)" "i + k \<le> HEAP_CELLS" "6 \<le> k" "even i" by (rule payloadE [OF ok B])
  obtain c where c: "i = 2 * c" using i(4) by (auto elim: evenE)
  have "unat p = 16 * (0xFFFF90000000000 + (c + 2))" using unat_haddr [of "i + 4"] i(1,2,3) c by simp
  then show "16 dvd unat p" by (simp only: dvd_triv_left)
qed

section \<open>Properties\<close>

text \<open>C1: \<open>kmalloc\<close> hands out fresh memory. On a well-formed heap with room for the request it
  returns: the block is not null, aligned to 16 bytes, at least as large as requested, overlaps no block in use, the
  heap is well formed with exactly this block added to the blocks in use, and no byte of any
  block in use has changed. Room means a fitting free block, or window and frames to grow.\<close>
theorem kmalloc_correct:
  assumes "heap_owns s B" and "sz \<noteq> 0" and "heap_room sz s"
  shows "\<exists>p n s'. kmalloc sz s = Done (p, s') \<and> p \<noteq> 0 \<and> 16 dvd unat p \<and> unat sz \<le> n \<and>
    heap_owns s' (insert (p, n) B) \<and> (p, n) \<notin> B \<and>
    (\<forall>q k a. (q, k) \<in> B \<longrightarrow> in_block q k a \<longrightarrow> \<not> in_block p n a \<and> mem s' a = mem s a)"
proof -
  from kheap.alloc_ok [OF assms] obtain p n s' where run: "kmalloc sz s = Done (p, s')"
    and own: "heap_owns s' (insert (p, n) B)" and fresh: "\<forall>k. (p, k) \<notin> B" and n: "unat sz \<le> n"
    and keep: "\<forall>q k a. (q, k) \<in> B \<longrightarrow> in_block q k a \<longrightarrow> mem s' a = mem s a" by blast
  have "\<not> in_block p n a" if "(q, k) \<in> B" "in_block q k a" for q k a
    using kheap.apart [OF own, of q k p n a] that fresh by auto
  moreover have "p \<noteq> 0" using kheap.extent [OF own, of p n] by simp
  moreover have "16 dvd unat p" by (rule heap_owns_aligned [OF own, of p n]) simp
  ultimately show ?thesis using run own fresh n keep by blast
qed

theorem kmalloc_correct_witness:
  "\<exists>s p n s'. kmalloc_init wit_heap = Done s \<and> kmalloc 100 s = Done (p, s') \<and> 100 \<le> n \<and> heap_owns s' {(p, n)}"
proof -
  obtain s where s: "kmalloc_init wit_heap = Done s" "heap_owns s {}" "heap_room 100 s" by (rule wit_heap_init)
  have "(100 :: u64) \<noteq> 0" by simp
  from kmalloc_correct [OF s(2) this s(3)] s(1) show ?thesis by auto
qed

text \<open>C2: \<open>kfree\<close> takes a block back. It returns, exactly that block leaves the blocks in use, no byte
  of any other block in use changes, and freeing the same address again stops the kernel with the
  double-free panic.\<close>
theorem kfree_correct:
  assumes "heap_owns s B" and "(p, n) \<in> B"
  shows "\<exists>s'. kfree p s = Done s' \<and> heap_owns s' (B - {(p, n)}) \<and>
    (\<forall>q k a. (q, k) \<in> B - {(p, n)} \<longrightarrow> in_block q k a \<longrightarrow> mem s' a = mem s a) \<and>
    kfree p s' = Panic ''kfree: double free %p''"
proof -
  from assms obtain bs where "heap_ok s bs" "(p, n) \<in> payloads bs" "B = payloads bs" by (auto simp: heap_owns_def)
  from kfree_service [OF this(1,2)] this(3) obtain s' where s': "kfree p s = Done s'" "heap_owns s' (B - {(p, n)})"
    "\<not> IS_ALLOC (mem s') (p - HDR_SIZE)" "\<not> g_heap_lock s'"
    "\<forall>q k a. (q, k) \<in> B - {(p, n)} \<longrightarrow> in_block q k a \<longrightarrow> mem s' a = mem s a" by blast
  moreover have "p \<noteq> 0" using kheap.extent [OF assms] by simp
  then have "kfree p s' = Panic ''kfree: double free %p''"
    using s'(3,4) by (simp add: kfree_def spinlock_acquire_def Let_def)
  ultimately show ?thesis by blast
qed

text \<open>A heap with one block in use, for the witnesses below.\<close>
lemma wit_heap_one:
  obtains s s1 p n where "kmalloc_init wit_heap = Done s" "kmalloc 100 s = Done (p, s1)" "heap_owns s1 {(p, n)}" "100 \<le> n"
    "heap_owns s {}"
proof -
  obtain s where s: "kmalloc_init wit_heap = Done s" "heap_owns s {}" "heap_room 100 s" by (rule wit_heap_init)
  have "(100 :: u64) \<noteq> 0" by simp
  from kheap.alloc_ok [OF s(2) this s(3)] obtain p n s1 where "kmalloc 100 s = Done (p, s1)" "heap_owns s1 {(p, n)}" "100 \<le> n"
    by auto
  with that s show thesis by blast
qed

theorem kfree_correct_witness:
  "\<exists>s s1 s2 p. kmalloc_init wit_heap = Done s \<and> kmalloc 100 s = Done (p, s1) \<and> kfree p s1 = Done s2 \<and>
     heap_owns s2 {} \<and> kfree p s2 = Panic ''kfree: double free %p''"
proof -
  obtain s s1 p n where s: "kmalloc_init wit_heap = Done s" "kmalloc 100 s = Done (p, s1)" "heap_owns s1 {(p, n)}"
    by (rule wit_heap_one)
  from kfree_correct [OF s(3), of p n] s show ?thesis by auto
qed

text \<open>C16: \<open>krealloc\<close> keeps the contents. For a block in use and a nonzero new size that the block has or the heap
  has room for, it returns a block of at
  least that size (the same one, the same one grown into its free neighbour, or a new one) whose
  first bytes are all the bytes of the old block; the old block is no longer in use unless it is
  the one returned, and no byte of any other block in use changes.\<close>
theorem krealloc_correct:
  assumes "heap_owns s B" and "(p, n) \<in> B" and "sz \<noteq> 0" and "unat sz \<le> n \<or> heap_room sz s"
  shows "\<exists>q k s'. krealloc p sz s = Done (q, s') \<and> unat sz \<le> k \<and> heap_owns s' (insert (q, k) (B - {(p, n)})) \<and>
    (\<forall>d < n. mem s' (q + of_nat d) = mem s (p + of_nat d)) \<and>
    (\<forall>x y a. (x, y) \<in> B - {(p, n)} \<longrightarrow> in_block x y a \<longrightarrow> mem s' a = mem s a)"
proof -
  from assms(1,2) obtain bs where "heap_ok s bs" "(p, n) \<in> payloads bs" "B = payloads bs" by (auto simp: heap_owns_def)
  from krealloc_run [OF this(1,2) assms(3,4)] this(3) show ?thesis unfolding resized_def by blast
qed

theorem krealloc_correct_witness:
  "\<exists>s s1 s2 p q k. kmalloc_init wit_heap = Done s \<and> kmalloc 100 s = Done (p, s1) \<and> krealloc p 50 s1 = Done (q, s2) \<and>
     heap_owns s2 {(q, k)} \<and> 50 \<le> k \<and> mem s2 (q + 99) = mem s1 (p + 99)"
proof -
  obtain s s1 p n where s: "kmalloc_init wit_heap = Done s" "kmalloc 100 s = Done (p, s1)" "heap_owns s1 {(p, n)}" "100 \<le> n"
    by (rule wit_heap_one)
  have p: "(p, n) \<in> {(p, n)}" "(50 :: u64) \<noteq> 0" "unat (50 :: u64) \<le> n \<or> heap_room 50 s1" using s(4) by simp_all
  from krealloc_correct [OF s(3) p] obtain q k s2 where
    k: "krealloc p 50 s1 = Done (q, s2)" "50 \<le> k" "heap_owns s2 {(q, k)}" "\<forall>d < n. mem s2 (q + of_nat d) = mem s1 (p + of_nat d)"
    by auto
  have "mem s2 (q + 99) = mem s1 (p + 99)" using k(4) [rule_format, of 99] s(4) by simp
  with s k show ?thesis by blast
qed

text \<open>C27: \<open>kmalloc_init\<close> sets up the heap. With 256 free frames it returns a well-formed heap with no block
  in use, and any request of up to 262080 bytes can then be served.\<close>
theorem kmalloc_init_correct:
  assumes "heap_env s" and "\<not> g_heap_lock s" and "256 \<le> g_free_count s"
  shows "\<exists>s'. kmalloc_init s = Done s' \<and> heap_owns s' {} \<and> (\<forall>sz. unat sz \<le> 262080 \<longrightarrow> heap_room sz s')"
proof -
  from kmalloc_init_run [OF assms] obtain s' where
    s: "kmalloc_init s = Done s'" "heap_ok s' [(0, 512 * 64, False)]" by blast
  have "heap_owns s' {}" unfolding heap_owns_def using s(2) by (auto simp: payloads_def)
  moreover have "heap_room sz s'" if "unat sz \<le> 262080" for sz
    by (rule heap_room_fit [OF s(2), of 0 "512 * 64"]) (use that in simp_all)
  ultimately show ?thesis using s(1) by blast
qed

theorem kmalloc_init_correct_witness: "\<exists>s'. kmalloc_init wit_heap = Done s' \<and> heap_owns s' {}"
  using kmalloc_init_correct [OF wit_heap_env] by blast

text \<open>C29: \<open>kmalloc\<close> then \<open>kfree\<close> brings the heap back: exactly the blocks that were in use before are in
  use again, with their contents.\<close>
theorem kmalloc_kfree_roundtrip:
  assumes "heap_owns s B" and "sz \<noteq> 0" and "heap_room sz s"
  shows "\<exists>p s1 s2. kmalloc sz s = Done (p, s1) \<and> kfree p s1 = Done s2 \<and> heap_owns s2 B \<and>
    (\<forall>q k a. (q, k) \<in> B \<longrightarrow> in_block q k a \<longrightarrow> mem s2 a = mem s a)"
  using kheap.alloc_release [OF assms] .

theorem kmalloc_kfree_roundtrip_witness:
  "\<exists>s p s1 s2. kmalloc_init wit_heap = Done s \<and> kmalloc 100 s = Done (p, s1) \<and> kfree p s1 = Done s2 \<and> heap_owns s2 {}"
proof -
  obtain s where s: "kmalloc_init wit_heap = Done s" "heap_owns s {}" "heap_room 100 s" by (rule wit_heap_init)
  have "(100 :: u64) \<noteq> 0" by simp
  from kmalloc_kfree_roundtrip [OF s(2) this s(3)] s(1) show ?thesis by auto
qed

text \<open>C30: When no free block fits and the heap window has no room for the pages to add, \<open>kmalloc\<close> stops the
  kernel with its exhaustion panic, for every request below \<open>2 ^ 46\<close> bytes. The header documents a null
  pointer for a request that cannot be satisfied; the code never returns one for this reason.\<close>
theorem kmalloc_exhausted:
  assumes "heap_owns s B" and "sz \<noteq> 0" and "unat sz < 2 ^ 46" and "fl_find_fit sz s = Done 0"
    and "unat HEAP_LIMIT < unat (g_heap_curr s) + grow_pages sz * 4096"
  shows "kmalloc sz s = Panic ''kmalloc: VA heap exhausted''"
proof -
  from assms(1) obtain bs where "heap_ok s bs" by (auto simp: heap_owns_def)
  from heap_exhausted [OF this assms(2-5)] show ?thesis .
qed

theorem kmalloc_exhausted_witness:
  "kmalloc 0x10000000 (wit_heap\<lparr>g_heap_curr := HEAP_BASE\<rparr>) = Panic ''kmalloc: VA heap exhausted''"
proof (rule kmalloc_exhausted)
  let ?s = "wit_heap\<lparr>g_heap_curr := HEAP_BASE\<rparr>"
  have "heap_inv {} ?s [] []" by (simp add: heap_inv_def haddr_0) (simp add: wit_heap_def)
  moreover have "heap_mapped ?s" using hpage_less [of _ 0] by (simp add: heap_mapped_def hpage_def haddr_0)
  ultimately have "heap_ok ?s []" using wit_heap_env by (auto simp: heap_ok_def)
  then show "heap_owns ?s {}" by (auto simp: heap_owns_def payloads_def)
  show "fl_find_fit 0x10000000 ?s = Done 0" by (simp add: fl_find_fit_def Let_def while_outcome_step wit_heap_def)
  have t: "total_size_for_payload 0x10000000 = 0x10000030" by code_simp
  show "unat HEAP_LIMIT < unat (g_heap_curr ?s) + grow_pages 0x10000000 * 4096"
    by (simp add: grow_pages_def t HEAP_LIMIT_def HEAP_BASE_def)
qed simp_all

text \<open>A request within 15 bytes of \<open>2 ^ 64\<close> wraps: the size computed for it is that of an empty payload.\<close>
lemma total_size_wraps: "total_size_for_payload 0xFFFFFFFFFFFFFFFF = 48"
  by code_simp

end
