(* ===== verification/Heap_Client.thy ===== *)
theory Heap_Client
  imports Heap_Ops
begin

text \<open>
  Clients of the kernel heap. A run of any length of \<open>kmalloc\<close>, \<open>kfree\<close>, \<open>krealloc\<close> and of writes into the
  memory they returned (\<open>src/src/mm/kmalloc.c\<close>), from \<open>kmalloc_init\<close> on, is compared with a ledger: which
  addresses are in use, for how many bytes, and what was last written to each of them.
\<close>

section \<open>The ledger\<close>

type_synonym ledger = "u64 \<rightharpoonup> nat \<times> (nat \<rightharpoonup> u8)"

inductive heap_step :: "'a heap_state_scheme \<Rightarrow> ledger \<Rightarrow> 'a heap_state_scheme \<Rightarrow> ledger \<Rightarrow> bool" where
  take_block: "kmalloc sz s = Done (p, s') \<Longrightarrow> sz \<noteq> 0 \<Longrightarrow> heap_room sz s \<Longrightarrow>
    heap_step s L s' (L(p \<mapsto> (unat sz, Map.empty)))"
| give_block: "L p \<noteq> None \<Longrightarrow> kfree p s = Done s' \<Longrightarrow> heap_step s L s' (L(p := None))"
| resize_block: "L p = Some (n, f) \<Longrightarrow> krealloc p sz s = Done (q, s') \<Longrightarrow> sz \<noteq> 0 \<Longrightarrow> heap_room sz s \<Longrightarrow>
    heap_step s L s' ((L(p := None))(q \<mapsto> (unat sz, f |` {..< min n (unat sz)})))"
| write_byte: "L p = Some (n, f) \<Longrightarrow> d < n \<Longrightarrow>
    heap_step s L (s\<lparr>mem := (mem s)(p + of_nat d := b)\<rparr>) (L(p \<mapsto> (n, f(d \<mapsto> b))))"
| no_block: "kmalloc 0 s = Done (p, s') \<or> kfree 0 s = Done s' \<Longrightarrow> heap_step s L s' L"
| take_null: "krealloc 0 sz s = Done (p, s') \<Longrightarrow> sz \<noteq> 0 \<Longrightarrow> heap_room sz s \<Longrightarrow>
    heap_step s L s' (L(p \<mapsto> (unat sz, Map.empty)))"
| give_zero: "L p \<noteq> None \<Longrightarrow> krealloc p 0 s = Done (q, s') \<Longrightarrow> heap_step s L s' (L(p := None))"

inductive heap_run :: "'a heap_state_scheme \<Rightarrow> 'a heap_state_scheme \<Rightarrow> ledger \<Rightarrow> bool" where
  heap_start: "kmalloc_init s0 = Done s \<Longrightarrow> heap_run s0 s Map.empty"
| heap_next: "heap_run s0 s L \<Longrightarrow> heap_step s L s' L' \<Longrightarrow> heap_run s0 s' L'"

text \<open>The heap agrees with the ledger.\<close>

definition ledger_ok :: "'a heap_state_scheme \<Rightarrow> (u64 \<times> nat) set \<Rightarrow> ledger \<Rightarrow> bool" where
  "ledger_ok s B L \<longleftrightarrow> heap_owns s B \<and> fst ` B = dom L \<and>
     (\<forall>p n f k. L p = Some (n, f) \<longrightarrow> (p, k) \<in> B \<longrightarrow>
        n \<le> k \<and> (\<forall>d b. d < n \<longrightarrow> f d = Some b \<longrightarrow> mem s (p + of_nat d) = b))"

section \<open>Steps keep the agreement\<close>
lemma owned_pos:
  assumes "heap_owns s B" and "(p, k) \<in> B"
  shows "0 < k" and "k < 2 ^ 64"
proof -
  from assms obtain bs where "heap_ok s bs" "(p, k) \<in> payloads bs" by (auto simp: heap_owns_def)
  then obtain v where "k = 8 * (v - 5)" "6 \<le> v" by (rule payloadE)
  then show "0 < k" by simp
  show "k < 2 ^ 64" using kheap.extent [OF assms] by simp
qed

lemma owned_unique:
  assumes "heap_owns s B" and "(p, k) \<in> B" and "(p, k') \<in> B" shows "k' = k"
proof (rule ccontr)
  assume "k' \<noteq> k"
  then have "\<not> in_block p k' p" using kheap.apart [OF assms, of p] owned_pos(1) [OF assms(1,2)] by (auto simp: in_block_def)
  then show False using owned_pos(1) [OF assms(1,3)] by (simp add: in_block_def)
qed

lemma in_block_offset: "d < k \<Longrightarrow> k < 2 ^ 64 \<Longrightarrow> in_block p k (p + of_nat d)"
  by (simp add: in_block_def unsigned_of_nat take_bit_eq_mod)

lemma owned_minus:
  assumes "heap_owns s B" and "(p, k) \<in> B"
  shows "fst ` (B - {(p, k)}) = fst ` B - {p}"
  using owned_unique [OF assms] by force

lemma ledger_take:
  assumes ok: "ledger_ok s B L" and run: "kmalloc sz s = Done (p, s')" and sz: "sz \<noteq> 0" "heap_room sz s"
  shows "\<exists>B'. ledger_ok s' B' (L(p \<mapsto> (unat sz, Map.empty)))"
proof -
  have own: "heap_owns s B" using ok by (simp add: ledger_ok_def)
  from kheap.alloc_ok [OF own sz] run obtain k where
    k: "heap_owns s' (insert (p, k) B)" "\<forall>k. (p, k) \<notin> B" "unat sz \<le> k"
      "\<forall>q k a. (q, k) \<in> B \<longrightarrow> in_block q k a \<longrightarrow> mem s' a = mem s a" by auto
  have "mem s' (q + of_nat d) = b" if "L q = Some (n, f)" "(q, l) \<in> B" "d < n" "f d = Some b" for q n f l d b
  proof -
    have "n \<le> l" "mem s (q + of_nat d) = b" using ok that by (auto simp: ledger_ok_def)
    moreover have "in_block q l (q + of_nat d)" using owned_pos(2) [OF own that(2)] that(3) \<open>n \<le> l\<close> by (intro in_block_offset) simp_all
    ultimately show ?thesis using k(4) that(2) by auto
  qed
  then have "ledger_ok s' (insert (p, k) B) (L(p \<mapsto> (unat sz, Map.empty)))"
    using ok k(1-3) by (auto simp: ledger_ok_def)
  then show ?thesis by blast
qed

lemma ledger_give:
  assumes ok: "ledger_ok s B L" and p: "L p \<noteq> None" and run: "kfree p s = Done s'"
  shows "\<exists>B'. ledger_ok s' B' (L(p := None))"
proof -
  have own: "heap_owns s B" using ok by (simp add: ledger_ok_def)
  have "p \<in> fst ` B" using ok p by (auto simp: ledger_ok_def)
  then obtain k where k: "(p, k) \<in> B" by force
  from kheap.release_ok [OF own k] run have r: "heap_owns s' (B - {(p, k)})"
    "\<forall>q l a. (q, l) \<in> B - {(p, k)} \<longrightarrow> in_block q l a \<longrightarrow> mem s' a = mem s a" by auto
  have "n \<le> l \<and> mem s' (q + of_nat d) = b"
    if "L q = Some (n, f)" "(q, l) \<in> B" "q \<noteq> p" "d < n" "f d = Some b" for q n f l d b
  proof -
    have "n \<le> l" "mem s (q + of_nat d) = b" using ok that by (auto simp: ledger_ok_def)
    moreover have "in_block q l (q + of_nat d)" using owned_pos(2) [OF own that(2)] that(4) \<open>n \<le> l\<close> by (intro in_block_offset) simp_all
    ultimately show ?thesis using r(2) that(2,3) by auto
  qed
  then have "ledger_ok s' (B - {(p, k)}) (L(p := None))"
    using ok r(1) owned_minus [OF own k] by (auto simp: ledger_ok_def)
  then show ?thesis by blast
qed

lemma ledger_resize:
  assumes ok: "ledger_ok s B L" and p: "L p = Some (n, f)" and run: "krealloc p sz s = Done (q, s')"
    and sz: "sz \<noteq> 0" "heap_room sz s"
  shows "\<exists>B'. ledger_ok s' B' ((L(p := None))(q \<mapsto> (unat sz, f |` {..< min n (unat sz)})))"
proof -
  have own: "heap_owns s B" using ok by (simp add: ledger_ok_def)
  have "p \<in> fst ` B" using ok p by (auto simp: ledger_ok_def)
  then obtain k where k: "(p, k) \<in> B" by force
  from own obtain bs where bs: "heap_ok s bs" "B = payloads bs" by (auto simp: heap_owns_def)
  from krealloc_run [OF bs(1), of p k sz] k sz run obtain l where l: "heap_owns s' (insert (q, l) (B - {(p, k)}))" "unat sz \<le> l"
    "\<forall>d < k. mem s' (q + of_nat d) = mem s (p + of_nat d)"
    "\<forall>x y a. (x, y) \<in> B - {(p, k)} \<longrightarrow> in_block x y a \<longrightarrow> mem s' a = mem s a"
    by (auto simp: bs(2) resized_def)
  have nk: "n \<le> k" and dat: "\<And>d b. d < n \<Longrightarrow> f d = Some b \<Longrightarrow> mem s (p + of_nat d) = b"
    using ok p k by (auto simp: ledger_ok_def)
  have other: "m \<le> y \<and> mem s' (x + of_nat d) = b"
    if "L x = Some (m, g)" "(x, y) \<in> B" "x \<noteq> p" "d < m" "g d = Some b" for x m g y d b
  proof -
    have "m \<le> y" "mem s (x + of_nat d) = b" using ok that by (auto simp: ledger_ok_def)
    moreover have "in_block x y (x + of_nat d)" using owned_pos(2) [OF own that(2)] that(4) \<open>m \<le> y\<close> by (intro in_block_offset) simp_all
    ultimately show ?thesis using l(4) that(2,3) by auto
  qed
  have cap: "unat sz \<le> y" if "(q, y) \<in> insert (q, l) (B - {(p, k)})" for y
    using owned_unique [OF l(1) _ that, of l] l(2) by simp
  have "mem s' (q + of_nat d) = b" if "d < n" "f d = Some b" for d b
    using l(3) dat [OF that] that(1) nk by auto
  then have "ledger_ok s' (insert (q, l) (B - {(p, k)})) ((L(p := None))(q \<mapsto> (unat sz, f |` {..< min n (unat sz)})))"
    using ok l(1,2) owned_minus [OF own k] other cap
    by (auto simp: ledger_ok_def restrict_map_def split: if_splits)
  then show ?thesis by blast
qed

lemma ledger_write:
  assumes ok: "ledger_ok s B L" and p: "L p = Some (n, f)" "d < n"
  shows "ledger_ok (s\<lparr>mem := (mem s)(p + of_nat d := b)\<rparr>) B (L(p \<mapsto> (n, f(d \<mapsto> b))))"
proof -
  have own: "heap_owns s B" using ok by (simp add: ledger_ok_def)
  have "p \<in> fst ` B" using ok p by (auto simp: ledger_ok_def)
  then obtain k where k: "(p, k) \<in> B" by force
  have nk: "n \<le> k" using ok p k by (auto simp: ledger_ok_def)
  let ?m = "(mem s)(p + of_nat d := b)"
  have at: "in_block p k (p + of_nat e)" if "e < n" for e
    using owned_pos(2) [OF own k] that nk by (intro in_block_offset) simp_all
  have "heap_owns (s\<lparr>mem := ?m\<rparr>) B"
    by (rule kheap.write_ok [OF own k]) (use at [OF p(2)] in auto)
  moreover have "?m (x + of_nat e) = c"
    if "L x = Some (m, g)" "(x, y) \<in> B" "x \<noteq> p" "e < m" "g e = Some c" for x m g y e c
  proof -
    have x: "m \<le> y" "mem s (x + of_nat e) = c" using ok that by (auto simp: ledger_ok_def)
    have "in_block x y (x + of_nat e)" using owned_pos(2) [OF own that(2)] that(4) x(1) by (intro in_block_offset) simp_all
    then have "\<not> in_block p k (x + of_nat e)" using kheap.apart [OF own that(2) k] that(3) by simp
    then have "x + of_nat e \<noteq> p + of_nat d" using at [OF p(2)] by metis
    with x(2) show ?thesis by simp
  qed
  moreover have "?m (p + of_nat e) = c" if "e < n" "(f(d \<mapsto> b)) e = Some c" for e c
  proof (cases "e = d")
    case False
    have lt: "e < 2 ^ 64" "d < 2 ^ 64" using that(1) p(2) nk owned_pos(2) [OF own k] by simp_all
    have "(of_nat e :: u64) \<noteq> of_nat d"
    proof
      assume "(of_nat e :: u64) = of_nat d"
      then have "unat (of_nat e :: u64) = unat (of_nat d :: u64)" by simp
      then show False using lt False unfolding unsigned_of_nat take_bit_eq_mod by simp
    qed
    moreover have "mem s (p + of_nat e) = c" using ok p k that False by (auto simp: ledger_ok_def)
    ultimately show ?thesis by simp
  qed (use that in simp)
  ultimately show ?thesis
    using ok p by (auto simp: ledger_ok_def split: if_splits)
qed

lemma heap_step_ok:
  assumes "heap_step s L s' L'" and "ledger_ok s B L"
  shows "\<exists>B'. ledger_ok s' B' L'"
  using assms
proof cases
  case (no_block p)
  then have "s' = s" by (auto simp: kmalloc_def kfree_def)
  with no_block assms(2) show ?thesis by auto
next
  case (take_null sz p)
  then have "kmalloc sz s = Done (p, s')" by (simp add: krealloc_def)
  with take_null ledger_take [OF assms(2)] show ?thesis by auto
next
  case (give_zero p q)
  moreover have "p \<noteq> 0"
  proof -
    have "p \<in> fst ` B" using give_zero assms(2) by (auto simp: ledger_ok_def)
    then show ?thesis using kheap.extent assms(2) by (force simp: ledger_ok_def)
  qed
  ultimately have "kfree p s = Done s'" by (cases "kfree p s") (simp_all add: krealloc_def)
  with give_zero ledger_give [OF assms(2)] show ?thesis by auto
qed (use ledger_take [OF assms(2)] ledger_give [OF assms(2)] ledger_resize [OF assms(2)] ledger_write [OF assms(2)] in blast)+

lemma heap_run_ok:
  assumes "heap_run s0 s L" and "heap_env s0" and "\<not> g_heap_lock s0" and "256 \<le> g_free_count s0"
  shows "\<exists>B. ledger_ok s B L"
  using assms
proof induction
  case (heap_start s0 s)
  from kmalloc_init_run [OF heap_start(2-4)] heap_start(1) have "heap_ok s [(0, 512 * 64, False)]" by auto
  then have "heap_owns s {}" unfolding heap_owns_def by (auto simp: payloads_def)
  then show ?case by (auto simp: ledger_ok_def)
next
  case (heap_next s0 s L s' L')
  then show ?case using heap_step_ok by blast
qed

section \<open>Properties\<close>

text \<open>C28: Clients cannot disturb each other. After any run of \<open>kmalloc\<close>, \<open>kfree\<close>, \<open>krealloc\<close> and writes inside the
  blocks they returned, starting with \<open>kmalloc_init\<close> and asking only for what the heap has room for, the
  heap is well formed and its blocks in use are exactly those the clients hold. Each is at a nonzero
  multiple of 16, is as large as was asked for, and still holds every byte last written to it, also across
  \<open>krealloc\<close>; no two share a byte; and each can be given back.\<close>
theorem heap_client_run:
  assumes "heap_env s0" and "\<not> g_heap_lock s0" and "256 \<le> g_free_count s0" and "heap_run s0 s L"
  shows "(\<exists>B. heap_owns s B \<and> fst ` B = dom L) \<and>
    (\<forall>p n f. L p = Some (n, f) \<longrightarrow> p \<noteq> 0 \<and> 16 dvd unat p \<and> unat p + n < 2 ^ 64 \<and>
       (\<forall>d b. d < n \<longrightarrow> f d = Some b \<longrightarrow> mem s (p + of_nat d) = b) \<and> (\<exists>t. kfree p s = Done t)) \<and>
    (\<forall>p n f q m g d e. L p = Some (n, f) \<longrightarrow> L q = Some (m, g) \<longrightarrow> p \<noteq> q \<longrightarrow> d < n \<longrightarrow> e < m \<longrightarrow>
       p + of_nat d \<noteq> q + of_nat e)"
proof -
  obtain B where ok: "ledger_ok s B L" using heap_run_ok [OF assms(4,1-3)] by blast
  have own: "heap_owns s B" "fst ` B = dom L" using ok by (simp_all add: ledger_ok_def)
  have blk: "\<exists>k. (p, k) \<in> B \<and> n \<le> k \<and> (\<forall>d b. d < n \<longrightarrow> f d = Some b \<longrightarrow> mem s (p + of_nat d) = b)"
    if "L p = Some (n, f)" for p n f
  proof -
    have "p \<in> fst ` B" using own(2) that by auto
    then show ?thesis using ok that by (fastforce simp: ledger_ok_def)
  qed
  have "p \<noteq> 0 \<and> 16 dvd unat p \<and> unat p + n < 2 ^ 64 \<and>
      (\<forall>d b. d < n \<longrightarrow> f d = Some b \<longrightarrow> mem s (p + of_nat d) = b) \<and> (\<exists>t. kfree p s = Done t)" if L: "L p = Some (n, f)" for p n f
  proof -
    from blk [OF L] obtain k where k: "(p, k) \<in> B" "n \<le> k" "\<forall>d b. d < n \<longrightarrow> f d = Some b \<longrightarrow> mem s (p + of_nat d) = b" by blast
    show ?thesis
      using kheap.extent [OF own(1) k(1)] heap_owns_aligned [OF own(1) k(1)] kheap.release_ok [OF own(1) k(1)] k by auto
  qed
  moreover have "p + of_nat d \<noteq> q + of_nat e"
    if L: "L p = Some (n, f)" "L q = Some (m, g)" "p \<noteq> q" and d: "d < n" "e < m" for p n f q m g d e
  proof -
    from blk [OF L(1)] blk [OF L(2)] obtain k l where k: "(p, k) \<in> B" "n \<le> k" "(q, l) \<in> B" "m \<le> l" by blast
    have "in_block p k (p + of_nat d)" "in_block q l (q + of_nat e)"
      using d k owned_pos(2) [OF own(1)] by (auto intro!: in_block_offset)
    then show ?thesis using kheap.apart [OF own(1) k(1,3)] L(3) by auto
  qed
  ultimately show ?thesis using own by blast
qed

theorem heap_client_run_witness:
  "\<exists>s p. heap_run wit_heap s [p \<mapsto> (100, [7 \<mapsto> 0x2A])] \<and> mem s (p + 7) = 0x2A"
proof -
  obtain s where s: "kmalloc_init wit_heap = Done s" "heap_owns s {}" "heap_room 100 s" by (rule wit_heap_init)
  have sz: "(100 :: u64) \<noteq> 0" by simp
  from kheap.alloc_ok [OF s(2) sz s(3)] obtain p s1 where p: "kmalloc 100 s = Done (p, s1)" by blast
  let ?t = "s1\<lparr>mem := (mem s1)(p + of_nat 7 := 0x2A)\<rparr>"
  have "heap_run wit_heap s1 (Map.empty(p \<mapsto> (unat (100 :: u64), Map.empty)))"
    by (rule heap_next [OF heap_start [OF s(1)] take_block [OF p sz s(3)]])
  then have "heap_run wit_heap s1 [p \<mapsto> (100, Map.empty)]" by simp
  then have "heap_run wit_heap ?t ([p \<mapsto> (100, Map.empty)](p \<mapsto> (100, Map.empty(7 \<mapsto> 0x2A))))"
    by (rule heap_next) (rule write_byte, simp_all)
  then have run: "heap_run wit_heap ?t [p \<mapsto> (100, [7 \<mapsto> 0x2A])]" by simp
  from heap_client_run [OF wit_heap_env run] have "mem ?t (p + of_nat 7) = 0x2A" by simp
  with run show ?thesis by (metis of_nat_numeral)
qed

end
