(* ===== verification/Cstring.thy ===== *)
theory Cstring
  imports Kstring "HOL-Library.Signed_Division"
begin

text \<open>
  The routines on NUL-terminated strings of \<open>src/src/strlen.c\<close>, \<open>strncpy.c\<close>, \<open>str2int.c\<close> and
  \<open>int2srt.c\<close>, on the kernel's byte memory. A C \<open>int\<close> is an integer wrapped to 32 bits, its
  division truncates towards zero; \<open>char\<close> is signed. A scan for the NUL byte is a loop with
  as much fuel as its index has values: one that runs longer goes round in a circle.
\<close>

section \<open>Operations\<close>

definition wrap32 :: "int \<Rightarrow> int" where "wrap32 x = signed_take_bit 31 x"

definition strlen :: "memory \<Rightarrow> u64 \<Rightarrow> u64 outcome" where
  "strlen m str = while_outcome (2 ^ 64 + 1) (\<lambda>len. m (str + len) \<noteq> 0) (\<lambda>len. Done (len + 1)) 0"

definition strncpy :: "memory \<Rightarrow> u64 \<Rightarrow> u64 \<Rightarrow> u64 \<Rightarrow> memory outcome" where
  "strncpy m dest src n =
     bind_outcome (while_outcome (2 ^ 64 + 1) (\<lambda>(i, m). i < n \<and> m (src + i) \<noteq> 0)
        (\<lambda>(i, m). Done (i + 1, m(dest + i := m (src + i)))) (0, m)) (\<lambda>(i, m).
     bind_outcome (while_outcome (2 ^ 64 + 1) (\<lambda>(i, m). i < n)
        (\<lambda>(i, m). Done (i + 1, m(dest + i := 0))) (i, m)) (\<lambda>(i, m). Done m))"

text \<open>\<open>str2int\<close> leaves its loop early with 0 at a character that is not a digit; the flag says so.\<close>

definition str2int_step :: "memory \<Rightarrow> u64 \<Rightarrow> int \<times> int \<times> bool \<Rightarrow> (int \<times> int \<times> bool) outcome" where
  "str2int_step m str = (\<lambda>(i, result, bad).
     let c = sint (m (str + word_of_int i))
     in if c < 48 \<or> c > 57 then Done (i, 0, True)
        else Done (wrap32 (i + 1), wrap32 (wrap32 (result * 10) + (c - 48)), False))"

definition str2int :: "memory \<Rightarrow> u64 \<Rightarrow> int outcome" where
  "str2int m str =
     bind_outcome (while_outcome (2 ^ 32 + 1)
        (\<lambda>(i, result, bad). \<not> bad \<and> m (str + word_of_int i) \<noteq> 0) (str2int_step m str) (0, 0, False)) (\<lambda>(i, result, bad).
     Done result)"

definition str2int2 :: "memory \<Rightarrow> u64 \<Rightarrow> u64 outcome" where
  "str2int2 m str =
     bind_outcome (while_outcome (2 ^ 64 + 1) (\<lambda>(i, res). m (str + i) \<noteq> 0)
        (\<lambda>(i, res). Done (i + 1, res * 10 + word_of_int (sint (m (str + i)) - 48))) (0, 0)) (\<lambda>(i, res).
     Done res)"

function int_to_str_digits :: "int \<Rightarrow> nat \<Rightarrow> u64 \<Rightarrow> memory \<Rightarrow> nat \<times> memory" where
  "int_to_str_digits val i buffer m =
     (let digit = val smod 10;
          m1 = m(buffer + of_nat i := word_of_int (48 + digit));
          v = val sdiv 10
      in if v > 0 then int_to_str_digits v (i + 1) buffer m1 else (i + 1, m1))"
  by pat_completeness auto

definition swap_bytes :: "u64 \<Rightarrow> nat \<Rightarrow> nat \<Rightarrow> memory \<Rightarrow> memory" where
  "swap_bytes buffer i j m =
     (let tmp = m (buffer + of_nat j);
          m1 = m(buffer + of_nat j := m (buffer + of_nat (i - j - 1)))
      in m1(buffer + of_nat (i - j - 1) := tmp))"

text \<open>The C function returns its \<open>buffer\<close> argument. Negating the smallest \<open>int\<close> is undefined in C, and the
  kernel is not built with \<open>-fwrapv\<close>: for that one value the model takes the result that the negation
  of the processor gives, the value itself.\<close>

definition int_to_str :: "int \<Rightarrow> u64 \<Rightarrow> memory \<Rightarrow> memory" where
  "int_to_str val buffer m =
     (let is_negative = val < 0;
          v = (if is_negative then wrap32 (- val) else val);
          (i, m1) = int_to_str_digits v 0 buffer m;
          (i, m2) = (if is_negative then (i + 1, m1(buffer + of_nat i := 45)) else (i, m1));
          m3 = m2(buffer + of_nat i := 0)
      in fold (swap_bytes buffer i) [0..<i div 2] m3)"

text \<open>The local array \<open>tmp\<close> of \<open>u64_to_str\<close>, filled from index 0.\<close>

function u64_to_str_digits :: "u64 \<Rightarrow> u8 list" where
  "u64_to_str_digits val =
     (let d = ucast (48 + val mod 10);
          v = val div 10
      in if v > 0 then d # u64_to_str_digits v else [d])"
  by pat_completeness auto

definition u64_to_str :: "u64 \<Rightarrow> u64 \<Rightarrow> memory \<Rightarrow> memory" where
  "u64_to_str val buf m =
     (let tmp = u64_to_str_digits val;
          i = length tmp;
          m1 = m(buf + of_nat i := 0);
          m2 = fold (\<lambda>j m. m(buf + of_nat j := tmp ! (i - j - 1))) [0..<i] m1
      in m2(buf + of_nat i := 0))"

section \<open>Termination of the digit loops\<close>
lemma sdiv10: "0 \<le> (v :: int) \<Longrightarrow> v sdiv 10 = v div 10" "0 \<le> (v :: int) \<Longrightarrow> v smod 10 = v mod 10"
  by (cases "v = 0"; simp add: signed_divide_int_def signed_modulo_int_def sgn_if)+

termination int_to_str_digits
proof (relation "measure (\<lambda>(v, _). nat v)")
  fix val i buffer m
  fix digit :: int and m1 :: memory and v :: int
  assume "v = val sdiv 10" "0 < v"
  then have "0 < val" by (simp add: signed_divide_int_def sgn_if split: if_splits)
  with \<open>v = val sdiv 10\<close> \<open>0 < v\<close>
  show "((v, i + 1, buffer, m1), val, i, buffer, m) \<in> measure (\<lambda>(v, _). nat v)" by (simp add: sdiv10)
qed simp

termination u64_to_str_digits
proof (relation "measure unat")
  fix val v :: u64
  assume "v = val div 10" "0 < v"
  then show "(v, val) \<in> measure unat"
    by (auto simp: unat_div word_less_nat_alt)
qed simp

declare int_to_str_digits.simps [simp del]
declare u64_to_str_digits.simps [simp del]

section \<open>Strings in memory\<close>

definition cstr :: "memory \<Rightarrow> u64 \<Rightarrow> u8 list \<Rightarrow> bool" where
  "cstr m p cs \<longleftrightarrow> (\<forall>i < length cs. m (p + of_nat i) = cs ! i \<and> cs ! i \<noteq> 0) \<and> m (p + of_nat (length cs)) = 0"

lemma cstr_Nil [simp]: "cstr m p [] \<longleftrightarrow> m p = 0"
  by (simp add: cstr_def)

lemma cstr_Cons: "cstr m p (c # cs) \<longleftrightarrow> m p = c \<and> c \<noteq> 0 \<and> cstr m (p + 1) cs"
proof -
  have a: "p + of_nat (Suc i) = p + 1 + of_nat i" for i by simp
  have "(\<forall>i < length (c # cs). m (p + of_nat i) = (c # cs) ! i \<and> (c # cs) ! i \<noteq> 0) \<longleftrightarrow>
      (m p = c \<and> c \<noteq> 0) \<and> (\<forall>i < length cs. m (p + 1 + of_nat i) = cs ! i \<and> cs ! i \<noteq> 0)"
    by (auto simp: All_less_Suc2 a simp del: of_nat_Suc)
  then show ?thesis unfolding cstr_def by (simp add: a del: of_nat_Suc)
qed

lemma strlen_loop:
  assumes "cstr m (str + k) cs" and "length cs < fuel"
  shows "while_outcome fuel (\<lambda>len. m (str + len) \<noteq> 0) (\<lambda>len. Done (len + 1)) k = Done (k + of_nat (length cs))"
  using assms
proof (induction cs arbitrary: k fuel)
  case Nil
  then show ?case by (simp add: while_outcome_step)
next
  case (Cons c cs)
  then obtain f where f: "fuel = Suc f" "length cs < f" by (cases fuel) auto
  have "cstr m (str + (k + 1)) cs" using Cons.prems(1) by (simp add: cstr_Cons add.assoc)
  from Cons.IH [OF this f(2)] Cons.prems(1) show ?case by (simp add: f(1) cstr_Cons algebra_simps)
qed

lemma strlen_correct: "cstr m str cs \<Longrightarrow> length cs < 2 ^ 64 \<Longrightarrow> strlen m str = Done (of_nat (length cs))"
  unfolding strlen_def using strlen_loop [of m str 0 cs "2 ^ 64 + 1"] by simp

section \<open>Decimal numerals\<close>

fun dec :: "nat \<Rightarrow> u8 list" where
  "dec n = (if n < 10 then [of_nat (48 + n)] else dec (n div 10) @ [of_nat (48 + n mod 10)])"

declare dec.simps [simp del]

lemma digit_byte: "d < 10 \<Longrightarrow> sint (of_nat (48 + d) :: u8) = int (48 + d)" "d < 10 \<Longrightarrow> (of_nat (48 + d) :: u8) \<noteq> 0"
proof -
  assume "d < 10"
  then have "d \<in> set [0..<10]" by simp
  moreover have "\<forall>d \<in> set [0..<10]. sint (of_nat (48 + d) :: u8) = int (48 + d) \<and> (of_nat (48 + d) :: u8) \<noteq> 0"
    by code_simp
  ultimately show "sint (of_nat (48 + d) :: u8) = int (48 + d)" "(of_nat (48 + d) :: u8) \<noteq> 0" by blast+
qed

lemma dec_digits: "c \<in> set (dec n) \<Longrightarrow> \<exists>d < 10. c = of_nat (48 + d)"
proof (induction n rule: dec.induct)
  case (1 n)
  show ?case
  proof (cases "n < 10")
    case True
    then show ?thesis using "1.prems" by (subst (asm) dec.simps) (auto intro!: exI [of _ n])
  next
    case False
    then have "c \<in> set (dec (n div 10)) \<or> c = of_nat (48 + n mod 10)"
      using "1.prems" by (subst (asm) dec.simps) auto
    then show ?thesis
    proof
      assume "c = of_nat (48 + n mod 10)"
      then show ?thesis by (intro exI [of _ "n mod 10"]) simp
    qed (rule "1.IH" [OF False])
  qed
qed

lemma dec_length: "0 < length (dec n)" "n < 10 ^ k \<Longrightarrow> 0 < k \<Longrightarrow> length (dec n) \<le> k"
proof -
  show "0 < length (dec n)" by (subst dec.simps) simp
  show "n < 10 ^ k \<Longrightarrow> 0 < k \<Longrightarrow> length (dec n) \<le> k"
  proof (induction k arbitrary: n)
    case (Suc k)
    show ?case
    proof (cases "n < 10")
      case True
      then show ?thesis by (subst dec.simps) simp
    next
      case False
      then have "0 < k" using Suc.prems by (cases k) auto
      have "n div 10 < 10 ^ k" using Suc.prems by (simp add: div_less_iff_less_mult mult.commute)
      from Suc.IH [OF this \<open>0 < k\<close>] show ?thesis using False by (subst dec.simps) simp
    qed
  qed simp
qed

text \<open>The value of a string of digits, as a left-to-right scan computes it.\<close>

definition scan_dec :: "nat \<Rightarrow> u8 list \<Rightarrow> nat" where
  "scan_dec a cs = foldl (\<lambda>a c. a * 10 + (unat c - 48)) a cs"

lemma scan_dec_dec: "scan_dec 0 (dec n) = n"
proof (induction n rule: dec.induct)
  case (1 n)
  have u: "unat (of_nat (48 + d) :: u8) - 48 = d" if "d < 10" for d
    using that unfolding unsigned_of_nat take_bit_eq_mod by simp
  show ?case
  proof (cases "n < 10")
    case True
    then show ?thesis using u [of n] by (subst dec.simps) (simp add: scan_dec_def del: of_nat_add)
  next
    case False
    have "n div 10 * 10 + n mod 10 = n" by simp
    with "1.IH" [OF False] False u [of "n mod 10"] show ?thesis
      by (subst dec.simps) (simp add: scan_dec_def del: of_nat_add)
  qed
qed

lemma digits_no_nul: "\<forall>i < length (dec n). dec n ! i \<noteq> 0"
  using dec_digits digit_byte(2) by (metis nth_mem)

section \<open>Reading numbers\<close>
lemma str2int2_loop:
  assumes "cstr m (str + k) cs" and "length cs < fuel" and "\<forall>c \<in> set cs. \<exists>d < 10. c = of_nat (48 + d)"
  shows "\<exists>j. while_outcome fuel (\<lambda>(i, res). m (str + i) \<noteq> 0)
      (\<lambda>(i, res). Done (i + 1, res * 10 + word_of_int (sint (m (str + i)) - 48))) (k, of_nat r :: u64) =
    Done (j, of_nat (scan_dec r cs))"
  using assms
proof (induction cs arbitrary: k fuel r)
  case Nil
  then show ?case by (simp add: while_outcome_step scan_dec_def)
next
  case (Cons c cs)
  then obtain f where f: "fuel = Suc f" "length cs < f" by (cases fuel) auto
  have c: "m (str + k) = c" "c \<noteq> 0" "cstr m (str + (k + 1)) cs" using Cons.prems(1) by (simp_all add: cstr_Cons add.assoc)
  obtain d where d: "d < 10" "c = of_nat (48 + d)" using Cons.prems(3) by auto
  have s: "word_of_int (sint c - 48) = (of_nat d :: u64)" using digit_byte(1) [OF d(1)] by (simp add: d(2) del: of_nat_add) simp
  have u: "unat c - 48 = d" using d unfolding d(2) unsigned_of_nat take_bit_eq_mod by simp
  have r: "of_nat r * 10 + of_nat d = (of_nat (r * 10 + d) :: u64)" by simp
  have "scan_dec r (c # cs) = scan_dec (r * 10 + d) cs" by (simp add: scan_dec_def u)
  with Cons.IH [OF c(3) f(2), of "r * 10 + d"] Cons.prems(3) c s show ?case
    unfolding f(1) by (simp add: r del: of_nat_add of_nat_mult)
qed

lemma str2int2_dec:
  assumes "cstr m str (dec n)" and "n < 2 ^ 64"
  shows "str2int2 m str = Done (of_nat n)"
proof -
  have "n < 10 ^ 20" using assms(2) by simp
  then have "length (dec n) < 2 ^ 64 + 1" using dec_length(2) [of n 20] by simp
  with str2int2_loop [of m str 0 "dec n" "2 ^ 64 + 1" 0] assms(1) dec_digits show ?thesis
    unfolding str2int2_def by (auto simp: scan_dec_dec)
qed

section \<open>Writing numbers\<close>
lemma u64_digits_dec: "u64_to_str_digits val = rev (dec (unat val))"
proof (induction val rule: u64_to_str_digits.induct)
  case (1 val)
  have d: "ucast (48 + val mod 10) = (of_nat (48 + unat val mod 10) :: u8)"
  proof -
    define d where "d = unat val mod 10"
    have d: "d < 10" "unat (val mod 10) = d" by (simp_all add: d_def unat_mod)
    then have "unat (48 + val mod 10) = 48 + d" by (simp add: unat_word_ariths)
    then have "unat (ucast (48 + val mod 10) :: u8) = 48 + d" using d(1) by (simp add: unsigned_ucast_eq take_bit_eq_mod)
    moreover have "unat (of_nat (48 + d) :: u8) = 48 + d" using d(1) unfolding unsigned_of_nat take_bit_eq_mod by simp
    ultimately show ?thesis unfolding word_unat_eq_iff d_def [symmetric] by metis
  qed
  have pos: "0 < val div 10 \<longleftrightarrow> \<not> unat val < 10" by (auto simp: word_less_nat_alt unat_div div_greater_zero_iff)
  show ?case
  proof (cases "0 < val div 10")
    case True
    with "1.IH" [OF refl refl] d pos show ?thesis
      by (subst u64_to_str_digits.simps, subst dec.simps) (simp add: Let_def unat_div)
  next
    case False
    with d pos show ?thesis by (subst u64_to_str_digits.simps, subst dec.simps) (simp add: Let_def)
  qed
qed

text \<open>Memory after a string and its NUL have been written at \<open>p\<close>.\<close>

definition written :: "memory \<Rightarrow> u64 \<Rightarrow> u8 list \<Rightarrow> memory" where
  "written m p cs = (\<lambda>x. if unat (x - p) < length cs then cs ! unat (x - p) else if unat (x - p) = length cs then 0 else m x)"

lemma cstr_written:
  assumes "\<forall>i < length cs. cs ! i \<noteq> 0" and "length cs < 2 ^ 64"
  shows "cstr (written m p cs) p cs"
proof -
  have u: "unat (p + of_nat i - p) = i" if "i \<le> length cs" for i
    by (rule unat_offset) (use that assms(2) in linarith)
  show ?thesis using assms(1) u by (simp add: cstr_def written_def)
qed

lemma fold_write:
  "k \<le> 2 ^ 64 \<Longrightarrow>
   fold (\<lambda>j m. m(p + of_nat j := f j)) [0..<k] m x = (if unat (x - p) < k then f (unat (x - p)) else (m :: memory) x)"
proof (induction k)
  case (Suc k)
  then have "x = p + of_nat k \<longleftrightarrow> unat (x - p) = k" by (simp add: eq_add_of_nat_iff)
  with Suc show ?case by (auto simp: less_Suc_eq)
qed simp

lemma dec_bound: "n < 2 ^ 64 \<Longrightarrow> length (dec n) \<le> 20"
  by (rule dec_length(2)) simp_all

lemma u64_to_str_written: "u64_to_str val buf m = written m buf (dec (unat val))"
proof
  fix x
  let ?n = "length (dec (unat val))"
  have n: "?n \<le> 20" by (rule dec_bound) simp
  have at: "x = buf + of_nat ?n \<longleftrightarrow> unat (x - buf) = ?n" using n by (intro eq_add_of_nat_iff) simp
  have "rev (dec (unat val)) ! (?n - j - 1) = dec (unat val) ! j" if "j < ?n" for j
    using that by (simp add: rev_nth)
  then show "u64_to_str val buf m x = written m buf (dec (unat val)) x"
    using at n by (simp add: u64_to_str_def Let_def u64_digits_dec written_def fold_write)
qed

lemma int_digits_run:
  assumes "0 \<le> v" and "i + length (dec (nat v)) < 2 ^ 64"
  shows "fst (int_to_str_digits v i buffer m) = i + length (dec (nat v))"
    and "snd (int_to_str_digits v i buffer m) x = (if i \<le> unat (x - buffer) \<and> unat (x - buffer) < i + length (dec (nat v))
      then rev (dec (nat v)) ! (unat (x - buffer) - i) else m x)"
proof -
  have "fst (int_to_str_digits v i buffer m) = i + length (dec (nat v)) \<and>
    snd (int_to_str_digits v i buffer m) x = (if i \<le> unat (x - buffer) \<and> unat (x - buffer) < i + length (dec (nat v))
      then rev (dec (nat v)) ! (unat (x - buffer) - i) else m x)"
    using assms
  proof (induction v i buffer m rule: int_to_str_digits.induct)
    case (1 v i buffer m)
    define b :: u8 where "b = word_of_int (48 + v mod 10)"
    have b: "b = of_nat (48 + nat v mod 10)"
    proof -
      have "48 + v mod 10 = int (48 + nat v mod 10)" using 1(2) by (simp add: nat_mod_distrib zmod_int)
      then show ?thesis unfolding b_def by (simp only: of_int_of_nat_eq)
    qed
    have at: "x = buffer + of_nat i \<longleftrightarrow> unat (x - buffer) = i"
      using 1(3) by (intro eq_add_of_nat_iff) simp
    show ?case
    proof (cases "0 < v div 10")
      case True
      then have big: "\<not> nat v < 10" by linarith
      have d: "dec (nat v) = dec (nat (v div 10)) @ [b]"
        using big 1(2) by (subst dec.simps) (simp add: b nat_div_distrib)
      have len: "i + 1 + length (dec (nat (v div 10))) < 2 ^ 64" using 1(3) d by simp
      let ?m = "m(buffer + of_nat i := b)" and ?l = "i + 1 + length (dec (nat (v div 10)))"
      have IH: "fst (int_to_str_digits (v div 10) (i + 1) buffer ?m) = ?l \<and>
          snd (int_to_str_digits (v div 10) (i + 1) buffer ?m) x = (if i + 1 \<le> unat (x - buffer) \<and> unat (x - buffer) < ?l
            then rev (dec (nat (v div 10))) ! (unat (x - buffer) - (i + 1)) else ?m x)"
        unfolding b_def by (rule 1(1) [OF refl refl refl, unfolded sdiv10 [OF 1(2)], OF True less_imp_le [OF True] len])
      have run: "int_to_str_digits v i buffer m = int_to_str_digits (v div 10) (i + 1) buffer (m(buffer + of_nat i := b))"
        using True 1(2) by (subst int_to_str_digits.simps) (simp add: sdiv10 b_def Let_def)
      show ?thesis
        using IH at unfolding run d by (auto simp: nth_Cons')
    next
      case False
      then have "nat v < 10" by linarith
      then have d: "dec (nat v) = [b]" by (subst dec.simps) (simp add: b)
      have run: "int_to_str_digits v i buffer m = (i + 1, m(buffer + of_nat i := b))"
        using False 1(2) by (subst int_to_str_digits.simps) (simp add: sdiv10 b_def Let_def)
      show ?thesis unfolding run d using at by auto
    qed
  qed
  then show "fst (int_to_str_digits v i buffer m) = i + length (dec (nat v))"
    "snd (int_to_str_digits v i buffer m) x = (if i \<le> unat (x - buffer) \<and> unat (x - buffer) < i + length (dec (nat v))
      then rev (dec (nat v)) ! (unat (x - buffer) - i) else m x)" by simp_all
qed

lemma swap_loop:
  assumes "2 * k \<le> i" and "i < 2 ^ 64"
  shows "fold (swap_bytes buffer i) [0..<k] m x =
    (if unat (x - buffer) < k \<or> i - k \<le> unat (x - buffer) \<and> unat (x - buffer) < i
     then m (buffer + of_nat (i - 1 - unat (x - buffer))) else m x)"
  using assms(1)
proof (induction k arbitrary: x)
  case (Suc k)
  have IH: "fold (swap_bytes buffer i) [0..<k] m x =
    (if unat (x - buffer) < k \<or> i - k \<le> unat (x - buffer) \<and> unat (x - buffer) < i
     then m (buffer + of_nat (i - 1 - unat (x - buffer))) else m x)" for x
    by (rule Suc.IH) (use Suc.prems in simp)
  have u: "unat (buffer + of_nat j - buffer) = j" if "j < i" for j
    by (rule unat_offset) (use that assms(2) in linarith)
  have k: "k < i" "i - k - 1 < i" "k < i - k - 1" using Suc.prems by auto
  have a: "fold (swap_bytes buffer i) [0..<k] m (buffer + of_nat k) = m (buffer + of_nat k)"
    using IH [of "buffer + of_nat k"] u [OF k(1)] Suc.prems by auto
  have b: "fold (swap_bytes buffer i) [0..<k] m (buffer + of_nat (i - k - 1)) = m (buffer + of_nat (i - k - 1))"
    using IH [of "buffer + of_nat (i - k - 1)"] u [OF k(2)] Suc.prems by auto
  have e: "x = buffer + of_nat k \<longleftrightarrow> unat (x - buffer) = k"
    "x = buffer + of_nat (i - k - 1) \<longleftrightarrow> unat (x - buffer) = i - k - 1"
    by (rule eq_add_of_nat_iff; use assms(2) k in linarith)+
  have sw: "fold (swap_bytes buffer i) [0..<Suc k] m x =
      (if unat (x - buffer) = i - k - 1 then m (buffer + of_nat k)
       else if unat (x - buffer) = k then m (buffer + of_nat (i - k - 1))
       else fold (swap_bytes buffer i) [0..<k] m x)"
    using e a b by (simp add: swap_bytes_def Let_def del: of_nat_diff)
  show ?case
  proof (cases "unat (x - buffer) = i - k - 1")
    case True
    then show ?thesis using sw k by (simp add: diff_right_commute)
  next
    case False
    then show ?thesis using sw IH [of x] k by (auto simp: diff_right_commute)
  qed
qed auto

lemma middle_index: "\<not> u < i div 2 \<Longrightarrow> \<not> i - i div 2 \<le> u \<Longrightarrow> i - 1 - u = (u :: nat)"
  using div_mult_mod_eq [of i 2] mod_less_divisor [of 2 i] by linarith

text \<open>The swaps turn the digits round.\<close>
lemma swap_reverses:
  assumes "length cs < 2 ^ 64" and "\<And>x. m3 x = (if unat (x - buffer) < length cs then rev cs ! unat (x - buffer)
      else if unat (x - buffer) = length cs then 0 else m x)"
  shows "fold (swap_bytes buffer (length cs)) [0..<length cs div 2] m3 = written m buffer cs"
proof
  fix x
  let ?i = "length cs" and ?u = "unat (x - buffer)"
  define y where "y = buffer + of_nat (?i - 1 - ?u)"
  have at: "unat (y - buffer) = ?i - 1 - ?u" unfolding y_def by (rule unat_offset) (use assms(1) in linarith)
  have flip: "m3 y = cs ! ?u" if "?u < ?i"
  proof -
    have lt: "?i - 1 - ?u < ?i" using that by linarith
    then have "m3 y = rev cs ! (?i - 1 - ?u)" using assms(2) [of y] unfolding at by simp
    then show ?thesis using rev_nth [OF lt] that by simp
  qed
  have mid: "?i - 1 - ?u = ?u" if "\<not> ?u < ?i div 2" "\<not> ?i - ?i div 2 \<le> ?u"
    by (rule middle_index [OF that])
  have sw: "fold (swap_bytes buffer ?i) [0..<?i div 2] m3 x =
      (if ?u < ?i div 2 \<or> ?i - ?i div 2 \<le> ?u \<and> ?u < ?i then m3 y else m3 x)"
    unfolding y_def by (rule swap_loop) (use assms(1) in linarith)+
  show "fold (swap_bytes buffer ?i) [0..<?i div 2] m3 x = written m buffer cs x"
  proof (cases "?u < ?i")
    case True
    show ?thesis
    proof (cases "?u < ?i div 2 \<or> ?i - ?i div 2 \<le> ?u")
      case False
      then have "rev cs ! ?u = cs ! ?u" using mid True by (simp add: rev_nth)
      then show ?thesis using sw False True assms(2) [of x] by (simp add: written_def)
    qed (use sw flip True in \<open>simp add: written_def\<close>)
  next
    case False
    then have "\<not> ?u < ?i div 2" by linarith
    then show ?thesis using sw False assms(2) [of x] by (simp add: written_def)
  qed
qed

lemma wrap32_id: "- (2 ^ 31) \<le> v \<Longrightarrow> v < 2 ^ 31 \<Longrightarrow> wrap32 v = v"
  unfolding wrap32_def by (rule signed_take_bit_int_eq_self) simp_all

definition signed_dec :: "int \<Rightarrow> u8 list" where
  "signed_dec v = (if v < 0 then 45 # dec (nat (- v)) else dec (nat v))"

lemma int_to_str_written:
  assumes "- (2 ^ 31) < v" and "v < 2 ^ 31"
  shows "int_to_str v buffer m = written m buffer (signed_dec v)"
proof -
  define w where "w = (if v < 0 then wrap32 (- v) else v)"
  have w: "w = \<bar>v\<bar>" "0 \<le> w" using assms wrap32_id [of "- v"] by (simp_all add: w_def)
  define n where "n = length (dec (nat w))"
  have "nat w < 2 ^ 64" using assms w by (simp add: nat_less_iff)
  then have n: "n \<le> 20" unfolding n_def by (rule dec_bound)
  obtain i1 m1 where run: "int_to_str_digits w 0 buffer m = (i1, m1)" by (cases "int_to_str_digits w 0 buffer m")
  have len: "0 + length (dec (nat w)) < 2 ^ 64" using n by (simp add: n_def)
  have i1: "i1 = n" using int_digits_run(1) [OF w(2) len, of buffer m] run by (simp add: n_def)
  have m1: "m1 x = (if unat (x - buffer) < n then rev (dec (nat w)) ! unat (x - buffer) else m x)" for x
    using int_digits_run(2) [OF w(2) len, of buffer m x] run by (simp add: n_def)
  let ?cs = "signed_dec v"
  define m2 where "m2 = (if v < 0 then m1(buffer + of_nat n := 45) else m1)"
  define m3 where "m3 = m2(buffer + of_nat (length ?cs) := 0)"
  have cs: "length ?cs = (if v < 0 then n + 1 else n)" "rev ?cs = rev (dec (nat w)) @ (if v < 0 then [45] else [])"
    using w by (simp_all add: signed_dec_def n_def)
  have m3: "m3 x = (if unat (x - buffer) < length ?cs then rev ?cs ! unat (x - buffer)
      else if unat (x - buffer) = length ?cs then 0 else m x)" for x
  proof -
    have "x = buffer + of_nat (length ?cs) \<longleftrightarrow> unat (x - buffer) = length ?cs" "x = buffer + of_nat n \<longleftrightarrow> unat (x - buffer) = n"
      by (rule eq_add_of_nat_iff; use n cs(1) in simp)+
    then show ?thesis using cs by (auto simp: m3_def m2_def m1 nth_append n_def)
  qed
  have "int_to_str v buffer m = fold (swap_bytes buffer (length ?cs)) [0..<length ?cs div 2] m3"
    using run i1 cs(1) by (simp add: int_to_str_def Let_def w_def [symmetric] m3_def m2_def)
  also have "\<dots> = written m buffer ?cs" by (rule swap_reverses [OF _ m3]) (use cs(1) n in simp)
  finally show ?thesis .
qed

lemma signed_dec_no_nul: "\<forall>i < length (signed_dec v). signed_dec v ! i \<noteq> 0"
  using digits_no_nul by (auto simp: signed_dec_def nth_Cons')

section \<open>str2int\<close>
lemma scan_dec_mono: "a \<le> scan_dec a cs"
proof (induction cs arbitrary: a)
  case (Cons c cs)
  have "a \<le> a * 10 + (unat c - 48)" by simp
  also have "\<dots> \<le> scan_dec (a * 10 + (unat c - 48)) cs" by (rule Cons.IH)
  finally show ?case by (simp add: scan_dec_def)
qed (simp add: scan_dec_def)

lemma str2int_loop:
  assumes "cstr m (str + of_nat k) cs" and "length cs < fuel" and "\<forall>c \<in> set cs. \<exists>d < 10. c = of_nat (48 + d)"
    and "scan_dec r cs < 2 ^ 31" and "k + length cs < 2 ^ 31"
  shows "\<exists>j. while_outcome fuel (\<lambda>(i, result, bad). \<not> bad \<and> m (str + word_of_int i) \<noteq> 0) (str2int_step m str) (int k, int r, False) =
    Done (j, int (scan_dec r cs), False)"
  using assms
proof (induction cs arbitrary: k fuel r)
  case Nil
  then show ?case by (simp add: while_outcome_step scan_dec_def)
next
  case (Cons c cs)
  then obtain f where f: "fuel = Suc f" "length cs < f" by (cases fuel) auto
  have c: "m (str + of_nat k) = c" "c \<noteq> 0" "cstr m (str + of_nat (Suc k)) cs"
    using Cons.prems(1) by (simp_all add: cstr_Cons add_ac)
  obtain d where d: "d < 10" "c = of_nat (48 + d)" using Cons.prems(3) by auto
  have sc: "sint c = int (48 + d)" unfolding d(2) by (rule digit_byte(1) [OF d(1)])
  have u: "unat c - 48 = d" using d unfolding d(2) unsigned_of_nat take_bit_eq_mod by simp
  have scan: "scan_dec r (c # cs) = scan_dec (r * 10 + d) cs" by (simp add: scan_dec_def u)
  have small: "r * 10 + d < 2 ^ 31" using scan_dec_mono [of "r * 10 + d" cs] Cons.prems(4) scan by simp
  have w: "wrap32 (int k + 1) = int (Suc k)" "wrap32 (int r * 10) = int (r * 10)"
    "wrap32 (int (r * 10) + int d) = int (r * 10 + d)"
    using wrap32_id [of "int (Suc k)"] wrap32_id [of "int (r * 10)"] wrap32_id [of "int (r * 10 + d)"] small Cons.prems(5)
    by (simp_all add: add.commute)
  have step: "str2int_step m str (int k, int r, False) = Done (int (Suc k), int (r * 10 + d), False)"
    using d(1) sc c(1) w by (simp add: str2int_step_def Let_def)
  have "\<exists>j. while_outcome f (\<lambda>(i, result, bad). \<not> bad \<and> m (str + word_of_int i) \<noteq> 0) (str2int_step m str)
      (int (Suc k), int (r * 10 + d), False) = Done (j, int (scan_dec (r * 10 + d) cs), False)"
    by (rule Cons.IH [OF c(3) f(2)]) (use Cons.prems scan in simp_all)
  then show ?case unfolding f(1) scan using c(1,2) step by simp
qed

lemma str2int_dec:
  assumes "cstr m str (dec n)" and "n < 2 ^ 31"
  shows "str2int m str = Done (int n)"
proof -
  have len: "length (dec n) \<le> 20" using assms(2) by (intro dec_bound) simp
  have "\<exists>j. while_outcome (2 ^ 32 + 1) (\<lambda>(i, result, bad). \<not> bad \<and> m (str + word_of_int i) \<noteq> 0) (str2int_step m str) (int 0, int 0, False) =
      Done (j, int (scan_dec 0 (dec n)), False)"
    by (rule str2int_loop) (use assms len dec_digits in \<open>auto simp: scan_dec_dec\<close>)
  then show ?thesis unfolding str2int_def by (auto simp: scan_dec_dec)
qed

section \<open>strncpy\<close>

definition copied :: "memory \<Rightarrow> u64 \<Rightarrow> u64 \<Rightarrow> nat \<Rightarrow> memory" where
  "copied m dest src k = (\<lambda>x. if unat (x - dest) < k then m (src + (x - dest)) else m x)"

lemma copied_Suc:
  assumes "k < 2 ^ 64" and "\<not> unat (src + of_nat k - dest) < k"
  shows "(copied m dest src k)(dest + of_nat k := copied m dest src k (src + of_nat k)) = copied m dest src (Suc k)"
proof
  fix x
  have "x = dest + of_nat k \<longleftrightarrow> unat (x - dest) = k" by (rule eq_add_of_nat_iff) (use assms(1) in simp)
  moreover have "copied m dest src k (src + of_nat k) = m (src + of_nat k)" using assms(2) by (simp add: copied_def)
  ultimately show "((copied m dest src k)(dest + of_nat k := copied m dest src k (src + of_nat k))) x = copied m dest src (Suc k) x"
    by (auto simp: copied_def less_Suc_eq)
qed

lemma strncpy_copy_loop:
  assumes apart: "\<And>i j. i < N \<Longrightarrow> j < N \<Longrightarrow> src + of_nat i \<noteq> dest + of_nat j" and N: "N < 2 ^ 64"
    and k: "k + length cs \<le> N" and fuel: "length cs < fuel"
    and cs: "\<forall>i < length cs. m (src + of_nat (k + i)) \<noteq> 0"
    and stop: "k + length cs = N \<or> m (src + of_nat (k + length cs)) = 0"
  shows "while_outcome fuel (\<lambda>(i, m). i < of_nat N \<and> m (src + i) \<noteq> 0)
      (\<lambda>(i, m). Done (i + 1, m(dest + i := m (src + i)))) (of_nat k, copied m dest src k) =
    Done (of_nat (k + length cs), copied m dest src (k + length cs))"
  using k fuel cs stop
proof (induction cs arbitrary: k fuel)
  have out: "\<not> unat (src + of_nat k - dest) < k" if "k < N" for k
  proof
    assume "unat (src + of_nat k - dest) < k"
    then have "src + of_nat k = dest + of_nat (unat (src + of_nat k - dest))" "unat (src + of_nat k - dest) < N" using that by simp_all
    with apart [OF that] show False by blast
  qed
  have rd: "copied m dest src k (src + of_nat k) = m (src + of_nat k)" if "k < N" for k
    using out [OF that] by (simp add: copied_def)
  have lt: "(of_nat k :: u64) < of_nat N \<longleftrightarrow> k < N" if "k \<le> N" for k
    using that N by (simp add: word_less_nat_alt unat_of_nat_u64)
  {
    case Nil
    then have "\<not> ((of_nat k :: u64) < of_nat N \<and> copied m dest src k (src + of_nat k) \<noteq> 0)" using lt [of k] rd [of k] by auto
    then show ?case using Nil(2) by (auto simp: while_outcome_step)
  next
    case (Cons c cs)
    then obtain f where f: "fuel = Suc f" "length cs < f" by (cases fuel) auto
    have kN: "k < N" "k < 2 ^ 64" using Cons.prems(1) N by simp_all
    have nz: "m (src + of_nat k) \<noteq> 0" using Cons.prems(3) [rule_format, of 0] by simp
    have nz': "\<forall>i < length cs. m (src + of_nat (Suc k + i)) \<noteq> 0"
      using Cons.prems(3) [rule_format, of "Suc _"] by (simp del: of_nat_Suc of_nat_add)
    have IH: "while_outcome f (\<lambda>(i, m). i < of_nat N \<and> m (src + i) \<noteq> 0)
        (\<lambda>(i, m). Done (i + 1, m(dest + i := m (src + i)))) (of_nat (Suc k), copied m dest src (Suc k)) =
      Done (of_nat (Suc k + length cs), copied m dest src (Suc k + length cs))"
      by (rule Cons.IH [OF _ f(2) nz']) (use Cons.prems(1,4) in simp_all)
    have step: "(of_nat k + 1, (copied m dest src k)(dest + of_nat k := copied m dest src k (src + of_nat k))) =
        (of_nat (Suc k), copied m dest src (Suc k))"
      using copied_Suc [OF kN(2) out [OF kN(1)], of m] by (simp add: add.commute)
    show ?case
      unfolding f(1) while_outcome.simps prod.case bind_outcome.simps step IH
      using lt [of k] kN(1) rd [OF kN(1)] nz by simp
  }
qed

lemma strncpy_fill_loop:
  fixes dest :: u64 and m :: memory
  assumes "k \<le> N" and "N < 2 ^ 64" and "N - k < fuel"
  shows "while_outcome fuel (\<lambda>(i, m). i < of_nat N) (\<lambda>(i, m). Done (i + 1, m(dest + i := 0))) (of_nat k, m) =
    Done (of_nat N, \<lambda>x. if k \<le> unat (x - dest) \<and> unat (x - dest) < N then 0 else m x)"
  using assms
proof (induction "N - k" arbitrary: k m fuel)
  case 0
  then have "k = N" by simp
  then show ?case using 0 by (simp add: while_outcome_step) (auto simp: fun_eq_iff)
next
  case (Suc d)
  then obtain f where f: "fuel = Suc f" "N - Suc k < f" by (cases fuel) auto
  have k: "k < N" using Suc by simp
  have lt: "(of_nat k :: u64) < of_nat N" using k Suc.prems(2) by (simp add: word_less_nat_alt unat_of_nat_u64)
  have at: "x = dest + of_nat k \<longleftrightarrow> unat (x - dest) = k" for x by (rule eq_add_of_nat_iff) (use k Suc.prems(2) in linarith)
  have "while_outcome f (\<lambda>(i, m). i < of_nat N) (\<lambda>(i, m). Done (i + 1, m(dest + i := 0))) (of_nat (Suc k), m(dest + of_nat k := 0)) =
    Done (of_nat N, \<lambda>x. if Suc k \<le> unat (x - dest) \<and> unat (x - dest) < N then 0 else (m(dest + of_nat k := 0)) x)"
    by (rule Suc.hyps(1)) (use Suc.hyps(2) Suc.prems f(2) k in simp_all)
  moreover have "(\<lambda>x. if Suc k \<le> unat (x - dest) \<and> unat (x - dest) < N then 0 else (m(dest + of_nat k := 0)) x) =
      (\<lambda>x. if k \<le> unat (x - dest) \<and> unat (x - dest) < N then 0 else m x)"
    using k by (auto simp: fun_eq_iff at)
  ultimately show ?case using lt by (simp add: f(1) add.commute)
qed

lemma strncpy_correct:
  assumes src: "cstr m src cs" and apart: "\<And>i j. i < unat n \<Longrightarrow> j < unat n \<Longrightarrow> src + of_nat i \<noteq> dest + of_nat j"
  shows "strncpy m dest src n = Done (\<lambda>x. if unat (x - dest) < min (length cs) (unat n) then cs ! unat (x - dest)
      else if unat (x - dest) < unat n then 0 else m x)"
proof -
  let ?N = "unat n" and ?ds = "take (unat n) cs"
  have n: "of_nat ?N = n" "?N < 2 ^ 64" by simp_all
  have l: "length ?ds = min (length cs) ?N" by simp
  have nz: "m (src + of_nat i) = cs ! i \<and> cs ! i \<noteq> 0" if "i < length cs" for i using src that by (simp add: cstr_def)
  have end0: "length ?ds = ?N \<or> m (src + of_nat (length ?ds)) = 0" using src by (auto simp: cstr_def min_def)
  have 1: "while_outcome (2 ^ 64 + 1) (\<lambda>(i, m). i < of_nat ?N \<and> m (src + i) \<noteq> 0)
      (\<lambda>(i, m). Done (i + 1, m(dest + i := m (src + i)))) (of_nat 0, copied m dest src 0) =
    Done (of_nat (0 + length ?ds), copied m dest src (0 + length ?ds))"
  proof (rule strncpy_copy_loop [OF apart n(2)])
    show "length ?ds < 2 ^ 64 + 1" using l n(2) by linarith
  qed (use end0 nz l in auto)
  have 2: "while_outcome (2 ^ 64 + 1) (\<lambda>(i, m). i < of_nat ?N) (\<lambda>(i, m). Done (i + 1, m(dest + i := 0)))
      (of_nat (length ?ds), copied m dest src (length ?ds)) =
    Done (of_nat ?N, \<lambda>x. if length ?ds \<le> unat (x - dest) \<and> unat (x - dest) < ?N then 0 else copied m dest src (length ?ds) x)"
  proof (rule strncpy_fill_loop)
    show "?N - length ?ds < 2 ^ 64 + 1" using n(2) by linarith
  qed simp_all
  have 3: "(if length ?ds \<le> unat (x - dest) \<and> unat (x - dest) < ?N then 0 else copied m dest src (length ?ds) x) =
      (if unat (x - dest) < min (length cs) ?N then cs ! unat (x - dest) else if unat (x - dest) < ?N then 0 else m x)" for x
    using nz [of "unat (x - dest)"] by (auto simp: copied_def)
  have c0: "copied m dest src 0 = m" by (simp add: copied_def)
  show ?thesis
    using 1 2 unfolding strncpy_def c0 n(1) 3 of_nat_0 add_0 by (simp only: semiring_1_class.of_nat_0 bind_outcome.simps prod.case)
qed

section \<open>Properties\<close>

text \<open>C33: Numbers survive printing and reading back: what \<open>u64_to_str\<close> writes for any 64-bit value is a
  NUL-terminated string that \<open>str2int2\<close> reads back as that value, and only the 21 bytes after the
  buffer address are written.\<close>
theorem u64_to_str_roundtrip:
  "str2int2 (u64_to_str val buf m) buf = Done val \<and> (\<forall>x. u64_to_str val buf m x \<noteq> m x \<longrightarrow> unat (x - buf) < 21)"
proof -
  have len: "length (dec (unat val)) \<le> 20" by (rule dec_bound) simp
  have "cstr (u64_to_str val buf m) buf (dec (unat val))"
    unfolding u64_to_str_written by (rule cstr_written [OF digits_no_nul]) (use len in simp)
  then have "str2int2 (u64_to_str val buf m) buf = Done val" using str2int2_dec [of _ buf "unat val"] by simp
  then show ?thesis using len by (auto simp: u64_to_str_written written_def split: if_splits)
qed

theorem u64_to_str_roundtrip_witness:
  "u64_to_str 65535 0x1000 (\<lambda>_. 0) 0x5000 = 0"
  using u64_to_str_roundtrip [of 65535 "0x1000" "\<lambda>_. 0"] by (auto dest: spec [of _ "0x5000"])

text \<open>C34: \<open>int_to_str\<close> prints every \<open>int\<close> but the smallest: the buffer holds the sign and the decimal
  digits, no other byte changes, and a value that is not negative is read back by \<open>str2int\<close>. For
  the smallest \<open>int\<close> the negation overflows and the buffer holds the two characters \<open>-(\<close>.\<close>
theorem int_to_str_correct:
  "(- (2 ^ 31) < v \<and> v < 2 ^ 31 \<longrightarrow>
      int_to_str v buffer m = written m buffer (signed_dec v) \<and>
      cstr (int_to_str v buffer m) buffer (signed_dec v) \<and>
      (0 \<le> v \<longrightarrow> str2int (int_to_str v buffer m) buffer = Done v)) \<and>
   int_to_str (- (2 ^ 31)) buffer m = written m buffer [45, 40]"
proof (rule conjI [OF impI])
  assume v: "- (2 ^ 31) < v \<and> v < 2 ^ 31"
  note wr = int_to_str_written [OF conjunct1 [OF v] conjunct2 [OF v], of buffer m]
  have "nat \<bar>v\<bar> < 2 ^ 64" using v by (simp add: nat_less_iff) linarith
  from dec_bound [OF this] have len: "length (signed_dec v) < 2 ^ 64" by (auto simp: signed_dec_def abs_if split: if_splits)
  have c: "cstr (int_to_str v buffer m) buffer (signed_dec v)"
    unfolding wr by (rule cstr_written [OF signed_dec_no_nul len])
  have "str2int (int_to_str v buffer m) buffer = Done v" if "0 \<le> v"
    using str2int_dec [of "int_to_str v buffer m" buffer "nat v"] c that v by (simp add: signed_dec_def nat_less_iff)
  with wr c show "int_to_str v buffer m = written m buffer (signed_dec v) \<and> cstr (int_to_str v buffer m) buffer (signed_dec v) \<and>
      (0 \<le> v \<longrightarrow> str2int (int_to_str v buffer m) buffer = Done v)" by blast
next
  have w: "wrap32 2147483648 = - 2147483648" by (simp add: wrap32_def signed_take_bit_eq_if_negative)
  have d: "int_to_str_digits (- 2147483648) 0 buffer m = (1, m(buffer := 40))"
    by (subst int_to_str_digits.simps) (simp add: Let_def signed_divide_int_def signed_modulo_int_def sgn_if)
  let ?m3 = "m(buffer := 40, buffer + 1 := 45, buffer + 2 := 0)"
  have m3: "?m3 x = (if unat (x - buffer) < length [45, 40 :: u8] then rev [45, 40] ! unat (x - buffer)
      else if unat (x - buffer) = length [45, 40 :: u8] then 0 else m x)" for x
  proof -
    have e: "x = buffer \<longleftrightarrow> unat (x - buffer) = 0" "x = buffer + 1 \<longleftrightarrow> unat (x - buffer) = 1" "x = buffer + 2 \<longleftrightarrow> unat (x - buffer) = 2"
      using eq_add_of_nat_iff [of 0 x buffer] eq_add_of_nat_iff [of 1 x buffer] eq_add_of_nat_iff [of 2 x buffer] by simp_all
    consider "unat (x - buffer) = 0" | "unat (x - buffer) = 1" | "unat (x - buffer) = 2" | "2 < unat (x - buffer)" by linarith
    then show ?thesis unfolding fun_upd_apply e by cases simp_all
  qed
  have "fold (swap_bytes buffer (length [45, 40 :: u8])) [0..<length [45, 40 :: u8] div 2] ?m3 = written m buffer [45, 40]"
    by (rule swap_reverses [OF _ m3]) simp
  then show "int_to_str (- (2 ^ 31)) buffer m = written m buffer [45, 40]"
    by (simp add: int_to_str_def w d Let_def eval_nat_numeral)
qed

theorem int_to_str_correct_witness:
  "cstr (int_to_str (-73) 0x1000 (\<lambda>_. 0xFF)) 0x1000 [45, 55, 51] \<and>
   str2int (int_to_str 2147483647 0x1000 (\<lambda>_. 0xFF)) 0x1000 = Done 2147483647"
proof -
  have "dec 73 = [55, 51]" by code_simp
  then have "signed_dec (-73) = [45, 55, 51]" by (simp add: signed_dec_def)
  moreover have "- (2 ^ 31) < (-73 :: int) \<and> (-73 :: int) < 2 ^ 31" by simp
  then have "cstr (int_to_str (-73) 0x1000 (\<lambda>_. 0xFF)) 0x1000 (signed_dec (-73))"
    using int_to_str_correct [of "-73" "0x1000" "\<lambda>_. 0xFF"] by blast
  moreover have "- (2 ^ 31) < (2147483647 :: int) \<and> (2147483647 :: int) < 2 ^ 31 \<and> (0 :: int) \<le> 2147483647" by simp
  then have "str2int (int_to_str 2147483647 0x1000 (\<lambda>_. 0xFF)) 0x1000 = Done 2147483647"
    using int_to_str_correct [of 2147483647 "0x1000" "\<lambda>_. 0xFF"] by blast
  ultimately show ?thesis by metis
qed

end
