(* ===== verification/Printf.thy ===== *)
theory Printf
  imports Cstring
begin

text \<open>
  The formatter of \<open>src/src/printf.c\<close>. Every formatting routine of that file hands characters to its
  output function one after the other, each at the index after the last; such a routine is
  modelled by the list of characters it hands over, and \<open>emit\<close> is the sequence of calls. The
  work buffer \<open>buf\<close> with its fill level \<open>len\<close> is a list. The format and the string arguments
  are NUL-terminated bytes of a memory that the output does not overlap; \<open>va n\<close> is the
  \<open>n\<close>-th argument slot. The two floating-point conversions \<open>_ftoa\<close> and \<open>_etoa\<close> are parameters.
\<close>

section \<open>Flags and helpers\<close>

definition PRINTF_NTOA_BUFFER_SIZE :: nat where "PRINTF_NTOA_BUFFER_SIZE = 32"

definition FLAGS_ZEROPAD :: u32 where "FLAGS_ZEROPAD = 0x1"
definition FLAGS_LEFT :: u32 where "FLAGS_LEFT = 0x2"
definition FLAGS_PLUS :: u32 where "FLAGS_PLUS = 0x4"
definition FLAGS_SPACE :: u32 where "FLAGS_SPACE = 0x8"
definition FLAGS_HASH :: u32 where "FLAGS_HASH = 0x10"
definition FLAGS_UPPERCASE :: u32 where "FLAGS_UPPERCASE = 0x20"
definition FLAGS_CHAR :: u32 where "FLAGS_CHAR = 0x40"
definition FLAGS_SHORT :: u32 where "FLAGS_SHORT = 0x80"
definition FLAGS_LONG :: u32 where "FLAGS_LONG = 0x100"
definition FLAGS_LONG_LONG :: u32 where "FLAGS_LONG_LONG = 0x200"
definition FLAGS_PRECISION :: u32 where "FLAGS_PRECISION = 0x400"
definition FLAGS_ADAPT_EXP :: u32 where "FLAGS_ADAPT_EXP = 0x800"

definition has :: "u32 \<Rightarrow> u32 \<Rightarrow> bool" where "has flags f \<longleftrightarrow> flags AND f \<noteq> 0"

definition is_digit :: "u8 \<Rightarrow> bool" where
  "is_digit ch \<longleftrightarrow> 48 \<le> ch \<and> ch \<le> 57"

text \<open>\<open>_atoi\<close> moves the pointer it is given past the digits.\<close>

definition atoi :: "memory \<Rightarrow> u64 \<Rightarrow> (u32 \<times> u64) outcome" where
  "atoi m str =
     while_outcome (2 ^ 64 + 1) (\<lambda>(i, p). is_digit (m p)) (\<lambda>(i, p). Done (i * 10 + ucast (m p - 48), p + 1)) (0, str)"

definition strnlen_s :: "memory \<Rightarrow> u64 \<Rightarrow> u64 \<Rightarrow> u32 outcome" where
  "strnlen_s m str maxsize =
     bind_outcome (while_outcome (2 ^ 64 + 1) (\<lambda>(s, n). m s \<noteq> 0 \<and> n \<noteq> 0) (\<lambda>(s, n). Done (s + 1, n - 1)) (str, maxsize)) (\<lambda>(s, n).
     Done (ucast (s - str)))"

section \<open>Output functions\<close>

definition out_buffer :: "u64 \<Rightarrow> u64 \<Rightarrow> u8 \<Rightarrow> u64 \<Rightarrow> memory \<Rightarrow> memory outcome" where
  "out_buffer buffer maxlen character idx m =
     Done (if idx < maxlen then m(buffer + idx := character) else m)"

definition out_null :: "u8 \<Rightarrow> u64 \<Rightarrow> 's \<Rightarrow> 's outcome" where
  "out_null character idx s = Done s"

definition out_char :: "(u8 \<Rightarrow> 's \<Rightarrow> 's outcome) \<Rightarrow> u8 \<Rightarrow> u64 \<Rightarrow> 's \<Rightarrow> 's outcome" where
  "out_char putchar character idx s = (if character \<noteq> 0 then putchar character s else Done s)"

definition out_fct :: "(u8 \<Rightarrow> 's \<Rightarrow> 's outcome) \<Rightarrow> u8 \<Rightarrow> u64 \<Rightarrow> 's \<Rightarrow> 's outcome" where
  "out_fct fct character idx s = (if character \<noteq> 0 then fct character s else Done s)"

primrec emit :: "(u8 \<Rightarrow> u64 \<Rightarrow> 's \<Rightarrow> 's outcome) \<Rightarrow> u8 list \<Rightarrow> u64 \<Rightarrow> 's \<Rightarrow> (u64 \<times> 's) outcome" where
  "emit out [] idx s = Done (idx, s)"
| "emit out (c # cs) idx s = bind_outcome (out c idx s) (\<lambda>s. emit out cs (idx + 1) s)"

section \<open>Integers\<close>

text \<open>Pad, reversed text, pad: \<open>len\<close> is \<open>length buf\<close>.\<close>

definition out_rev :: "u8 list \<Rightarrow> u32 \<Rightarrow> u32 \<Rightarrow> u8 list" where
  "out_rev buf width flags =
     (let pre = (if \<not> has flags FLAGS_LEFT \<and> \<not> has flags FLAGS_ZEROPAD
                 then replicate (unat width - length buf) 32 else []);
          cs = pre @ rev buf
      in if has flags FLAGS_LEFT then cs @ replicate (unat width - length cs) 32 else cs)"

text \<open>\<open>while (len < n && len < PRINTF_NTOA_BUFFER_SIZE) buf[len++] = '0'\<close>\<close>

definition zero_fill :: "nat \<Rightarrow> u8 list \<Rightarrow> u8 list" where
  "zero_fill n buf = buf @ replicate (min n PRINTF_NTOA_BUFFER_SIZE - length buf) 48"

definition add_char :: "u8 \<Rightarrow> u8 list \<Rightarrow> u8 list" where
  "add_char c buf = (if length buf < PRINTF_NTOA_BUFFER_SIZE then buf @ [c] else buf)"

definition ntoa_format :: "u8 list \<Rightarrow> bool \<Rightarrow> u32 \<Rightarrow> u32 \<Rightarrow> u32 \<Rightarrow> u32 \<Rightarrow> u8 list" where
  "ntoa_format buf negative base prec width flags =
     (let (buf, width) =
            (if \<not> has flags FLAGS_LEFT
             then
               let width = (if width \<noteq> 0 \<and> has flags FLAGS_ZEROPAD \<and> (negative \<or> has flags (FLAGS_PLUS OR FLAGS_SPACE))
                            then width - 1 else width);
                   buf = zero_fill (unat prec) buf;
                   buf = (if has flags FLAGS_ZEROPAD then zero_fill (unat width) buf else buf)
               in (buf, width)
             else (buf, width));
          buf =
            (if has flags FLAGS_HASH
             then
               let buf = (if \<not> has flags FLAGS_PRECISION \<and> buf \<noteq> [] \<and> (length buf = unat prec \<or> length buf = unat width)
                          then let b = butlast buf in (if b \<noteq> [] \<and> base = 16 then butlast b else b)
                          else buf);
                   buf = (if base = 16 \<and> \<not> has flags FLAGS_UPPERCASE \<and> length buf < PRINTF_NTOA_BUFFER_SIZE then buf @ [120]
                          else if base = 16 \<and> has flags FLAGS_UPPERCASE \<and> length buf < PRINTF_NTOA_BUFFER_SIZE then buf @ [88]
                          else if base = 2 \<and> length buf < PRINTF_NTOA_BUFFER_SIZE then buf @ [98]
                          else buf)
               in add_char 48 buf
             else buf);
          buf = (if negative then add_char 45 buf
                 else if has flags FLAGS_PLUS then add_char 43 buf
                 else if has flags FLAGS_SPACE then add_char 32 buf
                 else buf)
      in out_rev buf width flags)"

definition digit_char :: "u32 \<Rightarrow> u8 \<Rightarrow> u8" where
  "digit_char flags digit =
     (if digit < 10 then 48 + digit else (if has flags FLAGS_UPPERCASE then 65 else 97) + digit - 10)"

function ntoa_digits :: "u64 \<Rightarrow> u64 \<Rightarrow> u32 \<Rightarrow> u8 list \<Rightarrow> u8 list" where
  "ntoa_digits val base flags buf =
     (let buf = buf @ [digit_char flags (ucast (val mod base))];
          val = val div base
      in if val \<noteq> 0 \<and> length buf < PRINTF_NTOA_BUFFER_SIZE then ntoa_digits val base flags buf else buf)"
  by pat_completeness auto
termination
  by (relation "measure (\<lambda>(_, _, _, buf). PRINTF_NTOA_BUFFER_SIZE - length buf)") auto

declare ntoa_digits.simps [simp del]

definition ntoa_long :: "u64 \<Rightarrow> bool \<Rightarrow> u64 \<Rightarrow> u32 \<Rightarrow> u32 \<Rightarrow> u32 \<Rightarrow> u8 list" where
  "ntoa_long val negative base prec width flags =
     (let flags = (if val = 0 then flags AND NOT FLAGS_HASH else flags);
          buf = (if \<not> has flags FLAGS_PRECISION \<or> val \<noteq> 0 then ntoa_digits val base flags [] else [])
      in ntoa_format buf negative (ucast base) prec width flags)"

text \<open>\<open>unsigned long\<close> and \<open>unsigned long long\<close> have the same width; the two routines have the same text.\<close>

definition ntoa_long_long :: "u64 \<Rightarrow> bool \<Rightarrow> u64 \<Rightarrow> u32 \<Rightarrow> u32 \<Rightarrow> u32 \<Rightarrow> u8 list" where
  "ntoa_long_long val negative base prec width flags =
     (let flags = (if val = 0 then flags AND NOT FLAGS_HASH else flags);
          buf = (if \<not> has flags FLAGS_PRECISION \<or> val \<noteq> 0 then ntoa_digits val base flags [] else [])
      in ntoa_format buf negative (ucast base) prec width flags)"

section \<open>Reading the format\<close>

abbreviation ch :: "char \<Rightarrow> u8" where "ch c \<equiv> of_char c"

definition flag_of :: "u8 \<Rightarrow> u32" where
  "flag_of c =
     (if c = ch CHR ''0'' then FLAGS_ZEROPAD
      else if c = ch CHR ''-'' then FLAGS_LEFT
      else if c = ch CHR ''+'' then FLAGS_PLUS
      else if c = ch CHR '' '' then FLAGS_SPACE
      else if c = ch CHR ''#'' then FLAGS_HASH
      else 0)"

definition parse_flags :: "memory \<Rightarrow> u64 \<Rightarrow> (u32 \<times> u64) outcome" where
  "parse_flags m format =
     while_outcome (2 ^ 64 + 1) (\<lambda>(flags, p). flag_of (m p) \<noteq> 0) (\<lambda>(flags, p). Done (flags OR flag_of (m p), p + 1)) (0, format)"

definition va_int :: "(nat \<Rightarrow> u64) \<Rightarrow> nat \<Rightarrow> int" where
  "va_int va k = sint (ucast (va k) :: u32)"

text \<open>Width: the flags, the width, the position in the format, the next argument.\<close>

definition parse_width :: "memory \<Rightarrow> (nat \<Rightarrow> u64) \<Rightarrow> u32 \<Rightarrow> u64 \<Rightarrow> nat \<Rightarrow> (u32 \<times> u32 \<times> u64 \<times> nat) outcome" where
  "parse_width m va flags p k =
     (if is_digit (m p)
      then bind_outcome (atoi m p) (\<lambda>(width, p). Done (flags, width, p, k))
      else if m p = ch CHR ''*''
      then
        let w = va_int va k
        in if w < 0 then Done (flags OR FLAGS_LEFT, word_of_int (- w), p + 1, k + 1)
           else Done (flags, word_of_int w, p + 1, k + 1)
      else Done (flags, 0, p, k))"

definition parse_precision :: "memory \<Rightarrow> (nat \<Rightarrow> u64) \<Rightarrow> u32 \<Rightarrow> u64 \<Rightarrow> nat \<Rightarrow> (u32 \<times> u32 \<times> u64 \<times> nat) outcome" where
  "parse_precision m va flags p k =
     (if m p = ch CHR ''.''
      then
        let flags = flags OR FLAGS_PRECISION; p = p + 1
        in if is_digit (m p)
           then bind_outcome (atoi m p) (\<lambda>(precision, p). Done (flags, precision, p, k))
           else if m p = ch CHR ''*''
           then let prec = va_int va k in Done (flags, (if prec > 0 then word_of_int prec else 0), p + 1, k + 1)
           else Done (flags, 0, p, k)
      else Done (flags, 0, p, k))"

text \<open>\<open>ptrdiff_t\<close>, \<open>intmax_t\<close> and \<open>size_t\<close> have the size of \<open>long\<close>.\<close>

definition parse_length :: "memory \<Rightarrow> u32 \<Rightarrow> u64 \<Rightarrow> u32 \<times> u64" where
  "parse_length m flags p =
     (if m p = ch CHR ''l''
      then (if m (p + 1) = ch CHR ''l'' then (flags OR FLAGS_LONG OR FLAGS_LONG_LONG, p + 2) else (flags OR FLAGS_LONG, p + 1))
      else if m p = ch CHR ''h''
      then (if m (p + 1) = ch CHR ''h'' then (flags OR FLAGS_SHORT OR FLAGS_CHAR, p + 2) else (flags OR FLAGS_SHORT, p + 1))
      else if m p = ch CHR ''t'' \<or> m p = ch CHR ''j'' \<or> m p = ch CHR ''z'' then (flags OR FLAGS_LONG, p + 1)
      else (flags, p))"

section \<open>Conversions\<close>

definition spec_base :: "u8 \<Rightarrow> u64" where
  "spec_base c =
     (if c = ch CHR ''x'' \<or> c = ch CHR ''X'' then 16
      else if c = ch CHR ''o'' then 8
      else if c = ch CHR ''b'' then 2
      else 10)"

definition spec_flags :: "u8 \<Rightarrow> u32 \<Rightarrow> u32" where
  "spec_flags c flags =
     (let f = (if spec_base c = 10 then flags AND NOT FLAGS_HASH else flags);
          f = (if c = ch CHR ''X'' then f OR FLAGS_UPPERCASE else f);
          f = (if c \<noteq> ch CHR ''i'' \<and> c \<noteq> ch CHR ''d'' then f AND NOT (FLAGS_PLUS OR FLAGS_SPACE) else f)
      in if has f FLAGS_PRECISION then f AND NOT FLAGS_ZEROPAD else f)"

definition convert_signed :: "u64 \<Rightarrow> u64 \<Rightarrow> u32 \<Rightarrow> u32 \<Rightarrow> u32 \<Rightarrow> u8 list" where
  "convert_signed v base precision width flags =
     (if has flags FLAGS_LONG_LONG
      then ntoa_long_long (if sint v > 0 then v else 0 - v) (sint v < 0) base precision width flags
      else if has flags FLAGS_LONG
      then ntoa_long (if sint v > 0 then v else 0 - v) (sint v < 0) base precision width flags
      else
        let x = (if has flags FLAGS_CHAR then sint (ucast v :: u8)
                 else if has flags FLAGS_SHORT then sint (ucast v :: u16)
                 else sint (ucast v :: u32))
        in ntoa_long (ucast (word_of_int (if x > 0 then x else 0 - x) :: u32)) (x < 0) base precision width flags)"

definition convert_unsigned :: "u64 \<Rightarrow> u64 \<Rightarrow> u32 \<Rightarrow> u32 \<Rightarrow> u32 \<Rightarrow> u8 list" where
  "convert_unsigned v base precision width flags =
     (if has flags FLAGS_LONG_LONG then ntoa_long_long v False base precision width flags
      else if has flags FLAGS_LONG then ntoa_long v False base precision width flags
      else
        let x = (if has flags FLAGS_CHAR then ucast (ucast v :: u8)
                 else if has flags FLAGS_SHORT then ucast (ucast v :: u16)
                 else ucast (ucast v :: u32))
        in ntoa_long x False base precision width flags)"

definition convert_int :: "u8 \<Rightarrow> u64 \<Rightarrow> u32 \<Rightarrow> u32 \<Rightarrow> u32 \<Rightarrow> u8 list" where
  "convert_int c v precision width flags =
     (let f = spec_flags c flags
      in if c = ch CHR ''i'' \<or> c = ch CHR ''d'' then convert_signed v (spec_base c) precision width f
         else convert_unsigned v (spec_base c) precision width f)"

definition convert_char :: "u64 \<Rightarrow> u32 \<Rightarrow> u32 \<Rightarrow> u8 list" where
  "convert_char v width flags =
     (let pad = replicate (unat width - 1) 32
      in if has flags FLAGS_LEFT then ucast v # pad else pad @ [ucast v])"

definition convert_string :: "memory \<Rightarrow> u64 \<Rightarrow> u32 \<Rightarrow> u32 \<Rightarrow> u32 \<Rightarrow> u8 list outcome" where
  "convert_string m p precision width flags =
     bind_outcome (strnlen_s m p (if precision \<noteq> 0 then ucast precision else - 1)) (\<lambda>l.
     let l = (if has flags FLAGS_PRECISION then (if l < precision then l else precision) else l);
         pad = replicate (unat width - unat l) 32
     in bind_outcome (while_outcome (2 ^ 64 + 1)
          (\<lambda>(p, precision, cs). m p \<noteq> 0 \<and> (\<not> has flags FLAGS_PRECISION \<or> precision \<noteq> 0))
          (\<lambda>(p, precision, cs). Done (p + 1, precision - 1, cs @ [m p])) (p, precision, [])) (\<lambda>(_, _, cs).
        Done (if has flags FLAGS_LEFT then cs @ pad else pad @ cs)))"

definition convert_pointer :: "u64 \<Rightarrow> u32 \<Rightarrow> u32 \<Rightarrow> u8 list" where
  "convert_pointer v precision flags = ntoa_long_long v False 16 precision 16 (flags OR FLAGS_ZEROPAD OR FLAGS_UPPERCASE)"

text \<open>The two floating-point routines, by the characters they hand over: value, precision, width, flags.\<close>

type_synonym float_format = "u64 \<Rightarrow> u32 \<Rightarrow> u32 \<Rightarrow> u32 \<Rightarrow> u8 list"

definition convert_spec ::
  "float_format \<Rightarrow> float_format \<Rightarrow> memory \<Rightarrow> (nat \<Rightarrow> u64) \<Rightarrow> u32 \<Rightarrow> u32 \<Rightarrow> u32 \<Rightarrow> u64 \<Rightarrow> nat \<Rightarrow> (u8 list \<times> u64 \<times> nat) outcome" where
  "convert_spec ftoa etoa m va flags width precision p k =
     (let c = m p
      in if c \<in> set [ch CHR ''d'', ch CHR ''i'', ch CHR ''u'', ch CHR ''x'', ch CHR ''X'', ch CHR ''o'', ch CHR ''b'']
         then Done (convert_int c (va k) precision width flags, p + 1, k + 1)
         else if c = ch CHR ''f'' \<or> c = ch CHR ''F''
         then Done (ftoa (va k) precision width (if c = ch CHR ''F'' then flags OR FLAGS_UPPERCASE else flags), p + 1, k + 1)
         else if c = ch CHR ''e'' \<or> c = ch CHR ''E'' \<or> c = ch CHR ''g'' \<or> c = ch CHR ''G''
         then
           let f = (if c = ch CHR ''g'' \<or> c = ch CHR ''G'' then flags OR FLAGS_ADAPT_EXP else flags);
               f = (if c = ch CHR ''E'' \<or> c = ch CHR ''G'' then f OR FLAGS_UPPERCASE else f)
           in Done (etoa (va k) precision width f, p + 1, k + 1)
         else if c = ch CHR ''c'' then Done (convert_char (va k) width flags, p + 1, k + 1)
         else if c = ch CHR ''s''
         then bind_outcome (convert_string m (va k) precision width flags) (\<lambda>cs. Done (cs, p + 1, k + 1))
         else if c = ch CHR ''p'' then Done (convert_pointer (va k) precision flags, p + 1, k + 1)
         else if c = ch CHR ''%'' then Done ([ch CHR ''%''], p + 1, k)
         else Done ([c], p + 1, k))"

section \<open>The interpreter\<close>

text \<open>One round of the main loop: the characters handed over, the new position, the next argument.\<close>

definition vsn_step ::
  "float_format \<Rightarrow> float_format \<Rightarrow> memory \<Rightarrow> (nat \<Rightarrow> u64) \<Rightarrow> u64 \<Rightarrow> nat \<Rightarrow> (u8 list \<times> u64 \<times> nat) outcome" where
  "vsn_step ftoa etoa m va p k =
     (if m p \<noteq> ch CHR ''%'' then Done ([m p], p + 1, k)
      else
        bind_outcome (parse_flags m (p + 1)) (\<lambda>(flags, p).
        bind_outcome (parse_width m va flags p k) (\<lambda>(flags, width, p, k).
        bind_outcome (parse_precision m va flags p k) (\<lambda>(flags, precision, p, k).
        case parse_length m flags p of (flags, p) \<Rightarrow>
          convert_spec ftoa etoa m va flags width precision p k))))"

definition vsn_more :: "memory \<Rightarrow> u64 \<times> nat \<times> u64 \<times> 's \<Rightarrow> bool" where
  "vsn_more m = (\<lambda>(p, k, idx, s). m p \<noteq> 0)"

definition vsn_round ::
  "float_format \<Rightarrow> float_format \<Rightarrow> memory \<Rightarrow> (nat \<Rightarrow> u64) \<Rightarrow> (u8 \<Rightarrow> u64 \<Rightarrow> 's \<Rightarrow> 's outcome) \<Rightarrow>
     u64 \<times> nat \<times> u64 \<times> 's \<Rightarrow> (u64 \<times> nat \<times> u64 \<times> 's) outcome" where
  "vsn_round ftoa etoa m va out = (\<lambda>(p, k, idx, s).
     bind_outcome (vsn_step ftoa etoa m va p k) (\<lambda>(cs, p, k).
     bind_outcome (emit out cs idx s) (\<lambda>(idx, s). Done (p, k, idx, s))))"

text \<open>Every round moves \<open>format\<close> forward by at least one byte, so \<open>2^64\<close> rounds pass over the whole memory.\<close>

definition vsnprintf_loop ::
  "float_format \<Rightarrow> float_format \<Rightarrow> memory \<Rightarrow> (nat \<Rightarrow> u64) \<Rightarrow> (u8 \<Rightarrow> u64 \<Rightarrow> 's \<Rightarrow> 's outcome) \<Rightarrow>
     u64 \<Rightarrow> 's \<Rightarrow> (u64 \<times> nat \<times> u64 \<times> 's) outcome" where
  "vsnprintf_loop ftoa etoa m va out format s =
     while_outcome (2 ^ 64 + 1) (vsn_more m) (vsn_round ftoa etoa m va out) (format, 0, 0, s)"

definition vsnprintf_core ::
  "float_format \<Rightarrow> float_format \<Rightarrow> memory \<Rightarrow> (nat \<Rightarrow> u64) \<Rightarrow> (u8 \<Rightarrow> u64 \<Rightarrow> 's \<Rightarrow> 's outcome) \<Rightarrow>
     u64 \<Rightarrow> u64 \<Rightarrow> u64 \<Rightarrow> 's \<Rightarrow> (int \<times> 's) outcome" where
  "vsnprintf_core ftoa etoa m va out buffer maxlen format s =
     (let out = (if buffer = 0 then out_null else out)
      in bind_outcome (vsnprintf_loop ftoa etoa m va out format s) (\<lambda>(p, k, idx, s).
         bind_outcome (out 0 (if idx < maxlen then idx else maxlen - 1) s) (\<lambda>s.
         Done (sint (ucast idx :: u32), s))))"

text \<open>
  The public functions. The one-byte local \<open>buffer\<close> of \<open>printf_\<close> and the wrapper structure of
  \<open>fctprintf\<close> are objects at nonzero addresses, which is all that \<open>_vsnprintf\<close> asks of them;
  \<open>1\<close> stands for those addresses. The functions with \<open>...\<close> start their \<open>va_list\<close> at the first
  argument, so they are the functions that take one.
\<close>

definition vprintf ::
  "float_format \<Rightarrow> float_format \<Rightarrow> (u8 \<Rightarrow> 's \<Rightarrow> 's outcome) \<Rightarrow> memory \<Rightarrow> u64 \<Rightarrow> (nat \<Rightarrow> u64) \<Rightarrow> 's \<Rightarrow> (int \<times> 's) outcome" where
  "vprintf ftoa etoa putchar fm format va s =
     vsnprintf_core ftoa etoa fm va (out_char putchar) 1 (- 1) format s"

definition printf ::
  "float_format \<Rightarrow> float_format \<Rightarrow> (u8 \<Rightarrow> 's \<Rightarrow> 's outcome) \<Rightarrow> memory \<Rightarrow> u64 \<Rightarrow> (nat \<Rightarrow> u64) \<Rightarrow> 's \<Rightarrow> (int \<times> 's) outcome" where
  "printf ftoa etoa putchar fm format va s =
     vsnprintf_core ftoa etoa fm va (out_char putchar) 1 (- 1) format s"

definition vsnprintf ::
  "float_format \<Rightarrow> float_format \<Rightarrow> memory \<Rightarrow> u64 \<Rightarrow> u64 \<Rightarrow> u64 \<Rightarrow> (nat \<Rightarrow> u64) \<Rightarrow> memory \<Rightarrow> (int \<times> memory) outcome" where
  "vsnprintf ftoa etoa fm buffer count format va m =
     vsnprintf_core ftoa etoa fm va (out_buffer buffer count) buffer count format m"

definition snprintf ::
  "float_format \<Rightarrow> float_format \<Rightarrow> memory \<Rightarrow> u64 \<Rightarrow> u64 \<Rightarrow> u64 \<Rightarrow> (nat \<Rightarrow> u64) \<Rightarrow> memory \<Rightarrow> (int \<times> memory) outcome" where
  "snprintf ftoa etoa fm buffer count format va m =
     vsnprintf_core ftoa etoa fm va (out_buffer buffer count) buffer count format m"

definition sprintf ::
  "float_format \<Rightarrow> float_format \<Rightarrow> memory \<Rightarrow> u64 \<Rightarrow> u64 \<Rightarrow> (nat \<Rightarrow> u64) \<Rightarrow> memory \<Rightarrow> (int \<times> memory) outcome" where
  "sprintf ftoa etoa fm buffer format va m =
     vsnprintf_core ftoa etoa fm va (out_buffer buffer (- 1)) buffer (- 1) format m"

definition fctprintf ::
  "float_format \<Rightarrow> float_format \<Rightarrow> (u8 \<Rightarrow> 's \<Rightarrow> 's outcome) \<Rightarrow> memory \<Rightarrow> u64 \<Rightarrow> (nat \<Rightarrow> u64) \<Rightarrow> 's \<Rightarrow> (int \<times> 's) outcome" where
  "fctprintf ftoa etoa out fm format va s =
     vsnprintf_core ftoa etoa fm va (out_fct out) 1 (- 1) format s"

section \<open>The text of a call\<close>

text \<open>The sink that collects what it is given; \<open>vsn_text\<close> is the text a format and its arguments stand for.\<close>

definition out_text :: "u8 \<Rightarrow> u64 \<Rightarrow> u8 list \<Rightarrow> u8 list outcome" where
  "out_text character idx t = Done (t @ [character])"

definition vsn_text :: "float_format \<Rightarrow> float_format \<Rightarrow> memory \<Rightarrow> u64 \<Rightarrow> (nat \<Rightarrow> u64) \<Rightarrow> u8 list outcome" where
  "vsn_text ftoa etoa fm format va =
     bind_outcome (vsnprintf_loop ftoa etoa fm va out_text format []) (\<lambda>(p, k, idx, t). Done t)"

lemma emit_text: "emit out_text cs idx t = Done (idx + of_nat (length cs), t @ cs)"
  by (induction cs arbitrary: idx t) (simp_all add: out_text_def algebra_simps)

lemma emit_append:
  "emit out (cs @ ds) idx s = bind_outcome (emit out cs idx s) (\<lambda>(idx, s). emit out ds idx s)"
proof (induction cs arbitrary: idx s)
  case (Cons c cs)
  then show ?case by (cases "out c idx s") simp_all
qed simp

text \<open>Whatever the sink, the loop is the calls that hand over the text.\<close>
lemma vsn_step_eqs:
  "vsn_more m (p, k, idx, s) \<longleftrightarrow> m p \<noteq> 0"
  "vsn_round ftoa etoa m va out (p, k, idx, s) =
     bind_outcome (vsn_step ftoa etoa m va p k) (\<lambda>(cs, p, k).
     bind_outcome (emit out cs idx s) (\<lambda>(idx, s). Done (p, k, idx, s)))"
  by (simp_all add: vsn_more_def vsn_round_def)

lemma emit_index: "emit out cs i s = Done (i', s') \<Longrightarrow> i' = i + of_nat (length cs)"
proof (induction cs arbitrary: i s)
  case (Cons c cs)
  then obtain t where "emit out cs (i + 1) t = Done (i', s')" by (auto simp: outcome_simps)
  from Cons.IH [OF this] show ?case by simp
qed simp

lemma loop_emits:
  assumes "while_outcome n (vsn_more fm) (vsn_round ftoa etoa fm va out_text) (p, k, idx, t0) = Done (p', k', idx', t)"
  shows "\<exists>cs. t = t0 @ cs \<and> (\<forall>s. while_outcome n (vsn_more fm) (vsn_round ftoa etoa fm va out) (p, k, idx, s) =
    bind_outcome (emit out cs idx s) (\<lambda>(idx, s). Done (p', k', idx, s)))"
  using assms
proof (induction n arbitrary: p k idx t0)
  case (Suc n)
  show ?case
  proof (cases "fm p = 0")
    case False
    with Suc.prems obtain cs q j where step: "vsn_step ftoa etoa fm va p k = Done (cs, q, j)"
      and rest: "while_outcome n (vsn_more fm) (vsn_round ftoa etoa fm va out_text)
        (q, j, idx + of_nat (length cs), t0 @ cs) = Done (p', k', idx', t)"
      by (auto simp: outcome_simps emit_text vsn_step_eqs)
    from Suc.IH [OF rest] obtain ds where ds: "t = (t0 @ cs) @ ds"
      and run: "\<And>s. while_outcome n (vsn_more fm) (vsn_round ftoa etoa fm va out)
        (q, j, idx + of_nat (length cs), s) = bind_outcome (emit out ds (idx + of_nat (length cs)) s) (\<lambda>(idx, s). Done (p', k', idx, s))"
      by blast
    have "while_outcome (Suc n) (vsn_more fm) (vsn_round ftoa etoa fm va out) (p, k, idx, s) =
        bind_outcome (emit out (cs @ ds) idx s) (\<lambda>(idx, s). Done (p', k', idx, s))" for s
      using False step run by (cases "emit out cs idx s") (auto simp: emit_append vsn_step_eqs dest: emit_index)
    with ds show ?thesis by (metis append.assoc)
  qed (use Suc.prems in \<open>auto simp: vsn_step_eqs\<close>)
qed simp

lemma vsnprintf_loop_emits:
  assumes "vsn_text ftoa etoa fm format va = Done cs"
  obtains p k where "\<And>out s. vsnprintf_loop ftoa etoa fm va out format s = bind_outcome (emit out cs 0 s) (\<lambda>(idx, s). Done (p, k, idx, s))"
proof -
  from assms obtain p k idx where "vsnprintf_loop ftoa etoa fm va out_text format [] = Done (p, k, idx, cs)"
    by (auto simp: vsn_text_def outcome_simps)
  then have "vsnprintf_loop ftoa etoa fm va out format s = bind_outcome (emit out cs 0 s) (\<lambda>(idx, s). Done (p, k, idx, s))" for out :: "u8 \<Rightarrow> u64 \<Rightarrow> 'c \<Rightarrow> 'c outcome" and s
    using loop_emits [of "2 ^ 64 + 1" fm ftoa etoa va format 0 0 "[]" p k idx cs out] unfolding vsnprintf_loop_def by auto
  then show ?thesis using that by blast
qed

section \<open>Output to a buffer\<close>

definition buffered :: "memory \<Rightarrow> u64 \<Rightarrow> nat \<Rightarrow> u8 list \<Rightarrow> memory" where
  "buffered m buffer n cs = (\<lambda>a. let i = unat (a - buffer) in if i < n \<and> i < length cs then cs ! i else m a)"

lemma buffered_snoc:
  assumes "length cs < 2 ^ 64"
  shows "(if length cs < n then (buffered m buffer n cs)(buffer + of_nat (length cs) := c) else buffered m buffer n cs) =
    buffered m buffer n (cs @ [c])"
proof
  fix a
  have "a = buffer + of_nat (length cs) \<longleftrightarrow> unat (a - buffer) = length cs"
    by (rule eq_add_of_nat_iff) (use assms in simp)
  then show "(if length cs < n then (buffered m buffer n cs)(buffer + of_nat (length cs) := c) else buffered m buffer n cs) a =
    buffered m buffer n (cs @ [c]) a"
    by (auto simp: buffered_def Let_def nth_append)
qed

lemma emit_buffer:
  assumes "length ts + length cs < 2 ^ 64"
  shows "emit (out_buffer buffer count) cs (of_nat (length ts)) (buffered m buffer (unat count) ts) =
    Done (of_nat (length ts + length cs), buffered m buffer (unat count) (ts @ cs))"
  using assms
proof (induction cs arbitrary: ts)
  case (Cons c cs)
  have l: "length ts < 2 ^ 64" using Cons.prems by simp
  have "(of_nat (length ts) < count) = (length ts < unat count)"
    unfolding word_less_nat_alt unat_of_nat_u64 [OF l] ..
  then have "out_buffer buffer count c (of_nat (length ts)) (buffered m buffer (unat count) ts) = Done (buffered m buffer (unat count) (ts @ [c]))"
    by (simp add: out_buffer_def buffered_snoc [OF l, symmetric])
  then show ?case using Cons.IH [of "ts @ [c]"] Cons.prems by (simp add: algebra_simps)
qed simp

lemma buffered_terminated:
  assumes "length cs < 2 ^ 64" and "count \<noteq> 0"
  shows "out_buffer buffer count 0 (if of_nat (length cs) < count then of_nat (length cs) else count - 1) (buffered m buffer (unat count) cs) =
    Done (written m buffer (take (unat count - 1) cs))"
proof -
  define n where "n = min (length cs) (unat count - 1)"
  have c: "0 < unat count" using assms(2) by (simp add: unat_gt_0)
  have n: "n < 2 ^ 64" "n < unat count" using assms(1) c by (auto simp: n_def)
  have lt: "(of_nat (length cs) < count) = (length cs < unat count)"
    unfolding word_less_nat_alt unat_of_nat_u64 [OF assms(1)] ..
  have one: "count - 1 = of_nat (unat count - 1)" using c by (simp add: of_nat_diff)
  have i: "(if of_nat (length cs) < count then of_nat (length cs) else count - 1) = (of_nat n :: u64)"
    using lt one by (auto simp: n_def min_def)
  have "(of_nat n :: u64) < count" unfolding word_less_nat_alt unat_of_nat_u64 [OF n(1)] by (rule n(2))
  moreover have "(buffered m buffer (unat count) cs)(buffer + of_nat n := 0) = written m buffer (take (unat count - 1) cs)"
  proof
    fix a
    have "a = buffer + of_nat n \<longleftrightarrow> unat (a - buffer) = n" by (rule eq_add_of_nat_iff) (rule n(1))
    then show "((buffered m buffer (unat count) cs)(buffer + of_nat n := 0)) a = written m buffer (take (unat count - 1) cs) a"
      by (auto simp: buffered_def written_def n_def Let_def)
  qed
  ultimately show ?thesis unfolding i by (simp add: out_buffer_def)
qed

lemma vsnprintf_core_buffer:
  assumes "vsn_text ftoa etoa fm format va = Done cs" and "length cs < 2 ^ 31"
  shows "vsnprintf_core ftoa etoa fm va (out_buffer buffer count) buffer count format m =
    Done (int (length cs), if buffer = 0 \<or> count = 0 then m else written m buffer (take (unat count - 1) cs))"
proof -
  from vsnprintf_loop_emits [OF assms(1)] obtain p k where run:
    "\<And>out s. vsnprintf_loop ftoa etoa fm va out format (s :: memory) = bind_outcome (emit out cs 0 s) (\<lambda>(idx, s). Done (p, k, idx, s))"
    by metis
  have l: "length cs < 2 ^ 64" using assms(2) by simp
  have r: "sint (ucast (of_nat (length cs) :: u64) :: u32) = int (length cs)"
    using assms(2) unfolding unsigned_of_nat take_bit_eq_mod signed_of_nat by (simp add: signed_take_bit_int_eq_self)
  have null: "emit out_null cs i s = Done (i + of_nat (length cs), s)" for i and s :: memory
    by (induction cs arbitrary: i) (simp_all add: out_null_def algebra_simps)
  have "buffered m buffer (unat count) [] = m" by (simp add: buffered_def Let_def)
  then have buf: "emit (out_buffer buffer count) cs 0 m = Done (of_nat (length cs), buffered m buffer (unat count) cs)"
    using emit_buffer [of "[]" cs buffer count m] l by simp
  consider "buffer = 0" | "buffer \<noteq> 0" "count = 0" | "buffer \<noteq> 0" "count \<noteq> 0" by blast
  then show ?thesis
  proof cases
    case 1
    then show ?thesis by (simp add: vsnprintf_core_def run null out_null_def r)
  next
    case 2
    have "buffered m buffer 0 cs = m" by (simp add: buffered_def Let_def)
    with 2 show ?thesis using buf by (simp add: vsnprintf_core_def run out_buffer_def r)
  next
    case 3
    then show ?thesis using buffered_terminated [OF l 3(2), of buffer m] by (simp add: vsnprintf_core_def run buf r)
  qed
qed

section \<open>Integer conversions\<close>

text \<open>The digits of a number in a base, the first one first.\<close>

function digits_of :: "nat \<Rightarrow> nat \<Rightarrow> nat list" where
  "digits_of b n = (if b < 2 \<or> n < b then [n] else digits_of b (n div b) @ [n mod b])"
  by pat_completeness auto
termination
  by (relation "measure snd") auto

declare digits_of.simps [simp del]

definition numeral_text :: "u32 \<Rightarrow> nat \<Rightarrow> nat \<Rightarrow> u8 list" where
  "numeral_text flags b n = map (\<lambda>d. digit_char flags (of_nat d)) (digits_of b n)"

lemma numeral_text_step:
  "2 \<le> b \<Longrightarrow> numeral_text flags b n =
     (if n < b then [] else numeral_text flags b (n div b)) @ [digit_char flags (of_nat (n mod b))]"
  unfolding numeral_text_def by (subst digits_of.simps) simp

lemma numeral_text_dec: "numeral_text flags 10 n = dec n"
proof (induction n rule: less_induct)
  case (less n)
  have d: "digit_char flags (of_nat (k mod 10)) = of_nat (48 + k mod 10)" for k
  proof -
    have "(of_nat (k mod 10) :: u8) < 10"
      unfolding word_less_nat_alt unsigned_of_nat take_bit_eq_mod by (simp add: mod_less_eq_dividend [THEN le_less_trans])
    then show ?thesis by (simp add: digit_char_def)
  qed
  show ?case
  proof (cases "n < 10")
    case True
    then show ?thesis using d [of n] by (simp add: numeral_text_step dec.simps [of n])
  next
    case False
    then have "n div 10 < n" by simp
    from less [OF this] False show ?thesis using d [of n] by (simp add: numeral_text_step [of 10 flags n] dec.simps [of n])
  qed
qed

lemma ntoa_digits_text:
  assumes "2 \<le> base" and "base \<le> 16" and "length buf < 32"
  shows "ntoa_digits val base flags buf = take 32 (buf @ rev (numeral_text flags (unat base) (unat val)))"
  using assms(3)
proof (induction "unat val" arbitrary: val buf rule: less_induct)
  case less
  have b: "2 \<le> unat base" "unat base \<le> 16" using assms(1,2) by (simp_all add: word_le_nat_alt)
  have d: "ucast (val mod base) = (of_nat (unat val mod unat base) :: u8)"
    by (simp add: unat_mod [symmetric] unsigned_ucast_eq)
  have q: "unat (val div base) = unat val div unat base" by (rule unat_div)
  have z: "val div base = 0 \<longleftrightarrow> unat val < unat base"
    using b q by (metis div_less_iff_less_mult div_eq_0_iff not_numeral_le_zero unat_eq_zero)
  let ?c = "digit_char flags (ucast (val mod base))"
  show ?case
  proof (cases "val div base \<noteq> 0 \<and> length (buf @ [?c]) < 32")
    case True
    then have n: "\<not> unat val < unat base" using z by simp
    then have "unat (val div base) < unat val" using b q by simp
    from less.hyps [OF this, of "buf @ [?c]"] True
    have "ntoa_digits (val div base) base flags (buf @ [?c]) = take 32 ((buf @ [?c]) @ rev (numeral_text flags (unat base) (unat val div unat base)))"
      by (simp add: q)
    then show ?thesis using True n
      by (simp add: ntoa_digits.simps [of val] numeral_text_step [OF b(1), of flags "unat val"] PRINTF_NTOA_BUFFER_SIZE_def d Let_def)
  next
    case False
    then consider "unat val < unat base" | "length buf = 31" "\<not> unat val < unat base" using less.prems z by fastforce
    then show ?thesis using less.prems z
      by cases (auto simp: ntoa_digits.simps [of val] numeral_text_step [OF b(1), of flags "unat val"] PRINTF_NTOA_BUFFER_SIZE_def d Let_def)
  qed
qed

text \<open>Flags that only say how wide the argument is.\<close>

definition plain_flags :: "u32 \<Rightarrow> bool" where
  "plain_flags f \<longleftrightarrow> \<not> has f FLAGS_ZEROPAD \<and> \<not> has f FLAGS_LEFT \<and> \<not> has f FLAGS_PLUS \<and> \<not> has f FLAGS_SPACE \<and>
     \<not> has f FLAGS_HASH \<and> \<not> has f FLAGS_PRECISION"

definition lpad :: "u8 \<Rightarrow> nat \<Rightarrow> u8 list \<Rightarrow> u8 list" where
  "lpad c n cs = replicate (n - length cs) c @ cs"

lemma and_not_id: "\<not> has f x \<Longrightarrow> f AND NOT x = f"
proof -
  assume "\<not> has f x"
  then have "f AND (x OR NOT x) = f AND NOT x" by (simp only: has_def bit.conj_disj_distrib not_not or.left_neutral)
  then show ?thesis by simp
qed

lemma ntoa_format_plain:
  assumes "plain_flags f"
  shows "ntoa_format buf neg b 0 width f = lpad 32 (unat width) (if neg \<and> length buf < 32 then 45 # rev buf else rev buf)"
proof -
  have flags: "\<not> has f FLAGS_ZEROPAD" "\<not> has f FLAGS_LEFT" "\<not> has f FLAGS_PLUS" "\<not> has f FLAGS_SPACE" "\<not> has f FLAGS_HASH"
    using assms by (simp_all add: plain_flags_def)
  show ?thesis unfolding ntoa_format_def Let_def
    by (simp add: flags zero_fill_def add_char_def out_rev_def lpad_def PRINTF_NTOA_BUFFER_SIZE_def Let_def)
qed

lemma ntoa_plain:
  assumes "plain_flags f" and "2 \<le> base" and "base \<le> 16"
  shows "ntoa_long val neg base 0 width f = lpad 32 (unat width)
      (let ds = take 32 (rev (numeral_text f (unat base) (unat val)))
       in if neg \<and> length ds < 32 then 45 # rev ds else rev ds)"
proof -
  have "\<not> has f FLAGS_HASH" "\<not> has f FLAGS_PRECISION" using assms(1) by (simp_all add: plain_flags_def)
  moreover from this(1) have "f AND NOT FLAGS_HASH = f" by (rule and_not_id)
  moreover have "ntoa_digits val base f [] = take 32 (rev (numeral_text f (unat base) (unat val)))"
    using ntoa_digits_text [OF assms(2,3), of "[]"] by simp
  ultimately show ?thesis unfolding ntoa_long_def Let_def by (simp add: ntoa_format_plain [OF assms(1)] cong: if_cong)
qed

lemma ntoa_long_long_eq: "ntoa_long_long = ntoa_long"
  by (intro ext) (simp only: ntoa_long_long_def ntoa_long_def)

end
