(* ===== verification/Printf_Correct.thy ===== *)
theory Printf_Correct
  imports Printf
begin

text \<open>
  What the formatter of \<open>Printf\<close> prints: the numerals of the integer conversions, the text of a
  format with any number of conversions, and the two theorems on the public functions: \<open>snprintf_\<close> never
  leaves its buffer, and \<open>printf_\<close> hands exactly the text of its format to \<open>_putchar\<close>.
\<close>

section \<open>Numerals\<close>
lemma numeral_length:
  assumes "2 \<le> b" and "n < b ^ k" and "0 < k"
  shows "length (numeral_text f b n) \<le> k"
  using assms(2,3)
proof (induction k arbitrary: n)
  case (Suc k)
  show ?case
  proof (cases "n < b")
    case False
    then have k: "0 < k" using Suc.prems(1) by (cases k) auto
    have "n div b < b ^ k" using Suc.prems(1) assms(1) by (simp add: div_less_iff_less_mult mult.commute)
    from Suc.IH [OF this k] False show ?thesis by (simp add: numeral_text_step [OF assms(1), of f n])
  qed (simp add: numeral_text_step [OF assms(1), of f n])
qed simp

lemma ntoa_plain_short:
  assumes "plain_flags f" and "base \<in> {8, 10, 16}"
  shows "ntoa_long val neg base 0 width f = lpad 32 (unat width) ((if neg then [45] else []) @ numeral_text f (unat base) (unat val))"
proof -
  have "2 \<le> base" "base \<le> 16" "2 \<le> unat base" "2 ^ 64 \<le> unat base ^ 22" using assms(2) by auto
  moreover from this have "length (numeral_text f (unat base) (unat val)) \<le> 22"
    by (intro numeral_length) (auto intro: less_le_trans [OF unat_u64_less])
  ultimately show ?thesis by (simp add: ntoa_plain [OF assms(1)] Let_def)
qed

lemma spec_flags_plain:
  assumes "plain_flags f" and "c \<noteq> ch CHR ''X''"
  shows "spec_flags c f = f"
proof -
  have h: "\<not> has f FLAGS_HASH" "\<not> has f FLAGS_PRECISION" using assms(1) by (simp_all add: plain_flags_def)
  have "\<not> has f (FLAGS_PLUS OR FLAGS_SPACE)" using assms(1) by (simp add: plain_flags_def has_def bit.conj_disj_distrib)
  from and_not_id [OF this] and_not_id [OF h(1)] h(2) assms(2) show ?thesis unfolding spec_flags_def Let_def by (simp cong: if_cong)
qed

lemma convert_unsigned_text:
  assumes "plain_flags f" and "has f FLAGS_LONG" and "c = ch CHR ''u'' \<or> c = ch CHR ''x'' \<or> c = ch CHR ''o''"
  shows "convert_int c v 0 width f = lpad 32 (unat width) (numeral_text f (unat (spec_base c)) (unat v))"
proof -
  have b: "spec_base c \<in> {8, 10, 16}" "c \<noteq> ch CHR ''X''" "c \<noteq> ch CHR ''d''" "c \<noteq> ch CHR ''i''" using assms(3) by (auto simp: spec_base_def)
  show ?thesis using assms(2) b
    by (simp add: convert_int_def Let_def spec_flags_plain [OF assms(1) b(2)] convert_unsigned_def ntoa_long_long_eq ntoa_plain_short [OF assms(1) b(1)])
qed

lemma magnitude64: "unat (if 0 < sint v then v else 0 - v) = nat \<bar>sint (v :: u64)\<bar>"
proof (cases "0 < sint v")
  case True
  have "sint v < 2 ^ 63" using sint_less [of v] by simp
  moreover have "uint (word_of_int (sint v) :: u64) = sint v mod 2 ^ 64" by (simp only: uint_word_of_int) simp
  ultimately have "uint v = sint v" using True by (simp add: mod_pos_pos_trivial)
  then show ?thesis using True by (simp add: unat_eq_nat_uint)
next
  case False
  have r: "- (2 ^ 63) \<le> sint v" using sint_ge [of v] by simp
  have "0 - v = word_of_int (- sint v)" by simp
  then have "uint (0 - v) = (- sint v) mod 2 ^ 64" by (simp only: uint_word_of_int) simp
  also have "\<dots> = - sint v" using r False by (intro mod_pos_pos_trivial) auto
  finally show ?thesis using False by (simp add: unat_eq_nat_uint)
qed

lemma magnitude32: "unat (ucast (word_of_int (if 0 < sint v then sint v else 0 - sint v) :: u32) :: u64) = nat \<bar>sint (v :: u32)\<bar>"
proof -
  have r: "- (2 ^ 31) \<le> sint v" "sint v < 2 ^ 31" using sint_ge [of v] sint_less [of v] by simp_all
  have "uint (word_of_int \<bar>sint v\<bar> :: u32) = \<bar>sint v\<bar> mod 2 ^ 32" by (simp only: uint_word_of_int) simp
  also have "\<dots> = \<bar>sint v\<bar>" using r by (intro mod_pos_pos_trivial) auto
  finally have "unat (word_of_int \<bar>sint v\<bar> :: u32) = nat \<bar>sint v\<bar>" by (simp only: unat_eq_nat_uint)
  moreover have "(if 0 < sint v then sint v else 0 - sint v) = \<bar>sint v\<bar>" by simp
  moreover have "nat \<bar>sint v\<bar> < 2 ^ 64" using r by (simp add: nat_less_iff)
  ultimately show ?thesis by (simp add: unsigned_ucast_eq take_bit_nat_eq_self)
qed

lemma convert_signed_text:
  assumes "plain_flags f" and "c = ch CHR ''d'' \<or> c = ch CHR ''i''"
  shows "has f FLAGS_LONG \<Longrightarrow> convert_int c v 0 width f = lpad 32 (unat width) (signed_dec (sint v))"
    and "\<not> has f FLAGS_LONG \<Longrightarrow> \<not> has f FLAGS_LONG_LONG \<Longrightarrow> \<not> has f FLAGS_SHORT \<Longrightarrow> \<not> has f FLAGS_CHAR \<Longrightarrow>
      convert_int c v 0 width f = lpad 32 (unat width) (signed_dec (sint (ucast v :: u32)))"
proof -
  have b: "spec_base c = 10" "c \<noteq> ch CHR ''X''" using assms(2) by (auto simp: spec_base_def)
  have eq: "convert_int c v 0 width f = convert_signed v 10 0 width f"
    using assms(2) by (auto simp: convert_int_def Let_def spec_flags_plain [OF assms(1) b(2)] b(1))
  have n: "ntoa_long val neg 10 0 width f = lpad 32 (unat width) ((if neg then [45] else []) @ dec (unat val))" for val neg
    using ntoa_plain_short [OF assms(1), of 10] by (simp add: numeral_text_dec)
  show "convert_int c v 0 width f = lpad 32 (unat width) (signed_dec (sint v))" if "has f FLAGS_LONG"
    using that unfolding eq convert_signed_def ntoa_long_long_eq n magnitude64 by (simp add: signed_dec_def)
  show "convert_int c v 0 width f = lpad 32 (unat width) (signed_dec (sint (ucast v :: u32)))"
    if "\<not> has f FLAGS_LONG" "\<not> has f FLAGS_LONG_LONG" "\<not> has f FLAGS_SHORT" "\<not> has f FLAGS_CHAR"
    using that unfolding eq convert_signed_def Let_def by (simp only: if_False n magnitude32) (simp add: signed_dec_def)
qed

section \<open>Formats\<close>
lemma cstr_append: "cstr m p (cs @ ds) \<Longrightarrow> cstr m (p + of_nat (length cs)) ds"
proof (induction cs arbitrary: p)
  case (Cons c cs)
  from Cons.IH [of "p + 1"] Cons.prems show ?case by (simp add: cstr_Cons add.assoc)
qed simp

lemma verbatim_run:
  assumes "cstr fm p (cs @ rest)" and "37 \<notin> set cs"
  shows "while_outcome (length cs + n) (vsn_more fm) (vsn_round ftoa etoa fm va out_text) (p, k, idx, t) =
    while_outcome n (vsn_more fm) (vsn_round ftoa etoa fm va out_text) (p + of_nat (length cs), k, idx + of_nat (length cs), t @ cs)"
  using assms
proof (induction cs arbitrary: p idx t)
  case (Cons c cs)
  then have c: "fm p = c" "c \<noteq> 0" "c \<noteq> 37" "cstr fm (p + 1) (cs @ rest)" by (auto simp: cstr_Cons)
  from Cons.IH [OF c(4), of "idx + 1" "t @ [c]"] Cons.prems(2) c(1-3) show ?case
    by (simp add: vsn_step_eqs vsn_step_def emit_text out_text_def algebra_simps)
qed simp

lemma strnlen_loop:
  assumes "cstr m s cs" and "length cs < fuel" and "length cs \<le> unat n"
  shows "while_outcome fuel (\<lambda>(s, n). m s \<noteq> 0 \<and> n \<noteq> 0) (\<lambda>(s, n). Done (s + 1, n - 1)) (s, n :: u64) =
    Done (s + of_nat (length cs), n - of_nat (length cs))"
  using assms
proof (induction cs arbitrary: s n fuel)
  case (Cons c cs)
  then obtain k where k: "fuel = Suc k" "length cs < k" by (cases fuel) auto
  have n: "n \<noteq> 0" using Cons.prems(3) by auto
  have "unat (n - 1) = unat n - 1" by (rule unat_minus_one) (rule n)
  then have l: "length cs \<le> unat (n - 1)" using Cons.prems(3) by simp
  from Cons.IH [OF _ k(2) l, of "s + 1"] Cons.prems(1) n show ?case by (simp add: k(1) cstr_Cons algebra_simps)
qed (auto simp: while_outcome_step)

lemma string_loop:
  assumes "cstr m p cs" and "length cs < fuel"
  shows "\<exists>q r. while_outcome fuel (\<lambda>(p, precision :: u32, cs). m p \<noteq> 0 \<and> (\<not> False \<or> precision \<noteq> 0))
    (\<lambda>(p, precision, cs). Done (p + 1, precision - 1, cs @ [m p])) (p, pr, ds) = Done (q, r, ds @ cs)"
  using assms
proof (induction cs arbitrary: p pr ds fuel)
  case (Cons c cs)
  then obtain k where k: "fuel = Suc k" "length cs < k" by (cases fuel) auto
  from Cons.IH [OF _ k(2), of "p + 1" "pr - 1" "ds @ [c]"] Cons.prems(1) show ?case by (simp add: k(1) cstr_Cons)
qed (auto simp: while_outcome_step)

lemma convert_string_plain:
  assumes "cstr m p cs" and "length cs < 2 ^ 32" and "plain_flags f"
  shows "convert_string m p 0 width f = Done (lpad 32 (unat width) cs)"
proof -
  have f: "\<not> has f FLAGS_PRECISION" "\<not> has f FLAGS_LEFT" using assms(3) by (simp_all add: plain_flags_def)
  have "unat (- 1 :: u64) = 2 ^ 64 - 1" by (simp add: unsigned_minus_1_eq_mask mask_eq_exp_minus_1)
  then have l: "length cs < 2 ^ 64 + 1" "length cs \<le> unat (- 1 :: u64)" using assms(2) by simp_all
  have u: "(ucast (p + of_nat (length cs) - p) :: u32) = of_nat (length cs)"
    using assms(2) unfolding add_diff_cancel_left' by (simp add: unsigned_of_nat take_bit_nat_eq_self)
  have "unat (of_nat (length cs) :: u32) = length cs" using assms(2) unfolding unsigned_of_nat take_bit_eq_mod by simp
  moreover obtain q r where "while_outcome (2 ^ 64 + 1) (\<lambda>(p, precision :: u32, cs). m p \<noteq> 0 \<and> (\<not> False \<or> precision \<noteq> 0))
    (\<lambda>(p, precision, cs). Done (p + 1, precision - 1, cs @ [m p])) (p, 0, []) = Done (q, r, [] @ cs)"
    using string_loop [OF assms(1) l(1)] by blast
  moreover have "strnlen_s m p (- 1) = Done (of_nat (length cs))"
    unfolding strnlen_s_def strnlen_loop [OF assms(1) l] by (simp only: u bind_outcome.simps prod.case)
  ultimately show ?thesis unfolding convert_string_def Let_def by (simp add: f lpad_def)
qed

text \<open>The hexadecimal numeral of a number.\<close>

definition hex_text :: "bool \<Rightarrow> nat \<Rightarrow> u8 list" where
  "hex_text upper n = map (\<lambda>d. of_char ((if upper then ''0123456789ABCDEF'' else ''0123456789abcdef'') ! d)) (digits_of 16 n)"

lemma digits_of_less: "2 \<le> b \<Longrightarrow> d \<in> set (digits_of b n) \<Longrightarrow> d < b"
proof (induction n rule: less_induct)
  case (less n)
  show ?case
  proof (cases "n < b")
    case False
    have "n div b < n" using False less.prems(1) by simp
    from less.IH [OF this] less.prems False show ?thesis by (subst (asm) digits_of.simps) (auto simp: digits_of.simps [of b n])
  qed (use less.prems in \<open>simp add: digits_of.simps [of b n]\<close>)
qed

lemma numeral_text_hex: "numeral_text f 16 n = hex_text (has f FLAGS_UPPERCASE) n"
proof -
  have "\<forall>b \<in> set [True, False]. \<forall>d \<in> set [0..<16].
      (if (of_nat d :: u8) < 10 then 48 + of_nat d else (if b then 65 else 97) + of_nat d - 10) =
      (of_char ((if b then ''0123456789ABCDEF'' else ''0123456789abcdef'') ! d) :: u8)"
    by code_simp
  moreover have "has f FLAGS_UPPERCASE \<in> set [True, False]" "d \<in> set [0..<16]" if "d \<in> set (digits_of 16 n)" for d
    using digits_of_less [OF _ that] by simp_all
  ultimately show ?thesis unfolding numeral_text_def hex_text_def digit_char_def by (intro map_cong refl) blast
qed

text \<open>What the kernel's log messages use: a conversion and the text of its argument.\<close>

definition conversion_text :: "string \<Rightarrow> u64 \<Rightarrow> u8 list option" where
  "conversion_text spec v =
     (if spec = ''%llu'' \<or> spec = ''%lu'' then Some (dec (unat v))
      else if spec = ''%lld'' \<or> spec = ''%ld'' then Some (signed_dec (sint v))
      else if spec = ''%d'' \<or> spec = ''%i'' then Some (signed_dec (sint (ucast v :: u32)))
      else if spec = ''%u'' then Some (dec (unat (ucast v :: u32)))
      else if spec = ''%x'' then Some (hex_text False (unat (ucast v :: u32)))
      else if spec = ''%llx'' \<or> spec = ''%lx'' then Some (hex_text False (unat v))
      else if spec = ''%p'' then Some (lpad 48 16 (hex_text True (unat v)))
      else None)"

lemma numeral_text_cong: "has f FLAGS_UPPERCASE = has g FLAGS_UPPERCASE \<Longrightarrow> numeral_text f b n = numeral_text g b n"
  by (simp add: numeral_text_def digit_char_def)

lemma has_or: "has (f OR g) h \<longleftrightarrow> has f h \<or> has g h"
  by (auto simp: has_def bit.conj_disj_distrib2 or_eq_0_iff)

lemma has_const [simp]:
  "\<not> has 0 f" "has FLAGS_LONG FLAGS_LONG" "\<not> has FLAGS_LONG FLAGS_LONG_LONG" "has FLAGS_LONG_LONG FLAGS_LONG_LONG"
  "\<not> has FLAGS_LONG FLAGS_UPPERCASE" "\<not> has FLAGS_LONG_LONG FLAGS_UPPERCASE" "\<not> has FLAGS_ZEROPAD FLAGS_UPPERCASE" 
  "plain_flags 0" "plain_flags FLAGS_LONG" "plain_flags (FLAGS_LONG OR FLAGS_LONG_LONG)"
  by (simp_all add: has_def plain_flags_def FLAGS_ZEROPAD_def FLAGS_LEFT_def FLAGS_PLUS_def FLAGS_SPACE_def FLAGS_HASH_def
    FLAGS_UPPERCASE_def FLAGS_LONG_def FLAGS_LONG_LONG_def FLAGS_PRECISION_def)

lemma ntoa_format_zeros:
  assumes "has f FLAGS_ZEROPAD" and "\<not> has f FLAGS_LEFT" and "\<not> has f FLAGS_PLUS" and "\<not> has f FLAGS_SPACE" and "\<not> has f FLAGS_HASH"
    and "unat width \<le> 32" and "length buf \<le> 32"
  shows "ntoa_format buf False b 0 width f = lpad 48 (unat width) (rev buf)"
proof -
  have sign: "\<not> has f (FLAGS_PLUS OR FLAGS_SPACE)" using assms(3,4) by (simp add: has_def bit.conj_disj_distrib)
  show ?thesis unfolding ntoa_format_def Let_def using assms(6,7)
    by (simp add: assms(1-5) sign zero_fill_def out_rev_def lpad_def PRINTF_NTOA_BUFFER_SIZE_def Let_def)
qed

lemma convert_pointer_text: "convert_pointer v 0 0 = lpad 48 16 (hex_text True (unat v))"
proof -
  define f where "f = (0 OR FLAGS_ZEROPAD OR FLAGS_UPPERCASE :: u32)"
  have flags: "has f FLAGS_ZEROPAD" "\<not> has f FLAGS_LEFT" "\<not> has f FLAGS_PLUS" "\<not> has f FLAGS_SPACE" "\<not> has f FLAGS_HASH"
    "\<not> has f FLAGS_PRECISION" "has f FLAGS_UPPERCASE = has FLAGS_UPPERCASE FLAGS_UPPERCASE"
    by (simp_all add: f_def has_def FLAGS_ZEROPAD_def FLAGS_LEFT_def FLAGS_PLUS_def FLAGS_SPACE_def FLAGS_HASH_def FLAGS_UPPERCASE_def FLAGS_PRECISION_def)
  have up: "hex_text True (unat v) = numeral_text FLAGS_UPPERCASE 16 (unat v)"
    by (simp add: numeral_text_hex) (simp add: has_def FLAGS_UPPERCASE_def)
  let ?ds = "numeral_text FLAGS_UPPERCASE 16 (unat v)"
  have l: "length ?ds \<le> 16" by (rule numeral_length) simp_all
  have "ntoa_digits v 16 f [] = rev ?ds"
    using ntoa_digits_text [of 16 "[]" v f] l numeral_text_cong [OF flags(7)] by simp
  then show ?thesis using l
    unfolding up convert_pointer_def ntoa_long_long_def f_def [symmetric] and_not_id [OF flags(5)] Let_def
    by (simp add: flags(6) ntoa_format_zeros [OF flags(1-5)] cong: if_cong)
qed

lemma lpad_0 [simp]: "lpad c 0 cs = cs"
  by (simp add: lpad_def)

lemma has_long: "has FLAGS_LONG FLAGS_LONG" "has (FLAGS_LONG OR FLAGS_LONG_LONG) FLAGS_LONG"
  by (simp_all add: has_or)

lemma convert_long:
  assumes "f = FLAGS_LONG \<or> f = FLAGS_LONG OR FLAGS_LONG_LONG"
  shows "convert_int 117 v 0 0 f = dec (unat v)" "convert_int 120 v 0 0 f = hex_text False (unat v)"
    "convert_int 100 v 0 0 f = signed_dec (sint v)"
proof -
  have f: "plain_flags f" "has f FLAGS_LONG" "has f FLAGS_UPPERCASE = has 0 FLAGS_UPPERCASE" using assms has_long by (auto simp: has_or)
  show "convert_int 117 v 0 0 f = dec (unat v)"
    using convert_unsigned_text [OF f(1,2), of 117 v 0] by (simp add: spec_base_def numeral_text_dec)
  show "convert_int 120 v 0 0 f = hex_text False (unat v)"
    using convert_unsigned_text [OF f(1,2), of 120 v 0] f(3) by (simp add: spec_base_def numeral_text_hex)
  show "convert_int 100 v 0 0 f = signed_dec (sint v)"
    using convert_signed_text(1) [OF f(1) _ f(2), of 100 v 0] by simp
qed

lemma convert_plain:
  "convert_int 100 v 0 0 0 = signed_dec (sint (ucast v :: u32))" "convert_int 105 v 0 0 0 = signed_dec (sint (ucast v :: u32))"
  "convert_int 117 v 0 0 0 = dec (unat (ucast v :: u32))" "convert_int 120 v 0 0 0 = hex_text False (unat (ucast v :: u32))"
proof -
  show "convert_int 100 v 0 0 0 = signed_dec (sint (ucast v :: u32))" "convert_int 105 v 0 0 0 = signed_dec (sint (ucast v :: u32))"
    using convert_signed_text(2) [of 0 100 v 0] convert_signed_text(2) [of 0 105 v 0] by simp_all
  have "unat (ucast x :: u64) = unat x" for x :: u32
    using unsigned_less [of x, where 'a = nat] by (simp add: unsigned_ucast_eq take_bit_nat_eq_self)
  note u = this [of "ucast v"]
  then show "convert_int 117 v 0 0 0 = dec (unat (ucast v :: u32))"
    using ntoa_plain_short [of 0 10 _ False 0] spec_flags_plain [of 0 117]
    by (simp add: convert_int_def convert_unsigned_def spec_base_def numeral_text_dec Let_def)
  show "convert_int 120 v 0 0 0 = hex_text False (unat (ucast v :: u32))"
    using u ntoa_plain_short [of 0 16 _ False 0] spec_flags_plain [of 0 120]
    by (simp add: convert_int_def convert_unsigned_def spec_base_def numeral_text_hex Let_def)
qed

lemma parse_none:
  assumes "fm p \<in> {100, 105, 108, 112, 115, 117, 120}"
  shows "parse_flags fm p = Done (0, p)" "parse_width fm va 0 p k = Done (0, 0, p, k)" "parse_precision fm va 0 p k = Done (0, 0, p, k)"
proof -
  have "flag_of (fm p) = 0" "\<not> is_digit (fm p)" "fm p \<noteq> 42" "fm p \<noteq> 46" using assms by (auto simp: flag_of_def is_digit_def)
  then show "parse_flags fm p = Done (0, p)" "parse_width fm va 0 p k = Done (0, 0, p, k)" "parse_precision fm va 0 p k = Done (0, 0, p, k)"
    by (simp_all add: parse_flags_def while_outcome_step parse_width_def parse_precision_def)
qed

lemma vsn_step_parsed:
  assumes "fm p = 37" and "fm (p + 1) \<in> {100, 105, 108, 112, 115, 117, 120}"
  shows "vsn_step ftoa etoa fm va p k =
    (case parse_length fm 0 (p + 1) of (flags, p) \<Rightarrow> convert_spec ftoa etoa fm va flags 0 0 p k)"
  unfolding vsn_step_def using assms(1) by (simp add: parse_none [of fm "p + 1", OF assms(2)])

lemma convert_spec_int:
  "fm p \<in> {100, 117, 120} \<Longrightarrow> convert_spec ftoa etoa fm va flags w pr p k = Done (convert_int (fm p) (va k) pr w flags, p + 1, k + 1)"
  by (auto simp: convert_spec_def)

lemma vsn_step_ll:
  assumes "fm p = 37" and "fm (p + 1) = 108" and "fm (p + 2) = 108" and "fm (p + 3) = c" and "c \<in> {100, 117, 120}"
  shows "vsn_step ftoa etoa fm va p k = Done (convert_int c (va k) 0 0 (FLAGS_LONG OR FLAGS_LONG_LONG), p + 4, k + 1)"
proof -
  have "parse_length fm 0 (p + 1) = (FLAGS_LONG OR FLAGS_LONG_LONG, p + 3)"
    using assms by (simp add: parse_length_def add.assoc)
  then show ?thesis using assms by (simp add: vsn_step_parsed convert_spec_int add.assoc)
qed

lemma vsn_step_l:
  assumes "fm p = 37" and "fm (p + 1) = 108" and "fm (p + 2) = c" and "c \<in> {100, 117, 120}"
  shows "vsn_step ftoa etoa fm va p k = Done (convert_int c (va k) 0 0 FLAGS_LONG, p + 3, k + 1)"
proof -
  have "parse_length fm 0 (p + 1) = (FLAGS_LONG, p + 2)"
    using assms by (auto simp: parse_length_def add.assoc)
  then show ?thesis using assms by (simp add: vsn_step_parsed convert_spec_int add.assoc)
qed

lemma vsn_step_plain:
  assumes "fm p = 37" and "fm (p + 1) \<in> {100, 105, 112, 115, 117, 120}"
  shows "vsn_step ftoa etoa fm va p k = convert_spec ftoa etoa fm va 0 0 0 (p + 1) k"
proof -
  have "parse_length fm 0 (p + 1) = (0, p + 1)" using assms by (auto simp: parse_length_def)
  moreover have "fm (p + 1) \<in> {100, 105, 108, 112, 115, 117, 120}" using assms(2) by auto
  ultimately show ?thesis using vsn_step_parsed [of fm p, OF assms(1)] by simp
qed

lemma vsn_step_conversion:
  assumes "cstr fm p (map of_char spec @ post)" and "conversion_text spec (va k) = Some txt"
  shows "vsn_step ftoa etoa fm va p k = Done (txt, p + of_nat (length spec), k + 1)"
proof -
  have "spec = ''%llu'' \<or> spec = ''%lu'' \<or> spec = ''%lld'' \<or> spec = ''%ld'' \<or> spec = ''%d'' \<or> spec = ''%i'' \<or> spec = ''%u''
    \<or> spec = ''%x'' \<or> spec = ''%llx'' \<or> spec = ''%lx'' \<or> spec = ''%p''"
    using assms(2) unfolding conversion_text_def by (metis option.distinct(1))
  then consider (ll) c where "spec = ''%ll'' @ [c]" "c \<in> {CHR ''u'', CHR ''d'', CHR ''x''}"
    | (l) c where "spec = ''%l'' @ [c]" "c \<in> {CHR ''u'', CHR ''d'', CHR ''x''}"
    | (plain) c where "spec = ''%'' @ [c]" "c \<in> {CHR ''u'', CHR ''d'', CHR ''i'', CHR ''x'', CHR ''p''}"
    by (elim disjE) simp_all
  then show ?thesis
  proof cases
    case ll
    with assms(1) have "fm p = 37" "fm (p + 1) = 108" "fm (p + 2) = 108" "fm (p + 3) = of_char c" "(of_char c :: u8) \<in> {100, 117, 120}"
      by (auto simp: cstr_Cons add.assoc)
    from vsn_step_ll [of fm p, OF this] show ?thesis using ll assms(2) by (auto simp: conversion_text_def convert_long)
  next
    case l
    with assms(1) have "fm p = 37" "fm (p + 1) = 108" "fm (p + 2) = of_char c" "(of_char c :: u8) \<in> {100, 117, 120}"
      by (auto simp: cstr_Cons add.assoc)
    from vsn_step_l [of fm p, OF this] show ?thesis using l assms(2) by (auto simp: conversion_text_def convert_long)
  next
    case plain
    with assms(1) have f: "fm p = 37" "fm (p + 1) = of_char c" "(of_char c :: u8) \<in> {100, 105, 112, 117, 120}"
      by (auto simp: cstr_Cons add.assoc)
    then have "fm (p + 1) \<in> {100, 105, 112, 115, 117, 120}" by auto
    from vsn_step_plain [of fm p, OF f(1) this] f(2) show ?thesis using plain assms(2)
      by (auto simp: conversion_text_def convert_plain convert_spec_def convert_pointer_text add.assoc)
  qed
qed

text \<open>What a conversion of the first argument prints; \<open>%s\<close> prints the string it points to.\<close>

definition prints :: "memory \<Rightarrow> string \<Rightarrow> u64 \<Rightarrow> u8 list \<Rightarrow> bool" where
  "prints fm spec v txt \<longleftrightarrow> conversion_text spec v = Some txt \<or> spec = ''%s'' \<and> cstr fm v txt \<and> length txt < 2 ^ 32"

lemma vsn_step_prints:
  assumes "cstr fm p (map of_char spec @ post)" and "prints fm spec (va k) txt"
  shows "vsn_step ftoa etoa fm va p k = Done (txt, p + of_nat (length spec), k + 1)"
proof (cases "spec = ''%s''")
  case True
  have s: "cstr fm (va k) txt" "length txt < 2 ^ 32" using assms(2) True by (auto simp: prints_def conversion_text_def)
  have f: "fm p = 37" "fm (p + 1) = 115" using assms(1) True by (simp_all add: cstr_Cons)
  then have "fm (p + 1) \<in> {100, 105, 112, 115, 117, 120}" by simp
  from vsn_step_plain [of fm p, OF f(1) this] f(2) convert_string_plain [OF s, of 0 0] True show ?thesis
    by (simp add: convert_spec_def add.assoc)
next
  case False
  with assms vsn_step_conversion show ?thesis by (auto simp: prints_def)
qed

lemma prints_spec: "prints fm spec v txt \<Longrightarrow> spec \<noteq> []"
  by (auto simp: prints_def conversion_text_def)

lemma hex_text_nonzero: "0 \<notin> set (hex_text u n)"
proof -
  have "\<forall>b \<in> set [True, False]. \<forall>d \<in> set [0..<16].
      (of_char ((if b then ''0123456789ABCDEF'' else ''0123456789abcdef'') ! d) :: u8) \<noteq> 0"
    by code_simp
  moreover have "u \<in> set [True, False]" by simp
  ultimately have n: "(of_char ((if u then ''0123456789ABCDEF'' else ''0123456789abcdef'') ! d) :: u8) \<noteq> 0" if "d < 16" for d
    using that by (metis atLeastLessThan_iff le0 set_upt)
  show ?thesis using n digits_of_less [of 16 _ n] by (force simp: hex_text_def)
qed

lemma dec_nonzero: "0 \<notin> set (dec n)"
proof (induction n rule: dec.induct)
  case (1 n)
  then show ?case using digit_byte(2) [of n] digit_byte(2) [of "n mod 10"]
    by (subst dec.simps) (auto simp del: of_nat_add)
qed

lemma cstr_nonzero: "cstr m p cs \<Longrightarrow> 0 \<notin> set cs"
  by (auto simp: cstr_def in_set_conv_nth)

lemma prints_nonzero:
  assumes "prints fm spec v txt"
  shows "0 \<notin> set txt"
proof (cases "spec = ''%s''")
  case True
  then have "cstr fm v txt" using assms by (auto simp: prints_def conversion_text_def)
  then show ?thesis by (rule cstr_nonzero)
next
  case False
  have d: "0 \<notin> set (dec n)" for n by (rule dec_nonzero)
  then have s: "0 \<notin> set (signed_dec x)" for x by (simp add: signed_dec_def)
  have h: "0 \<notin> set (hex_text u n)" "0 \<notin> set (lpad 48 16 (hex_text u n))" for u n
    using hex_text_nonzero [of u n] by (simp_all add: lpad_def)
  have "conversion_text spec v = Some txt" using assms False unfolding prints_def by metis
  then show ?thesis unfolding conversion_text_def by (metis d s h option.distinct(1) option.inject)
qed

text \<open>Handing a text to a character function.\<close>

primrec put_text :: "(u8 \<Rightarrow> 's \<Rightarrow> 's outcome) \<Rightarrow> u8 list \<Rightarrow> 's \<Rightarrow> 's outcome" where
  "put_text putchar [] s = Done s"
| "put_text putchar (c # cs) s = bind_outcome (putchar c s) (put_text putchar cs)"

lemma emit_char:
  assumes "0 \<notin> set cs"
  shows "emit (out_char putchar) cs idx s = bind_outcome (put_text putchar cs s) (\<lambda>s. Done (idx + of_nat (length cs), s))"
  using assms
proof (induction cs arbitrary: idx s)
  case (Cons c cs)
  then show ?case by (cases "putchar c s") (auto simp: out_char_def algebra_simps)
qed simp

lemma sint_length: "n < 2 ^ 31 \<Longrightarrow> sint (ucast (of_nat n :: u64) :: u32) = int n"
  unfolding unsigned_of_nat take_bit_eq_mod signed_of_nat by (simp add: signed_take_bit_int_eq_self)

lemma printf_text:
  assumes "vsn_text ftoa etoa fm format va = Done cs" and "length cs < 2 ^ 31" and "0 \<notin> set cs"
  shows "printf ftoa etoa putchar fm format va s = bind_outcome (put_text putchar cs s) (\<lambda>s. Done (int (length cs), s))"
proof -
  from vsnprintf_loop_emits [OF assms(1)] obtain p k where
    "vsnprintf_loop ftoa etoa fm va (out_char putchar) format s =
      bind_outcome (emit (out_char putchar) cs 0 s) (\<lambda>(idx, s). Done (p, k, idx, s))" by metis
  then show ?thesis unfolding printf_def vsnprintf_core_def Let_def emit_char [OF assms(3)]
    by (cases "put_text putchar cs s") (simp_all add: out_char_def sint_length [OF assms(2)])
qed

text \<open>A format, cut into the pieces it is read as: ordinary characters, conversions, and the escaped
  percent sign; and the text it stands for when the next argument to use is the one numbered \<open>k\<close>.\<close>

datatype piece = Plain "u8 list" | Conv string | Percent

fun format_of :: "piece list \<Rightarrow> u8 list" where
  "format_of [] = []"
| "format_of (Plain cs # ps) = cs @ format_of ps"
| "format_of (Conv spec # ps) = map of_char spec @ format_of ps"
| "format_of (Percent # ps) = 37 # 37 # format_of ps"

fun renders :: "memory \<Rightarrow> (nat \<Rightarrow> u64) \<Rightarrow> nat \<Rightarrow> piece list \<Rightarrow> u8 list \<Rightarrow> bool" where
  "renders fm va k [] txt \<longleftrightarrow> txt = []"
| "renders fm va k (Plain cs # ps) txt \<longleftrightarrow> 37 \<notin> set cs \<and> (\<exists>t. txt = cs @ t \<and> renders fm va k ps t)"
| "renders fm va k (Conv spec # ps) txt \<longleftrightarrow>
     (\<exists>a t. txt = a @ t \<and> prints fm spec (va k) a \<and> renders fm va (k + 1) ps t)"
| "renders fm va k (Percent # ps) txt \<longleftrightarrow> (\<exists>t. txt = 37 # t \<and> renders fm va k ps t)"

lemma vsn_step_percent:
  assumes "fm p = 37" and "fm (p + 1) = 37"
  shows "vsn_step ftoa etoa fm va p k = Done ([37], p + 2, k)"
proof -
  have "flag_of (fm (p + 1)) = 0" "\<not> is_digit (fm (p + 1))" "fm (p + 1) \<noteq> 42" "fm (p + 1) \<noteq> 46"
    using assms(2) by (auto simp: flag_of_def is_digit_def)
  then have "parse_flags fm (p + 1) = Done (0, p + 1)" "parse_width fm va 0 (p + 1) k = Done (0, 0, p + 1, k)"
    "parse_precision fm va 0 (p + 1) k = Done (0, 0, p + 1, k)" "parse_length fm 0 (p + 1) = (0, p + 1)"
    using assms(2) by (simp_all add: parse_flags_def while_outcome_step parse_width_def parse_precision_def parse_length_def)
  then show ?thesis unfolding vsn_step_def using assms by (simp add: convert_spec_def add.assoc)
qed

lemma vsn_round_text:
  assumes "vsn_step ftoa etoa fm va p k = Done (a, q, j)" and "fm p \<noteq> 0"
  shows "while_outcome (Suc n) (vsn_more fm) (vsn_round ftoa etoa fm va out_text) (p, k, idx, t) =
    while_outcome n (vsn_more fm) (vsn_round ftoa etoa fm va out_text) (q, j, idx + of_nat (length a), t @ a)"
  using assms by (simp add: vsn_step_eqs emit_text)

lemma renders_run:
  assumes "cstr fm p (format_of ps)" and "renders fm va k ps txt" and "length (format_of ps) < n"
  shows "\<exists>q j. while_outcome n (vsn_more fm) (vsn_round ftoa etoa fm va out_text) (p, k, idx, t) =
    Done (q, j, idx + of_nat (length txt), t @ txt)"
  using assms
proof (induction ps arbitrary: p k "txt" n idx t)
  case Nil
  then show ?case by (cases n) (simp_all add: vsn_step_eqs cstr_def)
next
  case (Cons x ps)
  show ?case
  proof (cases x)
    case (Plain cs)
    with Cons.prems(2) obtain u where u: "txt = cs @ u" "37 \<notin> set cs" "renders fm va k ps u" by auto
    have c: "cstr fm p (cs @ format_of ps)" using Cons.prems(1) Plain by simp
    define m where "m = n - length cs"
    have m: "n = length cs + m" "length (format_of ps) < m" using Cons.prems(3) Plain by (simp_all add: m_def)
    from Cons.IH [OF cstr_append [OF c] u(3) m(2), of "idx + of_nat (length cs)" "t @ cs"]
    show ?thesis unfolding m(1) verbatim_run [OF c u(2)] by (simp add: u(1) add.assoc)
  next
    case (Conv spec)
    with Cons.prems(2) obtain a u where u: "txt = a @ u" "prints fm spec (va k) a" "renders fm va (k + 1) ps u" by auto
    have c: "cstr fm p (map of_char spec @ format_of ps)" using Cons.prems(1) Conv by simp
    have ne: "spec \<noteq> []" by (rule prints_spec [OF u(2)])
    then have nz: "fm p \<noteq> 0" using c by (cases spec) (simp_all add: cstr_Cons)
    obtain m where m: "n = Suc m" "length (format_of ps) < m"
      using Cons.prems(3) Conv ne by (cases n; cases spec) auto
    have d: "cstr fm (p + of_nat (length spec)) (format_of ps)" using cstr_append [OF c] by simp
    from Cons.IH [OF d u(3) m(2), of "idx + of_nat (length a)" "t @ a"]
    show ?thesis unfolding m(1) vsn_round_text [OF vsn_step_prints [where va = va, OF c u(2)] nz] by (simp add: u(1) add.assoc)
  next
    case Percent
    with Cons.prems(2) obtain u where u: "txt = 37 # u" "renders fm va k ps u" by auto
    have c: "fm p = 37" "fm (p + 1) = 37" "cstr fm (p + 2) (format_of ps)"
      using Cons.prems(1) Percent by (simp_all add: cstr_Cons add.assoc)
    obtain m where m: "n = Suc m" "length (format_of ps) < m" using Cons.prems(3) Percent by (cases n) auto
    have "fm p \<noteq> 0" using c(1) by simp
    note run = vsn_round_text [OF vsn_step_percent [where va = va, OF c(1,2)] this]
    from Cons.IH [OF c(3) u(2) m(2), of "idx + 1" "t @ [37]"]
    show ?thesis unfolding m(1) run by (simp add: u(1) add.assoc)
  qed
qed

lemma vsn_text_renders:
  assumes "cstr fm format (format_of ps)" and "renders fm va 0 ps txt" and "length (format_of ps) \<le> 2 ^ 64"
  shows "vsn_text ftoa etoa fm format va = Done txt"
  using renders_run [OF assms(1,2), of "2 ^ 64 + 1" ftoa etoa 0 "[]"] assms(3)
  by (auto simp: vsn_text_def vsnprintf_loop_def)

lemma renders_nonzero: "0 \<notin> set (format_of ps) \<Longrightarrow> renders fm va k ps txt \<Longrightarrow> 0 \<notin> set txt"
  by (induction fm va k ps "txt" rule: renders.induct) (auto dest: prints_nonzero)

section \<open>Correctness\<close>

text \<open>C31: \<open>snprintf_\<close> (and so \<open>vsnprintf_\<close>) respects its bound: from the text the format and its
  arguments stand for it stores the first \<open>count - 1\<close> characters and a NUL, it returns the length of
  the whole text so that a caller can detect truncation, it changes no byte outside the
  \<open>count\<close> bytes of the buffer, and with a NULL buffer or a zero count it writes nothing at all.\<close>
theorem snprintf_bounded:
  assumes "vsn_text ftoa etoa fm format va = Done cs" and "length cs < 2 ^ 31"
  shows "\<exists>m'. snprintf ftoa etoa fm buffer count format va m = Done (int (length cs), m') \<and>
    (buffer = 0 \<or> count = 0 \<longrightarrow> m' = m) \<and>
    (buffer \<noteq> 0 \<and> count \<noteq> 0 \<longrightarrow> m' = written m buffer (take (unat count - 1) cs)) \<and>
    (\<forall>a. unat count \<le> unat (a - buffer) \<longrightarrow> m' a = m a)"
proof -
  have "count \<noteq> 0 \<Longrightarrow> 0 < unat count" by (simp add: unat_gt_0)
  then have "buffer \<noteq> 0 \<and> count \<noteq> 0 \<Longrightarrow> unat count \<le> unat (a - buffer) \<Longrightarrow> written m buffer (take (unat count - 1) cs) a = m a" for a
    by (auto simp: written_def)
  then show ?thesis unfolding snprintf_def vsnprintf_core_buffer [OF assms] by auto
qed

text \<open>C14: \<open>printf_\<close> prints what its format says, for a format made of any number of ordinary
  characters, escaped percent signs, strings and conversions of the integer kinds the kernel logs with
  (decimal, signed decimal, hexadecimal, pointer; without flags, width or precision). The pieces are
  printed in order, each conversion with the next argument: an integer as its numeral, in decimal or in
  the digits 0 to 9 and a to f, a pointer in sixteen digits 0 to 9 and A to F, a string as its
  characters. Each character goes once through \<open>_putchar\<close>, and the call returns their number; if
  \<open>_putchar\<close> panics or never returns, so does the call.\<close>
theorem printf_correct:
  assumes "cstr fm format (format_of ps)" and "renders fm va 0 ps txt"
    and "length (format_of ps) \<le> 2 ^ 64" and "length txt < 2 ^ 31"
  shows "printf ftoa etoa putchar fm format va s =
    bind_outcome (put_text putchar txt s) (\<lambda>s. Done (int (length txt), s))"
  by (rule printf_text [OF vsn_text_renders [OF assms(1-3)] assms(4)])
     (rule renders_nonzero [OF cstr_nonzero [OF assms(1)] assms(2)])

text \<open>The format \<open>"n=%d,%llx."\<close> at address 4096.\<close>

definition wit_format :: memory where
  "wit_format = written (\<lambda>_. 0) 4096 (map of_char ''n=%d,%llx.'')"

definition wit_pieces :: "piece list" where
  "wit_pieces = [Plain [110, 61], Conv ''%d'', Plain [44], Conv ''%llx'', Plain [46]]"

definition wit_args :: "nat \<Rightarrow> u64" where
  "wit_args k = (if k = 0 then - 42 else 0xBEEF)"

lemma wit_format_cstr: "cstr wit_format 4096 (format_of wit_pieces)"
proof -
  have "\<forall>i < length (map of_char ''n=%d,%llx.'' :: u8 list). (map of_char ''n=%d,%llx.'' :: u8 list) ! i \<noteq> 0" by code_simp
  from cstr_written [OF this] show ?thesis by (simp add: wit_format_def wit_pieces_def)
qed

lemma wit_renders: "renders wit_format wit_args 0 wit_pieces (map of_char ''n=-42,beef.'')"
proof -
  let ?A = "map of_char ''-42'' :: u8 list" and ?B = "map of_char ''beef'' :: u8 list"
  have "sint (ucast (- 42 :: u64) :: u32) = - 42" by code_simp
  then have a: "prints wit_format ''%d'' (wit_args 0) ?A"
    by (simp add: prints_def conversion_text_def signed_dec_def dec.simps wit_args_def)
  have b: "prints wit_format ''%llx'' (wit_args (0 + 1)) ?B"
    by (simp add: prints_def conversion_text_def hex_text_def digits_of.simps wit_args_def)
  have "renders wit_format wit_args (0 + 1 + 1) [Plain [46]] [46]" by simp
  with b have "renders wit_format wit_args (0 + 1) [Conv ''%llx'', Plain [46]] (?B @ [46])" unfolding renders.simps(3) by blast
  then have "renders wit_format wit_args (0 + 1) [Plain [44], Conv ''%llx'', Plain [46]] (44 # ?B @ [46])"
    by (simp del: renders.simps(3))
  with a have "renders wit_format wit_args 0 [Conv ''%d'', Plain [44], Conv ''%llx'', Plain [46]] (?A @ 44 # ?B @ [46])"
    unfolding renders.simps(3) by blast
  then have "renders wit_format wit_args 0 wit_pieces (110 # 61 # ?A @ 44 # ?B @ [46])"
    unfolding wit_pieces_def by (simp del: renders.simps(3))
  then show ?thesis by simp
qed

lemma wit_text: "vsn_text (\<lambda>_ _ _ _. []) (\<lambda>_ _ _ _. []) wit_format 4096 wit_args = Done (map of_char ''n=-42,beef.'')"
  by (rule vsn_text_renders [OF wit_format_cstr wit_renders]) (simp add: wit_pieces_def)

theorem snprintf_bounded_witness:
  "\<exists>m'. snprintf (\<lambda>_ _ _ _. []) (\<lambda>_ _ _ _. []) wit_format 8192 4 4096 wit_args (\<lambda>_. 0) = Done (11, m') \<and>
    m' = written (\<lambda>_. 0) 8192 (map of_char ''n=-'') \<and> (\<forall>a. 4 \<le> unat (a - 8192) \<longrightarrow> m' a = 0)"
  using snprintf_bounded [OF wit_text, of 8192 4 "\<lambda>_. 0"] by simp

theorem printf_correct_witness:
  "printf (\<lambda>_ _ _ _. []) (\<lambda>_ _ _ _. []) (\<lambda>c s. Done (s @ [c])) wit_format 4096 wit_args [] = Done (11, map of_char ''n=-42,beef.'')"
  using printf_correct [OF wit_format_cstr wit_renders, of "\<lambda>_ _ _ _. []" "\<lambda>_ _ _ _. []" "\<lambda>c s. Done (s @ [c])" "[]"]
  by (simp add: wit_pieces_def)

lemma numeral_length_lower: "2 \<le> b \<Longrightarrow> n < b ^ length (numeral_text f b n)"
proof (induction n rule: less_induct)
  case (less n)
  show ?case
  proof (cases "n < b")
    case False
    let ?l = "length (numeral_text f b (n div b))"
    have "n div b < n" using False less.prems by simp
    from less.IH [OF this less.prems] have "n < b ^ ?l * b" using less.prems by (simp add: div_less_iff_less_mult)
    then show ?thesis using False by (simp add: numeral_text_step [OF less.prems, of f n] mult.commute)
  qed (simp add: numeral_text_step [OF less.prems, of f n])
qed

text \<open>C32: The 32-byte work buffer of the integer conversions does not hold every binary numeral: \<open>%llb\<close> prints
  the numeral of its argument when that has at most 32 digits, and otherwise only its last 32
  digits, without any sign that the leading ones are missing.\<close>
theorem printf_binary_truncated:
  "let ds = numeral_text 0 2 (unat v); out = convert_int (of_char CHR ''b'') v 0 0 (FLAGS_LONG OR FLAGS_LONG_LONG)
   in out = drop (length ds - 32) ds \<and> (unat v < 2 ^ 32 \<longrightarrow> out = ds) \<and> (2 ^ 32 \<le> unat v \<longrightarrow> out \<noteq> ds \<and> length out = 32)"
proof -
  define f where "f = FLAGS_LONG OR FLAGS_LONG_LONG"
  define ds where "ds = numeral_text 0 2 (unat v)"
  have f: "plain_flags f" "has f FLAGS_UPPERCASE = has 0 FLAGS_UPPERCASE" by (simp_all add: f_def has_or)
  have "convert_int 98 v 0 0 f = ntoa_long v False 2 0 0 f"
    using has_long by (simp add: convert_int_def spec_flags_plain [OF f(1)] convert_unsigned_def ntoa_long_long_eq spec_base_def f_def [symmetric] Let_def)
  also have "\<dots> = drop (length ds - 32) ds"
    by (simp add: ntoa_plain [OF f(1)] numeral_text_cong [OF f(2)] ds_def [symmetric] rev_take Let_def)
  finally have out: "convert_int 98 v 0 0 f = drop (length ds - 32) ds" .
  have "length ds \<le> 32" if "unat v < 2 ^ 32" unfolding ds_def by (rule numeral_length) (use that in simp_all)
  moreover have "32 < length ds" if "2 ^ 32 \<le> unat v"
  proof (rule ccontr)
    assume "\<not> 32 < length ds"
    then have "(2 :: nat) ^ length ds \<le> 2 ^ 32" by (intro power_increasing) simp_all
    with that numeral_length_lower [of 2 "unat v" 0] show False by (simp add: ds_def)
  qed
  moreover have "drop (length ds - 32) ds \<noteq> ds" if "32 < length ds" using that by (metis length_drop diff_less zero_less_numeral zero_less_diff less_irrefl order.strict_trans)
  ultimately show ?thesis unfolding Let_def ds_def [symmetric] f_def [symmetric] using out by (simp; linarith?)
qed

theorem printf_binary_truncated_witness:
  "convert_int (of_char CHR ''b'') (2 ^ 32) 0 0 (FLAGS_LONG OR FLAGS_LONG_LONG) \<noteq> numeral_text 0 2 (2 ^ 32)"
proof -
  have "2 ^ 32 \<le> unat (2 ^ 32 :: u64)" "unat (2 ^ 32 :: u64) = 2 ^ 32" by simp_all
  with printf_binary_truncated [of "2 ^ 32"] show ?thesis unfolding Let_def by metis
qed

end
