(* ===== verification/Devices.thy ===== *)
theory Devices
  imports Heap_Ops Cstring
begin

text \<open>
  Port input and output, the serial line and the legacy interrupt controllers
  (\<open>src/src/io.c\<close>, \<open>asmUtils.asm\<close>, \<open>pic.c\<close>). The kernel sees the devices only through what it
  writes and what it reads back, so the state carries the history of both; the hardware is a
  parameter that answers a read from that history.
\<close>

section \<open>Ports and the time-stamp counter\<close>

datatype io_event = In u16 u8 | Out u16 u8 | Tsc u64

record hardware =
  port_in :: "io_event list \<Rightarrow> u16 \<Rightarrow> u8"
  tsc :: "io_event list \<Rightarrow> u64"

record device_state = heap_state +
  io :: "io_event list"

definition inb :: "hardware \<Rightarrow> u16 \<Rightarrow> 'a device_state_scheme \<Rightarrow> u8 \<times> 'a device_state_scheme" where
  "inb hw port s = (let v = port_in hw (io s) port in (v, s\<lparr>io := io s @ [In port v]\<rparr>))"

definition outb :: "u16 \<Rightarrow> u8 \<Rightarrow> 'a device_state_scheme \<Rightarrow> 'a device_state_scheme" where
  "outb port v s = s\<lparr>io := io s @ [Out port v]\<rparr>"

definition io_wait :: "'a device_state_scheme \<Rightarrow> 'a device_state_scheme" where
  "io_wait s = outb 0x80 0 s"

definition get_ts :: "hardware \<Rightarrow> 'a device_state_scheme \<Rightarrow> u64 \<times> 'a device_state_scheme" where
  "get_ts hw s = (let v = tsc hw (io s) in (v, s\<lparr>io := io s @ [Tsc v]\<rparr>))"

definition serial_debug :: "u8 \<Rightarrow> 'a device_state_scheme \<Rightarrow> 'a device_state_scheme" where
  "serial_debug c s = outb 0x3F8 c s"

text \<open>The bytes a history has put on the serial line, and the bytes written to a port.\<close>

definition port_out :: "u16 \<Rightarrow> io_event list \<Rightarrow> u8 list" where
  "port_out port es = concat (map (\<lambda>e. case e of Out p v \<Rightarrow> (if p = port then [v] else []) | _ \<Rightarrow> []) es)"

lemma port_out_simps [simp]:
  "port_out port [] = []"
  "port_out port (es @ fs) = port_out port es @ port_out port fs"
  "port_out port (Out p v # es) = (if p = port then v # port_out port es else port_out port es)"
  "port_out port (In p v # es) = port_out port es"
  "port_out port (Tsc t # es) = port_out port es"
  by (simp_all add: port_out_def)

abbreviation serial_out :: "'a device_state_scheme \<Rightarrow> u8 list" where
  "serial_out s \<equiv> port_out 0x3F8 (io s)"

section \<open>Serial messages\<close>

definition serial_text :: "u8 list \<Rightarrow> 'a device_state_scheme \<Rightarrow> 'a device_state_scheme" where
  "serial_text cs s = fold serial_debug cs s"

lemma serial_text_io: "serial_text cs s = s\<lparr>io := io s @ map (Out 0x3F8) cs\<rparr>"
  unfolding serial_text_def by (induction cs arbitrary: s) (simp_all add: serial_debug_def outb_def)

lemma port_out_map [simp]: "port_out port (map (Out p) cs) = (if p = port then cs else [])"
  by (induction cs) (simp_all add: port_out_def)

lemma serial_text_simps [simp]:
  "serial_text [] s = s"
  "serial_out (serial_text cs s) = serial_out s @ cs"
  by (simp_all add: serial_text_io)

text \<open>\<open>for (p = str; *p; p++) serial_debug(*p)\<close>\<close>

definition serial_cstr :: "memory \<Rightarrow> u64 \<Rightarrow> 'a device_state_scheme \<Rightarrow> 'a device_state_scheme outcome" where
  "serial_cstr m str s =
     bind_outcome (while_outcome (2 ^ 64 + 1) (\<lambda>(p, s). m p \<noteq> 0) (\<lambda>(p, s). Done (p + 1, serial_debug (m p) s)) (str, s)) (\<lambda>(_, s).
     Done s)"

text \<open>The time stamp is printed through the local buffer \<open>timestamp_buf\<close>; its text is the digits, the last one first.\<close>

definition ts_digits :: "u64 \<Rightarrow> u8 list" where
  "ts_digits v = rev (u64_to_str_digits v)"

definition serial_print :: "hardware \<Rightarrow> memory \<Rightarrow> u64 \<Rightarrow> 'a device_state_scheme \<Rightarrow> 'a device_state_scheme outcome" where
  "serial_print hw m str s =
     (let (ts, s) = get_ts hw s;
          s = serial_text (ts_digits ts) (serial_debug 91 s);
          s = serial_debug 32 (serial_debug 93 s)
      in serial_cstr m str s)"

definition serial_print_line :: "hardware \<Rightarrow> memory \<Rightarrow> u64 \<Rightarrow> 'a device_state_scheme \<Rightarrow> 'a device_state_scheme outcome" where
  "serial_print_line hw m str s =
     (let (ts, s) = get_ts hw s;
          s = serial_text (ts_digits ts) (serial_debug 91 s);
          s = serial_debug 32 (serial_debug 93 s)
      in bind_outcome (serial_cstr m str s) (\<lambda>s. Done (serial_debug 10 s)))"

definition serial_print_with_ts :: "hardware \<Rightarrow> memory \<Rightarrow> u64 \<Rightarrow> 'a device_state_scheme \<Rightarrow> 'a device_state_scheme outcome" where
  "serial_print_with_ts hw m msg s =
     (let (ts, s) = get_ts hw s;
          s = serial_text (ts_digits ts) (serial_debug 91 s);
          s = serial_debug 32 (serial_debug 93 s)
      in bind_outcome (serial_cstr m msg s) (\<lambda>s. Done (serial_debug 10 s)))"

lemma ts_digits_dec: "ts_digits v = dec (unat v)"
  by (simp add: ts_digits_def u64_digits_dec)

lemma serial_cstr_loop:
  assumes "cstr m p cs" and "length cs < fuel"
  shows "\<exists>q. while_outcome fuel (\<lambda>(p, s). m p \<noteq> 0) (\<lambda>(p, s). Done (p + 1, serial_debug (m p) s)) (p, s) = Done (q, serial_text cs s)"
  using assms
proof (induction cs arbitrary: p s fuel)
  case (Cons c cs)
  then obtain k where k: "fuel = Suc k" "length cs < k" by (cases fuel) auto
  from Cons.IH [OF _ k(2), of "p + 1" "serial_debug c s"] Cons.prems(1) show ?case
    by (simp add: k(1) cstr_Cons serial_text_def)
qed (auto simp: while_outcome_step)

lemma serial_cstr_text:
  assumes "cstr m p cs" and "length cs < 2 ^ 64"
  shows "serial_cstr m p s = Done (serial_text cs s)"
proof -
  have "length cs < 2 ^ 64 + 1" using assms(2) by simp
  from serial_cstr_loop [OF assms(1) this, of s] show ?thesis unfolding serial_cstr_def by auto
qed

lemma serial_print_line_text:
  assumes "cstr m p cs" and "length cs < 2 ^ 64"
  shows "\<exists>t. serial_print_line hw m p s = Done t \<and> serial_out t = serial_out s @ [91] @ dec (unat (tsc hw (io s))) @ [93, 32] @ cs @ [10]"
  unfolding serial_print_line_def get_ts_def serial_cstr_text [OF assms]
  by (simp add: Let_def serial_debug_def outb_def ts_digits_dec)

section \<open>The interrupt controllers\<close>

definition PIC_MASTER_COMMAND :: u16 where "PIC_MASTER_COMMAND = 0x20"
definition PIC_MASTER_DATA :: u16 where "PIC_MASTER_DATA = 0x21"
definition PIC_SLAVE_COMMAND :: u16 where "PIC_SLAVE_COMMAND = 0xA0"
definition PIC_SLAVE_DATA :: u16 where "PIC_SLAVE_DATA = 0xA1"
definition PIC_EOI :: u8 where "PIC_EOI = 0x20"
definition PIC_ICW1_ICW4 :: u8 where "PIC_ICW1_ICW4 = 0x01"
definition PIC_ICW1_INIT :: u8 where "PIC_ICW1_INIT = 0x10"
definition PIC_ICW4_8086 :: u8 where "PIC_ICW4_8086 = 0x01"

text \<open>The shift is done on \<open>int\<close> and the result is cut to a byte: an \<open>irq\<close> of 8 or more shifts the bit out.\<close>

definition irq_port :: "u8 \<Rightarrow> u16 \<times> u8" where
  "irq_port irq = (if irq < 8 then (PIC_MASTER_DATA, irq) else (PIC_SLAVE_DATA, irq - 8))"

definition pic_mask_irq :: "hardware \<Rightarrow> u8 \<Rightarrow> 'a device_state_scheme \<Rightarrow> 'a device_state_scheme" where
  "pic_mask_irq hw irq s =
     (case irq_port irq of (port, irq) \<Rightarrow> case inb hw port s of (masks, s) \<Rightarrow> outb port (masks OR push_bit (unat irq) 1) s)"

definition pic_unmask_irq :: "hardware \<Rightarrow> u8 \<Rightarrow> 'a device_state_scheme \<Rightarrow> 'a device_state_scheme" where
  "pic_unmask_irq hw irq s =
     (case irq_port irq of (port, irq) \<Rightarrow> case inb hw port s of (masks, s) \<Rightarrow> outb port (masks AND NOT (push_bit (unat irq) 1)) s)"

definition pic_remap_offsets :: "hardware \<Rightarrow> u8 \<Rightarrow> 'a device_state_scheme \<Rightarrow> 'a device_state_scheme" where
  "pic_remap_offsets hw off s =
     (let (master_mask, s) = inb hw PIC_MASTER_DATA s;
          (slave_mask, s) = inb hw PIC_SLAVE_DATA s;
          s = outb PIC_MASTER_COMMAND (PIC_ICW1_INIT OR PIC_ICW1_ICW4) s;
          s = outb PIC_SLAVE_COMMAND (PIC_ICW1_INIT OR PIC_ICW1_ICW4) s;
          s = outb PIC_MASTER_DATA off s;
          s = outb PIC_SLAVE_DATA (off + 8) s;
          s = outb PIC_MASTER_DATA 4 s;
          s = outb PIC_SLAVE_DATA 2 s;
          s = outb PIC_MASTER_DATA PIC_ICW4_8086 s;
          s = outb PIC_SLAVE_DATA PIC_ICW4_8086 s;
          s = outb PIC_MASTER_DATA master_mask s
      in outb PIC_SLAVE_DATA slave_mask s)"

definition pic_send_eoi :: "u8 \<Rightarrow> 'a device_state_scheme \<Rightarrow> 'a device_state_scheme" where
  "pic_send_eoi irq s =
     (let s = (if irq \<ge> 8 then outb PIC_SLAVE_COMMAND PIC_EOI s else s)
      in outb PIC_MASTER_COMMAND PIC_EOI s)"

definition pic_enable :: "hardware \<Rightarrow> 'a device_state_scheme \<Rightarrow> 'a device_state_scheme" where
  "pic_enable hw s = fold (\<lambda>irq. pic_mask_irq hw (of_nat irq)) [0..<16] (pic_remap_offsets hw 0x20 s)"

end
