(* ===== verification/Console.thy ===== *)
theory Console
  imports Devices Boot_Paging Printf_Correct
begin

text \<open>
  The console (\<open>src/src/putchar.c\<close>): the time-stamped line buffer in front of the serial line and
  the routing of characters to the framebuffer terminal, the boot loader's terminal and the serial
  line. What is handed to the two terminals is recorded; the terminals themselves are not part of
  this theory.
\<close>

section \<open>State\<close>

record kswitches =
  stack_trace_size :: nat
  stack_trace_on_fault :: nat
  acpi_support :: nat
  sched_debug :: nat
  addr_debug :: nat
  hw_rng_support :: nat
  mem_readout_unit :: nat
  liballoc_debug :: nat
  fpu_allowed :: nat
  timestamp :: nat

definition k_mode :: kswitches where
  "k_mode = \<lparr>stack_trace_size = 24, stack_trace_on_fault = 1, acpi_support = 0, sched_debug = 0, addr_debug = 0,
     hw_rng_support = 1, mem_readout_unit = 1, liballoc_debug = 0, fpu_allowed = 0, timestamp = 1\<rparr>"

definition LOGBUF_SIZE :: nat where "LOGBUF_SIZE = 256"

record console_state = device_state +
  kerror_mode :: u8
  bootspace :: u32
  term_context :: u64
  logbuf :: "u8 list"
  loglen :: nat
  term_out :: "u8 list"
  early_out :: "u8 list"

section \<open>The line buffer\<close>

definition tsc_hz :: u64 where "tsc_hz = 2000000000"

definition ticks_to_ms :: "u64 \<Rightarrow> u64" where
  "ticks_to_ms ticks = (ticks * 1000) div tsc_hz"

definition flush_serial_line :: "hardware \<Rightarrow> 'a console_state_scheme \<Rightarrow> 'a console_state_scheme" where
  "flush_serial_line hw s =
     (if loglen s = 0 then s
      else
        let s = s\<lparr>logbuf := (logbuf s)[loglen s := 0]\<rparr>;
            (ts, s) = get_ts hw s;
            s = serial_text (ts_digits (ticks_to_ms ts)) (serial_debug 91 s);
            s = serial_debug 32 (serial_debug 93 (serial_debug 115 (serial_debug 109 s)));
            s = fold (\<lambda>i s. serial_debug (logbuf s ! i) s) [0..<loglen s] s;
            s = serial_debug 10 s
        in s\<lparr>loglen := 0\<rparr>)"

definition buffer_or_flush :: "hardware \<Rightarrow> u8 \<Rightarrow> 'a console_state_scheme \<Rightarrow> 'a console_state_scheme" where
  "buffer_or_flush hw c s =
     (if c = 10 \<or> loglen s = LOGBUF_SIZE - 1 then flush_serial_line hw s
      else s\<lparr>logbuf := (logbuf s)[loglen s := c], loglen := loglen s + 1\<rparr>)"

definition voyager_page_tables_active :: "'a console_state_scheme \<Rightarrow> bool" where
  "voyager_page_tables_active s =
     (let voyager_cr3 = paging_pml4_phys s
      in if voyager_cr3 = 0 then False else cr3 s AND NOT 0xFFF = voyager_cr3 AND NOT 0xFFF)"

text \<open>\<open>if (k_mode.timestamp == 0) serial_debug(c); else buffer_or_flush(c);\<close>\<close>

definition serial_route :: "hardware \<Rightarrow> u8 \<Rightarrow> 'a console_state_scheme \<Rightarrow> 'a console_state_scheme" where
  "serial_route hw c s = (if timestamp k_mode = 0 then serial_debug c s else buffer_or_flush hw c s)"

section \<open>Calls of printf with a literal\<close>

text \<open>\<open>printf_("%s\n", "...")\<close>: the two literals are somewhere in the read-only data.\<close>

definition literals :: "u8 list \<Rightarrow> u8 list \<Rightarrow> memory" where
  "literals format text = written (written (\<lambda>_. 0) 4096 format) 8192 text"

definition printf_line :: "(u8 \<Rightarrow> 's \<Rightarrow> 's outcome) \<Rightarrow> string \<Rightarrow> 's \<Rightarrow> 's outcome" where
  "printf_line putchar text s =
     bind_outcome (printf (\<lambda>_ _ _ _. []) (\<lambda>_ _ _ _. []) putchar (literals (map of_char ''%s'' @ [10]) (map of_char text)) 4096 (\<lambda>_. 8192) s)
       (\<lambda>(_, s). Done s)"

section \<open>putchar\<close>

text \<open>
  \<open>term_write\<close> reads through its context at once, so a null context is a fault, and here it ends the
  run. The response to the request for the loader's terminal is there whenever \<open>bootspace\<close> is 2 or 3
  (\<open>kernel.c\<close> moves on to 1 without it). The last branch calls \<open>printf_\<close>, which comes back to
  \<open>_putchar\<close>: the fuel is the depth of calls that the stack has room for.
\<close>

definition to_terminal :: "u8 \<Rightarrow> 'a console_state_scheme \<Rightarrow> 'a console_state_scheme outcome" where
  "to_terminal c s =
     (if term_context s = 0 then Panic ''term_write: null context'' else Done (s\<lparr>term_out := term_out s @ [c]\<rparr>))"

definition early_term_write :: "u8 \<Rightarrow> 'a console_state_scheme \<Rightarrow> 'a console_state_scheme" where
  "early_term_write c s = s\<lparr>early_out := early_out s @ [c]\<rparr>"

primrec kputchar :: "hardware \<Rightarrow> nat \<Rightarrow> u8 \<Rightarrow> 'a console_state_scheme \<Rightarrow> 'a console_state_scheme outcome" where
  "kputchar hw 0 = (\<lambda>c s. Diverge)"
| "kputchar hw (Suc depth) = (\<lambda>c s.
     if kerror_mode s = 1 then bind_outcome (to_terminal c s) (\<lambda>s. Done (serial_route hw c s))
     else if kerror_mode s = 2 then Done (serial_route hw c s)
     else if bootspace s = 1 then Done (serial_route hw c s)
     else if bootspace s = 2 then
       Done (serial_route hw c (if \<not> voyager_page_tables_active s then early_term_write c s else s))
     else if bootspace s = 3 then
       Done (if \<not> voyager_page_tables_active s then early_term_write c s else serial_route hw c s)
     else if term_context s \<noteq> 0 then bind_outcome (to_terminal c s) (\<lambda>s. Done (serial_route hw c s))
     else
       bind_outcome (printf_line (kputchar hw depth) ''ERROR: TERMINAL WRITE FAILURE!'' (serial_route hw c s))
         (printf_line (kputchar hw depth) ''Defaulting to serial''))"

section \<open>What a literal line prints\<close>
lemma literals_cstr:
  assumes "0 \<notin> set fmt" and "0 \<notin> set text" and "length fmt < 4096" and "length text < 4096"
  shows "cstr (literals fmt text) 4096 fmt" "cstr (literals fmt text) 8192 text"
proof -
  have nz: "\<forall>i < length fmt. fmt ! i \<noteq> 0" "\<forall>i < length text. text ! i \<noteq> 0" using assms(1,2) by (auto simp: in_set_conv_nth)
  show "cstr (literals fmt text) 8192 text"
    unfolding literals_def by (rule cstr_written [OF nz(2)]) (use assms(4) in simp)
  have f: "cstr (written (\<lambda>_. 0) 4096 fmt) 4096 fmt" by (rule cstr_written [OF nz(1)]) (use assms(3) in simp)
  have "literals fmt text (4096 + of_nat i) = written (\<lambda>_. 0) 4096 fmt (4096 + of_nat i)" if "i \<le> length fmt" for i
  proof -
    have "uint (4096 + of_nat i - 8192 :: u64) = (int i - 4096) mod 2 ^ 64"
      using that assms(3) by (simp add: uint_word_ariths unsigned_of_nat take_bit_eq_mod mod_simps)
    also have "\<dots> = int i - 4096 + 2 ^ 64" using that assms(3) by (subst mod_add_self2 [symmetric]) (simp add: mod_pos_pos_trivial)
    finally have "4096 \<le> unat (4096 + of_nat i - 8192 :: u64)" by (simp add: unat_eq_nat_uint)
    then show ?thesis using assms(4) by (simp add: literals_def written_def)
  qed
  with f show "cstr (literals fmt text) 4096 fmt" by (simp add: cstr_def)
qed

lemma printf_line_text:
  assumes "0 \<notin> set (map (of_char :: char \<Rightarrow> u8) text)" and "length text < 4096"
  shows "printf_line putchar text s = put_text putchar (map of_char text @ [10]) s"
proof -
  let ?fm = "literals (map of_char ''%s'' @ [10]) (map of_char text)"
  have l: "cstr ?fm 4096 (map of_char ''%s'' @ [10])" "cstr ?fm 8192 (map of_char text)"
    by (rule literals_cstr; use assms in simp)+
  then have p: "prints ?fm ''%s'' ((\<lambda>_. 8192) (0 :: nat)) (map of_char text)" using assms(2) by (simp add: prints_def)
  have "vsn_text (\<lambda>_ _ _ _. []) (\<lambda>_ _ _ _. []) ?fm 4096 (\<lambda>_. 8192) = Done (map of_char text @ [10])"
    by (rule vsn_text_renders [where ps = "[Conv ''%s'', Plain [10]]"]) (use l p in auto)
  then show ?thesis unfolding printf_line_def
    by (subst printf_text) (use assms in \<open>auto simp: bind_outcome_assoc\<close>)
qed

section \<open>The log\<close>

definition log_ok :: "'a console_state_scheme \<Rightarrow> bool" where
  "log_ok s \<longleftrightarrow> length (logbuf s) = LOGBUF_SIZE \<and> loglen s < LOGBUF_SIZE"

definition pending :: "'a console_state_scheme \<Rightarrow> u8 list" where
  "pending s = take (loglen s) (logbuf s)"

text \<open>The stamped line the serial line carries for a line of the log: the milliseconds of a 2 GHz counter,
  with the product by 1000 taken in 64 bits.\<close>

definition log_line :: "u64 \<Rightarrow> u8 list \<Rightarrow> u8 list" where
  "log_line ticks cs =
     map of_char ''['' @ dec (unat ticks * 1000 mod 2 ^ 64 div 2000000000) @ map of_char ''ms] '' @ cs @ [10]"

definition log_step :: "u64 \<Rightarrow> u8 \<Rightarrow> u8 list \<times> u8 list \<Rightarrow> u8 list \<times> u8 list" where
  "log_step ticks c = (\<lambda>(sent, line).
     if c = 10 \<or> length line = 255 then (if line = [] then (sent, []) else (sent @ log_line ticks line, []))
     else (sent, line @ [c]))"

definition log_view :: "'a console_state_scheme \<Rightarrow> u8 list \<times> u8 list" where
  "log_view s = (serial_out s, pending s)"

text \<open>Where a character goes. An error report (mode 1) goes to the framebuffer terminal and the log, mode
  2 to the log. Otherwise \<open>bootspace\<close> decides: 1 is the log, 2 the loader's terminal and the log, 3 the
  loader's terminal or else the log, anything else the framebuffer terminal and the log. The loader's
  terminal is left out once the kernel's own tables are active.\<close>

definition loader_tables :: "'a console_state_scheme \<Rightarrow> bool" where
  "loader_tables s \<longleftrightarrow> g_pml4_phys s = 0 \<or> drop_bit 12 (cr3 s) \<noteq> drop_bit 12 (g_pml4_phys s)"

definition to_framebuffer :: "'a console_state_scheme \<Rightarrow> bool" where
  "to_framebuffer s \<longleftrightarrow> kerror_mode s = 1 \<or> kerror_mode s \<noteq> 2 \<and> bootspace s \<notin> {1, 2, 3}"

definition to_loader :: "'a console_state_scheme \<Rightarrow> bool" where
  "to_loader s \<longleftrightarrow> kerror_mode s \<notin> {1, 2} \<and> bootspace s \<in> {2, 3} \<and> loader_tables s"

definition to_log :: "'a console_state_scheme \<Rightarrow> bool" where
  "to_log s \<longleftrightarrow> \<not> (to_loader s \<and> bootspace s = 3)"

text \<open>The console has a way out unless the framebuffer terminal is wanted and missing.\<close>

definition way_out :: "'a console_state_scheme \<Rightarrow> bool" where
  "way_out s \<longleftrightarrow> (to_framebuffer s \<longrightarrow> term_context s \<noteq> 0)"

definition same_route :: "'a console_state_scheme \<Rightarrow> 'a console_state_scheme \<Rightarrow> bool" where
  "same_route s t \<longleftrightarrow> kerror_mode t = kerror_mode s \<and> bootspace t = bootspace s \<and> term_context t = term_context s \<and>
     cr3 t = cr3 s \<and> g_pml4_phys t = g_pml4_phys s"

lemma loader_tables_active: "loader_tables s \<longleftrightarrow> \<not> voyager_page_tables_active s"
proof -
  have "x AND NOT 0xFFF = y AND NOT 0xFFF \<longleftrightarrow> drop_bit 12 x = drop_bit 12 y" for x y :: u64
  proof -
    have m: "(0xFFF :: u64) = mask 12" by (simp add: mask_eq_exp_minus_1)
    have p: "z AND NOT (mask 12) = push_bit 12 (drop_bit 12 z)" for z :: u64
      by (rule bit_word_eqI) (auto simp: bit_simps)
    have "drop_bit 12 (push_bit 12 (drop_bit 12 z)) = drop_bit 12 z" for z :: u64
      by (rule bit_word_eqI) (auto simp: bit_simps dest: bit_imp_le_length)
    then show ?thesis unfolding m p by metis
  qed
  then show ?thesis by (auto simp: loader_tables_def voyager_page_tables_active_def paging_pml4_phys_def Let_def)
qed

lemma same_route_simps:
  assumes "same_route s t"
  shows "to_framebuffer t = to_framebuffer s" "to_loader t = to_loader s" "to_log t = to_log s" "way_out t = way_out s"
  using assms by (simp_all add: same_route_def to_framebuffer_def to_loader_def to_log_def way_out_def loader_tables_def)

lemma ticks_ms: "unat (ticks_to_ms ticks) = unat ticks * 1000 mod 2 ^ 64 div 2000000000"
  by (simp add: ticks_to_ms_def tsc_hz_def unat_div unat_word_ariths)

lemma fold_serial_text: "fold (\<lambda>i s. serial_debug (logbuf s ! i) s) is s = serial_text (map ((!) (logbuf s)) is) s"
  by (induction "is" arbitrary: s) (simp_all add: serial_text_def serial_debug_def outb_def)

lemma flush_eq:
  "flush_serial_line hw s =
     (if loglen s = 0 then s
      else
        let ts = tsc hw (io s); lb = (logbuf s)[loglen s := 0]
        in s\<lparr>logbuf := lb, loglen := 0,
             io := io s @ [Tsc ts] @ map (Out 0x3F8) ([91] @ dec (unat (ticks_to_ms ts)) @ [109, 115, 93, 32] @ map ((!) lb) [0..<loglen s] @ [10])\<rparr>)"
  unfolding flush_serial_line_def fold_serial_text by (simp add: serial_text_io serial_debug_def outb_def get_ts_def ts_digits_dec Let_def)

lemmas route_defs = serial_route_def k_mode_def buffer_or_flush_def LOGBUF_SIZE_def flush_eq Let_def

lemma log_view_route:
  assumes "log_ok s"
  shows "log_ok (serial_route hw c s)" "log_view (serial_route hw c s) = log_step (tsc hw (io s)) c (log_view s)"
proof -
  have l: "length (logbuf s) = 256" "loglen s < 256" using assms by (simp_all add: log_ok_def LOGBUF_SIZE_def)
  then have n: "length (pending s) = loglen s" by (simp add: pending_def)
  have t: "map (Out 1016 \<circ> (!) ((logbuf s)[k := 0])) [0..<k] = map (Out 1016) (take k (logbuf s))" if "k < 256" for k
    using l that by (auto intro!: nth_equalityI)
  show "log_ok (serial_route hw c s)" using l
    by (auto simp: log_ok_def route_defs)
  show "log_view (serial_route hw c s) = log_step (tsc hw (io s)) c (log_view s)"
  proof (cases "c = 10 \<or> loglen s = 255")
    case True
    then show ?thesis using n l
      by (auto simp: log_view_def log_step_def log_line_def route_defs ticks_ms) (auto simp: pending_def t)
  next
    case False
    then have "take (Suc (loglen s)) ((logbuf s)[loglen s := c]) = take (loglen s) (logbuf s) @ [c]"
      using l by (simp add: take_Suc_conv_app_nth)
    then show ?thesis using False n
      by (simp add: log_view_def log_step_def pending_def route_defs)
  qed
qed

lemma route_frame:
  "serial_route hw c (s\<lparr>term_out := x\<rparr>) = (serial_route hw c s)\<lparr>term_out := x\<rparr>"
  "serial_route hw c (s\<lparr>early_out := x\<rparr>) = (serial_route hw c s)\<lparr>early_out := x\<rparr>"
  "kerror_mode (serial_route hw c s) = kerror_mode s" "bootspace (serial_route hw c s) = bootspace s"
  "term_context (serial_route hw c s) = term_context s" "term_out (serial_route hw c s) = term_out s"
  "early_out (serial_route hw c s) = early_out s" "cr3 (serial_route hw c s) = cr3 s"
  "g_pml4_phys (serial_route hw c s) = g_pml4_phys s"
  "c \<noteq> 10 \<Longrightarrow> loglen s \<noteq> 255 \<Longrightarrow> io (serial_route hw c s) = io s"
  by (simp_all add: route_defs)

lemma view_frame [simp]:
  "log_view (s\<lparr>term_out := x\<rparr>) = log_view s" "log_view (s\<lparr>early_out := x\<rparr>) = log_view s"
  "log_ok (s\<lparr>term_out := x\<rparr>) = log_ok s" "log_ok (s\<lparr>early_out := x\<rparr>) = log_ok s"
  by (simp_all add: log_view_def pending_def log_ok_def)

lemma pending_length: "log_ok s \<Longrightarrow> length (pending s) = loglen s"
  by (simp add: log_ok_def pending_def)

lemma kputchar_step:
  assumes "log_ok s" and "way_out s" and "0 < depth"
  shows "\<exists>t. kputchar hw depth c s = Done t \<and> log_ok t \<and> same_route s t \<and>
    term_out t = term_out s @ (if to_framebuffer s then [c] else []) \<and>
    early_out t = early_out s @ (if to_loader s then [c] else []) \<and>
    log_view t = (if to_log s then log_step (tsc hw (io s)) c (log_view s) else log_view s) \<and>
    (c \<noteq> 10 \<and> length (pending s) \<noteq> 255 \<longrightarrow> io t = io s)"
proof -
  obtain d where d: "depth = Suc d" using assms(3) by (cases depth) auto
  note v = log_view_route [OF assms(1), of hw c] and l = pending_length [OF assms(1)]
  note r = same_route_def to_framebuffer_def to_loader_def to_log_def loader_tables_active
  show ?thesis using assms(1,2) v l unfolding d
    by (auto simp: way_out_def r to_terminal_def early_term_write_def route_frame)
qed

declare kputchar.simps [simp del]

lemma put_text_append: "put_text p (cs @ ds) s = bind_outcome (put_text p cs s) (put_text p ds)"
proof (induction cs arbitrary: s)
  case (Cons c cs)
  then show ?case by (cases "p c s") simp_all
qed simp

lemma kputchar_text:
  assumes "log_ok s" and "way_out s" and "to_log s" and "0 < depth" and "10 \<notin> set cs" and "length (pending s @ cs) \<le> 255"
  shows "\<exists>t. put_text (kputchar hw depth) cs s = Done t \<and> log_ok t \<and> same_route s t \<and> io t = io s \<and> pending t = pending s @ cs"
  using assms(1-3,5,6)
proof (induction cs arbitrary: s)
  case Nil
  then show ?case by (simp add: same_route_def)
next
  case (Cons c cs)
  from kputchar_step [OF Cons.prems(1,2) assms(4), of hw c] obtain t where
    t: "kputchar hw depth c s = Done t" "log_ok t" "same_route s t" "io t = io s" "pending t = pending s @ [c]"
    using Cons.prems(3-5) by (auto simp: log_step_def log_view_def)
  note r = same_route_simps [OF t(3)]
  from Cons.IH [OF t(2)] r Cons.prems t(1,4,5) obtain u where
    "put_text (kputchar hw depth) cs t = Done u" "log_ok u" "same_route t u" "io u = io s" "pending u = pending s @ c # cs" by auto
  then show ?case using t(1,3) by (auto simp: same_route_def)
qed

section \<open>Correctness\<close>

text \<open>C36: Every character gets where it belongs. Unless the framebuffer terminal is wanted and missing,
  \<open>_putchar\<close> returns; the character goes to the framebuffer terminal, to the loader's terminal and to
  the log exactly as the error mode, the boot phase and the active tables say; the log buffer keeps
  its 256 bytes with the fill level inside them, so that neither the character nor the closing NUL is
  stored outside; and the pair of the text sent and the pending line makes exactly the step of the
  line-buffer specification, stamped with the counter read at that moment.\<close>
theorem putchar_log_ok:
  assumes "log_ok s" and "way_out s" and "0 < depth"
  shows "\<exists>t. kputchar hw depth c s = Done t \<and> log_ok t \<and> way_out t \<and>
    term_out t = term_out s @ (if to_framebuffer s then [c] else []) \<and>
    early_out t = early_out s @ (if to_loader s then [c] else []) \<and>
    log_view t = (if to_log s then log_step (tsc hw (io s)) c (log_view s) else log_view s)"
  using kputchar_step [OF assms, of hw c] same_route_simps(4) assms(2) by blast

text \<open>C35: A line of at most 255 characters that ends in a newline comes out on the serial line whole, behind the
  time in milliseconds: the counter read when the newline arrives, times 1000 in 64 bits, divided by
  the 2 GHz of the code. A line of 255 characters is flushed by its next character, which is
  neither sent nor kept: whatever it is, the serial line and the pending line are as after a newline.\<close>
theorem putchar_line:
  assumes "log_ok s" and "way_out s" and "to_log s" and "0 < depth" and "pending s = []"
    and "line \<noteq> []" and "10 \<notin> set line" and "length line \<le> 255"
  shows "(\<exists>t. put_text (kputchar hw depth) (line @ [10]) s = Done t \<and> log_ok t \<and>
      log_view t = (serial_out s @ log_line (tsc hw (io s)) line, [])) \<and>
    (length line = 255 \<longrightarrow> (\<exists>u. put_text (kputchar hw depth) (line @ [c]) s = Done u \<and>
      log_view u = (serial_out s @ log_line (tsc hw (io s)) line, [])))"
proof -
  from kputchar_text [OF assms(1-4,7), of hw] assms(5,8) obtain t where
    t: "put_text (kputchar hw depth) line s = Done t" "log_ok t" "same_route s t" "io t = io s" "pending t = line" by auto
  note r = same_route_simps [OF t(3)]
  have "\<exists>u. put_text (kputchar hw depth) (line @ [d]) s = Done u \<and> log_ok u \<and>
      log_view u = (serial_out s @ log_line (tsc hw (io s)) line, [])"
    if "d = 10 \<or> length line = 255" for d
    using kputchar_step [OF t(2) _ assms(4), of hw d] r t(1,4,5) that assms(2,3,6)
    by (auto simp: put_text_append log_step_def log_view_def)
  from this [of 10] this [of c] show ?thesis by blast
qed

text \<open>C37: Without a terminal the console never returns: when \<open>bootspace\<close> has its final value and \<open>term_context\<close>
  is NULL, \<open>_putchar\<close> reports the failure with \<open>printf_\<close>, whose first character calls
  \<open>_putchar\<close> again in the same state, however deep the stack.\<close>
theorem putchar_without_terminal:
  assumes "kerror_mode s \<notin> {1, 2}" and "bootspace s \<notin> {1, 2, 3}" and "term_context s = 0"
  shows "kputchar hw depth c s = Diverge"
  using assms
proof (induction depth arbitrary: c s)
  case (Suc d)
  have "printf_line (kputchar hw d) ''ERROR: TERMINAL WRITE FAILURE!'' (serial_route hw c s) = Diverge"
    using Suc.IH Suc.prems by (simp add: printf_line_text route_frame)
  with Suc.prems show ?case by (simp add: kputchar.simps)
qed (simp add: kputchar.simps)

section \<open>Witnesses\<close>

definition wit_console :: console_state where
  "wit_console = \<lparr>g_base = 0, g_cursor = 0, g_end = 0, g_region_forced = False,
     g_alloc_bm = [], g_usable_bm = [], g_alloc_at = 0, g_usable_at = 0, g_frame_count = 0, g_max_phys = 0, g_free_count = 0,
     g_hint = 0, g_memlock = False, mem = (\<lambda>_. 0), g_hhdm = 0, g_pml4_phys = 0, g_pml4_virt = 0, cr3 = 0, g_boot_phys_page = None,
     g_heap_curr = 0, g_heap_lock = False, g_free_list = 0, io = [],
     kerror_mode = 0, bootspace = 1, term_context = 0, logbuf = replicate 256 0, loglen = 0, term_out = [], early_out = []\<rparr>"

definition wit_hardware :: hardware where
  "wit_hardware = \<lparr>port_in = (\<lambda>_ _. 0), tsc = (\<lambda>_. 6000000)\<rparr>"

lemma wit_console_ok: "log_ok wit_console" "way_out wit_console" "to_log wit_console" "pending wit_console = []"
  by (simp_all add: log_ok_def way_out_def to_framebuffer_def to_log_def to_loader_def pending_def wit_console_def LOGBUF_SIZE_def)

theorem putchar_log_ok_witness:
  "\<exists>t. kputchar wit_hardware 1 65 wit_console = Done t \<and> log_ok t \<and> log_view t = ([], [65])"
proof -
  have "log_step x 65 (log_view wit_console) = ([], [65])" for x
    by (simp add: log_step_def log_view_def pending_def wit_console_def)
  with putchar_log_ok [OF wit_console_ok(1,2), of 1 wit_hardware 65] wit_console_ok(3) show ?thesis by auto
qed

theorem putchar_line_witness:
  "\<exists>t. put_text (kputchar wit_hardware 1) ([79, 75] @ [10]) wit_console = Done t \<and>
    log_view t = (map of_char ''[3ms] OK'' @ [10], [])"
proof -
  have "serial_out wit_console = []" "log_line (tsc wit_hardware (io wit_console)) [79, 75] = map of_char ''[3ms] OK'' @ [10]"
    by (simp_all add: wit_console_def wit_hardware_def log_line_def dec.simps)
  with putchar_line [OF wit_console_ok(1-3) _ wit_console_ok(4), of 1 "[79, 75]" wit_hardware 0] show ?thesis by auto
qed

theorem putchar_without_terminal_witness:
  "kputchar wit_hardware 1000 65 (wit_console\<lparr>bootspace := 0\<rparr>) = Diverge"
  by (rule putchar_without_terminal) (simp_all add: wit_console_def)

end
