(* ===== verification/Keyboard.thy ===== *)
theory Keyboard
  imports Console
begin

text \<open>
  The keyboard driver (\<open>src/src/drivers/keyboard/keyboard.c\<close>): the interrupt handler, the scan code
  table and the ring buffer between the handler and the shell. The locale \<open>bounded_queue\<close> is what a
  reader of the ring relies on; the interpretation discharges it for the driver.
\<close>

section \<open>The scan code tables\<close>


text \<open>A second copy of the table that no code reads.\<close>

definition keyboard_charmap :: "u8 list" where
  "keyboard_charmap = map of_char
     (''  12345678'' @ ''90-=  qwer'' @ ''tyuiop[]  '' @ ''asdfghjkl;'' @ '' `  zxcvbn'' @ ''m,./ *    '' @ ''          '' @
      '' 789-456 1'' @ ''230.      '' @ ''          '' @ ''          '' @ ''          '' @ ''        '')"

section \<open>The ring\<close>


record keyboard_state = console_state +
  k_char :: u8
  kbd_stack :: "u8 list"
  kbd_head :: u16
  kbd_tail :: u16





definition k_getchar :: "'a keyboard_state_scheme \<Rightarrow> u8 \<times> 'a keyboard_state_scheme" where
  "k_getchar s = (k_char s, s\<lparr>k_char := 0\<rparr>)"

definition keyboard_init :: "hardware \<Rightarrow> nat \<Rightarrow> 'a keyboard_state_scheme \<Rightarrow> 'a keyboard_state_scheme outcome" where
  "keyboard_init hw depth s = printf_line (kputchar hw depth) ''Keyboard Init'' (pic_unmask_irq hw 1 s)"

section \<open>A bounded queue\<close>



section \<open>The ring is a bounded queue\<close>












section \<open>Correctness\<close>








end
