(* ===== verification/Kmalloc_Frame.thy ===== *)
theory Kmalloc_Frame
  imports Heap_Ops
begin

text \<open>
  The heap leaves the rest of the kernel alone: \<open>kmalloc\<close>, with the page mapping and the frame
  allocation behind it, changes no variable of any component above it. A state of such a
  component extends the heap's record, so the statement is about the part \<open>heap_state.more\<close>.
\<close>
lemma PagingGetFreeFrame_more:
  "PagingGetFreeFrame (s :: 'a heap_state_scheme) = Done (a, s') \<Longrightarrow> heap_state.more s' = heap_state.more s"
  by (auto simp: PagingGetFreeFrame_def early_alloc_page_def frame_alloc_def Let_def outcome_simps
      split: option.splits phys_page_supplier.splits if_splits)

lemma GetOrAllocEntry_more:
  assumes "GetOrAllocEntry t k f (s :: 'a heap_state_scheme) = Done (a, s')"
  shows "heap_state.more s' = heap_state.more s"
proof (cases "load64 (mem s) (entry_addr t k) AND PAGING_FLAG_PRESENT = 0")
  case True
  obtain b s1 where g: "PagingGetFreeFrame s = Done (b, s1)"
    using assms True by (cases "PagingGetFreeFrame s") (auto simp only: GetOrAllocEntry_def Let_def bind_outcome.simps outcome.distinct simp_thms if_True)
  have "\<exists>m. s' = s1\<lparr>mem := m\<rparr>"
    using assms True by (cases "b = 0") (simp_all add: GetOrAllocEntry_def Let_def g, blast+)
  then show ?thesis using PagingGetFreeFrame_more [OF g] by auto
next
  case False
  then show ?thesis using assms by (simp add: GetOrAllocEntry_def Let_def)
qed

lemma PagingMapMemory_more:
  "PagingMapMemory p4 va pa f (s :: 'a heap_state_scheme) = Done s' \<Longrightarrow> heap_state.more s' = heap_state.more s"
  unfolding PagingMapMemory_def Let_def by (auto simp: outcome_simps dest!: GetOrAllocEntry_more)

lemma map_heap_page_more:
  "map_heap_page p4 (va, s :: 'a heap_state_scheme) = Done (va', s') \<Longrightarrow> heap_state.more s' = heap_state.more s"
  unfolding map_heap_page_def
  by (auto simp: outcome_simps frame_alloc_def Let_def dest!: PagingMapMemory_more split: if_splits option.splits)

lemma fl_more [simp]:
  "heap_state.more (fl_push b s) = heap_state.more s" "heap_state.more (fl_remove b s) = heap_state.more s"
  by (simp_all add: fl_push_def fl_remove_def Let_def)

lemma heap_map_more_more:
  assumes "heap_map_more bytes (s :: 'a heap_state_scheme) = Done s'"
  shows "heap_state.more s' = heap_state.more s"
proof -
  have loop: "while_outcome n c (map_heap_page p4) (va, s) = Done (va', t) \<Longrightarrow> heap_state.more t = heap_state.more s"
    for n c p4 va va' t
  proof -
    assume w: "while_outcome n c (map_heap_page p4) (va, s) = Done (va', t)"
    have "heap_state.more (snd (va', t)) = heap_state.more s \<and> \<not> c (va', t)"
      by (rule while_outcome_invariant [OF w, where P = "\<lambda>x. heap_state.more (snd x) = heap_state.more s"])
        (auto dest: map_heap_page_more)
    then show ?thesis by simp
  qed
  from assms show ?thesis unfolding heap_map_more_def Let_def by (auto simp: outcome_simps dest: loop split: if_splits)
qed

lemma allocate_from_block_more: "allocate_from_block h n s = (a, s') \<Longrightarrow> heap_state.more s' = heap_state.more s"
  by (auto simp: allocate_from_block_def Let_def split: if_splits)

lemma kmalloc_more:
  assumes "kmalloc sz (s :: 'a heap_state_scheme) = Done (p, s')"
  shows "heap_state.more s' = heap_state.more s"
  using assms unfolding kmalloc_def Let_def
  by (auto simp: outcome_simps dest!: heap_map_more_more allocate_from_block_more split: if_splits prod.splits)

end
