(* ===== verification/Heap_Budget.thy ===== *)
theory Heap_Budget
  imports Kmalloc_Frame
begin

text \<open>
  How many small requests the heap can still serve: every growth of the heap for a request
  below half a megabyte takes 128 pages of the heap window and at most 512 frames. A client
  that makes a fixed number of such requests needs that many growths in hand.
\<close>

definition heap_budget :: "nat \<Rightarrow> 'a heap_state_scheme \<Rightarrow> bool" where
  "heap_budget k s \<longleftrightarrow> unat (g_heap_curr s) + k * 524288 \<le> unat HEAP_LIMIT \<and> 512 * k \<le> g_free_count s"

lemma small_request:
  assumes "unat sz \<le> 500000"
  shows "grow_pages sz = 128" "total_size_for_payload sz < 128 * PAGE_SIZE" "unat sz + 80 < 2 ^ 64"
proof -
  show size: "unat sz + 80 < 2 ^ 64" using assms by simp
  obtain k where k: "total_size_for_payload sz = of_nat (8 * k)" "8 * k < unat sz + 64" "k < 2 ^ 61"
    by (rule total_size_cells [OF size])
  have t: "unat (total_size_for_payload sz) = 8 * k" using k(3) unfolding k(1) unsigned_of_nat take_bit_eq_mod by simp
  have b: "8 * k < 524288" using k(2) assms by linarith
  then have "(8 * k + 4095) div 4096 < 129" by (simp add: div_less_iff_less_mult)
  then show "grow_pages sz = 128" by (simp add: grow_pages_def t max_def)
  show "total_size_for_payload sz < 128 * PAGE_SIZE" using b by (simp add: t PAGE_SIZE_def word_less_nat_alt)
qed

lemma budget_room: "heap_budget (Suc k) s \<Longrightarrow> unat sz \<le> 500000 \<Longrightarrow> heap_room sz s"
  using small_request [of sz] by (simp add: heap_budget_def heap_room_def)

lemma fl_counts [simp]:
  "g_heap_curr (fl_push b s) = g_heap_curr s" "g_free_count (fl_push b s) = g_free_count s"
  "g_heap_curr (fl_remove b s) = g_heap_curr s" "g_free_count (fl_remove b s) = g_free_count s"
  by (simp_all add: fl_push_def fl_remove_def Let_def)

lemma allocate_from_block_counts:
  "allocate_from_block h n s = (a, s') \<Longrightarrow> g_heap_curr s' = g_heap_curr s \<and> g_free_count s' = g_free_count s"
  by (auto simp: allocate_from_block_def Let_def split: if_splits)

lemma heap_map_more_curr:
  "heap_map_more bytes s = Done s' \<Longrightarrow> g_heap_curr s' = ALIGN_UP (g_heap_curr s) PAGE_SIZE + ALIGN_UP bytes PAGE_SIZE"
  unfolding heap_map_more_def Let_def by (auto simp: outcome_simps split: if_splits)

lemma growth_budget:
  assumes inv: "heap_inv {} s bs fs" and env: "heap_env s" and b: "heap_budget (Suc k) s"
    and run: "heap_map_more (128 * PAGE_SIZE) s = Done s'"
  shows "heap_budget k s'"
proof -
  obtain L where L: "L \<le> HEAP_CELLS" "512 dvd L" "g_heap_curr s = haddr L" by (rule heap_invD [OF inv])
  then obtain j where j: "L = 512 * j" by (auto elim: dvdE)
  have curr: "g_heap_curr s = hpage j" "j \<le> HEAP_PAGES" using L j by (simp_all add: hpage_def)
  have u: "unat (hpage j) = 0xFFFF900000000000 + 4096 * j" by (rule unat_hpage [OF curr(2)])
  have jn: "j + 128 \<le> HEAP_PAGES" using b u curr(1) by (simp add: heap_budget_def HEAP_LIMIT_def HEAP_BASE_def)
  have need: "ALIGN_UP (128 * PAGE_SIZE) PAGE_SIZE = of_nat (8 * (512 * 128))" by (simp add: ALIGN_UP_def PAGE_SIZE_def)
  have left: "frames_left (4 * 128 + 512 * k) s" using b env by (simp add: heap_budget_def frames_left_def heap_env_def)
  from heap_map_more_run [OF inv env curr(1) jn _ need left] run have g: "grown j 128 bs fs s s'" "frames_left (512 * k) s'" by simp_all
  have "512 * k \<le> g_free_count s'" using g by (simp add: frames_left_def grown_def heap_env_def)
  moreover have "g_heap_curr s' = hpage (j + 128)"
    using heap_map_more_curr [OF run] hpage_align [OF curr(2)] curr(1) need haddr_plus [of "512 * j" "512 * 128"] by (simp add: hpage_def algebra_simps)
  then have "unat (g_heap_curr s') = unat (g_heap_curr s) + 524288" using unat_hpage [OF jn] u curr(1) by simp
  ultimately show ?thesis using b by (simp add: heap_budget_def)
qed

lemma heap_budget_mono: "heap_budget (Suc k) s \<Longrightarrow> heap_budget k s"
  by (auto simp: heap_budget_def)

lemma kmalloc_budget:
  assumes ok: "heap_ok s bs" and b: "heap_budget (Suc k) s" and sz: "unat sz \<le> 500000"
    and run: "kmalloc sz s = Done (p, s')"
  shows "heap_budget k s'"
proof -
  define t where "t = s\<lparr>g_heap_lock := True\<rparr>"
  from ok obtain fs where inv: "heap_inv {} t bs fs" and env: "heap_env t" and lock: "\<not> g_heap_lock s"
    by (auto simp: heap_ok_def t_def)
  have bt: "heap_budget (Suc k) t" using b by (simp add: heap_budget_def t_def)
  have grow: "(if total_size_for_payload sz < 128 * PAGE_SIZE then 128 * PAGE_SIZE else total_size_for_payload sz) = 128 * PAGE_SIZE"
    using small_request(2) [OF sz] by simp
  have step: "heap_budget k (snd (allocate_from_block h sz u)\<lparr>g_heap_lock := l\<rparr>)" if "heap_budget k u" for h u l
    using that allocate_from_block_counts [of h sz u] by (cases "allocate_from_block h sz u") (simp add: heap_budget_def)
  have grown: "heap_budget k u" if "heap_map_more (128 * PAGE_SIZE) t = Done u" for u by (rule growth_budget [OF inv env bt that])
  have keep: "heap_budget k (u\<lparr>g_heap_lock := l\<rparr>)" if "heap_budget k u" for u :: "'a heap_state_scheme" and l
    using that by (simp add: heap_budget_def)
  have fin: "heap_budget k s'" if "heap_budget k u"
    and "(if h = 0 then Done (0, u\<lparr>g_heap_lock := spinlock_release (g_heap_lock u)\<rparr>)
       else case allocate_from_block h sz u of (a, s2) \<Rightarrow> Done (a + HDR_SIZE, s2\<lparr>g_heap_lock := spinlock_release (g_heap_lock s2)\<rparr>)) = Done (p, s')" for h u
    using that(2) step [OF that(1), of _ h] keep [OF that(1)] by (cases "allocate_from_block h sz u") (auto split: if_splits)
  have z: "sz \<noteq> 0 \<or> s' = s" using run by (auto simp: kmalloc_def)
  show ?thesis
  proof (cases "sz = 0")
    case True
    then show ?thesis using z heap_budget_mono [OF b] by simp
  next
    case False
    with run lock obtain h h' u where "fl_find_fit sz t = Done h"
      and "(if h = 0 then bind_outcome (heap_map_more (128 * PAGE_SIZE) t) (\<lambda>s1. bind_outcome (fl_find_fit sz s1) (\<lambda>h1. Done (h1, s1))) else Done (h, t)) = Done (h', u)"
      and f: "(if h' = 0 then Done (0, u\<lparr>g_heap_lock := spinlock_release (g_heap_lock u)\<rparr>)
       else case allocate_from_block h' sz u of (a, s2) \<Rightarrow> Done (a + HDR_SIZE, s2\<lparr>g_heap_lock := spinlock_release (g_heap_lock s2)\<rparr>)) = Done (p, s')"
      unfolding kmalloc_def Let_def grow spinlock_acquire_def
      by (simp add: bind_outcome_eq_Done t_def [symmetric]) (auto simp only: prod.case t_def outcome.inject)
    then have "heap_budget k u" using grown heap_budget_mono [OF bt] by (auto simp: outcome_simps split: if_splits)
    from fin [OF this f] show ?thesis .
  qed
qed

lemma kmalloc_init_budget:
  assumes env: "heap_env s" and lock: "\<not> g_heap_lock s" and left: "256 + 512 * k \<le> g_free_count s" and k: "k \<le> 500"
  shows "\<exists>s'. kmalloc_init s = Done s' \<and> heap_owns s' {} \<and> heap_budget k s' \<and> heap_state.more s' = heap_state.more s"
proof -
  define t where "t = s\<lparr>g_heap_curr := HEAP_BASE, g_free_list := 0\<rparr>"
  from kmalloc_init_run [OF env lock] left obtain s' where s': "kmalloc_init s = Done s'" "heap_ok s' [(0, 512 * 64, False)]" by auto
  have run: "heap_map_more (64 * PAGE_SIZE) t = Done s'" using s'(1) by (simp add: kmalloc_init_def t_def)
  have inv: "heap_inv {} t [] []" by (simp add: heap_inv_def t_def haddr_0)
  have envt: "heap_env t" using env by (simp add: t_def)
  have curr: "g_heap_curr t = hpage 0" by (simp add: t_def hpage_def haddr_0)
  have fr: "frames_left (4 * 64 + 512 * k) t" using left env by (simp add: t_def frames_left_def heap_env_def)
  have need: "ALIGN_UP (64 * PAGE_SIZE) PAGE_SIZE = of_nat (8 * (512 * 64))" by (simp add: ALIGN_UP_def PAGE_SIZE_def)
  from heap_map_more_run [OF inv envt curr _ _ need fr] run have g: "grown 0 64 [] [] t s'" "frames_left (512 * k) s'" by simp_all
  have "512 * k \<le> g_free_count s'" using g by (simp add: frames_left_def grown_def heap_env_def)
  moreover have "g_heap_curr s' = hpage 64"
    using heap_map_more_curr [OF run] hpage_align [of 0] curr need haddr_plus [of 0 "512 * 64"] by (simp add: hpage_def)
  ultimately have "heap_budget k s'" using unat_hpage [of 64] k by (simp add: heap_budget_def HEAP_LIMIT_def HEAP_BASE_def)
  moreover have "heap_owns s' {}" unfolding heap_owns_def using s'(2) by (auto simp: payloads_def)
  moreover have "heap_state.more s' = heap_state.more s" using heap_map_more_more [OF run] by (simp add: t_def)
  ultimately show ?thesis using s'(1) by blast
qed

lemma truncate_fields [simp]:
  "g_alloc_bm (heap_state.truncate s) = g_alloc_bm s" "g_usable_bm (heap_state.truncate s) = g_usable_bm s"
  "g_frame_count (heap_state.truncate s) = g_frame_count s" "g_free_count (heap_state.truncate s) = g_free_count s"
  "g_max_phys (heap_state.truncate s) = g_max_phys s" "g_memlock (heap_state.truncate s) = g_memlock s" "g_hint (heap_state.truncate s) = g_hint s"
  "g_base (heap_state.truncate s) = g_base s" "g_cursor (heap_state.truncate s) = g_cursor s" "g_end (heap_state.truncate s) = g_end s"
  "mem (heap_state.truncate s) = mem s" "cr3 (heap_state.truncate s) = cr3 s" "g_boot_phys_page (heap_state.truncate s) = g_boot_phys_page s"
  "g_hhdm (heap_state.truncate s) = g_hhdm s"
  "g_heap_curr (heap_state.truncate s) = g_heap_curr s" "g_heap_lock (heap_state.truncate s) = g_heap_lock s" "g_free_list (heap_state.truncate s) = g_free_list s"
  by (cases s; simp add: heap_state.defs)+

lemma truncate_wf [simp]:
  "frame_wf (heap_state.truncate s) = frame_wf s" "frame_limit (heap_state.truncate s) = frame_limit s"
  "frame_is_allocated (heap_state.truncate s) = frame_is_allocated s"
  "early_wf (heap_state.truncate s) = early_wf s" "early_pages (heap_state.truncate s) = early_pages s"
  by (auto simp: frame_wf_def frame_topology_def free_frames_def frame_limit_def frame_is_allocated_def early_wf_def early_pages_def fun_eq_iff)

lemma truncate_supply [simp]:
  "supplier_ok (heap_state.truncate s) = supplier_ok s" "supplied (heap_state.truncate s) = supplied s"
  "supply_limit (heap_state.truncate s) = supply_limit s" "current_pml4_phys (heap_state.truncate s) = current_pml4_phys s"
  by (simp_all add: supplier_ok_def supplied_def supply_limit_def current_pml4_phys_def
      split: option.split phys_page_supplier.split)

lemma heap_owns_truncate: "heap_owns (heap_state.truncate s) = heap_owns s"
proof -
  have "heap_env (heap_state.truncate s) = heap_env s" by (simp add: heap_env_def pt_ok_def table_frames_def)
  moreover have "heap_mapped (heap_state.truncate s) = heap_mapped s" by (simp add: heap_mapped_def)
  moreover have "heap_inv X (heap_state.truncate s) bs fs = heap_inv X s bs fs" for X bs fs by (simp add: heap_inv_def)
  ultimately show ?thesis by (simp add: heap_owns_def heap_ok_def fun_eq_iff)
qed

text \<open>A change of the variables above the heap does not matter to it.\<close>
lemma heap_owns_above: "heap_state.truncate t = heap_state.truncate s \<Longrightarrow> heap_owns t B = heap_owns s B"
  using heap_owns_truncate [of s] heap_owns_truncate [of t] by simp

end
