(* ===== verification/Sched.thy ===== *)
theory Sched
  imports Keyboard Heap_Budget
begin

text \<open>
  The cooperative scheduler (\<open>src/src/sched.c\<close>) and the context switch (\<open>sched_ll.asm\<close>). Process
  control blocks and stacks are in the kernel's memory; the registers that the switch saves and
  restores are part of the state. A task runs until it calls \<open>schedule\<close>.
\<close>

section \<open>32-bit fields\<close>

definition store32 :: "memory \<Rightarrow> u64 \<Rightarrow> u32 \<Rightarrow> memory" where
  "store32 m a v = (\<lambda>x. if x - a < 4 then ucast (drop_bit (8 * unat (x - a)) v) else m x)"

definition load32 :: "memory \<Rightarrow> u64 \<Rightarrow> u32" where
  "load32 m a =
     ucast (m a) OR push_bit 8 (ucast (m (a + 1))) OR push_bit 16 (ucast (m (a + 2))) OR push_bit 24 (ucast (m (a + 3)))"

section \<open>Processes\<close>

datatype proc_state_t = PROC_READY | PROC_RUNNING | PROC_BLOCKED

definition proc_state_code :: "proc_state_t \<Rightarrow> u32" where
  "proc_state_code st = (case st of PROC_READY \<Rightarrow> 0 | PROC_RUNNING \<Rightarrow> 1 | PROC_BLOCKED \<Rightarrow> 2)"

text \<open>\<open>process_t\<close>: the identifier at 0, the saved stack pointer at 8, the state at 16, the link at 24.\<close>

definition SIZEOF_PROCESS :: u64 where "SIZEOF_PROCESS = 32"

definition proc_pid :: "memory \<Rightarrow> u64 \<Rightarrow> u32" where "proc_pid m p = load32 m p"
definition proc_rsp :: "memory \<Rightarrow> u64 \<Rightarrow> u64" where "proc_rsp m p = load64 m (p + 8)"
definition proc_state :: "memory \<Rightarrow> u64 \<Rightarrow> u32" where "proc_state m p = load32 m (p + 16)"
definition proc_next :: "memory \<Rightarrow> u64 \<Rightarrow> u64" where "proc_next m p = load64 m (p + 24)"

definition set_pid :: "u64 \<Rightarrow> u32 \<Rightarrow> memory \<Rightarrow> memory" where "set_pid p v m = store32 m p v"
definition set_rsp :: "u64 \<Rightarrow> u64 \<Rightarrow> memory \<Rightarrow> memory" where "set_rsp p v m = store64 m (p + 8) v"
definition set_state :: "u64 \<Rightarrow> proc_state_t \<Rightarrow> memory \<Rightarrow> memory" where "set_state p st m = store32 m (p + 16) (proc_state_code st)"
definition set_next :: "u64 \<Rightarrow> u64 \<Rightarrow> memory \<Rightarrow> memory" where "set_next p v m = store64 m (p + 24) v"

definition STACK_SIZE :: u64 where "STACK_SIZE = 16 * 1024"
definition STACK_ALIGN :: u64 where "STACK_ALIGN = 16"

text \<open>The scheduler's variables and the registers that the context switch is about.\<close>

record sched_state = keyboard_state +
  allow_sched :: bool
  current :: u64
  run_queue_head :: u64
  run_queue_tail :: u64
  next_pid :: u32
  r_rsp :: u64
  r_rbp :: u64
  r_rbx :: u64
  r_r12 :: u64
  r_r13 :: u64
  r_r14 :: u64
  r_r15 :: u64
  r_rip :: u64
  r_if :: bool

section \<open>The context switch\<close>

definition push_word :: "u64 \<Rightarrow> 'a sched_state_scheme \<Rightarrow> 'a sched_state_scheme" where
  "push_word v s = s\<lparr>r_rsp := r_rsp s - 8, mem := store64 (mem s) (r_rsp s - 8) v\<rparr>"

definition pop_word :: "'a sched_state_scheme \<Rightarrow> u64 \<times> 'a sched_state_scheme" where
  "pop_word s = (load64 (mem s) (r_rsp s), s\<lparr>r_rsp := r_rsp s + 8\<rparr>)"

definition save_context :: "'a sched_state_scheme \<Rightarrow> 'a sched_state_scheme" where
  "save_context s =
     (let s = push_word (r_rbp s) s;
          s = push_word (r_rbx s) s;
          s = push_word (r_r12 s) s;
          s = push_word (r_r13 s) s;
          s = push_word (r_r14 s) s;
          s = push_word (r_r15 s) s
      in s\<lparr>mem := set_rsp (current s) (r_rsp s) (mem s)\<rparr>)"

definition load_context :: "u64 \<Rightarrow> 'a sched_state_scheme \<Rightarrow> 'a sched_state_scheme" where
  "load_context next s =
     (let s = s\<lparr>current := next\<rparr>;
          s = s\<lparr>r_rsp := proc_rsp (mem s) next\<rparr>;
          (v, s) = pop_word s; s = s\<lparr>r_r15 := v\<rparr>;
          (v, s) = pop_word s; s = s\<lparr>r_r14 := v\<rparr>;
          (v, s) = pop_word s; s = s\<lparr>r_r13 := v\<rparr>;
          (v, s) = pop_word s; s = s\<lparr>r_r12 := v\<rparr>;
          (v, s) = pop_word s; s = s\<lparr>r_rbx := v\<rparr>;
          (v, s) = pop_word s; s = s\<lparr>r_rbp := v\<rparr>;
          s = s\<lparr>r_if := True\<rparr>;
          (v, s) = pop_word s
      in s\<lparr>r_rip := v\<rparr>)"

definition switch_to :: "u64 \<Rightarrow> 'a sched_state_scheme \<Rightarrow> 'a sched_state_scheme" where
  "switch_to next s =
     (let s = s\<lparr>r_if := False\<rparr>;
          s = (if current s \<noteq> 0 then save_context s else s)
      in load_context next s)"

section \<open>The scheduler\<close>

definition init_scheduler :: "'a sched_state_scheme \<Rightarrow> 'a sched_state_scheme" where
  "init_scheduler s = s\<lparr>current := 0, run_queue_head := 0, run_queue_tail := 0, next_pid := 1, allow_sched := False\<rparr>"

text \<open>The first frame of a task: seven words below the address that a returning task would go to.\<close>

definition initial_stack :: "u64 \<Rightarrow> u64 \<Rightarrow> u64 \<Rightarrow> memory \<Rightarrow> u64 \<times> memory" where
  "initial_stack stack entry task_returned m =
     (let stack_end = stack + STACK_SIZE;
          stack_end = stack_end AND NOT (STACK_ALIGN - 1);
          stack_end = stack_end - 8;
          sp = stack_end; m = store64 m sp task_returned;
          sp = sp - 8; m = store64 m sp entry;
          sp = sp - 8; m = store64 m sp 0;
          sp = sp - 8; m = store64 m sp 0;
          sp = sp - 8; m = store64 m sp 0;
          sp = sp - 8; m = store64 m sp 0;
          sp = sp - 8; m = store64 m sp 0;
          sp = sp - 8; m = store64 m sp 0
      in (sp, m))"

definition enqueue :: "u64 \<Rightarrow> 'a sched_state_scheme \<Rightarrow> 'a sched_state_scheme" where
  "enqueue p s =
     (if run_queue_head s = 0
      then s\<lparr>run_queue_head := p, run_queue_tail := p, mem := set_next p p (mem s)\<rparr>
      else s\<lparr>mem := set_next (run_queue_tail s) p (set_next p (run_queue_head s) (mem s)), run_queue_tail := p\<rparr>)"

definition create_process :: "u64 \<Rightarrow> u64 \<Rightarrow> 'a sched_state_scheme \<Rightarrow> (u64 \<times> 'a sched_state_scheme) outcome" where
  "create_process task_returned entry s =
     (if entry = 0 then Panic ''scheduler: NULL task entry''
      else
        bind_outcome (kmalloc SIZEOF_PROCESS s) (\<lambda>(p, s).
        if p = 0 then Panic ''scheduler: failed to allocate process structure''
        else
          let s = s\<lparr>mem := memset (mem s) p 0 SIZEOF_PROCESS\<rparr>
          in bind_outcome (kmalloc STACK_SIZE s) (\<lambda>(stack, s).
             if stack = 0 then Panic ''scheduler: failed to allocate task stack''
             else
               let s = s\<lparr>mem := memset (mem s) stack 0 STACK_SIZE\<rparr>;
                   s = s\<lparr>mem := set_pid p (next_pid s) (mem s), next_pid := next_pid s + 1\<rparr>;
                   s = s\<lparr>mem := set_state p PROC_READY (mem s)\<rparr>;
                   (sp, m) = initial_stack stack entry task_returned (mem s);
                   s = s\<lparr>mem := set_rsp p sp m\<rparr>
               in Done (p, enqueue p s))))"

text \<open>The call of \<open>switch_to\<close> pushes the address \<open>ret\<close> after it.\<close>

definition schedule :: "u64 \<Rightarrow> 'a sched_state_scheme \<Rightarrow> 'a sched_state_scheme" where
  "schedule ret s =
     (if run_queue_head s = 0 then s
      else
        let next = (if current s \<noteq> 0 then proc_next (mem s) (current s) else run_queue_head s)
        in if next = 0 then s
           else if current s \<noteq> 0 \<and> next = current s then s
           else
             let s = (if current s \<noteq> 0 then s\<lparr>mem := set_state (current s) PROC_READY (mem s)\<rparr> else s);
                 s = s\<lparr>mem := set_state next PROC_RUNNING (mem s)\<rparr>
             in switch_to next (push_word ret s))"

text \<open>\<open>task_returned\<close> and a \<open>scheduler_start\<close> whose dispatch comes back both panic.\<close>

definition task_returned_handler :: "'a sched_state_scheme \<Rightarrow> 'a sched_state_scheme outcome" where
  "task_returned_handler s = Panic ''scheduler: task %i returned unexpectedly''"

definition scheduler_start :: "u64 \<Rightarrow> 'a sched_state_scheme \<Rightarrow> 'a sched_state_scheme outcome" where
  "scheduler_start ret s =
     (if run_queue_head s = 0 then Panic ''scheduler: cannot start with an empty run queue''
      else if current s \<noteq> 0 then Panic ''scheduler: start requested while a task is already current''
      else
        let s = schedule ret (s\<lparr>allow_sched := False\<rparr>)
        in if current s \<noteq> 0 then Done s else Panic ''scheduler: initial dispatch returned unexpectedly'')"

end
