(* ===== verification/Sched_Correct.thy ===== *)
theory Sched_Correct
  imports Sched
begin

text \<open>
  Correctness of one switch of the scheduler: what it saves and restores, and the invariant of the
  circular run queue that it keeps.
\<close>

section \<open>Offsets\<close>
lemma unat_add_small: "unat (a :: u64) + n < 2 ^ 64 \<Longrightarrow> unat (a + of_nat n) = unat a + n"
  using unat_of_nat_u64 [of n] unat_add_lem [of a "of_nat n"] by simp

text \<open>A byte of an access of \<open>k\<close> bytes at offset \<open>c\<close> of a block is in the block.\<close>
lemma access_in_block:
  assumes "x - (p + of_nat c) < of_nat k" and "c + k \<le> n" and "n < 2 ^ 64"
  shows "in_block p n x"
proof -
  have "unat (of_nat k :: u64) = k" by (rule unat_of_nat_u64) (use assms(2,3) in simp)
  then have lt: "unat (x - (p + of_nat c)) < k" using assms(1) by (simp add: word_less_nat_alt)
  have "x - p = (x - (p + of_nat c)) + of_nat c" by simp
  also have "unat \<dots> = unat (x - (p + of_nat c)) + c" by (rule unat_add_small) (use lt assms(2,3) in linarith)
  finally show ?thesis using lt assms(2) by (simp add: in_block_def)
qed

section \<open>Stacks\<close>

text \<open>The 8-byte words of a stack that starts at \<open>st\<close>.\<close>

definition slot :: "u64 \<Rightarrow> nat \<Rightarrow> u64" where "slot st d = st + of_nat (8 * d)"

definition slots :: "u64 \<Rightarrow> nat set" where "slots st = {d. aligned8 st \<and> d \<le> 2048}"

lemma slot_inj: "d \<le> 2048 \<Longrightarrow> e \<le> 2048 \<Longrightarrow> slot st d = slot st e \<longleftrightarrow> d = e"
proof -
  assume "d \<le> 2048" "e \<le> 2048"
  then have "unat (of_nat (8 * d) :: u64) = 8 * d" "unat (of_nat (8 * e) :: u64) = 8 * e"
    by (auto intro!: unat_of_nat_u64 simp del: of_nat_mult)
  then have "(of_nat (8 * d) :: u64) = of_nat (8 * e) \<longleftrightarrow> d = e" by (metis mult_left_cancel zero_neq_numeral)
  then show ?thesis by (simp only: slot_def add_left_cancel)
qed

lemma slot_aligned: "aligned8 st \<Longrightarrow> aligned8 (slot st d)"
  unfolding slot_def using aligned8_mult8 [of "of_nat d"] by (simp add: aligned8_add)

interpretation stackmem: word_store "\<lambda>m d. load64 m (slot st d)" "\<lambda>m d v. store64 m (slot st d) v" "slots st" for st
  by unfold_locales (auto simp: slots_def slot_aligned slot_inj load64_store64_other)

lemma slot_step: "slot st d + 8 = slot st (d + 1)" "1 \<le> d \<Longrightarrow> slot st d - 8 = slot st (d - 1)"
proof -
  show "slot st d + 8 = slot st (d + 1)" by (simp add: slot_def)
  assume "1 \<le> d"
  then obtain e where "d = Suc e" by (cases d) auto
  then show "slot st d - 8 = slot st (d - 1)" by (simp add: slot_def)
qed

lemma slot_store_block:
  assumes "d < 2048" and "\<not> in_block st 16384 x"
  shows "store64 m (slot st d) v x = m x"
  using access_in_block [of x st "8 * d" 8 16384] assms by (auto intro!: store64_other simp: slot_def)

section \<open>Process control blocks\<close>
lemma store32_field:
  "c + 8 \<le> d \<or> d + 4 \<le> c \<Longrightarrow> c < 1000 \<Longrightarrow> d < 1000 \<Longrightarrow> load64 (store32 m (p + of_nat d) v) (p + of_nat c) = load64 m (p + of_nat c)"
proof (rule load64_cong)
  fix i :: u64 assume a: "c + 8 \<le> d \<or> d + 4 \<le> c" "c < 1000" "d < 1000" and i: "i < 8"
  define e where "e = p + of_nat c + i - (p + of_nat d)"
  have "\<not> e < 4"
  proof
    assume "e < 4"
    then have lt: "unat e < 4" "unat i < 8" using i by (simp_all add: word_less_nat_alt)
    have "unat (i + of_nat c) = unat i + c" by (rule unat_add_small) (use lt a(2) in simp)
    moreover have "unat (e + of_nat d) = unat e + d" by (rule unat_add_small) (use lt a(3) in simp)
    moreover have "e + of_nat d = i + of_nat c" by (simp add: e_def)
    ultimately have "unat e + d = unat i + c" by simp
    then show False using lt a(1) by linarith
  qed
  then show "store32 m (p + of_nat d) v (p + of_nat c + i) = m (p + of_nat c + i)" by (simp add: store32_def e_def)
qed

lemma pcb_fields [simp]:
  assumes "aligned8 p"
  shows "proc_rsp (set_rsp p v m) p = v" "proc_next (set_rsp p v m) p = proc_next m p"
    "proc_next (set_next p v m) p = v" "proc_rsp (set_next p v m) p = proc_rsp m p"
    "proc_rsp (set_state p st m) p = proc_rsp m p" "proc_next (set_state p st m) p = proc_next m p"
    "proc_rsp (set_pid p w m) p = proc_rsp m p" "proc_next (set_pid p w m) p = proc_next m p"
proof -
  have a: "aligned8 (p + 8)" "aligned8 (p + 24)"
    using aligned8_add [OF assms aligned8_mult8 [of 1]] aligned8_add [OF assms aligned8_mult8 [of 3]] by simp_all
  show "proc_rsp (set_rsp p v m) p = v" "proc_next (set_rsp p v m) p = proc_next m p"
    "proc_next (set_next p v m) p = v" "proc_rsp (set_next p v m) p = proc_rsp m p"
    using a by (simp_all add: proc_rsp_def proc_next_def set_rsp_def set_next_def load64_store64_other)
  show "proc_rsp (set_state p st m) p = proc_rsp m p" "proc_next (set_state p st m) p = proc_next m p"
    "proc_rsp (set_pid p w m) p = proc_rsp m p" "proc_next (set_pid p w m) p = proc_next m p"
    using store32_field [of 8 16 m p] store32_field [of 24 16 m p] store32_field [of 8 0 m p] store32_field [of 24 0 m p]
    by (simp_all add: proc_rsp_def proc_next_def set_state_def set_pid_def)
qed

lemma pcb_store_block:
  assumes "\<not> in_block p 32 x"
  shows "set_rsp p v m x = m x" "set_next p v m x = m x" "set_state p st m x = m x" "set_pid p w m x = m x"
proof -
  have far: "\<not> x - (p + of_nat c) < of_nat k" if "c + k \<le> 32" for c k
    using access_in_block [of x p c k 32] that assms by auto
  show "set_rsp p v m x = m x" "set_next p v m x = m x" "set_state p st m x = m x" "set_pid p w m x = m x"
    using far [of 8 8] far [of 24 8] far [of 16 4] far [of 0 4]
    by (simp_all add: set_rsp_def set_next_def set_state_def set_pid_def store64_def store32_def)
qed

section \<open>Contexts\<close>

text \<open>What a switched-out task has on its stack, from the saved stack pointer up: \<open>r15\<close>, \<open>r14\<close>, \<open>r13\<close>,
  \<open>r12\<close>, \<open>rbx\<close>, \<open>rbp\<close> and the address it goes on at.\<close>

definition context_of :: "memory \<Rightarrow> u64 \<Rightarrow> u64 list" where
  "context_of m p = map (\<lambda>k. load64 m (proc_rsp m p + of_nat (8 * k))) [0..<7]"

definition registers :: "'a sched_state_scheme \<Rightarrow> u64 list" where
  "registers s = [r_r15 s, r_r14 s, r_r13 s, r_r12 s, r_rbx s, r_rbp s, r_rip s]"

definition regs_ret :: "u64 \<Rightarrow> 'a sched_state_scheme \<Rightarrow> u64 list" where
  "regs_ret ret s = [r_r15 s, r_r14 s, r_r13 s, r_r12 s, r_rbx s, r_rbp s, ret]"

lemma slot_add: "slot st d + of_nat (8 * k) = slot st (d + k)"
  by (simp add: slot_def distrib_left)

lemma context_slots: "proc_rsp m p = slot st d \<Longrightarrow> context_of m p = map (\<lambda>k. load64 m (slot st (d + k))) [0..<7]"
  by (simp only: context_of_def slot_add)

lemma load_context_regs:
  "registers (load_context next s) = context_of (mem s) next" "r_rsp (load_context next s) = proc_rsp (mem s) next + 56"
  "mem (load_context next s) = mem s" "current (load_context next s) = next"
  "run_queue_head (load_context next s) = run_queue_head s" "run_queue_tail (load_context next s) = run_queue_tail s"
  by (simp_all add: load_context_def pop_word_def registers_def context_of_def Let_def upt_rec [of _ 7] add.assoc)

lemma save_context_eq:
  assumes "r_rsp s = slot st d" and "6 \<le> d"
  shows "save_context s = s\<lparr>r_rsp := slot st (d - 6),
    mem := set_rsp (current s) (slot st (d - 6))
      (store64 (store64 (store64 (store64 (store64 (store64 (mem s) (slot st (d - 1)) (r_rbp s)) (slot st (d - 2)) (r_rbx s))
        (slot st (d - 3)) (r_r12 s)) (slot st (d - 4)) (r_r13 s)) (slot st (d - 5)) (r_r14 s)) (slot st (d - 6)) (r_r15 s))\<rparr>"
proof -
  have "slot st e - of_nat (8 * k) = slot st (e - k)" if "k \<le> e" for e k using that by (simp add: slot_def of_nat_diff algebra_simps)
  from this [of 1 d] this [of 1 "d - Suc 0"] this [of 2 "d - Suc 0"] this [of 3 "d - Suc 0"] this [of 4 "d - Suc 0"] this [of 5 "d - Suc 0"]
  have "slot st d - 8 = slot st (d - Suc 0)" "slot st (d - Suc 0) - 8 = slot st (d - 2)" "slot st (d - Suc 0) - 16 = slot st (d - 3)"
    "slot st (d - Suc 0) - 24 = slot st (d - 4)" "slot st (d - Suc 0) - 32 = slot st (d - 5)" "slot st (d - Suc 0) - 40 = slot st (d - 6)"
    using assms(2) by (simp_all add: eval_nat_numeral)
  then show ?thesis by (simp add: save_context_def push_word_def assms(1) Let_def)
qed

section \<open>Regions\<close>

text \<open>The control blocks and stacks of the tasks do not overlap.\<close>

definition regions :: "u64 list \<Rightarrow> (u64 \<Rightarrow> u64) \<Rightarrow> bool" where
  "regions ps stk \<longleftrightarrow>
     (\<forall>p \<in> set ps. p \<noteq> 0 \<and> aligned8 p \<and> aligned8 (stk p)) \<and>
     (\<forall>p \<in> set ps. \<forall>q \<in> set ps. \<forall>a.
        (p \<noteq> q \<longrightarrow> in_block p 32 a \<longrightarrow> \<not> in_block q 32 a) \<and>
        (p \<noteq> q \<longrightarrow> in_block (stk p) 16384 a \<longrightarrow> \<not> in_block (stk q) 16384 a) \<and>
        (in_block p 32 a \<longrightarrow> \<not> in_block (stk q) 16384 a))"

definition same_on :: "u64 \<Rightarrow> nat \<Rightarrow> memory \<Rightarrow> memory \<Rightarrow> bool" where
  "same_on p n m m' \<longleftrightarrow> (\<forall>a. in_block p n a \<longrightarrow> m' a = m a)"

lemma same_on_load:
  assumes "same_on p n m m'" and "c + 8 \<le> n" and "n < 2 ^ 64"
  shows "load64 m' (p + of_nat c) = load64 m (p + of_nat c)"
proof (rule load64_cong)
  fix i :: u64 assume "i < 8"
  then have "in_block p n (p + of_nat c + i)" using access_in_block [of "p + of_nat c + i" p c 8 n] assms(2,3) by simp
  then show "m' (p + of_nat c + i) = m (p + of_nat c + i)" using assms(1) by (simp add: same_on_def)
qed

lemma same_on_pcb: "same_on p 32 m m' \<Longrightarrow> proc_rsp m' p = proc_rsp m p \<and> proc_next m' p = proc_next m p"
  using same_on_load [of p 32 m m' 8] same_on_load [of p 32 m m' 24] by (simp add: proc_rsp_def proc_next_def)

lemma same_on_slot: "same_on st 16384 m m' \<Longrightarrow> d < 2048 \<Longrightarrow> load64 m' (slot st d) = load64 m (slot st d)"
  using same_on_load [of st 16384 m m' "8 * d"] by (simp add: slot_def)

lemma same_on_context:
  assumes "same_on st 16384 m m'" and "proc_rsp m' p = proc_rsp m p" and "proc_rsp m p = slot st d" and "d + 7 \<le> 2048"
  shows "context_of m' p = context_of m p"
  using assms by (simp add: context_slots [of m' p st d] context_slots [of m p st d] same_on_slot)

section \<open>One switch\<close>

text \<open>The memory after the running task \<open>p\<close> has been switched out in favour of \<open>q\<close>.\<close>
lemma switch_memory:
  fixes ret :: u64
  assumes "regions ps stk" and "p \<in> set ps" and "q \<in> set ps" and "p \<noteq> q" and "current s = p"
    and "r_rsp s = slot (stk p) d" and "7 \<le> d" and "d \<le> 2048"
  defines "t \<equiv> save_context (push_word ret (s\<lparr>mem := set_state q PROC_RUNNING (set_state p PROC_READY (mem s))\<rparr>)\<lparr>r_if := False\<rparr>)"
  shows "context_of (mem t) p = regs_ret ret s" "proc_rsp (mem t) p = slot (stk p) (d - 7)"
    and "r \<in> set ps \<Longrightarrow> proc_next (mem t) r = proc_next (mem s) r"
    and "r \<in> set ps \<Longrightarrow> r \<noteq> p \<Longrightarrow> proc_rsp (mem t) r = proc_rsp (mem s) r"
    and "r \<in> set ps \<Longrightarrow> r \<noteq> p \<Longrightarrow> same_on (stk r) 16384 (mem s) (mem t)"
    and "\<not> in_block p 32 a \<Longrightarrow> \<not> in_block q 32 a \<Longrightarrow> \<not> in_block (stk p) 16384 a \<Longrightarrow> mem t a = mem s a"
proof -
  define m0 where "m0 = set_state q PROC_RUNNING (set_state p PROC_READY (mem s))"
  define m1 where "m1 = store64 (store64 (store64 (store64 (store64 (store64 (store64 m0 (slot (stk p) (d - 1)) ret)
    (slot (stk p) (d - 2)) (r_rbp s)) (slot (stk p) (d - 3)) (r_rbx s)) (slot (stk p) (d - 4)) (r_r12 s)) (slot (stk p) (d - 5)) (r_r13 s))
    (slot (stk p) (d - 6)) (r_r14 s)) (slot (stk p) (d - 7)) (r_r15 s)"
  have m: "mem t = set_rsp p (slot (stk p) (d - 7)) m1"
    unfolding t_def m1_def m0_def using assms(5-8)
    by (subst save_context_eq [of _ "stk p" "d - 1"]) (simp_all add: push_word_def slot_step eval_nat_numeral)
  have al: "aligned8 p" "aligned8 q" "aligned8 (stk p)" using assms(1-3) by (auto simp: regions_def)
  have apart: "in_block u 32 a \<Longrightarrow> \<not> in_block (stk v) 16384 a" "in_block (stk v) 16384 a \<Longrightarrow> \<not> in_block u 32 a"
    "u \<noteq> v \<Longrightarrow> in_block u 32 a \<Longrightarrow> \<not> in_block v 32 a" "u \<noteq> v \<Longrightarrow> in_block (stk u) 16384 a \<Longrightarrow> \<not> in_block (stk v) 16384 a"
    if "u \<in> set ps" "v \<in> set ps" for u v a
    using assms(1) that unfolding regions_def by blast+
  have out1: "m1 a = m0 a" if "\<not> in_block (stk p) 16384 a" for a using that assms(7,8) by (simp add: m1_def slot_store_block)
  show out: "mem t a = mem s a" if "\<not> in_block p 32 a" "\<not> in_block q 32 a" "\<not> in_block (stk p) 16384 a" for a
    using that out1 by (simp add: m m0_def pcb_store_block)
  show stk: "same_on (stk r) 16384 (mem s) (mem t)" if "r \<in> set ps" "r \<noteq> p" for r
    unfolding same_on_def using out apart(2) [OF assms(2) that(1)] apart(2) [OF assms(3) that(1)] apart(4) [OF that(1) assms(2) that(2)] by blast
  have p1: "same_on p 32 m0 m1" "same_on q 32 m0 m1"
    unfolding same_on_def using out1 apart(1) [OF assms(2) assms(2)] apart(1) [OF assms(3) assms(2)] by blast+
  show rsp: "proc_rsp (mem t) p = slot (stk p) (d - 7)" unfolding m using al by simp
  have "in_block p 32 a \<Longrightarrow> \<not> in_block q 32 a" "in_block q 32 a \<Longrightarrow> \<not> in_block p 32 a" for a using apart(3) [OF assms(2,3,4)] by blast+
  then have q0: "same_on p 32 (set_state p PROC_READY (mem s)) m0" "same_on q 32 (mem s) (set_state p PROC_READY (mem s))" "same_on q 32 m1 (mem t)"
    unfolding m m0_def same_on_def by (simp_all add: pcb_store_block)
  have p: "proc_next (mem t) p = proc_next (mem s) p"
    using al same_on_pcb [OF p1(1)] same_on_pcb [OF q0(1)] by (simp add: m)
  have q: "proc_next (mem t) q = proc_next (mem s) q \<and> proc_rsp (mem t) q = proc_rsp (mem s) q"
    using al same_on_pcb [OF p1(2)] same_on_pcb [OF q0(2)] same_on_pcb [OF q0(3)] by (simp add: m0_def)
  have o: "proc_next (mem t) r = proc_next (mem s) r \<and> proc_rsp (mem t) r = proc_rsp (mem s) r" if r: "r \<in> set ps" "r \<noteq> p" "r \<noteq> q"
  proof -
    have "same_on r 32 (mem s) (mem t)"
      unfolding same_on_def using out apart(1) [OF r(1) assms(2)] apart(3) [OF r(1) assms(2) r(2)] apart(3) [OF r(1) assms(3) r(3)] by blast
    from same_on_pcb [OF this] show ?thesis by simp
  qed
  show "r \<in> set ps \<Longrightarrow> proc_next (mem t) r = proc_next (mem s) r" using p q o by metis
  show "r \<in> set ps \<Longrightarrow> r \<noteq> p \<Longrightarrow> proc_rsp (mem t) r = proc_rsp (mem s) r" using q o by metis
  have sp: "same_on (stk p) 16384 m1 (mem t)"
    unfolding m same_on_def using apart(2) [OF assms(2) assms(2)] by (simp add: pcb_store_block)
  obtain e where e: "d = e + 7" using assms(7) by (metis le_add_diff_inverse2)
  have rw: "load64 (store64 m' (slot (stk p) i) v) (slot (stk p) j) = (if i = j then v else load64 m' (slot (stk p) j))"
    if "i \<le> e + 6" "j \<le> e + 6" for m' i j v
    by (rule stackmem.rd_wr) (use that al(3) assms(8) e in \<open>simp_all add: slots_def\<close>)
  have "load64 (mem t) (slot (stk p) (e + k)) = load64 m1 (slot (stk p) (e + k))" if "k < 7" for k
    by (rule same_on_slot [OF sp]) (use that assms(8) e in simp)
  then have "map (\<lambda>k. load64 (mem t) (slot (stk p) (e + k))) [0..<7] = map (\<lambda>k. load64 m1 (slot (stk p) (e + k))) [0..<7]" by simp
  moreover have "map (\<lambda>k. load64 m1 (slot (stk p) (e + k))) [0..<7] = regs_ret ret s"
    by (simp add: e m1_def regs_ret_def upt_rec [of _ 7] rw eval_nat_numeral)
  ultimately show "context_of (mem t) p = regs_ret ret s"
    using context_slots [OF rsp] by (simp add: e)
qed

section \<open>The run queue\<close>

definition suspended :: "memory \<Rightarrow> (u64 \<Rightarrow> u64) \<Rightarrow> u64 \<Rightarrow> bool" where
  "suspended m stk p \<longleftrightarrow> (\<exists>d. proc_rsp m p = slot (stk p) d \<and> d + 7 \<le> 2048)"

text \<open>The tasks \<open>ps\<close> in queue order with their stacks: the links form the circle, every task that does
  not run has a frame on its stack, and the one that runs is on its own stack.\<close>

definition sched_inv :: "'a sched_state_scheme \<Rightarrow> u64 list \<Rightarrow> (u64 \<Rightarrow> u64) \<Rightarrow> bool" where
  "sched_inv s ps stk \<longleftrightarrow> regions ps stk \<and> distinct ps \<and>
     (\<forall>i < length ps. proc_next (mem s) (ps ! i) = ps ! (Suc i mod length ps)) \<and>
     (if ps = [] then run_queue_head s = 0 else run_queue_head s = hd ps \<and> run_queue_tail s = last ps) \<and>
     (current s = 0 \<or> current s \<in> set ps) \<and>
     (\<forall>p \<in> set ps. p \<noteq> current s \<longrightarrow> suspended (mem s) stk p) \<and>
     (current s \<noteq> 0 \<longrightarrow> (\<exists>d \<le> 2048. r_rsp s = slot (stk (current s)) d))"

text \<open>The running task has room for one more call on its stack.\<close>

definition stack_room :: "'a sched_state_scheme \<Rightarrow> (u64 \<Rightarrow> u64) \<Rightarrow> bool" where
  "stack_room s stk \<longleftrightarrow> (\<exists>d. 7 \<le> d \<and> d \<le> 2048 \<and> r_rsp s = slot (stk (current s)) d)"

lemma schedule_step:
  fixes s :: "'a sched_state_scheme" and ret :: u64
  assumes inv: "sched_inv s ps stk" and i: "i < length ps" "current s = ps ! i" and n: "2 \<le> length ps" and room: "stack_room s stk"
  defines "q \<equiv> ps ! (Suc i mod length ps)" and "t \<equiv> schedule ret s"
  shows "sched_inv t ps stk" "current t = q" "registers t = context_of (mem s) q"
    "r_rsp t = proc_rsp (mem s) q + 56" "context_of (mem t) (current s) = regs_ret ret s" "proc_rsp (mem t) (current s) = r_rsp s - 56"
    "p \<in> set ps \<Longrightarrow> p \<noteq> current s \<Longrightarrow> context_of (mem t) p = context_of (mem s) p \<and> proc_rsp (mem t) p = proc_rsp (mem s) p"
proof -
  let ?p = "current s"
  have reg: "regions ps stk" and dist: "distinct ps" and ring: "\<And>i. i < length ps \<Longrightarrow> proc_next (mem s) (ps ! i) = ps ! (Suc i mod length ps)"
    and susp: "\<And>p. p \<in> set ps \<Longrightarrow> p \<noteq> ?p \<Longrightarrow> suspended (mem s) stk p"
    using inv by (auto simp: sched_inv_def)
  have ne: "ps \<noteq> []" using i(1) by auto
  then have ends: "ps \<noteq> []" "run_queue_head s = hd ps" "run_queue_tail s = last ps" using inv by (auto simp: sched_inv_def)
  have p: "?p \<in> set ps" "?p \<noteq> 0" using i reg by (auto simp: regions_def)
  have j: "Suc i mod length ps < length ps" using ne by (intro mod_less_divisor) simp
  have q: "q \<in> set ps" "q \<noteq> 0" using nth_mem [OF j] reg by (auto simp: q_def regions_def)
  have "Suc i mod length ps \<noteq> i" using i(1) n by (cases "Suc i = length ps") auto
  then have pq: "?p \<noteq> q" using dist i j by (simp add: q_def nth_eq_iff_index_eq)
  have hd: "run_queue_head s \<noteq> 0" using ends reg by (auto simp: regions_def)
  have nx: "proc_next (mem s) ?p = q" using ring [OF i(1)] i(2) by (simp add: q_def)
  obtain d where d: "7 \<le> d" "d \<le> 2048" "r_rsp s = slot (stk ?p) d" using room by (auto simp: stack_room_def)
  define u where "u = save_context (push_word ret (s\<lparr>mem := set_state q PROC_RUNNING (set_state ?p PROC_READY (mem s))\<rparr>)\<lparr>r_if := False\<rparr>)"
  note m = switch_memory [OF reg p(1) q(1) pq refl d(3,1,2), where ret = ret, folded u_def]
  have t: "t = load_context q u"
    using hd p(2) q(2) pq nx by (simp add: t_def schedule_def switch_to_def u_def push_word_def Let_def)
  note l = load_context_regs [of q u]
  have f: "run_queue_head u = run_queue_head s" "run_queue_tail u = run_queue_tail s"
    by (simp_all add: u_def save_context_def push_word_def Let_def)
  show cur: "current t = q" unfolding t by (rule l)
  have ctx: "context_of (mem u) p = context_of (mem s) p" if r: "p \<in> set ps" "p \<noteq> ?p" for p
  proof -
    obtain e where e: "proc_rsp (mem s) p = slot (stk p) e" "e + 7 \<le> 2048" using susp [OF r] by (auto simp: suspended_def)
    show ?thesis by (rule same_on_context [OF m(5) [OF r] m(4) [OF r] e])
  qed
  then show "p \<in> set ps \<Longrightarrow> p \<noteq> ?p \<Longrightarrow> context_of (mem t) p = context_of (mem s) p \<and> proc_rsp (mem t) p = proc_rsp (mem s) p"
    using m(4) l(3) by (simp add: t)
  show "registers t = context_of (mem s) q" "r_rsp t = proc_rsp (mem s) q + 56" using l(1,2) ctx [OF q(1)] m(4) [OF q(1)] pq by (simp_all add: t)
  have d7: "slot (stk ?p) (d - 7) = r_rsp s - 56"
  proof -
    obtain e where "d = e + 7" using d(1) by (metis le_add_diff_inverse2)
    then show ?thesis by (simp add: d(3) slot_def)
  qed
  show "context_of (mem t) ?p = regs_ret ret s" "proc_rsp (mem t) ?p = r_rsp s - 56" using m(1,2) l(3) d7 by (simp_all add: t)
  show "sched_inv t ps stk" unfolding sched_inv_def cur
  proof (intro conjI)
    show "\<forall>i < length ps. proc_next (mem t) (ps ! i) = ps ! (Suc i mod length ps)" using m(3) ring l(3) by (simp add: t)
    show "if ps = [] then run_queue_head t = 0 else run_queue_head t = hd ps \<and> run_queue_tail t = last ps" using ends l(5,6) f by (simp add: t)
    show "\<forall>p \<in> set ps. p \<noteq> q \<longrightarrow> suspended (mem t) stk p"
    proof (intro ballI impI)
      fix p assume r: "p \<in> set ps" "p \<noteq> q"
      show "suspended (mem t) stk p"
      proof (cases "p = ?p")
        case True
        have "d - 7 + 7 \<le> 2048" using d by simp
        with m(2) True l(3) show ?thesis unfolding suspended_def by (auto simp: t)
      next
        case False
        with susp r m(4) [OF r(1)] l(3) show ?thesis by (simp add: suspended_def t)
      qed
    qed
    obtain e where e: "proc_rsp (mem s) q = slot (stk q) e" "e + 7 \<le> 2048" using susp [OF q(1)] pq by (auto simp: suspended_def)
    have "r_rsp t = slot (stk q) (e + 7)" using l(2) m(4) [OF q(1)] pq e(1) by (simp add: t slot_def)
    with e(2) show "q \<noteq> 0 \<longrightarrow> (\<exists>d \<le> 2048. r_rsp t = slot (stk q) d)" by blast
  qed (use reg dist q in simp_all)
qed

end
