(* ===== verification/Sched_Run.thy ===== *)
theory Sched_Run
  imports Sched_Correct
begin

text \<open>
  The scheduler at work: runs of the system in which tasks yield and work in turn, their
  round-robin order, what a task keeps across the turns of the others, what \<open>create_process\<close>
  takes from the heap and sets up, and the first dispatch by \<open>scheduler_start\<close>.
\<close>

section \<open>Round robin\<close>

text \<open>A run of the system: between two yields the running task does anything it likes that keeps the
  invariant and leaves the frames of the other tasks alone. The number counts the yields.\<close>

inductive sched_run :: "u64 \<Rightarrow> u64 list \<Rightarrow> (u64 \<Rightarrow> u64) \<Rightarrow> nat \<Rightarrow> 'a sched_state_scheme \<Rightarrow> 'a sched_state_scheme \<Rightarrow> bool"
  for ret :: u64 and ps :: "u64 list" and stk :: "u64 \<Rightarrow> u64" where
  start: "sched_run ret ps stk 0 s s"
| work: "sched_run ret ps stk k s t \<Longrightarrow> sched_inv u ps stk \<Longrightarrow> current u = current t \<Longrightarrow>
    \<forall>p \<in> set ps. p \<noteq> current t \<longrightarrow> context_of (mem u) p = context_of (mem t) p \<and> proc_rsp (mem u) p = proc_rsp (mem t) p \<Longrightarrow>
    sched_run ret ps stk k s u"
| yield: "sched_run ret ps stk k s t \<Longrightarrow> stack_room t stk \<Longrightarrow> sched_run ret ps stk (Suc k) s (schedule ret t)"

text \<open>A task alone in the queue keeps running.\<close>
lemma schedule_single:
  assumes "sched_inv s ps stk" and "length ps = 1" and "current s = ps ! 0"
  shows "schedule ret s = s"
proof -
  obtain p where p: "ps = [p]" using assms(2) by (auto simp: length_Suc_conv)
  then have "proc_next (mem s) p = p" "current s = p" "p \<noteq> 0" using assms by (auto simp: sched_inv_def regions_def)
  then show ?thesis by (simp add: schedule_def)
qed

lemma run_order:
  assumes "sched_run ret ps stk k s t" and "sched_inv s ps stk" and "i < length ps" and "current s = ps ! i"
  shows "sched_inv t ps stk \<and> current t = ps ! ((i + k) mod length ps)"
  using assms
proof (induction rule: sched_run.induct)
  case (yield k s t)
  then have IH: "sched_inv t ps stk" "current t = ps ! ((i + k) mod length ps)" by simp_all
  have l: "(i + k) mod length ps < length ps" using yield.prems(2) by (intro mod_less_divisor) linarith
  have "Suc ((i + k) mod length ps) mod length ps = (i + Suc k) mod length ps" by (simp add: mod_Suc_eq)
  moreover have "sched_inv (schedule ret t) ps stk \<and> current (schedule ret t) = ps ! (Suc ((i + k) mod length ps) mod length ps)"
  proof (cases "2 \<le> length ps")
    case True
    from schedule_step(1,2) [OF IH(1) l IH(2) True yield.hyps(2), of ret] show ?thesis by simp
  next
    case False
    then have one: "length ps = 1" using l by linarith
    with schedule_single [OF IH(1)] IH show ?thesis by simp
  qed
  ultimately show ?case by simp
qed simp_all

lemma run_keeps_context:
  assumes "sched_run ret ps stk k s t" and "sched_inv s ps stk" and "i < length ps" and "current s = ps ! i" and "2 \<le> length ps"
    and "j < length ps" and "\<forall>l \<le> k. (i + l) mod length ps \<noteq> j"
  shows "context_of (mem t) (ps ! j) = context_of (mem s) (ps ! j) \<and> proc_rsp (mem t) (ps ! j) = proc_rsp (mem s) (ps ! j)"
  using assms
proof (induction rule: sched_run.induct)
  case (start s)
  then show ?case by simp
next
  case (work k s t u)
  have o: "current t = ps ! ((i + k) mod length ps)" using run_order [OF work.hyps(1) work.prems(1-3)] by simp
  have "(i + k) mod length ps < length ps" using work.prems(2) by (intro mod_less_divisor) linarith
  moreover have "distinct ps" using work.prems(1) by (simp add: sched_inv_def)
  ultimately have "ps ! j \<noteq> current t" using o work.prems(5,6) by (auto simp: nth_eq_iff_index_eq)
  with work show ?case by simp
next
  case (yield k s t)
  have o: "sched_inv t ps stk" "current t = ps ! ((i + k) mod length ps)" using run_order [OF yield.hyps(1) yield.prems(1-3)] by simp_all
  have l: "(i + k) mod length ps < length ps" using yield.prems(2) by (intro mod_less_divisor) linarith
  have "distinct ps" using yield.prems(1) by (simp add: sched_inv_def)
  moreover have "(i + k) mod length ps \<noteq> j" using yield.prems(6) le_SucI [OF le_refl, of k] by blast
  ultimately have ne: "ps ! j \<noteq> current t" using o(2) l yield.prems(5) by (simp add: nth_eq_iff_index_eq)
  have IH: "context_of (mem t) (ps ! j) = context_of (mem s) (ps ! j) \<and> proc_rsp (mem t) (ps ! j) = proc_rsp (mem s) (ps ! j)"
    using yield.IH yield.prems by simp
  from schedule_step(7) [OF o(1) l o(2) yield.prems(4) yield.hyps(2) nth_mem [OF yield.prems(5)] ne, of ret] IH show ?case by simp
qed

section \<open>Creating a process\<close>

definition task_memory :: "(u64 \<times> nat) set \<Rightarrow> u64 list \<Rightarrow> (u64 \<Rightarrow> u64) \<Rightarrow> bool" where
  "task_memory B ps stk \<longleftrightarrow>
     (\<forall>q \<in> set ps. (\<exists>n \<ge> 32. (q, n) \<in> B) \<and> (\<exists>n \<ge> 16384. (stk q, n) \<in> B)) \<and>
     inj_on stk (set ps) \<and> stk ` set ps \<inter> set ps = {}"

lemma in_block_mono: "in_block p n a \<Longrightarrow> n \<le> k \<Longrightarrow> in_block p k a"
  by (simp add: in_block_def)

lemma owned_regions:
  assumes own: "heap_owns s B" and tm: "task_memory B ps stk"
  shows "regions ps stk"
  unfolding regions_def
proof (intro conjI ballI allI impI)
  fix p assume p: "p \<in> set ps"
  then obtain n m where b: "(p, n) \<in> B" "(stk p, m) \<in> B" using tm by (auto simp: task_memory_def)
  show "p \<noteq> 0" using kheap.extent [OF own b(1)] by simp
  have "16 dvd unat p" "16 dvd unat (stk p)" by (rule heap_owns_aligned [OF own]; rule b)+
  moreover have "(8 :: nat) dvd 16" by simp
  ultimately show "aligned8 p" "aligned8 (stk p)" unfolding aligned8_def by (blast intro: dvd_trans)+
next
  fix p q a assume pq: "p \<in> set ps" "q \<in> set ps"
  obtain n where n: "32 \<le> n" "(p, n) \<in> B" using tm pq(1) by (auto simp: task_memory_def)
  obtain m where m: "16384 \<le> m" "(stk p, m) \<in> B" using tm pq(1) by (auto simp: task_memory_def)
  obtain k where k: "32 \<le> k" "(q, k) \<in> B" using tm pq(2) by (auto simp: task_memory_def)
  obtain l where l: "16384 \<le> l" "(stk q, l) \<in> B" using tm pq(2) by (auto simp: task_memory_def)
  have ne: "p \<noteq> stk q" "p \<noteq> q \<Longrightarrow> stk p \<noteq> stk q" using tm pq by (auto simp: task_memory_def inj_on_def)
  show "\<not> in_block q 32 a" if "p \<noteq> q" "in_block p 32 a"
    using kheap.apart [OF own n(2) k(2)] that n(1) k(1) in_block_mono by blast
  show "\<not> in_block (stk q) 16384 a" if "p \<noteq> q" "in_block (stk p) 16384 a"
    using kheap.apart [OF own m(2) l(2)] that ne(2) m(1) l(1) in_block_mono by blast
  show "\<not> in_block (stk q) 16384 a" if "in_block p 32 a"
    using kheap.apart [OF own n(2) l(2)] that ne(1) n(1) l(1) in_block_mono by blast
qed

lemma sched_more:
  assumes "heap_state.more t = heap_state.more (s :: 'a sched_state_scheme)"
  shows "current t = current s" "run_queue_head t = run_queue_head s" "run_queue_tail t = run_queue_tail s" "next_pid t = next_pid s" "r_rsp t = r_rsp s"
  using assms by (cases s; cases t; simp)+

lemma create_alloc:
  fixes s :: "'a sched_state_scheme"
  assumes own: "heap_owns s B" and b2: "heap_budget (Suc (Suc c)) s"
  obtains p n s1 stack k s3 where "kmalloc SIZEOF_PROCESS s = Done (p, s1)" "p \<noteq> 0" "stack \<noteq> 0"
    "kmalloc STACK_SIZE (s1\<lparr>mem := memset (mem s1) p 0 SIZEOF_PROCESS\<rparr>) = Done (stack, s3)"
    "heap_owns s3 (insert (stack, k) (insert (p, n) B))" "32 \<le> n" "16384 \<le> k" "\<forall>j. (p, j) \<notin> B" "\<forall>j. (stack, j) \<notin> insert (p, n) B"
    "\<forall>q j a. (q, j) \<in> B \<longrightarrow> in_block q j a \<longrightarrow> mem s3 a = mem s a" "heap_state.more s3 = heap_state.more s"
    "heap_budget c s3"
proof -
  have sz: "unat SIZEOF_PROCESS = 32" "unat STACK_SIZE = 16384" "SIZEOF_PROCESS \<noteq> 0" "STACK_SIZE \<noteq> 0"
    by (simp_all add: SIZEOF_PROCESS_def STACK_SIZE_def)
  have "heap_room SIZEOF_PROCESS s" by (rule budget_room [OF b2]) (simp add: sz)
  from kheap.alloc_ok [OF own sz(3) this] obtain p n s1 where 1: "kmalloc SIZEOF_PROCESS s = Done (p, s1)"
    "heap_owns s1 (insert (p, n) B)" "\<forall>k. (p, k) \<notin> B" "unat SIZEOF_PROCESS \<le> n"
    "\<forall>q k a. (q, k) \<in> B \<longrightarrow> in_block q k a \<longrightarrow> mem s1 a = mem s a" by blast
  define s2 where "s2 = s1\<lparr>mem := memset (mem s1) p 0 SIZEOF_PROCESS\<rparr>"
  have out: "memset (mem s1) p 0 SIZEOF_PROCESS a = mem s1 a" if "\<not> in_block p n a" for a
    using that 1(4) by (simp add: memset_apply in_block_def word_less_nat_alt)
  have own2: "heap_owns s2 (insert (p, n) B)" unfolding s2_def by (rule kheap.write_ok [OF 1(2) _ out]) simp_all
  from own obtain bs where ok: "heap_ok s bs" by (auto simp: heap_owns_def)
  have "heap_budget (Suc c) s1" by (rule kmalloc_budget [OF ok b2 _ 1(1)]) (simp add: sz)
  then have b1: "heap_budget (Suc c) s2" by (simp add: heap_budget_def s2_def)
  then have "heap_room STACK_SIZE s2" by (rule budget_room) (simp add: sz)
  from kheap.alloc_ok [OF own2 sz(4) this] obtain stack k s3 where 3: "kmalloc STACK_SIZE s2 = Done (stack, s3)"
    "heap_owns s3 (insert (stack, k) (insert (p, n) B))" "\<forall>j. (stack, j) \<notin> insert (p, n) B" "unat STACK_SIZE \<le> k"
    "\<forall>q j a. (q, j) \<in> insert (p, n) B \<longrightarrow> in_block q j a \<longrightarrow> mem s3 a = mem s2 a" by blast
  from own2 obtain bs2 where ok2: "heap_ok s2 bs2" by (auto simp: heap_owns_def)
  have b0: "heap_budget c s3" by (rule kmalloc_budget [OF ok2 b1 _ 3(1)]) (simp add: sz)
  have keep: "mem s3 a = mem s a" if "(q, j) \<in> B" "in_block q j a" for q j a
  proof -
    have "(q, j) \<noteq> (p, n)" using that(1) 1(3) by auto
    then have "\<not> in_block p n a" using kheap.apart [OF 1(2), of q j p n a] that by auto
    then show ?thesis using that 1(5) 3(5) out by (auto simp: s2_def)
  qed
  have "heap_state.more s3 = heap_state.more s" using kmalloc_more [OF 1(1)] kmalloc_more [OF 3(1)] by (simp add: s2_def)
  moreover have "p \<noteq> 0" "stack \<noteq> 0" using kheap.extent [OF 3(2), of p n] kheap.extent [OF 3(2), of stack k] by auto
  ultimately show thesis
    using 1(1,3,4) 3(1-4) keep b0 by (intro that [of p s1 stack s3 k n]) (simp_all add: s2_def sz)
qed

lemma stack_top:
  assumes "16 dvd unat st" and "unat st + 16384 < 2 ^ 64"
  shows "((st + STACK_SIZE) AND NOT (STACK_ALIGN - 1)) - 8 = slot st 2047"
proof -
  have "unat (st + 16384) = unat st + 16384" using unat_add_small [of st 16384] assms(2) by simp
  then have "16 dvd unat (st + 16384)" using assms(1) by simp
  then have "unat (st + 16384) div 16 * 16 = unat (st + 16384)" by simp
  then have "unat ((st + 16384) AND NOT (mask 4)) = unat (st + 16384)" using unat_and_not_mask [of "st + 16384" 4] by simp
  then have "(st + 16384) AND NOT 15 = st + 16384" by (simp add: word_unat_eq_iff mask_eq_exp_minus_1)
  then show ?thesis by (simp add: STACK_SIZE_def STACK_ALIGN_def slot_def)
qed

lemma initial_stack_frame:
  assumes "16 dvd unat st" and "unat st + 16384 < 2 ^ 64"
  obtains m' where "initial_stack st entry ret m = (slot st 2040, m')"
    "map (\<lambda>k. load64 m' (slot st (2040 + k))) [0..<8] = [0, 0, 0, 0, 0, 0, entry, ret]"
    "\<forall>a. \<not> in_block st 16384 a \<longrightarrow> m' a = m a"
proof -
  define m' where "m' = store64 (store64 (store64 (store64 (store64 (store64 (store64 (store64 m (slot st 2047) ret) (slot st 2046) entry)
    (slot st 2045) 0) (slot st 2044) 0) (slot st 2043) 0) (slot st 2042) 0) (slot st 2041) 0) (slot st 2040) 0"
  have al: "aligned8 st" unfolding aligned8_def by (rule dvd_trans [OF _ assms(1)]) simp
  have sub: "slot st 2047 - 8 = slot st 2046" "slot st 2046 - 8 = slot st 2045" "slot st 2045 - 8 = slot st 2044" "slot st 2044 - 8 = slot st 2043"
    "slot st 2043 - 8 = slot st 2042" "slot st 2042 - 8 = slot st 2041" "slot st 2041 - 8 = slot st 2040"
    by (simp_all add: slot_def)
  have rw: "load64 (store64 M (slot st i) v) (slot st j) = (if i = j then v else load64 M (slot st j))" if "i \<le> 2047" "j \<le> 2047" for M i j v
    by (rule stackmem.rd_wr) (use that al in \<open>simp_all add: slots_def\<close>)
  have "initial_stack st entry ret m = (slot st 2040, m')"
    unfolding initial_stack_def Let_def stack_top [OF assms] by (simp add: sub m'_def)
  moreover have "map (\<lambda>k. load64 m' (slot st (2040 + k))) [0..<8] = [0, 0, 0, 0, 0, 0, entry, ret]"
    by (simp add: m'_def upt_rec [of _ 8] rw)
  moreover have "\<forall>a. \<not> in_block st 16384 a \<longrightarrow> m' a = m a" by (simp add: m'_def slot_store_block)
  ultimately show thesis by (rule that)
qed

lemma load32_cong:
  assumes "\<And>i. i < 4 \<Longrightarrow> m (a + i) = m' (a + i)"
  shows "load32 m a = load32 m' a"
  using assms [of 0] assms [of 1] assms [of 2] assms [of 3] by (simp add: load32_def)

lemma load32_store32: "load32 (store32 m a v) a = v"
proof (rule bit_word_eqI)
  fix n assume "n < LENGTH(32)"
  then have "n < 8 \<or> (8 \<le> n \<and> n < 16) \<or> (16 \<le> n \<and> n < 24) \<or> (24 \<le> n \<and> n < 32)" by simp linarith
  then show "bit (load32 (store32 m a v) a) n = bit v n"
    by (elim disjE conjE) (simp_all add: load32_def store32_def bit_simps less_diff_conv2)
qed

lemma pid_stable:
  assumes "d = 8 \<or> d = 16 \<or> d = 24"
  shows "proc_pid (store64 m (p + of_nat d) v) p = proc_pid m p" "proc_pid (store32 m (p + of_nat d) w) p = proc_pid m p"
proof -
  have far: "\<not> p + i - (p + of_nat d) < 8" if "i < 4" for i
  proof -
    define e where "e = p + i - (p + of_nat d)"
    have "e + of_nat d = i" by (simp add: e_def)
    have "\<not> e < 8"
    proof
      assume "e < 8"
      then have "unat (e + of_nat d) = unat e + d" using assms by (intro unat_add_small) (auto simp: word_less_nat_alt)
      with \<open>e + of_nat d = i\<close> that assms show False by (auto simp: word_less_nat_alt)
    qed
    then show ?thesis by (simp add: e_def)
  qed
  then have far4: "\<not> p + i - (p + of_nat d) < 4" if "i < 4" for i using far [OF that] by (simp add: word_less_nat_alt)
  show "proc_pid (store64 m (p + of_nat d) v) p = proc_pid m p" "proc_pid (store32 m (p + of_nat d) w) p = proc_pid m p"
    unfolding proc_pid_def by (rule load32_cong; use far far4 in \<open>simp add: store64_def store32_def\<close>)+
qed

text \<open>The control block and the stack of a new process, before it is linked into the queue.\<close>
lemma create_frame:
  fixes s3 :: "'a sched_state_scheme" and pid :: u32
  assumes own: "heap_owns s3 (insert (stack, k) (insert (p, n) B))" and n: "32 \<le> n" "16384 \<le> k"
    and fresh: "\<forall>j. (p, j) \<notin> B" "\<forall>j. (stack, j) \<notin> insert (p, n) B"
  defines "m1 \<equiv> set_state p PROC_READY (set_pid p pid (memset (mem s3) stack 0 STACK_SIZE))"
  obtains m where "set_rsp p (fst (initial_stack stack entry ret m1)) (snd (initial_stack stack entry ret m1)) = m"
    "proc_rsp m p = slot stack 2040" "context_of m p = [0, 0, 0, 0, 0, 0, entry]" "load64 m (slot stack 2047) = ret" "proc_pid m p = pid"
    "\<forall>q j a. (q, j) \<in> B \<longrightarrow> in_block q j a \<longrightarrow> m a = mem s3 a" "heap_owns (s3\<lparr>mem := m\<rparr>) (insert (stack, k) (insert (p, n) B))"
proof -
  let ?B = "insert (stack, k) (insert (p, n) B)"
  have in2: "(p, n) \<in> ?B" "(stack, k) \<in> ?B" "(p, n) \<noteq> (stack, k)" using fresh(2) by auto
  have al: "16 dvd unat stack" "16 dvd unat p" "unat stack + 16384 < 2 ^ 64"
    using heap_owns_aligned [OF own] kheap.extent [OF own in2(2)] n(2) by auto
  have al8: "aligned8 p" unfolding aligned8_def by (rule dvd_trans [OF _ al(2)]) simp
  obtain m2 where m2: "initial_stack stack entry ret m1 = (slot stack 2040, m2)"
    "map (\<lambda>k. load64 m2 (slot stack (2040 + k))) [0..<8] = [0, 0, 0, 0, 0, 0, entry, ret]"
    "\<forall>a. \<not> in_block stack 16384 a \<longrightarrow> m2 a = m1 a"
    by (rule initial_stack_frame [OF al(1,3), of entry ret m1])
  define m where "m = set_rsp p (slot stack 2040) m2"
  have apart: "\<not> in_block stack 16384 a" if "in_block p 32 a" for a
    using kheap.apart [OF own in2] that n in_block_mono by blast
  have pcb: "same_on p 32 m1 m2" unfolding same_on_def using m2(3) apart by blast
  have stk: "same_on stack 16384 m2 m" unfolding same_on_def m_def using apart by (auto intro!: pcb_store_block)
  have l: "load64 m (slot stack (2040 + j)) = [0, 0, 0, 0, 0, 0, entry, ret] ! j" if "j < 8" for j
  proof -
    have "load64 m (slot stack (2040 + j)) = load64 m2 (slot stack (2040 + j))" by (rule same_on_slot [OF stk]) (use that in simp)
    also have "\<dots> = map (\<lambda>k. load64 m2 (slot stack (2040 + k))) [0..<8] ! j" using that by simp
    finally show ?thesis by (simp only: m2(2))
  qed
  have rsp: "proc_rsp m p = slot stack 2040" using al8 by (simp add: m_def)
  have "context_of m p = [0, 0, 0, 0, 0, 0, entry]"
    unfolding context_slots [OF rsp] using l [of 0] l [of 1] l [of 2] l [of 3] l [of 4] l [of 5] l [of 6] by (simp add: upt_rec [of _ 7])
  moreover have "load64 m (slot stack 2047) = ret" using l [of 7] by simp
  moreover have "proc_pid m p = pid"
  proof -
    have "proc_pid m p = proc_pid m2 p" using pid_stable(1) [of 8 m2 p] by (simp add: m_def set_rsp_def)
    also have "\<dots> = proc_pid m1 p"
      unfolding proc_pid_def
    proof (rule load32_cong)
      fix i :: u64 assume "i < 4"
      then have "in_block p 32 (p + i)" by (simp add: in_block_def word_less_nat_alt)
      then show "m2 (p + i) = m1 (p + i)" using pcb by (simp add: same_on_def)
    qed
    also have "\<dots> = pid"
      using pid_stable(2) [of 16 _ p] load32_store32 by (simp add: m1_def set_state_def set_pid_def proc_pid_def)
    finally show ?thesis .
  qed
  moreover have out: "m a = mem s3 a" if "\<not> in_block p 32 a" "\<not> in_block stack 16384 a" for a
    using that m2(3) by (simp add: m_def m1_def pcb_store_block memset_apply in_block_def word_less_nat_alt STACK_SIZE_def)
  have "m a = mem s3 a" if "(q, j) \<in> B" "in_block q j a" for q j a
  proof (rule out)
    have q: "(q, j) \<in> ?B" "(q, j) \<noteq> (p, n)" "(q, j) \<noteq> (stack, k)" using that(1) fresh by auto
    show "\<not> in_block p 32 a" using kheap.apart [OF own q(1) in2(1) q(2) that(2)] n(1) in_block_mono by blast
    show "\<not> in_block stack 16384 a" using kheap.apart [OF own q(1) in2(2) q(3) that(2)] n(2) in_block_mono by blast
  qed
  moreover have "heap_owns (s3\<lparr>mem := m\<rparr>) ?B"
    by (rule kheap.write_two [OF own in2(1,2)]) (use out n in_block_mono in blast)
  ultimately show thesis using rsp m2(1) by (intro that [of m]) (simp_all add: m_def)
qed

lemma enqueue_ring:
  assumes "regions (ps @ [p]) stk" and "distinct (ps @ [p])"
    and ring: "\<forall>i < length ps. proc_next (mem s) (ps ! i) = ps ! (Suc i mod length ps)"
    and ends: "if ps = [] then run_queue_head s = 0 else run_queue_head s = hd ps \<and> run_queue_tail s = last ps"
  shows "\<forall>i < length (ps @ [p]). proc_next (mem (enqueue p s)) ((ps @ [p]) ! i) = (ps @ [p]) ! (Suc i mod length (ps @ [p]))"
    and "run_queue_head (enqueue p s) = hd (ps @ [p])" "run_queue_tail (enqueue p s) = p"
    and "q \<in> set (ps @ [p]) \<Longrightarrow> proc_rsp (mem (enqueue p s)) q = proc_rsp (mem s) q"
    and "q \<in> set (ps @ [p]) \<Longrightarrow> same_on (stk q) 16384 (mem s) (mem (enqueue p s))"
    and "\<not> in_block p 32 a \<Longrightarrow> (ps \<noteq> [] \<Longrightarrow> \<not> in_block (last ps) 32 a) \<Longrightarrow> mem (enqueue p s) a = mem s a"
proof -
  have apart: "in_block (stk v) 16384 a \<Longrightarrow> \<not> in_block u 32 a" "u \<noteq> v \<Longrightarrow> in_block u 32 a \<Longrightarrow> \<not> in_block v 32 a"
    if "u \<in> set (ps @ [p])" "v \<in> set (ps @ [p])" for u v a
    using assms(1) that unfolding regions_def by blast+
  have al: "aligned8 u" if "u \<in> set (ps @ [p])" for u using assms(1) that unfolding regions_def by blast
  have hd0: "ps \<noteq> [] \<Longrightarrow> run_queue_head s \<noteq> 0" using ends assms(1) by (cases ps) (auto simp: regions_def)
  have nx: "proc_next (set_next u v m) q = (if u = q then v else proc_next m q) \<and> proc_rsp (set_next u v m) q = proc_rsp m q"
    if "u \<in> set (ps @ [p])" "q \<in> set (ps @ [p])" for u v q m
  proof (cases "u = q")
    case False
    then have "same_on q 32 m (set_next u v m)" unfolding same_on_def using apart(2) [OF that(2,1)] by (auto intro!: pcb_store_block)
    from same_on_pcb [OF this] False show ?thesis by simp
  qed (use al [OF that(1)] in simp)
  have m: "mem (enqueue p s) = (if ps = [] then set_next p p (mem s) else set_next (last ps) p (set_next p (hd ps) (mem s)))"
    using ends hd0 by (auto simp: enqueue_def)
  show out: "mem (enqueue p s) a = mem s a" if "\<not> in_block p 32 a" "ps \<noteq> [] \<Longrightarrow> \<not> in_block (last ps) 32 a" for a
    using that by (simp add: m pcb_store_block)
  show "run_queue_head (enqueue p s) = hd (ps @ [p])" "run_queue_tail (enqueue p s) = p" using ends hd0 by (cases "ps = []"; simp add: enqueue_def)+
  show "proc_rsp (mem (enqueue p s)) q = proc_rsp (mem s) q" if "q \<in> set (ps @ [p])"
    using nx [OF _ that, of p] nx [OF _ that, of "last ps"] by (cases "ps = []") (simp_all add: m)
  show "same_on (stk q) 16384 (mem s) (mem (enqueue p s))" if "q \<in> set (ps @ [p])"
    unfolding same_on_def using apart(1) [OF _ that] by (auto intro!: out)
  show "\<forall>i < length (ps @ [p]). proc_next (mem (enqueue p s)) ((ps @ [p]) ! i) = (ps @ [p]) ! (Suc i mod length (ps @ [p]))"
  proof (intro allI impI)
    fix i assume i: "i < length (ps @ [p])"
    consider "i = length ps" | "Suc i = length ps" | "Suc i < length ps" using i by fastforce
    then show "proc_next (mem (enqueue p s)) ((ps @ [p]) ! i) = (ps @ [p]) ! (Suc i mod length (ps @ [p]))"
    proof cases
      case 1
      have "proc_next (mem (enqueue p s)) p = (if ps = [] then p else hd ps)"
        using nx assms(2) by (auto simp: m)
      then show ?thesis using 1 by (cases ps) (simp_all add: nth_append)
    next
      case 2
      then have "ps \<noteq> []" by auto
      moreover have "ps ! i = last ps" unfolding last_conv_nth [OF calculation] using 2 by (metis diff_Suc_1)
      ultimately show ?thesis using 2 nx [of "last ps" "last ps"] by (simp add: m nth_append)
    next
      case 3
      then have "ps \<noteq> []" "ps ! i \<noteq> p" using assms(2) nth_mem [of i ps] by auto
      moreover have "ps ! i \<noteq> last ps"
        unfolding last_conv_nth [OF calculation(1)] using 3 assms(2) by (simp add: nth_eq_iff_index_eq)
      moreover have "ps ! i \<in> set ps" using 3 by simp
      ultimately show ?thesis using 3 nx [of p "ps ! i"] nx [of "last ps" "ps ! i"] ring by (auto simp: m nth_append)
    qed
  qed
qed

lemma task_memory_extend:
  assumes own: "heap_owns s (insert (st, k) (insert (p, n) B))" and tm: "task_memory B ps stk" and n: "32 \<le> n" "16384 \<le> k"
    and fresh: "\<forall>j. (p, j) \<notin> B" "\<forall>j. (st, j) \<notin> insert (p, n) B"
  shows "task_memory (insert (st, k) (insert (p, n) B)) (ps @ [p]) (stk(p := st))" "p \<notin> set ps"
proof -
  have old: "q \<noteq> p \<and> q \<noteq> st \<and> stk q \<noteq> p \<and> stk q \<noteq> st" if "q \<in> set ps" for q
    using that tm fresh unfolding task_memory_def by blast
  have new: "p \<noteq> st" using fresh(2) by auto
  show "p \<notin> set ps" using old by blast
  have "inj_on (stk(p := st)) (set (ps @ [p]))" using tm old by (auto simp: task_memory_def inj_on_def)
  moreover have "(stk(p := st)) ` set (ps @ [p]) \<inter> set (ps @ [p]) = {}"
    using tm old new by (auto simp: task_memory_def)
  moreover have "(\<exists>j \<ge> 32. (q, j) \<in> insert (st, k) (insert (p, n) B)) \<and> (\<exists>j \<ge> 16384. ((stk(p := st)) q, j) \<in> insert (st, k) (insert (p, n) B))"
    if "q \<in> set (ps @ [p])" for q
  proof (cases "q = p")
    case False
    then have "q \<in> set ps" using that by simp
    with tm False show ?thesis by (auto simp: task_memory_def)
  qed (use n in auto)
  ultimately show "task_memory (insert (st, k) (insert (p, n) B)) (ps @ [p]) (stk(p := st))" unfolding task_memory_def by (intro conjI ballI) simp_all
qed

lemma enqueue_owns:
  assumes own: "heap_owns u B" and tm: "task_memory B (ps @ [p]) stk" and tail: "ps \<noteq> [] \<Longrightarrow> run_queue_head u \<noteq> 0 \<and> run_queue_tail u = last ps"
    and empty: "ps = [] \<Longrightarrow> run_queue_head u = 0"
  shows "heap_owns (enqueue p u) B"
proof -
  have b: "\<exists>n \<ge> 32. (q, n) \<in> B" if "q \<in> set (ps @ [p])" for q using tm that by (auto simp: task_memory_def)
  obtain n where n: "32 \<le> n" "(p, n) \<in> B" using b [of p] by auto
  define q where "q = (if ps = [] then p else last ps)"
  then have "q \<in> set (ps @ [p])" by simp
  then obtain k where k: "32 \<le> k" "(q, k) \<in> B" using b by blast
  have "heap_owns (u\<lparr>mem := mem (enqueue p u)\<rparr>) B"
  proof (rule kheap.write_two [OF own n(2) k(2)])
    fix a assume "\<not> in_block p n a" "\<not> in_block q k a"
    then have "\<not> in_block p 32 a" "\<not> in_block q 32 a" using n(1) k(1) in_block_mono by blast+
    then show "mem (enqueue p u) a = mem u a"
      using tail empty by (cases "ps = []") (simp_all add: enqueue_def q_def pcb_store_block)
  qed
  moreover have "heap_state.truncate (enqueue p u) = heap_state.truncate (u\<lparr>mem := mem (enqueue p u)\<rparr>)"
    by (simp add: enqueue_def heap_state.defs)
  ultimately show ?thesis using heap_owns_above by blast
qed

lemma set_next_pid:
  assumes "regions ps stk" and "p \<in> set ps" and "q \<in> set ps"
  shows "proc_pid (set_next q v m) p = proc_pid m p"
proof (cases "q = p")
  case True
  then show ?thesis using pid_stable(1) [of 24 m p v] by (simp add: set_next_def)
next
  case False
  show ?thesis unfolding proc_pid_def
  proof (rule load32_cong)
    fix i :: u64 assume "i < 4"
    then have "in_block p 32 (p + i)" by (simp add: in_block_def word_less_nat_alt)
    then have "\<not> in_block q 32 (p + i)" using assms False unfolding regions_def by blast
    then show "set_next q v m (p + i) = m (p + i)" by (rule pcb_store_block)
  qed
qed

lemma create_linked:
  fixes s :: "'a sched_state_scheme"
  assumes own: "heap_owns u B" and tm: "task_memory B (ps @ [p]) (stk(p := st))" and new: "p \<notin> set ps" and inv: "sched_inv s ps stk"
    and same: "\<And>q. q \<in> set ps \<Longrightarrow> same_on q 32 (mem s) (mem u)"
    and f: "current u = current s" "run_queue_head u = run_queue_head s" "run_queue_tail u = run_queue_tail s" "r_rsp u = r_rsp s"
    and rsp: "proc_rsp (mem u) p = slot st 2040"
  defines "t \<equiv> enqueue p u"
  shows "sched_inv t (ps @ [p]) (stk(p := st))" "heap_owns t B" "context_of (mem t) p = context_of (mem u) p"
    "proc_rsp (mem t) p = slot st 2040" "load64 (mem t) (slot st 2047) = load64 (mem u) (slot st 2047)" "proc_pid (mem t) p = proc_pid (mem u) p"
proof -
  let ?stk = "stk(p := st)"
  have reg: "regions (ps @ [p]) ?stk" by (rule owned_regions [OF own tm])
  have dist: "distinct (ps @ [p])" using inv new by (simp add: sched_inv_def)
  have ring: "\<forall>i < length ps. proc_next (mem u) (ps ! i) = ps ! (Suc i mod length ps)"
    using inv same_on_pcb [OF same] by (simp add: sched_inv_def)
  have ends: "if ps = [] then run_queue_head u = 0 else run_queue_head u = hd ps \<and> run_queue_tail u = last ps"
    using inv f by (simp add: sched_inv_def)
  note e = enqueue_ring [OF reg dist ring ends, folded t_def]
  have nz: "ps \<noteq> [] \<Longrightarrow> hd ps \<noteq> 0" using reg by (auto simp: regions_def)
  show "heap_owns t B"
    unfolding t_def by (rule enqueue_owns [OF own tm]) (use ends nz in auto)
  have same_p: "same_on st 16384 (mem u) (mem t)" using e(5) [of p] by simp
  show rsp_t: "proc_rsp (mem t) p = slot st 2040" using e(4) [of p] rsp by simp
  show "context_of (mem t) p = context_of (mem u) p" by (rule same_on_context [OF same_p _ rsp]) (use rsp rsp_t in simp_all)
  show "load64 (mem t) (slot st 2047) = load64 (mem u) (slot st 2047)" by (rule same_on_slot [OF same_p]) simp
  show "proc_pid (mem t) p = proc_pid (mem u) p"
    using set_next_pid [OF reg _ _] ends nz by (cases "ps = []") (simp_all add: t_def enqueue_def)
  have cur: "current t = current s" "r_rsp t = r_rsp s" using f by (simp_all add: t_def enqueue_def)
  have "suspended (mem t) ?stk q" if q: "q \<in> set (ps @ [p])" "q \<noteq> current s" for q
  proof (cases "q = p")
    case True
    then show ?thesis using rsp_t by (auto simp: suspended_def)
  next
    case False
    then have "q \<in> set ps" using q by simp
    then have "suspended (mem s) stk q" "proc_rsp (mem u) q = proc_rsp (mem s) q"
      using inv q(2) same_on_pcb [OF same] by (simp_all add: sched_inv_def)
    then show ?thesis using e(4) [OF q(1)] False by (simp add: suspended_def)
  qed
  moreover have "current s \<noteq> 0 \<longrightarrow> (\<exists>d \<le> 2048. r_rsp t = slot (?stk (current s)) d)" "current s = 0 \<or> current s \<in> set (ps @ [p])"
    using inv new cur by (auto simp: sched_inv_def)
  ultimately show "sched_inv t (ps @ [p]) ?stk" unfolding sched_inv_def cur using reg dist e(1-3) by simp
qed

lemma create_process_run:
  fixes s :: "'a sched_state_scheme"
  assumes own: "heap_owns s B" and budget: "heap_budget (Suc (Suc c)) s" and tm: "task_memory B ps stk" and inv: "sched_inv s ps stk" and entry: "entry \<noteq> 0"
  shows "\<exists>p n st k t. create_process task_returned entry s = Done (p, t) \<and> p \<notin> set ps \<and>
    heap_owns t (insert (st, k) (insert (p, n) B)) \<and> task_memory (insert (st, k) (insert (p, n) B)) (ps @ [p]) (stk(p := st)) \<and>
    sched_inv t (ps @ [p]) (stk(p := st)) \<and> proc_pid (mem t) p = next_pid s \<and> next_pid t = next_pid s + 1 \<and> current t = current s \<and>
    registers (load_context p t) = [0, 0, 0, 0, 0, 0, entry] \<and> unat (r_rsp (load_context p t)) mod 16 = 8 \<and>
    load64 (mem t) (r_rsp (load_context p t)) = task_returned \<and> heap_budget c t \<and> r_rsp t = r_rsp s"
proof -
  obtain p n s1 st k s3 where a: "kmalloc SIZEOF_PROCESS s = Done (p, s1)" "p \<noteq> 0" "st \<noteq> 0"
    "kmalloc STACK_SIZE (s1\<lparr>mem := memset (mem s1) p 0 SIZEOF_PROCESS\<rparr>) = Done (st, s3)"
    and own3: "heap_owns s3 (insert (st, k) (insert (p, n) B))" and n: "32 \<le> n" "16384 \<le> k"
    and fresh: "\<forall>j. (p, j) \<notin> B" "\<forall>j. (st, j) \<notin> insert (p, n) B"
    and keep: "\<forall>q j a. (q, j) \<in> B \<longrightarrow> in_block q j a \<longrightarrow> mem s3 a = mem s a" and more: "heap_state.more s3 = heap_state.more s"
    and c: "heap_budget c s3" by (rule create_alloc [OF own budget])
  let ?B = "insert (st, k) (insert (p, n) B)"
  note v = sched_more [OF more]
  obtain m where m: "set_rsp p (fst (initial_stack st entry task_returned (set_state p PROC_READY (set_pid p (next_pid s) (memset (mem s3) st 0 STACK_SIZE)))))
      (snd (initial_stack st entry task_returned (set_state p PROC_READY (set_pid p (next_pid s) (memset (mem s3) st 0 STACK_SIZE))))) = m"
    "proc_rsp m p = slot st 2040" "context_of m p = [0, 0, 0, 0, 0, 0, entry]" "load64 m (slot st 2047) = task_returned" "proc_pid m p = next_pid s"
    "\<forall>q j a. (q, j) \<in> B \<longrightarrow> in_block q j a \<longrightarrow> m a = mem s3 a" "heap_owns (s3\<lparr>mem := m\<rparr>) ?B"
    by (rule create_frame [OF own3 n fresh])
  define u where "u = s3\<lparr>next_pid := next_pid s + 1, mem := m\<rparr>"
  have run: "create_process task_returned entry s = Done (p, enqueue p u)"
    using a entry m(1) v by (simp add: create_process_def u_def Let_def case_prod_beta)
  have own_u: "heap_owns u ?B" using m(7) heap_owns_above [of u "s3\<lparr>mem := m\<rparr>"] by (simp add: u_def heap_state.defs)
  note t = task_memory_extend [OF own3 tm n fresh]
  have same: "same_on q 32 (mem s) (mem u)" if r: "q \<in> set ps" for q
  proof -
    obtain j where "32 \<le> j" "(q, j) \<in> B" using tm r unfolding task_memory_def by blast
    then show ?thesis using keep m(6) in_block_mono by (auto simp: same_on_def u_def)
  qed
  have l: "sched_inv (enqueue p u) (ps @ [p]) (stk(p := st))" "heap_owns (enqueue p u) ?B" "context_of (mem (enqueue p u)) p = context_of m p"
    "proc_rsp (mem (enqueue p u)) p = slot st 2040" "load64 (mem (enqueue p u)) (slot st 2047) = task_returned" "proc_pid (mem (enqueue p u)) p = next_pid s"
    using create_linked [OF own_u t inv same] v m(2,4,5) by (simp_all add: u_def)
  have al: "16 dvd unat st" "unat st + 16384 < 2 ^ 64"
    using heap_owns_aligned [OF own3, of st k] kheap.extent [OF own3, of st k] n(2) by auto
  have r: "r_rsp (load_context p (enqueue p u)) = slot st 2047" using load_context_regs(2) [of p "enqueue p u"] l(4) by (simp add: slot_def)
  have "unat (slot st 2047) = unat st + 16376" using unat_add_small [of st 16376] al(2) by (simp add: slot_def)
  also have "\<dots> mod 16 = 8" using al(1) by (auto elim!: dvdE simp: mod_mult_self4) 
  finally have "unat (slot st 2047) mod 16 = 8" .
  moreover have "next_pid (enqueue p u) = next_pid s + 1" "current (enqueue p u) = current s" "heap_budget c (enqueue p u)" "r_rsp (enqueue p u) = r_rsp s"
    using v c by (simp_all add: enqueue_def u_def heap_budget_def)
  moreover note load_context_regs(1) [of p "enqueue p u"] l m(3) t run r
  ultimately show ?thesis by (intro exI [of _ p] exI [of _ n] exI [of _ st] exI [of _ k] exI [of _ "enqueue p u"] conjI) simp_all
qed

section \<open>The first dispatch\<close>

text \<open>The stack the kernel booted on is none of the tasks'.\<close>

definition boot_stack_apart :: "'a sched_state_scheme \<Rightarrow> u64 list \<Rightarrow> (u64 \<Rightarrow> u64) \<Rightarrow> bool" where
  "boot_stack_apart s ps stk \<longleftrightarrow> (\<forall>p \<in> set ps. \<forall>a. a - (r_rsp s - 8) < 8 \<longrightarrow> \<not> in_block p 32 a \<and> \<not> in_block (stk p) 16384 a)"

lemma first_dispatch:
  assumes inv: "sched_inv s ps stk" and ne: "ps \<noteq> []" and cur: "current s = 0" and boot: "boot_stack_apart s ps stk"
  shows "\<exists>t. scheduler_start ret s = Done t \<and> sched_inv t ps stk \<and> current t = hd ps \<and>
    registers t = context_of (mem s) (hd ps) \<and> r_rsp t = proc_rsp (mem s) (hd ps) + 56"
proof -
  let ?h = "hd ps"
  have reg: "regions ps stk" and dist: "distinct ps" and ends: "run_queue_head s = ?h" "run_queue_tail s = last ps"
    and susp: "\<And>p. p \<in> set ps \<Longrightarrow> suspended (mem s) stk p"
    using inv ne cur by (auto simp: sched_inv_def regions_def)
  have h: "?h \<in> set ps" "?h \<noteq> 0" using ne reg by (auto simp: regions_def)
  define u where "u = push_word ret (s\<lparr>allow_sched := False, mem := set_state ?h PROC_RUNNING (mem s)\<rparr>)\<lparr>r_if := False\<rparr>"
  define t where "t = load_context ?h u"
  have u: "mem u = store64 (set_state ?h PROC_RUNNING (mem s)) (r_rsp s - 8) ret" "run_queue_head u = ?h" "run_queue_tail u = last ps"
    using ends by (simp_all add: u_def push_word_def)
  note l = load_context_regs [of ?h u, folded t_def]
  have run: "scheduler_start ret s = Done t"
    using h cur ends l(4) by (simp add: scheduler_start_def schedule_def switch_to_def t_def u_def push_word_def Let_def)
  have st: "mem u a = set_state ?h PROC_RUNNING (mem s) a" if "in_block p 32 a \<or> in_block (stk p) 16384 a" "p \<in> set ps" for p a
    using boot that unfolding boot_stack_apart_def by (auto simp: u(1) store64_def)
  have apart: "\<not> in_block ?h 32 a" if "in_block (stk p) 16384 a" "p \<in> set ps" for p a
    using reg h that unfolding regions_def by blast
  have pcb: "proc_next (mem u) p = proc_next (mem s) p" "proc_rsp (mem u) p = proc_rsp (mem s) p" if p: "p \<in> set ps" for p
  proof -
    have s1: "same_on p 32 (set_state ?h PROC_RUNNING (mem s)) (mem u)" unfolding same_on_def using st p by blast
    have al: "aligned8 p" using reg p unfolding regions_def by blast
    have "proc_next (set_state ?h PROC_RUNNING (mem s)) p = proc_next (mem s) p \<and> proc_rsp (set_state ?h PROC_RUNNING (mem s)) p = proc_rsp (mem s) p"
    proof (cases "p = ?h")
      case False
      then have "same_on p 32 (mem s) (set_state ?h PROC_RUNNING (mem s))"
        unfolding same_on_def using reg p h(1) unfolding regions_def by (blast intro: pcb_store_block)
      from same_on_pcb [OF this] show ?thesis by simp
    qed (use al in simp)
    then show "proc_next (mem u) p = proc_next (mem s) p" "proc_rsp (mem u) p = proc_rsp (mem s) p" using same_on_pcb [OF s1] by simp_all
  qed
  have stk: "same_on (stk p) 16384 (mem s) (mem u)" if "p \<in> set ps" for p
    unfolding same_on_def
  proof (intro allI impI)
    fix a assume a: "in_block (stk p) 16384 a"
    then show "mem u a = mem s a" using st [of p a] apart [OF a that] that by (simp add: pcb_store_block)
  qed
  obtain d where d: "proc_rsp (mem s) ?h = slot (stk ?h) d" "d + 7 \<le> 2048" using susp [OF h(1)] by (auto simp: suspended_def)
  have ctx: "context_of (mem u) ?h = context_of (mem s) ?h" by (rule same_on_context [OF stk pcb(2) d]) (use h in simp_all)
  have "r_rsp t = slot (stk ?h) (d + 7)" using l(2) pcb(2) [OF h(1)] d(1) by (simp add: slot_def)
  then have rs: "\<exists>d \<le> 2048. r_rsp t = slot (stk ?h) d" using d(2) by blast
  have "sched_inv t ps stk" unfolding sched_inv_def l(3-6)
    using reg dist ne h u(2,3) pcb inv susp rs by (simp add: sched_inv_def suspended_def)
  with run l ctx pcb(2) [OF h(1)] show ?thesis by simp
qed

section \<open>Properties\<close>

text \<open>C8: Started on a queue of tasks, the scheduler dispatches the first of them in the context it was given, and from
  then on runs them in the order of the queue, round and round: after \<open>k\<close> yields the task that runs is number
  \<open>k\<close> modulo the length of the queue, whatever the tasks do in between within their own memory. So no task
  waits for more than a full round.\<close>
theorem round_robin:
  fixes s :: "'a sched_state_scheme"
  assumes "sched_inv s ps stk" and "ps \<noteq> []" and "current s = 0" and "boot_stack_apart s ps stk"
  shows "\<exists>t. scheduler_start boot s = Done t \<and> registers t = context_of (mem s) (hd ps) \<and>
    (\<forall>k u. sched_run ret ps stk k t u \<longrightarrow> sched_inv u ps stk \<and> current u = ps ! (k mod length ps))"
proof -
  obtain t where t: "scheduler_start boot s = Done t" "sched_inv t ps stk" "current t = hd ps" "registers t = context_of (mem s) (hd ps)"
    using first_dispatch [OF assms] by blast
  have "0 < length ps" "current t = ps ! 0" using assms(2) t(3) by (simp_all add: hd_conv_nth)
  then have "sched_inv u ps stk \<and> current u = ps ! (k mod length ps)" if "sched_run ret ps stk k t u" for k u
    using run_order [OF that t(2)] by fastforce
  with t show ?thesis by blast
qed

text \<open>C7: A task that yields gets back what it had. When every other task has had its turn, the switch that
  returns to the task restores its callee-saved registers and its stack pointer to what they were when it
  called \<open>schedule\<close>, and continues right after its call of \<open>switch_to\<close>.\<close>
theorem context_restored:
  fixes s u :: "'a sched_state_scheme"
  assumes inv: "sched_inv s ps stk" and i: "i < length ps" "current s = ps ! i" and n: "2 \<le> length ps" and room: "stack_room s stk"
    and run: "sched_run ret ps stk (length ps - 2) (schedule ret s) u" and room_u: "stack_room u stk"
  shows "current (schedule ret u) = current s \<and> registers (schedule ret u) = regs_ret ret s \<and> r_rsp (schedule ret u) = r_rsp s"
proof -
  let ?n = "length ps" and ?t = "schedule ret s"
  note a = schedule_step [OF inv i n room, of ret]
  have j: "Suc i mod ?n < ?n" using i(1) by (intro mod_less_divisor) linarith
  note o = run_order [OF run a(1) j a(2)]
  have all: "(Suc i mod ?n + l) mod ?n \<noteq> i" if "l \<le> ?n - 2" for l
  proof
    assume "(Suc i mod ?n + l) mod ?n = i"
    then have m: "(i + Suc l) mod ?n = i" by (simp add: mod_add_left_eq)
    have "Suc l < ?n" using that n by simp
    with m i(1) show False by (cases "i + Suc l < ?n") (simp_all add: le_mod_geq)
  qed
  have c: "context_of (mem u) (current s) = regs_ret ret s" "proc_rsp (mem u) (current s) = r_rsp s - 56"
    using run_keeps_context [OF run a(1) j a(2) n i(1)] all a(5,6) i(2) by simp_all
  define e where "e = (Suc i mod ?n + (?n - 2)) mod ?n"
  have "Suc e mod ?n = Suc (Suc i + (?n - 2)) mod ?n" by (simp add: e_def mod_Suc_eq mod_add_left_eq)
  also have "Suc (Suc i + (?n - 2)) = i + ?n" using n by simp
  also have "(i + ?n) mod ?n = i" using i(1) by simp
  finally have e: "Suc e mod ?n = i" .
  have el: "e < ?n" unfolding e_def using i(1) by (intro mod_less_divisor) linarith
  note b = schedule_step [OF conjunct1 [OF o] el _ n room_u, of ret, unfolded e, folded i(2)]
  from o b(2-4) c show ?thesis by (simp add: e_def)
qed

text \<open>C9: \<open>create_process\<close> with an entry point, on a heap with room for two more blocks, allocates the control
  block and the stack of the task as fresh blocks of the heap, gives it the next process number, and links it in
  at the end of the circular queue, leaving every other task as it was (the queue invariant for the longer list).
  The frame it builds is the one the context switch restores: all callee-saved registers zero, the entry point
  as the return address, a stack pointer that is 8 modulo 16 as at any function entry, and the address of
  \<open>task_returned\<close> there as the return address of the task itself.\<close>
theorem create_process_correct:
  fixes s :: "'a sched_state_scheme"
  assumes "heap_owns s B" and "heap_budget 2 s" and "task_memory B ps stk" and "sched_inv s ps stk" and "entry \<noteq> 0"
  shows "\<exists>p n st k t. create_process task_returned entry s = Done (p, t) \<and> p \<notin> set ps \<and>
    heap_owns t (insert (st, k) (insert (p, n) B)) \<and> task_memory (insert (st, k) (insert (p, n) B)) (ps @ [p]) (stk(p := st)) \<and>
    sched_inv t (ps @ [p]) (stk(p := st)) \<and> proc_pid (mem t) p = next_pid s \<and> next_pid t = next_pid s + 1 \<and> current t = current s \<and>
    registers (load_context p t) = [0, 0, 0, 0, 0, 0, entry] \<and> unat (r_rsp (load_context p t)) mod 16 = 8 \<and>
    load64 (mem t) (r_rsp (load_context p t)) = task_returned"
proof -
  have "heap_budget (Suc (Suc 0)) s" using assms(2) by (simp add: numeral_2_eq_2)
  from create_process_run [OF assms(1) this assms(3-5), of task_returned] show ?thesis by blast
qed

section \<open>A machine with two tasks\<close>

definition wit_cpu :: sched_state where
  "wit_cpu = wit_machine \<lparr>io = [], kerror_mode = 0, bootspace = 1, term_context = 0, logbuf = [], loglen = 0, term_out = [], early_out = [],
     k_char = 0, kbd_stack = [], kbd_head = 0, kbd_tail = 0, allow_sched = False, current = 0, run_queue_head = 0, run_queue_tail = 0, next_pid = 1,
     r_rsp = 0x8000, r_rbp = 0, r_rbx = 0, r_r12 = 0, r_r13 = 0, r_r14 = 0, r_r15 = 0, r_rip = 0, r_if = False\<rparr>"

lemma wit_cpu_heap:
  obtains s where "kmalloc_init wit_cpu = Done s" "heap_owns s {}" "heap_budget 4 s" "task_memory {} [] (\<lambda>_. 0)" "sched_inv s [] (\<lambda>_. 0)"
    "current s = 0" "r_rsp s = 0x8000" "next_pid s = 1"
proof -
  have "\<exists>s'. kmalloc_init wit_cpu = Done s' \<and> heap_owns s' {} \<and> heap_budget 4 s' \<and> heap_state.more s' = heap_state.more wit_cpu"
    by (rule kmalloc_init_budget) (use wit_machine_env [of "heap_state.more wit_cpu"] in \<open>simp_all add: wit_cpu_def wit_machine_def\<close>)
  then obtain s where s: "kmalloc_init wit_cpu = Done s" "heap_owns s {}" "heap_budget 4 s" "heap_state.more s = heap_state.more wit_cpu" by blast
  have "current s = 0" "run_queue_head s = 0" "r_rsp s = 0x8000" "next_pid s = 1"
    using sched_more [OF s(4)] by (simp_all add: wit_cpu_def wit_machine_def)
  then show thesis using s by (intro that) (simp_all add: sched_inv_def regions_def task_memory_def)
qed

text \<open>The heap is far above the boot stack of this machine.\<close>
lemma heap_owns_high:
  assumes "heap_owns s B" and "(p, n) \<in> B"
  shows "in_block p n a \<Longrightarrow> 0x10000 \<le> a"
proof -
  from assms obtain bs where ok: "heap_ok s bs" and B: "(p, n) \<in> payloads bs" by (auto simp: heap_owns_def)
  obtain i k where i: "p = haddr (i + 4)" "n = 8 * (k - 5)" "i + k \<le> HEAP_CELLS" "6 \<le> k" by (rule payloadE [OF ok B])
  then have u: "0x10000 \<le> unat p" "unat p + n < 2 ^ 64" using unat_haddr [of "i + 4"] by simp_all
  show "0x10000 \<le> a" if "in_block p n a"
  proof -
    have "unat (p + (a - p)) = unat p + unat (a - p)" using unat_add_small [of p "unat (a - p)"] that u(2) by (simp add: in_block_def)
    then show ?thesis using u(1) by (simp add: word_le_nat_alt)
  qed
qed

lemma suspended_room:
  "suspended m stk p \<Longrightarrow> r_rsp t = proc_rsp m p + 56 \<Longrightarrow> current t = p \<Longrightarrow> stack_room t stk"
proof -
  assume "suspended m stk p" and r: "r_rsp t = proc_rsp m p + 56" "current t = p"
  then obtain d where d: "proc_rsp m p = slot (stk p) d" "d + 7 \<le> 2048" by (auto simp: suspended_def)
  then have "r_rsp t = slot (stk (current t)) (d + 7)" using r by (simp add: slot_def)
  with d(2) show ?thesis unfolding stack_room_def by (intro exI [of _ "d + 7"]) simp
qed

lemma create_process_tasks:
  fixes s :: "'a sched_state_scheme"
  assumes "heap_owns s B" and "heap_budget (Suc (Suc c)) s" and "task_memory B ps stk" and "sched_inv s ps stk" and "entry \<noteq> 0"
  obtains p B' stk' t where "create_process handler entry s = Done (p, t)" "heap_owns t B'" "task_memory B' (ps @ [p]) stk'" "sched_inv t (ps @ [p]) stk'"
    "current t = current s" "r_rsp t = r_rsp s" "heap_budget c t"
  using create_process_run [OF assms, where task_returned = handler] by (elim exE conjE) (rule that)

lemma wit_tasks:
  obtains s :: sched_state and p q stk where "sched_inv s [p, q] stk" "current s = 0" "boot_stack_apart s [p, q] stk"
proof -
  obtain s :: sched_state where s: "heap_owns s {}" "heap_budget 4 s" "task_memory {} [] (\<lambda>_. 0)" "sched_inv s [] (\<lambda>_. 0)" "current s = 0" "r_rsp s = 0x8000"
    using wit_cpu_heap by blast
  have b: "heap_budget (Suc (Suc 2)) s" "(0x400000 :: u64) \<noteq> 0" using s(2) by simp_all
  obtain p B stk t where "create_process 0x500000 0x400000 s = Done (p, t)" and t: "heap_owns t B" "task_memory B ([] @ [p]) stk"
    "sched_inv t ([] @ [p]) stk" "current t = current s" "r_rsp t = r_rsp s" "heap_budget 2 t" by (rule create_process_tasks [OF s(1) b(1) s(3,4) b(2)])
  have b': "heap_budget (Suc (Suc 0)) t" using t(6) by (simp add: numeral_2_eq_2)
  obtain q B' stk' u where "create_process 0x500000 0x400000 t = Done (q, u)" and "heap_owns u B'" "task_memory B' (([] @ [p]) @ [q]) stk'" "sched_inv u (([] @ [p]) @ [q]) stk'"
    "current u = current t" "r_rsp u = r_rsp t" "heap_budget 0 u" by (rule create_process_tasks [OF t(1) b' t(2,3) b(2)])
  then have u: "heap_owns u B'" "task_memory B' [p, q] stk'" "sched_inv u [p, q] stk'" "current u = current t" "r_rsp u = r_rsp t" by simp_all
  have "\<not> in_block r 32 a \<and> \<not> in_block (stk' r) 16384 a" if r: "r \<in> set [p, q]" and a: "a - (r_rsp u - 8) < 8" for r a
  proof -
    have "a = 0x7FF8 + (a - 0x7FF8)" by simp
    also have "\<dots> < 0x8000" using a u(5) t(5) s(6) by unat_arith
    finally have "\<not> 0x10000 \<le> a" by unat_arith
    moreover obtain n k where "32 \<le> n" "(r, n) \<in> B'" "16384 \<le> k" "(stk' r, k) \<in> B'" using u(2) r unfolding task_memory_def by meson
    ultimately show ?thesis using heap_owns_high [OF u(1)] in_block_mono by blast
  qed
  then have "boot_stack_apart u [p, q] stk'" unfolding boot_stack_apart_def by blast
  then show thesis using u t(4) s(5) by (intro that [of u p q stk']) simp_all
qed

theorem create_process_correct_witness:
  "\<exists>s p t. kmalloc_init wit_cpu = Done s \<and> create_process 0x500000 0x400000 s = Done (p, t) \<and> proc_pid (mem t) p = 1 \<and>
    registers (load_context p t) = [0, 0, 0, 0, 0, 0, 0x400000]"
proof -
  obtain s where s: "kmalloc_init wit_cpu = Done s" "heap_owns s {}" "heap_budget 4 s" "task_memory {} [] (\<lambda>_. 0)" "sched_inv s [] (\<lambda>_. 0)"
    "next_pid s = 1" using wit_cpu_heap by blast
  have b: "heap_budget 2 s" "(0x400000 :: u64) \<noteq> 0" using s(3) by (simp_all add: heap_budget_def)
  from create_process_correct [OF s(2) b(1) s(4,5) b(2)] s(1,6) show ?thesis by metis
qed

theorem round_robin_witness:
  "\<exists>(s :: sched_state) p q t. scheduler_start 0x1000 s = Done t \<and> p \<noteq> q \<and> current t = p \<and> current (schedule 0x2000 t) = q"
proof -
  obtain s :: sched_state and p q stk where s: "sched_inv s [p, q] stk" "current s = 0" "boot_stack_apart s [p, q] stk" by (rule wit_tasks)
  have ne: "[p, q] \<noteq> []" by simp
  obtain t where t: "scheduler_start 0x1000 s = Done t" "current t = p" "r_rsp t = proc_rsp (mem s) p + 56"
    using first_dispatch [OF s(1) ne s(2,3)] by fastforce
  have "p \<noteq> 0" "p \<noteq> q" using s(1) by (auto simp: sched_inv_def regions_def)
  then have "suspended (mem s) stk p" using s(1,2) by (simp add: sched_inv_def)
  then have "stack_room t stk" using t(2,3) suspended_room by blast
  then have "sched_run 0x2000 [p, q] stk (Suc 0) t (schedule 0x2000 t)" by (rule sched_run.yield [OF sched_run.start])
  with round_robin [OF s(1) ne s(2,3), where boot = "0x1000" and ret = "0x2000"] t \<open>p \<noteq> q\<close> show ?thesis by fastforce
qed

theorem context_restored_witness:
  "\<exists>t :: sched_state. current (schedule 5 t) \<noteq> current t \<and> current (schedule 5 (schedule 5 t)) = current t \<and>
    registers (schedule 5 (schedule 5 t)) = regs_ret 5 t"
proof -
  obtain s :: sched_state and p q stk where s: "sched_inv s [p, q] stk" "current s = 0" "boot_stack_apart s [p, q] stk" by (rule wit_tasks)
  have ne: "[p, q] \<noteq> []" by simp
  obtain t :: sched_state where t: "sched_inv t [p, q] stk" "current t = p" "r_rsp t = proc_rsp (mem s) p + 56"
    using first_dispatch [OF s(1) ne s(2,3), where ret = "0x1000", unfolded list.sel(1)] by blast
  have pq: "p \<noteq> 0" "p \<noteq> q" using s(1) by (auto simp: sched_inv_def regions_def)
  then have "suspended (mem s) stk p" "suspended (mem t) stk q" using s(1,2) t(1,2) by (simp_all add: sched_inv_def)
  then have room: "stack_room t stk" using t(2,3) suspended_room by blast
  have i: "0 < length [p, q]" "current t = [p, q] ! 0" "2 \<le> length [p, q]" using t(2) by simp_all
  note a = schedule_step [OF t(1) i room, where ret = 5]
  have "stack_room (schedule 5 t) stk" using a(2,4) \<open>suspended (mem t) stk q\<close> suspended_room by (simp, blast)
  moreover have "sched_run 5 [p, q] stk (length [p, q] - 2) (schedule 5 t) (schedule 5 t)" by (simp add: sched_run.start)
  ultimately have "current (schedule 5 (schedule 5 t)) = current t \<and> registers (schedule 5 (schedule 5 t)) = regs_ret 5 t"
    using context_restored [OF t(1) i room] by blast
  with a(2) t(2) pq show ?thesis by (intro exI [of _ t]) simp
qed

end
