(* ===== verification/Term_State.thy ===== *)
theory Term_State
  imports Prelude
begin

text \<open>
  The state of the framebuffer terminal: \<open>struct term_context\<close> of include/terminal/term.h and
  \<open>struct fbterm_context\<close> of include/terminal/framebuffer.h, which starts with it. The function
  pointers of the first are the \<open>fbterm_*\<close> functions in every context the kernel makes, so they
  are called directly. A \<open>size_t\<close> is a natural number below \<open>2 ^ 64\<close>; arithmetic that can leave
  that range is written with \<open>add64\<close>, \<open>sub64\<close> and \<open>mul64\<close>. Arrays are lists, and an access outside
  of one is the outcome \<open>Panic\<close>: showing that a routine returns shows that it stays inside.
\<close>

section \<open>Arithmetic of size_t\<close>

definition add64 :: "nat \<Rightarrow> nat \<Rightarrow> nat" where "add64 a b = (a + b) mod 2 ^ 64"
definition sub64 :: "nat \<Rightarrow> nat \<Rightarrow> nat" where "sub64 a b = (a + (2 ^ 64 - b mod 2 ^ 64)) mod 2 ^ 64"
definition mul64 :: "nat \<Rightarrow> nat \<Rightarrow> nat" where "mul64 a b = (a * b) mod 2 ^ 64"

lemma add64_small [simp]: "a + b < 2 ^ 64 \<Longrightarrow> add64 a b = a + b"
  by (simp add: add64_def)

lemma sub64_small [simp]: "b \<le> a \<Longrightarrow> a < 2 ^ 64 \<Longrightarrow> sub64 a b = a - b"
proof -
  assume "b \<le> a" "a < 2 ^ 64"
  then have "sub64 a b = (a - b + 2 ^ 64) mod 2 ^ 64" by (simp add: sub64_def)
  also have "\<dots> = a - b" using \<open>a < 2 ^ 64\<close> by (simp only: mod_add_self2) simp
  finally show ?thesis .
qed

lemma mul64_small [simp]: "a * b < 2 ^ 64 \<Longrightarrow> mul64 a b = a * b"
  by (simp add: mul64_def)

lemma sub64_less [simp]: "sub64 a b < 2 ^ 64"
  by (simp add: sub64_def)

section \<open>Arrays\<close>

definition array_at :: "'a list \<Rightarrow> nat \<Rightarrow> 'a outcome" where
  "array_at xs i = (if i < length xs then Done (xs ! i) else Panic ''access outside of an array'')"

definition array_set :: "'a list \<Rightarrow> nat \<Rightarrow> 'a \<Rightarrow> 'a list outcome" where
  "array_set xs i v = (if i < length xs then Done (xs[i := v]) else Panic ''access outside of an array'')"

lemma array_simps [simp]:
  "i < length xs \<Longrightarrow> array_at xs i = Done (xs ! i)"
  "i < length xs \<Longrightarrow> array_set xs i v = Done (xs[i := v])"
  by (simp_all add: array_at_def array_set_def)

section \<open>Contexts\<close>

record fbterm_char =
  ch_c :: u32
  ch_fg :: u32
  ch_bg :: u32

record fbterm_queue_item =
  q_x :: nat
  q_y :: nat
  q_c :: fbterm_char

definition TERM_MAX_ESC_VALUES :: nat where "TERM_MAX_ESC_VALUES = 16"

text \<open>The client callback is called with an event and three numbers, the second of which may be the
  address of an array, recorded by its contents.\<close>

definition TERM_CB_DEC :: nat where "TERM_CB_DEC = 10"
definition TERM_CB_BELL :: nat where "TERM_CB_BELL = 20"
definition TERM_CB_PRIVATE_ID :: nat where "TERM_CB_PRIVATE_ID = 30"
definition TERM_CB_STATUS_REPORT :: nat where "TERM_CB_STATUS_REPORT = 40"
definition TERM_CB_POS_REPORT :: nat where "TERM_CB_POS_REPORT = 50"
definition TERM_CB_KBD_LEDS :: nat where "TERM_CB_KBD_LEDS = 60"
definition TERM_CB_MODE :: nat where "TERM_CB_MODE = 70"
definition TERM_CB_LINUX :: nat where "TERM_CB_LINUX = 80"

record term_context =
  tab_size :: nat
  autoflush :: bool
  scroll_enabled :: bool
  control_sequence :: bool
  csi :: bool
  escape :: bool
  rrr :: bool
  discard_next :: bool
  bold :: bool
  reverse_video :: bool
  dec_private :: bool
  insert_mode :: bool
  g_select :: nat
  charsets :: "nat list"
  current_charset :: nat
  escape_offset :: nat
  esc_values_i :: nat
  saved_cursor_x :: nat
  saved_cursor_y :: nat
  current_primary :: nat
  scroll_top_margin :: nat
  scroll_bottom_margin :: nat
  esc_values :: "u32 list"
  saved_state_bold :: bool
  saved_state_reverse_video :: bool
  saved_state_current_charset :: nat
  saved_state_current_primary :: nat
  rows :: nat
  cols :: nat
  in_bootloader :: bool
  callback :: bool
  callback_log :: "(nat \<times> nat \<times> nat list \<times> nat) list"

text \<open>A queue item is known by its index in the queue; the null pointer in the map is \<open>None\<close>.\<close>

record fbterm_context = term_context +
  font_width :: nat
  font_height :: nat
  glyph_width :: nat
  glyph_height :: nat
  font_scale_x :: nat
  font_scale_y :: nat
  offset_x :: nat
  offset_y :: nat
  framebuffer :: "u32 list"
  pitch :: nat
  width :: nat
  height :: nat
  font_bits :: "u8 list"
  font_bool :: "bool list"
  ansi_colours :: "u32 list"
  ansi_bright_colours :: "u32 list"
  default_fg :: u32
  default_bg :: u32
  canvas :: "u32 list"
  grid :: "fbterm_char list"
  queue :: "fbterm_queue_item list"
  queue_i :: nat
  qmap :: "nat option list"
  text_fg :: u32
  text_bg :: u32
  cursor_status :: bool
  cursor_x :: nat
  cursor_y :: nat
  saved_state_text_fg :: u32
  saved_state_text_bg :: u32
  saved_state_cursor_x :: nat
  saved_state_cursor_y :: nat
  old_cursor_x :: nat
  old_cursor_y :: nat

definition call_callback :: "nat \<Rightarrow> nat \<Rightarrow> nat list \<Rightarrow> nat \<Rightarrow> 'a term_context_scheme \<Rightarrow> 'a term_context_scheme" where
  "call_callback event a b c s = (if callback s then s\<lparr>callback_log := callback_log s @ [(event, a, b, c)]\<rparr> else s)"

end
