(* ===== verification/Framebuffer.thy ===== *)
theory Framebuffer
  imports Term_State Builtin_Font
begin

text \<open>
  terminal/framebuffer.c: the backend of the terminal. Characters are not drawn when they are
  written but put into a queue, at most one item per cell, which \<open>fbterm_double_buffer_flush\<close>
  draws; \<open>qmap\<close> finds the item of a cell. \<open>fbterm_deinit\<close>, which only frees the arrays, is left out.
\<close>

section \<open>State\<close>

definition fbterm_save_state :: "'a fbterm_context_scheme \<Rightarrow> 'a fbterm_context_scheme" where
  "fbterm_save_state s = s\<lparr>saved_state_text_fg := text_fg s, saved_state_text_bg := text_bg s,
     saved_state_cursor_x := cursor_x s, saved_state_cursor_y := cursor_y s\<rparr>"

definition fbterm_restore_state :: "'a fbterm_context_scheme \<Rightarrow> 'a fbterm_context_scheme" where
  "fbterm_restore_state s = s\<lparr>text_fg := saved_state_text_fg s, text_bg := saved_state_text_bg s,
     cursor_x := saved_state_cursor_x s, cursor_y := saved_state_cursor_y s\<rparr>"

definition fbterm_swap_palette :: "'a fbterm_context_scheme \<Rightarrow> 'a fbterm_context_scheme" where
  "fbterm_swap_palette s = s\<lparr>text_bg := text_fg s, text_fg := text_bg s\<rparr>"

section \<open>Drawing\<close>

text \<open>The colour \<open>0xffffffff\<close> stands for the pixel of the canvas behind the terminal.\<close>

definition plot_pixel :: "fbterm_char \<Rightarrow> bool \<Rightarrow> nat \<Rightarrow> nat \<Rightarrow> 'a fbterm_context_scheme \<Rightarrow> 'a fbterm_context_scheme outcome" where
  "plot_pixel c draw fb_at canvas_at s =
     bind_outcome (if ch_bg c = 0xffffffff then array_at (canvas s) canvas_at else Done (ch_bg c)) (\<lambda>bg.
     bind_outcome (if ch_fg c = 0xffffffff then array_at (canvas s) canvas_at else Done (ch_fg c)) (\<lambda>fg.
     bind_outcome (array_set (framebuffer s) fb_at (if draw then fg else bg)) (\<lambda>fb.
     Done (s\<lparr>framebuffer := fb\<rparr>))))"

definition plot_char :: "fbterm_char \<Rightarrow> nat \<Rightarrow> nat \<Rightarrow> 'a fbterm_context_scheme \<Rightarrow> 'a fbterm_context_scheme outcome" where
  "plot_char c x y s =
     (if x \<ge> cols s \<or> y \<ge> rows s then Done s
      else
        let x = offset_x s + x * glyph_width s;
            y = offset_y s + y * glyph_height s;
            glyph = unat (ch_c c) * font_height s * font_width s
        in for_outcome [0..<glyph_height s] (\<lambda>gy s.
             let fy = (gy div font_scale_y s) mod 256;
                 fb_line = x + (y + gy) * (pitch s div 4);
                 canvas_line = x + (y + gy) * width s
             in for_outcome [0..<font_width s] (\<lambda>fx s.
                  bind_outcome (array_at (font_bool s) (glyph + (fy * font_width s + fx))) (\<lambda>draw.
                  for_outcome [0..<font_scale_x s] (\<lambda>i s.
                    let gx = font_scale_x s * fx + i
                    in plot_pixel c draw (fb_line + gx) (canvas_line + gx) s) s)) s) s)"

text \<open>A glyph over another one in the same colours: only the pixels that change are drawn.\<close>

definition plot_char_fast :: "fbterm_char \<Rightarrow> fbterm_char \<Rightarrow> nat \<Rightarrow> nat \<Rightarrow> 'a fbterm_context_scheme \<Rightarrow> 'a fbterm_context_scheme outcome" where
  "plot_char_fast old c x y s =
     (if x \<ge> cols s \<or> y \<ge> rows s then Done s
      else
        let x = offset_x s + x * glyph_width s;
            y = offset_y s + y * glyph_height s;
            new_glyph = unat (ch_c c) * font_height s * font_width s;
            old_glyph = unat (ch_c old) * font_height s * font_width s
        in for_outcome [0..<glyph_height s] (\<lambda>gy s.
             let fy = (gy div font_scale_y s) mod 256;
                 fb_line = x + (y + gy) * (pitch s div 4);
                 canvas_line = x + (y + gy) * width s
             in for_outcome [0..<font_width s] (\<lambda>fx s.
                  bind_outcome (array_at (font_bool s) (old_glyph + (fy * font_width s + fx))) (\<lambda>old_draw.
                  bind_outcome (array_at (font_bool s) (new_glyph + (fy * font_width s + fx))) (\<lambda>new_draw.
                  if old_draw = new_draw then Done s
                  else for_outcome [0..<font_scale_x s] (\<lambda>i s.
                    let gx = font_scale_x s * fx + i
                    in plot_pixel c new_draw (fb_line + gx) (canvas_line + gx) s) s))) s) s)"

section \<open>The queue\<close>

definition compare_char :: "fbterm_char \<Rightarrow> fbterm_char \<Rightarrow> bool" where
  "compare_char a b = (\<not> (ch_c a \<noteq> ch_c b \<or> ch_bg a \<noteq> ch_bg b \<or> ch_fg a \<noteq> ch_fg b))"

definition push_to_queue :: "fbterm_char \<Rightarrow> nat \<Rightarrow> nat \<Rightarrow> 'a fbterm_context_scheme \<Rightarrow> 'a fbterm_context_scheme outcome" where
  "push_to_queue c x y s =
     (if x \<ge> cols s \<or> y \<ge> rows s then Done s
      else
        let i = y * cols s + x
        in bind_outcome (array_at (qmap s) i) (\<lambda>q.
           case q of
             None \<Rightarrow>
               bind_outcome (array_at (grid s) i) (\<lambda>g.
               if compare_char g c then Done s
               else
                 bind_outcome (array_set (queue s) (queue_i s) \<lparr>q_x = x, q_y = y, q_c = c\<rparr>) (\<lambda>items.
                 bind_outcome (array_set (qmap s) i (Some (queue_i s))) (\<lambda>m.
                 Done (s\<lparr>queue := items, queue_i := queue_i s + 1, qmap := m\<rparr>))))
           | Some k \<Rightarrow>
               bind_outcome (array_at (queue s) k) (\<lambda>item.
               bind_outcome (array_set (queue s) k (item\<lparr>q_c := c\<rparr>)) (\<lambda>items.
               Done (s\<lparr>queue := items\<rparr>)))))"

text \<open>The character of cell \<open>i\<close>: the one of its queue item if it has one, else the one of the grid.\<close>

definition cell_char :: "nat \<Rightarrow> 'a fbterm_context_scheme \<Rightarrow> fbterm_char outcome" where
  "cell_char i s =
     bind_outcome (array_at (qmap s) i) (\<lambda>q.
     case q of
       None \<Rightarrow> array_at (grid s) i
     | Some k \<Rightarrow> bind_outcome (array_at (queue s) k) (\<lambda>item. Done (q_c item)))"

definition empty_char :: "'a fbterm_context_scheme \<Rightarrow> fbterm_char" where
  "empty_char s = \<lparr>ch_c = 0x20, ch_fg = text_fg s, ch_bg = text_bg s\<rparr>"

text \<open>
  The loop of \<open>fbterm_revscroll\<close> runs down to the first cell of the region. An index that left the
  screen would be outside of the arrays, so one round per cell and one more is enough fuel.
\<close>

definition fbterm_revscroll :: "'a fbterm_context_scheme \<Rightarrow> 'a fbterm_context_scheme outcome" where
  "fbterm_revscroll s =
     bind_outcome (while_outcome (length (qmap s) + 2) (\<lambda>(i, stop, s). \<not> stop) (\<lambda>(i, _, s).
       bind_outcome (cell_char i s) (\<lambda>c.
       bind_outcome (push_to_queue c (add64 i (cols s) mod cols s) (add64 i (cols s) div cols s) s) (\<lambda>s.
       if i = mul64 (scroll_top_margin s) (cols s) then Done (i, True, s) else Done (sub64 i 1, False, s))))
       (sub64 (mul64 (sub64 (scroll_bottom_margin s) 1) (cols s)) 1, False, s)) (\<lambda>(_, _, s).
     let empty = empty_char s
     in for_outcome [scroll_top_margin s * cols s..<(scroll_top_margin s + 1) * cols s] (\<lambda>i s.
          push_to_queue empty (i mod cols s) (i div cols s) s) s)"

definition fbterm_scroll :: "'a fbterm_context_scheme \<Rightarrow> 'a fbterm_context_scheme outcome" where
  "fbterm_scroll s =
     bind_outcome (for_outcome [(scroll_top_margin s + 1) * cols s..<scroll_bottom_margin s * cols s] (\<lambda>i s.
       bind_outcome (cell_char i s) (\<lambda>c.
       push_to_queue c ((i - cols s) mod cols s) ((i - cols s) div cols s) s)) s) (\<lambda>s.
     let empty = empty_char s
     in for_outcome [mul64 (sub64 (scroll_bottom_margin s) 1) (cols s)..<scroll_bottom_margin s * cols s] (\<lambda>i s.
          push_to_queue empty (i mod cols s) (i div cols s) s) s)"

definition fbterm_clear :: "bool \<Rightarrow> 'a fbterm_context_scheme \<Rightarrow> 'a fbterm_context_scheme outcome" where
  "fbterm_clear move s =
     (let empty = empty_char s
      in bind_outcome (for_outcome [0..<rows s * cols s] (\<lambda>i s. push_to_queue empty (i mod cols s) (i div cols s) s) s) (\<lambda>s.
         Done (if move then s\<lparr>cursor_x := 0, cursor_y := 0\<rparr> else s)))"

section \<open>Cursor and colours\<close>

definition fbterm_enable_cursor :: "'a fbterm_context_scheme \<Rightarrow> 'a fbterm_context_scheme" where
  "fbterm_enable_cursor s = s\<lparr>cursor_status := True\<rparr>"

definition fbterm_disable_cursor :: "'a fbterm_context_scheme \<Rightarrow> bool \<times> 'a fbterm_context_scheme" where
  "fbterm_disable_cursor s = (cursor_status s, s\<lparr>cursor_status := False\<rparr>)"

text \<open>\<open>(int) x < 0\<close>: the low 32 bits as a signed number.\<close>

definition int_negative :: "nat \<Rightarrow> bool" where
  "int_negative x \<longleftrightarrow> 2 ^ 31 \<le> x mod 2 ^ 32"

definition fbterm_set_cursor_pos :: "nat \<Rightarrow> nat \<Rightarrow> 'a fbterm_context_scheme \<Rightarrow> 'a fbterm_context_scheme" where
  "fbterm_set_cursor_pos x y s =
     (let x = (if x \<ge> cols s then (if int_negative x then 0 else sub64 (cols s) 1) else x);
          y = (if y \<ge> rows s then (if int_negative y then 0 else sub64 (rows s) 1) else y)
      in s\<lparr>cursor_x := x, cursor_y := y\<rparr>)"

definition fbterm_get_cursor_pos :: "'a fbterm_context_scheme \<Rightarrow> nat \<times> nat" where
  "fbterm_get_cursor_pos s = (cursor_x s, cursor_y s)"

definition fbterm_move_character :: "nat \<Rightarrow> nat \<Rightarrow> nat \<Rightarrow> nat \<Rightarrow> 'a fbterm_context_scheme \<Rightarrow> 'a fbterm_context_scheme outcome" where
  "fbterm_move_character new_x new_y old_x old_y s =
     (if old_x \<ge> cols s \<or> old_y \<ge> rows s \<or> new_x \<ge> cols s \<or> new_y \<ge> rows s then Done s
      else
        let i = old_x + old_y * cols s
        in bind_outcome (cell_char i s) (\<lambda>c. push_to_queue c new_x new_y s))"

definition fbterm_set_text_fg :: "nat \<Rightarrow> 'a fbterm_context_scheme \<Rightarrow> 'a fbterm_context_scheme outcome" where
  "fbterm_set_text_fg fg s = bind_outcome (array_at (ansi_colours s) fg) (\<lambda>v. Done (s\<lparr>text_fg := v\<rparr>))"

definition fbterm_set_text_bg :: "nat \<Rightarrow> 'a fbterm_context_scheme \<Rightarrow> 'a fbterm_context_scheme outcome" where
  "fbterm_set_text_bg bg s = bind_outcome (array_at (ansi_colours s) bg) (\<lambda>v. Done (s\<lparr>text_bg := v\<rparr>))"

definition fbterm_set_text_fg_bright :: "nat \<Rightarrow> 'a fbterm_context_scheme \<Rightarrow> 'a fbterm_context_scheme outcome" where
  "fbterm_set_text_fg_bright fg s = bind_outcome (array_at (ansi_bright_colours s) fg) (\<lambda>v. Done (s\<lparr>text_fg := v\<rparr>))"

definition fbterm_set_text_bg_bright :: "nat \<Rightarrow> 'a fbterm_context_scheme \<Rightarrow> 'a fbterm_context_scheme outcome" where
  "fbterm_set_text_bg_bright bg s = bind_outcome (array_at (ansi_bright_colours s) bg) (\<lambda>v. Done (s\<lparr>text_bg := v\<rparr>))"

definition fbterm_set_text_fg_rgb :: "u32 \<Rightarrow> 'a fbterm_context_scheme \<Rightarrow> 'a fbterm_context_scheme" where
  "fbterm_set_text_fg_rgb fg s = s\<lparr>text_fg := fg\<rparr>"

definition fbterm_set_text_bg_rgb :: "u32 \<Rightarrow> 'a fbterm_context_scheme \<Rightarrow> 'a fbterm_context_scheme" where
  "fbterm_set_text_bg_rgb bg s = s\<lparr>text_bg := bg\<rparr>"

definition fbterm_set_text_fg_default :: "'a fbterm_context_scheme \<Rightarrow> 'a fbterm_context_scheme" where
  "fbterm_set_text_fg_default s = s\<lparr>text_fg := default_fg s\<rparr>"

definition fbterm_set_text_bg_default :: "'a fbterm_context_scheme \<Rightarrow> 'a fbterm_context_scheme" where
  "fbterm_set_text_bg_default s = s\<lparr>text_bg := 0xffffffff\<rparr>"

section \<open>Flushing\<close>

definition draw_cursor :: "'a fbterm_context_scheme \<Rightarrow> 'a fbterm_context_scheme outcome" where
  "draw_cursor s =
     (let i = cursor_x s + cursor_y s * cols s
      in bind_outcome (array_at (qmap s) i) (\<lambda>q.
         bind_outcome (cell_char i s) (\<lambda>c.
         bind_outcome (plot_char (c\<lparr>ch_fg := ch_bg c, ch_bg := ch_fg c\<rparr>) (cursor_x s) (cursor_y s) s) (\<lambda>s.
         if q \<noteq> None
         then
           bind_outcome (array_set (grid s) i c) (\<lambda>g.
           bind_outcome (array_set (qmap s) i None) (\<lambda>m.
           Done (s\<lparr>grid := g, qmap := m\<rparr>)))
         else Done s))))"

definition flush_item :: "nat \<Rightarrow> 'a fbterm_context_scheme \<Rightarrow> 'a fbterm_context_scheme outcome" where
  "flush_item i s =
     bind_outcome (array_at (queue s) i) (\<lambda>q.
     let offset = q_y q * cols s + q_x q
     in bind_outcome (array_at (qmap s) offset) (\<lambda>p.
        if p = None then Done s
        else
          bind_outcome (array_at (grid s) offset) (\<lambda>old.
          bind_outcome
            (if ch_bg (q_c q) = ch_bg old \<and> ch_fg (q_c q) = ch_fg old
             then plot_char_fast old (q_c q) (q_x q) (q_y q) s
             else plot_char (q_c q) (q_x q) (q_y q) s) (\<lambda>s.
          bind_outcome (array_set (grid s) offset (q_c q)) (\<lambda>g.
          bind_outcome (array_set (qmap s) offset None) (\<lambda>m.
          Done (s\<lparr>grid := g, qmap := m\<rparr>)))))))"

definition fbterm_double_buffer_flush :: "'a fbterm_context_scheme \<Rightarrow> 'a fbterm_context_scheme outcome" where
  "fbterm_double_buffer_flush s =
     bind_outcome (if cursor_status s then draw_cursor s else Done s) (\<lambda>s.
     bind_outcome (for_outcome [0..<queue_i s] flush_item s) (\<lambda>s.
     bind_outcome
       (if (old_cursor_x s \<noteq> cursor_x s \<or> old_cursor_y s \<noteq> cursor_y s) \<or> cursor_status s = False
        then
          bind_outcome (array_at (grid s) (old_cursor_x s + old_cursor_y s * cols s)) (\<lambda>c.
          plot_char c (old_cursor_x s) (old_cursor_y s) s)
        else Done s) (\<lambda>s.
     Done (s\<lparr>old_cursor_x := cursor_x s, old_cursor_y := cursor_y s, queue_i := 0\<rparr>))))"

definition fbterm_raw_putchar :: "u8 \<Rightarrow> 'a fbterm_context_scheme \<Rightarrow> 'a fbterm_context_scheme outcome" where
  "fbterm_raw_putchar c s =
     (let chr = \<lparr>ch_c = ucast c, ch_fg = text_fg s, ch_bg = text_bg s\<rparr>
      in bind_outcome (push_to_queue chr (cursor_x s) (cursor_y s) (s\<lparr>cursor_x := add64 (cursor_x s) 1\<rparr>)) (\<lambda>s.
         let s = (if cursor_x s = cols s \<and> (cursor_y s < sub64 (scroll_bottom_margin s) 1 \<or> scroll_enabled s)
                  then s\<lparr>cursor_x := 0, cursor_y := add64 (cursor_y s) 1\<rparr> else s)
         in if cursor_y s = scroll_bottom_margin s
            then fbterm_scroll (s\<lparr>cursor_y := sub64 (cursor_y s) 1\<rparr>)
            else Done s))"

definition fbterm_full_refresh :: "'a fbterm_context_scheme \<Rightarrow> 'a fbterm_context_scheme outcome" where
  "fbterm_full_refresh s =
     bind_outcome (for_outcome [0..<height s] (\<lambda>y s. for_outcome [0..<width s] (\<lambda>x s.
       bind_outcome (array_at (canvas s) (y * width s + x)) (\<lambda>v.
       bind_outcome (array_set (framebuffer s) (y * (pitch s div 4) + x) v) (\<lambda>fb.
       Done (s\<lparr>framebuffer := fb\<rparr>)))) s) s) (\<lambda>s.
     bind_outcome (for_outcome [0..<rows s * cols s] (\<lambda>i s.
       bind_outcome (array_at (grid s) i) (\<lambda>c. plot_char c (i mod cols s) (i div cols s) s)) s) (\<lambda>s.
     if cursor_status s then draw_cursor s else Done s))"

end
