(* ===== verification/Term.thy ===== *)
theory Term
  imports Framebuffer
begin

text \<open>
  terminal/term.c: the parser of terminal output. A byte is a control character, part of an
  escape or control sequence, or a character to put on the screen. The \<open>goto\<close>s of the source into
  shared tails are calls of named parts; each branch of its large \<open>switch\<close> statements is a
  definition.
\<close>

abbreviation chr8 :: "char \<Rightarrow> u8" where "chr8 c \<equiv> of_char c"

section \<open>Tables\<close>

definition col256 :: "u32 list" where
  "col256 = [
     0x000000, 0x00005f, 0x000087, 0x0000af, 0x0000d7, 0x0000ff, 0x005f00, 0x005f5f,
     0x005f87, 0x005faf, 0x005fd7, 0x005fff, 0x008700, 0x00875f, 0x008787, 0x0087af,
     0x0087d7, 0x0087ff, 0x00af00, 0x00af5f, 0x00af87, 0x00afaf, 0x00afd7, 0x00afff,
     0x00d700, 0x00d75f, 0x00d787, 0x00d7af, 0x00d7d7, 0x00d7ff, 0x00ff00, 0x00ff5f,
     0x00ff87, 0x00ffaf, 0x00ffd7, 0x00ffff, 0x5f0000, 0x5f005f, 0x5f0087, 0x5f00af,
     0x5f00d7, 0x5f00ff, 0x5f5f00, 0x5f5f5f, 0x5f5f87, 0x5f5faf, 0x5f5fd7, 0x5f5fff,
     0x5f8700, 0x5f875f, 0x5f8787, 0x5f87af, 0x5f87d7, 0x5f87ff, 0x5faf00, 0x5faf5f,
     0x5faf87, 0x5fafaf, 0x5fafd7, 0x5fafff, 0x5fd700, 0x5fd75f, 0x5fd787, 0x5fd7af,
     0x5fd7d7, 0x5fd7ff, 0x5fff00, 0x5fff5f, 0x5fff87, 0x5fffaf, 0x5fffd7, 0x5fffff,
     0x870000, 0x87005f, 0x870087, 0x8700af, 0x8700d7, 0x8700ff, 0x875f00, 0x875f5f,
     0x875f87, 0x875faf, 0x875fd7, 0x875fff, 0x878700, 0x87875f, 0x878787, 0x8787af,
     0x8787d7, 0x8787ff, 0x87af00, 0x87af5f, 0x87af87, 0x87afaf, 0x87afd7, 0x87afff,
     0x87d700, 0x87d75f, 0x87d787, 0x87d7af, 0x87d7d7, 0x87d7ff, 0x87ff00, 0x87ff5f,
     0x87ff87, 0x87ffaf, 0x87ffd7, 0x87ffff, 0xaf0000, 0xaf005f, 0xaf0087, 0xaf00af,
     0xaf00d7, 0xaf00ff, 0xaf5f00, 0xaf5f5f, 0xaf5f87, 0xaf5faf, 0xaf5fd7, 0xaf5fff,
     0xaf8700, 0xaf875f, 0xaf8787, 0xaf87af, 0xaf87d7, 0xaf87ff, 0xafaf00, 0xafaf5f,
     0xafaf87, 0xafafaf, 0xafafd7, 0xafafff, 0xafd700, 0xafd75f, 0xafd787, 0xafd7af,
     0xafd7d7, 0xafd7ff, 0xafff00, 0xafff5f, 0xafff87, 0xafffaf, 0xafffd7, 0xafffff,
     0xd70000, 0xd7005f, 0xd70087, 0xd700af, 0xd700d7, 0xd700ff, 0xd75f00, 0xd75f5f,
     0xd75f87, 0xd75faf, 0xd75fd7, 0xd75fff, 0xd78700, 0xd7875f, 0xd78787, 0xd787af,
     0xd787d7, 0xd787ff, 0xd7af00, 0xd7af5f, 0xd7af87, 0xd7afaf, 0xd7afd7, 0xd7afff,
     0xd7d700, 0xd7d75f, 0xd7d787, 0xd7d7af, 0xd7d7d7, 0xd7d7ff, 0xd7ff00, 0xd7ff5f,
     0xd7ff87, 0xd7ffaf, 0xd7ffd7, 0xd7ffff, 0xff0000, 0xff005f, 0xff0087, 0xff00af,
     0xff00d7, 0xff00ff, 0xff5f00, 0xff5f5f, 0xff5f87, 0xff5faf, 0xff5fd7, 0xff5fff,
     0xff8700, 0xff875f, 0xff8787, 0xff87af, 0xff87d7, 0xff87ff, 0xffaf00, 0xffaf5f,
     0xffaf87, 0xffafaf, 0xffafd7, 0xffafff, 0xffd700, 0xffd75f, 0xffd787, 0xffd7af,
     0xffd7d7, 0xffd7ff, 0xffff00, 0xffff5f, 0xffff87, 0xffffaf, 0xffffd7, 0xffffff,
     0x080808, 0x121212, 0x1c1c1c, 0x262626, 0x303030, 0x3a3a3a, 0x444444, 0x4e4e4e,
     0x585858, 0x626262, 0x6c6c6c, 0x767676, 0x808080, 0x8a8a8a, 0x949494, 0x9e9e9e,
     0xa8a8a8, 0xb2b2b2, 0xbcbcbc, 0xc6c6c6, 0xd0d0d0, 0xdadada, 0xe4e4e4, 0xeeeeee]"

definition CHARSET_DEFAULT :: nat where "CHARSET_DEFAULT = 0"
definition CHARSET_DEC_SPECIAL :: nat where "CHARSET_DEC_SPECIAL = 1"

definition dec_special_table :: "(u8 \<times> u8) list" where
  "dec_special_table = [
     (0x60, 0x04), (0x30, 0xdb), (0x2d, 0x18), (0x2c, 0x1b), (0x2e, 0x19), (0x61, 0xb1),
     (0x66, 0xf8), (0x67, 0xf1), (0x68, 0xb0), (0x6a, 0xd9), (0x6b, 0xbf), (0x6c, 0xda),
     (0x6d, 0xc0), (0x6e, 0xc5), (0x71, 0xc4), (0x73, 0x5f), (0x74, 0xc3), (0x75, 0xb4),
     (0x76, 0xc1), (0x77, 0xc2), (0x78, 0xb3), (0x79, 0xf3), (0x7a, 0xf2), (0x7e, 0xfa),
     (0x5f, 0xff), (0x2b, 0x1a), (0x7b, 0xe3), (0x7d, 0x9c)]"

definition dec_special_to_cp437 :: "u8 \<Rightarrow> u8" where
  "dec_special_to_cp437 c = (case map_of dec_special_table c of Some d \<Rightarrow> d | None \<Rightarrow> c)"

section \<open>Reset\<close>

text \<open>\<open>(size_t) -1\<close>\<close>

definition NO_PRIMARY :: nat where "NO_PRIMARY = 2 ^ 64 - 1"

definition term_context_reinit :: "'a term_context_scheme \<Rightarrow> 'a term_context_scheme" where
  "term_context_reinit s = s\<lparr>tab_size := 8, autoflush := True, scroll_enabled := True, control_sequence := False,
     csi := False, escape := False, rrr := False, discard_next := False, bold := False, reverse_video := False,
     dec_private := False, insert_mode := False, g_select := 0, charsets := [CHARSET_DEFAULT, CHARSET_DEC_SPECIAL],
     current_charset := 0, escape_offset := 0, esc_values_i := 0, saved_cursor_x := 0, saved_cursor_y := 0,
     current_primary := NO_PRIMARY, scroll_top_margin := 0, scroll_bottom_margin := rows s\<rparr>"

section \<open>Graphic rendition\<close>

definition sgr_reset :: "'a fbterm_context_scheme \<Rightarrow> 'a fbterm_context_scheme" where
  "sgr_reset s =
     (let s = (if reverse_video s then fbterm_swap_palette (s\<lparr>reverse_video := False\<rparr>) else s);
          s = s\<lparr>bold := False, current_primary := NO_PRIMARY\<rparr>
      in fbterm_set_text_fg_default (fbterm_set_text_bg_default s))"

text \<open>The tails \<open>set_fg\<close>, \<open>set_bg\<close>, \<open>set_fg_bright\<close> and \<open>set_bg_bright\<close>, with the colour number.\<close>

definition sgr_set_fg :: "nat \<Rightarrow> 'a fbterm_context_scheme \<Rightarrow> 'a fbterm_context_scheme outcome" where
  "sgr_set_fg n s = (if bold s \<and> \<not> reverse_video s then fbterm_set_text_fg_bright n s else fbterm_set_text_fg n s)"

definition sgr_set_bg :: "nat \<Rightarrow> 'a fbterm_context_scheme \<Rightarrow> 'a fbterm_context_scheme outcome" where
  "sgr_set_bg n s = (if bold s \<and> reverse_video s then fbterm_set_text_bg_bright n s else fbterm_set_text_bg n s)"

definition sgr_bold :: "'a fbterm_context_scheme \<Rightarrow> 'a fbterm_context_scheme outcome" where
  "sgr_bold s =
     (let s = s\<lparr>bold := True\<rparr>
      in if current_primary s \<noteq> NO_PRIMARY
         then (if \<not> reverse_video s then fbterm_set_text_fg_bright (current_primary s) s
               else fbterm_set_text_bg_bright (current_primary s) s)
         else Done s)"

definition sgr_not_bold :: "'a fbterm_context_scheme \<Rightarrow> 'a fbterm_context_scheme outcome" where
  "sgr_not_bold s =
     (let s = s\<lparr>bold := False\<rparr>
      in if current_primary s \<noteq> NO_PRIMARY
         then (if \<not> reverse_video s then fbterm_set_text_fg (current_primary s) s
               else fbterm_set_text_bg (current_primary s) s)
         else Done s)"

text \<open>\<open>38\<close> and \<open>48\<close>: the result is the index the loop goes on from and whether it stops.\<close>

definition sgr_extended :: "bool \<Rightarrow> nat \<Rightarrow> 'a fbterm_context_scheme \<Rightarrow> (nat \<times> bool \<times> 'a fbterm_context_scheme) outcome" where
  "sgr_extended fg i s =
     (let i = i + 1
      in if i \<ge> esc_values_i s then Done (i, True, s)
         else
           bind_outcome (array_at (esc_values s) i) (\<lambda>kind.
           if kind = 2
           then
             (if i + 3 \<ge> esc_values_i s then Done (i, True, s)
              else
                bind_outcome (array_at (esc_values s) (i + 1)) (\<lambda>r.
                bind_outcome (array_at (esc_values s) (i + 2)) (\<lambda>g.
                bind_outcome (array_at (esc_values s) (i + 3)) (\<lambda>b.
                let rgb_value = push_bit 16 r OR push_bit 8 g OR b
                in Done (i + 4, False, if fg then fbterm_set_text_fg_rgb rgb_value s else fbterm_set_text_bg_rgb rgb_value s)))))
           else if kind = 5
           then
             (if i + 1 \<ge> esc_values_i s then Done (i, True, s)
              else
                bind_outcome (array_at (esc_values s) (i + 1)) (\<lambda>col.
                if col < 8
                then bind_outcome (if fg then fbterm_set_text_fg (unat col) s else fbterm_set_text_bg (unat col) s) (\<lambda>s. Done (i + 2, False, s))
                else if col < 16
                then bind_outcome (if fg then fbterm_set_text_fg_bright (unat (col - 8)) s else fbterm_set_text_bg_bright (unat (col - 8)) s)
                       (\<lambda>s. Done (i + 2, False, s))
                else
                  bind_outcome (array_at col256 (unat (col - 16))) (\<lambda>rgb_value.
                  Done (i + 2, False, if fg then fbterm_set_text_fg_rgb rgb_value s else fbterm_set_text_bg_rgb rgb_value s))))
           else Done (i + 1, False, s)))"

definition sgr_step :: "nat \<Rightarrow> 'a fbterm_context_scheme \<Rightarrow> (nat \<times> bool \<times> 'a fbterm_context_scheme) outcome" where
  "sgr_step i s =
     bind_outcome (array_at (esc_values s) i) (\<lambda>v.
     if v = 38 \<or> v = 48 then sgr_extended (v = 38) i s
     else
       bind_outcome
         (if v = 0 then Done (sgr_reset s)
          else if v = 1 then sgr_bold s
          else if v = 22 then sgr_not_bold s
          else if v \<ge> 30 \<and> v \<le> 37
          then let n = unat (v - 30); s = s\<lparr>current_primary := n\<rparr> in if reverse_video s then sgr_set_bg n s else sgr_set_fg n s
          else if v \<ge> 40 \<and> v \<le> 47
          then let n = unat (v - 40) in if reverse_video s then sgr_set_fg n s else sgr_set_bg n s
          else if v \<ge> 90 \<and> v \<le> 97
          then let n = unat (v - 90); s = s\<lparr>current_primary := n\<rparr>
               in if reverse_video s then fbterm_set_text_bg_bright n s else fbterm_set_text_fg_bright n s
          else if v \<ge> 100 \<and> v \<le> 107
          then let n = unat (v - 100) in if reverse_video s then fbterm_set_text_fg_bright n s else fbterm_set_text_bg_bright n s
          else if v = 39
          then let s = s\<lparr>current_primary := NO_PRIMARY\<rparr>;
                   s = (if reverse_video s then fbterm_swap_palette s else s);
                   s = fbterm_set_text_fg_default s
               in Done (if reverse_video s then fbterm_swap_palette s else s)
          else if v = 49
          then let s = (if reverse_video s then fbterm_swap_palette s else s);
                   s = fbterm_set_text_bg_default s
               in Done (if reverse_video s then fbterm_swap_palette s else s)
          else if v = 7
          then Done (if \<not> reverse_video s then fbterm_swap_palette (s\<lparr>reverse_video := True\<rparr>) else s)
          else if v = 27
          then Done (if reverse_video s then fbterm_swap_palette (s\<lparr>reverse_video := False\<rparr>) else s)
          else Done s)
         (\<lambda>s. Done (i + 1, False, s)))"

text \<open>Every round moves on by at least one of at most \<open>esc_values_i\<close> values.\<close>

definition sgr :: "'a fbterm_context_scheme \<Rightarrow> 'a fbterm_context_scheme outcome" where
  "sgr s =
     (if esc_values_i s = 0 then Done (sgr_reset s)
      else
        bind_outcome (while_outcome (esc_values_i s + 2) (\<lambda>(i, stop, s). \<not> stop \<and> i < esc_values_i s) (\<lambda>(i, _, s). sgr_step i s) (0, False, s)) (\<lambda>(_, _, s).
        Done s))"

section \<open>Private sequences and modes\<close>

definition dec_private_parse :: "u8 \<Rightarrow> 'a fbterm_context_scheme \<Rightarrow> 'a fbterm_context_scheme outcome" where
  "dec_private_parse c s =
     (let s = s\<lparr>dec_private := False\<rparr>
      in if esc_values_i s = 0 then Done s
         else if c \<noteq> chr8 CHR ''h'' \<and> c \<noteq> chr8 CHR ''l'' then Done s
         else
           let on = (c = chr8 CHR ''h'')
           in bind_outcome (array_at (esc_values s) 0) (\<lambda>v.
              if v = 25 then Done (if on then fbterm_enable_cursor s else snd (fbterm_disable_cursor s))
              else Done (call_callback TERM_CB_DEC (esc_values_i s) (map unat (esc_values s)) (unat c) s)))"

definition linux_private_parse :: "'a fbterm_context_scheme \<Rightarrow> 'a fbterm_context_scheme" where
  "linux_private_parse s =
     (if esc_values_i s = 0 then s else call_callback TERM_CB_LINUX (esc_values_i s) (map unat (esc_values s)) 0 s)"

definition mode_toggle :: "u8 \<Rightarrow> 'a fbterm_context_scheme \<Rightarrow> 'a fbterm_context_scheme outcome" where
  "mode_toggle c s =
     (if esc_values_i s = 0 then Done s
      else if c \<noteq> chr8 CHR ''h'' \<and> c \<noteq> chr8 CHR ''l'' then Done s
      else
        let on = (c = chr8 CHR ''h'')
        in bind_outcome (array_at (esc_values s) 0) (\<lambda>v.
           if v = 4 then Done (s\<lparr>insert_mode := on\<rparr>)
           else Done (call_callback TERM_CB_MODE (esc_values_i s) (map unat (esc_values s)) (unat c) s)))"

section \<open>Control sequences\<close>

text \<open>\<open>for (i = first; i < count; i++) raw_putchar(' ')\<close>\<close>

definition put_blanks :: "nat \<Rightarrow> 'a fbterm_context_scheme \<Rightarrow> 'a fbterm_context_scheme outcome" where
  "put_blanks n s = for_outcome [0..<n] (\<lambda>_. fbterm_raw_putchar 0x20) s"

text \<open>A store to the first value of the sequence.\<close>

definition set_esc :: "nat \<Rightarrow> u32 \<Rightarrow> 'a fbterm_context_scheme \<Rightarrow> 'a fbterm_context_scheme outcome" where
  "set_esc i v s = bind_outcome (array_set (esc_values s) i v) (\<lambda>vs. Done (s\<lparr>esc_values := vs\<rparr>))"

definition csi_cursor_up :: "nat \<Rightarrow> nat \<Rightarrow> 'a fbterm_context_scheme \<Rightarrow> 'a fbterm_context_scheme outcome" where
  "csi_cursor_up x y s =
     bind_outcome (array_at (esc_values s) 0) (\<lambda>v.
     bind_outcome (if unat v > y then set_esc 0 (of_nat y) s else Done s) (\<lambda>s.
     bind_outcome (array_at (esc_values s) 0) (\<lambda>v.
     let orig_y = y;
         dest_y = sub64 y (unat v);
         will_be_in_scroll_region =
           (scroll_top_margin s \<ge> dest_y \<and> scroll_top_margin s \<le> orig_y) \<or>
           (scroll_bottom_margin s \<ge> dest_y \<and> scroll_bottom_margin s \<le> orig_y);
         dest_y = (if will_be_in_scroll_region \<and> dest_y < scroll_top_margin s then scroll_top_margin s else dest_y)
     in Done (fbterm_set_cursor_pos x dest_y s))))"

definition csi_cursor_down :: "nat \<Rightarrow> nat \<Rightarrow> 'a fbterm_context_scheme \<Rightarrow> 'a fbterm_context_scheme outcome" where
  "csi_cursor_down x y s =
     bind_outcome (array_at (esc_values s) 0) (\<lambda>v.
     bind_outcome (if add64 y (unat v) > sub64 (rows s) 1 then set_esc 0 (of_nat (sub64 (sub64 (rows s) 1) y)) s else Done s) (\<lambda>s.
     bind_outcome (array_at (esc_values s) 0) (\<lambda>v.
     let orig_y = y;
         dest_y = add64 y (unat v);
         will_be_in_scroll_region =
           (scroll_top_margin s \<ge> orig_y \<and> scroll_top_margin s \<le> dest_y) \<or>
           (scroll_bottom_margin s \<ge> orig_y \<and> scroll_bottom_margin s \<le> dest_y);
         dest_y = (if will_be_in_scroll_region \<and> dest_y \<ge> scroll_bottom_margin s then sub64 (scroll_bottom_margin s) 1 else dest_y)
     in Done (fbterm_set_cursor_pos x dest_y s))))"

definition csi_cursor_right :: "nat \<Rightarrow> nat \<Rightarrow> 'a fbterm_context_scheme \<Rightarrow> 'a fbterm_context_scheme outcome" where
  "csi_cursor_right x y s =
     bind_outcome (array_at (esc_values s) 0) (\<lambda>v.
     bind_outcome (if add64 x (unat v) > sub64 (cols s) 1 then set_esc 0 (of_nat (sub64 (sub64 (cols s) 1) x)) s else Done s) (\<lambda>s.
     bind_outcome (array_at (esc_values s) 0) (\<lambda>v.
     Done (fbterm_set_cursor_pos (add64 x (unat v)) y s))))"

definition csi_cursor_left :: "nat \<Rightarrow> nat \<Rightarrow> 'a fbterm_context_scheme \<Rightarrow> 'a fbterm_context_scheme outcome" where
  "csi_cursor_left x y s =
     bind_outcome (array_at (esc_values s) 0) (\<lambda>v.
     bind_outcome (if unat v > x then set_esc 0 (of_nat x) s else Done s) (\<lambda>s.
     bind_outcome (array_at (esc_values s) 0) (\<lambda>v.
     Done (fbterm_set_cursor_pos (sub64 x (unat v)) y s))))"

text \<open>\<open>esc_values[i] -= 1\<close>, then the bound: the position the value asks for.\<close>

definition esc_position :: "nat \<Rightarrow> nat \<Rightarrow> 'a fbterm_context_scheme \<Rightarrow> (nat \<times> 'a fbterm_context_scheme) outcome" where
  "esc_position i bound s =
     bind_outcome (array_at (esc_values s) i) (\<lambda>v.
     let v = v - 1;
         v = (if unat v \<ge> bound then of_nat (sub64 bound 1) else v)
     in bind_outcome (set_esc i v s) (\<lambda>s. Done (unat v, s)))"

definition csi_report :: "nat \<Rightarrow> nat \<Rightarrow> 'a fbterm_context_scheme \<Rightarrow> 'a fbterm_context_scheme outcome" where
  "csi_report x y s =
     bind_outcome (array_at (esc_values s) 0) (\<lambda>v.
     if v = 5 then Done (call_callback TERM_CB_STATUS_REPORT 0 [0] 0 s)
     else if v = 6 then Done (call_callback TERM_CB_POS_REPORT (x + 1) [y + 1] 0 s)
     else Done s)"

text \<open>\<open>J\<close> with 1: the blanks stop at the cursor, in the middle of two loops over the screen.\<close>

definition csi_erase_above :: "nat \<Rightarrow> nat \<Rightarrow> 'a fbterm_context_scheme \<Rightarrow> 'a fbterm_context_scheme outcome" where
  "csi_erase_above x y s =
     bind_outcome (for_outcome [0..<rows s * cols s] (\<lambda>k (b, s).
       if b then Done (b, s)
       else
         bind_outcome (fbterm_raw_putchar 0x20 s) (\<lambda>s.
         if k mod cols s = x \<and> k div cols s = y then Done (True, fbterm_set_cursor_pos x y s) else Done (False, s)))
       (False, fbterm_set_cursor_pos 0 0 s)) (\<lambda>(_, s). Done s)"

definition csi_erase_display :: "nat \<Rightarrow> nat \<Rightarrow> 'a fbterm_context_scheme \<Rightarrow> 'a fbterm_context_scheme outcome" where
  "csi_erase_display x y s =
     bind_outcome (array_at (esc_values s) 0) (\<lambda>v.
     if v = 0
     then
       let rows_remaining = sub64 (rows s) (add64 y 1);
           cols_diff = sub64 (cols s) (add64 x 1);
           to_clear = add64 (mul64 rows_remaining (cols s)) cols_diff
       in bind_outcome (put_blanks to_clear s) (\<lambda>s. Done (fbterm_set_cursor_pos x y s))
     else if v = 1 then csi_erase_above x y s
     else if v = 2 \<or> v = 3 then fbterm_clear False s
     else Done s)"

text \<open>
  The loop of \<open>@\<close> counts down from the last column to \<open>x\<close>; started to the left of \<open>x\<close> it would go
  round once through all numbers of 64 bits, which is what the fuel allows for.
\<close>

definition csi_insert_blanks :: "nat \<Rightarrow> nat \<Rightarrow> 'a fbterm_context_scheme \<Rightarrow> 'a fbterm_context_scheme outcome" where
  "csi_insert_blanks x y s =
     bind_outcome (while_outcome (2 ^ 64 + 1) (\<lambda>(i, stop, s). \<not> stop) (\<lambda>(i, _, s).
       bind_outcome (array_at (esc_values s) 0) (\<lambda>v.
       bind_outcome (fbterm_move_character (add64 i (unat v)) y i y s) (\<lambda>s.
       bind_outcome (fbterm_raw_putchar 0x20 (fbterm_set_cursor_pos i y s)) (\<lambda>s.
       if i = x then Done (i, True, s) else Done (sub64 i 1, False, s)))))
       (sub64 (cols s) 1, False, s)) (\<lambda>(_, _, s).
     Done (fbterm_set_cursor_pos x y s))"

definition csi_erase_chars :: "nat \<Rightarrow> nat \<Rightarrow> 'a fbterm_context_scheme \<Rightarrow> 'a fbterm_context_scheme outcome" where
  "csi_erase_chars x y s =
     bind_outcome (array_at (esc_values s) 0) (\<lambda>v.
     bind_outcome (put_blanks (unat v) s) (\<lambda>s.
     Done (fbterm_set_cursor_pos x y s)))"

definition csi_delete_chars :: "nat \<Rightarrow> nat \<Rightarrow> 'a fbterm_context_scheme \<Rightarrow> 'a fbterm_context_scheme outcome" where
  "csi_delete_chars x y s =
     bind_outcome (array_at (esc_values s) 0) (\<lambda>v.
     bind_outcome (for_outcome [x + unat v..<cols s] (\<lambda>i s. fbterm_move_character (i - unat v) y i y s) s) (\<lambda>s.
     csi_erase_chars x y (fbterm_set_cursor_pos (sub64 (cols s) (unat v)) y s)))"

definition csi_erase_line :: "nat \<Rightarrow> nat \<Rightarrow> 'a fbterm_context_scheme \<Rightarrow> 'a fbterm_context_scheme outcome" where
  "csi_erase_line x y s =
     bind_outcome (array_at (esc_values s) 0) (\<lambda>v.
     if v = 0 then bind_outcome (put_blanks (cols s - x) s) (\<lambda>s. Done (fbterm_set_cursor_pos x y s))
     else if v = 1 then put_blanks x (fbterm_set_cursor_pos 0 y s)
     else if v = 2
     then bind_outcome (put_blanks (cols s) (fbterm_set_cursor_pos 0 y s)) (\<lambda>s. Done (fbterm_set_cursor_pos x y s))
     else Done s)"

definition csi_margins :: "'a fbterm_context_scheme \<Rightarrow> 'a fbterm_context_scheme outcome" where
  "csi_margins s =
     bind_outcome (array_at (esc_values s) 0) (\<lambda>v0.
     bind_outcome (array_at (esc_values s) 1) (\<lambda>v1.
     let top = (if esc_values_i s > 0 then unat (v0 - 1) else 0);
         bottom = (if esc_values_i s > 1 then unat v1 else rows s);
         reset = (top \<ge> rows s \<or> bottom > rows s \<or> top \<ge> sub64 bottom 1);
         s = s\<lparr>scroll_top_margin := if reset then 0 else top, scroll_bottom_margin := if reset then rows s else bottom\<rparr>
     in Done (fbterm_set_cursor_pos 0 0 s)))"

definition csi_command :: "u8 \<Rightarrow> 'a fbterm_context_scheme \<Rightarrow> 'a fbterm_context_scheme outcome" where
  "csi_command c s =
     (let (x, y) = fbterm_get_cursor_pos s
      in if c = chr8 CHR ''F'' then csi_cursor_up 0 y s
         else if c = chr8 CHR ''A'' then csi_cursor_up x y s
         else if c = chr8 CHR ''E'' then csi_cursor_down 0 y s
         else if c = chr8 CHR ''e'' \<or> c = chr8 CHR ''B'' then csi_cursor_down x y s
         else if c = chr8 CHR ''a'' \<or> c = chr8 CHR ''C'' then csi_cursor_right x y s
         else if c = chr8 CHR ''D'' then csi_cursor_left x y s
         else if c = chr8 CHR ''c'' then Done (call_callback TERM_CB_PRIVATE_ID 0 [0] 0 s)
         else if c = chr8 CHR ''d''
         then bind_outcome (esc_position 0 (rows s) s) (\<lambda>(v, s). Done (fbterm_set_cursor_pos x v s))
         else if c = chr8 CHR ''G'' \<or> c = 0x60
         then bind_outcome (esc_position 0 (cols s) s) (\<lambda>(v, s). Done (fbterm_set_cursor_pos v y s))
         else if c = chr8 CHR ''H'' \<or> c = chr8 CHR ''f''
         then bind_outcome (esc_position 1 (cols s) s) (\<lambda>(h, s).
              bind_outcome (esc_position 0 (rows s) s) (\<lambda>(v, s). Done (fbterm_set_cursor_pos h v s)))
         else if c = chr8 CHR ''n'' then csi_report x y s
         else if c = chr8 CHR ''q''
         then bind_outcome (array_at (esc_values s) 0) (\<lambda>v. Done (call_callback TERM_CB_KBD_LEDS (unat v) [0] 0 s))
         else if c = chr8 CHR ''J'' then csi_erase_display x y s
         else if c = chr8 CHR ''@'' then csi_insert_blanks x y s
         else if c = chr8 CHR ''P'' then csi_delete_chars x y s
         else if c = chr8 CHR ''X'' then csi_erase_chars x y s
         else if c = chr8 CHR ''m'' then sgr s
         else if c = chr8 CHR ''s'' then Done (s\<lparr>saved_cursor_x := x, saved_cursor_y := y\<rparr>)
         else if c = chr8 CHR ''u'' then Done (fbterm_set_cursor_pos (saved_cursor_x s) (saved_cursor_y s) s)
         else if c = chr8 CHR ''K'' then csi_erase_line x y s
         else if c = chr8 CHR ''r'' then csi_margins s
         else if c = chr8 CHR ''l'' \<or> c = chr8 CHR ''h'' then mode_toggle c s
         else if c = chr8 CHR '']'' then Done (linux_private_parse s)
         else Done s)"

definition csi_cleanup :: "'a fbterm_context_scheme \<Rightarrow> 'a fbterm_context_scheme" where
  "csi_cleanup s = s\<lparr>control_sequence := False, escape := False\<rparr>"

definition csi_digit :: "u8 \<Rightarrow> 'a fbterm_context_scheme \<Rightarrow> 'a fbterm_context_scheme outcome" where
  "csi_digit c s =
     (if esc_values_i s = TERM_MAX_ESC_VALUES then Done s
      else
        bind_outcome (array_at (esc_values s) (esc_values_i s)) (\<lambda>v.
        set_esc (esc_values_i s) (v * 10 + (ucast c - 0x30)) (s\<lparr>rrr := True\<rparr>)))"

definition csi_separator :: "'a fbterm_context_scheme \<Rightarrow> 'a fbterm_context_scheme outcome" where
  "csi_separator s =
     (if esc_values_i s = TERM_MAX_ESC_VALUES then Done s
      else bind_outcome (set_esc (esc_values_i s) 0 s) (\<lambda>s. Done (s\<lparr>esc_values_i := esc_values_i s + 1\<rparr>)))"

definition csi_final :: "u8 \<Rightarrow> 'a fbterm_context_scheme \<Rightarrow> 'a fbterm_context_scheme outcome" where
  "csi_final c s =
     (let esc_default = (if c = chr8 CHR ''J'' \<or> c = chr8 CHR ''K'' \<or> c = chr8 CHR ''q'' then 0 else 1)
      in bind_outcome (for_outcome [esc_values_i s..<TERM_MAX_ESC_VALUES] (\<lambda>i. set_esc i esc_default) s) (\<lambda>s.
         if dec_private s then bind_outcome (dec_private_parse c s) (\<lambda>s. Done (csi_cleanup s))
         else
           let r = scroll_enabled s
           in bind_outcome (csi_command c (s\<lparr>scroll_enabled := False\<rparr>)) (\<lambda>s.
              Done (csi_cleanup (s\<lparr>scroll_enabled := r\<rparr>)))))"

definition control_sequence_parse :: "u8 \<Rightarrow> 'a fbterm_context_scheme \<Rightarrow> 'a fbterm_context_scheme outcome" where
  "control_sequence_parse c s =
     (if escape_offset s = 2 \<and> c = chr8 CHR ''['' then Done (csi_cleanup (s\<lparr>discard_next := True\<rparr>))
      else if escape_offset s = 2 \<and> c = chr8 CHR ''?'' then Done (s\<lparr>dec_private := True\<rparr>)
      else if c \<ge> 0x30 \<and> c \<le> 0x39 then csi_digit c s
      else if rrr s
      then let s = s\<lparr>esc_values_i := esc_values_i s + 1, rrr := False\<rparr>
           in if c = chr8 CHR '';'' then Done s else csi_final c s
      else if c = chr8 CHR '';'' then csi_separator s
      else csi_final c s)"

section \<open>Escape sequences\<close>

definition restore_state :: "'a fbterm_context_scheme \<Rightarrow> 'a fbterm_context_scheme" where
  "restore_state s = fbterm_restore_state (s\<lparr>bold := saved_state_bold s, reverse_video := saved_state_reverse_video s,
     current_charset := saved_state_current_charset s, current_primary := saved_state_current_primary s\<rparr>)"

definition save_state :: "'a fbterm_context_scheme \<Rightarrow> 'a fbterm_context_scheme" where
  "save_state s =
     (let s = fbterm_save_state s
      in s\<lparr>saved_state_bold := bold s, saved_state_reverse_video := reverse_video s,
           saved_state_current_charset := current_charset s, saved_state_current_primary := current_primary s\<rparr>)"

definition begin_csi :: "'a fbterm_context_scheme \<Rightarrow> 'a fbterm_context_scheme outcome" where
  "begin_csi s =
     bind_outcome (for_outcome [0..<TERM_MAX_ESC_VALUES] (\<lambda>i. set_esc i 0) s) (\<lambda>s.
     Done (s\<lparr>esc_values_i := 0, rrr := False, control_sequence := True\<rparr>))"

text \<open>A line down from \<open>y\<close>: \<open>D\<close>, \<open>E\<close> and the line feed, which differ in the column.\<close>

definition line_down :: "nat \<Rightarrow> nat \<Rightarrow> 'a fbterm_context_scheme \<Rightarrow> 'a fbterm_context_scheme outcome" where
  "line_down x y s =
     (if y = sub64 (scroll_bottom_margin s) 1
      then bind_outcome (fbterm_scroll s) (\<lambda>s. Done (fbterm_set_cursor_pos x y s))
      else Done (fbterm_set_cursor_pos x (add64 y 1) s))"

definition escape_command :: "u8 \<Rightarrow> 'a fbterm_context_scheme \<Rightarrow> 'a fbterm_context_scheme outcome" where
  "escape_command c s =
     (let (x, y) = fbterm_get_cursor_pos s
      in if c = chr8 CHR ''7'' then Done (save_state s)
         else if c = chr8 CHR ''8'' then Done (restore_state s)
         else if c = chr8 CHR ''c'' then fbterm_clear True (term_context_reinit s)
         else if c = chr8 CHR ''D'' then line_down x y s
         else if c = chr8 CHR ''E'' then line_down 0 y s
         else if c = chr8 CHR ''M''
         then (if y = scroll_top_margin s
               then bind_outcome (fbterm_revscroll s) (\<lambda>s. Done (fbterm_set_cursor_pos 0 y s))
               else Done (fbterm_set_cursor_pos 0 (sub64 y 1) s))
         else if c = chr8 CHR ''Z'' then Done (call_callback TERM_CB_PRIVATE_ID 0 [0] 0 s)
         else if c = chr8 CHR ''('' \<or> c = chr8 CHR '')'' then Done (s\<lparr>g_select := unat (c - 0x27)\<rparr>)
         else if c = 0x1b then (if in_bootloader s then fbterm_raw_putchar c s else Done s)
         else Done s)"

definition escape_parse :: "u8 \<Rightarrow> 'a fbterm_context_scheme \<Rightarrow> 'a fbterm_context_scheme outcome" where
  "escape_parse c s =
     (let s = s\<lparr>escape_offset := add64 (escape_offset s) 1\<rparr>
      in if control_sequence s then control_sequence_parse c s
         else if csi s then begin_csi (s\<lparr>csi := False\<rparr>)
         else if c = chr8 CHR ''['' then begin_csi s
         else bind_outcome (escape_command c s) (\<lambda>s. Done (s\<lparr>escape := False\<rparr>)))"

section \<open>Characters\<close>

definition select_charset :: "u8 \<Rightarrow> 'a fbterm_context_scheme \<Rightarrow> 'a fbterm_context_scheme outcome" where
  "select_charset c s =
     (let g = g_select s - 1
      in bind_outcome
           (if c = chr8 CHR ''B'' then array_set (charsets s) g CHARSET_DEFAULT
            else if c = chr8 CHR ''0'' then array_set (charsets s) g CHARSET_DEC_SPECIAL
            else Done (charsets s)) (\<lambda>sets.
         Done (s\<lparr>charsets := sets, g_select := 0\<rparr>)))"

text \<open>In insert mode the rest of the line moves right; the fuel is that of \<open>csi_insert_blanks\<close>.\<close>

definition insert_gap :: "nat \<Rightarrow> nat \<Rightarrow> 'a fbterm_context_scheme \<Rightarrow> 'a fbterm_context_scheme outcome" where
  "insert_gap x y s =
     bind_outcome (while_outcome (2 ^ 64 + 1) (\<lambda>(i, stop, s). \<not> stop) (\<lambda>(i, _, s).
       bind_outcome (fbterm_move_character (add64 i 1) y i y s) (\<lambda>s.
       if i = x then Done (i, True, s) else Done (sub64 i 1, False, s)))
       (sub64 (cols s) 1, False, s)) (\<lambda>(_, _, s). Done s)"

definition put_glyph :: "u8 \<Rightarrow> 'a fbterm_context_scheme \<Rightarrow> 'a fbterm_context_scheme outcome" where
  "put_glyph c s =
     (let (x, y) = fbterm_get_cursor_pos s
      in bind_outcome (if insert_mode s then insert_gap x y s else Done s) (\<lambda>s.
         bind_outcome (array_at (charsets s) (current_charset s)) (\<lambda>charset.
         fbterm_raw_putchar (if charset = CHARSET_DEC_SPECIAL then dec_special_to_cp437 c else c) s)))"

definition term_putchar :: "u8 \<Rightarrow> 'a fbterm_context_scheme \<Rightarrow> 'a fbterm_context_scheme outcome" where
  "term_putchar c s =
     (if discard_next s \<or> (\<not> in_bootloader s \<and> (c = 0x18 \<or> c = 0x1a))
      then Done (s\<lparr>discard_next := False, escape := False, csi := False, control_sequence := False, g_select := 0\<rparr>)
      else if escape s then escape_parse c s
      else if g_select s \<noteq> 0 then select_charset c s
      else
        let (x, y) = fbterm_get_cursor_pos s
        in if c = 0x00 \<or> c = 0x7f then Done s
           else if c = 0x9b then Done (s\<lparr>csi := True, escape_offset := 0, escape := True\<rparr>)
           else if c = 0x1b then Done (s\<lparr>escape_offset := 0, escape := True\<rparr>)
           else if c = 0x09
           then (if x div tab_size s + 1 \<ge> cols s then Done (fbterm_set_cursor_pos (sub64 (cols s) 1) y s)
                 else Done (fbterm_set_cursor_pos ((x div tab_size s + 1) * tab_size s) y s))
           else if c = 0x0b \<or> c = 0x0c \<or> c = 0x0a then line_down 0 y s
           else if c = 0x08 then Done (fbterm_set_cursor_pos (sub64 x 1) y s)
           else if c = 0x0d then Done (fbterm_set_cursor_pos 0 y s)
           else if c = 0x07 then Done (call_callback TERM_CB_BELL 0 [0] 0 s)
           else if c = 14 then Done (s\<lparr>current_charset := 1\<rparr>)
           else if c = 15 then Done (s\<lparr>current_charset := 0\<rparr>)
           else put_glyph c s)"

fun term_bytes :: "u8 list \<Rightarrow> 'a fbterm_context_scheme \<Rightarrow> 'a fbterm_context_scheme outcome" where
  "term_bytes [] s = Done s"
| "term_bytes (c # cs) s = bind_outcome (term_putchar c s) (term_bytes cs)"

definition term_write :: "u8 list \<Rightarrow> 'a fbterm_context_scheme \<Rightarrow> 'a fbterm_context_scheme outcome" where
  "term_write buf s =
     bind_outcome (term_bytes buf s) (\<lambda>s. if autoflush s then fbterm_double_buffer_flush s else Done s)"

end
