(* ===== verification/Term_Cells.thy ===== *)
theory Term_Cells
  imports Framebuffer
begin

text \<open>
  The cells of the screen. What the terminal shows is, for each cell, the character of its queue
  item or else that of the grid; writing to the queue changes this view at one cell and nothing
  else. Filling and moving stretches of cells is proved once for every store of cells.
\<close>

section \<open>Stores of cells\<close>

locale cell_store =
  fixes get :: "nat \<Rightarrow> 's \<Rightarrow> 'c outcome" and put :: "'c \<Rightarrow> nat \<Rightarrow> 's \<Rightarrow> 's outcome"
    and ok :: "'s \<Rightarrow> bool" and cells :: "'s \<Rightarrow> nat" and stride :: "'s \<Rightarrow> nat"
    and view :: "'s \<Rightarrow> nat \<Rightarrow> 'c" and rest :: "'s \<Rightarrow> 'r" and valid :: "'c \<Rightarrow> bool"
  assumes get_ok: "ok s \<Longrightarrow> i < cells s \<Longrightarrow> get i s = Done (view s i) \<and> valid (view s i)"
    and put_ok: "ok s \<Longrightarrow> i < cells s \<Longrightarrow> valid c \<Longrightarrow>
      runs (\<lambda>t. ok t \<and> rest t = rest s \<and> (\<forall>j < cells s. view t j = (if j = i then c else view s j))) (put c i s)"
    and cells_rest: "rest t = rest s \<Longrightarrow> cells t = cells s"
    and stride_rest: "rest t = rest s \<Longrightarrow> stride t = stride s"
begin

lemma fill:
  assumes "ok s" and "valid c" and "a \<le> b" and "b \<le> cells s"
  shows "runs (\<lambda>t. ok t \<and> rest t = rest s \<and> (\<forall>j < cells s. view t j = (if a \<le> j \<and> j < b then c else view s j)))
    (for_outcome [a..<b] (\<lambda>i. put c i) s)"
proof -
  let ?P = "\<lambda>i t. ok t \<and> rest t = rest s \<and> (\<forall>j < cells s. view t j = (if a \<le> j \<and> j < i then c else view s j))"
  show ?thesis
  proof (rule runs_for [of ?P])
    show "?P a s" using assms(1) by auto
    fix i t assume i: "a \<le> i" "i < b" and P: "?P i t"
    have eq: "cells t = cells s" using P cells_rest by blast
    with P i assms(4) have "runs (\<lambda>u. ok u \<and> rest u = rest t \<and> (\<forall>j < cells t. view u j = (if j = i then c else view t j))) (put c i t)"
      by (intro put_ok) (use assms(2) in simp_all)
    then show "runs (?P (Suc i)) (put c i t)"
      by (rule runs_mono) (use P i eq in \<open>auto simp: less_Suc_eq\<close>)
  qed (use assms in simp)
qed

text \<open>Moving a stretch by one line towards the start, the first cell first.\<close>
lemma copy_up:
  assumes "ok s" and "stride s \<le> a" and "0 < stride s" and "b \<le> cells s"
  shows "runs (\<lambda>t. ok t \<and> rest t = rest s \<and>
      (\<forall>j < cells s. view t j = (if a \<le> j + stride s \<and> j + stride s < b then view s (j + stride s) else view s j)))
    (for_outcome [a..<b] (\<lambda>i s. bind_outcome (get i s) (\<lambda>c. put c (i - stride s) s)) s)"
proof (cases "a \<le> b")
  case True
  let ?d = "stride s"
  let ?P = "\<lambda>i t. ok t \<and> rest t = rest s \<and> (\<forall>j < cells s. view t j = (if a \<le> j + ?d \<and> j + ?d < i then view s (j + ?d) else view s j))"
  show ?thesis
  proof (rule runs_for [of ?P])
    show "?P a s" using assms(1) by auto
    fix i t assume i: "a \<le> i" "i < b" and P: "?P i t"
    have eq: "cells t = cells s" "stride t = ?d" using P cells_rest stride_rest by blast+
    have vi: "view t i = view s i" using P i assms(3,4) by simp
    have g: "get i t = Done (view s i)" "valid (view s i)" using get_ok [of t i] get_ok [of s i] P i assms eq vi by auto
    have "runs (\<lambda>u. ok u \<and> rest u = rest t \<and> (\<forall>j < cells t. view u j = (if j = i - ?d then view s i else view t j))) (put (view s i) (i - ?d) t)"
      by (rule put_ok) (use P i assms eq g in simp_all)
    then have "runs (?P (Suc i)) (put (view s i) (i - ?d) t)"
    proof (rule runs_mono)
      fix u assume u: "ok u \<and> rest u = rest t \<and> (\<forall>j < cells t. view u j = (if j = i - ?d then view s i else view t j))"
      have "j = i - ?d \<longleftrightarrow> j + ?d = i" for j using i(1) assms(2) by auto
      then show "?P (Suc i) u" using u P eq i by (auto simp: less_Suc_eq)
    qed
    then show "runs (?P (Suc i)) (bind_outcome (get i t) (\<lambda>c. put c (i - stride t) t))" using g eq by simp
  qed (rule True)
qed (use assms(1) in auto)

text \<open>And towards the end, the last cell first.\<close>
lemma copy_down:
  assumes "ok s" and "a \<le> b" and "0 < stride s" and "b + stride s \<le> cells s"
  shows "runs (\<lambda>t. ok t \<and> rest t = rest s \<and>
      (\<forall>j < cells s. view t j = (if a + stride s \<le> j \<and> j < b + stride s then view s (j - stride s) else view s j)))
    (for_outcome (rev [a..<b]) (\<lambda>i s. bind_outcome (get i s) (\<lambda>c. put c (i + stride s) s)) s)"
  using assms
proof (induction "b - a" arbitrary: b s)
  case (Suc n)
  then obtain i where b: "b = Suc i" "a \<le> i" by (cases b) auto
  let ?d = "stride s"
  have g: "get i s = Done (view s i)" "valid (view s i)" using get_ok [of s i] Suc.prems b by auto
  have "runs (\<lambda>u. ok u \<and> rest u = rest s \<and> (\<forall>j < cells s. view u j = (if j = i + ?d then view s i else view s j))) (put (view s i) (i + ?d) s)"
    by (rule put_ok) (use Suc.prems b g in simp_all)
  then have "runs (\<lambda>u. runs (\<lambda>t. ok t \<and> rest t = rest s \<and>
      (\<forall>j < cells s. view t j = (if a + ?d \<le> j \<and> j < b + ?d then view s (j - ?d) else view s j)))
    (for_outcome (rev [a..<i]) (\<lambda>i s. bind_outcome (get i s) (\<lambda>c. put c (i + stride s) s)) u)) (put (view s i) (i + ?d) s)"
  proof (rule runs_mono)
    fix u assume u: "ok u \<and> rest u = rest s \<and> (\<forall>j < cells s. view u j = (if j = i + ?d then view s i else view s j))"
    then have eq: "cells u = cells s" "stride u = ?d" using cells_rest stride_rest by blast+
    have "runs (\<lambda>t. ok t \<and> rest t = rest u \<and>
        (\<forall>j < cells u. view t j = (if a + stride u \<le> j \<and> j < i + stride u then view u (j - stride u) else view u j)))
      (for_outcome (rev [a..<i]) (\<lambda>i s. bind_outcome (get i s) (\<lambda>c. put c (i + stride s) s)) u)"
      by (rule Suc.hyps(1)) (use Suc.hyps(2) Suc.prems b u eq in simp_all)
    then show "runs (\<lambda>t. ok t \<and> rest t = rest s \<and>
        (\<forall>j < cells s. view t j = (if a + ?d \<le> j \<and> j < b + ?d then view s (j - ?d) else view s j)))
      (for_outcome (rev [a..<i]) (\<lambda>i s. bind_outcome (get i s) (\<lambda>c. put c (i + stride s) s)) u)"
    proof (rule runs_mono)
      fix t assume t: "ok t \<and> rest t = rest u \<and>
        (\<forall>j < cells u. view t j = (if a + stride u \<le> j \<and> j < i + stride u then view u (j - stride u) else view u j))"
      have "view t j = (if a + ?d \<le> j \<and> j < b + ?d then view s (j - ?d) else view s j)" if j: "j < cells s" for j
        using t u eq j b Suc.prems(3) by (cases "j = i + ?d") (auto simp: less_Suc_eq)
      then show "ok t \<and> rest t = rest s \<and> (\<forall>j < cells s. view t j = (if a + ?d \<le> j \<and> j < b + ?d then view s (j - ?d) else view s j))"
        using t u by simp
    qed
  qed
  then show ?case using b g by simp
qed auto

end

section \<open>The screen\<close>

definition cell_index :: "'a fbterm_context_scheme \<Rightarrow> fbterm_queue_item \<Rightarrow> nat" where
  "cell_index s q = q_y q * cols s + q_x q"

definition geometry :: "'a fbterm_context_scheme \<Rightarrow> bool" where
  "geometry s \<longleftrightarrow> 1 < rows s \<and> 0 < cols s \<and> rows s * cols s < 2 ^ 31 \<and>
     length (grid s) = rows s * cols s \<and> length (qmap s) = rows s * cols s \<and> length (queue s) = rows s * cols s"

text \<open>The map and the items in use point at each other.\<close>

definition queue_ok :: "'a fbterm_context_scheme \<Rightarrow> bool" where
  "queue_ok s \<longleftrightarrow> queue_i s \<le> rows s * cols s \<and>
     (\<forall>k < queue_i s. q_x (queue s ! k) < cols s \<and> q_y (queue s ! k) < rows s \<and> qmap s ! cell_index s (queue s ! k) = Some k) \<and>
     (\<forall>i < rows s * cols s. \<forall>k. qmap s ! i = Some k \<longrightarrow> k < queue_i s \<and> cell_index s (queue s ! k) = i)"

definition screen :: "'a fbterm_context_scheme \<Rightarrow> nat \<Rightarrow> fbterm_char" where
  "screen s i = (case qmap s ! i of None \<Rightarrow> grid s ! i | Some k \<Rightarrow> q_c (queue s ! k))"

definition glyph_ok :: "fbterm_char \<Rightarrow> bool" where
  "glyph_ok c \<longleftrightarrow> ch_c c < 256"

definition fb_ok :: "'a fbterm_context_scheme \<Rightarrow> bool" where
  "fb_ok s \<longleftrightarrow> geometry s \<and> queue_ok s \<and> (\<forall>i < rows s * cols s. glyph_ok (grid s ! i) \<and> glyph_ok (screen s i))"

text \<open>Everything but the queue.\<close>

definition off_screen :: "'a fbterm_context_scheme \<Rightarrow> 'a fbterm_context_scheme" where
  "off_screen s = s\<lparr>queue := [], queue_i := 0, qmap := []\<rparr>"

definition put_cell :: "fbterm_char \<Rightarrow> nat \<Rightarrow> 'a fbterm_context_scheme \<Rightarrow> 'a fbterm_context_scheme outcome" where
  "put_cell c i s = push_to_queue c (i mod cols s) (i div cols s) s"

lemma cell_bound: "y < r \<Longrightarrow> x < w \<Longrightarrow> y * w + x < r * (w :: nat)"
proof -
  assume "y < r" "x < w"
  then have "y * w + x < Suc y * w" by simp
  also have "\<dots> \<le> r * w" using \<open>y < r\<close> by (intro mult_le_mono1) simp
  finally show ?thesis .
qed

lemma cell_coordinates:
  assumes "i < rows s * cols s"
  shows "i mod cols s < cols s" "i div cols s < rows s" "i div cols s * cols s + i mod cols s = i"
proof -
  have "0 < cols s" using assms by (cases "cols s") auto
  then show "i mod cols s < cols s" by simp
  show "i div cols s < rows s" using assms by (simp add: less_mult_imp_div_less)
  show "i div cols s * cols s + i mod cols s = i" by simp
qed

lemma off_screen_fields:
  assumes "off_screen t = off_screen s"
  shows "rows t = rows s" "cols t = cols s" "grid t = grid s"
  using arg_cong [OF assms, of rows] arg_cong [OF assms, of cols] arg_cong [OF assms, of grid] by (simp_all add: off_screen_def)

text \<open>A cell without an item means a free place in the queue.\<close>
lemma queue_room:
  assumes "queue_ok s" and "i < rows s * cols s" and "qmap s ! i = None"
  shows "queue_i s < rows s * cols s"
proof (rule ccontr)
  assume "\<not> queue_i s < rows s * cols s"
  with assms(1) have n: "queue_i s = rows s * cols s" by (simp add: queue_ok_def)
  define f where "f k = cell_index s (queue s ! k)" for k
  have f: "f k < rows s * cols s" "qmap s ! f k = Some k" if "k < queue_i s" for k
    using assms(1) that cell_bound by (auto simp: queue_ok_def f_def cell_index_def)
  have "inj_on f {..<queue_i s}" by (intro inj_onI) (use f(2) in \<open>metis lessThan_iff option.inject\<close>)
  then have "card (f ` {..<queue_i s}) = rows s * cols s" by (simp add: card_image n)
  moreover have "f ` {..<queue_i s} \<subseteq> {..<rows s * cols s}" using f(1) by auto
  ultimately have "f ` {..<queue_i s} = {..<rows s * cols s}" by (intro card_subset_eq) simp_all
  then have "i \<in> f ` {..<queue_i s}" using assms(2) by simp
  then obtain k where "k < queue_i s" "f k = i" by auto
  with f(2) [of k] assms(3) show False by simp
qed

lemma compare_char_eq: "compare_char a b \<longleftrightarrow> a = b"
  by (cases a; cases b) (auto simp: compare_char_def)

text \<open>The three ways of \<open>push_to_queue\<close> on a cell of the screen.\<close>
lemma push_cases:
  assumes ok: "fb_ok s" and xy: "x < cols s" "y < rows s"
  defines "i \<equiv> y * cols s + x"
  obtains "qmap s ! i = None" "grid s ! i = c" "push_to_queue c x y s = Done s"
  | "qmap s ! i = None" "queue_i s < rows s * cols s"
    "push_to_queue c x y s = Done (s\<lparr>queue := (queue s)[queue_i s := \<lparr>q_x = x, q_y = y, q_c = c\<rparr>],
       queue_i := Suc (queue_i s), qmap := (qmap s)[i := Some (queue_i s)]\<rparr>)"
  | k where "qmap s ! i = Some k" "k < queue_i s"
    "push_to_queue c x y s = Done (s\<lparr>queue := (queue s)[k := (queue s ! k)\<lparr>q_c := c\<rparr>]\<rparr>)"
proof -
  have i: "i < rows s * cols s" unfolding i_def by (rule cell_bound [OF xy(2,1)])
  have g: "geometry s" "queue_ok s" using ok by (simp_all add: fb_ok_def)
  have len: "length (qmap s) = rows s * cols s" "length (grid s) = rows s * cols s" "length (queue s) = rows s * cols s"
    using g(1) by (simp_all add: geometry_def)
  have qi: "queue_i s \<le> rows s * cols s" using g(2) by (simp add: queue_ok_def)
  show thesis
  proof (cases "qmap s ! i")
    case None
    note room = queue_room [OF g(2) i None]
    show thesis
    proof (cases "grid s ! i = c")
      case True
      show thesis by (rule that(1)) (use None True xy i len in \<open>simp_all add: push_to_queue_def compare_char_eq flip: i_def\<close>)
    next
      case False
      show thesis by (rule that(2)) (use None False xy i len room in \<open>simp_all add: push_to_queue_def compare_char_eq flip: i_def\<close>)
    qed
  next
    case (Some k)
    have k: "k < queue_i s" using g(2) i Some by (simp add: queue_ok_def)
    show thesis by (rule that(3) [OF Some k]) (use Some xy i len k qi in \<open>simp add: push_to_queue_def flip: i_def\<close>)
  qed
qed

lemma fb_okD:
  assumes "fb_ok s"
  shows "length (qmap s) = rows s * cols s" "length (grid s) = rows s * cols s" "length (queue s) = rows s * cols s"
    "queue_i s \<le> rows s * cols s"
    "k < queue_i s \<Longrightarrow> q_x (queue s ! k) < cols s \<and> q_y (queue s ! k) < rows s \<and> qmap s ! cell_index s (queue s ! k) = Some k"
    "j < rows s * cols s \<Longrightarrow> qmap s ! j = Some k \<Longrightarrow> k < queue_i s \<and> cell_index s (queue s ! k) = j"
    "j < rows s * cols s \<Longrightarrow> glyph_ok (grid s ! j) \<and> glyph_ok (screen s j)"
    "1 < rows s" "0 < cols s" "rows s * cols s < 2 ^ 31"
  using assms by (simp_all add: fb_ok_def geometry_def queue_ok_def)

lemma push_fresh:
  assumes ok: "fb_ok s" and xy: "x < cols s" "y < rows s" and c: "glyph_ok c"
    and a: "qmap s ! (y * cols s + x) = None" "queue_i s < rows s * cols s"
  defines "t \<equiv> s\<lparr>queue := (queue s)[queue_i s := \<lparr>q_x = x, q_y = y, q_c = c\<rparr>], queue_i := Suc (queue_i s),
    qmap := (qmap s)[y * cols s + x := Some (queue_i s)]\<rparr>"
  shows "fb_ok t \<and> off_screen t = off_screen s \<and> (\<forall>j < rows s * cols s. screen t j = (if j = y * cols s + x then c else screen s j))"
proof -
  define i where "i = y * cols s + x"
  have i: "i < rows s * cols s" unfolding i_def by (rule cell_bound [OF xy(2,1)])
  note q = fb_okD [OF ok]
  note q1 = q(5) and q2 = q(6) and qi = q(4) and len = q(1-3) and gl = q(7)
  have g: "geometry s" using ok by (simp add: fb_ok_def)
  have f: "rows t = rows s" "cols t = cols s" "queue_i t = Suc (queue_i s)" "grid t = grid s" by (simp_all add: t_def)
  have qm: "qmap t ! j = (if j = i then Some (queue_i s) else qmap s ! j)" if "j < rows s * cols s" for j
    using that len i by (simp add: t_def i_def nth_list_update)
  have qq: "queue t ! k = (if k = queue_i s then \<lparr>q_x = x, q_y = y, q_c = c\<rparr> else queue s ! k)" if "k < rows s * cols s" for k
    using that len a(2) by (simp add: t_def nth_list_update)
  have sc: "screen t j = (if j = i then c else screen s j)" if "j < rows s * cols s" for j
  proof (cases "qmap s ! j")
    case (Some k)
    with q2 [OF that Some] a(1,2) that show ?thesis by (simp add: screen_def qm qq i_def f)
  qed (use that a(2) in \<open>simp add: screen_def qm qq f\<close>)
  have "queue_ok t" unfolding queue_ok_def f
  proof (intro conjI allI impI)
    show "Suc (queue_i s) \<le> rows s * cols s" using a(2) by simp
    fix k assume k: "k < Suc (queue_i s)"
    have kn: "k < rows s * cols s" using k a(2) by simp
    show "q_x (queue t ! k) < cols s" "q_y (queue t ! k) < rows s" using k q1 xy kn by (auto simp: qq less_Suc_eq)
    show "qmap t ! cell_index t (queue t ! k) = Some k"
    proof (cases "k = queue_i s")
      case True
      then show ?thesis using qm [OF i] kn by (simp add: qq cell_index_def f i_def)
    next
      case False
      with k have "k < queue_i s" by simp
      note q = q1 [OF this]
      have "cell_index s (queue s ! k) < rows s * cols s" unfolding cell_index_def using q cell_bound by blast
      with q False kn a(1) show ?thesis by (auto simp: qq cell_index_def f qm i_def)
    qed
  next
    fix j k assume j: "j < rows s * cols s" "qmap t ! j = Some k"
    show "k < Suc (queue_i s)" "cell_index t (queue t ! k) = j"
      using j q2 [OF j(1), of k] a(2) by (auto simp: qm qq cell_index_def f i_def split: if_splits)
  qed
  moreover have "geometry t" using g by (simp add: geometry_def t_def)
  ultimately have "fb_ok t" using gl sc c by (simp add: fb_ok_def f)
  moreover have "off_screen t = off_screen s" by (simp add: off_screen_def t_def)
  ultimately show ?thesis using sc by (simp add: i_def)
qed

lemma push_again:
  assumes ok: "fb_ok s" and xy: "x < cols s" "y < rows s" and c: "glyph_ok c"
    and a: "qmap s ! (y * cols s + x) = Some k" "k < queue_i s"
  defines "t \<equiv> s\<lparr>queue := (queue s)[k := (queue s ! k)\<lparr>q_c := c\<rparr>]\<rparr>"
  shows "fb_ok t \<and> off_screen t = off_screen s \<and> (\<forall>j < rows s * cols s. screen t j = (if j = y * cols s + x then c else screen s j))"
proof -
  define i where "i = y * cols s + x"
  have i: "i < rows s * cols s" unfolding i_def by (rule cell_bound [OF xy(2,1)])
  note q = fb_okD [OF ok]
  note q1 = q(5) and q2 = q(6) and qi = q(4) and len = q(1-3) and gl = q(7)
  have g: "geometry s" using ok by (simp add: fb_ok_def)
  have f: "rows t = rows s" "cols t = cols s" "queue_i t = queue_i s" "grid t = grid s" "qmap t = qmap s" by (simp_all add: t_def)
  have qq: "queue t ! l = (if l = k then (queue s ! k)\<lparr>q_c := c\<rparr> else queue s ! l)" if "l < rows s * cols s" for l
    using that len a(2) qi by (simp add: t_def nth_list_update)
  have ci: "cell_index t (queue t ! l) = cell_index s (queue s ! l)" if "l < rows s * cols s" for l
    using that by (simp add: cell_index_def qq f)
  have sc: "screen t j = (if j = i then c else screen s j)" if "j < rows s * cols s" for j
  proof (cases "qmap s ! j")
    case None
    then show ?thesis using a(1) by (auto simp: screen_def f i_def)
  next
    case (Some l)
    have "j = i" if "l = k" using q2 [OF \<open>j < rows s * cols s\<close> Some] q2 [OF i] a(1) that by (simp add: i_def)
    with Some q2 [OF that Some] a(1,2) qi show ?thesis by (auto simp: screen_def f qq i_def)
  qed
  have qxy: "q_x (queue t ! l) = q_x (queue s ! l)" "q_y (queue t ! l) = q_y (queue s ! l)" if "l < rows s * cols s" for l
    using that by (simp_all add: qq)
  have "queue_ok t" unfolding queue_ok_def f
  proof (intro conjI allI impI)
    fix l assume "l < queue_i s"
    then have l: "l < rows s * cols s" "l < queue_i s" using qi by simp_all
    show "q_x (queue t ! l) < cols s" "q_y (queue t ! l) < rows s" "qmap s ! cell_index t (queue t ! l) = Some l"
      using q1 [OF l(2)] by (simp_all add: qxy [OF l(1)] ci [OF l(1)])
  next
    fix j l assume j: "j < rows s * cols s" "qmap s ! j = Some l"
    from q2 [OF this] qi have l: "l < rows s * cols s" "l < queue_i s" "cell_index s (queue s ! l) = j" by simp_all
    then show "l < queue_i s" "cell_index t (queue t ! l) = j" by (simp_all add: ci [OF l(1)])
  qed (rule qi)
  moreover have "geometry t" using g by (simp add: geometry_def t_def)
  ultimately have "fb_ok t" using gl sc c by (simp add: fb_ok_def f)
  moreover have "off_screen t = off_screen s" by (simp add: off_screen_def t_def)
  ultimately show ?thesis using sc by (simp add: i_def)
qed

lemma push_ok:
  assumes ok: "fb_ok s" and xy: "x < cols s" "y < rows s" and c: "glyph_ok c"
  shows "runs (\<lambda>t. fb_ok t \<and> off_screen t = off_screen s \<and>
    (\<forall>j < rows s * cols s. screen t j = (if j = y * cols s + x then c else screen s j))) (push_to_queue c x y s)"
proof (rule push_cases [OF ok xy, of c])
  assume "qmap s ! (y * cols s + x) = None" "grid s ! (y * cols s + x) = c" "push_to_queue c x y s = Done s"
  then show ?thesis using ok by (auto simp: screen_def)
qed (use push_fresh [OF ok xy c] push_again [OF ok xy c] in simp_all)

lemma cell_char_ok: "fb_ok s \<Longrightarrow> i < rows s * cols s \<Longrightarrow> cell_char i s = Done (screen s i)"
proof -
  assume a: "fb_ok s" "i < rows s * cols s"
  then have "length (qmap s) = rows s * cols s" "length (grid s) = rows s * cols s" "length (queue s) = rows s * cols s"
    "queue_i s \<le> rows s * cols s" "\<And>k. qmap s ! i = Some k \<Longrightarrow> k < queue_i s"
    by (simp_all add: fb_ok_def geometry_def queue_ok_def)
  with a(2) show ?thesis by (cases "qmap s ! i") (simp_all add: cell_char_def screen_def)
qed

interpretation scr: cell_store cell_char put_cell fb_ok "\<lambda>s. rows s * cols s" cols screen off_screen glyph_ok
proof unfold_locales
  fix s :: "'a fbterm_context_scheme" and i
  assume "fb_ok s" "i < rows s * cols s"
  then show "cell_char i s = Done (screen s i) \<and> glyph_ok (screen s i)" by (simp add: cell_char_ok) (simp add: fb_ok_def)
next
  fix s :: "'a fbterm_context_scheme" and i c
  assume a: "fb_ok s" "i < rows s * cols s" "glyph_ok c"
  note xy = cell_coordinates [OF a(2)]
  show "runs (\<lambda>t. fb_ok t \<and> off_screen t = off_screen s \<and> (\<forall>j < rows s * cols s. screen t j = (if j = i then c else screen s j))) (put_cell c i s)"
    using push_ok [OF a(1) xy(1,2) a(3)] xy(3) by (simp add: put_cell_def)
next
  fix s t :: "'a fbterm_context_scheme" assume "off_screen t = off_screen s"
  note f = off_screen_fields [OF this]
  show "rows t * cols t = rows s * cols s" "cols t = cols s" using f by simp_all
qed

section \<open>Loops that count down\<close>
lemma countdown_loop:
  assumes "L \<le> i" and "i < 2 ^ 64" and "i - L < n" and "P s"
    and step: "\<And>i s t. P s \<Longrightarrow> body i s = Done t \<Longrightarrow> P t \<and> lo t = L"
  shows "while_outcome n (\<lambda>(i, stop, s). \<not> stop)
      (\<lambda>(i, _, s). bind_outcome (body i s) (\<lambda>s. if i = lo s then Done (i, True, s) else Done (sub64 i 1, False, s))) (i, False, s) =
    bind_outcome (for_outcome (rev [L..<Suc i]) body s) (\<lambda>s. if n = Suc (i - L) then Diverge else Done (L, True, s))"
  using assms(1-4)
proof (induction "i - L" arbitrary: i n s)
  case 0
  then obtain m where n: "n = Suc m" by (cases n) auto
  have "i = L" using 0 by simp
  then show ?case using step [OF \<open>P s\<close>, of L] n by (cases "body L s"; cases m) auto
next
  case (Suc d)
  then obtain m where n: "n = Suc m" by (cases n) auto
  obtain j where j: "i = Suc j" "L \<le> j" using Suc.hyps(2) by (cases i) auto
  show ?case
  proof (cases "body i s")
    case (Done t)
    note t = step [OF Suc.prems(4) Done]
    have sub: "sub64 i 1 = j" using j Suc.prems(2) by simp
    have "while_outcome m (\<lambda>(i, stop, s). \<not> stop)
        (\<lambda>(i, _, s). bind_outcome (body i s) (\<lambda>s. if i = lo s then Done (i, True, s) else Done (sub64 i 1, False, s))) (j, False, t) =
      bind_outcome (for_outcome (rev [L..<Suc j]) body t) (\<lambda>s. if m = Suc (j - L) then Diverge else Done (L, True, s))"
      by (rule Suc.hyps(1)) (use Suc.hyps(2) Suc.prems j n t in auto)
    moreover have "Suc j - L = Suc (j - L)" using j by simp
    ultimately show ?thesis using n j sub t Done by simp
  qed (use n j in simp_all)
qed

lemma push_frame: "push_to_queue c x y s = Done t \<Longrightarrow> off_screen t = off_screen s"
proof -
  assume "push_to_queue c x y s = Done t"
  then obtain q n m where "t = s\<lparr>queue := q, queue_i := n, qmap := m\<rparr>"
  proof (cases "x \<ge> cols s \<or> y \<ge> rows s")
    case True
    with \<open>push_to_queue c x y s = Done t\<close> that [where q = "queue s" and n = "queue_i s" and m = "qmap s"] show thesis by (simp add: push_to_queue_def)
  next
    case False
    then obtain p where p: "array_at (qmap s) (y * cols s + x) = Done p"
      using \<open>push_to_queue c x y s = Done t\<close> by (auto simp: push_to_queue_def Let_def outcome_simps)
    show thesis
    proof (cases p)
      case None
      with False p \<open>push_to_queue c x y s = Done t\<close> that [where q = "queue s" and n = "queue_i s" and m = "qmap s"] that show thesis
        by (auto simp: push_to_queue_def Let_def outcome_simps split: if_splits)
    next
      case (Some k)
      with False p \<open>push_to_queue c x y s = Done t\<close> that [where n = "queue_i s" and m = "qmap s"] show thesis
        by (auto simp: push_to_queue_def Let_def outcome_simps)
    qed
  qed
  then show ?thesis by (simp add: off_screen_def)
qed

lemma glyph_ok_empty [simp]: "glyph_ok (empty_char s)"
  by (simp add: glyph_ok_def empty_char_def)

lemma off_screen_same:
  assumes "off_screen t = off_screen s"
  shows "t = s\<lparr>queue := queue t, queue_i := queue_i t, qmap := qmap t\<rparr>"
proof -
  have "t = (off_screen t)\<lparr>queue := queue t, queue_i := queue_i t, qmap := qmap t\<rparr>" by (simp add: off_screen_def)
  also have "\<dots> = s\<lparr>queue := queue t, queue_i := queue_i t, qmap := qmap t\<rparr>" unfolding assms by (simp add: off_screen_def)
  finally show ?thesis .
qed

section \<open>Scrolling\<close>

text \<open>The cells of rows \<open>top\<close> up to \<open>bottom\<close> move up or down by one row, and the row left free is blank.\<close>

definition scrolled_up :: "'a fbterm_context_scheme \<Rightarrow> nat \<Rightarrow> fbterm_char" where
  "scrolled_up s i =
     (if scroll_top_margin s * cols s \<le> i \<and> i < (scroll_bottom_margin s - 1) * cols s then screen s (i + cols s)
      else if (scroll_bottom_margin s - 1) * cols s \<le> i \<and> i < scroll_bottom_margin s * cols s then empty_char s
      else screen s i)"

definition scrolled_down :: "'a fbterm_context_scheme \<Rightarrow> nat \<Rightarrow> fbterm_char" where
  "scrolled_down s i =
     (if (scroll_top_margin s + 1) * cols s \<le> i \<and> i < scroll_bottom_margin s * cols s then screen s (i - cols s)
      else if scroll_top_margin s * cols s \<le> i \<and> i < (scroll_top_margin s + 1) * cols s then empty_char s
      else screen s i)"

definition shows_after :: "('a fbterm_context_scheme \<Rightarrow> nat \<Rightarrow> fbterm_char) \<Rightarrow> 'a fbterm_context_scheme \<Rightarrow> 'a fbterm_context_scheme \<Rightarrow> bool" where
  "shows_after f s t \<longleftrightarrow> fb_ok t \<and> off_screen t = off_screen s \<and> (\<forall>j < rows s * cols s. screen t j = f s j)"

lemma region_cells:
  assumes "fb_ok s" and "b \<le> rows s"
  shows "b * cols s \<le> rows s * cols s" "b * cols s < 2 ^ 31"
proof -
  show "b * cols s \<le> rows s * cols s" by (rule mult_le_mono1 [OF assms(2)])
  then show "b * cols s < 2 ^ 31" using fb_okD(10) [OF assms(1)] by linarith
qed

lemma fbterm_scroll_ok:
  assumes ok: "fb_ok s" and r: "scroll_top_margin s < scroll_bottom_margin s" "scroll_bottom_margin s \<le> rows s"
  shows "runs (shows_after scrolled_up s) (fbterm_scroll s)"
proof -
  let ?w = "cols s" and ?t = "scroll_top_margin s" and ?b = "scroll_bottom_margin s"
  have w: "0 < ?w" by (rule fb_okD(9) [OF ok])
  note rc = region_cells [OF ok r(2)]
  have "?b \<le> ?b * ?w" using w by simp
  also have "?b * ?w < 2 ^ 64" using rc(2) by simp
  finally have "?b < 2 ^ 64" .
  then have b: "sub64 ?b 1 = ?b - 1" using r(1) by (intro sub64_small) simp_all
  have bw: "(?b - 1) * ?w \<le> ?b * ?w" by (rule mult_le_mono1) simp
  have "(?b - 1) * ?w \<le> ?b * ?w" by (rule bw)
  also note \<open>?b * ?w < 2 ^ 64\<close>
  finally have m: "mul64 (?b - 1) ?w = (?b - 1) * ?w" by (rule mul64_small)
  have "runs (\<lambda>u. fb_ok u \<and> off_screen u = off_screen s \<and>
      (\<forall>j < rows s * ?w. screen u j = (if (?t + 1) * ?w \<le> j + ?w \<and> j + ?w < ?b * ?w then screen s (j + ?w) else screen s j)))
    (for_outcome [(?t + 1) * ?w..<?b * ?w] (\<lambda>i s. bind_outcome (cell_char i s) (\<lambda>c. put_cell c (i - cols s) s)) s)"
    by (rule scr.copy_up [OF ok]) (use w rc in simp_all)
  then have "runs (\<lambda>u. runs (shows_after scrolled_up s)
      (let empty = empty_char u in for_outcome [mul64 (sub64 (scroll_bottom_margin u) 1) (cols u)..<scroll_bottom_margin u * cols u] (\<lambda>i. put_cell empty i) u))
    (for_outcome [(?t + 1) * ?w..<?b * ?w] (\<lambda>i s. bind_outcome (cell_char i s) (\<lambda>c. put_cell c (i - cols s) s)) s)"
  proof (rule runs_mono)
    fix u assume u: "fb_ok u \<and> off_screen u = off_screen s \<and>
      (\<forall>j < rows s * ?w. screen u j = (if (?t + 1) * ?w \<le> j + ?w \<and> j + ?w < ?b * ?w then screen s (j + ?w) else screen s j))"
    then have us: "u = s\<lparr>queue := queue u, queue_i := queue_i u, qmap := qmap u\<rparr>" by (intro off_screen_same) simp
    have f: "cols u = ?w" "rows u = rows s" "scroll_bottom_margin u = ?b" "empty_char u = empty_char s"
      by (subst us, simp add: empty_char_def)+
    have "runs (\<lambda>v. fb_ok v \<and> off_screen v = off_screen u \<and>
        (\<forall>j < rows u * cols u. screen v j = (if (?b - 1) * ?w \<le> j \<and> j < ?b * ?w then empty_char s else screen u j)))
      (for_outcome [(?b - 1) * ?w..<?b * ?w] (\<lambda>i. put_cell (empty_char s) i) u)"
      by (rule scr.fill) (use u bw rc f in simp_all)
    then have "runs (shows_after scrolled_up s) (for_outcome [(?b - 1) * ?w..<?b * ?w] (\<lambda>i. put_cell (empty_char s) i) u)"
    proof (rule runs_mono)
      fix v assume v: "fb_ok v \<and> off_screen v = off_screen u \<and>
        (\<forall>j < rows u * cols u. screen v j = (if (?b - 1) * ?w \<le> j \<and> j < ?b * ?w then empty_char s else screen u j))"
      have "j + ?w < ?b * ?w \<longleftrightarrow> j < (?b - 1) * ?w" "(?t + 1) * ?w \<le> j + ?w \<longleftrightarrow> ?t * ?w \<le> j" for j
        using r(1) by (auto simp: diff_mult_distrib)
      then show "shows_after scrolled_up s v" using u v f by (auto simp: shows_after_def scrolled_up_def)
    qed
    then show "runs (shows_after scrolled_up s)
      (let empty = empty_char u in for_outcome [mul64 (sub64 (scroll_bottom_margin u) 1) (cols u)..<scroll_bottom_margin u * cols u] (\<lambda>i. put_cell empty i) u)"
      using f b m by simp
  qed
  then show ?thesis unfolding fbterm_scroll_def runs_bind put_cell_def .
qed

lemma for_outcome_eq:
  assumes "P s" and "\<And>i s. i \<in> set is \<Longrightarrow> P s \<Longrightarrow> f i s = g i s" and "\<And>i s t. P s \<Longrightarrow> g i s = Done t \<Longrightarrow> P t"
  shows "for_outcome is f s = for_outcome is g s"
  using assms(1,2)
proof (induction "is" arbitrary: s)
  case (Cons i "is")
  have "f i s = g i s" using Cons.prems by simp
  then show ?case using Cons assms(3) by (cases "g i s") auto
qed simp

lemma get_put_frame: "bind_outcome (cell_char i s) (\<lambda>c. put_cell c j s) = Done t \<Longrightarrow> off_screen t = off_screen s"
  by (auto simp: outcome_simps put_cell_def intro: push_frame)

lemma off_screen_field: "off_screen t = off_screen s \<Longrightarrow> (\<And>u. g (off_screen u) = g u) \<Longrightarrow> g t = g s"
  by metis

text \<open>The loop of \<open>fbterm_revscroll\<close> is a walk from the end of the region to its start.\<close>
lemma revscroll_loop:
  assumes small: "Suc i + cols s \<le> rows s * cols s" "rows s * cols s < 2 ^ 31" and t: "scroll_top_margin s * cols s \<le> i" and len: "length (qmap s) = rows s * cols s"
  shows "while_outcome (length (qmap s) + 2) (\<lambda>(i, stop, s). \<not> stop) (\<lambda>(i, _, s).
      bind_outcome (cell_char i s) (\<lambda>c.
      bind_outcome (push_to_queue c (add64 i (cols s) mod cols s) (add64 i (cols s) div cols s) s) (\<lambda>s.
      if i = mul64 (scroll_top_margin s) (cols s) then Done (i, True, s) else Done (sub64 i 1, False, s)))) (i, False, s) =
    bind_outcome (for_outcome (rev [scroll_top_margin s * cols s..<Suc i]) (\<lambda>i s. bind_outcome (cell_char i s) (\<lambda>c. put_cell c (i + cols s) s)) s)
      (\<lambda>u. Done (scroll_top_margin s * cols s, True, u))"
proof -
  let ?w = "cols s" and ?t = "scroll_top_margin s"
  let ?body = "\<lambda>i s. bind_outcome (cell_char i s) (\<lambda>c. put_cell c (add64 i (cols s)) s)"
  let ?P = "\<lambda>u. off_screen u = off_screen s"
  have f: "cols u = ?w" "scroll_top_margin u = ?t" if "?P u" for u
    by (rule off_screen_field [OF that]; simp add: off_screen_def)+
  have m: "mul64 ?t ?w = ?t * ?w" using t small by (intro mul64_small) simp
  have "while_outcome (length (qmap s) + 2) (\<lambda>(i, stop, s). \<not> stop)
      (\<lambda>(i, _, s). bind_outcome (?body i s) (\<lambda>s. if i = mul64 (scroll_top_margin s) (cols s) then Done (i, True, s) else Done (sub64 i 1, False, s))) (i, False, s) =
    bind_outcome (for_outcome (rev [?t * ?w..<Suc i]) ?body s) (\<lambda>u. if length (qmap s) + 2 = Suc (i - ?t * ?w) then Diverge else Done (?t * ?w, True, u))"
  proof (rule countdown_loop [where P = ?P])
    fix j u v assume u: "?P u" and v: "?body j u = Done v"
    have "?P v" using get_put_frame [OF v] u by simp
    then show "?P v \<and> mul64 (scroll_top_margin v) (cols v) = ?t * ?w" using f [of v] m by simp
  qed (use t len small in simp_all)
  also have "(\<lambda>u. if length (qmap s) + 2 = Suc (i - ?t * ?w) then Diverge else Done (?t * ?w, True, u)) = (\<lambda>u. Done (?t * ?w, True, u))"
    using len small by auto
  also have "for_outcome (rev [?t * ?w..<Suc i]) ?body s =
      for_outcome (rev [?t * ?w..<Suc i]) (\<lambda>i s. bind_outcome (cell_char i s) (\<lambda>c. put_cell c (i + cols s) s)) s"
  proof (rule for_outcome_eq [where P = ?P])
    fix j u assume j: "j \<in> set (rev [?t * ?w..<Suc i])" and u: "?P u"
    then have "add64 j (cols u) = j + cols u" using f(1) [OF u] small by (intro add64_small) (auto simp del: upt_Suc)
    then show "?body j u = bind_outcome (cell_char j u) (\<lambda>c. put_cell c (j + cols u) u)" by simp
  next
    fix j u v assume "?P u" and v: "bind_outcome (cell_char j u) (\<lambda>c. put_cell c (j + cols u) u) = Done v"
    then show "?P v" using get_put_frame [OF v] by simp
  qed simp
  finally show ?thesis by (simp only: put_cell_def bind_outcome_assoc)
qed

lemma fbterm_revscroll_ok:
  assumes ok: "fb_ok s" and r: "scroll_top_margin s + 1 < scroll_bottom_margin s" "scroll_bottom_margin s \<le> rows s"
  shows "runs (shows_after scrolled_down s) (fbterm_revscroll s)"
proof -
  let ?w = "cols s" and ?t = "scroll_top_margin s" and ?b = "scroll_bottom_margin s"
  have w: "0 < ?w" by (rule fb_okD(9) [OF ok])
  note rc = region_cells [OF ok r(2)]
  obtain e where e: "?b = ?t + 2 + e" using less_imp_Suc_add [OF r(1)] by auto
  define i where "i = (?t + 1 + e) * ?w - 1"
  have i: "Suc i = (?t + 1 + e) * ?w" "?t * ?w \<le> i" "Suc i + ?w = ?b * ?w" using w by (auto simp: i_def e algebra_simps)
  have "?b \<le> ?b * ?w" using w by simp
  also have "?b * ?w < 2 ^ 64" using rc(2) by simp
  finally have b: "sub64 ?b 1 = ?t + 1 + e" using e by simp
  have "Suc i + ?w < 2 ^ 64" using i(3) rc(2) by simp
  then have start: "sub64 (mul64 (sub64 ?b 1) ?w) 1 = i" unfolding b using i by (simp add: mul64_small flip: i(1))
  have tw: "(?t + 1) * ?w \<le> rows s * ?w" using r by (intro mult_le_mono1) simp
  have "runs (\<lambda>u. fb_ok u \<and> off_screen u = off_screen s \<and>
      (\<forall>j < rows s * ?w. screen u j = (if ?t * ?w + ?w \<le> j \<and> j < Suc i + ?w then screen s (j - ?w) else screen s j)))
    (for_outcome (rev [?t * ?w..<Suc i]) (\<lambda>i s. bind_outcome (cell_char i s) (\<lambda>c. put_cell c (i + cols s) s)) s)"
    by (rule scr.copy_down [OF ok]) (use i rc w in simp_all)
  then have all: "runs (\<lambda>u. runs (shows_after scrolled_down s) (let empty = empty_char u in
      for_outcome [scroll_top_margin u * cols u..<(scroll_top_margin u + 1) * cols u] (\<lambda>i. put_cell empty i) u))
    (for_outcome (rev [?t * ?w..<Suc i]) (\<lambda>i s. bind_outcome (cell_char i s) (\<lambda>c. put_cell c (i + cols s) s)) s)"
  proof (rule runs_mono)
    fix u assume u: "fb_ok u \<and> off_screen u = off_screen s \<and>
      (\<forall>j < rows s * ?w. screen u j = (if ?t * ?w + ?w \<le> j \<and> j < Suc i + ?w then screen s (j - ?w) else screen s j))"
    have f: "cols u = ?w" "rows u = rows s" "scroll_top_margin u = ?t" "empty_char u = empty_char s"
      by (rule off_screen_field [OF conjunct1 [OF conjunct2 [OF u]]]; simp add: off_screen_def empty_char_def)+
    have "runs (\<lambda>v. fb_ok v \<and> off_screen v = off_screen u \<and>
        (\<forall>j < rows u * cols u. screen v j = (if ?t * ?w \<le> j \<and> j < (?t + 1) * ?w then empty_char s else screen u j)))
      (for_outcome [?t * ?w..<(?t + 1) * ?w] (\<lambda>i. put_cell (empty_char s) i) u)"
      by (rule scr.fill) (use u f tw in simp_all)
    then have "runs (shows_after scrolled_down s) (for_outcome [?t * ?w..<(?t + 1) * ?w] (\<lambda>i. put_cell (empty_char s) i) u)"
      by (rule runs_mono) (use u f i in \<open>auto simp: shows_after_def scrolled_down_def\<close>)
    then show "runs (shows_after scrolled_down s) (let empty = empty_char u in
      for_outcome [scroll_top_margin u * cols u..<(scroll_top_margin u + 1) * cols u] (\<lambda>i. put_cell empty i) u)" using f by simp
  qed
  have "Suc i + ?w \<le> rows s * ?w" using i(3) rc(1) by simp
  note loop = revscroll_loop [OF this fb_okD(10) [OF ok] i(2) fb_okD(1) [OF ok]]
  show ?thesis unfolding fbterm_revscroll_def start loop runs_bind runs.simps prod.case put_cell_def by (rule all [unfolded put_cell_def])
qed

section \<open>Clearing and moving\<close>
lemma fbterm_clear_ok:
  assumes ok: "fb_ok s"
  shows "runs (\<lambda>t. \<exists>u. shows_after (\<lambda>s _. empty_char s) s u \<and> t = (if move then u\<lparr>cursor_x := 0, cursor_y := 0\<rparr> else u)) (fbterm_clear move s)"
proof -
  have "runs (\<lambda>u. fb_ok u \<and> off_screen u = off_screen s \<and> (\<forall>j < rows s * cols s. screen u j = (if 0 \<le> j \<and> j < rows s * cols s then empty_char s else screen s j)))
    (for_outcome [0..<rows s * cols s] (\<lambda>i. put_cell (empty_char s) i) s)"
    by (rule scr.fill) (use ok in simp_all)
  then have "runs (shows_after (\<lambda>s _. empty_char s) s) (for_outcome [0..<rows s * cols s] (\<lambda>i. put_cell (empty_char s) i) s)"
    by (rule runs_mono) (simp add: shows_after_def)
  then show ?thesis unfolding fbterm_clear_def Let_def runs_bind put_cell_def by (rule runs_mono) auto
qed

text \<open>Off the screen, pushing does nothing.\<close>
lemma push_any:
  assumes ok: "fb_ok s" and c: "glyph_ok c"
  shows "runs (\<lambda>t. fb_ok t \<and> off_screen t = off_screen s) (push_to_queue c x y s)"
proof (cases "x < cols s \<and> y < rows s")
  case True
  then show ?thesis by (intro runs_mono [OF push_ok [OF ok _ _ c]]) auto
qed (use ok in \<open>auto simp: push_to_queue_def\<close>)

lemma fbterm_move_character_ok:
  assumes ok: "fb_ok s"
  shows "runs (\<lambda>t. fb_ok t \<and> off_screen t = off_screen s) (fbterm_move_character nx ny x y s)"
proof (cases "x \<ge> cols s \<or> y \<ge> rows s \<or> nx \<ge> cols s \<or> ny \<ge> rows s")
  case True
  then show ?thesis using ok by (simp add: fbterm_move_character_def)
next
  case False
  have i: "x + y * cols s < rows s * cols s" using cell_bound [of y "rows s" x "cols s"] False by (simp add: add.commute)
  show ?thesis
    using False cell_char_ok [OF ok i] push_any [OF ok conjunct2 [OF fb_okD(7) [OF ok i]]] by (simp add: fbterm_move_character_def)
qed

section \<open>Writing at the cursor\<close>

text \<open>The screen and the cursor apart.\<close>

definition off_cursor :: "'a fbterm_context_scheme \<Rightarrow> 'a fbterm_context_scheme" where
  "off_cursor s = (off_screen s)\<lparr>cursor_x := 0, cursor_y := 0\<rparr>"

lemma off_cursor_field: "off_cursor t = off_cursor s \<Longrightarrow> (\<And>u. g (off_cursor u) = g u) \<Longrightarrow> g t = g s"
  by metis

text \<open>The scrolling region ends with the screen.\<close>

definition region_ok :: "'a fbterm_context_scheme \<Rightarrow> bool" where
  "region_ok s \<longleftrightarrow> scroll_bottom_margin s = rows s \<and> scroll_top_margin s + 1 < rows s"

text \<open>Only six fields matter to the cells.\<close>

definition cell_part :: "'a fbterm_context_scheme \<Rightarrow> nat \<times> nat \<times> fbterm_char list \<times> fbterm_queue_item list \<times> nat \<times> nat option list" where
  "cell_part s = (rows s, cols s, grid s, queue s, queue_i s, qmap s)"

lemma screen_cong: "cell_part t = cell_part s \<Longrightarrow> screen t = screen s"
  by (auto simp: cell_part_def fun_eq_iff screen_def split: option.split)

lemma fb_ok_cong: "cell_part t = cell_part s \<Longrightarrow> fb_ok t = fb_ok s"
  using screen_cong [of t s] by (simp add: fb_ok_def geometry_def queue_ok_def cell_index_def cell_part_def)

lemma cell_part_simps [simp]:
  "cell_part (s\<lparr>cursor_x := n\<rparr>) = cell_part s" "cell_part (s\<lparr>cursor_y := n\<rparr>) = cell_part s"
  "cell_part (s\<lparr>text_fg := v\<rparr>) = cell_part s" "cell_part (s\<lparr>text_bg := v\<rparr>) = cell_part s"
  "cell_part (s\<lparr>framebuffer := fb\<rparr>) = cell_part s"
  by (simp_all add: cell_part_def)

lemma fb_ok_cursor [simp]: "fb_ok (s\<lparr>cursor_x := n\<rparr>) = fb_ok s" "fb_ok (s\<lparr>cursor_y := n\<rparr>) = fb_ok s"
  by (rule fb_ok_cong; simp)+

lemma screen_cursor [simp]: "screen (s\<lparr>cursor_x := n\<rparr>) = screen s" "screen (s\<lparr>cursor_y := n\<rparr>) = screen s"
  by (rule screen_cong; simp)+

lemma off_cursor_simps [simp]:
  "off_cursor (s\<lparr>cursor_x := x\<rparr>) = off_cursor s" "off_cursor (s\<lparr>cursor_y := y\<rparr>) = off_cursor s"
  by (simp_all add: off_cursor_def off_screen_def)

lemma off_screen_off_cursor: "off_screen t = off_screen s \<Longrightarrow> off_cursor t = off_cursor s"
  by (simp add: off_cursor_def)

lemma rows_less: "fb_ok s \<Longrightarrow> rows s < 2 ^ 31 \<and> cols s < 2 ^ 31"
proof -
  assume "fb_ok s"
  note f = fb_okD(8-10) [OF this]
  then have "rows s \<le> rows s * cols s" "cols s \<le> rows s * cols s" by auto
  with f(3) show ?thesis by linarith
qed

definition glyph_of :: "u8 \<Rightarrow> 'a fbterm_context_scheme \<Rightarrow> fbterm_char" where
  "glyph_of c s = \<lparr>ch_c = ucast c, ch_fg = text_fg s, ch_bg = text_bg s\<rparr>"

lemma glyph_of_ok [simp]: "glyph_ok (glyph_of c s)"
proof -
  have c: "unat c < 256" using unsigned_less [of c] by simp
  then have "unat (ucast c :: u32) = unat c" by (simp add: unsigned_ucast_eq take_bit_eq_mod)
  with c show ?thesis by (simp add: glyph_ok_def glyph_of_def word_less_nat_alt)
qed

lemma raw_putchar_run:
  assumes ok: "fb_ok s" and r: "region_ok s" and y: "cursor_y s < rows s"
  obtains v where "fb_ok v" "off_cursor v = off_cursor s"
    "cursor_x s < cols s \<Longrightarrow> \<forall>j < rows s * cols s. screen v j = (if j = cursor_y s * cols s + cursor_x s then glyph_of c s else screen s j)"
    "(cursor_x v, cursor_y v) =
      (if add64 (cursor_x s) 1 = cols s \<and> (cursor_y s < rows s - 1 \<or> scroll_enabled s) then (0, cursor_y s + 1) else (add64 (cursor_x s) 1, cursor_y s))"
    "fbterm_raw_putchar c s = (if cursor_y v = rows s then fbterm_scroll (v\<lparr>cursor_y := rows s - 1\<rparr>) else Done v)"
proof -
  let ?u = "s\<lparr>cursor_x := add64 (cursor_x s) 1\<rparr>" and ?g = "glyph_of c s"
  have oku: "fb_ok ?u" using ok by simp
  from push_any [OF oku glyph_of_ok [of c s], of "cursor_x s" "cursor_y s"]
  obtain u where u: "push_to_queue ?g (cursor_x s) (cursor_y s) ?u = Done u" "fb_ok u" "off_screen u = off_screen ?u"
    by (auto simp: runs_iff)
  have scr: "\<forall>j < rows s * cols s. screen u j = (if j = cursor_y s * cols s + cursor_x s then ?g else screen s j)" if "cursor_x s < cols s"
    using push_ok [OF oku _ _ glyph_of_ok [of c s], of "cursor_x s" "cursor_y s"] that y u(1) by simp
  have f: "rows u = rows s" "cols u = cols s" "scroll_bottom_margin u = rows s"
    "cursor_x u = add64 (cursor_x s) 1" "cursor_y u = cursor_y s" "scroll_enabled u = scroll_enabled s"
    using r by (simp_all add: off_screen_field [OF u(3), of rows] off_screen_field [OF u(3), of cols] off_screen_field [OF u(3), of scroll_bottom_margin]
      off_screen_field [OF u(3), of cursor_x] off_screen_field [OF u(3), of cursor_y] off_screen_field [OF u(3), of scroll_enabled] off_screen_def region_ok_def)
  define v where "v = (if cursor_x u = cols u \<and> (cursor_y u < sub64 (scroll_bottom_margin u) 1 \<or> scroll_enabled u)
    then u\<lparr>cursor_x := 0, cursor_y := add64 (cursor_y u) 1\<rparr> else u)"
  have y1: "add64 (cursor_y s) 1 = cursor_y s + 1" "sub64 (rows s) 1 = rows s - 1" using y rows_less [OF ok] by simp_all
  have v: "fb_ok v" "off_cursor v = off_cursor s" "screen v = screen u" "scroll_bottom_margin v = rows s"
    using u(2) f(3) off_screen_off_cursor [OF u(3)] by (simp_all add: v_def)
  have cv: "(cursor_x v, cursor_y v) =
      (if add64 (cursor_x s) 1 = cols s \<and> (cursor_y s < rows s - 1 \<or> scroll_enabled s) then (0, cursor_y s + 1) else (add64 (cursor_x s) 1, cursor_y s))"
    using y1 by (simp add: v_def f)
  have "fbterm_raw_putchar c s = (if cursor_y v = rows s then fbterm_scroll (v\<lparr>cursor_y := sub64 (cursor_y v) 1\<rparr>) else Done v)"
    by (simp only: fbterm_raw_putchar_def Let_def u(1) [unfolded glyph_of_def] bind_outcome.simps v(4) flip: v_def)
  then have "fbterm_raw_putchar c s = (if cursor_y v = rows s then fbterm_scroll (v\<lparr>cursor_y := rows s - 1\<rparr>) else Done v)" using y1 by simp
  with v cv scr show thesis by (intro that [of v]) simp_all
qed

text \<open>The row stays on the screen, and in normal operation so does the column.\<close>
lemma raw_putchar_safe:
  assumes ok: "fb_ok s" and r: "region_ok s" and y: "cursor_y s < rows s"
  shows "runs (\<lambda>t. fb_ok t \<and> off_cursor t = off_cursor s \<and> cursor_y t < rows s \<and>
    (cursor_x s < cols s \<and> scroll_enabled s \<longrightarrow> cursor_x t < cols s)) (fbterm_raw_putchar c s)"
proof -
  obtain v where v: "fb_ok v" "off_cursor v = off_cursor s"
    "(cursor_x v, cursor_y v) =
      (if add64 (cursor_x s) 1 = cols s \<and> (cursor_y s < rows s - 1 \<or> scroll_enabled s) then (0, cursor_y s + 1) else (add64 (cursor_x s) 1, cursor_y s))"
    and run: "fbterm_raw_putchar c s = (if cursor_y v = rows s then fbterm_scroll (v\<lparr>cursor_y := rows s - 1\<rparr>) else Done v)"
    by (rule raw_putchar_run [OF ok r y])
  have x: "cursor_x s < cols s \<and> scroll_enabled s \<longrightarrow> cursor_x v < cols s" "cursor_y v \<le> rows s"
    using v(3) y rows_less [OF ok] by (auto split: if_splits)
  show ?thesis
  proof (cases "cursor_y v = rows s")
    case True
    let ?w = "v\<lparr>cursor_y := rows s - 1\<rparr>"
    have "rows v = rows s" "scroll_bottom_margin v = scroll_bottom_margin s" "scroll_top_margin v = scroll_top_margin s"
      by (rule off_cursor_field [OF v(2)]; simp add: off_cursor_def off_screen_def)+
    then have "runs (shows_after scrolled_up ?w) (fbterm_scroll ?w)" using v(1) r by (intro fbterm_scroll_ok) (simp_all add: region_ok_def)
    then have "runs (\<lambda>t. fb_ok t \<and> off_cursor t = off_cursor s \<and> cursor_y t < rows s \<and>
      (cursor_x s < cols s \<and> scroll_enabled s \<longrightarrow> cursor_x t < cols s)) (fbterm_scroll ?w)"
    proof (rule runs_mono)
      fix t assume t: "shows_after scrolled_up ?w t"
      then have o: "off_screen t = off_screen ?w" by (simp add: shows_after_def)
      have "cursor_y t = rows s - 1" "cursor_x t = cursor_x v"
        using off_screen_field [OF o, of cursor_y] off_screen_field [OF o, of cursor_x] by (simp_all add: off_screen_def)
      moreover have "off_cursor t = off_cursor s" using off_screen_off_cursor [OF o] v(2) by simp
      ultimately show "fb_ok t \<and> off_cursor t = off_cursor s \<and> cursor_y t < rows s \<and>
        (cursor_x s < cols s \<and> scroll_enabled s \<longrightarrow> cursor_x t < cols s)" using t x y by (auto simp: shows_after_def)
    qed
    with run True show ?thesis by simp
  qed (use run v x in simp)
qed

end
