(* ===== verification/Term_Draw.thy ===== *)
theory Term_Draw
  imports Term_Cells
begin

text \<open>
  What the terminal draws. \<open>cell_image\<close> is the picture of a character in a cell; \<open>plot_char\<close> paints
  exactly it, \<open>plot_char_fast\<close> paints the same over another character in the same colours, and after
  a flush the frame buffer shows every cell of the screen, the one under the cursor inverted.
\<close>

text \<open>The cells fit into the frame buffer and the canvas, and the font has all its glyphs.\<close>

definition plot_ok :: "'a fbterm_context_scheme \<Rightarrow> bool" where
  "plot_ok s \<longleftrightarrow> font_height s \<le> 256 \<and> length (font_bool s) = 256 * font_height s * font_width s \<and>
     glyph_width s = font_width s * font_scale_x s \<and> glyph_height s = font_height s * font_scale_y s \<and>
     offset_x s + cols s * glyph_width s \<le> width s \<and> offset_y s + rows s * glyph_height s \<le> height s \<and>
     width s \<le> pitch s div 4 \<and> length (framebuffer s) = height s * (pitch s div 4) \<and> length (canvas s) = width s * height s"

definition cursor_ok :: "'a fbterm_context_scheme \<Rightarrow> bool" where
  "cursor_ok s \<longleftrightarrow> cursor_x s < cols s \<and> cursor_y s < rows s \<and> old_cursor_x s < cols s \<and> old_cursor_y s < rows s \<and>
     saved_state_cursor_x s < cols s \<and> saved_state_cursor_y s < rows s"

section \<open>Painting\<close>

definition cell_image :: "fbterm_char \<Rightarrow> nat \<Rightarrow> nat \<Rightarrow> 'a fbterm_context_scheme \<Rightarrow> nat \<Rightarrow> u32" where
  "cell_image c x y s i =
     (let px = i mod (pitch s div 4);
          py = i div (pitch s div 4);
          gx = px - (offset_x s + x * glyph_width s);
          gy = py - (offset_y s + y * glyph_height s);
          draw = font_bool s ! (unat (ch_c c) * font_height s * font_width s + (gy div font_scale_y s * font_width s + gx div font_scale_x s));
          colour = (if draw then ch_fg c else ch_bg c)
      in if colour = 0xffffffff then canvas s ! (px + py * width s) else colour)"

definition pixel_at :: "nat \<Rightarrow> nat \<Rightarrow> nat \<Rightarrow> nat \<Rightarrow> 'a fbterm_context_scheme \<Rightarrow> nat" where
  "pixel_at x y gx gy s = offset_x s + x * glyph_width s + (offset_y s + y * glyph_height s + gy) * (pitch s div 4) + gx"

definition cell_pixels :: "nat \<Rightarrow> nat \<Rightarrow> 'a fbterm_context_scheme \<Rightarrow> nat set" where
  "cell_pixels x y s = (\<Union>gy \<in> {0..<glyph_height s}. \<Union>gx \<in> {0..<glyph_width s}. {pixel_at x y gx gy s})"

text \<open>Only the pixels of \<open>A\<close> change, and they get the colours of \<open>f\<close>.\<close>

definition painted :: "nat set \<Rightarrow> (nat \<Rightarrow> u32) \<Rightarrow> 'a fbterm_context_scheme \<Rightarrow> 'a fbterm_context_scheme \<Rightarrow> bool" where
  "painted A f s t \<longleftrightarrow> t = s\<lparr>framebuffer := framebuffer t\<rparr> \<and> length (framebuffer t) = length (framebuffer s) \<and>
     (\<forall>i < length (framebuffer s). framebuffer t ! i = (if i \<in> A then f i else framebuffer s ! i))"

definition same_picture :: "'a fbterm_context_scheme \<Rightarrow> 'a fbterm_context_scheme \<Rightarrow> bool" where
  "same_picture s t \<longleftrightarrow> t = s\<lparr>framebuffer := framebuffer t\<rparr> \<and> length (framebuffer t) = length (framebuffer s)"

lemma painted_same: "painted A f s t \<Longrightarrow> same_picture s t"
  by (simp add: painted_def same_picture_def)

lemma same_picture_field:
  assumes "same_picture s t" and "\<And>u v. g (u\<lparr>framebuffer := v\<rparr>) = g u"
  shows "g t = g s"
  using assms unfolding same_picture_def by metis

lemma same_picture_iff: "same_picture s t \<longleftrightarrow> (\<exists>fb. t = s\<lparr>framebuffer := fb\<rparr> \<and> length fb = length (framebuffer s))"
  by (auto simp: same_picture_def)

lemma same_picture_trans: "same_picture s t \<Longrightarrow> same_picture t u \<Longrightarrow> same_picture s u"
  by (auto simp: same_picture_iff)

lemma painted_none: "painted {} f s s"
  by (simp add: painted_def)

lemma painted_trans:
  assumes "painted A f s t" and "painted B f t u"
  shows "painted (A \<union> B) f s u"
  using assms same_picture_trans [OF painted_same [OF assms(1)] painted_same [OF assms(2)]] unfolding painted_def same_picture_def by auto

lemma paint_loop:
  assumes "\<And>i fb. i \<in> set is \<Longrightarrow> length fb = length (framebuffer s) \<Longrightarrow> runs (painted (A i) f (s\<lparr>framebuffer := fb\<rparr>)) (body i (s\<lparr>framebuffer := fb\<rparr>))"
  shows "runs (painted (\<Union>i \<in> set is. A i) f s) (for_outcome is body s)"
  using assms
proof (induction "is" arbitrary: s)
  case (Cons i "is")
  have "runs (painted (A i) f s) (body i s)" using Cons.prems [of i "framebuffer s"] by simp
  then obtain t where t: "body i s = Done t" "painted (A i) f s t" by (auto simp: runs_iff)
  then obtain fb where fb: "t = s\<lparr>framebuffer := fb\<rparr>" "length fb = length (framebuffer s)" using painted_same [OF t(2)] by (auto simp: same_picture_iff)
  have "runs (painted (\<Union>i \<in> set is. A i) f t) (for_outcome is body t)"
    by (rule Cons.IH) (use Cons.prems fb in simp)
  then show ?case using t(1) by (simp add: runs_mono [OF _ painted_trans [OF t(2)]])
qed (simp add: painted_none)

lemma paint_upt:
  assumes "\<And>i fb. i \<in> {0..<n} \<Longrightarrow> length fb = length (framebuffer s) \<Longrightarrow> runs (painted (A i) f (s\<lparr>framebuffer := fb\<rparr>)) (body i (s\<lparr>framebuffer := fb\<rparr>))"
  shows "runs (painted (\<Union>i \<in> {0..<n}. A i) f s) (for_outcome [0..<n] body s)"
  using paint_loop [of "[0..<n]" s A f body] assms by simp

lemma plot_pixel_painted:
  assumes "i < length (framebuffer s)" and "k < length (canvas s)"
    and "f i = (if (if draw then ch_fg c else ch_bg c) = 0xffffffff then canvas s ! k else if draw then ch_fg c else ch_bg c)"
  shows "runs (painted {i} f s) (plot_pixel c draw i k s)"
  using assms by (simp add: plot_pixel_def painted_def nth_list_update)

section \<open>Pixels of a cell\<close>
lemma scaled_bound: "a < n \<Longrightarrow> b < m \<Longrightarrow> m * a + b < n * (m :: nat)"
  using cell_bound [of a n b m] by (simp add: mult.commute)

lemma plot_okD:
  assumes "plot_ok s"
  shows "font_height s \<le> 256" "length (font_bool s) = 256 * font_height s * font_width s" "glyph_width s = font_width s * font_scale_x s"
    "glyph_height s = font_height s * font_scale_y s" "offset_x s + cols s * glyph_width s \<le> width s" "offset_y s + rows s * glyph_height s \<le> height s"
    "width s \<le> pitch s div 4" "length (framebuffer s) = height s * (pitch s div 4)" "length (canvas s) = width s * height s"
  using assms unfolding plot_ok_def by blast+

lemma pixel_decode:
  assumes p: "plot_ok s" and xy: "x < cols s" "y < rows s" and g: "gx < glyph_width s" "gy < glyph_height s"
  shows "pixel_at x y gx gy s mod (pitch s div 4) = offset_x s + x * glyph_width s + gx"
    "pixel_at x y gx gy s div (pitch s div 4) = offset_y s + y * glyph_height s + gy"
    "pixel_at x y gx gy s < length (framebuffer s)"
    "offset_x s + x * glyph_width s + gx + (offset_y s + y * glyph_height s + gy) * width s < length (canvas s)"
proof -
  let ?X = "offset_x s + x * glyph_width s + gx" and ?Y = "offset_y s + y * glyph_height s + gy"
  have "?X < width s" using cell_bound [OF xy(1) g(1)] plot_okD(5) [OF p] by linarith
  moreover have Y: "?Y < height s" using cell_bound [OF xy(2) g(2)] plot_okD(6) [OF p] by linarith
  moreover have e: "pixel_at x y gx gy s = ?Y * (pitch s div 4) + ?X" by (simp add: pixel_at_def)
  moreover have S: "width s \<le> pitch s div 4" by (rule plot_okD(7) [OF p])
  ultimately show "pixel_at x y gx gy s mod (pitch s div 4) = ?X" "pixel_at x y gx gy s div (pitch s div 4) = ?Y" by simp_all
  show "pixel_at x y gx gy s < length (framebuffer s)" unfolding e using cell_bound [OF Y, of ?X "pitch s div 4"] \<open>?X < width s\<close> S plot_okD(8) [OF p] by linarith
  show "?X + ?Y * width s < length (canvas s)" using cell_bound [OF Y \<open>?X < width s\<close>] plot_okD(9) [OF p] by (simp add: mult.commute add.commute)
qed

lemma font_bound:
  assumes "plot_ok s" and "glyph_ok c" and "fy < font_height s" and "fx < font_width s"
  shows "unat (ch_c c) * font_height s * font_width s + (fy * font_width s + fx) < length (font_bool s)"
proof -
  have "unat (ch_c c) * font_height s + fy < 256 * font_height s" using assms(2,3) by (intro cell_bound) (simp_all add: glyph_ok_def word_less_nat_alt)
  from cell_bound [OF this assms(4)] plot_okD(2) [OF assms(1)] show ?thesis by (simp add: algebra_simps)
qed

text \<open>The glyph row of a pixel row, as the code computes it in one byte.\<close>
lemma font_row:
  assumes "plot_ok s" and "gy < glyph_height s"
  shows "gy div font_scale_y s mod 256 = gy div font_scale_y s" "gy div font_scale_y s < font_height s"
proof -
  show "gy div font_scale_y s < font_height s" using assms(2) plot_okD(4) [OF assms(1)] by (simp add: less_mult_imp_div_less)
  then show "gy div font_scale_y s mod 256 = gy div font_scale_y s" using plot_okD(1) [OF assms(1)] by simp
qed

lemma cell_image_at:
  assumes p: "plot_ok s" and xy: "x < cols s" "y < rows s" and g: "gx < glyph_width s" "gy < glyph_height s"
  shows "cell_image c x y s (pixel_at x y gx gy s) =
    (let draw = font_bool s ! (unat (ch_c c) * font_height s * font_width s + (gy div font_scale_y s * font_width s + gx div font_scale_x s));
         colour = (if draw then ch_fg c else ch_bg c)
     in if colour = 0xffffffff then canvas s ! (offset_x s + x * glyph_width s + gx + (offset_y s + y * glyph_height s + gy) * width s) else colour)"
  unfolding cell_image_def pixel_decode [OF assms] by simp

text \<open>Columns of pixels, as columns of the glyph and positions in them.\<close>
lemma column:
  assumes "plot_ok s" and "fx < font_width s" and "i < font_scale_x s"
  shows "font_scale_x s * fx + i < glyph_width s" "(font_scale_x s * fx + i) div font_scale_x s = fx"
  using scaled_bound [OF assms(2,3)] plot_okD(3) [OF assms(1)] assms(3) by simp_all

lemma column_ex:
  assumes "plot_ok s" and "gx < glyph_width s"
  obtains fx i where "fx < font_width s" "i < font_scale_x s" "gx = font_scale_x s * fx + i"
proof
  show "gx div font_scale_x s < font_width s" using assms(2) plot_okD(3) [OF assms(1)] by (simp add: less_mult_imp_div_less)
  show "gx mod font_scale_x s < font_scale_x s" using assms(2) plot_okD(3) [OF assms(1)] by (cases "font_scale_x s") simp_all
qed simp

lemma cell_pixels_columns:
  assumes "plot_ok s"
  shows "cell_pixels x y s =
    (\<Union>gy \<in> {0..<glyph_height s}. \<Union>fx \<in> {0..<font_width s}. \<Union>i \<in> {0..<font_scale_x s}. {pixel_at x y (font_scale_x s * fx + i) gy s})"
  (is "_ = ?R")
proof (intro equalityI subsetI)
  fix k assume "k \<in> cell_pixels x y s"
  then obtain gy gx where g: "gy < glyph_height s" "gx < glyph_width s" "k = pixel_at x y gx gy s" by (auto simp: cell_pixels_def)
  obtain fx i where "fx < font_width s" "i < font_scale_x s" "gx = font_scale_x s * fx + i" by (rule column_ex [OF assms g(2)])
  with g show "k \<in> ?R" by (intro UN_I [of gy] UN_I [of fx] UN_I [of i]) simp_all
next
  fix k assume "k \<in> ?R"
  then obtain gy fx i where g: "gy < glyph_height s" "fx < font_width s" "i < font_scale_x s" "k = pixel_at x y (font_scale_x s * fx + i) gy s" by auto
  with column(1) [OF assms g(2,3)] show "k \<in> cell_pixels x y s"
    unfolding cell_pixels_def by (intro UN_I [of gy] UN_I [of "font_scale_x s * fx + i"]) simp_all
qed

text \<open>One dot of a glyph.\<close>
lemma plot_dot:
  assumes p: "plot_ok s" and xy: "x < cols s" "y < rows s" and f: "fx < font_width s" "gy < glyph_height s"
    and draw: "draw = font_bool s ! (unat (ch_c c) * font_height s * font_width s + (gy div font_scale_y s * font_width s + fx))"
  shows "runs (painted (\<Union>i \<in> {0..<font_scale_x s}. {pixel_at x y (font_scale_x s * fx + i) gy s}) (cell_image c x y s) s)
    (for_outcome [0..<font_scale_x s] (\<lambda>i t.
      plot_pixel c draw (offset_x s + x * glyph_width s + (offset_y s + y * glyph_height s + gy) * (pitch s div 4) + (font_scale_x t * fx + i))
        (offset_x s + x * glyph_width s + (offset_y s + y * glyph_height s + gy) * width s + (font_scale_x t * fx + i)) t) s)"
proof (rule paint_upt)
  fix i and fb :: "u32 list" assume i: "i \<in> {0..<font_scale_x s}" and fb: "length fb = length (framebuffer s)"
  have j: "font_scale_x s * fx + i < glyph_width s" "(font_scale_x s * fx + i) div font_scale_x s = fx" using column [OF p f(1), of i] i by simp_all
  note d = pixel_decode(3,4) [OF p xy j(1) f(2)] cell_image_at [OF p xy j(1) f(2), of c]
  let ?t = "s\<lparr>framebuffer := fb\<rparr>"
  show "runs (painted {pixel_at x y (font_scale_x s * fx + i) gy s} (cell_image c x y s) ?t)
      (plot_pixel c draw (offset_x s + x * glyph_width s + (offset_y s + y * glyph_height s + gy) * (pitch s div 4) + (font_scale_x ?t * fx + i))
        (offset_x s + x * glyph_width s + (offset_y s + y * glyph_height s + gy) * width s + (font_scale_x ?t * fx + i)) ?t)"
    using plot_pixel_painted [of "pixel_at x y (font_scale_x s * fx + i) gy s" ?t
        "offset_x s + x * glyph_width s + (offset_y s + y * glyph_height s + gy) * width s + (font_scale_x s * fx + i)" "cell_image c x y s" draw c]
      d fb j(2) draw by (simp add: pixel_at_def Let_def ac_simps)
qed

lemma picture_fields [simp]:
  "pixel_at x y gx gy (s\<lparr>framebuffer := fb\<rparr>) = pixel_at x y gx gy s" "cell_image c x y (s\<lparr>framebuffer := fb\<rparr>) = cell_image c x y s"
  "cell_pixels x y (s\<lparr>framebuffer := fb\<rparr>) = cell_pixels x y s"
  by (simp_all add: pixel_at_def cell_image_def cell_pixels_def fun_eq_iff Let_def)

lemma plot_ok_picture: "length fb = length (framebuffer s) \<Longrightarrow> plot_ok (s\<lparr>framebuffer := fb\<rparr>) = plot_ok s"
  by (simp add: plot_ok_def)

lemma plot_char_painted:
  assumes p: "plot_ok s" and c: "glyph_ok c" and xy: "x < cols s" "y < rows s"
  shows "runs (painted (cell_pixels x y s) (cell_image c x y s) s) (plot_char c x y s)"
proof -
  have dot: "runs (painted (\<Union>i \<in> {0..<font_scale_x s}. {pixel_at x y (font_scale_x s * fx + i) gy s}) (cell_image c x y s) (s\<lparr>framebuffer := fb\<rparr>))
    (bind_outcome (array_at (font_bool s) (unat (ch_c c) * font_height s * font_width s + (gy div font_scale_y s mod 256 * font_width s + fx))) (\<lambda>draw.
      for_outcome [0..<font_scale_x s] (\<lambda>i t. plot_pixel c draw
        (offset_x s + x * glyph_width s + (offset_y s + y * glyph_height s + gy) * (pitch s div 4) + (font_scale_x t * fx + i))
        (offset_x s + x * glyph_width s + (offset_y s + y * glyph_height s + gy) * width s + (font_scale_x t * fx + i)) t) (s\<lparr>framebuffer := fb\<rparr>)))"
    if "fx < font_width s" "gy < glyph_height s" "length fb = length (framebuffer s)" for fx gy and fb :: "u32 list"
    using plot_dot [OF plot_ok_picture [OF that(3), THEN iffD2, OF p], of x y fx gy _ c] that xy font_bound [OF p c font_row(2) [OF p that(2)] that(1)] by (simp add: font_row [OF p that(2)])
  show ?thesis using xy unfolding plot_char_def cell_pixels_columns [OF p] Let_def
    apply simp
    apply (rule paint_upt)
    apply simp
    apply (rule paint_upt)
    using dot apply simp
    done
qed

section \<open>The fast path\<close>

definition cell_shows :: "fbterm_char \<Rightarrow> nat \<Rightarrow> nat \<Rightarrow> 'a fbterm_context_scheme \<Rightarrow> bool" where
  "cell_shows c x y s \<longleftrightarrow> (\<forall>i \<in> cell_pixels x y s. framebuffer s ! i = cell_image c x y s i)"

lemma painted_unique: 
  assumes "painted A f s t" and "painted A f s u"
  shows "t = u"
proof -
  have "framebuffer t = framebuffer u" using assms by (intro nth_equalityI) (simp_all add: painted_def)
  then show ?thesis using assms unfolding painted_def by metis
qed

lemma painted_extend:
  assumes "painted A f s t" and "A \<subseteq> B" and "\<And>i. i \<in> B \<Longrightarrow> i \<notin> A \<Longrightarrow> framebuffer s ! i = f i"
  shows "painted B f s t"
  using assms unfolding painted_def by auto

definition dot :: "fbterm_char \<Rightarrow> nat \<Rightarrow> nat \<Rightarrow> 'a fbterm_context_scheme \<Rightarrow> bool" where
  "dot c fx gy s = font_bool s ! (unat (ch_c c) * font_height s * font_width s + (gy div font_scale_y s * font_width s + fx))"

definition changed_pixels :: "fbterm_char \<Rightarrow> fbterm_char \<Rightarrow> nat \<Rightarrow> nat \<Rightarrow> nat \<Rightarrow> nat \<Rightarrow> 'a fbterm_context_scheme \<Rightarrow> nat set" where
  "changed_pixels old c x y fx gy s =
     (if dot old fx gy s = dot c fx gy s then {} else \<Union>i \<in> {0..<font_scale_x s}. {pixel_at x y (font_scale_x s * fx + i) gy s})"

lemma plot_char_fast_painted:
  assumes p: "plot_ok s" and c: "glyph_ok c" "glyph_ok old" and xy: "x < cols s" "y < rows s"
  shows "runs (painted (\<Union>gy \<in> {0..<glyph_height s}. \<Union>fx \<in> {0..<font_width s}. changed_pixels old c x y fx gy s) (cell_image c x y s) s)
    (plot_char_fast old c x y s)"
proof -
  have dot: "runs (painted (changed_pixels old c x y fx gy s) (cell_image c x y s) (s\<lparr>framebuffer := fb\<rparr>))
    (bind_outcome (array_at (font_bool s) (unat (ch_c old) * font_height s * font_width s + (gy div font_scale_y s mod 256 * font_width s + fx))) (\<lambda>old_draw.
     bind_outcome (array_at (font_bool s) (unat (ch_c c) * font_height s * font_width s + (gy div font_scale_y s mod 256 * font_width s + fx))) (\<lambda>draw.
      if old_draw = draw then Done (s\<lparr>framebuffer := fb\<rparr>) else
      for_outcome [0..<font_scale_x s] (\<lambda>i t. plot_pixel c draw
        (offset_x s + x * glyph_width s + (offset_y s + y * glyph_height s + gy) * (pitch s div 4) + (font_scale_x t * fx + i))
        (offset_x s + x * glyph_width s + (offset_y s + y * glyph_height s + gy) * width s + (font_scale_x t * fx + i)) t) (s\<lparr>framebuffer := fb\<rparr>))))"
    if "fx < font_width s" "gy < glyph_height s" "length fb = length (framebuffer s)" for fx gy and fb :: "u32 list"
    using plot_dot [OF plot_ok_picture [OF that(3), THEN iffD2, OF p], of x y fx gy _ c] that xy font_bound [OF p c(1) font_row(2) [OF p that(2)] that(1)]
      font_bound [OF p c(2) font_row(2) [OF p that(2)] that(1)] by (simp add: font_row [OF p that(2)] dot_def painted_none changed_pixels_def)
  show ?thesis using xy unfolding plot_char_fast_def Let_def
    apply (simp cong del: if_weak_cong)
    apply (rule paint_upt)
    apply simp
    apply (rule paint_upt)
    using dot apply (simp del: runs_bind cong del: if_weak_cong)
    done
qed

lemma plot_fast_eq:
  assumes p: "plot_ok s" and c: "glyph_ok c" "glyph_ok old" and col: "ch_fg old = ch_fg c" "ch_bg old = ch_bg c"
    and old: "x < cols s \<Longrightarrow> y < rows s \<Longrightarrow> cell_shows old x y s"
  shows "plot_char_fast old c x y s = plot_char c x y s"
proof (cases "x < cols s \<and> y < rows s")
  case True
  then have xy: "x < cols s" "y < rows s" by simp_all
  let ?A = "\<Union>gy \<in> {0..<glyph_height s}. \<Union>fx \<in> {0..<font_width s}. changed_pixels old c x y fx gy s"
  obtain t where t: "plot_char_fast old c x y s = Done t" "painted ?A (cell_image c x y s) s t"
    using plot_char_fast_painted [OF p c xy] by (auto simp: runs_iff)
  obtain u where u: "plot_char c x y s = Done u" "painted (cell_pixels x y s) (cell_image c x y s) s u"
    using plot_char_painted [OF p c(1) xy] by (auto simp: runs_iff)
  have "painted (cell_pixels x y s) (cell_image c x y s) s t"
  proof (rule painted_extend [OF t(2)])
    show "?A \<subseteq> cell_pixels x y s" unfolding cell_pixels_columns [OF p] by (intro UN_mono) (auto simp: changed_pixels_def)
    fix k assume k: "k \<in> cell_pixels x y s" "k \<notin> ?A"
    from k(1) obtain gy fx i where g: "gy < glyph_height s" "fx < font_width s" "i < font_scale_x s" "k = pixel_at x y (font_scale_x s * fx + i) gy s"
      unfolding cell_pixels_columns [OF p] by auto
    have "dot old fx gy s = dot c fx gy s"
    proof (rule ccontr)
      assume "dot old fx gy s \<noteq> dot c fx gy s"
      then have "k \<in> ?A" using g by (intro UN_I [of gy] UN_I [of fx]) (auto simp: changed_pixels_def)
      with k(2) show False by simp
    qed
    with column [OF p g(2,3)] cell_image_at [OF p xy _ g(1)] g(4) col have "cell_image old x y s k = cell_image c x y s k"
      by (simp add: dot_def)
    with old [OF xy] k(1) show "framebuffer s ! k = cell_image c x y s k" by (simp add: cell_shows_def)
  qed
  with painted_unique [OF _ u(2)] t(1) u(1) show ?thesis by simp
qed (auto simp: plot_char_def plot_char_fast_def)

section \<open>The whole screen\<close>
lemma drawing_fields [simp]:
  "pixel_at x y gx gy (s\<lparr>grid := g\<rparr>) = pixel_at x y gx gy s" "cell_image c x y (s\<lparr>grid := g\<rparr>) = cell_image c x y s" "cell_pixels x y (s\<lparr>grid := g\<rparr>) = cell_pixels x y s"
  "pixel_at x y gx gy (s\<lparr>qmap := m\<rparr>) = pixel_at x y gx gy s" "cell_image c x y (s\<lparr>qmap := m\<rparr>) = cell_image c x y s" "cell_pixels x y (s\<lparr>qmap := m\<rparr>) = cell_pixels x y s"
  "pixel_at x y gx gy (s\<lparr>queue_i := n\<rparr>) = pixel_at x y gx gy s" "cell_image c x y (s\<lparr>queue_i := n\<rparr>) = cell_image c x y s" "cell_pixels x y (s\<lparr>queue_i := n\<rparr>) = cell_pixels x y s"
  "pixel_at x y gx gy (s\<lparr>old_cursor_x := n\<rparr>) = pixel_at x y gx gy s" "cell_image c x y (s\<lparr>old_cursor_x := n\<rparr>) = cell_image c x y s" "cell_pixels x y (s\<lparr>old_cursor_x := n\<rparr>) = cell_pixels x y s"
  "pixel_at x y gx gy (s\<lparr>old_cursor_y := n\<rparr>) = pixel_at x y gx gy s" "cell_image c x y (s\<lparr>old_cursor_y := n\<rparr>) = cell_image c x y s" "cell_pixels x y (s\<lparr>old_cursor_y := n\<rparr>) = cell_pixels x y s"
  by (simp_all add: pixel_at_def cell_image_def cell_pixels_def fun_eq_iff Let_def)

lemma cell_shows_fields [simp]:
  "cell_shows c x y (s\<lparr>grid := g\<rparr>) = cell_shows c x y s" "cell_shows c x y (s\<lparr>qmap := m\<rparr>) = cell_shows c x y s" "cell_shows c x y (s\<lparr>queue_i := n\<rparr>) = cell_shows c x y s"
  "cell_shows c x y (s\<lparr>old_cursor_x := n\<rparr>) = cell_shows c x y s" "cell_shows c x y (s\<lparr>old_cursor_y := n\<rparr>) = cell_shows c x y s"
  by (simp_all add: cell_shows_def)

lemma plot_ok_drawing [simp]:
  "plot_ok (s\<lparr>grid := g\<rparr>) = plot_ok s" "plot_ok (s\<lparr>qmap := m\<rparr>) = plot_ok s" "plot_ok (s\<lparr>queue_i := n\<rparr>) = plot_ok s"
  "plot_ok (s\<lparr>old_cursor_x := n\<rparr>) = plot_ok s" "plot_ok (s\<lparr>old_cursor_y := n\<rparr>) = plot_ok s"
  by (simp_all add: plot_ok_def)

lemma cell_pixels_apart:
  assumes p: "plot_ok s" and a: "x < cols s" "y < rows s" and b: "x' < cols s" "y' < rows s" and k: "k \<in> cell_pixels x y s" "k \<in> cell_pixels x' y' s"
  shows "x = x' \<and> y = y'"
proof -
  from k obtain gx gy gx' gy' where g: "gx < glyph_width s" "gy < glyph_height s" "k = pixel_at x y gx gy s" "gx' < glyph_width s" "gy' < glyph_height s" "k = pixel_at x' y' gx' gy' s"
    by (auto simp: cell_pixels_def)
  have e: "x * glyph_width s + gx = x' * glyph_width s + gx'" "y * glyph_height s + gy = y' * glyph_height s + gy'"
    using pixel_decode(1,2) [OF p a g(1,2)] pixel_decode(1,2) [OF p b g(4,5)] g(3,6) by simp_all
  have "x = (x * glyph_width s + gx) div glyph_width s" "x' = (x' * glyph_width s + gx') div glyph_width s"
    "y = (y * glyph_height s + gy) div glyph_height s" "y' = (y' * glyph_height s + gy') div glyph_height s" using g by simp_all
  with e show ?thesis by simp
qed

lemma cell_pixels_inside: "plot_ok s \<Longrightarrow> x < cols s \<Longrightarrow> y < rows s \<Longrightarrow> k \<in> cell_pixels x y s \<Longrightarrow> k < length (framebuffer s)"
  using pixel_decode(3) by (auto simp: cell_pixels_def)

lemma painted_fields:
  assumes "painted A f s t"
  shows "cell_pixels x y t = cell_pixels x y s" "cell_image c x y t = cell_image c x y s"
  by (rule same_picture_field [OF painted_same [OF assms]]; simp)+

lemma painted_others:
  assumes p: "plot_ok s" and t: "painted A f s t" "A \<subseteq> cell_pixels x y s" and a: "x < cols s" "y < rows s" and b: "x' < cols s" "y' < rows s" and n: "(x', y') \<noteq> (x, y)"
  shows "cell_shows c x' y' t = cell_shows c x' y' s"
proof -
  have "framebuffer t ! i = framebuffer s ! i" if "i \<in> cell_pixels x' y' s" for i
    using t cell_pixels_apart [OF p a b, of i] that n cell_pixels_inside [OF p b that] by (auto simp: painted_def)
  then show ?thesis by (simp add: cell_shows_def painted_fields [OF t(1)])
qed

lemma painted_shows:
  assumes p: "plot_ok s" and a: "x < cols s" "y < rows s" and t: "painted (cell_pixels x y s) (cell_image c x y s) s t"
  shows "cell_shows c x y t"
  using t cell_pixels_inside [OF p a] by (simp add: cell_shows_def painted_fields [OF t] painted_def)

text \<open>\<open>plot_char_fast\<close> stays in its cell whatever the cell showed before.\<close>
lemma plot_item:
  assumes p: "plot_ok s" and c: "glyph_ok c" "glyph_ok old" and xy: "x < cols s" "y < rows s"
  obtains A f t where "(if ch_bg c = ch_bg old \<and> ch_fg c = ch_fg old then plot_char_fast old c x y s else plot_char c x y s) = Done t"
    "painted A f s t" "A \<subseteq> cell_pixels x y s" "cell_shows old x y s \<Longrightarrow> cell_shows c x y t"
proof (cases "ch_bg c = ch_bg old \<and> ch_fg c = ch_fg old")
  case True
  let ?A = "\<Union>gy \<in> {0..<glyph_height s}. \<Union>fx \<in> {0..<font_width s}. changed_pixels old c x y fx gy s"
  obtain t where t: "plot_char_fast old c x y s = Done t" "painted ?A (cell_image c x y s) s t"
    using plot_char_fast_painted [OF p c xy] by (auto simp: runs_iff)
  show ?thesis
  proof (rule that [OF _ t(2)])
    show "?A \<subseteq> cell_pixels x y s" unfolding cell_pixels_columns [OF p] by (intro UN_mono) (auto simp: changed_pixels_def)
    assume "cell_shows old x y s"
    then have "plot_char c x y s = Done t" using True t(1) plot_fast_eq [OF p c, of x y] by simp
    then show "cell_shows c x y t" using plot_char_painted [OF p c(1) xy] painted_shows [OF p xy] by simp
  qed (use True t in simp)
next
  case False
  obtain t where t: "plot_char c x y s = Done t" "painted (cell_pixels x y s) (cell_image c x y s) s t"
    using plot_char_painted [OF p c(1) xy] by (auto simp: runs_iff)
  show ?thesis by (rule that [OF _ t(2)]) (use False t painted_shows [OF p xy] in auto)
qed

section \<open>Flushing\<close>

definition inverted :: "fbterm_char \<Rightarrow> fbterm_char" where
  "inverted c = c\<lparr>ch_fg := ch_bg c, ch_bg := ch_fg c\<rparr>"

lemma inverted_ok [simp]: "glyph_ok (inverted c) = glyph_ok c"
  by (simp add: glyph_ok_def inverted_def)

definition cursor_cell :: "'a fbterm_context_scheme \<Rightarrow> nat" where
  "cursor_cell s = cursor_x s + cursor_y s * cols s"

definition old_cell :: "'a fbterm_context_scheme \<Rightarrow> nat" where
  "old_cell s = old_cursor_x s + old_cursor_y s * cols s"

definition shown :: "'a fbterm_context_scheme \<Rightarrow> nat \<Rightarrow> fbterm_char \<Rightarrow> bool" where
  "shown s j c = cell_shows c (j mod cols s) (j div cols s) s"

text \<open>The state in the middle of a flush: the flush writes to the frame buffer, the grid and the map.\<close>

definition drawn :: "'a fbterm_context_scheme \<Rightarrow> u32 list \<Rightarrow> fbterm_char list \<Rightarrow> nat option list \<Rightarrow> 'a fbterm_context_scheme" where
  "drawn s fb g m = s\<lparr>framebuffer := fb, grid := g, qmap := m\<rparr>"

lemma drawn_self: "drawn s (framebuffer s) (grid s) (qmap s) = s"
  by (simp add: drawn_def)

lemma drawn_updates [simp]:
  "(drawn s fb g m)\<lparr>framebuffer := fb'\<rparr> = drawn s fb' g m" "(drawn s fb g m)\<lparr>grid := g'\<rparr> = drawn s fb g' m" "(drawn s fb g m)\<lparr>qmap := m'\<rparr> = drawn s fb g m'"
  by (simp_all add: drawn_def)

lemma drawn_fields [simp]:
  "framebuffer (drawn s fb g m) = fb" "grid (drawn s fb g m) = g" "qmap (drawn s fb g m) = m" "queue (drawn s fb g m) = queue s" "queue_i (drawn s fb g m) = queue_i s"
  "rows (drawn s fb g m) = rows s" "cols (drawn s fb g m) = cols s" "cursor_x (drawn s fb g m) = cursor_x s" "cursor_y (drawn s fb g m) = cursor_y s"
  "old_cursor_x (drawn s fb g m) = old_cursor_x s" "old_cursor_y (drawn s fb g m) = old_cursor_y s" "cursor_status (drawn s fb g m) = cursor_status s"
  "cell_pixels x y (drawn s fb g m) = cell_pixels x y s" "cell_image c x y (drawn s fb g m) = cell_image c x y s"
  "length fb = length (framebuffer s) \<Longrightarrow> plot_ok (drawn s fb g m) = plot_ok s"
  by (simp_all add: drawn_def plot_ok_picture)

lemma shown_drawn: "shown (drawn s fb g m) j c = (\<forall>i \<in> cell_pixels (j mod cols s) (j div cols s) s. fb ! i = cell_image c (j mod cols s) (j div cols s) s i)"
  by (simp add: shown_def cell_shows_def)

lemma cell_split: "fb_ok s \<Longrightarrow> j < rows s * cols s \<Longrightarrow> j mod cols s < cols s \<and> j div cols s < rows s"
  using fb_okD(9) [of s] by (simp add: less_mult_imp_div_less)

lemma cell_join: "x < w \<Longrightarrow> (x + y * w) mod w = x \<and> (x + y * w) div w = (y :: nat)"
  by simp

lemma redrawn:
  assumes ok: "fb_ok s" "plot_ok s" and fb: "length fb = length (framebuffer s)" and j: "j < rows s * cols s"
    and t: "painted A f (drawn s fb g m) t" "A \<subseteq> cell_pixels (j mod cols s) (j div cols s) s"
  obtains fb' where "t = drawn s fb' g m" "length fb' = length (framebuffer s)"
    "\<And>k c g' m' g'' m''. k < rows s * cols s \<Longrightarrow> k \<noteq> j \<Longrightarrow> shown (drawn s fb' g' m') k c = shown (drawn s fb g'' m'') k c"
proof
  show e: "t = drawn s (framebuffer t) g m" "length (framebuffer t) = length (framebuffer s)" using t(1) fb unfolding painted_def by simp_all
  fix k c g' m' g'' m'' assume k: "k < rows s * cols s" "k \<noteq> j"
  then have "(k mod cols s, k div cols s) \<noteq> (j mod cols s, j div cols s)" by (metis div_mult_mod_eq prod.inject)
  with painted_others [OF _ t(1), of "j mod cols s" "j div cols s" "k mod cols s" "k div cols s" c] cell_split [OF ok(1) k(1)] cell_split [OF ok(1) j] ok(2) fb t(2)
  have "cell_shows c (k mod cols s) (k div cols s) t = cell_shows c (k mod cols s) (k div cols s) (drawn s fb g m)" by simp
  then show "shown (drawn s (framebuffer t) g' m') k c = shown (drawn s fb g'' m'') k c"
    by (subst (asm) e(1)) (simp add: shown_def cell_shows_def)
qed

lemma redraw:
  assumes ok: "fb_ok s" "plot_ok s" and fb: "length fb = length (framebuffer s)" and j: "j < rows s * cols s" and c: "glyph_ok c"
  obtains fb' where "plot_char c (j mod cols s) (j div cols s) (drawn s fb g m) = Done (drawn s fb' g m)" "length fb' = length (framebuffer s)"
    "\<And>k d g' m' g'' m''. k < rows s * cols s \<Longrightarrow> k \<noteq> j \<Longrightarrow> shown (drawn s fb' g' m') k d = shown (drawn s fb g'' m'') k d" "\<And>g' m'. shown (drawn s fb' g' m') j c"
proof -
  let ?s = "drawn s fb g m" and ?x = "j mod cols s" and ?y = "j div cols s"
  obtain t where t: "plot_char c ?x ?y ?s = Done t" "painted (cell_pixels ?x ?y ?s) (cell_image c ?x ?y ?s) ?s t"
    using plot_char_painted [of ?s c ?x ?y] cell_split [OF ok(1) j] ok(2) fb c by (auto simp: runs_iff)
  obtain fb' where f: "t = drawn s fb' g m" "length fb' = length (framebuffer s)"
    "\<And>k d g' m' g'' m''. k < rows s * cols s \<Longrightarrow> k \<noteq> j \<Longrightarrow> shown (drawn s fb' g' m') k d = shown (drawn s fb g'' m'') k d"
    by (rule redrawn [OF ok fb j t(2)]) (use that in simp_all)
  have "cell_shows c ?x ?y t" using painted_shows [OF _ _ _ t(2)] cell_split [OF ok(1) j] ok(2) fb by simp
  then have "shown (drawn s fb' g' m') j c" for g' m' by (simp add: f(1) shown_def cell_shows_def)
  with t f show ?thesis using that by blast
qed

lemma redraw_item:
  assumes ok: "fb_ok s" "plot_ok s" and fb: "length fb = length (framebuffer s)" and j: "j < rows s * cols s" and c: "glyph_ok c" "glyph_ok old"
  obtains fb' where "(if ch_bg c = ch_bg old \<and> ch_fg c = ch_fg old then plot_char_fast old c (j mod cols s) (j div cols s) (drawn s fb g m)
      else plot_char c (j mod cols s) (j div cols s) (drawn s fb g m)) = Done (drawn s fb' g m)" "length fb' = length (framebuffer s)"
    "\<And>k d g' m' g'' m''. k < rows s * cols s \<Longrightarrow> k \<noteq> j \<Longrightarrow> shown (drawn s fb' g' m') k d = shown (drawn s fb g'' m'') k d"
    "\<And>g' m' g'' m''. shown (drawn s fb g' m') j old \<Longrightarrow> shown (drawn s fb' g'' m'') j c"
proof -
  let ?s = "drawn s fb g m" and ?x = "j mod cols s" and ?y = "j div cols s"
  obtain A f t where t: "(if ch_bg c = ch_bg old \<and> ch_fg c = ch_fg old then plot_char_fast old c ?x ?y ?s else plot_char c ?x ?y ?s) = Done t"
    "painted A f ?s t" "A \<subseteq> cell_pixels ?x ?y ?s" "cell_shows old ?x ?y ?s \<Longrightarrow> cell_shows c ?x ?y t"
    by (rule plot_item [of ?s c old ?x ?y]) (use cell_split [OF ok(1) j] ok(2) fb c in simp_all)
  obtain fb' where f: "t = drawn s fb' g m" "length fb' = length (framebuffer s)"
    "\<And>k d g' m' g'' m''. k < rows s * cols s \<Longrightarrow> k \<noteq> j \<Longrightarrow> shown (drawn s fb' g' m') k d = shown (drawn s fb g'' m'') k d"
    by (rule redrawn [OF ok fb j t(2)]) (use t(3) that in simp_all)
  have "shown (drawn s fb g' m') j old \<Longrightarrow> shown (drawn s fb' g'' m'') j c" for g' m' g'' m'' using t(4) by (simp add: f(1) shown_def cell_shows_def)
  with t(1) f show ?thesis using that by blast
qed

text \<open>A cell whose item is still to come, or one that has been dealt with.\<close>

definition cell_state :: "'a fbterm_context_scheme \<Rightarrow> nat \<Rightarrow> fbterm_char list \<Rightarrow> nat option list \<Rightarrow> nat \<Rightarrow> bool" where
  "cell_state s i g m j \<longleftrightarrow> (case m ! j of None \<Rightarrow> g ! j = screen s j | Some k \<Rightarrow> i \<le> k \<and> qmap s ! j = Some k \<and> g ! j = grid s ! j)"

definition cell_picture :: "'a fbterm_context_scheme \<Rightarrow> u32 list \<Rightarrow> fbterm_char list \<Rightarrow> nat option list \<Rightarrow> nat \<Rightarrow> bool" where
  "cell_picture s fb g m j \<longleftrightarrow>
     (if cursor_status s \<and> j = cursor_cell s then shown (drawn s fb g m) j (inverted (screen s j)) \<and> m ! j = None
      else j \<noteq> old_cell s \<longrightarrow> shown (drawn s fb g m) j (g ! j))"

definition flushed :: "'a fbterm_context_scheme \<Rightarrow> nat \<Rightarrow> 'a fbterm_context_scheme \<Rightarrow> bool" where
  "flushed s i t \<longleftrightarrow> (\<exists>fb g m. t = drawn s fb g m \<and> length fb = length (framebuffer s) \<and> length g = rows s * cols s \<and> length m = rows s * cols s \<and>
     (\<forall>j < rows s * cols s. cell_state s i g m j \<and> cell_picture s fb g m j))"

text \<open>Between two flushes the frame buffer shows the grid, but for the cell that had the cursor.\<close>

definition displayed :: "'a fbterm_context_scheme \<Rightarrow> bool" where
  "displayed s \<longleftrightarrow> (\<forall>j < rows s * cols s. j \<noteq> old_cell s \<longrightarrow> shown s j (grid s ! j))"

lemma draw_cursor_flushed:
  assumes ok: "fb_ok s" "plot_ok s" "cursor_ok s" and d: "displayed s"
  shows "runs (flushed s 0) (if cursor_status s then draw_cursor s else Done s)"
proof (cases "cursor_status s")
  case False
  have "cell_state s 0 (grid s) (qmap s) j \<and> cell_picture s (framebuffer s) (grid s) (qmap s) j" if "j < rows s * cols s" for j
    using False d that by (simp add: cell_state_def cell_picture_def displayed_def drawn_self screen_def split: option.split)
  then have "flushed s 0 s" unfolding flushed_def using fb_okD(1,2) [OF ok(1)] drawn_self [of s] by (metis (no_types, lifting))
  with False show ?thesis by simp
next
  case True
  let ?j = "cursor_cell s"
  have j: "?j < rows s * cols s" "?j mod cols s = cursor_x s" "?j div cols s = cursor_y s"
    using ok(3) cell_bound [of "cursor_y s" "rows s" "cursor_x s" "cols s"] by (simp_all add: cursor_ok_def cursor_cell_def add.commute)
  obtain fb where fb: "plot_char (inverted (screen s ?j)) (cursor_x s) (cursor_y s) s = Done (drawn s fb (grid s) (qmap s))" "length fb = length (framebuffer s)"
    "\<And>k d g' m' g'' m''. k < rows s * cols s \<Longrightarrow> k \<noteq> ?j \<Longrightarrow> shown (drawn s fb g' m') k d = shown (drawn s (framebuffer s) g'' m'') k d"
    "\<And>g' m'. shown (drawn s fb g' m') ?j (inverted (screen s ?j))"
    by (rule redraw [OF ok(1,2) refl j(1), of "inverted (screen s ?j)" "grid s" "qmap s", unfolded drawn_self j]) (use fb_okD(7) [OF ok(1) j(1)] that in auto)
  let ?g = "(grid s)[?j := screen s ?j]" and ?m = "(qmap s)[?j := None]"
  note l = fb_okD(1,2) [OF ok(1)]
  have "draw_cursor s = Done (drawn s fb ?g ?m)"
    using fb(1) cell_char_ok [OF ok(1) j(1)] l j(1) unfolding cursor_cell_def
    by (auto simp: draw_cursor_def inverted_def screen_def list_update_id [of "qmap s"] Let_def) (metis list_update_id)
  moreover have "cell_state s 0 ?g ?m k \<and> cell_picture s fb ?g ?m k" if k: "k < rows s * cols s" for k
  proof (cases "k = ?j")
    case True with k l fb(4) show ?thesis by (simp add: cell_state_def cell_picture_def \<open>cursor_status s\<close>)
  next
    case False
    with d k have "k \<noteq> old_cell s \<Longrightarrow> shown s k (grid s ! k)" by (simp add: displayed_def)
    then have "k \<noteq> old_cell s \<Longrightarrow> shown (drawn s fb ?g ?m) k (grid s ! k)" using fb(3) [OF k False, of _ _ _ "grid s" "qmap s"] by (simp add: drawn_self)
    with False k l show ?thesis by (simp add: cell_state_def cell_picture_def screen_def split: option.split)
  qed
  ultimately show ?thesis using True fb(2) l unfolding flushed_def by (simp, metis length_list_update)
qed

lemma flush_item_flushed:
  assumes ok: "fb_ok s" "plot_ok s" and i: "i < queue_i s" and t: "flushed s i t"
  shows "runs (flushed s (Suc i)) (flush_item i t)"
proof -
  from t obtain fb g m where u: "t = drawn s fb g m" "length fb = length (framebuffer s)" "length g = rows s * cols s" "length m = rows s * cols s"
    "\<And>j. j < rows s * cols s \<Longrightarrow> cell_state s i g m j \<and> cell_picture s fb g m j" unfolding flushed_def by blast
  let ?q = "queue s ! i"
  let ?j = "cell_index s ?q"
  have q: "q_x ?q < cols s" "q_y ?q < rows s" "qmap s ! ?j = Some i" "i < length (queue s)" using fb_okD(3,4,5) [OF ok(1)] i by simp_all
  then have j: "?j < rows s * cols s" "?j mod cols s = q_x ?q" "?j div cols s = q_y ?q" "screen s ?j = q_c ?q" "q_y ?q * cols s + q_x ?q = ?j"
    using cell_bound [OF q(2,1)] by (simp_all add: cell_index_def screen_def)
  have other: "cell_state s (Suc i) g' m' k" if "k < rows s * cols s" "k \<noteq> ?j" "g' ! k = g ! k" "m' ! k = m ! k" for k g' m'
  proof -
    have "m ! k = Some i \<Longrightarrow> False" using u(5) [OF that(1)] fb_okD(6) [OF ok(1) that(1), of i] that(2) by (auto simp: cell_state_def)
    with u(5) [OF that(1)] that(3,4) show ?thesis by (auto simp: cell_state_def le_less Suc_le_eq split: option.splits)
  qed
  show ?thesis
  proof (cases "m ! ?j")
    case None
    have "cell_state s (Suc i) g m k" if "k < rows s * cols s" for k
      using other [OF that] u(5) [OF that] None by (cases "k = ?j") (simp_all add: cell_state_def)
    then have "flushed s (Suc i) t" unfolding flushed_def using u by blast
    with None show ?thesis using u(1,4) q(4) j by (simp add: flush_item_def Let_def)
  next
    case (Some k)
    have g: "g ! ?j = grid s ! ?j" and nc: "\<not> (cursor_status s \<and> ?j = cursor_cell s)" using u(5) [OF j(1)] Some by (auto simp: cell_state_def cell_picture_def)
    have gl: "glyph_ok (q_c ?q)" "glyph_ok (g ! ?j)" using fb_okD(7) [OF ok(1) j(1)] g j(4) by simp_all
    obtain fb' where f: "(if ch_bg (q_c ?q) = ch_bg (g ! ?j) \<and> ch_fg (q_c ?q) = ch_fg (g ! ?j) then plot_char_fast (g ! ?j) (q_c ?q) (q_x ?q) (q_y ?q) (drawn s fb g m)
        else plot_char (q_c ?q) (q_x ?q) (q_y ?q) (drawn s fb g m)) = Done (drawn s fb' g m)" "length fb' = length (framebuffer s)"
      "\<And>k d g' m' g'' m''. k < rows s * cols s \<Longrightarrow> k \<noteq> ?j \<Longrightarrow> shown (drawn s fb' g' m') k d = shown (drawn s fb g'' m'') k d"
      "\<And>g' m' g'' m''. shown (drawn s fb g' m') ?j (g ! ?j) \<Longrightarrow> shown (drawn s fb' g'' m'') ?j (q_c ?q)"
      by (rule redraw_item [OF ok u(2) j(1) gl, unfolded j(2,3), of g m]) (use that in auto)
    let ?g = "g[?j := q_c ?q]" and ?m = "m[?j := None]"
    have "flush_item i t = Done (drawn s fb' ?g ?m)"
      using Some f(1) u(1,3,4) q(4) j by (simp add: flush_item_def Let_def)
    moreover have "cell_state s (Suc i) ?g ?m k \<and> cell_picture s fb' ?g ?m k" if k: "k < rows s * cols s" for k
    proof (cases "k = ?j")
      case True
      then show ?thesis using f(4) u(3,4) u(5) [OF j(1)] nc j by (auto simp: cell_state_def cell_picture_def)
    next
      case False
      then have "?g ! k = g ! k" "?m ! k = m ! k" by simp_all
      with other [OF k False this] conjunct2 [OF u(5) [OF k]] f(3) [OF k False, of ?g ?m _ g m] show ?thesis by (simp add: cell_picture_def cong del: if_weak_cong split del: if_split)
    qed
    ultimately show ?thesis unfolding flushed_def using f(2) u(3,4) by (simp, metis length_list_update)
  qed
qed

lemma flushed_fields:
  assumes "flushed s i t"
  shows "queue_i t = queue_i s" "old_cursor_x t = old_cursor_x s" "old_cursor_y t = old_cursor_y s" "cursor_x t = cursor_x s" "cursor_y t = cursor_y s" "cursor_status t = cursor_status s"
  using assms unfolding flushed_def by auto

text \<open>After the flush: nothing is queued, the grid is the screen and the frame buffer shows it.\<close>

definition flush_done :: "'a fbterm_context_scheme \<Rightarrow> 'a fbterm_context_scheme \<Rightarrow> bool" where
  "flush_done s t \<longleftrightarrow> (\<exists>fb g m. t = (drawn s fb g m)\<lparr>old_cursor_x := cursor_x s, old_cursor_y := cursor_y s, queue_i := 0\<rparr> \<and>
     length fb = length (framebuffer s) \<and> length g = rows s * cols s \<and> length m = rows s * cols s \<and>
     (\<forall>j < rows s * cols s. m ! j = None \<and> g ! j = screen s j \<and>
        shown (drawn s fb g m) j (if cursor_status s \<and> j = cursor_cell s then inverted (screen s j) else screen s j)))"

lemma old_cursor_redrawn:
  assumes ok: "fb_ok s" "plot_ok s" "cursor_ok s" and t: "flushed s (queue_i s) t"
  shows "runs (\<lambda>u. flush_done s (u\<lparr>old_cursor_x := cursor_x u, old_cursor_y := cursor_y u, queue_i := 0\<rparr>))
    (if (old_cursor_x t \<noteq> cursor_x t \<or> old_cursor_y t \<noteq> cursor_y t) \<or> cursor_status t = False
     then bind_outcome (array_at (grid t) (old_cursor_x t + old_cursor_y t * cols t)) (\<lambda>c. plot_char c (old_cursor_x t) (old_cursor_y t) t)
     else Done t)"
proof -
  have j: "old_cell s < rows s * cols s" "old_cell s mod cols s = old_cursor_x s" "old_cell s div cols s = old_cursor_y s"
    using ok(3) cell_bound [of "old_cursor_y s" "rows s" "old_cursor_x s" "cols s"] by (simp_all add: cursor_ok_def old_cell_def add.commute)
  have moved: "(old_cursor_x s \<noteq> cursor_x s \<or> old_cursor_y s \<noteq> cursor_y s) \<longleftrightarrow> old_cell s \<noteq> cursor_cell s"
    using j(2,3) ok(3) cell_join [of "cursor_x s" "cols s" "cursor_y s"] unfolding old_cell_def cursor_cell_def cursor_ok_def by metis
  from t obtain fb g m where u: "t = drawn s fb g m" "length fb = length (framebuffer s)" "length g = rows s * cols s" "length m = rows s * cols s"
    "\<And>j. j < rows s * cols s \<Longrightarrow> cell_state s (queue_i s) g m j \<and> cell_picture s fb g m j" unfolding flushed_def by blast
  have c: "m ! k = None \<and> g ! k = screen s k" if "k < rows s * cols s" for k
    using u(5) [OF that] fb_okD(6) [OF ok(1) that] by (fastforce simp: cell_state_def split: option.splits)
  show ?thesis
  proof (cases "old_cell s \<noteq> cursor_cell s \<or> \<not> cursor_status s")
    case True
    obtain fb' where f: "plot_char (g ! old_cell s) (old_cursor_x s) (old_cursor_y s) (drawn s fb g m) = Done (drawn s fb' g m)" "length fb' = length (framebuffer s)"
      "\<And>k d g' m' g'' m''. k < rows s * cols s \<Longrightarrow> k \<noteq> old_cell s \<Longrightarrow> shown (drawn s fb' g' m') k d = shown (drawn s fb g'' m'') k d"
      "\<And>g' m'. shown (drawn s fb' g' m') (old_cell s) (g ! old_cell s)"
      by (rule redraw [OF ok(1,2) u(2) j(1), of "g ! old_cell s" g m, unfolded j(2,3)]) (use fb_okD(7) [OF ok(1) j(1)] c [OF j(1)] that in auto)
    have "shown (drawn s fb' g m) k (if cursor_status s \<and> k = cursor_cell s then inverted (screen s k) else screen s k)" if k: "k < rows s * cols s" for k
      using f(4) f(3) [OF k, of g m _ g m] u(5) [OF k] c [OF k] True by (cases "k = old_cell s") (auto simp: cell_picture_def split: if_splits)
    with c f(2) u(3,4) have "flush_done s ((drawn s fb' g m)\<lparr>old_cursor_x := cursor_x s, old_cursor_y := cursor_y s, queue_i := 0\<rparr>)" unfolding flush_done_def by blast
    with True f(1) u(1,3) j(1) moved show ?thesis by (simp add: old_cell_def)
  next
    case False
    have "shown (drawn s fb g m) k (if cursor_status s \<and> k = cursor_cell s then inverted (screen s k) else screen s k)" if k: "k < rows s * cols s" for k
      using u(5) [OF k] c [OF k] False by (auto simp: cell_picture_def split: if_splits)
    with c u(2-4) have "flush_done s ((drawn s fb g m)\<lparr>old_cursor_x := cursor_x s, old_cursor_y := cursor_y s, queue_i := 0\<rparr>)" unfolding flush_done_def by blast
    with False u(1) moved show ?thesis by simp
  qed
qed

lemma flush_run:
  assumes ok: "fb_ok s" "plot_ok s" "cursor_ok s" and d: "displayed s"
  shows "runs (flush_done s) (fbterm_double_buffer_flush s)"
proof -
  have "runs (flushed s (queue_i s)) (for_outcome [0..<queue_i t] flush_item t)" if "flushed s 0 t" for t
    unfolding flushed_fields(1) [OF that] using that by (rule runs_for) (use flush_item_flushed [OF ok(1,2)] in auto)
  then have "runs (\<lambda>t. runs (flushed s (queue_i s)) (for_outcome [0..<queue_i t] flush_item t)) (if cursor_status s then draw_cursor s else Done s)"
    by (rule runs_mono [OF draw_cursor_flushed [OF ok d]])
  then show ?thesis unfolding fbterm_double_buffer_flush_def runs_bind runs.simps
    by (rule runs_mono) (erule runs_mono, rule old_cursor_redrawn [OF ok, unfolded runs_bind])
qed

end
