(* ===== verification/Term_Safe.thy ===== *)
theory Term_Safe
  imports Term Term_Draw
begin

text \<open>
  The parser stays inside its arrays. The invariant of the terminal and the proof that writing any
  bytes keeps it, as long as no sequence asks for a palette entry past the end of the colour table
  or for a scrolling region that ends above the last row.
\<close>

section \<open>The invariant\<close>
lemma fb_ok_fields [simp]:
  "fb_ok (s\<lparr>tab_size := v0\<rparr>) = fb_ok s" "fb_ok (s\<lparr>autoflush := v1\<rparr>) = fb_ok s" "fb_ok (s\<lparr>scroll_enabled := v2\<rparr>) = fb_ok s"
  "fb_ok (s\<lparr>control_sequence := v3\<rparr>) = fb_ok s" "fb_ok (s\<lparr>csi := v4\<rparr>) = fb_ok s" "fb_ok (s\<lparr>escape := v5\<rparr>) = fb_ok s"
  "fb_ok (s\<lparr>rrr := v6\<rparr>) = fb_ok s" "fb_ok (s\<lparr>discard_next := v7\<rparr>) = fb_ok s" "fb_ok (s\<lparr>bold := v8\<rparr>) = fb_ok s"
  "fb_ok (s\<lparr>reverse_video := v9\<rparr>) = fb_ok s" "fb_ok (s\<lparr>dec_private := v10\<rparr>) = fb_ok s" "fb_ok (s\<lparr>insert_mode := v11\<rparr>) = fb_ok s"
  "fb_ok (s\<lparr>g_select := v12\<rparr>) = fb_ok s" "fb_ok (s\<lparr>charsets := v13\<rparr>) = fb_ok s" "fb_ok (s\<lparr>current_charset := v14\<rparr>) = fb_ok s"
  "fb_ok (s\<lparr>escape_offset := v15\<rparr>) = fb_ok s" "fb_ok (s\<lparr>esc_values_i := v16\<rparr>) = fb_ok s" "fb_ok (s\<lparr>saved_cursor_x := v17\<rparr>) = fb_ok s"
  "fb_ok (s\<lparr>saved_cursor_y := v18\<rparr>) = fb_ok s" "fb_ok (s\<lparr>current_primary := v19\<rparr>) = fb_ok s" "fb_ok (s\<lparr>scroll_top_margin := v20\<rparr>) = fb_ok s"
  "fb_ok (s\<lparr>scroll_bottom_margin := v21\<rparr>) = fb_ok s" "fb_ok (s\<lparr>esc_values := v22\<rparr>) = fb_ok s" "fb_ok (s\<lparr>saved_state_bold := v23\<rparr>) = fb_ok s"
  "fb_ok (s\<lparr>saved_state_reverse_video := v24\<rparr>) = fb_ok s" "fb_ok (s\<lparr>saved_state_current_charset := v25\<rparr>) = fb_ok s" "fb_ok (s\<lparr>saved_state_current_primary := v26\<rparr>) = fb_ok s"
  "fb_ok (s\<lparr>callback_log := v27\<rparr>) = fb_ok s" "fb_ok (s\<lparr>text_fg := v28\<rparr>) = fb_ok s" "fb_ok (s\<lparr>text_bg := v29\<rparr>) = fb_ok s"
  "fb_ok (s\<lparr>cursor_status := v30\<rparr>) = fb_ok s" "fb_ok (s\<lparr>saved_state_text_fg := v31\<rparr>) = fb_ok s" "fb_ok (s\<lparr>saved_state_text_bg := v32\<rparr>) = fb_ok s"
  "fb_ok (s\<lparr>saved_state_cursor_x := v33\<rparr>) = fb_ok s" "fb_ok (s\<lparr>saved_state_cursor_y := v34\<rparr>) = fb_ok s" "fb_ok (s\<lparr>old_cursor_x := v35\<rparr>) = fb_ok s"
  "fb_ok (s\<lparr>old_cursor_y := v36\<rparr>) = fb_ok s" "fb_ok (s\<lparr>framebuffer := v37\<rparr>) = fb_ok s"
  by (rule fb_ok_cong; simp add: cell_part_def)+

lemma screen_fields [simp]:
  "screen (s\<lparr>tab_size := v0\<rparr>) = screen s" "screen (s\<lparr>autoflush := v1\<rparr>) = screen s" "screen (s\<lparr>scroll_enabled := v2\<rparr>) = screen s"
  "screen (s\<lparr>control_sequence := v3\<rparr>) = screen s" "screen (s\<lparr>csi := v4\<rparr>) = screen s" "screen (s\<lparr>escape := v5\<rparr>) = screen s"
  "screen (s\<lparr>rrr := v6\<rparr>) = screen s" "screen (s\<lparr>discard_next := v7\<rparr>) = screen s" "screen (s\<lparr>bold := v8\<rparr>) = screen s"
  "screen (s\<lparr>reverse_video := v9\<rparr>) = screen s" "screen (s\<lparr>dec_private := v10\<rparr>) = screen s" "screen (s\<lparr>insert_mode := v11\<rparr>) = screen s"
  "screen (s\<lparr>g_select := v12\<rparr>) = screen s" "screen (s\<lparr>charsets := v13\<rparr>) = screen s" "screen (s\<lparr>current_charset := v14\<rparr>) = screen s"
  "screen (s\<lparr>escape_offset := v15\<rparr>) = screen s" "screen (s\<lparr>esc_values_i := v16\<rparr>) = screen s" "screen (s\<lparr>saved_cursor_x := v17\<rparr>) = screen s"
  "screen (s\<lparr>saved_cursor_y := v18\<rparr>) = screen s" "screen (s\<lparr>current_primary := v19\<rparr>) = screen s" "screen (s\<lparr>scroll_top_margin := v20\<rparr>) = screen s"
  "screen (s\<lparr>scroll_bottom_margin := v21\<rparr>) = screen s" "screen (s\<lparr>esc_values := v22\<rparr>) = screen s" "screen (s\<lparr>saved_state_bold := v23\<rparr>) = screen s"
  "screen (s\<lparr>saved_state_reverse_video := v24\<rparr>) = screen s" "screen (s\<lparr>saved_state_current_charset := v25\<rparr>) = screen s" "screen (s\<lparr>saved_state_current_primary := v26\<rparr>) = screen s"
  "screen (s\<lparr>callback_log := v27\<rparr>) = screen s" "screen (s\<lparr>text_fg := v28\<rparr>) = screen s" "screen (s\<lparr>text_bg := v29\<rparr>) = screen s"
  "screen (s\<lparr>cursor_status := v30\<rparr>) = screen s" "screen (s\<lparr>saved_state_text_fg := v31\<rparr>) = screen s" "screen (s\<lparr>saved_state_text_bg := v32\<rparr>) = screen s"
  "screen (s\<lparr>saved_state_cursor_x := v33\<rparr>) = screen s" "screen (s\<lparr>saved_state_cursor_y := v34\<rparr>) = screen s" "screen (s\<lparr>old_cursor_x := v35\<rparr>) = screen s"
  "screen (s\<lparr>old_cursor_y := v36\<rparr>) = screen s" "screen (s\<lparr>framebuffer := v37\<rparr>) = screen s"
  by (rule screen_cong; simp add: cell_part_def)+

lemma plot_ok_fields [simp]:
  "plot_ok (s\<lparr>saved_cursor_x := v0\<rparr>) = plot_ok s" "plot_ok (s\<lparr>saved_cursor_y := v1\<rparr>) = plot_ok s" "plot_ok (s\<lparr>insert_mode := v2\<rparr>) = plot_ok s" "plot_ok (s\<lparr>callback_log := v3\<rparr>) = plot_ok s"
  "plot_ok (s\<lparr>cursor_status := v4\<rparr>) = plot_ok s" "plot_ok (s\<lparr>dec_private := v5\<rparr>) = plot_ok s" "plot_ok (s\<lparr>scroll_enabled := v6\<rparr>) = plot_ok s" "plot_ok (s\<lparr>control_sequence := v7\<rparr>) = plot_ok s"
  "plot_ok (s\<lparr>escape := v8\<rparr>) = plot_ok s" "plot_ok (s\<lparr>csi := v9\<rparr>) = plot_ok s" "plot_ok (s\<lparr>escape_offset := v10\<rparr>) = plot_ok s" "plot_ok (s\<lparr>discard_next := v11\<rparr>) = plot_ok s"
  "plot_ok (s\<lparr>current_charset := v12\<rparr>) = plot_ok s" "plot_ok (s\<lparr>g_select := v13\<rparr>) = plot_ok s" "plot_ok (s\<lparr>scroll_top_margin := v14\<rparr>) = plot_ok s" "plot_ok (s\<lparr>scroll_bottom_margin := v15\<rparr>) = plot_ok s"
  "plot_ok (s\<lparr>esc_values := v16\<rparr>) = plot_ok s" "plot_ok (s\<lparr>esc_values_i := v17\<rparr>) = plot_ok s" "plot_ok (s\<lparr>rrr := v18\<rparr>) = plot_ok s" "plot_ok (s\<lparr>charsets := v19\<rparr>) = plot_ok s"
  "plot_ok (s\<lparr>bold := v20\<rparr>) = plot_ok s" "plot_ok (s\<lparr>reverse_video := v21\<rparr>) = plot_ok s" "plot_ok (s\<lparr>current_primary := v22\<rparr>) = plot_ok s" "plot_ok (s\<lparr>text_fg := v23\<rparr>) = plot_ok s"
  "plot_ok (s\<lparr>text_bg := v24\<rparr>) = plot_ok s" "plot_ok (s\<lparr>saved_state_bold := v25\<rparr>) = plot_ok s" "plot_ok (s\<lparr>saved_state_reverse_video := v26\<rparr>) = plot_ok s" "plot_ok (s\<lparr>saved_state_current_charset := v27\<rparr>) = plot_ok s"
  "plot_ok (s\<lparr>saved_state_current_primary := v28\<rparr>) = plot_ok s" "plot_ok (s\<lparr>saved_state_text_fg := v29\<rparr>) = plot_ok s" "plot_ok (s\<lparr>saved_state_text_bg := v30\<rparr>) = plot_ok s" "plot_ok (s\<lparr>saved_state_cursor_x := v31\<rparr>) = plot_ok s"
  "plot_ok (s\<lparr>saved_state_cursor_y := v32\<rparr>) = plot_ok s" "plot_ok (s\<lparr>cursor_x := v33\<rparr>) = plot_ok s" "plot_ok (s\<lparr>cursor_y := v34\<rparr>) = plot_ok s" "plot_ok (s\<lparr>tab_size := v35\<rparr>) = plot_ok s"
  "plot_ok (s\<lparr>autoflush := v36\<rparr>) = plot_ok s"
  "plot_ok (s\<lparr>queue := w0\<rparr>) = plot_ok s"
  by (simp_all add: plot_ok_def)

definition picture_part where
  "picture_part s = ((rows s, cols s, framebuffer s, grid s, old_cursor_x s, old_cursor_y s, pitch s, width s, canvas s),
     (offset_x s, offset_y s, glyph_width s, glyph_height s, font_bool s, font_height s, font_width s, font_scale_x s, font_scale_y s))"

lemma displayed_cong:
  assumes "picture_part t = picture_part s"
  shows "displayed t = displayed s"
proof -
  have "pixel_at x y gx gy t = pixel_at x y gx gy s" "cell_image c x y t = cell_image c x y s" for x y gx gy c
    using assms by (simp_all add: picture_part_def pixel_at_def cell_image_def fun_eq_iff Let_def)
  with assms show ?thesis by (simp add: picture_part_def displayed_def old_cell_def shown_def cell_shows_def cell_pixels_def)
qed

lemma displayed_fields [simp]:
  "displayed (s\<lparr>saved_cursor_x := v0\<rparr>) = displayed s" "displayed (s\<lparr>saved_cursor_y := v1\<rparr>) = displayed s" "displayed (s\<lparr>insert_mode := v2\<rparr>) = displayed s" "displayed (s\<lparr>callback_log := v3\<rparr>) = displayed s"
  "displayed (s\<lparr>cursor_status := v4\<rparr>) = displayed s" "displayed (s\<lparr>dec_private := v5\<rparr>) = displayed s" "displayed (s\<lparr>scroll_enabled := v6\<rparr>) = displayed s" "displayed (s\<lparr>control_sequence := v7\<rparr>) = displayed s"
  "displayed (s\<lparr>escape := v8\<rparr>) = displayed s" "displayed (s\<lparr>csi := v9\<rparr>) = displayed s" "displayed (s\<lparr>escape_offset := v10\<rparr>) = displayed s" "displayed (s\<lparr>discard_next := v11\<rparr>) = displayed s"
  "displayed (s\<lparr>current_charset := v12\<rparr>) = displayed s" "displayed (s\<lparr>g_select := v13\<rparr>) = displayed s" "displayed (s\<lparr>scroll_top_margin := v14\<rparr>) = displayed s" "displayed (s\<lparr>scroll_bottom_margin := v15\<rparr>) = displayed s"
  "displayed (s\<lparr>esc_values := v16\<rparr>) = displayed s" "displayed (s\<lparr>esc_values_i := v17\<rparr>) = displayed s" "displayed (s\<lparr>rrr := v18\<rparr>) = displayed s" "displayed (s\<lparr>charsets := v19\<rparr>) = displayed s"
  "displayed (s\<lparr>bold := v20\<rparr>) = displayed s" "displayed (s\<lparr>reverse_video := v21\<rparr>) = displayed s" "displayed (s\<lparr>current_primary := v22\<rparr>) = displayed s" "displayed (s\<lparr>text_fg := v23\<rparr>) = displayed s"
  "displayed (s\<lparr>text_bg := v24\<rparr>) = displayed s" "displayed (s\<lparr>saved_state_bold := v25\<rparr>) = displayed s" "displayed (s\<lparr>saved_state_reverse_video := v26\<rparr>) = displayed s" "displayed (s\<lparr>saved_state_current_charset := v27\<rparr>) = displayed s"
  "displayed (s\<lparr>saved_state_current_primary := v28\<rparr>) = displayed s" "displayed (s\<lparr>saved_state_text_fg := v29\<rparr>) = displayed s" "displayed (s\<lparr>saved_state_text_bg := v30\<rparr>) = displayed s" "displayed (s\<lparr>saved_state_cursor_x := v31\<rparr>) = displayed s"
  "displayed (s\<lparr>saved_state_cursor_y := v32\<rparr>) = displayed s" "displayed (s\<lparr>cursor_x := v33\<rparr>) = displayed s" "displayed (s\<lparr>cursor_y := v34\<rparr>) = displayed s" "displayed (s\<lparr>tab_size := v35\<rparr>) = displayed s"
  "displayed (s\<lparr>autoflush := v36\<rparr>) = displayed s"
  "displayed (s\<lparr>queue := w0\<rparr>) = displayed s" "displayed (s\<lparr>queue_i := w1\<rparr>) = displayed s" "displayed (s\<lparr>qmap := w2\<rparr>) = displayed s"
  by (rule displayed_cong; simp add: picture_part_def)+

definition primary_ok :: "nat \<Rightarrow> bool" where
  "primary_ok n \<longleftrightarrow> n = NO_PRIMARY \<or> n < 8"

definition parser_ok :: "'a fbterm_context_scheme \<Rightarrow> bool" where
  "parser_ok s \<longleftrightarrow> length (esc_values s) = 16 \<and> esc_values_i s \<le> 16 \<and> (rrr s \<longrightarrow> esc_values_i s < 16) \<and>
     length (charsets s) = 2 \<and> current_charset s < 2 \<and> saved_state_current_charset s < 2 \<and> g_select s \<le> 2 \<and>
     primary_ok (current_primary s) \<and> primary_ok (saved_state_current_primary s) \<and>
     length (ansi_colours s) = 8 \<and> length (ansi_bright_colours s) = 8"

definition term_ok :: "'a fbterm_context_scheme \<Rightarrow> bool" where
  "term_ok s \<longleftrightarrow> fb_ok s \<and> cursor_ok s \<and> parser_ok s \<and> plot_ok s \<and> displayed s"

lemmas term_ok_defs = term_ok_def cursor_ok_def parser_ok_def

lemma term_okD: "term_ok s \<Longrightarrow> fb_ok s" "term_ok s \<Longrightarrow> cursor_x s < cols s" "term_ok s \<Longrightarrow> cursor_y s < rows s"
  "term_ok s \<Longrightarrow> length (esc_values s) = 16"
  by (simp_all add: term_ok_defs)

text \<open>Moving the cursor and writing to the queue.\<close>
lemma term_ok_off_cursor:
  assumes "term_ok s" and "off_cursor t = off_cursor s" and "fb_ok t" and "cursor_x t < cols s" and "cursor_y t < rows s"
  shows "term_ok t"
proof -
  have "parser_ok t = parser_ok s" "plot_ok t = plot_ok s" "displayed t = displayed s" "rows t = rows s" "cols t = cols s" "old_cursor_x t = old_cursor_x s" "old_cursor_y t = old_cursor_y s"
    "saved_state_cursor_x t = saved_state_cursor_x s" "saved_state_cursor_y t = saved_state_cursor_y s"
    by (rule off_cursor_field [OF assms(2)]; simp add: off_cursor_def off_screen_def parser_ok_def)+
  with assms show ?thesis by (simp add: term_ok_def cursor_ok_def)
qed

lemma region_off_cursor: "off_cursor t = off_cursor s \<Longrightarrow> region_ok t = region_ok s"
  by (rule off_cursor_field) (simp_all add: off_cursor_def off_screen_def region_ok_def)

lemma set_cursor_pos_ok:
  assumes "fb_ok s"
  shows "cursor_x (fbterm_set_cursor_pos x y s) < cols s" "cursor_y (fbterm_set_cursor_pos x y s) < rows s"
    "off_cursor (fbterm_set_cursor_pos x y s) = off_cursor s" "fb_ok (fbterm_set_cursor_pos x y s)" "screen (fbterm_set_cursor_pos x y s) = screen s"
  using assms rows_less [OF assms] fb_okD(8,9) [OF assms] by (auto simp: fbterm_set_cursor_pos_def Let_def)

lemma term_ok_set_cursor [simp]: "term_ok s \<Longrightarrow> term_ok (fbterm_set_cursor_pos x y s)"
  using set_cursor_pos_ok [OF term_okD(1)] by (blast intro: term_ok_off_cursor)

lemma region_set_cursor [simp]: "region_ok (fbterm_set_cursor_pos x y s) = region_ok s"
  by (rule region_off_cursor) (simp add: fbterm_set_cursor_pos_def Let_def)

text \<open>A command that ends by placing the cursor.\<close>
lemma placed:
  assumes "term_ok s" and "off_cursor t = off_cursor s" and "fb_ok t"
  shows "term_ok (fbterm_set_cursor_pos x y t)"
proof -
  have "cols t = cols s" "rows t = rows s" by (rule off_cursor_field [OF assms(2)]; simp add: off_cursor_def off_screen_def)+
  with set_cursor_pos_ok [OF assms(3)] assms show ?thesis by (intro term_ok_off_cursor [OF assms(1)]) simp_all
qed

section \<open>Control sequences\<close>

definition safe :: "'a fbterm_context_scheme \<Rightarrow> bool" where
  "safe s \<longleftrightarrow> term_ok s \<and> region_ok s"

lemma safeD: "safe s \<Longrightarrow> term_ok s" "safe s \<Longrightarrow> region_ok s" "safe s \<Longrightarrow> fb_ok s" "safe s \<Longrightarrow> cursor_x s < cols s" "safe s \<Longrightarrow> cursor_y s < rows s"
  "safe s \<Longrightarrow> length (esc_values s) = 16"
  by (simp_all add: safe_def term_okD)

lemma safe_set_cursor [simp]: "safe s \<Longrightarrow> safe (fbterm_set_cursor_pos x y s)"
  by (simp add: safe_def)

lemma safe_esc: "safe s \<Longrightarrow> length vs = 16 \<Longrightarrow> safe (s\<lparr>esc_values := vs\<rparr>)"
  by (auto simp: safe_def term_ok_defs region_ok_def)

lemma set_esc_safe: "safe s \<Longrightarrow> i < 16 \<Longrightarrow> runs safe (set_esc i v s)"
  by (simp add: set_esc_def safeD safe_esc)

lemma esc_at: "safe s \<Longrightarrow> i < 16 \<Longrightarrow> array_at (esc_values s) i = Done (esc_values s ! i)"
  by (simp add: safeD)

lemma safe_placed:
  assumes "safe s" and "off_cursor t = off_cursor s" and "fb_ok t"
  shows "safe (fbterm_set_cursor_pos x y t)"
  using placed [OF safeD(1) [OF assms(1)] assms(2,3)] region_off_cursor [OF assms(2)] safeD(2) [OF assms(1)] by (simp add: safe_def)

lemma csi_cursor_safe:
  assumes "safe s"
  shows "runs safe (csi_cursor_up x y s)" "runs safe (csi_cursor_down x y s)" "runs safe (csi_cursor_right x y s)" "runs safe (csi_cursor_left x y s)"
proof -
  have step: "runs (\<lambda>u. runs (\<lambda>v. runs safe (Done (fbterm_set_cursor_pos (f v u) (g v u) u))) (array_at (esc_values u) 0)) (if b then set_esc 0 w s else Done s)" for f g b w
    using runs_mono [OF set_esc_safe [OF assms, of 0 w]] assms by (simp add: esc_at)
  show "runs safe (csi_cursor_up x y s)" "runs safe (csi_cursor_down x y s)" "runs safe (csi_cursor_right x y s)" "runs safe (csi_cursor_left x y s)"
    unfolding csi_cursor_up_def csi_cursor_down_def csi_cursor_right_def csi_cursor_left_def Let_def esc_at [OF assms, of 0, simplified] bind_outcome.simps runs_bind
    by (rule step)+
qed

lemma esc_position_safe: "safe s \<Longrightarrow> i < 16 \<Longrightarrow> runs (\<lambda>(v, t). safe t) (esc_position i bound s)"
  using runs_mono [OF set_esc_safe [of s i]] by (simp add: esc_position_def Let_def esc_at)

lemma put_blanks_ok:
  assumes "fb_ok s" and "region_ok s" and "cursor_y s < rows s"
  shows "runs (\<lambda>t. fb_ok t \<and> off_cursor t = off_cursor s \<and> cursor_y t < rows s) (put_blanks n s)"
  unfolding put_blanks_def
proof (rule runs_for_inv)
  fix t assume t: "fb_ok t \<and> off_cursor t = off_cursor s \<and> cursor_y t < rows s"
  have "rows t = rows s" by (rule off_cursor_field [OF conjunct1 [OF conjunct2 [OF t]]]) (simp add: off_cursor_def off_screen_def)
  with t region_off_cursor [of t s] assms(2) show "runs (\<lambda>t. fb_ok t \<and> off_cursor t = off_cursor s \<and> cursor_y t < rows s) (fbterm_raw_putchar 0x20 t)"
    by (intro runs_mono [OF raw_putchar_safe]) auto
qed (use assms in simp)

lemma blanks_placed:
  assumes s: "safe s" and t: "off_cursor t = off_cursor s" "fb_ok t" "cursor_y t < rows s"
  shows "runs (\<lambda>u. safe (fbterm_set_cursor_pos x y u)) (put_blanks n t)"
proof -
  have "rows t = rows s" by (rule off_cursor_field [OF t(1)]) (simp add: off_cursor_def off_screen_def)
  then have "runs (\<lambda>u. fb_ok u \<and> off_cursor u = off_cursor t \<and> cursor_y u < rows t) (put_blanks n t)"
    using t region_off_cursor [OF t(1)] safeD(2) [OF s] by (intro put_blanks_ok) simp_all
  then show ?thesis by (rule runs_mono) (use safe_placed [OF s] t in auto)
qed

lemma raw_placed:
  assumes s: "safe s" and t: "off_cursor t = off_cursor s" "fb_ok t" "cursor_y t < rows s"
  shows "runs (\<lambda>u. fb_ok u \<and> off_cursor u = off_cursor s \<and> cursor_y u < rows s) (fbterm_raw_putchar c t)"
proof -
  have "rows t = rows s" by (rule off_cursor_field [OF t(1)]) (simp add: off_cursor_def off_screen_def)
  then have "runs (\<lambda>u. fb_ok u \<and> off_cursor u = off_cursor t \<and> cursor_y u < rows t \<and> (cursor_x t < cols t \<and> scroll_enabled t \<longrightarrow> cursor_x u < cols t)) (fbterm_raw_putchar c t)"
    using t region_off_cursor [OF t(1)] safeD(2) [OF s] by (intro raw_putchar_safe) simp_all
  then show ?thesis by (rule runs_mono) (use t \<open>rows t = rows s\<close> in simp)
qed

lemma csi_erase_above_safe:
  assumes s: "safe s" and x: "x < cols s" and y: "y < rows s"
  shows "runs safe (csi_erase_above x y s)"
proof -
  define P where "P k = (\<lambda>(b, t). if b then safe t else k \<le> y * cols s + x \<and> fb_ok t \<and> off_cursor t = off_cursor s \<and> cursor_y t < rows s)" for k
  note c0 = set_cursor_pos_ok [OF safeD(3) [OF s], of 0 0]
  have step: "runs (P (Suc k)) (if b then Done (b, t) else bind_outcome (fbterm_raw_putchar 0x20 t) (\<lambda>t.
      if k mod cols t = x \<and> k div cols t = y then Done (True, fbterm_set_cursor_pos x y t) else Done (False, t)))" if "P k (b, t)" for k b t
  proof (cases b)
    case False
    with that have t: "k \<le> y * cols s + x" "off_cursor t = off_cursor s" "fb_ok t" "cursor_y t < rows s" by (simp_all add: P_def)
    have "runs (P (Suc k)) (if k mod cols u = x \<and> k div cols u = y then Done (True, fbterm_set_cursor_pos x y u) else Done (False, u))"
      if u: "fb_ok u \<and> off_cursor u = off_cursor s \<and> cursor_y u < rows s" for u
    proof -
      have w: "cols u = cols s" by (rule off_cursor_field [of u s]) (use u in \<open>simp_all add: off_cursor_def off_screen_def\<close>)
      have "k < y * cols s + x" if "\<not> (k mod cols s = x \<and> k div cols s = y)"
      proof (rule ccontr)
        assume "\<not> k < y * cols s + x"
        with t(1) have "k = y * cols s + x" by simp
        with that x show False by simp
      qed
      with u w safe_placed [OF s] show ?thesis by (auto simp: P_def)
    qed
    with False show ?thesis by (simp only: if_False runs_bind) (rule runs_mono [OF raw_placed [OF s t(2-4)]], simp)
  qed (use that in \<open>simp add: P_def\<close>)
  have "runs (P (rows s * cols s)) (for_outcome [0..<rows s * cols s] (\<lambda>k (b, s).
       if b then Done (b, s)
       else
         bind_outcome (fbterm_raw_putchar 0x20 s) (\<lambda>s.
         if k mod cols s = x \<and> k div cols s = y then Done (True, fbterm_set_cursor_pos x y s) else Done (False, s)))
       (False, fbterm_set_cursor_pos 0 0 s))"
    by (rule runs_for) (use c0 step in \<open>auto simp: P_def [of 0]\<close>)
  then show ?thesis unfolding csi_erase_above_def runs_bind
    by (rule runs_mono) (use cell_bound [OF y x] in \<open>auto simp: P_def split: if_splits\<close>)
qed

lemma safe_off_screen:
  assumes "safe s" and "fb_ok t" and "off_screen t = off_screen s"
  shows "safe t"
proof -
  have "off_cursor t = off_cursor s" using assms(3) by (simp add: off_cursor_def)
  moreover have "cursor_x t = cursor_x s" "cursor_y t = cursor_y s" by (rule off_screen_field [OF assms(3)]; simp add: off_screen_def)+
  ultimately show ?thesis using assms(1,2) safeD(4,5) [OF assms(1)] by (metis safe_def term_ok_off_cursor region_off_cursor)
qed

lemma safe_home:
  assumes "safe s"
  shows "safe (s\<lparr>cursor_x := 0, cursor_y := 0\<rparr>)"
proof -
  have "fbterm_set_cursor_pos 0 0 s = s\<lparr>cursor_x := 0, cursor_y := 0\<rparr>" using safeD(4,5) [OF assms] by (simp add: fbterm_set_cursor_pos_def)
  with safe_set_cursor [OF assms, of 0 0] show ?thesis by simp
qed

lemma clear_safe:
  assumes "safe s"
  shows "runs safe (fbterm_clear m s)"
proof (rule runs_mono [OF fbterm_clear_ok [OF safeD(3) [OF assms]]])
  fix t assume "\<exists>u. shows_after (\<lambda>s _. empty_char s) s u \<and> t = (if m then u\<lparr>cursor_x := 0, cursor_y := 0\<rparr> else u)"
  then obtain u where u: "shows_after (\<lambda>s _. empty_char s) s u" "t = (if m then u\<lparr>cursor_x := 0, cursor_y := 0\<rparr> else u)" by blast
  then have "safe u" by (intro safe_off_screen [OF assms]) (simp_all add: shows_after_def)
  with u(2) show "safe t" by (simp add: safe_home)
qed

lemma csi_erase_display_safe: "safe s \<Longrightarrow> x < cols s \<Longrightarrow> y < rows s \<Longrightarrow> runs safe (csi_erase_display x y s)"
  using blanks_placed [of s s x y] by (simp add: csi_erase_display_def esc_at safeD csi_erase_above_safe clear_safe)

lemma csi_erase_chars_safe: "safe s \<Longrightarrow> runs safe (csi_erase_chars x y s)"
  using blanks_placed [of s s x y] by (simp add: csi_erase_chars_def esc_at safeD)

lemma move_safe: "safe s \<Longrightarrow> runs safe (fbterm_move_character nx ny x y s)"
  by (rule runs_mono [OF fbterm_move_character_ok [OF safeD(3)]]) (auto intro: safe_off_screen)

lemma csi_delete_chars_safe:
  assumes s: "safe s"
  shows "runs safe (csi_delete_chars x y s)"
proof -
  let ?v = "unat (esc_values s ! 0)"
  have "runs safe (for_outcome [x + ?v..<cols s] (\<lambda>i s. fbterm_move_character (i - ?v) y i y s) s)"
    by (rule runs_for_inv) (use s in \<open>simp_all add: move_safe\<close>)
  then show ?thesis unfolding csi_delete_chars_def esc_at [OF s, of 0, simplified] bind_outcome.simps runs_bind
    by (rule runs_mono) (simp add: csi_erase_chars_safe)
qed

lemma countdown_whole:
  assumes "x \<le> i" and "i < 2 ^ 64"
  shows "while_outcome (2 ^ 64 + 1) (\<lambda>(i, stop, s). \<not> stop)
      (\<lambda>(i, _, s). bind_outcome (body i s) (\<lambda>s. if i = x then Done (i, True, s) else Done (sub64 i 1, False, s))) (i, False, s) =
    bind_outcome (for_outcome (rev [x..<Suc i]) body s) (\<lambda>s. Done (x, True, s))"
proof -
  have "2 ^ 64 + 1 \<noteq> Suc (i - x)" using assms(2) by linarith
  with countdown_loop [OF assms, where n = "2 ^ 64 + 1" and P = "\<lambda>_. True" and lo = "\<lambda>_. x" and s = s and body = body] assms(2)
  show ?thesis by simp
qed

lemma last_column: "fb_ok s \<Longrightarrow> sub64 (cols s) 1 = cols s - 1 \<and> Suc (cols s - 1) = cols s \<and> cols s - 1 < 2 ^ 64"
  using rows_less [of s] fb_okD(9) [of s] by (auto simp: less_diff_conv2)

lemma insert_gap_run:
  assumes "fb_ok s" and "x < cols s"
  shows "insert_gap x y s = for_outcome (rev [x..<cols s]) (\<lambda>i. fbterm_move_character (add64 i 1) y i y) s"
proof -
  have "x \<le> cols s - 1" using assms(2) by simp
  then show ?thesis unfolding insert_gap_def conjunct1 [OF last_column [OF assms(1)]]
    by (subst countdown_whole) (use last_column [OF assms(1)] in \<open>auto simp: bind_outcome_assoc\<close>)
qed

lemma insert_gap_safe:
  assumes "safe s" and "x < cols s"
  shows "runs (\<lambda>t. fb_ok t \<and> off_screen t = off_screen s) (insert_gap x y s)"
  unfolding insert_gap_run [OF safeD(3) [OF assms(1)] assms(2)]
proof (rule runs_for_inv)
  fix i t assume t: "fb_ok t \<and> off_screen t = off_screen s"
  show "runs (\<lambda>t. fb_ok t \<and> off_screen t = off_screen s) (fbterm_move_character (add64 i 1) y i y t)"
    by (rule runs_mono [OF fbterm_move_character_ok]) (use t in simp_all)
qed (simp add: safeD assms)

lemma csi_insert_blanks_safe:
  assumes s: "safe s" and x: "x < cols s"
  shows "runs safe (csi_insert_blanks x y s)"
proof -
  let ?b = "\<lambda>i s. bind_outcome (array_at (esc_values s) 0) (\<lambda>v.
       bind_outcome (fbterm_move_character (add64 i (unat v)) y i y s) (\<lambda>s. fbterm_raw_putchar 0x20 (fbterm_set_cursor_pos i y s)))"
  have "x \<le> cols s - 1" using x by simp
  then have e: "csi_insert_blanks x y s = bind_outcome (for_outcome (rev [x..<cols s]) ?b s) (\<lambda>s. Done (fbterm_set_cursor_pos x y s))"
    unfolding csi_insert_blanks_def conjunct1 [OF last_column [OF safeD(3) [OF s]]]
    using countdown_whole [of x "cols s - 1" ?b s] last_column [OF safeD(3) [OF s]] by (simp add: bind_outcome_assoc)
  let ?P = "\<lambda>t. fb_ok t \<and> off_cursor t = off_cursor s \<and> cursor_y t < rows s"
  have "runs ?P (for_outcome (rev [x..<cols s]) ?b s)"
  proof (rule runs_for_inv)
    fix i t assume t: "?P t"
    then have sv: "esc_values t = esc_values s"
      by - (rule off_cursor_field [of t s]; simp add: off_cursor_def off_screen_def)
    have "runs ?P (fbterm_raw_putchar 0x20 (fbterm_set_cursor_pos i y u))" if u: "fb_ok u \<and> off_screen u = off_screen t" for u
    proof (rule raw_placed [OF s])
      have "off_cursor u = off_cursor t" using u by (simp add: off_cursor_def)
      with t set_cursor_pos_ok(3) [of u i y] u show o: "off_cursor (fbterm_set_cursor_pos i y u) = off_cursor s" by simp
      have "rows u = rows s" using t \<open>off_cursor u = off_cursor t\<close> by - (rule off_cursor_field [of u s]; simp add: off_cursor_def off_screen_def)
      with set_cursor_pos_ok(2) [of u i y] u show "cursor_y (fbterm_set_cursor_pos i y u) < rows s" by simp
    qed (use set_cursor_pos_ok(4) u in blast)
    with t sv show "runs ?P (?b i t)" using safeD(6) [OF s] by (simp add: runs_mono [OF fbterm_move_character_ok])
  qed (simp add: safeD s)
  then show ?thesis unfolding e runs_bind by (rule runs_mono) (use safe_placed [OF s] in simp)
qed

lemma put_blanks_short:
  assumes s: "safe s" and n: "cursor_x s + n < cols s"
  shows "runs safe (put_blanks n s)"
proof -
  let ?P = "\<lambda>k t. fb_ok t \<and> off_cursor t = off_cursor s \<and> cursor_x t = cursor_x s + k \<and> cursor_y t = cursor_y s"
  have "runs (?P (Suc k)) (fbterm_raw_putchar 0x20 t)" if t: "?P k t" and k: "k < n" for k t
  proof -
    have f: "rows t = rows s" "cols t = cols s" by (rule off_cursor_field [OF conjunct1 [OF conjunct2 [OF t]]]; simp add: off_cursor_def off_screen_def)+
    have y: "cursor_y t < rows t" and r: "region_ok t" using t f safeD(5,2) [OF s] region_off_cursor [of t s] by simp_all
    have "cursor_x s + k + 1 < cols s" using k n by simp
    moreover from this have "add64 (cursor_x s + k) 1 = cursor_x s + k + 1" using rows_less [OF safeD(3) [OF s]] by (simp add: add64_def)
    ultimately have e: "add64 (cursor_x t) 1 = cursor_x s + Suc k" "cursor_x s + Suc k \<noteq> cols t" using t f by simp_all
    obtain v where v: "fb_ok v" "off_cursor v = off_cursor t"
      "(cursor_x v, cursor_y v) = (if add64 (cursor_x t) 1 = cols t \<and> (cursor_y t < rows t - 1 \<or> scroll_enabled t) then (0, cursor_y t + 1) else (add64 (cursor_x t) 1, cursor_y t))"
      "fbterm_raw_putchar 0x20 t = (if cursor_y v = rows t then fbterm_scroll (v\<lparr>cursor_y := rows t - 1\<rparr>) else Done v)"
      by (rule raw_putchar_run [OF conjunct1 [OF t] r y, where c = "0x20"]) (rule that)
    then show ?thesis using e t y by simp
  qed
  then have "runs (?P n) (put_blanks n s)" unfolding put_blanks_def by (intro runs_for) (use safeD(3) [OF s] in auto)
  then show ?thesis
    by (rule runs_mono) (use s n safeD(5) [OF s] in \<open>metis safe_def term_ok_off_cursor region_off_cursor\<close>)
qed

lemma csi_erase_line_safe:
  assumes s: "safe s" and x: "x < cols s"
  shows "runs safe (csi_erase_line x y s)"
proof -
  let ?h = "fbterm_set_cursor_pos 0 y s"
  note h = set_cursor_pos_ok [OF safeD(3) [OF s], of 0 y]
  have "cursor_x ?h = 0" "cols ?h = cols s" using safeD(4) [OF s] by (simp_all add: fbterm_set_cursor_pos_def Let_def)
  then have "runs safe (put_blanks x ?h)" using x s by (intro put_blanks_short) simp_all
  then show ?thesis using blanks_placed [OF s refl safeD(3,5) [OF s]] blanks_placed [OF s h(3,4,2)] s by (simp add: csi_erase_line_def esc_at)
qed

lemmas safe_defs = safe_def term_ok_def cursor_ok_def parser_ok_def region_ok_def

text \<open>A pair of values that makes \<open>ESC [ r\<close> take a region that ends above the last of \<open>h\<close> rows: the
  bottom is above it, and the top, counted from one, is above the bottom. A bottom of zero is taken
  with any top on the screen.\<close>

fun short_region :: "nat \<Rightarrow> u32 list \<Rightarrow> bool" where
  "short_region h (t # b # _) \<longleftrightarrow> 0 < unat t \<and> unat b < h \<and> (if unat b = 0 then unat t \<le> h else unat t < unat b)"
| "short_region h _ \<longleftrightarrow> False"

lemma take_two: "1 < n \<Longrightarrow> n \<le> length xs \<Longrightarrow> \<exists>ys. take n xs = xs ! 0 # xs ! 1 # ys"
  by (cases xs; cases "tl xs"; cases n; cases "n - 1"; simp)

lemma csi_margins_ok:
  assumes s: "safe s" and m: "\<not> short_region (rows s) (take (esc_values_i s) (esc_values s))"
  shows "runs safe (csi_margins s)"
proof -
  let ?t = "esc_values s ! 0" and ?b = "esc_values s ! 1"
  have fits: "safe (s\<lparr>scroll_top_margin := t, scroll_bottom_margin := rows s\<rparr>)" if "t + 1 < rows s" for t
    using s that by (simp add: safe_defs)
  have h: "1 < rows s" "sub64 (rows s) 1 = rows s - 1" "rows s < 2 ^ 31" using fb_okD(8) [OF safeD(3) [OF s]] rows_less [OF safeD(3) [OF s]] by simp_all
  have top: "unat (?t - 1) = (if unat ?t = 0 then 2 ^ 32 - 1 else unat ?t - 1)" by (auto simp: unat_minus_one unat_eq_zero unsigned_minus_1_eq_mask mask_eq_exp_minus_1)
  have "unat ?b = rows s" if i: "esc_values_i s > 1" and "\<not> unat ?b > rows s" "\<not> unat (?t - 1) \<ge> rows s" "\<not> unat (?t - 1) \<ge> sub64 (unat ?b) 1"
  proof -
    obtain ys where "take (esc_values_i s) (esc_values s) = ?t # ?b # ys" using take_two [OF i, of "esc_values s"] s by (auto simp: safe_defs)
    moreover have "sub64 (unat ?b) 1 = (if unat ?b = 0 then 2 ^ 64 - 1 else unat ?b - 1)" using unsigned_less [of ?b, where 'a = nat] by (cases "unat ?b = 0") (simp add: sub64_def, simp)
    ultimately show ?thesis using m that(2-) h(3) unfolding top by (auto split: if_splits)
  qed
  then show ?thesis using fits h by (auto simp: csi_margins_def Let_def esc_at [OF s])
qed

lemma safe_saved: "safe s \<Longrightarrow> safe (s\<lparr>saved_cursor_x := x, saved_cursor_y := y\<rparr>)"
  "safe s \<Longrightarrow> safe (s\<lparr>insert_mode := b\<rparr>)" "safe s \<Longrightarrow> safe (s\<lparr>callback_log := l\<rparr>)" "safe s \<Longrightarrow> safe (s\<lparr>cursor_status := b\<rparr>)"
  "safe s \<Longrightarrow> safe (s\<lparr>dec_private := b\<rparr>)" "safe s \<Longrightarrow> safe (s\<lparr>scroll_enabled := b\<rparr>)" "safe s \<Longrightarrow> safe (s\<lparr>control_sequence := b\<rparr>)" "safe s \<Longrightarrow> safe (s\<lparr>escape := b\<rparr>)"
  "safe s \<Longrightarrow> safe (s\<lparr>csi := b\<rparr>)" "safe s \<Longrightarrow> safe (s\<lparr>escape_offset := n\<rparr>)" "safe s \<Longrightarrow> safe (s\<lparr>discard_next := b\<rparr>)"
  "safe s \<Longrightarrow> k < 2 \<Longrightarrow> safe (s\<lparr>current_charset := k\<rparr>)" "safe s \<Longrightarrow> k \<le> 2 \<Longrightarrow> safe (s\<lparr>g_select := k\<rparr>)"
  by (simp_all add: safe_defs)

lemma callback_safe: "safe s \<Longrightarrow> safe (call_callback t a b c s)"
  by (auto simp: call_callback_def intro: safe_saved)

lemma csi_report_safe: "safe s \<Longrightarrow> runs safe (csi_report x y s)"
  by (simp add: csi_report_def esc_at callback_safe)

lemma mode_toggle_safe: "safe s \<Longrightarrow> runs safe (mode_toggle c s)"
  by (simp add: mode_toggle_def esc_at callback_safe safe_saved)

lemma linux_private_safe: "safe s \<Longrightarrow> safe (linux_private_parse s)"
  by (simp add: linux_private_parse_def callback_safe)

lemma dec_private_safe: "safe s \<Longrightarrow> runs safe (dec_private_parse c s)"
  using safe_saved(5) [of s False] by (simp add: dec_private_parse_def Let_def safeD callback_safe safe_saved fbterm_enable_cursor_def fbterm_disable_cursor_def)

section \<open>Graphic rendition\<close>

text \<open>The colours and attributes taken away: all that \<open>sgr\<close> changes.\<close>

definition off_sgr :: "'a fbterm_context_scheme \<Rightarrow> 'a fbterm_context_scheme" where
  "off_sgr s = s\<lparr>text_fg := 0, text_bg := 0, bold := False, reverse_video := False, current_primary := 0\<rparr>"

definition sgr_of :: "'a fbterm_context_scheme \<Rightarrow> 'a fbterm_context_scheme \<Rightarrow> bool" where
  "sgr_of s t \<longleftrightarrow> off_sgr t = off_sgr s \<and> primary_ok (current_primary t)"

lemma off_sgr_fields [simp]:
  "off_sgr (s\<lparr>text_fg := a\<rparr>) = off_sgr s" "off_sgr (s\<lparr>text_bg := a\<rparr>) = off_sgr s" "off_sgr (s\<lparr>bold := b\<rparr>) = off_sgr s"
  "off_sgr (s\<lparr>reverse_video := b\<rparr>) = off_sgr s" "off_sgr (s\<lparr>current_primary := n\<rparr>) = off_sgr s"
  by (simp_all add: off_sgr_def)

lemma off_sgr_field: "off_sgr t = off_sgr s \<Longrightarrow> (\<And>u. g (off_sgr u) = g u) \<Longrightarrow> g t = g s"
  by metis

lemma sgr_of_fields:
  assumes "sgr_of s t"
  shows "esc_values t = esc_values s" "esc_values_i t = esc_values_i s" "ansi_colours t = ansi_colours s" "ansi_bright_colours t = ansi_bright_colours s"
    "primary_ok (current_primary t)"
proof -
  have o: "off_sgr t = off_sgr s" "primary_ok (current_primary t)" using assms by (simp_all add: sgr_of_def)
  show "esc_values t = esc_values s" "esc_values_i t = esc_values_i s" "ansi_colours t = ansi_colours s" "ansi_bright_colours t = ansi_bright_colours s"
    by (rule off_sgr_field [OF o(1)]; simp add: off_sgr_def)+
qed (use assms in \<open>simp add: sgr_of_def\<close>)

lemma sgr_of_safe:
  assumes "safe s" and "sgr_of s t"
  shows "safe t"
proof -
  have "safe (t\<lparr>current_primary := 0\<rparr>) = safe (s\<lparr>current_primary := 0\<rparr>)"
    by (rule off_sgr_field [of t s]) (use assms(2) in \<open>simp_all add: sgr_of_def off_sgr_def safe_def term_ok_defs region_ok_def\<close>)
  moreover have "safe (s\<lparr>current_primary := 0\<rparr>)" using assms(1) by (simp add: safe_defs primary_ok_def)
  ultimately show ?thesis using sgr_of_fields(5) [OF assms(2)] by (simp add: safe_defs)
qed

lemma sgr_of_trans: "sgr_of s t \<Longrightarrow> sgr_of t u \<Longrightarrow> sgr_of s u"
  by (simp add: sgr_of_def)

lemma colours_ok:
  assumes "safe s" and "n < 8"
  shows "runs (sgr_of s) (fbterm_set_text_fg n s)" "runs (sgr_of s) (fbterm_set_text_bg n s)"
    "runs (sgr_of s) (fbterm_set_text_fg_bright n s)" "runs (sgr_of s) (fbterm_set_text_bg_bright n s)"
  using assms by (simp_all add: fbterm_set_text_fg_def fbterm_set_text_bg_def fbterm_set_text_fg_bright_def fbterm_set_text_bg_bright_def sgr_of_def safe_def term_ok_defs)

lemma col256_length [simp]: "length col256 = 240"
  by (simp add: col256_def)

text \<open>The number of a colour in one of the ranges of eight values.\<close>
lemma colour_number:
  "30 \<le> v \<Longrightarrow> v \<le> 37 \<Longrightarrow> unat (v - 30 :: u32) < 8" "40 \<le> v \<Longrightarrow> v \<le> 47 \<Longrightarrow> unat (v - 40 :: u32) < 8"
  "90 \<le> v \<Longrightarrow> v \<le> 97 \<Longrightarrow> unat (v - 90 :: u32) < 8" "100 \<le> v \<Longrightarrow> v \<le> 107 \<Longrightarrow> unat (v - 100 :: u32) < 8"
  "\<not> v < 8 \<Longrightarrow> v < 16 \<Longrightarrow> unat (v - 8 :: u32) < 8" "\<not> v < 16 \<Longrightarrow> v < 256 \<Longrightarrow> unat (v - 16 :: u32) < 240" "v < 8 \<Longrightarrow> unat (v :: u32) < 8"
  by (simp_all add: unat_sub word_le_nat_alt word_less_nat_alt linorder_not_less)

text \<open>The colours that the values of \<open>ESC [ m\<close> take from the table of 256: those of the form
  \<open>38;5;n\<close> and \<open>48;5;n\<close>. The three values after \<open>38;2\<close> and \<open>48;2\<close> are a colour of their own.\<close>

fun named_colours :: "u32 list \<Rightarrow> u32 list" where
  "named_colours (v # k # vs) =
     (if v \<noteq> 38 \<and> v \<noteq> 48 then named_colours (k # vs)
      else if k = 2 then (case vs of _ # _ # _ # ws \<Rightarrow> named_colours ws | _ \<Rightarrow> [])
      else if k = 5 then (case vs of n # ws \<Rightarrow> n # named_colours ws | _ \<Rightarrow> [])
      else named_colours vs)"
| "named_colours _ = []"

definition palette_from :: "nat \<Rightarrow> 'a fbterm_context_scheme \<Rightarrow> bool" where
  "palette_from i s \<longleftrightarrow> list_all (\<lambda>n. n < 256) (named_colours (drop i (take (esc_values_i s) (esc_values s))))"

lemma drop_params: "safe s \<Longrightarrow> j < esc_values_i s \<Longrightarrow> drop j (take (esc_values_i s) (esc_values s)) = esc_values s ! j # drop (Suc j) (take (esc_values_i s) (esc_values s))"
  by (subst Cons_nth_drop_Suc [symmetric]) (auto simp: safe_defs)

lemma drop_params_end: "esc_values_i s \<le> j \<Longrightarrow> drop j (take (esc_values_i s) (esc_values s)) = []"
  by simp

lemma plus_few: "i + 2 = Suc (Suc i)" "i + 3 = Suc (Suc (Suc i))" "i + 4 = Suc (Suc (Suc (Suc i)))" "i + 5 = Suc (Suc (Suc (Suc (Suc i))))" for i :: nat
  by simp_all

text \<open>The colours from one value on, by the cases of the walk.\<close>
lemma palette_from_step:
  assumes s: "safe s" and i: "i < esc_values_i s" and p: "palette_from i s"
  shows "esc_values s ! i \<noteq> 38 \<Longrightarrow> esc_values s ! i \<noteq> 48 \<Longrightarrow> palette_from (Suc i) s"
    "esc_values s ! i = 38 \<or> esc_values s ! i = 48 \<Longrightarrow> Suc i < esc_values_i s \<Longrightarrow> esc_values s ! Suc i \<noteq> 2 \<Longrightarrow> esc_values s ! Suc i \<noteq> 5 \<Longrightarrow> palette_from (i + 2) s"
    "esc_values s ! i = 38 \<or> esc_values s ! i = 48 \<Longrightarrow> i + 4 < esc_values_i s \<Longrightarrow> esc_values s ! Suc i = 2 \<Longrightarrow> palette_from (i + 5) s"
    "esc_values s ! i = 38 \<or> esc_values s ! i = 48 \<Longrightarrow> i + 2 < esc_values_i s \<Longrightarrow> esc_values s ! Suc i = 5 \<Longrightarrow> esc_values s ! (i + 2) < 256 \<and> palette_from (i + 3) s"
proof -
  note d = drop_params [OF s]
  show "palette_from (Suc i) s" if "esc_values s ! i \<noteq> 38" "esc_values s ! i \<noteq> 48"
    using p that i by (cases "Suc i < esc_values_i s") (simp_all add: palette_from_def d drop_params_end)
  show "palette_from (i + 2) s" if "esc_values s ! i = 38 \<or> esc_values s ! i = 48" "Suc i < esc_values_i s" "esc_values s ! Suc i \<noteq> 2" "esc_values s ! Suc i \<noteq> 5"
    using p that by (auto simp: palette_from_def d)
  show "palette_from (i + 5) s" if "esc_values s ! i = 38 \<or> esc_values s ! i = 48" "i + 4 < esc_values_i s" "esc_values s ! Suc i = 2"
    using p that by (auto simp: palette_from_def d plus_few)
  show "esc_values s ! (i + 2) < 256 \<and> palette_from (i + 3) s" if "esc_values s ! i = 38 \<or> esc_values s ! i = 48" "i + 2 < esc_values_i s" "esc_values s ! Suc i = 5"
    using p that by (auto simp: palette_from_def d plus_few)
qed

lemma sgr_of_palette: "sgr_of s t \<Longrightarrow> palette_from i t = palette_from i s"
  by (simp add: palette_from_def sgr_of_fields)

lemma sgr_extended_ok:
  assumes s: "safe s" and i: "i < esc_values_i s" and p: "palette_from i s" and k: "esc_values s ! i = 38 \<or> esc_values s ! i = 48"
  shows "runs (\<lambda>(j, stop, t). sgr_of s t \<and> (stop \<or> i < j \<and> palette_from j s)) (sgr_extended fg i s)"
proof -
  have v: "j < esc_values_i s \<Longrightarrow> array_at (esc_values s) j = Done (esc_values s ! j)" for j
    using s by (auto simp: safe_def term_ok_defs)
  have r: "sgr_of s s" "sgr_of s (fbterm_set_text_fg_rgb c s)" "sgr_of s (fbterm_set_text_bg_rgb c s)" for c
    using s by (simp_all add: sgr_of_def safe_def term_ok_defs fbterm_set_text_fg_rgb_def fbterm_set_text_bg_rgb_def)
  show ?thesis
    using palette_from_step(2-4) [OF s i p k] by (simp add: sgr_extended_def Let_def v r colour_number colours_ok [OF s] plus_few)
qed

lemma sgr_attributes_ok:
  assumes s: "safe s"
  shows "sgr_of s s" "sgr_of s (fbterm_swap_palette s)" "sgr_of s (sgr_reset s)" "runs (sgr_of s) (sgr_bold s)" "runs (sgr_of s) (sgr_not_bold s)"
proof -
  show r: "sgr_of s s" "sgr_of s (fbterm_swap_palette s)" "sgr_of s (sgr_reset s)"
    using s by (simp_all add: sgr_of_def safe_def term_ok_defs fbterm_swap_palette_def sgr_reset_def Let_def fbterm_set_text_fg_default_def fbterm_set_text_bg_default_def primary_ok_def)
  have b: "sgr_of s (s\<lparr>bold := v\<rparr>)" for v using r(1) by (simp add: sgr_of_def)
  have c: "runs (sgr_of s) (x :: 'a fbterm_context_scheme outcome)" if "runs (sgr_of (s\<lparr>bold := v\<rparr>)) x" for x v
    by (rule runs_mono [OF that sgr_of_trans [OF b]])
  have "current_primary s \<noteq> NO_PRIMARY \<Longrightarrow> current_primary s < 8" using s by (simp add: safe_defs primary_ok_def)
  then show "runs (sgr_of s) (sgr_bold s)" "runs (sgr_of s) (sgr_not_bold s)"
    using colours_ok [OF sgr_of_safe [OF s b], THEN c] b by (simp_all add: sgr_bold_def sgr_not_bold_def Let_def)
qed

lemma sgr_colour_ok:
  assumes s: "safe s" and n: "n < 8"
  shows "runs (sgr_of s) (sgr_set_fg n s)" "runs (sgr_of s) (sgr_set_bg n s)"
  using colours_ok [OF s n] by (simp_all add: sgr_set_fg_def sgr_set_bg_def)

lemma sgr_primary:
  assumes s: "safe s" and n: "n < 8"
  shows "runs (sgr_of s) (sgr_set_fg n (s\<lparr>current_primary := n\<rparr>))" "runs (sgr_of s) (sgr_set_bg n (s\<lparr>current_primary := n\<rparr>))"
    "runs (sgr_of s) (fbterm_set_text_fg_bright n (s\<lparr>current_primary := n\<rparr>))" "runs (sgr_of s) (fbterm_set_text_bg_bright n (s\<lparr>current_primary := n\<rparr>))"
proof -
  have p: "sgr_of s (s\<lparr>current_primary := n\<rparr>)" using n by (simp add: sgr_of_def primary_ok_def)
  have c: "runs (sgr_of s) (x :: 'a fbterm_context_scheme outcome)" if "runs (sgr_of (s\<lparr>current_primary := n\<rparr>)) x" for x
    by (rule runs_mono [OF that sgr_of_trans [OF p]])
  note q = sgr_of_safe [OF s p]
  show "runs (sgr_of s) (sgr_set_fg n (s\<lparr>current_primary := n\<rparr>))" "runs (sgr_of s) (sgr_set_bg n (s\<lparr>current_primary := n\<rparr>))"
    "runs (sgr_of s) (fbterm_set_text_fg_bright n (s\<lparr>current_primary := n\<rparr>))" "runs (sgr_of s) (fbterm_set_text_bg_bright n (s\<lparr>current_primary := n\<rparr>))"
    by (rule c, rule sgr_colour_ok [OF q n] colours_ok [OF q n])+
qed

lemma sgr_step_ok:
  assumes s: "safe s" and p: "palette_from i s" and i: "i < esc_values_i s"
  shows "runs (\<lambda>(j, stop, t). sgr_of s t \<and> (stop \<or> i < j \<and> palette_from j s)) (sgr_step i s)"
proof -
  have "array_at (esc_values s) i = Done (esc_values s ! i)" using s i by (simp add: safe_defs)
  moreover have d: "sgr_of s (fbterm_set_text_bg_default s)" "sgr_of s (fbterm_swap_palette (fbterm_set_text_bg_default (fbterm_swap_palette s)))"
      "sgr_of s (fbterm_set_text_fg_default (s\<lparr>current_primary := NO_PRIMARY\<rparr>))"
      "sgr_of s (fbterm_swap_palette (fbterm_set_text_fg_default (fbterm_swap_palette (s\<lparr>current_primary := NO_PRIMARY\<rparr>))))"
      "sgr_of s (fbterm_swap_palette (s\<lparr>reverse_video := b\<rparr>))" for b
    using sgr_attributes_ok(1) [OF s] by (simp_all add: sgr_of_def primary_ok_def fbterm_swap_palette_def fbterm_set_text_bg_default_def fbterm_set_text_fg_default_def)
  moreover have "reverse_video (fbterm_set_text_bg_default s) = reverse_video s" "reverse_video (fbterm_swap_palette s) = reverse_video s"
    "reverse_video (fbterm_set_text_fg_default s) = reverse_video s" for s :: "'a fbterm_context_scheme"
    by (simp_all add: fbterm_swap_palette_def fbterm_set_text_bg_default_def fbterm_set_text_fg_default_def)
  ultimately show ?thesis using sgr_extended_ok [OF s i p] palette_from_step(1) [OF s i p]
    by (simp add: sgr_step_def Let_def sgr_attributes_ok [OF s] sgr_primary [OF s] sgr_colour_ok [OF s] colours_ok [OF s] colour_number)
qed

lemma sgr_safe:
  assumes s: "safe s" and p: "palette_from 0 s"
  shows "runs safe (sgr s)"
proof (cases "esc_values_i s = 0")
  case False
  let ?P = "\<lambda>(i, stop, t). sgr_of s t \<and> (stop \<or> palette_from i s)" and ?f = "\<lambda>(i, stop :: bool, t). if stop then 0 else Suc (esc_values_i s - i)"
  have "runs (\<lambda>u. ?P u \<and> \<not> (case u of (i, stop, s) \<Rightarrow> \<not> stop \<and> i < esc_values_i s))
    (while_outcome (esc_values_i s + 2) (\<lambda>(i, stop, s). \<not> stop \<and> i < esc_values_i s) (\<lambda>(i, _, s). sgr_step i s) (0, False, s))"
  proof (rule runs_while [where f = ?f])
    fix u :: "nat \<times> bool \<times> 'a fbterm_context_scheme"
    obtain i stop t where u: "u = (i, stop, t)" by (cases u)
    assume "?P u" "case u of (i, stop, s) \<Rightarrow> \<not> stop \<and> i < esc_values_i s"
    with u have t: "sgr_of s t" "\<not> stop" "i < esc_values_i t" "palette_from i s" by simp_all
    then have "palette_from i t" "i < esc_values_i s" using sgr_of_fields [OF t(1)] sgr_of_palette [OF t(1)] by simp_all
    then have "runs (\<lambda>(j, stop, v). sgr_of t v \<and> (stop \<or> i < j \<and> palette_from j t)) (sgr_step i t)" by (intro sgr_step_ok [OF sgr_of_safe [OF s t(1)] _ t(3)])
    then have "runs (\<lambda>s'. ?P s' \<and> ?f s' < ?f u) (sgr_step i t)"
      by (rule runs_mono) (use t u \<open>i < esc_values_i s\<close> in \<open>auto simp: sgr_of_palette [OF t(1)] intro: sgr_of_trans\<close>)
    with u show "runs (\<lambda>s'. ?P s' \<and> ?f s' < ?f u) (case u of (i, _, s) \<Rightarrow> sgr_step i s)" by simp
  qed (use sgr_attributes_ok(1) [OF s] p in simp_all)
  then show ?thesis unfolding sgr_def if_not_P [OF False] runs_bind by (rule runs_mono) (use sgr_of_safe [OF s] in auto)
qed (use sgr_of_safe [OF s sgr_attributes_ok(3) [OF s]] in \<open>simp add: sgr_def\<close>)

section \<open>The parser\<close>

text \<open>The values a command neither takes out of the colour table nor makes a short region of.\<close>

definition params_ok :: "u8 \<Rightarrow> nat \<Rightarrow> u32 list \<Rightarrow> bool" where
  "params_ok c h vs \<longleftrightarrow> (c = chr8 CHR ''m'' \<longrightarrow> list_all (\<lambda>n. n < 256) (named_colours vs)) \<and> (c = chr8 CHR ''r'' \<longrightarrow> \<not> short_region h vs)"

lemma csi_command_safe:
  assumes s: "safe s" and p: "params_ok c (rows s) (take (esc_values_i s) (esc_values s))"
  shows "runs safe (csi_command c s)"
proof -
  have "safe t \<Longrightarrow> runs safe (bind_outcome (esc_position i b t) (\<lambda>(v, u). Done (fbterm_set_cursor_pos (f v u) (g v u) u)))" if "i < 16" for i b f g t
    using runs_mono [OF esc_position_safe [OF _ that]] by fastforce
  note pos = this
  have h: "runs safe (bind_outcome (esc_position 1 (cols s) s) (\<lambda>(h, s). bind_outcome (esc_position 0 (rows s) s) (\<lambda>(v, s). Done (fbterm_set_cursor_pos h v s))))"
    unfolding runs_bind by (rule runs_mono [OF esc_position_safe [OF s]]) (auto intro!: pos [unfolded runs_bind])
  show ?thesis using s p [unfolded params_ok_def] pos [OF _ s, of 0]
    by (simp add: csi_command_def fbterm_get_cursor_pos_def h [simplified] csi_cursor_safe esc_at callback_safe csi_report_safe csi_erase_display_safe safeD
      csi_insert_blanks_safe csi_delete_chars_safe csi_erase_chars_safe sgr_safe safe_saved csi_erase_line_safe csi_margins_ok palette_from_def mode_toggle_safe linux_private_safe)
qed

lemma fill_values:
  assumes s: "safe s"
  shows "runs (\<lambda>t. \<exists>vs. t = s\<lparr>esc_values := vs\<rparr> \<and> length vs = 16 \<and> (\<forall>j < esc_values_i s. vs ! j = esc_values s ! j) \<and> set vs \<subseteq> insert d (set (esc_values s)))
    (for_outcome [esc_values_i s..<TERM_MAX_ESC_VALUES] (\<lambda>i. set_esc i d) s)" (is "runs ?P _")
proof (rule runs_for_inv)
  fix i t assume i: "i \<in> set [esc_values_i s..<TERM_MAX_ESC_VALUES]" and "?P t"
  then obtain vs where t: "t = s\<lparr>esc_values := vs\<rparr>" "length vs = 16" "\<forall>j < esc_values_i s. vs ! j = esc_values s ! j" "set vs \<subseteq> insert d (set (esc_values s))" by blast
  from i have "i < 16" "esc_values_i s \<le> i" by (simp_all add: TERM_MAX_ESC_VALUES_def)
  moreover have "set (vs[i := d]) \<subseteq> insert d (set (esc_values s))" using t(4) set_update_subset_insert [of vs i d] by blast
  ultimately show "runs ?P (set_esc i d t)" using t(1-3) by (simp add: set_esc_def) (rule exI [of _ "vs[i := d]"], simp)
qed (use safeD(6) [OF s] in \<open>auto intro!: exI [of _ "esc_values s"]\<close>)

definition ready :: "'a fbterm_context_scheme \<Rightarrow> bool" where
  "ready s \<longleftrightarrow> safe s \<and> scroll_enabled s"

lemma dec_private_ready: "ready s \<Longrightarrow> runs ready (dec_private_parse c s)"
  using safe_saved(5) [of s False]
  by (simp add: ready_def dec_private_parse_def Let_def safeD safe_saved call_callback_def fbterm_enable_cursor_def fbterm_disable_cursor_def)

lemma cleanup_safe: "safe s \<Longrightarrow> safe (csi_cleanup s)"
  by (simp add: csi_cleanup_def safe_saved)

lemma csi_final_ready:
  assumes s: "ready s" and p: "\<not> dec_private s \<Longrightarrow> params_ok c (rows s) (take (esc_values_i s) (esc_values s))"
  shows "runs ready (csi_final c s)"
  unfolding csi_final_def Let_def runs_bind
proof (rule runs_mono [OF fill_values])
  let ?d = "if c = chr8 CHR ''J'' \<or> c = chr8 CHR ''K'' \<or> c = chr8 CHR ''q'' then 0 else 1 :: u32"
  fix t assume "\<exists>vs. t = s\<lparr>esc_values := vs\<rparr> \<and> length vs = 16 \<and> (\<forall>j < esc_values_i s. vs ! j = esc_values s ! j) \<and> set vs \<subseteq> insert ?d (set (esc_values s))"
  then obtain vs where t: "t = s\<lparr>esc_values := vs\<rparr>" "length vs = 16" "\<forall>j < esc_values_i s. vs ! j = esc_values s ! j" "set vs \<subseteq> insert ?d (set (esc_values s))" by blast
  have st: "safe t" "scroll_enabled t" using s t(1,2) by (simp_all add: ready_def safe_esc)
  have "take (esc_values_i s) vs = take (esc_values_i s) (esc_values s)" using t(2,3) s by (intro nth_equalityI) (simp_all add: ready_def safe_defs)
  then have "params_ok c (rows t) (take (esc_values_i t) (esc_values t))" if "\<not> dec_private t" using p that t(1) by simp
  then have c: "runs safe (csi_command c (t\<lparr>scroll_enabled := False\<rparr>))" if "\<not> dec_private t" using that by (intro csi_command_safe safe_saved st) simp_all
  have "runs (\<lambda>u. ready (csi_cleanup (u\<lparr>scroll_enabled := scroll_enabled t\<rparr>))) (csi_command c (t\<lparr>scroll_enabled := False\<rparr>))" if "\<not> dec_private t"
    by (rule runs_mono [OF c [OF that]]) (use st in \<open>simp add: ready_def cleanup_safe safe_saved, simp add: csi_cleanup_def\<close>)
  moreover have "runs (\<lambda>u. ready (csi_cleanup u)) (dec_private_parse c t)"
    by (rule runs_mono [OF dec_private_ready]) (use st in \<open>simp add: ready_def cleanup_safe\<close>, simp add: ready_def cleanup_safe csi_cleanup_def safe_saved)
  ultimately show "runs ready (if dec_private t then bind_outcome (dec_private_parse c t) (\<lambda>s. Done (csi_cleanup s))
      else bind_outcome (csi_command c (t\<lparr>scroll_enabled := False\<rparr>)) (\<lambda>sa. Done (csi_cleanup (sa\<lparr>scroll_enabled := scroll_enabled t\<rparr>))))" by simp
qed (use s in \<open>simp add: ready_def\<close>)

text \<open>A byte is harmless unless it ends a sequence that takes a colour outside of the table or a region
  that ends above the last row. The value being read counts as the last one.\<close>

definition csi_params :: "'a fbterm_context_scheme \<Rightarrow> u32 list" where
  "csi_params s = take (esc_values_i s + (if rrr s then 1 else 0)) (esc_values s)"

definition harmless :: "u8 \<Rightarrow> 'a fbterm_context_scheme \<Rightarrow> bool" where
  "harmless c s \<longleftrightarrow> control_sequence s \<and> \<not> dec_private s \<longrightarrow> params_ok c (rows s) (csi_params s)"

lemma control_sequence_ready:
  assumes s: "ready s" and h: "harmless c s" and "control_sequence s"
  shows "runs ready (control_sequence_parse c s)"
proof -
  have f: "safe s" "scroll_enabled s" "length (esc_values s) = 16" "esc_values_i s \<le> 16" "rrr s \<Longrightarrow> esc_values_i s < 16" using s by (simp_all add: ready_def safe_defs)
  have "ready (csi_cleanup (s\<lparr>discard_next := True\<rparr>))" "ready (s\<lparr>dec_private := True\<rparr>)"
    using f by (simp_all add: ready_def safe_saved csi_cleanup_def)
  moreover have "runs ready (csi_digit c s)" "\<not> rrr s \<Longrightarrow> runs ready (csi_separator s)"
    using f by (simp_all add: csi_digit_def csi_separator_def TERM_MAX_ESC_VALUES_def set_esc_def ready_def, simp_all add: safe_defs)
  moreover have "runs ready (csi_final c s)" if "\<not> rrr s"
    by (rule csi_final_ready [OF s]) (use h that assms(3) in \<open>simp_all add: harmless_def csi_params_def\<close>)
  moreover have r: "ready (s\<lparr>esc_values_i := esc_values_i s + 1, rrr := False\<rparr>)" if "rrr s"
    using s f(5) [OF that] by (simp add: ready_def safe_defs)
  moreover have "runs ready (csi_final c (s\<lparr>esc_values_i := esc_values_i s + 1, rrr := False\<rparr>))" if "rrr s"
    by (rule csi_final_ready [OF r [OF that]]) (use h that assms(3) in \<open>simp_all add: harmless_def csi_params_def\<close>)
  ultimately show ?thesis by (simp add: control_sequence_parse_def)
qed

lemma begin_csi_ready:
  assumes s: "ready s"
  shows "runs ready (begin_csi s)"
proof -
  let ?P = "\<lambda>t. safe t \<and> scroll_enabled t"
  have "runs ?P (for_outcome [0..<TERM_MAX_ESC_VALUES] (\<lambda>i. set_esc i 0) s)"
    by (rule runs_for_inv) (use s in \<open>simp_all add: ready_def set_esc_def TERM_MAX_ESC_VALUES_def safeD safe_esc\<close>)
  then show ?thesis unfolding begin_csi_def runs_bind by (rule runs_mono) (simp add: ready_def safe_defs)
qed

lemma set_cursor_scroll [simp]: "scroll_enabled (fbterm_set_cursor_pos x y s) = scroll_enabled s"
  by (simp add: fbterm_set_cursor_pos_def Let_def)

lemma line_down_safe:
  assumes s: "safe s"
  shows "runs (\<lambda>t. safe t \<and> scroll_enabled t = scroll_enabled s) (line_down x y s)"
proof -
  have "runs (\<lambda>t. safe (fbterm_set_cursor_pos x y t) \<and> scroll_enabled t = scroll_enabled s) (fbterm_scroll s)" for x y
  proof (rule runs_mono [OF fbterm_scroll_ok])
    fix t assume t: "shows_after scrolled_up s t"
    then have "scroll_enabled t = scroll_enabled s" by - (rule off_screen_field; simp add: shows_after_def off_screen_def)
    with t safe_off_screen [OF s] show "safe (fbterm_set_cursor_pos x y t) \<and> scroll_enabled t = scroll_enabled s" by (simp add: shows_after_def)
  qed (use s in \<open>simp_all add: safe_defs\<close>)
  then show ?thesis using s by (simp add: line_down_def)
qed

lemma revscroll_safe:
  assumes s: "safe s"
  shows "runs (\<lambda>t. safe t \<and> scroll_enabled t = scroll_enabled s) (fbterm_revscroll s)"
proof (rule runs_mono [OF fbterm_revscroll_ok])
  fix t assume t: "shows_after scrolled_down s t"
  then have "scroll_enabled t = scroll_enabled s" by - (rule off_screen_field; simp add: shows_after_def off_screen_def)
  with t safe_off_screen [OF s] show "safe t \<and> scroll_enabled t = scroll_enabled s" by (simp add: shows_after_def)
qed (use s in \<open>simp_all add: safe_defs\<close>)

lemma raw_ready:
  assumes "ready s"
  shows "runs ready (fbterm_raw_putchar c s)"
proof (rule runs_mono [OF raw_putchar_safe])
  fix t assume t: "fb_ok t \<and> off_cursor t = off_cursor s \<and> cursor_y t < rows s \<and> (cursor_x s < cols s \<and> scroll_enabled s \<longrightarrow> cursor_x t < cols s)"
  then have o: "off_cursor t = off_cursor s" by simp
  have "scroll_enabled t = scroll_enabled s" by (rule off_cursor_field [OF o]) (simp add: off_cursor_def off_screen_def)
  with t o assms safeD(4) [of s] show "ready t" by (metis ready_def safe_def term_ok_off_cursor region_off_cursor)
qed (use assms in \<open>simp_all add: ready_def safeD\<close>)

lemma set_cursor_ready [simp]: "ready s \<Longrightarrow> ready (fbterm_set_cursor_pos x y s)"
  by (simp add: ready_def)

lemma line_down_ready: "ready s \<Longrightarrow> runs ready (line_down x y s)"
  by (rule runs_mono [OF line_down_safe]) (simp_all add: ready_def)

lemma clear_ready:
  assumes "ready s"
  shows "runs ready (fbterm_clear m s)"
proof (rule runs_mono [OF fbterm_clear_ok])
  fix t assume "\<exists>u. shows_after (\<lambda>s _. empty_char s) s u \<and> t = (if m then u\<lparr>cursor_x := 0, cursor_y := 0\<rparr> else u)"
  then obtain u where u: "shows_after (\<lambda>s _. empty_char s) s u" "t = (if m then u\<lparr>cursor_x := 0, cursor_y := 0\<rparr> else u)" by blast
  then have "safe u" "scroll_enabled u = scroll_enabled s" using assms
    by (simp add: shows_after_def ready_def safe_off_screen [of s]) (rule off_screen_field [of u s]; use u in \<open>simp add: shows_after_def off_screen_def\<close>)
  with assms u(2) show "ready t" by (simp add: ready_def safe_home)
qed (use assms in \<open>simp add: ready_def safeD\<close>)

lemma escape_command_ready:
  assumes s: "ready s"
  shows "runs ready (escape_command c s)"
proof -
  have "runs ready (fbterm_clear True (term_context_reinit s))"
  proof -
    have "safe (term_context_reinit s)" using s fb_okD(8) [of s] by (simp add: ready_def safe_defs term_context_reinit_def primary_ok_def)
    moreover have "scroll_enabled (term_context_reinit s)" by (simp add: term_context_reinit_def)
    ultimately show ?thesis by (intro clear_ready) (simp add: ready_def)
  qed
  moreover have "ready (save_state s)" "ready (restore_state s)"
    using s by (simp_all add: ready_def safe_defs save_state_def restore_state_def fbterm_save_state_def fbterm_restore_state_def Let_def)
  moreover have "runs (\<lambda>t. ready (fbterm_set_cursor_pos 0 y t)) (fbterm_revscroll s)" for y
    by (rule runs_mono [OF revscroll_safe]) (use s in \<open>simp_all add: ready_def\<close>)
  moreover have "unat (c - 0x27) \<le> 2" if "c = chr8 CHR ''('' \<or> c = chr8 CHR '')''" using that by auto
  ultimately show ?thesis using s line_down_ready [OF s] raw_ready [OF s]
    by (simp add: escape_command_def fbterm_get_cursor_pos_def) (simp add: ready_def safe_saved callback_safe call_callback_def)
qed

lemma escape_parse_ready:
  assumes s: "ready s" and h: "harmless c s"
  shows "runs ready (escape_parse c s)"
proof -
  have t: "ready (s\<lparr>escape_offset := n\<rparr>)" "ready (s\<lparr>escape_offset := n, csi := b\<rparr>)" for n b using s by (simp_all add: ready_def safe_saved)
  have "control_sequence s \<Longrightarrow> runs ready (control_sequence_parse c (s\<lparr>escape_offset := n\<rparr>))" for n
    by (rule control_sequence_ready [OF t(1)]) (use h in \<open>simp_all add: harmless_def csi_params_def\<close>)
  moreover have "runs (\<lambda>t. ready (t\<lparr>escape := False\<rparr>)) (escape_command c (s\<lparr>escape_offset := n\<rparr>))" for n
    by (rule runs_mono [OF escape_command_ready [OF t(1)]]) (simp add: ready_def safe_saved)
  ultimately show ?thesis using begin_csi_ready [OF t(1)] begin_csi_ready [OF t(2)] by (simp add: escape_parse_def Let_def)
qed

lemma put_glyph_ready:
  assumes s: "ready s"
  shows "runs ready (put_glyph c s)"
proof -
  have g: "runs ready (bind_outcome (array_at (charsets t) (current_charset t)) (\<lambda>charset.
      fbterm_raw_putchar (if charset = CHARSET_DEC_SPECIAL then dec_special_to_cp437 c else c) t))" if "ready t" for t :: "'a fbterm_context_scheme"
  proof -
    have "current_charset t < length (charsets t)" using that by (simp add: ready_def safe_defs)
    then show ?thesis using raw_ready [OF that] by simp
  qed
  have "runs ready (insert_gap x y s)" if "x < cols s" for x y
  proof (rule runs_mono [OF insert_gap_safe [OF _ that]])
    fix t assume t: "fb_ok t \<and> off_screen t = off_screen s"
    have "scroll_enabled t = scroll_enabled s" by (rule off_screen_field [OF conjunct2 [OF t]]) (simp add: off_screen_def)
    with s t show "ready t" by (simp add: ready_def safe_off_screen [of s])
  qed (use s in \<open>simp add: ready_def\<close>)
  then have "runs ready (if insert_mode s then insert_gap (cursor_x s) (cursor_y s) s else Done s)" using s safeD(4) [of s] by (simp add: ready_def [of s])
  then show ?thesis unfolding put_glyph_def fbterm_get_cursor_pos_def Let_def split_conv runs_bind [of _ "if insert_mode s then _ s else _"]
    by (rule runs_mono) (rule g)
qed

lemma select_charset_ready:
  assumes s: "ready s" and g: "g_select s \<noteq> 0"
  shows "runs ready (select_charset c s)"
proof -
  have "g_select s \<le> 2" "length (charsets s) = 2" using s by (simp_all add: ready_def safe_defs)
  then have "g_select s - 1 < length (charsets s)" using g by linarith
  with s show ?thesis by (simp add: select_charset_def Let_def) (simp add: ready_def safe_defs)
qed

lemma term_putchar_ready:
  assumes s: "ready s" and h: "harmless c s"
  shows "runs ready (term_putchar c s)"
proof -
  have "ready (s\<lparr>discard_next := False, escape := False, csi := False, control_sequence := False, g_select := 0\<rparr>)"
    "ready (s\<lparr>csi := True, escape_offset := 0, escape := True\<rparr>)" "ready (s\<lparr>escape_offset := 0, escape := True\<rparr>)"
    "ready (s\<lparr>current_charset := Suc 0\<rparr>)" "ready (s\<lparr>current_charset := 0\<rparr>)" "ready (call_callback a b d e s)" for a b d e
    using s by (simp_all add: ready_def safe_saved call_callback_def)
  then show ?thesis using s h
    by (simp add: term_putchar_def fbterm_get_cursor_pos_def escape_parse_ready select_charset_ready line_down_ready put_glyph_ready)
qed

text \<open>Every byte finds a state in which it is harmless.\<close>

fun harmless_run :: "u8 list \<Rightarrow> 'a fbterm_context_scheme \<Rightarrow> bool" where
  "harmless_run [] s \<longleftrightarrow> True"
| "harmless_run (c # cs) s \<longleftrightarrow> harmless c s \<and> (case term_putchar c s of Done t \<Rightarrow> harmless_run cs t | _ \<Rightarrow> True)"

lemma term_bytes_ready: "ready s \<Longrightarrow> harmless_run cs s \<Longrightarrow> runs ready (term_bytes cs s)"
proof (induction cs arbitrary: s)
  case (Cons c cs)
  then obtain t where "term_putchar c s = Done t" "ready t" using term_putchar_ready [of s c] by (auto simp: runs_iff)
  with Cons show ?case by simp
qed simp

section \<open>Writing\<close>
lemma flush_done_safe:
  assumes s: "ready s" and t: "flush_done s t"
  shows "ready t" "j < rows s * cols s \<Longrightarrow> screen t j = screen s j" "queue_i t = 0"
proof -
  from t obtain fb g m where u: "t = (drawn s fb g m)\<lparr>old_cursor_x := cursor_x s, old_cursor_y := cursor_y s, queue_i := 0\<rparr>"
    "length fb = length (framebuffer s)" "length g = rows s * cols s" "length m = rows s * cols s"
    "\<And>j. j < rows s * cols s \<Longrightarrow> m ! j = None \<and> g ! j = screen s j \<and> shown (drawn s fb g m) j (if cursor_status s \<and> j = cursor_cell s then inverted (screen s j) else screen s j)"
    unfolding flush_done_def by blast
  have r: "rows t = rows s" "cols t = cols s" "grid t = g" "qmap t = m" "queue t = queue s" "queue_i t = 0" by (simp_all add: u(1))
  show sc: "screen t j = screen s j" if "j < rows s * cols s" for j using u(5) [OF that] by (simp add: screen_def r)
  show "queue_i t = 0" by (rule r)
  have f: "safe s" "fb_ok s" "plot_ok s" using s by (simp_all add: ready_def safe_defs)
  have "fb_ok t" using u(3-5) fb_okD [OF f(2)] sc by (simp add: fb_ok_def geometry_def queue_ok_def r)
  moreover have "displayed t"
    using u(5) by (auto simp: displayed_def u(1) old_cell_def cursor_cell_def shown_def cell_shows_def)
  moreover have "plot_ok t" using f(3) u(2) by (simp add: u(1))
  moreover have "cursor_ok t" "parser_ok t" "region_ok t" "scroll_enabled t" using s by (simp_all add: u(1) drawn_def ready_def safe_defs)
  ultimately show "ready t" by (simp add: ready_def safe_def term_ok_def)
qed

lemma flush_ready: "ready s \<Longrightarrow> runs (flush_done s) (fbterm_double_buffer_flush s)"
  by (rule flush_run) (simp_all add: ready_def safe_def term_ok_def)

text \<open>The frame buffer shows the screen of \<open>s\<close>, the cell under the cursor inverted if the cursor is on.\<close>

definition shows_screen :: "'a fbterm_context_scheme \<Rightarrow> 'a fbterm_context_scheme \<Rightarrow> bool" where
  "shows_screen s t \<longleftrightarrow> (\<forall>j < rows s * cols s. shown t j (if cursor_status s \<and> j = cursor_cell s then inverted (screen s j) else screen s j))"

lemma flush_done_shows: "flush_done s t \<Longrightarrow> shows_screen s t"
  by (auto simp: flush_done_def shows_screen_def shown_def cell_shows_def)

lemma term_write_run:
  assumes s: "ready s" and h: "harmless_run cs s"
  obtains u t where "term_bytes cs s = Done u" "ready u" "term_write cs s = Done t" "ready t" "\<forall>j < rows u * cols u. screen t j = screen u j" "autoflush u \<Longrightarrow> shows_screen u t"
proof -
  obtain u where u: "term_bytes cs s = Done u" "ready u" using term_bytes_ready [OF s h] by (auto simp: runs_iff)
  obtain v where v: "fbterm_double_buffer_flush u = Done v" "flush_done u v" using flush_ready [OF u(2)] by (auto simp: runs_iff)
  show ?thesis
  proof (cases "autoflush u")
    case True
    with that [OF u, of v] u v flush_done_safe [OF u(2) v(2)] flush_done_shows [OF v(2)] show ?thesis by (simp add: term_write_def)
  next
    case False
    with that [OF u, of u] u show ?thesis by (simp add: term_write_def)
  qed
qed

end
