(* ===== verification/Term_Init.thy ===== *)
theory Term_Init
  imports Term_Safe
begin

text \<open>
  Making a terminal: \<open>fbterm_init\<close> of terminal/framebuffer.c and the calls of \<open>_start\<close> that put the
  first picture on the screen. The allocator is a parameter, known by the contents of the memory it
  hands out: \<open>fbterm_init\<close> writes all of the font, the grid and the canvas but neither the queue nor
  the map, so what the map holds at first is what the memory held. The kernel passes \<open>kmalloc\<close>, which
  does not clear what it hands out: that the map starts cleared is an assumption of every fact about
  the terminal after its bring-up.
\<close>

section \<open>fbterm_init\<close>

record fresh_memory =
  fresh_bool :: "nat \<Rightarrow> bool"
  fresh_queue :: "nat \<Rightarrow> fbterm_queue_item"
  fresh_map :: "nat \<Rightarrow> nat option"

definition FBTERM_FONT_GLYPHS :: nat where "FBTERM_FONT_GLYPHS = 256"

text \<open>\<open>memset(ctx, 0, sizeof(struct fbterm_context))\<close>\<close>

definition zero_context :: fbterm_context where
  "zero_context = \<lparr>tab_size = 0, autoflush = False, scroll_enabled = False, control_sequence = False, csi = False, escape = False,
     rrr = False, discard_next = False, bold = False, reverse_video = False, dec_private = False, insert_mode = False, g_select = 0,
     charsets = [0, 0], current_charset = 0, escape_offset = 0, esc_values_i = 0, saved_cursor_x = 0, saved_cursor_y = 0,
     current_primary = 0, scroll_top_margin = 0, scroll_bottom_margin = 0, esc_values = replicate TERM_MAX_ESC_VALUES 0,
     saved_state_bold = False, saved_state_reverse_video = False, saved_state_current_charset = 0, saved_state_current_primary = 0,
     rows = 0, cols = 0, in_bootloader = False, callback = False, callback_log = [],
     font_width = 0, font_height = 0, glyph_width = 0, glyph_height = 0, font_scale_x = 0, font_scale_y = 0, offset_x = 0, offset_y = 0,
     framebuffer = [], pitch = 0, width = 0, height = 0, font_bits = [], font_bool = [], ansi_colours = replicate 8 0,
     ansi_bright_colours = replicate 8 0, default_fg = 0, default_bg = 0, canvas = [], grid = [], queue = [], queue_i = 0, qmap = [],
     text_fg = 0, text_bg = 0, cursor_status = False, cursor_x = 0, cursor_y = 0, saved_state_text_fg = 0, saved_state_text_bg = 0,
     saved_state_cursor_x = 0, saved_state_cursor_y = 0, old_cursor_x = 0, old_cursor_y = 0\<rparr>"

definition default_ansi_colours :: "u32 list" where
  "default_ansi_colours = [0x00000000, 0x00aa0000, 0x0000aa00, 0x00aa5500, 0x000000aa, 0x00aa00aa, 0x0000aaaa, 0x00aaaaaa]"

definition default_ansi_bright_colours :: "u32 list" where
  "default_ansi_bright_colours = [0x00555555, 0x00ff5555, 0x0055ff55, 0x00ffff55, 0x005555ff, 0x00ff55ff, 0x0055ffff, 0x00ffffff]"

text \<open>\<open>memcpy\<close> of \<open>n\<close> elements from an array.\<close>

definition copy_from :: "'b list \<Rightarrow> nat \<Rightarrow> 'b list outcome" where
  "copy_from xs n = (if n \<le> length xs then Done (take n xs) else Panic ''access outside of an array'')"

text \<open>One row of a glyph: eight dots from the font, and the columns after them.\<close>

definition expand_row :: "nat \<Rightarrow> nat \<Rightarrow> nat \<Rightarrow> nat \<Rightarrow> u8 list \<Rightarrow> bool list \<Rightarrow> bool list outcome" where
  "expand_row fh fw i y bits bools =
     bind_outcome (for_outcome [0..<8] (\<lambda>x bools.
       bind_outcome (array_at bits (i * fh + y)) (\<lambda>b.
       array_set bools (i * fh * fw + y * fw + x) (b AND drop_bit x 0x80 \<noteq> 0))) bools) (\<lambda>bools.
     for_outcome [8..<fw] (\<lambda>x bools.
       bind_outcome (array_at bits (i * fh + y)) (\<lambda>b.
       array_set bools (i * fh * fw + y * fw + x) (if i \<ge> 0xc0 \<and> i \<le> 0xdf then b AND 1 \<noteq> 0 else False))) bools)"

definition expand_font :: "nat \<Rightarrow> nat \<Rightarrow> u8 list \<Rightarrow> bool list \<Rightarrow> bool list outcome" where
  "expand_font fh fw bits bools =
     for_outcome [0..<FBTERM_FONT_GLYPHS] (\<lambda>i bools. for_outcome [0..<fh] (\<lambda>y bools. expand_row fh fw i y bits bools) bools) bools"

definition fbterm_init :: "fresh_memory \<Rightarrow> u32 list \<Rightarrow> nat \<Rightarrow> nat \<Rightarrow> nat \<Rightarrow> u32 list option \<Rightarrow> u32 list option \<Rightarrow> u32 list option \<Rightarrow>
    u32 option \<Rightarrow> u32 option \<Rightarrow> u8 list option \<Rightarrow> nat \<Rightarrow> nat \<Rightarrow> nat \<Rightarrow> nat \<Rightarrow> nat \<Rightarrow> nat \<Rightarrow> fbterm_context outcome" where
  "fbterm_init mem fb w h p cv ansi ansi_bright bg fg font fw fh spacing scale_x scale_y margin =
     bind_outcome (case ansi of Some a \<Rightarrow> copy_from a 8 | None \<Rightarrow> Done default_ansi_colours) (\<lambda>ansi.
     bind_outcome (case ansi_bright of Some a \<Rightarrow> copy_from a 8 | None \<Rightarrow> Done default_ansi_bright_colours) (\<lambda>ansi_bright.
     let default_bg' = (case bg of Some c \<Rightarrow> c | None \<Rightarrow> 0x00000000);
         default_fg' = (case fg of Some c \<Rightarrow> c | None \<Rightarrow> 0x00aaaaaa);
         (fw, fh, spacing, source) = (case font of Some f \<Rightarrow> (fw, fh, spacing, f) | None \<Rightarrow> (8, 16, 1, builtin_font))
     in bind_outcome (copy_from source (fw * fh * FBTERM_FONT_GLYPHS div 8)) (\<lambda>bits.
     let fw = fw + spacing
     in bind_outcome (expand_font fh fw bits (map (fresh_bool mem) [0..<FBTERM_FONT_GLYPHS * fh * fw])) (\<lambda>bools.
     let gw = fw * scale_x;
         gh = fh * scale_y
     in if gw = 0 \<or> gh = 0 then Panic ''division by zero''
        else
          let nc = sub64 w (margin * 2) div gw;
              nr = sub64 h (margin * 2) div gh
          in bind_outcome (case cv of Some c \<Rightarrow> copy_from c (w * h) | None \<Rightarrow> Done (replicate (w * h) default_bg')) (\<lambda>cv.
             Done (term_context_reinit (zero_context\<lparr>cursor_status := True, ansi_colours := ansi, ansi_bright_colours := ansi_bright,
               default_bg := default_bg', default_fg := default_fg', text_fg := default_fg', text_bg := 0xffffffff,
               framebuffer := fb, width := w, height := h, pitch := p,
               font_width := fw, font_height := fh, font_bits := bits, font_bool := bools,
               font_scale_x := scale_x, font_scale_y := scale_y, glyph_width := gw, glyph_height := gh,
               rows := nr, cols := nc,
               offset_x := margin + (sub64 w (margin * 2) mod gw) div 2, offset_y := margin + (sub64 h (margin * 2) mod gh) div 2,
               grid := replicate (nr * nc) \<lparr>ch_c = 0x20, ch_fg = default_fg', ch_bg = 0xffffffff\<rparr>,
               queue := map (fresh_queue mem) [0..<nr * nc], queue_i := 0, qmap := map (fresh_map mem) [0..<nr * nc],
               canvas := cv\<rparr>)))))))"

text \<open>The terminal of \<open>_start\<close>, on the boot loader's frame buffer: built-in font, margin 1. The memory
  that \<open>mem\<close> describes is the allocator's, as it was handed out.\<close>

definition terminal_bringup :: "fresh_memory \<Rightarrow> u32 list \<Rightarrow> nat \<Rightarrow> nat \<Rightarrow> nat \<Rightarrow> u32 \<Rightarrow> u32 \<Rightarrow> fbterm_context outcome" where
  "terminal_bringup mem fb w h p term_bg term_fg =
     bind_outcome (fbterm_init mem fb w h p None None None (Some term_bg) (Some term_fg) None 0 0 0 1 1 1) (\<lambda>s.
     bind_outcome (fbterm_clear True s) fbterm_full_refresh)"

section \<open>The font\<close>

definition filled :: "nat set \<Rightarrow> (nat \<Rightarrow> 'b) \<Rightarrow> 'b list \<Rightarrow> 'b list \<Rightarrow> bool" where
  "filled A f xs ys \<longleftrightarrow> length ys = length xs \<and> (\<forall>k < length xs. ys ! k = (if k \<in> A then f k else xs ! k))"

lemma filled_trans: "filled A f xs ys \<Longrightarrow> filled B f ys zs \<Longrightarrow> filled (A \<union> B) f xs zs"
  by (auto simp: filled_def)

lemma filled_bind:
  assumes "runs (filled A f xs) m" and "\<And>ys. length ys = length xs \<Longrightarrow> runs (filled B f ys) (g ys)"
  shows "runs (filled (A \<union> B) f xs) (bind_outcome m g)"
proof -
  obtain ys where ys: "m = Done ys" "filled A f xs ys" using assms(1) by (auto simp: runs_iff)
  then have "runs (filled B f ys) (g ys)" by (intro assms(2)) (simp add: filled_def)
  with ys show ?thesis by (simp add: runs_mono [OF _ filled_trans [OF ys(2)]])
qed

lemma fill_loop:
  assumes "\<And>i ys. i \<in> set is \<Longrightarrow> length ys = length xs \<Longrightarrow> runs (filled (A i) f ys) (body i ys)"
  shows "runs (filled (\<Union>i \<in> set is. A i) f xs) (for_outcome is body xs)"
  using assms
proof (induction "is" arbitrary: xs)
  case (Cons i "is")
  have "runs (filled (A i) f xs) (body i xs)" by (rule Cons.prems) simp_all
  then have "runs (filled (A i \<union> (\<Union>i \<in> set is. A i)) f xs) (bind_outcome (body i xs) (for_outcome is body))"
    by (rule filled_bind) (rule Cons.IH, use Cons.prems in simp)
  then show ?case by simp
qed (simp add: filled_def)

lemma fill_one: "k < length xs \<Longrightarrow> v = f k \<Longrightarrow> runs (filled {k} f xs) (array_set xs k v)"
  by (simp add: filled_def nth_list_update)

text \<open>The dot that the expanded font has at an index: a bit of the glyph's row, or the ninth column.\<close>

definition font_dot :: "nat \<Rightarrow> nat \<Rightarrow> u8 list \<Rightarrow> nat \<Rightarrow> bool" where
  "font_dot fh fw bits k =
     (let i = k div fw div fh;
          b = bits ! (k div fw);
          x = k mod fw
      in if x < 8 then b AND drop_bit x 0x80 \<noteq> 0 else i \<ge> 0xc0 \<and> i \<le> 0xdf \<and> b AND 1 \<noteq> 0)"

lemma dot_index:
  assumes "y < fh" and "x < fw" and "i < 256"
  shows "(i * fh * fw + y * fw + x) mod fw = x" "(i * fh * fw + y * fw + x) div fw = i * fh + y" "(i * fh * fw + y * fw + x) div fw div fh = i"
    "i * fh * fw + y * fw + x < 256 * fh * fw" "i * fh + y < 256 * (fh :: nat)"
proof -
  have e: "i * fh * fw + y * fw + x = (i * fh + y) * fw + x" by (simp add: algebra_simps)
  show "(i * fh * fw + y * fw + x) mod fw = x" "(i * fh * fw + y * fw + x) div fw = i * fh + y" unfolding e using assms(2) by simp_all
  then show "(i * fh * fw + y * fw + x) div fw div fh = i" using assms(1) by simp
  show b: "i * fh + y < 256 * fh" by (rule cell_bound [OF assms(3,1)])
  show "i * fh * fw + y * fw + x < 256 * fh * fw" unfolding e by (rule cell_bound [OF b assms(2)])
qed

lemma expand_row_filled:
  assumes i: "i < 256" and y: "y < fh" and w: "8 \<le> fw" and b: "length bits = 256 * fh" and l: "length bools = 256 * fh * fw"
  shows "runs (filled (\<Union>x \<in> {0..<fw}. {i * fh * fw + y * fw + x}) (font_dot fh fw bits) bools) (expand_row fh fw i y bits bools)"
proof -
  have d: "font_dot fh fw bits (i * fh * fw + y * fw + x) = (if x < 8 then bits ! (i * fh + y) AND drop_bit x 0x80 \<noteq> 0 else i \<ge> 0xc0 \<and> i \<le> 0xdf \<and> bits ! (i * fh + y) AND 1 \<noteq> 0)"
    if "x < fw" for x
    using dot_index [OF y that i] by (simp add: font_dot_def Let_def)
  have step: "runs (filled {i * fh * fw + y * fw + x} (font_dot fh fw bits) ys) (bind_outcome (array_at bits (i * fh + y)) (\<lambda>b. array_set ys (i * fh * fw + y * fw + x) (f b)))"
    if "x < fw" "length ys = length bools" "f (bits ! (i * fh + y)) = font_dot fh fw bits (i * fh * fw + y * fw + x)" for x ys f
    using dot_index(4,5) [OF y that(1) i] b l that(2,3) fill_one [of "i * fh * fw + y * fw + x" ys "f (bits ! (i * fh + y))" "font_dot fh fw bits"] by simp
  have "runs (filled (\<Union>x \<in> set [0..<8]. {i * fh * fw + y * fw + x}) (font_dot fh fw bits) bools) (for_outcome [0..<8] (\<lambda>x bools.
       bind_outcome (array_at bits (i * fh + y)) (\<lambda>b. array_set bools (i * fh * fw + y * fw + x) (b AND drop_bit x 0x80 \<noteq> 0))) bools)"
    by (rule fill_loop, rule step) (use w d in simp_all)
  moreover have "runs (filled (\<Union>x \<in> set [8..<fw]. {i * fh * fw + y * fw + x}) (font_dot fh fw bits) ys) (for_outcome [8..<fw] (\<lambda>x bools.
       bind_outcome (array_at bits (i * fh + y)) (\<lambda>b. array_set bools (i * fh * fw + y * fw + x) (if i \<ge> 0xc0 \<and> i \<le> 0xdf then b AND 1 \<noteq> 0 else False))) ys)"
    if "length ys = length bools" for ys
    by (rule fill_loop, rule step) (use w d that in auto)
  moreover have "(\<Union>x \<in> {0..<fw}. {i * fh * fw + y * fw + x}) = (\<Union>x \<in> set [0..<8]. {i * fh * fw + y * fw + x}) \<union> (\<Union>x \<in> set [8..<fw]. {i * fh * fw + y * fw + x})"
    using w by (simp flip: UN_Un) (simp add: ivl_disj_un)
  ultimately show ?thesis unfolding expand_row_def by (simp only: filled_bind)
qed

lemma expand_font_ok:
  assumes w: "8 \<le> fw" and b: "length bits = 256 * fh" and l: "length bools = 256 * fh * fw"
  shows "expand_font fh fw bits bools = Done (map (font_dot fh fw bits) [0..<256 * fh * fw])"
proof -
  let ?A = "\<Union>i \<in> set [0..<FBTERM_FONT_GLYPHS]. \<Union>y \<in> set [0..<fh]. \<Union>x \<in> {0..<fw}. {i * fh * fw + y * fw + x}"
  have "runs (filled ?A (font_dot fh fw bits) bools) (expand_font fh fw bits bools)"
    unfolding expand_font_def by (rule fill_loop, rule fill_loop, rule expand_row_filled) (use w b l in \<open>simp_all add: FBTERM_FONT_GLYPHS_def\<close>)
  moreover have "k \<in> ?A" if k: "k < 256 * fh * fw" for k
  proof -
    have "0 < fw" "0 < fh" using k by (auto intro: Nat.gr0I)
    have "k div fw < 256 * fh" using k by (simp add: less_mult_imp_div_less)
    then have "k div fw div fh < 256" by (simp add: less_mult_imp_div_less)
    moreover have "k = k div fw div fh * fh * fw + k div fw mod fh * fw + k mod fw"
      by (metis add_mult_distrib div_mult_mod_eq)
    ultimately show ?thesis using \<open>0 < fw\<close> \<open>0 < fh\<close>
      by (intro UN_I [of "k div fw div fh"] UN_I [of "k div fw mod fh"] UN_I [of "k mod fw"]) (simp_all add: FBTERM_FONT_GLYPHS_def)
  qed
  ultimately obtain ys where "expand_font fh fw bits bools = Done ys" "length ys = 256 * fh * fw" "\<And>k. k < 256 * fh * fw \<Longrightarrow> ys ! k = font_dot fh fw bits k"
    using l by (auto simp: runs_iff filled_def simp del: UN_iff)
  moreover from this have "ys = map (font_dot fh fw bits) [0..<256 * fh * fw]" by (intro nth_equalityI) simp_all
  ultimately show ?thesis by simp
qed

section \<open>The first picture\<close>
lemma refresh_canvas:
  assumes p: "plot_ok s"
  shows "runs (same_picture s) (for_outcome [0..<height s] (\<lambda>y s. for_outcome [0..<width s] (\<lambda>x s.
       bind_outcome (array_at (canvas s) (y * width s + x)) (\<lambda>v.
       bind_outcome (array_set (framebuffer s) (y * (pitch s div 4) + x) v) (\<lambda>fb.
       Done (s\<lparr>framebuffer := fb\<rparr>)))) s) s)"
proof (rule runs_for_inv)
  fix y t assume y: "y \<in> set [0..<height s]" and t: "same_picture s t"
  show "runs (same_picture s) (for_outcome [0..<width t] (\<lambda>x s. bind_outcome (array_at (canvas s) (y * width s + x)) (\<lambda>v.
       bind_outcome (array_set (framebuffer s) (y * (pitch s div 4) + x) v) (\<lambda>fb. Done (s\<lparr>framebuffer := fb\<rparr>)))) t)"
  proof (rule runs_for_inv)
    show "same_picture s t" by (rule t)
    fix x u assume x: "x \<in> set [0..<width t]" and u: "same_picture s u"
    from t u obtain fb fb' where e: "t = s\<lparr>framebuffer := fb\<rparr>" "u = s\<lparr>framebuffer := fb'\<rparr>" "length fb' = length (framebuffer s)" by (auto simp: same_picture_iff)
    have "y * width s + x < length (canvas s)" using cell_bound [of y "height s" x "width s"] x y e plot_okD(9) [OF p] by (simp add: mult.commute)
    moreover have "y * (pitch s div 4) + x < length fb'" using cell_bound [of y "height s" x "pitch s div 4"] x y e plot_okD(7,8) [OF p] by simp
    ultimately show "runs (same_picture s) (bind_outcome (array_at (canvas u) (y * width u + x)) (\<lambda>v.
       bind_outcome (array_set (framebuffer u) (y * (pitch u div 4) + x) v) (\<lambda>fb. Done (u\<lparr>framebuffer := fb\<rparr>))))"
      using e by (auto simp: same_picture_iff)
  qed
qed (simp add: same_picture_def)

lemma refresh_cells:
  assumes ok: "fb_ok s" "plot_ok s" and fb: "length fb = length (framebuffer s)"
  shows "runs (\<lambda>t. \<exists>fb'. t = drawn s fb' (grid s) (qmap s) \<and> length fb' = length (framebuffer s) \<and> (\<forall>j < rows s * cols s. shown t j (grid s ! j)))
    (for_outcome [0..<rows s * cols s] (\<lambda>i s. bind_outcome (array_at (grid s) i) (\<lambda>c. plot_char c (i mod cols s) (i div cols s) s)) (drawn s fb (grid s) (qmap s)))"
proof -
  let ?P = "\<lambda>k t. \<exists>fb'. t = drawn s fb' (grid s) (qmap s) \<and> length fb' = length (framebuffer s) \<and> (\<forall>j < k. shown t j (grid s ! j))"
  have "runs (?P (rows s * cols s)) (for_outcome [0..<rows s * cols s] (\<lambda>i s. bind_outcome (array_at (grid s) i) (\<lambda>c. plot_char c (i mod cols s) (i div cols s) s)) (drawn s fb (grid s) (qmap s)))"
  proof (rule runs_for)
    fix k t assume k: "k < rows s * cols s" and "?P k t"
    then obtain fb1 where t: "t = drawn s fb1 (grid s) (qmap s)" "length fb1 = length (framebuffer s)" "\<And>j. j < k \<Longrightarrow> shown t j (grid s ! j)" by blast
    obtain fb' where f: "plot_char (grid s ! k) (k mod cols s) (k div cols s) (drawn s fb1 (grid s) (qmap s)) = Done (drawn s fb' (grid s) (qmap s))" "length fb' = length (framebuffer s)"
      "\<And>j d g' m' g'' m''. j < rows s * cols s \<Longrightarrow> j \<noteq> k \<Longrightarrow> shown (drawn s fb' g' m') j d = shown (drawn s fb1 g'' m'') j d" "\<And>g' m'. shown (drawn s fb' g' m') k (grid s ! k)"
      by (rule redraw [OF ok t(2) k, of "grid s ! k" "grid s" "qmap s"]) (use fb_okD(7) [OF ok(1) k] that in auto)
    have "shown (drawn s fb' (grid s) (qmap s)) j (grid s ! j)" if "j < Suc k" for j
      using f(4) f(3) [of j "grid s" "qmap s" "grid s ! j" "grid s" "qmap s"] t(3) [of j] that k t(1) by (cases "j = k") auto
    with f k t(1) fb_okD(2) [OF ok(1)]
    show "runs (?P (Suc k)) (bind_outcome (array_at (grid t) k) (\<lambda>c. plot_char c (k mod cols t) (k div cols t) t))" by auto
  qed (use fb in auto)
  then show ?thesis .
qed

lemma full_refresh_run:
  assumes ok: "fb_ok s" "plot_ok s" "cursor_ok s" and q: "qmap s ! cursor_cell s = None" and c: "cursor_status s"
  shows "runs (\<lambda>t. \<exists>fb. t = s\<lparr>framebuffer := fb\<rparr> \<and> length fb = length (framebuffer s) \<and>
      (\<forall>j < rows s * cols s. shown t j (if j = cursor_cell s then inverted (grid s ! j) else grid s ! j))) (fbterm_full_refresh s)"
proof -
  have j: "cursor_cell s < rows s * cols s" "cursor_cell s mod cols s = cursor_x s" "cursor_cell s div cols s = cursor_y s"
    using ok(3) cell_bound [of "cursor_y s" "rows s" "cursor_x s" "cols s"] by (simp_all add: cursor_ok_def cursor_cell_def add.commute)
  let ?Q = "\<lambda>t. \<exists>fb. t = s\<lparr>framebuffer := fb\<rparr> \<and> length fb = length (framebuffer s) \<and>
      (\<forall>j < rows s * cols s. shown t j (if j = cursor_cell s then inverted (grid s ! j) else grid s ! j))"
  have cursor: "runs ?Q (if cursor_status t then draw_cursor t else Done t)"
    if "\<exists>fb'. t = drawn s fb' (grid s) (qmap s) \<and> length fb' = length (framebuffer s) \<and> (\<forall>j < rows s * cols s. shown t j (grid s ! j))" for t
  proof -
    from that obtain fb1 where t: "t = drawn s fb1 (grid s) (qmap s)" "length fb1 = length (framebuffer s)" "\<And>j. j < rows s * cols s \<Longrightarrow> shown t j (grid s ! j)" by blast
    let ?c = "inverted (grid s ! cursor_cell s)"
    obtain fb' where f: "plot_char ?c (cursor_x s) (cursor_y s) (drawn s fb1 (grid s) (qmap s)) = Done (drawn s fb' (grid s) (qmap s))" "length fb' = length (framebuffer s)"
      "\<And>j d g' m' g'' m''. j < rows s * cols s \<Longrightarrow> j \<noteq> cursor_cell s \<Longrightarrow> shown (drawn s fb' g' m') j d = shown (drawn s fb1 g'' m'') j d" "\<And>g' m'. shown (drawn s fb' g' m') (cursor_cell s) ?c"
      by (rule redraw [OF ok(1,2) t(2) j(1), of ?c "grid s" "qmap s", unfolded j(2,3)]) (use fb_okD(7) [OF ok(1) j(1)] that in auto)
    have "drawn s fb' (grid s) (qmap s) = s\<lparr>framebuffer := fb'\<rparr>" by (simp add: drawn_def)
    moreover have "draw_cursor t = Done (drawn s fb' (grid s) (qmap s))"
      using f(1) q j(1) fb_okD(1,2) [OF ok(1)] t(1) by (simp add: draw_cursor_def cell_char_def cursor_cell_def [symmetric] inverted_def Let_def)
    moreover have "shown (drawn s fb' (grid s) (qmap s)) j (if j = cursor_cell s then inverted (grid s ! j) else grid s ! j)" if "j < rows s * cols s" for j
      using f(4) f(3) [OF that, of "grid s" "qmap s" "grid s ! j" "grid s" "qmap s"] t(1) t(3) [OF that] by (cases "j = cursor_cell s") auto
    ultimately show ?thesis using c t(1) f(2) by auto
  qed
  show ?thesis unfolding fbterm_full_refresh_def runs_bind
  proof (rule runs_mono [OF refresh_canvas [OF ok(2)]])
    fix t assume "same_picture s t"
    then obtain fb where t: "t = drawn s fb (grid s) (qmap s)" "length fb = length (framebuffer s)" by (auto simp: same_picture_iff drawn_def)
    then show "runs (\<lambda>u. runs ?Q (if cursor_status u then draw_cursor u else Done u))
        (for_outcome [0..<rows t * cols t] (\<lambda>i s. bind_outcome (array_at (grid s) i) (\<lambda>c. plot_char c (i mod cols s) (i div cols s) s)) t)"
      using runs_mono [OF refresh_cells [OF ok(1,2) t(2)] cursor] by simp
  qed
qed

section \<open>The kernel's terminal\<close>

definition blank :: "u32 \<Rightarrow> fbterm_char" where
  "blank fg = \<lparr>ch_c = 0x20, ch_fg = fg, ch_bg = 0xffffffff\<rparr>"

text \<open>What \<open>fbterm_init\<close> returns to \<open>_start\<close>.\<close>

definition first_context :: "fresh_memory \<Rightarrow> u32 list \<Rightarrow> nat \<Rightarrow> nat \<Rightarrow> nat \<Rightarrow> u32 \<Rightarrow> u32 \<Rightarrow> fbterm_context" where
  "first_context mem fb w h p bg fg = term_context_reinit (zero_context\<lparr>cursor_status := True, ansi_colours := default_ansi_colours, ansi_bright_colours := default_ansi_bright_colours,
     default_bg := bg, default_fg := fg, text_fg := fg, text_bg := 0xffffffff, framebuffer := fb, width := w, height := h, pitch := p,
     font_width := 9, font_height := 16, font_bits := builtin_font, font_bool := map (font_dot 16 9 builtin_font) [0..<256 * 16 * 9],
     font_scale_x := 1, font_scale_y := 1, glyph_width := 9, glyph_height := 16, rows := (h - 2) div 16, cols := (w - 2) div 9,
     offset_x := 1 + (w - 2) mod 9 div 2, offset_y := 1 + (h - 2) mod 16 div 2,
     grid := replicate ((h - 2) div 16 * ((w - 2) div 9)) (blank fg), queue := map (fresh_queue mem) [0..<(h - 2) div 16 * ((w - 2) div 9)], queue_i := 0,
     qmap := map (fresh_map mem) [0..<(h - 2) div 16 * ((w - 2) div 9)], canvas := replicate (w * h) bg\<rparr>)"

text \<open>What a picture depends on besides the characters: the font, the canvas and where the cells are.\<close>

definition face :: "'a fbterm_context_scheme \<Rightarrow> (bool list \<times> u32 list) \<times> (nat \<times> nat \<times> nat \<times> nat) \<times> (nat \<times> nat \<times> nat \<times> nat) \<times> nat \<times> nat" where
  "face s = ((font_bool s, canvas s), (font_height s, font_width s, font_scale_x s, font_scale_y s), (glyph_width s, glyph_height s, offset_x s, offset_y s), (width s, pitch s))"

definition kernel_face :: "nat \<Rightarrow> nat \<Rightarrow> nat \<Rightarrow> u32 \<Rightarrow> (bool list \<times> u32 list) \<times> (nat \<times> nat \<times> nat \<times> nat) \<times> (nat \<times> nat \<times> nat \<times> nat) \<times> nat \<times> nat" where
  "kernel_face w h p bg = ((map (font_dot 16 9 builtin_font) [0..<256 * 16 * 9], replicate (w * h) bg), (16, 9, 1, 1), (9, 16, 1 + (w - 2) mod 9 div 2, 1 + (h - 2) mod 16 div 2), (w, p))"

lemma first_context_face: "face (first_context mem fb w h p bg fg) = kernel_face w h p bg"
  by (simp add: face_def kernel_face_def first_context_def term_context_reinit_def zero_context_def del: upt_rec_numeral)

lemma fbterm_init_kernel:
  assumes "2 \<le> w" "w < 2 ^ 64" "2 \<le> h" "h < 2 ^ 64"
  shows "fbterm_init mem fb w h p None None None (Some bg) (Some fg) None 0 0 0 1 1 1 = Done (first_context mem fb w h p bg fg)"
proof -
  have "copy_from builtin_font (8 * 16 * FBTERM_FONT_GLYPHS div 8) = Done builtin_font"
    by (simp add: copy_from_def FBTERM_FONT_GLYPHS_def builtin_font_length)
  moreover have "expand_font 16 (8 + 1) builtin_font (map (fresh_bool mem) [0..<FBTERM_FONT_GLYPHS * 16 * (8 + 1)]) = Done (map (font_dot 16 9 builtin_font) [0..<256 * 16 * 9])"
    using expand_font_ok [of 9 builtin_font 16 "map (fresh_bool mem) [0..<FBTERM_FONT_GLYPHS * 16 * (8 + 1)]"] by (simp add: FBTERM_FONT_GLYPHS_def builtin_font_length del: upt_Suc upt_rec_numeral)
  ultimately show ?thesis using assms
    unfolding fbterm_init_def first_context_def blank_def Let_def option.case split_conv bind_outcome.simps by (simp only: bind_outcome.simps mult_1_right) simp
qed

text \<open>
  The frame buffer the boot loader reports: room for two rows and a column of characters inside the
  margin, lines of at least \<open>w\<close> pixels.
\<close>

definition frame_ok :: "u32 list \<Rightarrow> nat \<Rightarrow> nat \<Rightarrow> nat \<Rightarrow> bool" where
  "frame_ok fb w h p \<longleftrightarrow> 11 \<le> w \<and> 34 \<le> h \<and> (h - 2) div 16 * ((w - 2) div 9) < 2 ^ 31 \<and> w \<le> p div 4 \<and> length fb = h * (p div 4)"

lemma frame_okD:
  assumes "frame_ok fb w h p"
  shows "0 < (w - 2) div 9" "1 < (h - 2) div 16" "2 \<le> w" "2 \<le> h" "w < 2 ^ 64" "h < 2 ^ 64"
proof -
  have b: "9 \<le> w - 2" "32 \<le> h - 2" using assms by (auto simp: frame_ok_def)
  have "9 div 9 \<le> (w - 2) div 9" "32 div 16 \<le> (h - 2) div 16" by (rule div_le_mono [OF b(1)], rule div_le_mono [OF b(2)])
  then show c: "0 < (w - 2) div 9" "1 < (h - 2) div 16" by simp_all
  show "2 \<le> w" "2 \<le> h" using assms by (auto simp: frame_ok_def)
  have "(w - 2) div 9 \<le> (h - 2) div 16 * ((w - 2) div 9)" "(h - 2) div 16 \<le> (h - 2) div 16 * ((w - 2) div 9)" using c(1,2) by auto
  moreover have "(h - 2) div 16 * ((w - 2) div 9) < 2 ^ 31" using assms by (simp add: frame_ok_def)
  ultimately have "(w - 2) div 9 < 2 ^ 31" "(h - 2) div 16 < 2 ^ 31" by linarith+
  then show "w < 2 ^ 64" "h < 2 ^ 64" by (simp_all add: div_less_iff_less_mult less_diff_conv2)
qed

lemma first_context_fields:
  "rows (first_context mem fb w h p bg fg) = (h - 2) div 16" "cols (first_context mem fb w h p bg fg) = (w - 2) div 9"
  "grid (first_context mem fb w h p bg fg) = replicate ((h - 2) div 16 * ((w - 2) div 9)) (blank fg)" "queue_i (first_context mem fb w h p bg fg) = 0"
  "qmap (first_context mem fb w h p bg fg) = map (fresh_map mem) [0..<(h - 2) div 16 * ((w - 2) div 9)]"
  "length (queue (first_context mem fb w h p bg fg)) = (h - 2) div 16 * ((w - 2) div 9)"
  "cursor_x (first_context mem fb w h p bg fg) = 0" "cursor_y (first_context mem fb w h p bg fg) = 0" "old_cursor_x (first_context mem fb w h p bg fg) = 0"
  "old_cursor_y (first_context mem fb w h p bg fg) = 0" "cursor_status (first_context mem fb w h p bg fg)" "text_fg (first_context mem fb w h p bg fg) = fg"
  "text_bg (first_context mem fb w h p bg fg) = 0xffffffff"
  by (simp_all add: first_context_def term_context_reinit_def zero_context_def)

lemma first_context_plot:
  "font_height (first_context mem fb w h p bg fg) = 16" "font_width (first_context mem fb w h p bg fg) = 9" "length (font_bool (first_context mem fb w h p bg fg)) = 256 * 16 * 9"
  "glyph_width (first_context mem fb w h p bg fg) = 9" "glyph_height (first_context mem fb w h p bg fg) = 16" "font_scale_x (first_context mem fb w h p bg fg) = 1"
  "font_scale_y (first_context mem fb w h p bg fg) = 1" "offset_x (first_context mem fb w h p bg fg) = 1 + (w - 2) mod 9 div 2" "offset_y (first_context mem fb w h p bg fg) = 1 + (h - 2) mod 16 div 2"
  "width (first_context mem fb w h p bg fg) = w" "height (first_context mem fb w h p bg fg) = h" "pitch (first_context mem fb w h p bg fg) = p"
  "framebuffer (first_context mem fb w h p bg fg) = fb" "length (canvas (first_context mem fb w h p bg fg)) = w * h"
  by (simp_all add: first_context_def term_context_reinit_def zero_context_def del: upt_rec_numeral)

lemma centred:
  assumes "2 \<le> n"
  shows "1 + (n - 2) mod k div 2 + (n - 2) div k * k \<le> (n :: nat)"
proof -
  define a b where ab: "a = (n - 2) mod k" "b = (n - 2) div k * k"
  have "b + a = n - 2" unfolding ab by (rule div_mult_mod_eq)
  then show ?thesis unfolding ab [symmetric] using assms div_le_dividend [of a 2] by linarith
qed

lemma first_context_ok:
  fixes bg fg
  assumes f: "frame_ok fb w h p" and m: "fresh_map mem = (\<lambda>_. None)"
  defines "s \<equiv> first_context mem fb w h p bg fg"
  shows "fb_ok s" "plot_ok s" "cursor_ok s" "parser_ok s" "region_ok s" "scroll_enabled s"
proof -
  note F = first_context_fields [of mem fb w h p bg fg, folded s_def]
  note D = frame_okD [OF f]
  have sc: "screen s j = blank fg" if "j < rows s * cols s" for j using that by (simp add: screen_def F m)
  show "fb_ok s" using f D sc by (simp add: fb_ok_def geometry_def queue_ok_def F m frame_ok_def glyph_ok_def blank_def)
  show "cursor_ok s" using D by (simp add: cursor_ok_def F, simp add: s_def first_context_def term_context_reinit_def zero_context_def)
  show "parser_ok s" by (simp add: parser_ok_def s_def first_context_def term_context_reinit_def zero_context_def TERM_MAX_ESC_VALUES_def
      default_ansi_colours_def default_ansi_bright_colours_def primary_ok_def)
  show "region_ok s" "scroll_enabled s" using D by (simp_all add: region_ok_def s_def first_context_def term_context_reinit_def)
  note P = first_context_plot [of mem fb w h p bg fg, folded s_def]
  have "1 + (w - 2) mod 9 div 2 + (w - 2) div 9 * 9 \<le> w" "1 + (h - 2) mod 16 div 2 + (h - 2) div 16 * 16 \<le> h"
    using centred [OF D(3), of 9] centred [OF D(4), of 16] by simp_all
  then show "plot_ok s" using f unfolding plot_ok_def P F(1,2) frame_ok_def by simp
qed

lemma for_outcome_id: "(\<And>i. i \<in> set is \<Longrightarrow> body i s = Done s) \<Longrightarrow> for_outcome is body s = Done s"
  by (induction "is") simp_all

lemma clear_unchanged:
  assumes ok: "fb_ok s" and e: "\<And>j. j < rows s * cols s \<Longrightarrow> qmap s ! j = None \<and> grid s ! j = empty_char s" and c: "cursor_x s = 0" "cursor_y s = 0"
  shows "fbterm_clear m s = Done s"
proof -
  have "push_to_queue (empty_char s) (i mod cols s) (i div cols s) s = Done s" if "i < rows s * cols s" for i
    using that e [OF that] cell_split [OF ok that] fb_okD(1,2) [OF ok] by (simp add: push_to_queue_def compare_char_def)
  then have "for_outcome [0..<rows s * cols s] (\<lambda>i s'. push_to_queue (empty_char s) (i mod cols s') (i div cols s') s') s = Done s"
    by (intro for_outcome_id) simp
  then show ?thesis using c by (simp add: fbterm_clear_def)
qed

text \<open>No sequence is being read, and the modes are those of a new terminal.\<close>

definition idle :: "'a fbterm_context_scheme \<Rightarrow> bool" where
  "idle s \<longleftrightarrow> \<not> discard_next s \<and> \<not> escape s \<and> \<not> csi s \<and> \<not> control_sequence s \<and> g_select s = 0 \<and> \<not> in_bootloader s \<and>
     \<not> insert_mode s \<and> current_charset s = 0 \<and> charsets s = [CHARSET_DEFAULT, CHARSET_DEC_SPECIAL] \<and> tab_size s = 8 \<and> autoflush s \<and> cursor_status s \<and> \<not> dec_private s"

lemma terminal_bringup_run:
  assumes f: "frame_ok fb w h p" and m: "fresh_map mem = (\<lambda>_. None)"
  obtains s where "terminal_bringup mem fb w h p bg fg = Done s" "ready s" "idle s" "rows s = (h - 2) div 16" "cols s = (w - 2) div 9" "cursor_x s = 0" "cursor_y s = 0"
    "scroll_top_margin s = 0" "text_fg s = fg" "text_bg s = 0xffffffff" "face s = kernel_face w h p bg"
    "\<forall>j < rows s * cols s. screen s j = blank fg" "shows_screen s s"
proof -
  define s where "s = first_context mem fb w h p bg fg"
  note F = first_context_fields [of mem fb w h p bg fg, folded s_def]
  note ok = first_context_ok [OF f m, of bg fg, folded s_def]
  have "fbterm_clear True s = Done s" using ok(1) by (rule clear_unchanged) (simp_all add: F m empty_char_def blank_def)
  then have b: "terminal_bringup mem fb w h p bg fg = fbterm_full_refresh s" unfolding terminal_bringup_def fbterm_init_kernel [OF frame_okD(3,5,4,6) [OF f]] s_def [symmetric] by simp
  have "0 < rows s * cols s" using frame_okD(1,2) [OF f] by (simp add: F)
  then have "qmap s ! cursor_cell s = None" by (simp add: cursor_cell_def F m)
  then obtain fb' where t: "fbterm_full_refresh s = Done (s\<lparr>framebuffer := fb'\<rparr>)" "length fb' = length (framebuffer s)"
    "\<forall>j < rows s * cols s. shown (s\<lparr>framebuffer := fb'\<rparr>) j (if j = cursor_cell s then inverted (grid s ! j) else grid s ! j)"
    using full_refresh_run [OF ok(1-3) _ F(11)] by (auto simp: runs_iff)
  let ?t = "s\<lparr>framebuffer := fb'\<rparr>"
  have sc: "screen ?t j = blank fg" "grid s ! j = blank fg" if "j < rows s * cols s" for j using that by (simp_all add: screen_def F m)
  have pic: "shown ?t j (if j = cursor_cell s then inverted (blank fg) else blank fg)" if "j < rows s * cols s" for j
    using t(3) [rule_format, OF that] unfolding sc(2) [OF that] .
  have "displayed ?t" using t(3) sc by (auto simp: displayed_def old_cell_def cursor_cell_def F)
  moreover have "cursor_ok ?t" "parser_ok ?t" "region_ok ?t" "plot_ok ?t" using ok t(2) by (simp_all add: cursor_ok_def parser_ok_def region_ok_def plot_ok_picture)
  ultimately have "ready ?t" using ok by (simp add: ready_def safe_def term_ok_def)
  moreover have "shows_screen ?t ?t" unfolding shows_screen_def
  proof (intro allI impI)
    fix j assume "j < rows ?t * cols ?t"
    then have j: "j < rows s * cols s" by simp
    show "shown ?t j (if cursor_status ?t \<and> j = cursor_cell ?t then inverted (screen ?t j) else screen ?t j)" unfolding sc(1) [OF j] using pic [OF j] by (simp add: cursor_cell_def F)
  qed
  moreover have "face ?t = kernel_face w h p bg" using first_context_face [of mem fb w h p bg fg] by (simp add: s_def [symmetric] face_def)
  moreover have "idle ?t" "scroll_top_margin ?t = 0" by (simp_all add: idle_def s_def first_context_def term_context_reinit_def zero_context_def)
  ultimately show ?thesis using that [of ?t] b t(1) sc(1) by (simp add: F)
qed

end
