(* ===== verification/Term_Text.thy ===== *)
theory Term_Text
  imports Term_Init
begin

text \<open>
  What the terminal does with text, as a machine on a page of characters: a glyph goes to the cursor,
  lines wrap, the page scrolls up when the last line is full. The parser, the queue and the scrolling
  code refine it, and from the kernel's bring-up on the frame buffer shows its page.
\<close>

section \<open>The page\<close>

record page =
  cells :: "fbterm_char list"
  col :: nat
  line :: nat

definition page_scroll :: "nat \<Rightarrow> fbterm_char \<Rightarrow> page \<Rightarrow> page" where
  "page_scroll w sp p = p\<lparr>cells := drop w (cells p) @ replicate w sp\<rparr>"

definition page_line_down :: "nat \<Rightarrow> nat \<Rightarrow> fbterm_char \<Rightarrow> page \<Rightarrow> page" where
  "page_line_down h w sp p = (if line p = h - 1 then page_scroll w sp p else p\<lparr>line := line p + 1\<rparr>)"

definition page_glyph :: "nat \<Rightarrow> nat \<Rightarrow> fbterm_char \<Rightarrow> fbterm_char \<Rightarrow> page \<Rightarrow> page" where
  "page_glyph h w sp g p =
     (let p' = p\<lparr>cells := (cells p)[line p * w + col p := g]\<rparr>
      in if col p + 1 = w then page_line_down h w sp (p'\<lparr>col := 0\<rparr>) else p'\<lparr>col := col p + 1\<rparr>)"

definition page_char :: "nat \<Rightarrow> nat \<Rightarrow> u32 \<Rightarrow> u32 \<Rightarrow> u8 \<Rightarrow> page \<Rightarrow> page" where
  "page_char h w fg bg c p =
     (let sp = \<lparr>ch_c = 0x20, ch_fg = fg, ch_bg = bg\<rparr>
      in if c = 0x00 \<or> c = 0x7f \<or> c = 0x07 then p
         else if c = 0x09 then p\<lparr>col := min (w - 1) ((col p div 8 + 1) * 8)\<rparr>
         else if c = 0x0a \<or> c = 0x0b \<or> c = 0x0c then page_line_down h w sp (p\<lparr>col := 0\<rparr>)
         else if c = 0x08 then p\<lparr>col := col p - 1\<rparr>
         else if c = 0x0d then p\<lparr>col := 0\<rparr>
         else page_glyph h w sp \<lparr>ch_c = ucast c, ch_fg = fg, ch_bg = bg\<rparr> p)"

definition empty_page :: "nat \<Rightarrow> nat \<Rightarrow> u32 \<Rightarrow> u32 \<Rightarrow> page" where
  "empty_page h w fg bg = \<lparr>cells = replicate (h * w) \<lparr>ch_c = 0x20, ch_fg = fg, ch_bg = bg\<rparr>, col = 0, line = 0\<rparr>"

text \<open>Bytes that do not start or end a sequence and do not change the character set.\<close>

definition plain :: "u8 \<Rightarrow> bool" where
  "plain c \<longleftrightarrow> c \<notin> {0x0e, 0x0f, 0x18, 0x1a, 0x1b, 0x9b}"

section \<open>Refinement\<close>

definition page_of :: "'a fbterm_context_scheme \<Rightarrow> page" where
  "page_of s = \<lparr>cells = map (screen s) [0..<rows s * cols s], col = cursor_x s, line = cursor_y s\<rparr>"

definition texting :: "nat \<Rightarrow> nat \<Rightarrow> u32 \<Rightarrow> u32 \<Rightarrow> 'a fbterm_context_scheme \<Rightarrow> bool" where
  "texting h w fg bg s \<longleftrightarrow> ready s \<and> idle s \<and> scroll_top_margin s = 0 \<and> text_fg s = fg \<and> text_bg s = bg \<and> rows s = h \<and> cols s = w"

lemma textingD:
  assumes "texting h w fg bg s"
  shows "ready s" "fb_ok s" "idle s" "scroll_top_margin s = 0" "scroll_bottom_margin s = h" "rows s = h" "cols s = w" "text_fg s = fg" "text_bg s = bg"
    "cursor_x s < w" "cursor_y s < h" "region_ok s" "scroll_enabled s" "1 < h" "0 < w" "h < 2 ^ 31" "w < 2 ^ 31"
  using assms rows_less [of s] fb_okD(8,9) [of s] by (simp_all add: texting_def ready_def safe_defs)

definition texting_on :: "_ \<Rightarrow> nat \<Rightarrow> nat \<Rightarrow> u32 \<Rightarrow> u32 \<Rightarrow> 'a fbterm_context_scheme \<Rightarrow> bool" where
  "texting_on f h w fg bg s \<longleftrightarrow> texting h w fg bg s \<and> face s = f"

lemma texting_on: "texting_on f h w fg bg s \<Longrightarrow> texting h w fg bg s"
  by (simp add: texting_on_def)

lemmas texting_onD = textingD [OF texting_on]

lemma texting_off_cursor:
  assumes s: "texting_on f h w fg bg s" and t: "off_cursor t = off_cursor s" "ready t"
  shows "texting_on f h w fg bg t"
proof -
  have "idle t = idle s" "scroll_top_margin t = scroll_top_margin s" "text_fg t = text_fg s" "text_bg t = text_bg s" "rows t = rows s" "cols t = cols s" "face t = face s"
    by (rule off_cursor_field [OF t(1)]; simp add: off_cursor_def off_screen_def idle_def face_def)+
  with s t(2) show ?thesis by (simp add: texting_on_def texting_def)
qed

lemma scrolled_page:
  assumes s: "texting_on f h w fg bg s"
  shows "map (scrolled_up s) [0..<h * w] = drop w (map (screen s) [0..<h * w]) @ replicate w \<lparr>ch_c = 0x20, ch_fg = fg, ch_bg = bg\<rparr>"
proof (rule nth_equalityI)
  note d = texting_onD [OF s]
  have hw: "(h - 1) * w + w = h * w" "w \<le> h * w" using d(14) by (simp_all add: diff_mult_distrib)
  then show "length (map (scrolled_up s) [0..<h * w]) = length (drop w (map (screen s) [0..<h * w]) @ replicate w \<lparr>ch_c = 0x20, ch_fg = fg, ch_bg = bg\<rparr>)" by simp
  fix i assume "i < length (map (scrolled_up s) [0..<h * w])"
  then have i: "i < h * w" by simp
  show "map (scrolled_up s) [0..<h * w] ! i = (drop w (map (screen s) [0..<h * w]) @ replicate w \<lparr>ch_c = 0x20, ch_fg = fg, ch_bg = bg\<rparr>) ! i"
  proof (cases "i < (h - 1) * w")
    case True
    then have "w + i < h * w" using hw(1) by linarith
    with True i d hw show ?thesis by (simp add: scrolled_up_def nth_append add.commute)
  next
    case False
    with i d hw show ?thesis by (simp add: scrolled_up_def nth_append empty_char_def)
  qed
qed

lemma texting_moved:
  assumes s: "texting_on f h w fg bg s" and t: "off_cursor t = off_cursor s" "fb_ok t" "cursor_x t < w" "cursor_y t < h"
  shows "texting_on f h w fg bg t"
proof (rule texting_off_cursor [OF s t(1)])
  note d = texting_onD [OF s]
  have "term_ok t" by (rule term_ok_off_cursor [OF _ t(1,2)]) (use d t s in \<open>simp_all add: texting_on_def texting_def ready_def safe_def\<close>)
  moreover have "region_ok t" using region_off_cursor [OF t(1)] d(12) by simp
  moreover have "scroll_enabled t = scroll_enabled s" by (rule off_cursor_field [OF t(1)]) (simp add: off_cursor_def off_screen_def)
  ultimately show "ready t" using d(13) by (simp add: ready_def safe_def)
qed

lemma scroll_text:
  assumes s: "texting_on f h w fg bg s"
  shows "runs (\<lambda>t. texting_on f h w fg bg t \<and> page_of t = page_scroll w \<lparr>ch_c = 0x20, ch_fg = fg, ch_bg = bg\<rparr> (page_of s)) (fbterm_scroll s)"
proof (rule runs_mono [OF fbterm_scroll_ok])
  note d = texting_onD [OF s]
  show "fb_ok s" "scroll_top_margin s < scroll_bottom_margin s" "scroll_bottom_margin s \<le> rows s" using d by simp_all
  fix t assume t: "shows_after scrolled_up s t"
  then have o: "off_screen t = off_screen s" "fb_ok t" "\<And>j. j < h * w \<Longrightarrow> screen t j = scrolled_up s j" using d(6,7) by (simp_all add: shows_after_def)
  have c: "cursor_x t = cursor_x s" "cursor_y t = cursor_y s" by (rule off_screen_field [OF o(1)]; simp add: off_screen_def)+
  have tt: "texting_on f h w fg bg t" by (rule texting_moved [OF s _ o(2)]) (use o(1) c d in \<open>simp_all add: off_cursor_def\<close>)
  have "map (screen t) [0..<h * w] = map (scrolled_up s) [0..<h * w]" using o(3) by simp
  then show "texting_on f h w fg bg t \<and> page_of t = page_scroll w \<lparr>ch_c = 0x20, ch_fg = fg, ch_bg = bg\<rparr> (page_of s)"
    using tt c scrolled_page [OF s] texting_onD(6,7) [OF tt] d(6,7) by (simp add: page_of_def page_scroll_def)
qed

lemma set_cursor_text:
  assumes s: "texting_on f h w fg bg s"
  shows "texting_on f h w fg bg (fbterm_set_cursor_pos x y s)"
  using set_cursor_pos_ok [OF texting_onD(2) [OF s], of x y] texting_onD(6,7) [OF s] by (intro texting_moved [OF s]) simp_all

lemma set_cursor_page:
  assumes s: "texting_on f h w fg bg s" and xy: "x < w" "y < h"
  shows "page_of (fbterm_set_cursor_pos x y s) = (page_of s)\<lparr>col := x, line := y\<rparr>"
  using texting_onD(6,7) [OF s] xy set_cursor_pos_ok(5) [OF texting_onD(2) [OF s], of x y] by (simp add: page_of_def) (simp add: fbterm_set_cursor_pos_def Let_def)

lemma page_of_simps [simp]: "col (page_of s) = cursor_x s" "line (page_of s) = cursor_y s"
  by (simp_all add: page_of_def)

lemma line_down_text:
  assumes s: "texting_on f h w fg bg s"
  shows "runs (\<lambda>t. texting_on f h w fg bg t \<and> page_of t = page_line_down h w \<lparr>ch_c = 0x20, ch_fg = fg, ch_bg = bg\<rparr> ((page_of s)\<lparr>col := 0\<rparr>)) (line_down 0 (cursor_y s) s)"
proof -
  note d = texting_onD [OF s]
  have last: "sub64 (scroll_bottom_margin s) 1 = h - 1" using d(5,14,16) by simp
  show ?thesis
  proof (cases "cursor_y s = h - 1")
    case True
    have "texting_on f h w fg bg (fbterm_set_cursor_pos 0 (cursor_y s) t) \<and> page_of (fbterm_set_cursor_pos 0 (cursor_y s) t) = page_scroll w \<lparr>ch_c = 0x20, ch_fg = fg, ch_bg = bg\<rparr> ((page_of s)\<lparr>col := 0\<rparr>)"
      if "texting_on f h w fg bg t \<and> page_of t = page_scroll w \<lparr>ch_c = 0x20, ch_fg = fg, ch_bg = bg\<rparr> (page_of s)" for t
      using that set_cursor_text [of f h w fg bg t] set_cursor_page [of f h w fg bg t 0 "cursor_y s"] d(11,15) by (simp add: page_scroll_def page_of_def)
    then have "runs (\<lambda>t. texting_on f h w fg bg (fbterm_set_cursor_pos 0 (cursor_y s) t) \<and> page_of (fbterm_set_cursor_pos 0 (cursor_y s) t) =
        page_scroll w \<lparr>ch_c = 0x20, ch_fg = fg, ch_bg = bg\<rparr> ((page_of s)\<lparr>col := 0\<rparr>)) (fbterm_scroll s)"
      by (rule runs_mono [OF scroll_text [OF s]])
    with True last show ?thesis by (simp add: line_down_def page_line_down_def)
  next
    case False
    then have "add64 (cursor_y s) 1 = cursor_y s + 1" "cursor_y s + 1 < h" using d(11,16) by simp_all
    with False last set_cursor_text [OF s] set_cursor_page [OF s, of 0 "cursor_y s + 1"] d(15) show ?thesis by (simp add: line_down_def page_line_down_def)
  qed
qed

lemma raw_text:
  assumes s: "texting_on f h w fg bg s"
  shows "runs (\<lambda>t. texting_on f h w fg bg t \<and> page_of t = page_glyph h w \<lparr>ch_c = 0x20, ch_fg = fg, ch_bg = bg\<rparr> \<lparr>ch_c = ucast c, ch_fg = fg, ch_bg = bg\<rparr> (page_of s))
    (fbterm_raw_putchar c s)"
proof -
  note d = texting_onD [OF s]
  let ?sp = "\<lparr>ch_c = 0x20, ch_fg = fg, ch_bg = bg\<rparr>" and ?g = "\<lparr>ch_c = ucast c, ch_fg = fg, ch_bg = bg\<rparr>"
  let ?p = "(page_of s)\<lparr>cells := (cells (page_of s))[cursor_y s * w + cursor_x s := ?g]\<rparr>"
  obtain v where v: "fb_ok v" "off_cursor v = off_cursor s" "\<forall>j < h * w. screen v j = (if j = cursor_y s * w + cursor_x s then ?g else screen s j)"
    "(cursor_x v, cursor_y v) = (if add64 (cursor_x s) 1 = w \<and> (cursor_y s < h - 1 \<or> scroll_enabled s) then (0, cursor_y s + 1) else (add64 (cursor_x s) 1, cursor_y s))"
    "fbterm_raw_putchar c s = (if cursor_y v = h then fbterm_scroll (v\<lparr>cursor_y := h - 1\<rparr>) else Done v)"
    by (rule raw_putchar_run [OF d(2,12), of c]) (use d(6-11) that in \<open>auto simp: glyph_of_def\<close>)
  have x: "add64 (cursor_x s) 1 = cursor_x s + 1" using d(10,17) by simp
  have rc: "rows v = h" "cols v = w" by (rule trans [OF off_cursor_field [OF v(2)]], simp add: off_cursor_def off_screen_def, simp add: d)+
  have cv: "map (screen v) [0..<h * w] = cells ?p" using v(3) d(6,7) by (intro nth_equalityI) (simp_all add: page_of_def nth_list_update)
  show ?thesis
  proof (cases "cursor_x s + 1 = w \<and> cursor_y s + 1 = h")
    case True
    let ?v = "v\<lparr>cursor_y := h - 1\<rparr>"
    have tv: "texting_on f h w fg bg ?v" by (rule texting_moved [OF s]) (use True v(1,2,4) x d(13-15) in \<open>simp_all add: off_cursor_def off_screen_def\<close>)
    have "page_of ?v = ?p\<lparr>col := 0\<rparr>" using cv rc v(4) True x d(6,7,13) by (auto simp: page_of_def)
    then have "page_glyph h w ?sp ?g (page_of s) = page_scroll w ?sp (page_of ?v)" using True by (auto simp: page_glyph_def page_line_down_def Let_def)
    moreover have "fbterm_raw_putchar c s = fbterm_scroll ?v" using v(4,5) True x d(13) by simp
    ultimately show ?thesis using scroll_text [OF tv] by simp
  next
    case False
    have "texting_on f h w fg bg v" by (rule texting_moved [OF s v(2,1)]) (use False v(4) x d(10,11,13,15) in \<open>auto split: if_splits\<close>)
    moreover have "page_of v = page_glyph h w ?sp ?g (page_of s)"
      using cv rc v(4) False x d(13,14) by (cases "cursor_x s + 1 = w") (simp_all add: page_of_def [of v] page_glyph_def page_line_down_def Let_def)
    moreover have "cursor_y v \<noteq> h" using False v(4) x d(11) by (auto split: if_splits)
    ultimately show ?thesis using v(5) by simp
  qed
qed

lemma tab_stop:
  assumes s: "texting_on f h w fg bg s"
  shows "(if cursor_x s div 8 + 1 \<ge> w then fbterm_set_cursor_pos (sub64 w 1) y s else fbterm_set_cursor_pos ((cursor_x s div 8 + 1) * 8) y s) =
    fbterm_set_cursor_pos (min (w - 1) ((cursor_x s div 8 + 1) * 8)) y s"
proof -
  note d = texting_onD [OF s]
  have "2 * w \<le> h * w" using d(14) by simp
  then have "2 * w < 2 ^ 31" using fb_okD(10) [OF d(2)] unfolding d(6,7) by linarith
  then have w: "w < 2 ^ 30" by simp
  define v where "v = (cursor_x s div 8 + 1) * 8"
  have v: "v \<le> cursor_x s + 8" "cursor_x s div 8 + 1 \<le> v" unfolding v_def by simp_all
  then have "v < 2 ^ 31" using w d(10) by simp
  then have n: "\<not> int_negative v" by (simp add: int_negative_def)
  have l: "sub64 w 1 = w - 1" using w d(15) by simp
  have "fbterm_set_cursor_pos v y s = fbterm_set_cursor_pos (min (w - 1) v) y s"
  proof (cases "v < w")
    case False
    then have "min (w - 1) v = w - 1" "\<not> w \<le> w - 1" using d(15) by simp_all
    with False n l d(7) show ?thesis by (simp add: fbterm_set_cursor_pos_def)
  qed (simp add: min_absorb2)
  moreover have "min (w - 1) v = w - 1" if "w \<le> cursor_x s div 8 + 1" using that v(2) by simp
  ultimately show ?thesis unfolding v_def [symmetric] l by simp
qed

lemma callback_text: "texting_on f h w fg bg s \<Longrightarrow> texting_on f h w fg bg (call_callback a b c e s) \<and> page_of (call_callback a b c e s) = page_of s"
  using callback_safe [of s a b c e] by (simp add: texting_on_def texting_def ready_def idle_def face_def page_of_def call_callback_def)

lemma backspace_text:
  assumes s: "texting_on f h w fg bg s"
  shows "fbterm_set_cursor_pos (sub64 (cursor_x s) 1) y s = fbterm_set_cursor_pos (cursor_x s - 1) y s"
proof (cases "cursor_x s")
  case 0
  have "sub64 0 1 = 2 ^ 64 - 1" by (simp add: sub64_def)
  moreover have "int_negative (2 ^ 64 - 1)" by (simp add: int_negative_def)
  ultimately show ?thesis using 0 texting_onD(7,15,17) [OF s] by (simp add: fbterm_set_cursor_pos_def)
next
  case (Suc n) then show ?thesis using texting_onD(10,17) [OF s] by simp
qed

lemma term_putchar_text:
  assumes s: "texting_on f h w fg bg s" and c: "plain c"
  shows "runs (\<lambda>t. texting_on f h w fg bg t \<and> page_of t = page_char h w fg bg c (page_of s)) (term_putchar c s)"
proof -
  note d = texting_onD [OF s]
  have e: "(page_of s)\<lparr>col := x, line := cursor_y s\<rparr> = (page_of s)\<lparr>col := x\<rparr>" for x by (simp add: page_of_def)
  have i: "\<not> discard_next s" "\<not> escape s" "g_select s = 0" "\<not> insert_mode s" "charsets s = [CHARSET_DEFAULT, CHARSET_DEC_SPECIAL]" "current_charset s = 0" "tab_size s = 8"
    using d(3) by (simp_all add: idle_def)
  have g: "put_glyph c s = fbterm_raw_putchar c s" using i by (simp add: put_glyph_def fbterm_get_cursor_pos_def CHARSET_DEFAULT_def CHARSET_DEC_SPECIAL_def)
  have cursor: "texting_on f h w fg bg (fbterm_set_cursor_pos x (cursor_y s) s) \<and> page_of (fbterm_set_cursor_pos x (cursor_y s) s) = (page_of s)\<lparr>col := x\<rparr>" if "x < w" for x
    using set_cursor_text [OF s] set_cursor_page [OF s that d(11)] e by simp
  have tab: "c = 9 \<Longrightarrow> term_putchar c s = Done (fbterm_set_cursor_pos (min (w - 1) ((cursor_x s div 8 + 1) * 8)) (cursor_y s) s)"
    using i d(7) tab_stop [OF s, of "cursor_y s"] by (simp add: term_putchar_def fbterm_get_cursor_pos_def split del: if_split) (simp split: if_split_asm)
  have bs: "c = 8 \<Longrightarrow> term_putchar c s = Done (fbterm_set_cursor_pos (cursor_x s - 1) (cursor_y s) s)"
    using i backspace_text [OF s, of "cursor_y s"] by (simp add: term_putchar_def fbterm_get_cursor_pos_def)
  have p: "\<not> (c = 0x0e \<or> c = 0x0f \<or> c = 0x18 \<or> c = 0x1a \<or> c = 0x1b \<or> c = 0x9b)" using c by (simp add: plain_def)
  show ?thesis
  proof (cases "c = 9 \<or> c = 8")
    case True
    then show ?thesis using tab bs cursor [of "min (w - 1) ((cursor_x s div 8 + 1) * 8)"] cursor [of "cursor_x s - 1"] d(10,15) by (auto simp: page_char_def)
  next
    case False
    then show ?thesis using i p s raw_text [OF s, of c] line_down_text [OF s] cursor [of 0] d(15) callback_text [OF s]
      by (simp add: term_putchar_def fbterm_get_cursor_pos_def page_char_def g)
  qed
qed

lemma term_bytes_text:
  "texting_on f h w fg bg s \<Longrightarrow> list_all plain cs \<Longrightarrow> runs (\<lambda>t. texting_on f h w fg bg t \<and> page_of t = fold (page_char h w fg bg) cs (page_of s)) (term_bytes cs s)"
proof (induction cs arbitrary: s)
  case (Cons c cs)
  obtain u where u: "term_putchar c s = Done u" "texting_on f h w fg bg u" "page_of u = page_char h w fg bg c (page_of s)"
    using term_putchar_text [of f h w fg bg s c] Cons.prems by (auto simp: runs_iff)
  with Cons.IH [OF u(2)] Cons.prems show ?case by simp
qed simp

text \<open>The frame buffer shows a page, with the cell under the cursor inverted.\<close>

definition shows_page :: "nat \<Rightarrow> nat \<Rightarrow> page \<Rightarrow> 'a fbterm_context_scheme \<Rightarrow> bool" where
  "shows_page h w p t \<longleftrightarrow> (\<forall>j < h * w. shown t j (if j = line p * w + col p then inverted (cells p ! j) else cells p ! j))"

lemma flush_text:
  assumes s: "texting_on f h w fg bg s"
  shows "runs (\<lambda>t. texting_on f h w fg bg t \<and> page_of t = page_of s \<and> shows_page h w (page_of s) t) (fbterm_double_buffer_flush s)"
proof (rule runs_mono [OF flush_ready [OF texting_onD(1) [OF s]]])
  fix t assume t: "flush_done s t"
  note d = texting_onD [OF s] and r = flush_done_safe [OF texting_onD(1) [OF s] t]
  have f: "rows t = rows s" "cols t = cols s" "cursor_x t = cursor_x s" "cursor_y t = cursor_y s" "idle t = idle s" "scroll_top_margin t = scroll_top_margin s" "text_fg t = text_fg s" "text_bg t = text_bg s" "face t = face s"
    using t by (auto simp: flush_done_def drawn_def idle_def face_def)
  have "texting_on f h w fg bg t" using s r(1) by (simp add: texting_on_def texting_def f)
  moreover have "page_of t = page_of s" using r(2) by (simp add: page_of_def f)
  moreover have "cells (page_of s) ! j = screen s j" if "j < h * w" for j using that d(6,7) by (simp add: page_of_def)
  moreover have "cursor_status s" using d(3) by (simp add: idle_def)
  moreover have "shown t j (if cursor_status s \<and> j = cursor_cell s then inverted (screen s j) else screen s j)" if "j < h * w" for j
    using flush_done_shows [OF t] that d(6,7) by (simp add: shows_screen_def)
  ultimately show "texting_on f h w fg bg t \<and> page_of t = page_of s \<and> shows_page h w (page_of s) t"
    using d(7) by (simp add: shows_page_def cursor_cell_def add.commute cong: if_cong split del: if_split)
qed

lemma term_write_text:
  assumes s: "texting_on f h w fg bg s" and cs: "list_all plain cs"
  shows "runs (\<lambda>t. texting_on f h w fg bg t \<and> page_of t = fold (page_char h w fg bg) cs (page_of s) \<and> shows_page h w (page_of t) t) (term_write cs s)"
proof -
  obtain u where u: "term_bytes cs s = Done u" "texting_on f h w fg bg u" "page_of u = fold (page_char h w fg bg) cs (page_of s)"
    using term_bytes_text [OF s cs] by (auto simp: runs_iff)
  have "autoflush u" using texting_onD(3) [OF u(2)] by (simp add: idle_def)
  then show ?thesis using u flush_text [OF u(2)] by (simp add: term_write_def) (erule runs_mono, simp)
qed

lemma bringup_text:
  assumes f: "frame_ok fb w h p" and m: "fresh_map mem = (\<lambda>_. None)"
  shows "runs (\<lambda>s. texting_on (kernel_face w h p bg) ((h - 2) div 16) ((w - 2) div 9) fg 0xffffffff s \<and> page_of s = empty_page ((h - 2) div 16) ((w - 2) div 9) fg 0xffffffff)
    (terminal_bringup mem fb w h p bg fg)"
  by (rule terminal_bringup_run [OF f m, of bg fg])
    (auto simp: texting_on_def texting_def page_of_def empty_page_def blank_def simp flip: map_replicate_trivial intro!: nth_equalityI)

section \<open>Pixels\<close>

text \<open>A dot of a character in the kernel's font: the bits of a row from the left, a ninth column that
  repeats the last one for the line-drawing characters and is empty for the others.\<close>

definition glyph_bit :: "u32 \<Rightarrow> nat \<Rightarrow> nat \<Rightarrow> bool" where
  "glyph_bit c y x \<longleftrightarrow> (if x < 8 then bit (builtin_font ! (16 * unat c + y)) (7 - x) else 0xc0 \<le> c \<and> c \<le> 0xdf \<and> bit (builtin_font ! (16 * unat c + y)) 0)"

text \<open>The colour of a dot; the colour without a value is the background's.\<close>

definition dot_colour :: "u32 \<Rightarrow> fbterm_char \<Rightarrow> nat \<Rightarrow> nat \<Rightarrow> u32" where
  "dot_colour bg g y x = (let v = (if glyph_bit (ch_c g) y x then ch_fg g else ch_bg g) in if v = 0xffffffff then bg else v)"

text \<open>A frame buffer of \<open>w\<close> by \<open>h\<close> pixels, with lines of \<open>p\<close> bytes, shows a page: in cells of 9 by 16
  pixels, centred inside a margin of one pixel, every dot of every character has its colour, and the
  character under the cursor has its two colours swapped.\<close>

definition page_pixels :: "nat \<Rightarrow> nat \<Rightarrow> nat \<Rightarrow> u32 \<Rightarrow> page \<Rightarrow> u32 list \<Rightarrow> bool" where
  "page_pixels w h p bg q fb \<longleftrightarrow> (\<forall>r < (h - 2) div 16. \<forall>c < (w - 2) div 9. \<forall>y < 16. \<forall>x < 9.
     fb ! ((1 + (h - 2) mod 16 div 2 + r * 16 + y) * (p div 4) + (1 + (w - 2) mod 9 div 2 + c * 9 + x)) =
     dot_colour bg (let g = cells q ! (r * ((w - 2) div 9) + c) in if r = line q \<and> c = col q then g\<lparr>ch_fg := ch_bg g, ch_bg := ch_fg g\<rparr> else g) y x)"

lemma mask_bit: "x < 8 \<Longrightarrow> (b AND drop_bit x 0x80 \<noteq> 0) = bit (b :: u8) (7 - x)"
proof -
  assume x: "x < 8"
  then have "x \<in> {0, 1, 2, 3, 4, 5, 6, 7}" by auto
  then have "drop_bit x (0x80 :: u8) = 2 ^ (7 - x)" by auto
  then show ?thesis using x by (simp add: and_exp_eq_0_iff_not_bit)
qed

lemma font_dot_bit:
  assumes "c < 256" "y < 16" "x < 9"
  shows "font_dot 16 9 builtin_font (unat c * 16 * 9 + (y * 9 + x)) = glyph_bit c y x"
proof -
  have c: "unat c < 256" using assms(1) by (simp add: word_less_nat_alt)
  show ?thesis using dot_index [OF assms(2,3) c] mask_bit [of x]
    by (simp add: font_dot_def glyph_bit_def Let_def add.assoc word_le_nat_alt and_one_eq odd_iff_mod_2_eq_one bit_0 mult.commute)
qed

lemma face_fields:
  assumes "face s = kernel_face w h p bg"
  shows "font_bool s = map (font_dot 16 9 builtin_font) [0..<256 * 16 * 9]" "canvas s = replicate (w * h) bg" "font_height s = 16" "font_width s = 9"
    "font_scale_x s = 1" "font_scale_y s = 1" "glyph_width s = 9" "glyph_height s = 16" "offset_x s = 1 + (w - 2) mod 9 div 2" "offset_y s = 1 + (h - 2) mod 16 div 2"
    "width s = w" "pitch s = p"
  using assms unfolding face_def kernel_face_def Pair_inject by blast+

lemma cell_pixel:
  assumes s: "plot_ok s" "face s = kernel_face w h p bg" and xy: "x < cols s" "y < rows s" and g: "gx < 9" "gy < 16" and c: "glyph_ok c" "cell_shows c x y s"
  shows "framebuffer s ! ((1 + (h - 2) mod 16 div 2 + y * 16 + gy) * (p div 4) + (1 + (w - 2) mod 9 div 2 + x * 9 + gx)) = dot_colour bg c gy gx" (is "_ ! ?i = _")
proof -
  note f = face_fields [OF s(2)]
  have k: "gx < glyph_width s" "gy < glyph_height s" using g by (simp_all add: f)
  have i: "?i = pixel_at x y gx gy s" by (simp add: pixel_at_def f)
  have n: "unat (ch_c c) * 16 * 9 + (gy * 9 + gx) < 256 * 16 * 9" using font_bound [OF s(1) c(1), of gy gx] g plot_okD(2) [OF s(1)] unfolding f(3,4) by simp
  have "pixel_at x y gx gy s \<in> cell_pixels x y s" using k unfolding cell_pixels_def by (intro UN_I [of gy] UN_I [of gx]) simp_all
  then have "framebuffer s ! ?i = cell_image c x y s (pixel_at x y gx gy s)" using c(2) unfolding i cell_shows_def by blast
  also have "\<dots> = dot_colour bg c gy gx"
    using pixel_decode(4) [OF s(1) xy k] font_dot_bit [OF _ g(2,1), of "ch_c c"] c(1) n
    unfolding cell_image_at [OF s(1) xy k] by (simp add: f dot_colour_def glyph_ok_def Let_def del: upt_rec_numeral)
  finally show ?thesis .
qed

lemma cell_index_inj: "c < w \<Longrightarrow> d < w \<Longrightarrow> r * w + c = q * w + d \<longleftrightarrow> r = q \<and> c = (d :: nat)"
proof -
  assume "c < w" "d < w"
  then have "(r * w + c) div w = r" "(r * w + c) mod w = c" "(q * w + d) div w = q" "(q * w + d) mod w = d" by simp_all
  then show ?thesis by metis
qed

lemma shows_pixels:
  assumes s: "texting_on (kernel_face w h p bg) ((h - 2) div 16) ((w - 2) div 9) fg c t" and q: "shows_page ((h - 2) div 16) ((w - 2) div 9) (page_of t) t"
  shows "page_pixels w h p bg (page_of t) (framebuffer t)"
  unfolding page_pixels_def
proof (intro allI impI)
  fix r c y x :: nat assume b: "r < (h - 2) div 16" "c < (w - 2) div 9" "y < 16" "x < 9"
  note d = texting_onD [OF s]
  let ?j = "r * ((w - 2) div 9) + c" and ?p = "page_of t"
  let ?g = "if r = line ?p \<and> c = col ?p then inverted (cells ?p ! ?j) else cells ?p ! ?j"
  have j: "?j < (h - 2) div 16 * ((w - 2) div 9)" by (rule cell_bound [OF b(1,2)])
  have "cells ?p ! ?j = screen t ?j" using j d(6,7) by (simp add: page_of_def)
  then have "glyph_ok (cells ?p ! ?j)" using fb_okD(7) [OF d(2), of ?j] j d(6,7) by simp
  then have g: "glyph_ok ?g" by auto
  have e: "?j = line ?p * ((w - 2) div 9) + col ?p \<longleftrightarrow> r = line ?p \<and> c = col ?p"
    using cell_index_inj [OF b(2), of "col ?p" r "line ?p"] d(10) by simp
  have "shown t ?j ?g" using q j unfolding shows_page_def e [symmetric] by blast
  then have "cell_shows ?g c r t" using b(2) d(7) by (simp add: shown_def)
  with cell_pixel [of t w h p bg c r x y ?g] s b d(1,6,7) g
  show "framebuffer t ! ((1 + (h - 2) mod 16 div 2 + r * 16 + y) * (p div 4) + (1 + (w - 2) mod 9 div 2 + c * 9 + x)) =
      dot_colour bg (let g = cells ?p ! ?j in if r = line ?p \<and> c = col ?p then g\<lparr>ch_fg := ch_bg g, ch_bg := ch_fg g\<rparr> else g) y x"
    by (simp add: texting_on_def ready_def safe_def term_ok_def inverted_def Let_def)
qed

section \<open>Properties\<close>

text \<open>C5: the kernel's terminal, from its bring-up on the boot loader's frame buffer, shows the text
  that is written to it. After \<open>term_write\<close> every pixel of every cell of the frame buffer has the
  colour that the dots of the kernel's font, the foreground and the background give the character that
  the page machine has there after the same bytes, the cursor's cell inverted. The bytes are any but
  those that start a sequence, change the character set or discard (ESC, CSI, SO, SI, CAN and SUB),
  and the map of the queue has to be null at first, which \<open>fbterm_init\<close> leaves to the allocator.\<close>
theorem terminal_shows_text:
  assumes "frame_ok fb w h p" and "fresh_map mem = (\<lambda>_. None)" and "list_all plain cs"
  shows "\<exists>s t. terminal_bringup mem fb w h p bg fg = Done s \<and> term_write cs s = Done t \<and>
    page_pixels w h p bg
      (fold (page_char ((h - 2) div 16) ((w - 2) div 9) fg 0xffffffff) cs (empty_page ((h - 2) div 16) ((w - 2) div 9) fg 0xffffffff)) (framebuffer t)"
proof -
  obtain s where s: "terminal_bringup mem fb w h p bg fg = Done s" "texting_on (kernel_face w h p bg) ((h - 2) div 16) ((w - 2) div 9) fg 0xffffffff s"
    "page_of s = empty_page ((h - 2) div 16) ((w - 2) div 9) fg 0xffffffff"
    using bringup_text [OF assms(1,2), of bg fg] by (auto simp: runs_iff)
  obtain t where t: "term_write cs s = Done t" "texting_on (kernel_face w h p bg) ((h - 2) div 16) ((w - 2) div 9) fg 0xffffffff t"
    "page_of t = fold (page_char ((h - 2) div 16) ((w - 2) div 9) fg 0xffffffff) cs (page_of s)" "shows_page ((h - 2) div 16) ((w - 2) div 9) (page_of t) t"
    using term_write_text [OF s(2) assms(3)] by (auto simp: runs_iff)
  with s shows_pixels [OF t(2,4)] show ?thesis by auto
qed

definition clear_memory :: fresh_memory where
  "clear_memory = \<lparr>fresh_bool = \<lambda>_. False, fresh_queue = \<lambda>_. \<lparr>q_x = 0, q_y = 0, q_c = \<lparr>ch_c = 0, ch_fg = 0, ch_bg = 0\<rparr>\<rparr>, fresh_map = \<lambda>_. None\<rparr>"

lemma demo_frame: "frame_ok (replicate 680 0) 20 34 80" "fresh_map clear_memory = (\<lambda>_. None)"
  by (simp_all add: frame_ok_def clear_memory_def)

lemma demo_page:
  "fold (page_char 2 2 7 0xffffffff) [0x48, 0x69] (empty_page 2 2 7 0xffffffff) =
    \<lparr>cells = [\<lparr>ch_c = 0x48, ch_fg = 7, ch_bg = 0xffffffff\<rparr>, \<lparr>ch_c = 0x69, ch_fg = 7, ch_bg = 0xffffffff\<rparr>, \<lparr>ch_c = 0x20, ch_fg = 7, ch_bg = 0xffffffff\<rparr>,
      \<lparr>ch_c = 0x20, ch_fg = 7, ch_bg = 0xffffffff\<rparr>], col = 0, line = 1\<rparr>"
proof -
  have "replicate 4 x = [x, x, x, x]" for x :: fbterm_char by (simp add: numeral_eq_Suc)
  then show ?thesis by (simp add: page_char_def page_glyph_def page_line_down_def empty_page_def)
qed

text \<open>The third row of the letter H is \<open>xx...xx.\<close>.\<close>
lemma letter_H: "glyph_bit 0x48 2 0" "\<not> glyph_bit 0x48 2 2"
proof -
  have "builtin_font ! 1154 = glyphs_40 ! 130" by (simp add: builtin_font_def nth_append glyphs_length)
  also have "\<dots> = 0xc6" by (simp add: glyphs_40_def)
  finally show "glyph_bit 0x48 2 0" "\<not> glyph_bit 0x48 2 2" by (simp_all add: glyph_bit_def)
qed

theorem terminal_shows_text_witness:
  "\<exists>s t. terminal_bringup clear_memory (replicate 680 0) 20 34 80 1 7 = Done s \<and> term_write [0x48, 0x69] s = Done t \<and>
    framebuffer t ! (3 * 20 + 1) = 7 \<and> framebuffer t ! (3 * 20 + 3) = 1"
proof -
  obtain s t where st: "terminal_bringup clear_memory (replicate 680 0) 20 34 80 1 7 = Done s" "term_write [0x48, 0x69] s = Done t"
    "page_pixels 20 34 80 1 (fold (page_char 2 2 7 0xffffffff) [0x48, 0x69] (empty_page 2 2 7 0xffffffff)) (framebuffer t)"
    using terminal_shows_text [OF demo_frame, of "[0x48, 0x69]" 1 7] by (auto simp: plain_def)
  note px = st(3) [unfolded demo_page page_pixels_def, rule_format, of 0 0 2]
  have "framebuffer t ! (3 * 20 + 1) = 7" using px [of 0] letter_H(1) by (simp add: dot_colour_def)
  moreover have "framebuffer t ! (3 * 20 + 3) = 1" using px [of 2] letter_H(2) by (simp add: dot_colour_def)
  ultimately show ?thesis using st(1,2) by blast
qed

text \<open>C38: the shortcut of the flush is sound. Where the frame buffer shows a character and the new
  one has the same two colours, \<open>plot_char_fast\<close>, which only touches the dots that differ, leaves
  the state that \<open>plot_char\<close> leaves by drawing every pixel of the cell.\<close>
theorem plot_char_fast_correct:
  assumes "plot_ok s" and "glyph_ok c" and "glyph_ok old" and "ch_fg old = ch_fg c" and "ch_bg old = ch_bg c"
    and "x < cols s \<Longrightarrow> y < rows s \<Longrightarrow> cell_shows old x y s"
  shows "plot_char_fast old c x y s = plot_char c x y s"
  by (rule plot_fast_eq [OF assms])

theorem plot_char_fast_correct_witness:
  "\<exists>s. terminal_bringup clear_memory (replicate 680 0) 20 34 80 0 7 = Done s \<and> cols s = 2 \<and> rows s = 2 \<and>
    plot_char_fast (blank 7) (\<lparr>ch_c = 0x41, ch_fg = 7, ch_bg = 0xffffffff\<rparr>) 1 0 s = plot_char \<lparr>ch_c = 0x41, ch_fg = 7, ch_bg = 0xffffffff\<rparr> 1 0 s"
proof -
  obtain s where s: "terminal_bringup clear_memory (replicate 680 0) 20 34 80 0 7 = Done s" "ready s" "rows s = 2" "cols s = 2" "cursor_x s = 0" "cursor_y s = 0"
    "\<forall>j < rows s * cols s. screen s j = blank 7" "shows_screen s s"
    by (rule terminal_bringup_run [OF demo_frame, of 0 7]) (use that in simp)
  have j: "1 < rows s * cols s" "cursor_cell s \<noteq> 1" using s(3-6) by (simp_all add: cursor_cell_def)
  have "shown s 1 (if cursor_status s \<and> 1 = cursor_cell s then inverted (screen s 1) else screen s 1)" using s(8) j(1) unfolding shows_screen_def by blast
  then have "shown s 1 (blank 7)" using s(7) j by simp
  then have "cell_shows (blank 7) 1 0 s" using s(4) by (simp add: shown_def)
  moreover have "plot_ok s" using s(2) by (simp add: ready_def safe_def term_ok_def)
  ultimately show ?thesis using plot_char_fast_correct [of s "\<lparr>ch_c = 0x41, ch_fg = 7, ch_bg = 0xffffffff\<rparr>" "blank 7" 1 0] s(1,3,4) by (simp add: glyph_ok_def blank_def)
qed

end
