(* ===== verification/Term_Faults.thy ===== *)
theory Term_Faults
  imports Term_Text
begin

text \<open>
  Which bytes the terminal takes without leaving its arrays: all but two sequences that the parser
  accepts, the exceptions that the invariant of the terminal has to make.
\<close>

section \<open>Reading a control sequence\<close>

definition quiet :: "'a fbterm_context_scheme \<Rightarrow> bool" where
  "quiet s \<longleftrightarrow> \<not> discard_next s \<and> \<not> escape s \<and> \<not> csi s \<and> \<not> control_sequence s \<and> g_select s = 0 \<and> \<not> in_bootloader s \<and> \<not> dec_private s \<and>
     scroll_enabled s \<and> length (esc_values s) = 16"

text \<open>Inside of a sequence, with the values read so far.\<close>

definition in_csi :: "'a fbterm_context_scheme \<Rightarrow> u32 list \<Rightarrow> nat \<Rightarrow> bool \<Rightarrow> nat \<Rightarrow> 'a fbterm_context_scheme" where
  "in_csi s vs i r n = s\<lparr>control_sequence := True, escape := True, escape_offset := n, esc_values := vs, esc_values_i := i, rrr := r\<rparr>"

lemma in_csi_fields [simp]:
  "control_sequence (in_csi s vs i r n)" "escape (in_csi s vs i r n)" "escape_offset (in_csi s vs i r n) = n" "esc_values (in_csi s vs i r n) = vs"
  "esc_values_i (in_csi s vs i r n) = i" "rrr (in_csi s vs i r n) = r" "discard_next (in_csi s vs i r n) = discard_next s"
  "in_bootloader (in_csi s vs i r n) = in_bootloader s" "dec_private (in_csi s vs i r n) = dec_private s" "scroll_enabled (in_csi s vs i r n) = scroll_enabled s"
  by (simp_all add: in_csi_def)

lemma in_csi_updates [simp]:
  "(in_csi s vs i r n)\<lparr>escape_offset := m\<rparr> = in_csi s vs i r m" "(in_csi s vs i r n)\<lparr>esc_values := ws\<rparr> = in_csi s ws i r n"
  "(in_csi s vs i r n)\<lparr>esc_values_i := k\<rparr> = in_csi s vs k r n" "(in_csi s vs i r n)\<lparr>rrr := b\<rparr> = in_csi s vs i b n"
  by (simp_all add: in_csi_def)

lemma fill_values_eq:
  assumes "length (esc_values s) = 16" and "n \<le> 16"
  shows "for_outcome [n..<16] (\<lambda>i. set_esc i d) s = Done (s\<lparr>esc_values := take n (esc_values s) @ replicate (16 - n) d\<rparr>)"
proof -
  have "runs (\<lambda>t. t = s\<lparr>esc_values := take n (esc_values s) @ replicate (16 - n) d @ drop 16 (esc_values s)\<rparr>) (for_outcome [n..<16] (\<lambda>i. set_esc i d) s)"
  proof (rule runs_for [where P = "\<lambda>k t. t = s\<lparr>esc_values := take n (esc_values s) @ replicate (k - n) d @ drop k (esc_values s)\<rparr>"])
    fix k t assume k: "n \<le> k" "k < 16" and t: "t = s\<lparr>esc_values := take n (esc_values s) @ replicate (k - n) d @ drop k (esc_values s)\<rparr>"
    have "(take n (esc_values s) @ replicate (k - n) d @ drop k (esc_values s))[k := d] = take n (esc_values s) @ replicate (Suc k - n) d @ drop (Suc k) (esc_values s)"
      using k assms by (simp add: list_update_append Cons_nth_drop_Suc [symmetric] Suc_diff_le replicate_app_Cons_same)
    then show "runs (\<lambda>t. t = s\<lparr>esc_values := take n (esc_values s) @ replicate (Suc k - n) d @ drop (Suc k) (esc_values s)\<rparr>) (set_esc k d t)"
      using k assms t by (simp add: set_esc_def)
  qed (use assms in simp_all)
  then show ?thesis using assms by (simp add: runs_iff)
qed

lemma term_bytes_append:
  fixes s :: "'a fbterm_context_scheme"
  shows "term_bytes (xs @ ys) s = bind_outcome (term_bytes xs s) (term_bytes ys)"
proof (induction xs arbitrary: s)
  case (Cons c xs)
  then have "term_bytes (xs @ ys) = (\<lambda>s :: 'a fbterm_context_scheme. bind_outcome (term_bytes xs s) (term_bytes ys))" by (simp add: fun_eq_iff)
  then show ?case by (simp add: bind_outcome_assoc)
qed simp

lemma csi_open:
  assumes "quiet s"
  shows "term_bytes [0x1b, 0x5b] s = Done (in_csi s (replicate 16 0) 0 False 1)"
  using assms fill_values_eq [of "s\<lparr>escape := True, escape_offset := 1\<rparr>" 0 0]
  by (simp add: quiet_def term_putchar_def fbterm_get_cursor_pos_def escape_parse_def begin_csi_def TERM_MAX_ESC_VALUES_def in_csi_def)

lemma csi_next_digit:
  assumes "quiet s" and "length vs = 16" and "i < 16" and "n < 100" and "0x30 \<le> c" "c \<le> 0x39" and "m = n + 1"
  shows "term_putchar c (in_csi s vs i r n) = Done (in_csi s (vs[i := vs ! i * 10 + (ucast c - 0x30)]) i True m)"
proof -
  have "c \<noteq> 0x18" "c \<noteq> 0x1a" "c \<noteq> 0x5b" "c \<noteq> 0x3f" using assms(5,6) by auto
  then show ?thesis using assms
    by (simp add: quiet_def term_putchar_def escape_parse_def control_sequence_parse_def csi_digit_def set_esc_def TERM_MAX_ESC_VALUES_def)
qed

lemma csi_semicolon:
  assumes "quiet s" and "n < 100" and "m = n + 1" and "k = i + 1"
  shows "term_putchar 0x3b (in_csi s vs i True n) = Done (in_csi s vs k False m)"
  using assms by (simp add: quiet_def term_putchar_def escape_parse_def control_sequence_parse_def)

lemma csi_end:
  assumes "quiet s" and "length vs = 16" and "i < 16" and "n < 100" and "c \<in> {0x72, 0x64, 0x47, 0x6d}" and "m = n + 1" and "k = i + 1"
  shows "term_putchar c (in_csi s vs i True n) =
    bind_outcome (csi_command c ((in_csi s (take k vs @ replicate (16 - k) 1) k False m)\<lparr>scroll_enabled := False\<rparr>))
      (\<lambda>t. Done (csi_cleanup (t\<lparr>scroll_enabled := True\<rparr>)))"
proof -
  have "c \<noteq> 0x18" "c \<noteq> 0x1a" "c \<noteq> 0x3f" "c \<noteq> 0x3b" "\<not> c \<le> 0x39" "c \<noteq> 0x5b" "c \<noteq> chr8 CHR ''J''" "c \<noteq> chr8 CHR ''K''" "c \<noteq> chr8 CHR ''q''"
    using assms(5) by auto
  then show ?thesis using assms(1-4,6,7) fill_values_eq [of "in_csi s vs (i + 1) False (n + 1)" "i + 1" 1]
    by (simp add: quiet_def term_putchar_def escape_parse_def control_sequence_parse_def csi_final_def TERM_MAX_ESC_VALUES_def Let_def)
qed

section \<open>A region that ends above the last row\<close>
lemma texting_quiet: "texting h w fg bg s \<Longrightarrow> quiet s"
  using textingD(1,3,13) [of h w fg bg s] by (simp add: quiet_def idle_def ready_def safeD)

lemma digits: "(0x30 :: u8) \<le> 0x31" "(0x31 :: u8) \<le> 0x39" "(0x30 :: u8) \<le> 0x32" "(0x32 :: u8) \<le> 0x39" "(0x30 :: u8) \<le> 0x30" "(0x30 :: u8) \<le> 0x39"
  "(0x30 :: u8) \<le> 0x33" "(0x33 :: u8) \<le> 0x39" "(0x30 :: u8) \<le> 0x38" "(0x38 :: u8) \<le> 0x39" "(0x30 :: u8) \<le> 0x35" "(0x35 :: u8) \<le> 0x39" "(0x30 :: u8) \<le> 0x36" "(0x36 :: u8) \<le> 0x39"
  by simp_all

text \<open>\<open>ESC [ 1 ; 2 r\<close> makes the first two rows the scrolling region.\<close>
lemma region_sequence:
  assumes q: "quiet s" and h: "2 < rows s" "rows s < 2 ^ 31" "0 < cols s" "cols s < 2 ^ 31"
  shows "\<exists>vs. length vs = 16 \<and> term_bytes [0x1b, 0x5b, 0x31, 0x3b, 0x32, 0x72] s =
    Done (s\<lparr>esc_values := vs, esc_values_i := 2, rrr := False, escape_offset := 5, control_sequence := False, escape := False, scroll_enabled := True,
      scroll_top_margin := 0, scroll_bottom_margin := 2, cursor_x := 0, cursor_y := 0\<rparr>)"
proof -
  define v1 where "v1 = (replicate 16 (0 :: u32))[0 := 1]"
  define v2 where "v2 = v1[1 := 2]"
  have l: "length v1 = 16" "length v2 = 16" "v1 ! 1 = 0" "v2 ! 0 = 1" "v2 ! 1 = 2" by (simp_all add: v1_def v2_def)
  have "term_putchar 0x31 (in_csi s (replicate 16 0) 0 False 1) = Done (in_csi s v1 0 True 2)"
    using csi_next_digit [OF q _ _ _ digits(1,2), of "replicate 16 0" 0 1 2 False] by (simp add: v1_def)
  moreover have "term_putchar 0x3b (in_csi s v1 0 True 2) = Done (in_csi s v1 1 False 3)" using csi_semicolon [OF q, of 2 3 1 0 v1] by simp
  moreover have "term_putchar 0x32 (in_csi s v1 1 False 3) = Done (in_csi s v2 1 True 4)"
    using csi_next_digit [OF q l(1) _ _ digits(3,4), of 1 3 4 False] l(3) by (simp add: v2_def)
  ultimately have e: "term_bytes [0x1b, 0x5b, 0x31, 0x3b, 0x32, 0x72] s = term_bytes [0x72] (in_csi s v2 1 True 4)"
    using csi_open [OF q] term_bytes_append [of "[0x1b, 0x5b]" "[0x31, 0x3b, 0x32, 0x72]" s] by simp
  let ?vs = "take 2 v2 @ replicate 14 1"
  let ?t = "(in_csi s ?vs 2 False 5)\<lparr>scroll_enabled := False\<rparr>"
  have v: "?vs ! 0 = 1" "?vs ! 1 = 2" "length ?vs = 16" using l by (simp_all add: nth_append)
  have "csi_command 0x72 ?t = Done (fbterm_set_cursor_pos 0 0 (?t\<lparr>scroll_top_margin := 0, scroll_bottom_margin := 2\<rparr>))"
    using v h by (simp add: csi_command_def fbterm_get_cursor_pos_def csi_margins_def in_csi_def Let_def)
  then have "term_putchar 0x72 (in_csi s v2 1 True 4) =
      Done (csi_cleanup ((fbterm_set_cursor_pos 0 0 (?t\<lparr>scroll_top_margin := 0, scroll_bottom_margin := 2\<rparr>))\<lparr>scroll_enabled := True\<rparr>))"
    using csi_end [OF q l(2), of 1 4 "0x72" 5 2] by simp
  then show ?thesis using e v(3) h by (intro exI [of _ ?vs]) (simp add: fbterm_set_cursor_pos_def csi_cleanup_def in_csi_def)
qed

text \<open>\<open>ESC [ 0 d\<close> and \<open>ESC [ 0 G\<close>: the position is one less than zero and is cut off at the last row and column.\<close>

definition after_csi :: "'a fbterm_context_scheme \<Rightarrow> u32 list \<Rightarrow> 'a fbterm_context_scheme" where
  "after_csi s vs = s\<lparr>esc_values := vs, esc_values_i := 1, rrr := False, escape_offset := 3, control_sequence := False, escape := False, scroll_enabled := True\<rparr>"

lemma term_bytes_Nil: "term_bytes [] = Done"
  by (rule ext) simp

lemma zero_position:
  assumes "0 < b" "b < 2 ^ 31" and "esc_values s ! 0 = 0" and "length (esc_values s) = 16"
  shows "esc_position 0 b s = Done (b - 1, s\<lparr>esc_values := (esc_values s)[0 := of_nat (b - 1)]\<rparr>)"
proof -
  have "unat (of_nat (b - 1) :: u32) = b - 1" using assms(2) by (simp add: unat_of_nat)
  moreover have "unat ((0 :: u32) - 1) = 2 ^ 32 - 1" by (simp add: unsigned_minus_1_eq_mask mask_eq_exp_minus_1)
  moreover from this have "b \<le> unat ((0 :: u32) - 1)" using assms(2) by simp
  moreover have "sub64 b 1 = b - 1" using assms(1,2) by simp
  ultimately show ?thesis using assms(3,4) by (simp add: esc_position_def set_esc_def Let_def)
qed

lemma zero_sequence:
  assumes q: "quiet s" and c: "c \<in> {0x64, 0x47}"
  shows "term_bytes [0x1b, 0x5b, 0x30, c] s =
    bind_outcome (csi_command c ((in_csi s (0 # replicate 15 1) 1 False 3)\<lparr>scroll_enabled := False\<rparr>)) (\<lambda>t. Done (csi_cleanup (t\<lparr>scroll_enabled := True\<rparr>)))"
proof -
  have "(replicate 16 (0 :: u32))[0 := 0] = replicate 16 0" by (metis list_update_id nth_replicate zero_less_numeral)
  then have "term_putchar 0x30 (in_csi s (replicate 16 0) 0 False 1) = Done (in_csi s (replicate 16 0) 0 True 2)"
    using csi_next_digit [OF q _ _ _ digits(5,6), of "replicate 16 0" 0 1 2 False] by simp
  then have "term_bytes [0x1b, 0x5b, 0x30, c] s = term_putchar c (in_csi s (replicate 16 0) 0 True 2)"
    using csi_open [OF q] term_bytes_append [of "[0x1b, 0x5b]" "[0x30, c]" s] by (simp add: term_bytes_Nil)
  moreover have "take 1 (replicate 16 (0 :: u32)) @ replicate (16 - 1) 1 = 0 # replicate 15 1" by (simp add: take_replicate)
  ultimately show ?thesis using csi_end [OF q, of "replicate 16 0" 0 2 c 3 1] c by auto
qed

lemma last_row_sequence:
  assumes q: "quiet s" and h: "0 < rows s" "rows s < 2 ^ 31" "cursor_x s < cols s"
  obtains vs where "length vs = 16" "term_bytes [0x1b, 0x5b, 0x30, 0x64] s = Done ((after_csi s vs)\<lparr>cursor_y := rows s - 1\<rparr>)"
proof
  let ?t = "(in_csi s (0 # replicate 15 1) 1 False 3)\<lparr>scroll_enabled := False\<rparr>" and ?vs = "of_nat (rows s - 1) # replicate 15 1"
  have "esc_position 0 (rows s) ?t = Done (rows s - 1, ?t\<lparr>esc_values := ?vs\<rparr>)" using zero_position [OF h(1,2), of ?t] by simp
  then have "csi_command 0x64 ?t = Done (fbterm_set_cursor_pos (cursor_x s) (rows s - 1) (?t\<lparr>esc_values := ?vs\<rparr>))"
    by (simp add: csi_command_def fbterm_get_cursor_pos_def) (simp add: in_csi_def)
  then show "term_bytes [0x1b, 0x5b, 0x30, 0x64] s = Done ((after_csi s ?vs)\<lparr>cursor_y := rows s - 1\<rparr>)"
    using zero_sequence [OF q, of "0x64"] h by (simp add: fbterm_set_cursor_pos_def csi_cleanup_def after_csi_def in_csi_def)
qed simp

lemma last_column_sequence:
  assumes q: "quiet s" and h: "0 < cols s" "cols s < 2 ^ 31" "cursor_y s < rows s"
  obtains vs where "length vs = 16" "term_bytes [0x1b, 0x5b, 0x30, 0x47] s = Done ((after_csi s vs)\<lparr>cursor_x := cols s - 1\<rparr>)"
proof
  let ?t = "(in_csi s (0 # replicate 15 1) 1 False 3)\<lparr>scroll_enabled := False\<rparr>" and ?vs = "of_nat (cols s - 1) # replicate 15 1"
  have "esc_position 0 (cols s) ?t = Done (cols s - 1, ?t\<lparr>esc_values := ?vs\<rparr>)" using zero_position [OF h(1,2), of ?t] by simp
  then have "csi_command 0x47 ?t = Done (fbterm_set_cursor_pos (cols s - 1) (cursor_y s) (?t\<lparr>esc_values := ?vs\<rparr>))"
    by (simp add: csi_command_def fbterm_get_cursor_pos_def) (simp add: in_csi_def)
  then show "term_bytes [0x1b, 0x5b, 0x30, 0x47] s = Done ((after_csi s ?vs)\<lparr>cursor_x := cols s - 1\<rparr>)"
    using zero_sequence [OF q, of "0x47"] h by (simp add: fbterm_set_cursor_pos_def csi_cleanup_def after_csi_def in_csi_def)
qed simp

text \<open>A character in the last cell of the screen, below a region that ends higher up.\<close>
lemma write_below_region:
  assumes ok: "fb_ok s" and i: "idle s" and q: "quiet s" and c: "cursor_x s = cols s - 1" "cursor_y s = rows s - 1" and b: "scroll_bottom_margin s < rows s"
  shows "bind_outcome (term_putchar 0x78 s) (\<lambda>s. if autoflush s then fbterm_double_buffer_flush s else Done s) = Panic ''access outside of an array''"
proof -
  let ?u = "s\<lparr>cursor_x := add64 (cursor_x s) 1\<rparr>"
  have d: "0 < cols s" "1 < rows s" "cols s < 2 ^ 31" "rows s < 2 ^ 31" using fb_okD(8,9) [OF ok] rows_less [OF ok] by simp_all
  have fu: "fb_ok ?u" using ok by (rule fb_ok_cong [THEN iffD2, rotated]) (simp add: cell_part_def)
  obtain t where t: "push_to_queue \<lparr>ch_c = ucast (0x78 :: u8), ch_fg = text_fg s, ch_bg = text_bg s\<rparr> (cursor_x s) (cursor_y s) ?u = Done t" "fb_ok t" "off_screen t = off_screen ?u"
    using push_any [OF fu, of "\<lparr>ch_c = ucast (0x78 :: u8), ch_fg = text_fg s, ch_bg = text_bg s\<rparr>" "cursor_x s" "cursor_y s"] by (auto simp: runs_iff glyph_ok_def)
  have f: "cols t = cols ?u" "rows t = rows ?u" "cursor_x t = cursor_x ?u" "cursor_y t = cursor_y ?u" "scroll_bottom_margin t = scroll_bottom_margin ?u"
    "scroll_enabled t = scroll_enabled ?u" "autoflush t = autoflush ?u" "cursor_status t = cursor_status ?u"
    by (rule off_screen_field [OF t(3)]; simp add: off_screen_def)+
  have x: "add64 (cols s - Suc 0) (Suc 0) = cols s" "add64 (rows s - Suc 0) (Suc 0) = rows s" using d by simp_all
  have "fbterm_raw_putchar 0x78 s = Done (t\<lparr>cursor_x := 0, cursor_y := rows s\<rparr>)"
    using t(1) f c x d b q by (simp add: fbterm_raw_putchar_def Let_def quiet_def)
  moreover have "term_putchar 0x78 s = fbterm_raw_putchar 0x78 s"
    using i by (simp add: idle_def term_putchar_def fbterm_get_cursor_pos_def put_glyph_def CHARSET_DEFAULT_def CHARSET_DEC_SPECIAL_def)
  moreover have "array_at (qmap t) (rows s * cols s) = Panic ''access outside of an array''" using fb_okD(1) [OF t(2)] f by (simp add: array_at_def)
  ultimately show ?thesis using i f by (simp add: idle_def fbterm_double_buffer_flush_def draw_cursor_def Let_def)
qed

lemma region_fault:
  assumes s: "texting h w fg bg s" and h: "2 < h"
  shows "term_write [0x1b, 0x5b, 0x31, 0x3b, 0x32, 0x72, 0x1b, 0x5b, 0x30, 0x64, 0x1b, 0x5b, 0x30, 0x47, 0x78] s = Panic ''access outside of an array''"
proof -
  note d = textingD [OF s] and q = texting_quiet [OF s]
  obtain v1 where v1: "length v1 = 16" "term_bytes [0x1b, 0x5b, 0x31, 0x3b, 0x32, 0x72] s =
    Done (s\<lparr>esc_values := v1, esc_values_i := 2, rrr := False, escape_offset := 5, control_sequence := False, escape := False, scroll_enabled := True,
      scroll_top_margin := 0, scroll_bottom_margin := 2, cursor_x := 0, cursor_y := 0\<rparr>)" (is "_ = Done ?s1")
    using region_sequence [OF q] d(6,7,15-17) h by auto
  have q1: "quiet ?s1" "idle ?s1" "fb_ok ?s1" "rows ?s1 = h" "cols ?s1 = w" "cursor_x ?s1 < cols ?s1"
    using q v1(1) d(2,3,6,7,15) fb_ok_cong [of ?s1 s] by (simp_all add: quiet_def idle_def cell_part_def)
  obtain v2 where v2: "length v2 = 16" "term_bytes [0x1b, 0x5b, 0x30, 0x64] ?s1 = Done ((after_csi ?s1 v2)\<lparr>cursor_y := rows ?s1 - 1\<rparr>)" (is "_ = Done ?s2")
    by (rule last_row_sequence [OF q1(1)]) (use q1(4-6) d(16) h in simp_all)
  have q2: "quiet ?s2" "idle ?s2" "fb_ok ?s2" "rows ?s2 = h" "cols ?s2 = w" "cursor_y ?s2 < rows ?s2"
    using q1(1-5) v2(1) h fb_ok_cong [of ?s2 ?s1] by (simp_all add: quiet_def idle_def cell_part_def after_csi_def)
  obtain v3 where v3: "length v3 = 16" "term_bytes [0x1b, 0x5b, 0x30, 0x47] ?s2 = Done ((after_csi ?s2 v3)\<lparr>cursor_x := cols ?s2 - 1\<rparr>)" (is "_ = Done ?s3")
    by (rule last_column_sequence [OF q2(1)]) (use q2(4-6) d(15,17) h in simp_all)
  have q3: "quiet ?s3" "idle ?s3" "fb_ok ?s3" using q2(1-3) v3(1) fb_ok_cong [of ?s3 ?s2] by (simp_all add: quiet_def idle_def cell_part_def after_csi_def)
  have "bind_outcome (term_putchar 0x78 ?s3) (\<lambda>s. if autoflush s then fbterm_double_buffer_flush s else Done s) = Panic ''access outside of an array''"
    by (rule write_below_region [OF q3(3,2,1)]) (use h q2(4,5) in \<open>simp_all add: after_csi_def\<close>)
  then show ?thesis using v1(2) v2(2) v3(2)
      term_bytes_append [of "[0x1b, 0x5b, 0x31, 0x3b, 0x32, 0x72]" "[0x1b, 0x5b, 0x30, 0x64, 0x1b, 0x5b, 0x30, 0x47, 0x78]" s]
      term_bytes_append [of "[0x1b, 0x5b, 0x30, 0x64]" "[0x1b, 0x5b, 0x30, 0x47, 0x78]" ?s1] term_bytes_append [of "[0x1b, 0x5b, 0x30, 0x47]" "[0x78]" ?s2]
    by (simp only: term_write_def append.simps bind_outcome.simps term_bytes.simps(2) [of _ "[]"] term_bytes_Nil bind_outcome_Done)
qed

section \<open>A colour outside of the table\<close>

text \<open>\<open>ESC [ 38 ; 5 ; 256 m\<close> reads one entry past the end of the colour table.\<close>
lemma sgr_fault:
  assumes "length (esc_values t) = 16" and "esc_values t ! 0 = 38" "esc_values t ! Suc 0 = 5" "esc_values t ! Suc (Suc 0) = 256" and "esc_values_i t = 3"
  shows "sgr t = Panic ''access outside of an array''"
  using assms by (simp add: sgr_def while_outcome_step sgr_step_def sgr_extended_def array_at_def [of col256])

lemma csi_command_sgr: "csi_command 0x6d t = sgr t"
  by (simp add: csi_command_def fbterm_get_cursor_pos_def)

lemma colour_fault:
  assumes q: "quiet s"
  shows "term_bytes [0x1b, 0x5b, 0x33, 0x38, 0x3b, 0x35, 0x3b, 0x32, 0x35, 0x36, 0x6d] s = Panic ''access outside of an array''"
proof -
  define z where "z = replicate 16 (0 :: u32)"
  have z: "length z = 16" "\<And>i. i < 16 \<Longrightarrow> z ! i = 0" by (simp_all add: z_def)
  have d: "term_putchar 0x33 (in_csi s z 0 False 1) = Done (in_csi s (z[0 := 3]) 0 True 2)"
    "term_putchar 0x38 (in_csi s (z[0 := 3]) 0 True 2) = Done (in_csi s (z[0 := 38]) 0 True 3)"
    "term_putchar 0x3b (in_csi s (z[0 := 38]) 0 True 3) = Done (in_csi s (z[0 := 38]) 1 False 4)"
    "term_putchar 0x35 (in_csi s (z[0 := 38]) 1 False 4) = Done (in_csi s (z[0 := 38, 1 := 5]) 1 True 5)"
    "term_putchar 0x3b (in_csi s (z[0 := 38, 1 := 5]) 1 True 5) = Done (in_csi s (z[0 := 38, 1 := 5]) 2 False 6)"
    "term_putchar 0x32 (in_csi s (z[0 := 38, 1 := 5]) 2 False 6) = Done (in_csi s (z[0 := 38, 1 := 5, 2 := 2]) 2 True 7)"
    "term_putchar 0x35 (in_csi s (z[0 := 38, 1 := 5, 2 := 2]) 2 True 7) = Done (in_csi s (z[0 := 38, 1 := 5, 2 := 25]) 2 True 8)"
    "term_putchar 0x36 (in_csi s (z[0 := 38, 1 := 5, 2 := 25]) 2 True 8) = Done (in_csi s (z[0 := 38, 1 := 5, 2 := 256]) 2 True 9)"
    by ((subst csi_next_digit [OF q] csi_semicolon [OF q]); simp add: z digits)+
  define vs where "vs = z[0 := 38, 1 := 5, 2 := 256]"
  have v: "length vs = 16" "vs ! 0 = 38" "vs ! Suc 0 = 5" "vs ! Suc (Suc 0) = 256" using z by (simp_all add: vs_def numeral_2_eq_2)
  have w: "length (take 3 vs @ replicate 13 1) = 16" "(take 3 vs @ replicate 13 1) ! 0 = 38" "(take 3 vs @ replicate 13 1) ! Suc 0 = 5" "(take 3 vs @ replicate 13 1) ! Suc (Suc 0) = 256"
    using v by (simp_all add: nth_append)
  have "csi_command 0x6d ((in_csi s (take 3 vs @ replicate 13 1) 3 False 10)\<lparr>scroll_enabled := False\<rparr>) = Panic ''access outside of an array''"
    unfolding csi_command_sgr by (rule sgr_fault) (use w in simp_all)
  note f = this
  have c: "(0x6d :: u8) \<in> {0x72, 0x64, 0x47, 0x6d}" by simp
  have n: "2 < (16 :: nat)" "9 < (100 :: nat)" "10 = 9 + (1 :: nat)" "3 = 2 + (1 :: nat)" "16 - 3 = (13 :: nat)" by simp_all
  have "term_putchar 0x6d (in_csi s vs 2 True 9) = Panic ''access outside of an array''"
    using csi_end [OF q v(1) n(1,2) c n(3,4)] unfolding n(5) f bind_outcome.simps .
  with d [folded vs_def] have "term_bytes [0x33, 0x38, 0x3b, 0x35, 0x3b, 0x32, 0x35, 0x36, 0x6d] (in_csi s z 0 False 1) = Panic ''access outside of an array''"
    by (simp only: term_bytes.simps bind_outcome.simps)
  with csi_open [OF q, folded z_def] show ?thesis
    using term_bytes_append [of "[0x1b, 0x5b]" "[0x33, 0x38, 0x3b, 0x35, 0x3b, 0x32, 0x35, 0x36, 0x6d]" s] by (simp only: append.simps bind_outcome.simps)
qed

section \<open>Both faults\<close>

text \<open>C39: two sequences take the terminal out of its arrays, in any state in which it reads text. With
  three rows or more, \<open>ESC [ 1 ; 2 r\<close> sets a scrolling region that ends above the last row; a character
  written at the end of the last row then moves the cursor to a row that does not exist, and drawing
  the cursor reads past the end of the map. \<open>ESC [ 38 ; 5 ; 256 m\<close> reads past the end of the table of
  256 colours.\<close>
theorem sequences_leave_arrays:
  assumes "texting h w fg bg s" and "2 < h"
  shows "term_write [0x1b, 0x5b, 0x31, 0x3b, 0x32, 0x72, 0x1b, 0x5b, 0x30, 0x64, 0x1b, 0x5b, 0x30, 0x47, 0x78] s = Panic ''access outside of an array'' \<and>
    term_write [0x1b, 0x5b, 0x33, 0x38, 0x3b, 0x35, 0x3b, 0x32, 0x35, 0x36, 0x6d] s = Panic ''access outside of an array''"
  using region_fault [OF assms] colour_fault [OF texting_quiet [OF assms(1)]] by (simp add: term_write_def del: term_bytes.simps)

theorem sequences_leave_arrays_witness:
  "\<exists>s. terminal_bringup clear_memory (replicate 1000 0) 20 50 80 0 7 = Done s \<and>
    term_write [0x1b, 0x5b, 0x33, 0x38, 0x3b, 0x35, 0x3b, 0x32, 0x35, 0x36, 0x6d] s = Panic ''access outside of an array''"
proof -
  have f: "frame_ok (replicate 1000 0) 20 50 80" by (simp add: frame_ok_def)
  obtain s where "terminal_bringup clear_memory (replicate 1000 0) 20 50 80 0 7 = Done s" "texting 3 2 7 0xffffffff s"
    using bringup_text [OF f demo_frame(2), of 0 7] by (auto simp: runs_iff texting_on_def)
  with sequences_leave_arrays [of 3 2 7 "0xffffffff" s] show ?thesis by auto
qed

section \<open>All other bytes\<close>

text \<open>A byte that ends neither a colour nor a region sequence is harmless anywhere.\<close>
lemma harmless_run_plain: "list_all (\<lambda>c. c \<noteq> chr8 CHR ''m'' \<and> c \<noteq> chr8 CHR ''r'') cs \<Longrightarrow> harmless_run cs s"
  by (induction cs arbitrary: s) (auto simp: harmless_def params_ok_def split: outcome.split)

lemma harmless_run_append:
  "harmless_run (xs @ ys) s \<longleftrightarrow> harmless_run xs s \<and> (case term_bytes xs s of Done t \<Rightarrow> harmless_run ys t | _ \<Rightarrow> True)"
proof (induction xs arbitrary: s)
  case (Cons c xs) then show ?case by (cases "term_putchar c s") auto
qed simp

text \<open>\<open>ESC [ 1 ; 9 r\<close> asks for more rows than a screen of two has.\<close>
lemma wide_region_harmless:
  assumes q: "quiet s" and r: "rows s = 2" and cs: "list_all (\<lambda>c. c \<noteq> chr8 CHR ''m'' \<and> c \<noteq> chr8 CHR ''r'') cs"
  shows "harmless_run ([0x1b, 0x5b] @ [0x31, 0x3b, 0x39] @ 0x72 # cs) s"
proof -
  define v1 where "v1 = (replicate 16 (0 :: u32))[0 := 1]"
  define v2 where "v2 = v1[1 := 9]"
  have l: "length v1 = 16" "v1 ! 1 = 0" by (simp_all add: v1_def)
  have "term_putchar 0x31 (in_csi s (replicate 16 0) 0 False 1) = Done (in_csi s v1 0 True 2)"
    using csi_next_digit [OF q _ _ _ digits(1,2), of "replicate 16 0" 0 1 2 False] by (simp add: v1_def)
  moreover have "term_putchar 0x3b (in_csi s v1 0 True 2) = Done (in_csi s v1 1 False 3)" using csi_semicolon [OF q, of 2 3 1 0 v1] by simp
  moreover have "term_putchar 0x39 (in_csi s v1 1 False 3) = Done (in_csi s v2 1 True 4)"
    using csi_next_digit [OF q l(1) _ _ digits(6) order_refl, of 1 3 4 False] l(2) by (simp add: v2_def)
  ultimately have e: "term_bytes [0x31, 0x3b, 0x39] (in_csi s (replicate 16 0) 0 False 1) = Done (in_csi s v2 1 True 4)" by simp
  have "csi_params (in_csi s v2 1 True 4) = [1, 9]" by (simp add: csi_params_def v1_def v2_def numeral_eq_Suc)
  then have "harmless 0x72 (in_csi s v2 1 True 4)" using r by (simp add: harmless_def params_ok_def in_csi_def)
  then have "harmless_run (0x72 # cs) (in_csi s v2 1 True 4)" using harmless_run_plain [OF cs] by (auto split: outcome.split)
  moreover have "harmless_run [0x1b, 0x5b] s" "harmless_run [0x31, 0x3b, 0x39] (in_csi s (replicate 16 0) 0 False 1)" by (rule harmless_run_plain, simp)+
  ultimately show ?thesis unfolding harmless_run_append csi_open [OF q] outcome.case e by blast
qed

text \<open>C6: from a state that satisfies the terminal's invariant, the parser takes any bytes in which no
  sequence ends in one of two ways: \<open>ESC [ m\<close> with a colour \<open>38;5;n\<close> or \<open>48;5;n\<close> where \<open>n\<close> is 256 or
  more, and \<open>ESC [ r\<close> with values that the code accepts as a scrolling region ending above the last row.
  \<open>term_write\<close> then returns, without an access outside of an array and without running forever, and
  the invariant holds again: any other value of a colour, and a region that asks for rows that do not
  exist, are taken in. If the output is flushed, the frame buffer shows the screen the bytes left.\<close>
theorem terminal_safe:
  assumes "ready s" and "harmless_run cs s"
  shows "\<exists>u t. term_bytes cs s = Done u \<and> term_write cs s = Done t \<and> ready t \<and> (autoflush u \<longrightarrow> shows_screen u t)"
  by (rule term_write_run [OF assms]) blast

theorem terminal_safe_witness:
  "\<exists>s u t. terminal_bringup clear_memory (replicate 680 0) 20 34 80 0 7 = Done s \<and> ready s \<and>
    harmless_run [0x1b, 0x5b, 0x31, 0x3b, 0x39, 0x72, 0x1b, 0x5b, 0x32, 0x4a, 0x1b, 0x4d] s \<and>
    term_bytes [0x1b, 0x5b, 0x31, 0x3b, 0x39, 0x72, 0x1b, 0x5b, 0x32, 0x4a, 0x1b, 0x4d] s = Done u \<and>
    term_write [0x1b, 0x5b, 0x31, 0x3b, 0x39, 0x72, 0x1b, 0x5b, 0x32, 0x4a, 0x1b, 0x4d] s = Done t \<and> ready t"
proof -
  obtain s where s: "terminal_bringup clear_memory (replicate 680 0) 20 34 80 0 7 = Done s" "texting 2 2 7 0xffffffff s"
    using bringup_text [OF demo_frame, of 0 7] by (auto simp: runs_iff texting_on_def)
  note d = textingD(1,6) [OF s(2)]
  have "harmless_run [0x1b, 0x5b, 0x31, 0x3b, 0x39, 0x72, 0x1b, 0x5b, 0x32, 0x4a, 0x1b, 0x4d] s"
    using wide_region_harmless [OF texting_quiet [OF s(2)] d(2), of "[0x1b, 0x5b, 0x32, 0x4a, 0x1b, 0x4d]"] by (simp only: append.simps) simp
  with terminal_safe [OF d(1) this] s(1) d(1) show ?thesis by blast
qed

end
