(* ===== verification/Spec2Isabelle.thy ===== *)
theory Spec2Isabelle
  imports Boot_Paging_Total Heap_Client Frame_Init Cstring Printf_Correct Sched_Run Term_Faults
begin

text \<open>
  VoyagerOS64 is a 64-bit kernel in C, started by the Limine boot loader. This development models the
  parts of it that manage memory, tasks, input and output, proves that each does what its callers rely
  on, and records where it does not.

  \<^bold>\<open>The program.\<close> \<open>_start\<close> (src/src/kernel.c) brings the kernel up in layers, and each layer is used by the
  next. The early allocator (early_alloc.c) hands out pages of one usable region of the loader's memory
  map. The boot paging code (paging/paging_bootstrap.c) builds page tables from these pages, with the
  kernel image and a direct map of physical memory, and installs them. The frame allocator
  (neo_framealloc.c) takes over with two bitmaps. The generic page-table code (paging.c) maps and unmaps
  single pages, and the heap (mm/kmalloc.c) grows through both. The scheduler (sched.c, sched_ll.asm)
  takes control blocks and stacks from the heap. Text is formatted by printf.c, routed by putchar.c to
  the serial line (serial.c), to the loader's terminal or to the frame buffer terminal (terminal/term.c
  and terminal/framebuffer.c), and typed characters come in through a ring buffer
  (drivers/keyboard/keyboard.c).

  \<^bold>\<open>The form of the model.\<close> A routine is a function of the state that returns an outcome: \<open>Done\<close> with its
  result, \<open>Panic\<close> with the message (also for an access outside of an array, a null pointer that is
  followed and a division by zero where the code can meet them), or \<open>Diverge\<close>. The state is a chain of
  records, one per layer, each extending the one below: \<open>early_state\<close>, \<open>frame_state\<close>, \<open>paging_state\<close>,
  \<open>heap_state\<close>, \<open>device_state\<close>, \<open>console_state\<close>, then the keyboard and the scheduler; the terminal has its own, as
  \<open>struct fbterm_context\<close> extends \<open>struct term_context\<close>. Memory is a function from 64-bit addresses to
  bytes, so page tables, heap blocks, control blocks and stacks are bytes at addresses, and that two
  structures do not overlap is proved. Machine integers are words; sizes and indices that stay below
  their width are naturals, and the places where they can leave it wrap explicitly.

  \<^bold>\<open>Theories.\<close>
  \<^item> \<open>Prelude\<close>: words, outcomes with the rules \<open>ends\<close> (if it returns) and \<open>runs\<close> (it returns), loops, memory,
    and the locale \<open>word_store\<close> for memory seen as independent 64-bit cells, interpreted for page tables
    (\<open>Table_Memory\<close>) and for the heap (\<open>Heap_Blocks\<close>).
  \<^item> \<open>Boot_Info\<close> (include/limine.h, limine_requests.c, KernelUtils.c): what the loader reports, an argument
    of the routines that read it.
  \<^item> \<open>Early_Alloc\<close> (early_alloc.c): the region chosen and its pages in order (C20, C21); the locale
    \<open>frame_source\<close>, the contract of a supplier of page frames.
  \<^item> \<open>Frame_Alloc\<close>, \<open>Frame_Init\<close> (neo_framealloc.c): the bitmaps after initialisation (C10), allocation and
    freeing (C13, C22, C23), that no frame has two owners (C11) and that the pages the early allocator
    gave away never come back (C18).
  \<^item> \<open>Kstring\<close>, \<open>Cstring\<close> (mem*.c, str*.c, str2int.c, int2srt.c): memory and string primitives, decimal
    conversions (C33, C34).
  \<^item> \<open>Page_Tree\<close>: page-table trees without their storage, the translation \<open>resolve\<close> that the hardware makes,
    the entries on the way, and the rights that all of them together give.
    \<open>Table_Memory\<close>, \<open>Table_Tree\<close>: such trees in memory and the invariant of both mapping layers.
  \<^item> \<open>Paging\<close>, \<open>Paging_Correct\<close> (paging.c, include/paging/paging.h): mapping and unmapping (C12, C19) and the
    missing check of a null table (C24).
  \<^item> \<open>Boot_Paging\<close>, \<open>Boot_Paging_Correct\<close>, \<open>Boot_Paging_Total\<close> (paging/paging_bootstrap.c): the walk (C25) and a
    single mapping (C26); of the finished tables the rights of the image (C3), the direct map (C4) and
    what stays mapped across the switch of CR3 (C17); and that the construction returns (C40).
  \<^item> \<open>Kmalloc\<close>, \<open>Heap_Blocks\<close>, \<open>Kmalloc_Correct\<close>, \<open>Heap_Growth\<close>, \<open>Heap_Ops\<close> (mm/kmalloc.c): the blocks that tile the
    heap, the free list, growth, and the public operations (C1, C2, C16, C27, C29, C30) with the locale of
    their contract. \<open>Heap_Client\<close>: any run of clients, against a ledger (C28). \<open>Kmalloc_Frame\<close>,
    \<open>Heap_Budget\<close>: what the heap leaves alone and how many requests it still serves, for the scheduler.
  \<^item> \<open>Devices\<close> (io.c, serial.c, pic.c, asmUtils.asm): ports, with the hardware as a parameter.
  \<^item> \<open>Printf\<close>, \<open>Printf_Correct\<close> (printf.c): the text of a format (C14), the bound of the buffer (C31) and a
    numeral that is cut off (C32).
  \<^item> \<open>Console\<close> (putchar.c): where a character goes (C36), the lines of the log (C35) and a recursion without
    end (C37).
  \<^item> \<open>Keyboard\<close> (drivers/keyboard): the ring as a bounded queue, the locale \<open>bounded_queue\<close> (C15).
  \<^item> \<open>Sched\<close>, \<open>Sched_Correct\<close>, \<open>Sched_Run\<close> (sched.c, sched_ll.asm): creation (C9), round-robin order (C8) and
    registers and stack across a turn of the others (C7), over runs of the whole system.
  \<^item> \<open>Term_State\<close>, \<open>Builtin_Font\<close>, \<open>Framebuffer\<close>, \<open>Term\<close> (terminal/term.c, terminal/framebuffer.c and their
    headers): the terminal. \<open>Term_Cells\<close>, \<open>Term_Draw\<close>: the screen as a store of cells (a locale) and what is
    painted (C38). \<open>Term_Safe\<close>, \<open>Term_Faults\<close>: which bytes keep the terminal inside its arrays (C6) and which
    do not (C39). \<open>Term_Init\<close>, \<open>Term_Text\<close>: from bring-up to the pixels of the text (C5).

  \<^bold>\<open>Bounds and fuel.\<close> A counted loop is a fold. A loop that may run on has as much fuel as its counter has
  values, so that running out of fuel is running forever: \<open>2 ^ 52\<close> pages for a walk over addresses
  (\<open>PAGES_FUEL\<close>), one more than the number of pointers for the search of the free list, \<open>2 ^ 64 + 1\<close> for scans
  of strings and for the terminal's loops over columns. The depth of \<open>_putchar\<close> calling itself is a
  parameter and C37 holds for every depth. That a routine returns is proved as such: \<open>runs\<close>, or
  \<open>\<exists>t. \<dots> = Done t\<close> in the statement.

  \<^bold>\<open>Assumptions.\<close> One processor and no interrupt in the middle of a routine: a lock that is held when it is
  acquired again is \<open>Diverge\<close>. The loader's data satisfies the named conditions of the statements, each with
  a witness. The allocator's memory for the terminal's map starts cleared, which \<open>kmalloc\<close> does not
  promise. The floating-point conversions of printf, the hardware and the answers of the ports are
  parameters.

  \<^bold>\<open>Not modelled.\<close> The order of calls in \<open>_start\<close> beyond the terminal's bring-up and the commands of shell.c; the
  clock and timers (time.c, pit.asm); descriptor tables and interrupt entry (gdt.c, idt.c, interrupts.c
  and the assembly stubs), whose meaning is the processor's; ACPI and APIC, switched off in the shipped
  configuration; stack traces and self-tests, which only print; the allocators that are no longer
  called (frameallocator.c, heap.c, pebble.c, bucket.c, liballoc.c, vmm.c); strtok; \<open>_ftoa\<close> and \<open>_etoa\<close>;
  \<open>fbterm_deinit\<close>.
\<close>

end
